(* ===== verification/Prelude.thy ===== *)
theory Prelude
  imports Complex_Main "HOL-Library.Word"
begin

text \<open>
  Shared vocabulary of the development: the machine integer types of the Rust sources, the
  saturating operations of the standard library, results as sums, list helpers for Rust's slice
  and iterator methods, and the collections of facts the component proofs use.
\<close>

named_theorems float_wf \<open>operations that return well-formed binary64 values\<close>
named_theorems state_simps \<open>projections of updated metadata records\<close>
named_theorems result_intros \<open>introduction rules for Ok and Err branches\<close>

section \<open>Machine integers\<close>

type_synonym u8 = "8 word"
type_synonym u16 = "16 word"
type_synonym u32 = "32 word"
type_synonym u64 = "64 word"

text \<open>Rust's \<open>u64::saturating_sub\<close> and \<open>u64::saturating_add\<close>.\<close>

definition saturating_sub :: "'a::len word \<Rightarrow> 'a word \<Rightarrow> 'a word" where
  "saturating_sub a b = (if a < b then 0 else a - b)"

definition saturating_add :: "'a::len word \<Rightarrow> 'a word \<Rightarrow> 'a word" where
  "saturating_add a b = (if unat a + unat b < 2 ^ LENGTH('a) then a + b else - 1)"

lemma unat_saturating_sub: "unat (saturating_sub a b) = unat a - unat b"
  by (auto simp: saturating_sub_def unat_sub_if' word_less_nat_alt not_less)

lemma saturating_sub_le [simp]: "saturating_sub a b \<le> a"
  by (simp add: word_le_nat_alt unat_saturating_sub)

lemma saturating_sub_self [simp]: "saturating_sub a a = 0"
  by (simp add: saturating_sub_def)

lemma saturating_sub_0 [simp]: "saturating_sub a 0 = a"
  by (simp add: saturating_sub_def)

lemma saturating_sub_eq_0_iff: "saturating_sub a b = 0 \<longleftrightarrow> a \<le> b"
  by (auto simp: saturating_sub_def)

lemma unat_saturating_add:
  fixes a b :: "'a::len word"
  shows "unat (saturating_add a b) = min (unat a + unat b) (2 ^ LENGTH('a) - 1)"
  by (auto simp: saturating_add_def unat_word_ariths min_def unsigned_minus_1_eq_mask mask_eq_exp_minus_1)

lemma saturating_add_ge:
  fixes a b :: "'a::len word"
  shows "a \<le> saturating_add a b"
proof -
  have "unat a \<le> 2 ^ LENGTH('a) - 1"
  proof -
    have "unat a < 2 ^ LENGTH('a)" by simp
    then show ?thesis by linarith
  qed
  then show ?thesis
    unfolding word_le_nat_alt unat_saturating_add by (simp add: min_def)
qed

section \<open>Results\<close>

text \<open>
  \<open>Result<T, E>\<close> is the sum \<open>'e + 'a\<close> with the error on the left; the question mark operator
  is \<open>bindR\<close>.
\<close>

type_synonym ('e, 'a) result = "'e + 'a"

abbreviation Err :: "'e \<Rightarrow> 'e + 'a" where "Err \<equiv> Inl"
abbreviation Ok :: "'a \<Rightarrow> 'e + 'a" where "Ok \<equiv> Inr"

definition bindR :: "'e + 'a \<Rightarrow> ('a \<Rightarrow> 'e + 'b) \<Rightarrow> 'e + 'b" where
  "bindR r f = (case r of Inl e \<Rightarrow> Inl e | Inr x \<Rightarrow> f x)"

lemma bindR_simps [simp]: "bindR (Inl e) f = Inl e" "bindR (Inr x) f = f x"
  by (simp_all add: bindR_def)

lemma bindR_Ok_iff: "bindR r f = Inr y \<longleftrightarrow> (\<exists>x. r = Inr x \<and> f x = Inr y)"
  by (cases r) simp_all

lemma bindR_OkE [elim!]:
  assumes "bindR r f = Inr y"
  obtains x where "r = Inr x" "f x = Inr y"
  using assms by (auto simp: bindR_Ok_iff)

definition is_Ok :: "'e + 'a \<Rightarrow> bool" where
  "is_Ok r = (case r of Inl _ \<Rightarrow> False | Inr _ \<Rightarrow> True)"

lemma is_Ok_simps [simp]: "\<not> is_Ok (Inl e)" "is_Ok (Inr x)"
  by (simp_all add: is_Ok_def)

definition map_err :: "('e \<Rightarrow> 'f) \<Rightarrow> 'e + 'a \<Rightarrow> 'f + 'a" where
  "map_err g r = (case r of Inl e \<Rightarrow> Inl (g e) | Inr x \<Rightarrow> Inr x)"

lemma map_err_simps [simp]: "map_err g (Inl e) = Inl (g e)" "map_err g (Inr x) = Inr x"
  by (simp_all add: map_err_def)

lemma map_err_Ok_iff [simp]: "map_err g r = Inr x \<longleftrightarrow> r = Inr x"
  by (cases r) simp_all

text \<open>\<open>collect::<Result<Vec<_>, _>>()\<close> of a fallible map: the first error wins.\<close>

fun map_result :: "('a \<Rightarrow> 'e + 'b) \<Rightarrow> 'a list \<Rightarrow> 'e + 'b list" where
  "map_result f [] = Inr []"
| "map_result f (x # xs) = bindR (f x) (\<lambda>y. bindR (map_result f xs) (\<lambda>ys. Inr (y # ys)))"

lemma map_result_Ok_iff:
  "map_result f xs = Inr ys \<longleftrightarrow> list_all2 (\<lambda>x y. f x = Inr y) xs ys"
  by (induction xs arbitrary: ys)
    (auto simp: bindR_Ok_iff list_all2_Cons1)

lemma map_result_length: "map_result f xs = Inr ys \<Longrightarrow> length ys = length xs"
  by (auto simp: map_result_Ok_iff dest: list_all2_lengthD)

section \<open>Slices\<close>

lemma nth_upd: "j < length b \<Longrightarrow> b[i := x] ! j = (if i = j then x else b ! j)"
  by (cases "i = j") simp_all

text \<open>\<open>slice.get(i)\<close>: \<open>None\<close> out of range.\<close>

definition get_opt :: "'a list \<Rightarrow> nat \<Rightarrow> 'a option" where
  "get_opt xs i = (if i < length xs then Some (xs ! i) else None)"

lemma get_opt_Some_iff: "get_opt xs i = Some x \<longleftrightarrow> i < length xs \<and> xs ! i = x"
  by (simp add: get_opt_def)

lemma get_opt_None_iff: "get_opt xs i = None \<longleftrightarrow> length xs \<le> i"
  by (simp add: get_opt_def not_less)

text \<open>\<open>slice.get(i).copied().unwrap_or(d)\<close>.\<close>

definition get_or :: "'a \<Rightarrow> 'a list \<Rightarrow> nat \<Rightarrow> 'a" where
  "get_or d xs i = (if i < length xs then xs ! i else d)"

lemma get_or_in [simp]: "i < length xs \<Longrightarrow> get_or d xs i = xs ! i"
  by (simp add: get_or_def)

lemma get_or_out [simp]: "length xs \<le> i \<Longrightarrow> get_or d xs i = d"
  by (simp add: get_or_def)

text \<open>\<open>Vec::resize(n, d)\<close> followed by nothing: cut or padded to exactly \<open>n\<close> elements.\<close>

definition resize :: "nat \<Rightarrow> 'a \<Rightarrow> 'a list \<Rightarrow> 'a list" where
  "resize n d xs = take n xs @ replicate (n - length xs) d"

lemma length_resize [simp]: "length (resize n d xs) = n"
  by (simp add: resize_def)

lemma resize_id [simp]: "length xs = n \<Longrightarrow> resize n d xs = xs"
  by (simp add: resize_def)

lemma nth_resize: "i < n \<Longrightarrow> resize n d xs ! i = get_or d xs i"
  by (auto simp: resize_def get_or_def nth_append)

lemma set_resize: "set (resize n d xs) \<subseteq> insert d (set xs)"
  by (auto simp: resize_def dest: in_set_takeD)

text \<open>\<open>iter().enumerate().filter_map(|(i, b)| b.then_some(i)).collect()\<close>.\<close>

definition true_indices :: "bool list \<Rightarrow> nat list" where
  "true_indices bs = [i \<leftarrow> [0..<length bs]. bs ! i]"

lemma set_true_indices: "set (true_indices bs) = {i. i < length bs \<and> bs ! i}"
  by (auto simp: true_indices_def)

lemma sorted_true_indices: "sorted (true_indices bs)" "distinct (true_indices bs)"
  by (simp_all add: true_indices_def sorted_wrt_filter)

text \<open>\<open>xs.iter().zip(mask).filter(|(_, m)| m).map(|(x, _)| x)\<close>.\<close>

definition masked :: "'a list \<Rightarrow> bool list \<Rightarrow> 'a list" where
  "masked xs m = map fst (filter snd (zip xs m))"

lemma masked_simps [simp]:
  "masked [] m = []" "masked xs [] = []"
  "masked (x # xs) (b # m) = (if b then x # masked xs m else masked xs m)"
  by (simp_all add: masked_def)

lemma masked_eq_nth:
  "length xs = length m \<Longrightarrow> masked xs m = map ((!) xs) (true_indices m)"
proof (induction xs m rule: list_induct2)
  case (Cons x xs b m)
  have "true_indices (b # m) = (if b then [0] else []) @ map Suc (true_indices m)"
  proof -
    have "[0..<length (b # m)] = 0 # map Suc [0..<length m]"
      by (simp only: length_Cons upt_conv_Cons map_Suc_upt zero_less_Suc)
    then show ?thesis
      by (simp add: true_indices_def filter_map comp_def del: upt_Suc)
  qed
  with Cons show ?case by (simp add: comp_def)
qed (simp add: true_indices_def)

lemma length_masked: "length xs = length m \<Longrightarrow> length (masked xs m) = length (filter id m)"
  by (induction xs m rule: list_induct2) auto

lemma set_masked: "set (masked xs m) \<subseteq> set xs"
  by (auto simp: masked_def dest: set_zip_leftD)

lemma masked_all_true: "length xs = n \<Longrightarrow> masked xs (replicate n True) = xs"
  by (induction xs arbitrary: n) (auto simp: masked_def)

lemma map_masked: "map f (masked xs m) = masked (map f xs) m"
  by (induction xs m rule: list_induct2') auto

lemma masked_Nil_iff: "length xs = length m \<Longrightarrow> masked xs m = [] \<longleftrightarrow> True \<notin> set m"
  by (induction xs m rule: list_induct2) auto

end
