(* ===== verification/Float64.thy ===== *)
theory Float64
  imports Prelude "HOL-Library.Log_Nat"
begin

text \<open>
  IEEE 754 binary64 arithmetic (Rust's \<open>f64\<close>), executable. A value is one of the two infinities,
  a quiet NaN (payloads are not observed by the sources), negative zero, or a rational number;
  \<open>Fin 0\<close> is positive zero. Every arithmetic operation computes the exact rational result and
  rounds it to nearest, ties to even, with gradual underflow below \<open>2 ^ -1022\<close> and overflow to
  infinity above the largest finite value, as the hardware does. The facts below (rounding is
  monotone, fixes the representable values and commutes with negation) are what the range and
  sign properties of the components rest on.
\<close>

section \<open>Powers of two and the binary logarithm of a rational\<close>

definition pow2 :: "int \<Rightarrow> rat" where
  "pow2 e = 2 powi e"

lemma pow2_pos [simp]: "0 < pow2 e"
  by (simp add: pow2_def)

lemma pow2_nonneg [simp]: "0 \<le> pow2 e"
  by (simp add: pow2_def)

lemma pow2_neq_0 [simp]: "pow2 e \<noteq> 0"
  by (simp add: pow2_def)

lemma pow2_add: "pow2 (a + b) = pow2 a * pow2 b"
  by (simp add: pow2_def power_int_add)

lemma pow2_diff: "pow2 (a - b) = pow2 a / pow2 b"
  by (simp add: pow2_def power_int_diff)

lemma pow2_0 [simp]: "pow2 0 = 1"
  by (simp add: pow2_def)

lemma pow2_of_nat: "pow2 (int n) = 2 ^ n"
  by (simp add: pow2_def)

lemma pow2_mono: "a \<le> b \<Longrightarrow> pow2 a \<le> pow2 b"
  by (simp add: pow2_def power_int_increasing)

lemma pow2_strict_mono: "a < b \<Longrightarrow> pow2 a < pow2 b"
  by (simp add: pow2_def power_int_strict_increasing)

lemma pow2_less_iff: "pow2 a < pow2 b \<longleftrightarrow> a < b"
  using pow2_mono pow2_strict_mono by (metis linorder_not_le)

definition ilog2 :: "rat \<Rightarrow> int" where
  "ilog2 r = (case quotient_of r of (p, q) \<Rightarrow>
     let k = bitlen p - bitlen q
     in if pow2 k \<le> r then k else k - 1)"

lemma bitlen_pow2_bounds:
  assumes "0 < p"
  shows "pow2 (bitlen p - 1) \<le> of_int p" "of_int p < pow2 (bitlen p)"
proof -
  let ?n = "nat p" and ?a = "floorlog 2 (nat p)"
  have n: "0 < ?n" using assms by simp
  have a: "0 < ?a" using n by (simp add: floorlog_eq_zero_iff zero_less_iff_neq_zero)
  have bl: "bitlen p = int ?a" by (simp add: bitlen_def)
  have b: "2 ^ (?a - 1) \<le> ?n \<and> ?n < 2 ^ ?a"
    using floorlog_bounds [of ?n 2] n by simp
  have p: "rat_of_int p = of_nat ?n" using assms by simp
  have "pow2 (int ?a - 1) = of_nat (2 ^ (?a - 1))"
    using a pow2_of_nat [of "?a - 1"] by (simp add: of_nat_diff)
  also have "\<dots> \<le> of_nat ?n" using b by (simp only: of_nat_le_iff)
  finally show "pow2 (bitlen p - 1) \<le> of_int p" by (simp only: p bl)
  have "rat_of_nat ?n < of_nat (2 ^ ?a)" using b by (simp only: of_nat_less_iff)
  then show "of_int p < pow2 (bitlen p)" by (simp only: p bl pow2_of_nat of_nat_power of_nat_numeral)
qed

lemma ilog2_bounds:
  assumes "0 < r"
  shows "pow2 (ilog2 r) \<le> r" "r < pow2 (ilog2 r + 1)"
proof -
  obtain p q where pq: "quotient_of r = (p, q)" by fastforce
  have q: "0 < q" using pq by (rule quotient_of_denom_pos)
  have r: "r = of_int p / of_int q" using pq by (rule quotient_of_div)
  have p: "0 < p" using assms q r by (simp add: zero_less_divide_iff)
  define a where "a = bitlen p"
  define b where "b = bitlen q"
  have pb: "pow2 (a - 1) \<le> of_int p" "of_int p < pow2 a"
    using bitlen_pow2_bounds [OF p] by (simp_all add: a_def)
  have qb: "pow2 (b - 1) \<le> of_int q" "of_int q < pow2 b"
    using bitlen_pow2_bounds [OF q] by (simp_all add: b_def)
  have hi: "r < pow2 (a - b + 1)"
  proof -
    have "r < pow2 a / of_int q" using pb q r by (simp add: divide_strict_right_mono)
    also have "\<dots> \<le> pow2 a / pow2 (b - 1)" using qb q by (intro divide_left_mono) simp_all
    also have "\<dots> = pow2 (a - b + 1)" by (simp flip: pow2_diff add: algebra_simps)
    finally show ?thesis .
  qed
  have lo: "pow2 (a - b - 1) \<le> r"
  proof -
    have "pow2 (a - b - 1) = pow2 (a - 1) / pow2 b" by (simp flip: pow2_diff add: algebra_simps)
    also have "\<dots> \<le> pow2 (a - 1) / of_int q" using qb q by (intro divide_left_mono) simp_all
    also have "\<dots> \<le> r" using pb q by (simp add: r divide_right_mono)
    finally show ?thesis .
  qed
  have ilog: "ilog2 r = (if pow2 (a - b) \<le> r then a - b else a - b - 1)"
    by (simp add: ilog2_def pq a_def b_def Let_def)
  show "pow2 (ilog2 r) \<le> r" using lo by (simp add: ilog)
  show "r < pow2 (ilog2 r + 1)" using hi by (simp add: ilog not_le)
qed

lemma ilog2_less: "0 < r \<Longrightarrow> r < pow2 e \<Longrightarrow> ilog2 r < e"
  using ilog2_bounds(1) [of r] by (simp add: pow2_less_iff [symmetric] order.strict_trans1)

lemma ilog2_ge: "0 < r \<Longrightarrow> pow2 e \<le> r \<Longrightarrow> e \<le> ilog2 r"
proof -
  assume "0 < r" "pow2 e \<le> r"
  then have "pow2 e < pow2 (ilog2 r + 1)" using ilog2_bounds(2) [of r] by simp
  then show ?thesis by (simp add: pow2_less_iff)
qed

lemma ilog2_mono: "0 < x \<Longrightarrow> x \<le> y \<Longrightarrow> ilog2 x \<le> ilog2 y"
  using ilog2_bounds(1) [of x] by (intro ilog2_ge) simp_all

section \<open>Rounding to nearest, ties to even\<close>

definition rne :: "rat \<Rightarrow> int" where
  "rne x = (let f = \<lfloor>x\<rfloor>; d = x - of_int f in
     if d < 1 / 2 then f else if 1 / 2 < d then f + 1 else if even f then f else f + 1)"

lemma rne_of_int [simp]: "rne (of_int n) = n"
  by (simp add: rne_def)

lemma rne_bounds: "\<lfloor>x\<rfloor> \<le> rne x" "rne x \<le> \<lfloor>x\<rfloor> + 1"
  by (simp_all add: rne_def Let_def)

lemma rne_mono:
  assumes "x \<le> y" shows "rne x \<le> rne y"
proof (cases "\<lfloor>x\<rfloor> = \<lfloor>y\<rfloor>")
  case True
  then show ?thesis using assms by (simp add: rne_def Let_def)
next
  case False
  then have "\<lfloor>x\<rfloor> < \<lfloor>y\<rfloor>" using floor_mono [OF assms] by simp
  then show ?thesis using rne_bounds(2) [of x] rne_bounds(1) [of y] by linarith
qed

lemma rne_uminus: "rne (- x) = - rne x"
proof (cases "x \<in> \<int>")
  case True
  then obtain n where x: "x = of_int n" by (auto elim: Ints_cases)
  have "rne (of_int (- n)) = - rne (of_int n)" by (simp only: rne_of_int)
  then show ?thesis by (simp add: x)
next
  case False
  define f where "f = \<lfloor>x\<rfloor>"
  have fl: "\<lfloor>- x\<rfloor> = - f - 1"
    using False by (simp add: f_def floor_minus ceiling_altdef) (metis Ints_of_int)
  show ?thesis
    unfolding rne_def fl f_def [symmetric] Let_def by (auto simp: algebra_simps)
qed

lemma rne_le_int: "x \<le> of_int m \<Longrightarrow> rne x \<le> m"
  using rne_mono [of x "of_int m"] by simp

lemma rne_ge_int: "of_int m \<le> x \<Longrightarrow> m \<le> rne x"
  using rne_mono [of "of_int m" x] by simp

text \<open>The exponent of the last place of a number, and rounding to that place.\<close>

definition ulp_exp :: "rat \<Rightarrow> int" where
  "ulp_exp r = max (- 1074) (ilog2 \<bar>r\<bar> - 52)"

definition rnd :: "rat \<Rightarrow> rat" where
  "rnd r = (if r = 0 then 0
            else of_int (rne (r / pow2 (ulp_exp r))) * pow2 (ulp_exp r))"

definition repr :: "rat \<Rightarrow> bool" where
  "repr r \<longleftrightarrow> (\<exists>m e. \<bar>m\<bar> < 2 ^ 53 \<and> - 1074 \<le> e \<and> r = of_int m * pow2 e)"

lemma rnd_0 [simp]: "rnd 0 = 0"
  by (simp add: rnd_def)

lemma rnd_uminus: "rnd (- r) = - rnd r"
proof -
  have "rne (- r / pow2 e) = - rne (r / pow2 e)" for e
    using rne_uminus [of "r / pow2 e"] by simp
  then show ?thesis by (simp add: rnd_def ulp_exp_def)
qed

lemma rnd_le_grid:
  assumes "x \<noteq> 0" "x \<le> of_int m * pow2 (ulp_exp x)"
  shows "rnd x \<le> of_int m * pow2 (ulp_exp x)"
proof -
  have "x / pow2 (ulp_exp x) \<le> of_int m" using assms by (simp add: divide_le_eq)
  then have "rne (x / pow2 (ulp_exp x)) \<le> m" by (rule rne_le_int)
  then show ?thesis using assms by (simp add: rnd_def mult_right_mono)
qed

lemma rnd_ge_grid:
  assumes "x \<noteq> 0" "of_int m * pow2 (ulp_exp x) \<le> x"
  shows "of_int m * pow2 (ulp_exp x) \<le> rnd x"
proof -
  have "of_int m \<le> x / pow2 (ulp_exp x)" using assms by (simp add: le_divide_eq)
  then have "m \<le> rne (x / pow2 (ulp_exp x))" by (rule rne_ge_int)
  then show ?thesis using assms by (simp add: rnd_def mult_right_mono)
qed

lemma pow2_grid: "q \<le> e \<Longrightarrow> pow2 e = of_int (2 ^ nat (e - q)) * pow2 q"
proof -
  assume "q \<le> e"
  then have "pow2 (e - q) = 2 ^ nat (e - q)" using pow2_of_nat [of "nat (e - q)"] by simp
  then show ?thesis by (simp add: pow2_diff field_simps)
qed

lemma rnd_mono_pos:
  assumes x: "0 < x" and xy: "x \<le> y"
  shows "rnd x \<le> rnd y"
proof (cases "ulp_exp x = ulp_exp y")
  case True
  have "rne (x / pow2 (ulp_exp y)) \<le> rne (y / pow2 (ulp_exp y))"
    using xy by (intro rne_mono divide_right_mono) simp_all
  then show ?thesis using x xy True by (simp add: rnd_def mult_right_mono)
next
  case False
  have y: "0 < y" using x xy by simp
  have le: "ilog2 x \<le> ilog2 y" using x xy by (rule ilog2_mono)
  then have "ulp_exp x \<le> ulp_exp y" using x y by (simp add: ulp_exp_def)
  with False have lt: "ulp_exp x < ulp_exp y" by simp
  then have uy: "ulp_exp y = ilog2 y - 52" using y by (auto simp: ulp_exp_def max_def split: if_splits)
  have lx: "ilog2 x < ilog2 y" using lt uy x by (simp add: ulp_exp_def)
  have gx: "pow2 (ilog2 y) = of_int (2 ^ nat (ilog2 y - ulp_exp x)) * pow2 (ulp_exp x)"
    using lt uy by (intro pow2_grid) simp
  have gy: "pow2 (ilog2 y) = of_int (2 ^ nat (ilog2 y - ulp_exp y)) * pow2 (ulp_exp y)"
    using uy by (intro pow2_grid) simp
  have "x \<le> pow2 (ilog2 y)"
    using ilog2_bounds(2) [OF x] pow2_mono [of "ilog2 x + 1" "ilog2 y"] lx by linarith
  then have "rnd x \<le> pow2 (ilog2 y)" using x unfolding gx by (intro rnd_le_grid) simp_all
  also have "pow2 (ilog2 y) \<le> rnd y"
    using y ilog2_bounds(1) [OF y] unfolding gy by (intro rnd_ge_grid) simp_all
  finally show ?thesis .
qed

lemma rnd_nonneg: "0 \<le> x \<Longrightarrow> 0 \<le> rnd x"
  using rnd_ge_grid [of x 0] by (cases "x = 0") simp_all

lemma rnd_nonpos: "x \<le> 0 \<Longrightarrow> rnd x \<le> 0"
  using rnd_nonneg [of "- x"] by (simp add: rnd_uminus)

lemma rnd_mono: "x \<le> y \<Longrightarrow> rnd x \<le> rnd y"
proof -
  assume xy: "x \<le> y"
  consider "0 < x" | "x \<le> 0" "0 \<le> y" | "y < 0" using xy by linarith
  then show ?thesis
  proof cases
    case 1 then show ?thesis using xy by (rule rnd_mono_pos)
  next
    case 2 then show ?thesis using rnd_nonpos [of x] rnd_nonneg [of y] by linarith
  next
    case 3
    then have "rnd (- y) \<le> rnd (- x)" using xy by (intro rnd_mono_pos) simp_all
    then show ?thesis by (simp add: rnd_uminus)
  qed
qed

lemma repr_uminus: "repr r \<Longrightarrow> repr (- r)"
proof -
  assume "repr r"
  then obtain m e where "\<bar>m\<bar> < 2 ^ 53" "- 1074 \<le> e" "r = of_int m * pow2 e"
    by (auto simp: repr_def)
  then show ?thesis unfolding repr_def by (intro exI [of _ "- m"] exI [of _ e]) simp
qed

lemma repr_pow2: "- 1074 \<le> e \<Longrightarrow> repr (pow2 e)"
  unfolding repr_def by (intro exI [of _ 1] exI [of _ e]) simp

lemma repr_of_int: "\<bar>n\<bar> < 2 ^ 53 \<Longrightarrow> repr (of_int n)"
  unfolding repr_def by (intro exI [of _ n] exI [of _ 0]) simp

lemma repr_0 [simp]: "repr 0"
  using repr_of_int [of 0] by simp

lemma repr_1 [simp]: "repr 1"
  using repr_of_int [of 1] by simp

lemma rnd_repr_fix: "repr r \<Longrightarrow> rnd r = r"
proof (cases "r = 0")
  case False
  assume "repr r"
  then obtain m e where m: "\<bar>m\<bar> < 2 ^ 53" and e: "- 1074 \<le> e" and r: "r = of_int m * pow2 e"
    by (auto simp: repr_def)
  have "\<bar>r\<bar> = of_int \<bar>m\<bar> * pow2 e" by (simp add: r abs_mult)
  also have "\<dots> < 2 ^ 53 * pow2 e"
  proof -
    have "rat_of_int \<bar>m\<bar> < of_int (2 ^ 53)" using m by (simp only: of_int_less_iff)
    then show ?thesis by simp
  qed
  also have "\<dots> = pow2 (53 + e)" using pow2_of_nat [of 53] by (simp add: pow2_add)
  finally have "ilog2 \<bar>r\<bar> < 53 + e" using False by (intro ilog2_less) simp_all
  then have q: "ulp_exp r \<le> e" using e by (simp add: ulp_exp_def)
  obtain k where k: "r = of_int k * pow2 (ulp_exp r)"
  proof
    have "r = of_int m * (of_int (2 ^ nat (e - ulp_exp r)) * pow2 (ulp_exp r))"
      by (simp only: r [symmetric] pow2_grid [OF q, symmetric])
    then show "r = of_int (m * 2 ^ nat (e - ulp_exp r)) * pow2 (ulp_exp r)"
      by (simp only: of_int_mult mult.assoc)
  qed
  have "r / pow2 (ulp_exp r) = of_int k"
    by (subst (1) k) simp
  then show ?thesis
    using False k by (simp only: rnd_def if_False rne_of_int)
qed simp

lemma abs_div_ulp: "r \<noteq> 0 \<Longrightarrow> \<bar>r / pow2 (ulp_exp r)\<bar> < 2 ^ 53"
proof -
  assume r: "r \<noteq> 0"
  have "\<bar>r\<bar> < pow2 (ilog2 \<bar>r\<bar> + 1)" using r by (intro ilog2_bounds) simp
  also have "\<dots> \<le> pow2 (53 + ulp_exp r)" by (intro pow2_mono) (simp add: ulp_exp_def)
  also have "\<dots> = 2 ^ 53 * pow2 (ulp_exp r)" using pow2_of_nat [of 53] by (simp add: pow2_add)
  finally show ?thesis by (simp add: divide_less_eq abs_divide)
qed

lemma repr_rnd: "repr (rnd r)"
proof (cases "r = 0")
  case False
  let ?m = "rne (r / pow2 (ulp_exp r))"
  have b: "\<bar>r / pow2 (ulp_exp r)\<bar> < 2 ^ 53" using False by (rule abs_div_ulp)
  then have "r / pow2 (ulp_exp r) \<le> of_int (2 ^ 53)" by (simp only: abs_less_iff) simp
  then have "?m \<le> 2 ^ 53" by (rule rne_le_int)
  moreover have "of_int (- (2 ^ 53)) \<le> r / pow2 (ulp_exp r)"
    using b by (simp only: abs_less_iff) (simp add: minus_less_iff)
  then have "- (2 ^ 53) \<le> ?m" by (rule rne_ge_int)
  ultimately consider "\<bar>?m\<bar> < 2 ^ 53" | "\<bar>?m\<bar> = 2 ^ 53" by linarith
  then show ?thesis
  proof cases
    case 1
    then show ?thesis unfolding repr_def using False
      by (intro exI [of _ ?m] exI [of _ "ulp_exp r"]) (simp add: rnd_def ulp_exp_def)
  next
    case 2
    have p1: "pow2 (ulp_exp r + 1) = 2 * pow2 (ulp_exp r)" by (simp add: pow2_add) (simp add: pow2_def)
    obtain s :: int where s: "?m = s * 2 ^ 53" "\<bar>s\<bar> = 1"
    proof (cases "?m < 0")
      case True
      with 2 have "?m = - 1 * 2 ^ 53" by linarith
      then show ?thesis by (rule that) simp
    next
      case False
      with 2 have "?m = 1 * 2 ^ 53" by linarith
      then show ?thesis by (rule that) simp
    qed
    have "rnd r = of_int (s * 2 ^ 52) * pow2 (ulp_exp r + 1)"
      using False by (simp add: rnd_def s(1) p1)
    moreover have "\<bar>s * 2 ^ 52\<bar> < (2::int) ^ 53" by (simp add: abs_mult s(2))
    moreover have "- 1074 \<le> ulp_exp r + 1" by (simp add: ulp_exp_def)
    ultimately show ?thesis unfolding repr_def by blast
  qed
qed simp

lemma rnd_rnd [simp]: "rnd (rnd r) = rnd r"
  by (rule rnd_repr_fix) (rule repr_rnd)

lemma rnd_le: "rnd g = g \<Longrightarrow> x \<le> g \<Longrightarrow> rnd x \<le> g"
  using rnd_mono [of x g] by simp

lemma rnd_ge: "rnd g = g \<Longrightarrow> g \<le> x \<Longrightarrow> g \<le> rnd x"
  using rnd_mono [of g x] by simp

section \<open>Values\<close>

datatype f64 = NaN | PInf | NInf | NZero | Fin rat

text \<open>\<open>f64::MAX\<close> and \<open>f64::MIN_POSITIVE\<close>.\<close>

definition maxf :: rat where
  "maxf = of_int (2 ^ 53 - 1) * pow2 971"

definition min_positive :: f64 where
  "min_positive = Fin (pow2 (- 1022))"

lemma pow2_code [code]:
  "pow2 e = (if 0 \<le> e then of_int (2 ^ nat e) else 1 / of_int (2 ^ nat (- e)))"
  by (simp add: pow2_def power_int_def power_one_over)

lemma maxf_pos [simp]: "0 < maxf"
  by (simp add: maxf_def)

lemma maxf_nonneg [simp]: "0 \<le> maxf"
  using maxf_pos by (rule less_imp_le)

lemma maxf_not_neg [simp]: "\<not> maxf < 0"
  by (simp add: not_less)

lemma rnd_maxf [simp]: "rnd maxf = maxf"
proof (rule rnd_repr_fix)
  show "repr maxf" unfolding repr_def
    by (intro exI [of _ "2 ^ 53 - 1"] exI [of _ 971]) (simp add: maxf_def)
qed

definition wf64 :: "f64 \<Rightarrow> bool" where
  "wf64 x = (case x of Fin r \<Rightarrow> rnd r = r \<and> \<bar>r\<bar> \<le> maxf | _ \<Rightarrow> True)"

lemma wf64_simps [simp]:
  "wf64 NaN" "wf64 PInf" "wf64 NInf" "wf64 NZero" "wf64 (Fin r) \<longleftrightarrow> rnd r = r \<and> \<bar>r\<bar> \<le> maxf"
  by (simp_all add: wf64_def)

text \<open>Rounding an exact result; the flag is the sign of a zero result.\<close>

definition mk64 :: "bool \<Rightarrow> rat \<Rightarrow> f64" where
  "mk64 neg r = (let v = rnd r in
     if v = 0 then (if neg then NZero else Fin 0)
     else if maxf < v then PInf else if v < - maxf then NInf else Fin v)"

text \<open>A decimal literal is the rounded rational; so is an \<open>as f64\<close> cast of an integer.\<close>

definition f_lit :: "rat \<Rightarrow> f64" where
  "f_lit r = mk64 False r"

definition f_of_nat :: "nat \<Rightarrow> f64" where
  "f_of_nat n = mk64 False (of_nat n)"

definition f_of_u64 :: "u64 \<Rightarrow> f64" where
  "f_of_u64 w = f_of_nat (unat w)"

definition val :: "f64 \<Rightarrow> rat" where
  "val x = (case x of Fin r \<Rightarrow> r | _ \<Rightarrow> 0)"

lemma val_simps [simp]: "val NaN = 0" "val PInf = 0" "val NInf = 0" "val NZero = 0" "val (Fin r) = r"
  by (simp_all add: val_def)

definition is_nan :: "f64 \<Rightarrow> bool" where
  "is_nan x = (x = NaN)"

definition is_finite :: "f64 \<Rightarrow> bool" where
  "is_finite x = (x \<noteq> NaN \<and> x \<noteq> PInf \<and> x \<noteq> NInf)"

definition is_neg :: "f64 \<Rightarrow> bool" where
  "is_neg x = (x = NInf \<or> x = NZero \<or> val x < 0)"

definition is_inf :: "f64 \<Rightarrow> bool" where
  "is_inf x = (x = PInf \<or> x = NInf)"

definition is_zero :: "f64 \<Rightarrow> bool" where
  "is_zero x = (is_finite x \<and> val x = 0)"

text \<open>\<open>f64::is_normal\<close>: finite, nonzero and not subnormal.\<close>

definition is_normal :: "f64 \<Rightarrow> bool" where
  "is_normal x = (is_finite x \<and> pow2 (- 1022) \<le> \<bar>val x\<bar>)"

lemma is_finite_simps [simp]:
  "\<not> is_finite NaN" "\<not> is_finite PInf" "\<not> is_finite NInf" "is_finite NZero" "is_finite (Fin r)"
  by (simp_all add: is_finite_def)

lemma is_nan_simps [simp]:
  "is_nan NaN" "\<not> is_nan PInf" "\<not> is_nan NInf" "\<not> is_nan NZero" "\<not> is_nan (Fin r)"
  by (simp_all add: is_nan_def)

lemma finite_not_nan: "is_finite x \<Longrightarrow> \<not> is_nan x"
  by (simp add: is_finite_def is_nan_def)

section \<open>Comparison\<close>

definition flt :: "f64 \<Rightarrow> f64 \<Rightarrow> bool" where
  "flt a b = (if a = NaN \<or> b = NaN then False else if a = NInf then b \<noteq> NInf
     else if b = NInf then False else if a = PInf then False else if b = PInf then True
     else val a < val b)"

definition fle :: "f64 \<Rightarrow> f64 \<Rightarrow> bool" where
  "fle a b = (if a = NaN \<or> b = NaN then False else if a = NInf then True
     else if b = NInf then False else if b = PInf then True else if a = PInf then False
     else val a \<le> val b)"

definition feq :: "f64 \<Rightarrow> f64 \<Rightarrow> bool" where
  "feq a b = (fle a b \<and> fle b a)"

lemma fcmp_Fin [simp]:
  "fle (Fin a) (Fin b) \<longleftrightarrow> a \<le> b" "flt (Fin a) (Fin b) \<longleftrightarrow> a < b" "is_finite (Fin a)"
  by (simp_all add: fle_def flt_def is_finite_def)

lemma fle_finite: "is_finite a \<Longrightarrow> is_finite b \<Longrightarrow> fle a b \<longleftrightarrow> val a \<le> val b"
  by (auto simp: fle_def is_finite_def)

lemma flt_finite: "is_finite a \<Longrightarrow> is_finite b \<Longrightarrow> flt a b \<longleftrightarrow> val a < val b"
  by (auto simp: flt_def is_finite_def)

lemma fle_refl: "\<not> is_nan a \<Longrightarrow> fle a a"
  by (cases a) (auto simp: fle_def)

lemma fle_trans: "fle a b \<Longrightarrow> fle b c \<Longrightarrow> fle a c"
  by (auto simp: fle_def split: if_splits)

lemma flt_imp_fle: "flt a b \<Longrightarrow> fle a b"
  by (auto simp: fle_def flt_def split: if_splits)

lemma flt_fle_trans: "flt a b \<Longrightarrow> fle b c \<Longrightarrow> flt a c"
  by (auto simp: fle_def flt_def split: if_splits)

lemma fle_flt_trans: "fle a b \<Longrightarrow> flt b c \<Longrightarrow> flt a c"
  by (auto simp: fle_def flt_def split: if_splits)

lemma not_flt_fle: "\<not> is_nan a \<Longrightarrow> \<not> is_nan b \<Longrightarrow> \<not> flt a b \<longleftrightarrow> fle b a"
  by (cases a; cases b) (auto simp: fle_def flt_def)

lemma flt_irrefl [simp]: "\<not> flt a a"
  by (simp add: flt_def)

lemma flt_not_nan: "flt a b \<Longrightarrow> \<not> is_nan a \<and> \<not> is_nan b"
  by (auto simp: flt_def is_nan_def split: if_splits)

lemma fle_not_nan: "fle a b \<Longrightarrow> \<not> is_nan a \<and> \<not> is_nan b"
  by (auto simp: fle_def is_nan_def split: if_splits)

lemma flt_fle_contr: "flt a b \<Longrightarrow> fle b a \<Longrightarrow> False"
  by (auto simp: fle_def flt_def split: if_splits)

lemma fle_between_finite: "fle a x \<Longrightarrow> fle x b \<Longrightarrow> is_finite a \<Longrightarrow> is_finite b \<Longrightarrow> is_finite x"
  by (cases x) (auto simp: fle_def is_finite_def split: if_splits)

abbreviation fnonneg :: "f64 \<Rightarrow> bool" where
  "fnonneg x \<equiv> fle (Fin 0) x"

lemma fnonneg_iff: "fnonneg x \<longleftrightarrow> x = PInf \<or> is_finite x \<and> 0 \<le> val x"
  by (cases x) (auto simp: fle_def)

lemma fpos_iff: "flt (Fin 0) x \<longleftrightarrow> x = PInf \<or> is_finite x \<and> 0 < val x"
  by (cases x) (auto simp: flt_def)

lemma not_neg_fnonneg: "is_finite x \<Longrightarrow> \<not> flt x (Fin 0) \<Longrightarrow> fnonneg x"
  by (cases x) (auto simp: fle_def flt_def)

section \<open>Arithmetic\<close>

definition fneg :: "f64 \<Rightarrow> f64" where
  "fneg x = (case x of NaN \<Rightarrow> NaN | PInf \<Rightarrow> NInf | NInf \<Rightarrow> PInf | NZero \<Rightarrow> Fin 0
     | Fin r \<Rightarrow> if r = 0 then NZero else Fin (- r))"

definition fabs :: "f64 \<Rightarrow> f64" where
  "fabs x = (if is_neg x then fneg x else x)"

definition finf :: "bool \<Rightarrow> f64" where
  "finf neg = (if neg then NInf else PInf)"

definition fadd :: "f64 \<Rightarrow> f64 \<Rightarrow> f64" where
  "fadd a b = (if a = NaN \<or> b = NaN then NaN
     else if is_inf a then (if is_inf b \<and> a \<noteq> b then NaN else a)
     else if is_inf b then b
     else if a = NZero \<and> b = NZero then NZero
     else mk64 False (val a + val b))"

definition fsub :: "f64 \<Rightarrow> f64 \<Rightarrow> f64" where
  "fsub a b = fadd a (fneg b)"

definition fmul :: "f64 \<Rightarrow> f64 \<Rightarrow> f64" where
  "fmul a b = (let s = (is_neg a \<noteq> is_neg b) in
     if a = NaN \<or> b = NaN then NaN
     else if is_inf a \<or> is_inf b then (if is_zero a \<or> is_zero b then NaN else finf s)
     else mk64 s (val a * val b))"

definition fdiv :: "f64 \<Rightarrow> f64 \<Rightarrow> f64" where
  "fdiv a b = (let s = (is_neg a \<noteq> is_neg b) in
     if a = NaN \<or> b = NaN then NaN
     else if is_inf a then (if is_inf b then NaN else finf s)
     else if is_inf b then mk64 s 0
     else if is_zero b then (if is_zero a then NaN else finf s)
     else mk64 s (val a / val b))"

text \<open>
  \<open>f64::max\<close> and \<open>f64::min\<close> ignore a NaN argument. On zeros of opposite sign the standard library
  may return either; the first argument is returned here.
\<close>

definition fmax :: "f64 \<Rightarrow> f64 \<Rightarrow> f64" where
  "fmax a b = (if a = NaN then b else if b = NaN then a else if flt a b then b else a)"

text \<open>\<open>f64::clamp\<close> panics (\<open>None\<close>) unless \<open>min \<le> max\<close>; a NaN argument stays NaN.\<close>

definition fclamp :: "f64 \<Rightarrow> f64 \<Rightarrow> f64 \<Rightarrow> f64 option" where
  "fclamp x lo hi = (if fle lo hi then
     Some (let x1 = (if flt x lo then lo else x) in if flt hi x1 then hi else x1) else None)"

text \<open>\<open>iter().sum::<f64>()\<close> folds from the neutral element negative zero.\<close>

definition fsum :: "f64 list \<Rightarrow> f64" where
  "fsum xs = foldl fadd NZero xs"

text \<open>\<open>x as usize\<close> saturates and sends NaN to zero; \<open>x.ceil()\<close>.\<close>

definition f_to_usize :: "f64 \<Rightarrow> nat" where
  "f_to_usize x = (case x of NaN \<Rightarrow> 0 | PInf \<Rightarrow> 2 ^ 64 - 1 | NInf \<Rightarrow> 0 | NZero \<Rightarrow> 0
     | Fin r \<Rightarrow> min (nat \<lfloor>r\<rfloor>) (2 ^ 64 - 1))"

definition fceil :: "f64 \<Rightarrow> f64" where
  "fceil x = (case x of Fin r \<Rightarrow> if - 1 < r \<and> r < 0 then NZero else Fin (of_int \<lceil>r\<rceil>) | y \<Rightarrow> y)"

text \<open>Integer square root and the correctly rounded \<open>f64::sqrt\<close>.\<close>

function isqrt :: "int \<Rightarrow> int" where
  "isqrt n = (if n \<le> 0 then 0 else
     let s = 2 * isqrt (n div 4) in if (s + 1) * (s + 1) \<le> n then s + 1 else s)"

  by pat_completeness auto
termination
  by (relation "measure nat") auto

declare isqrt.simps [simp del]

definition fsqrt :: "f64 \<Rightarrow> f64" where
  "fsqrt x = (case x of NaN \<Rightarrow> NaN | PInf \<Rightarrow> PInf | NInf \<Rightarrow> NaN | NZero \<Rightarrow> NZero
     | Fin r \<Rightarrow> if r = 0 then Fin 0 else if r < 0 then NaN else
         let q = ilog2 r div 2 - 52; t = r / pow2 (2 * q); f = isqrt \<lfloor>t\<rfloor>;
             h = (of_int f + 1 / 2) * (of_int f + 1 / 2);
             m = (if t < h then f else if h < t then f + 1 else if even f then f else f + 1)
         in mk64 False (of_int m * pow2 q))"

text \<open>
  The transcendental functions of the platform's mathematics library. Their precision is not
  specified, so they are parameters of the model.
\<close>

record libm =
  m_exp :: "f64 \<Rightarrow> f64"
  m_ln :: "f64 \<Rightarrow> f64"
  m_tanh :: "f64 \<Rightarrow> f64"
  m_cos :: "f64 \<Rightarrow> f64"
  m_powf :: "f64 \<Rightarrow> f64 \<Rightarrow> f64"
  m_log2 :: "f64 \<Rightarrow> f64"
  m_log10 :: "f64 \<Rightarrow> f64"

section \<open>Laws of the operations\<close>

lemma mk64_wf [float_wf, simp]: "wf64 (mk64 s r)"
  by (auto simp: mk64_def Let_def)

lemma mk64_not_nan [simp]: "mk64 s r \<noteq> NaN" "\<not> is_nan (mk64 s r)"
  by (simp_all add: mk64_def Let_def is_nan_def)

lemma mk64_mono: "r \<le> r' \<Longrightarrow> fle (mk64 s r) (mk64 s' r')"
  using rnd_mono [of r r'] maxf_pos by (auto simp: mk64_def Let_def fle_def)

lemma mk64_exact: "wf64 (Fin r) \<Longrightarrow> r \<noteq> 0 \<Longrightarrow> mk64 s r = Fin r"
  by (auto simp: mk64_def)

lemma mk64_0: "mk64 s 0 = (if s then NZero else Fin 0)"
  by (simp add: mk64_def)

lemma mk64_ge: "wf64 (Fin g) \<Longrightarrow> g \<le> r \<Longrightarrow> fle (Fin g) (mk64 s r)"
proof -
  assume g: "wf64 (Fin g)" and r: "g \<le> r"
  have "fle (Fin g) (mk64 s g)"
    using g by (cases "g = 0") (auto simp: mk64_0 mk64_exact fle_def)
  then show ?thesis using mk64_mono [OF r] by (rule fle_trans)
qed

lemma mk64_le: "wf64 (Fin g) \<Longrightarrow> r \<le> g \<Longrightarrow> fle (mk64 s r) (Fin g)"
proof -
  assume g: "wf64 (Fin g)" and r: "r \<le> g"
  have "fle (mk64 s g) (Fin g)"
    using g by (cases "g = 0") (auto simp: mk64_0 mk64_exact fle_def)
  with mk64_mono [OF r] show ?thesis by (rule fle_trans)
qed

lemma mk64_nonneg: "0 \<le> r \<Longrightarrow> fnonneg (mk64 s r)"
  by (rule mk64_ge) simp_all

lemma rnd_1 [simp]: "rnd 1 = 1"
  by (rule rnd_repr_fix) simp

lemma one_le_maxf [simp]: "1 \<le> maxf"
proof -
  have "1 * 1 \<le> (of_int (2 ^ 53 - 1) :: rat) * pow2 971"
    using pow2_mono [of 0 971] by (intro mult_mono) simp_all
  then show ?thesis by (simp add: maxf_def)
qed

lemma wf64_1 [simp]: "wf64 (Fin 1)"
  by simp

lemma f_lit_wf [float_wf, simp]: "wf64 (f_lit r)"
  by (simp add: f_lit_def)

lemma f_lit_exact: "wf64 (Fin r) \<Longrightarrow> f_lit r = Fin r"
  by (cases "r = 0") (auto simp: f_lit_def mk64_exact mk64_0)

lemma f_of_nat_wf [float_wf, simp]: "wf64 (f_of_nat n)"
  by (simp add: f_of_nat_def)

lemma f_of_nat_nonneg [simp]: "fnonneg (f_of_nat n)"
  by (simp add: f_of_nat_def mk64_nonneg)

lemma f_of_nat_0 [simp]: "f_of_nat 0 = Fin 0"
  by (simp add: f_of_nat_def mk64_0)

lemma f_of_nat_1: "f_of_nat 1 = Fin 1"
  by (simp add: f_of_nat_def mk64_exact)

lemma f_of_nat_ge_1: "1 \<le> n \<Longrightarrow> fle (Fin 1) (f_of_nat n)"
  unfolding f_of_nat_def by (rule mk64_ge) simp_all

lemma nat_u64_le_maxf: "n < 2 ^ 64 \<Longrightarrow> of_nat n \<le> maxf"
proof -
  assume "n < 2 ^ 64"
  then have "rat_of_nat n \<le> of_nat (2 ^ 64)" by (simp only: of_nat_le_iff)
  also have "\<dots> = pow2 64" using pow2_of_nat [of 64] by simp
  also have "\<dots> \<le> pow2 971" by (rule pow2_mono) simp
  also have "\<dots> \<le> maxf" by (simp add: maxf_def)
  finally show ?thesis .
qed

lemma f_of_nat_finite:
  assumes "n < 2 ^ 64"
  shows "is_finite (f_of_nat n)"
proof -
  have "fle (f_of_nat n) (Fin maxf)"
    unfolding f_of_nat_def using nat_u64_le_maxf [OF assms] by (intro mk64_le) simp_all
  then show ?thesis using fle_between_finite f_of_nat_nonneg by fastforce
qed

lemma f_of_u64_finite [simp]: "is_finite (f_of_u64 w)"
proof -
  have "unat w < 2 ^ 64" using unsigned_less [of w] by simp
  then show ?thesis by (simp add: f_of_u64_def f_of_nat_finite)
qed

lemma f_of_u64_nonneg [simp]: "fnonneg (f_of_u64 w)"
  by (simp add: f_of_u64_def)

lemma f_of_u64_mono: "v \<le> w \<Longrightarrow> fle (f_of_u64 v) (f_of_u64 w)"
  unfolding f_of_u64_def f_of_nat_def 
  by (rule mk64_mono) (simp only: word_le_nat_alt of_nat_le_iff)

lemma fadd_wf [float_wf, simp]: "wf64 (fadd a b)"
  by (auto simp: fadd_def is_inf_def)

lemma fsub_wf [float_wf, simp]: "wf64 (fsub a b)"
  by (simp add: fsub_def)

lemma fmul_wf [float_wf, simp]: "wf64 (fmul a b)"
  by (auto simp: fmul_def finf_def Let_def)

lemma fdiv_wf [float_wf, simp]: "wf64 (fdiv a b)"
  by (auto simp: fdiv_def finf_def Let_def)

lemma fneg_wf [float_wf]: "wf64 a \<Longrightarrow> wf64 (fneg a)"
  by (cases a) (auto simp: fneg_def rnd_uminus)

lemma val_fneg [simp]: "val (fneg a) = - val a"
  by (cases a) (auto simp: fneg_def)

lemma is_finite_fneg [simp]: "is_finite (fneg a) = is_finite a"
  by (cases a) (auto simp: fneg_def)

lemma fmax_wf [float_wf]: "wf64 a \<Longrightarrow> wf64 b \<Longrightarrow> wf64 (fmax a b)"
  by (simp add: fmax_def)

lemma is_inf_finite [simp]: "is_finite a \<Longrightarrow> \<not> is_inf a"
  by (auto simp: is_inf_def)

lemma fadd_finite:
  "is_finite a \<Longrightarrow> is_finite b \<Longrightarrow>
     fadd a b = (if a = NZero \<and> b = NZero then NZero else mk64 False (val a + val b))"
  by (auto simp: fadd_def)

lemma fadd_PInf:
  "fnonneg b \<Longrightarrow> fadd PInf b = PInf" "fnonneg a \<Longrightarrow> fadd a PInf = PInf"
  by (cases b; simp add: fadd_def is_inf_def fle_def)
    (cases a; simp add: fadd_def is_inf_def fle_def)

lemma fnonnegE:
  assumes "fnonneg x" obtains "x = PInf" | "is_finite x" "0 \<le> val x"
  using assms by (auto simp: fnonneg_iff)

lemma fle_PInf: "fnonneg x \<Longrightarrow> fle x PInf"
  by (cases x) (auto simp: fle_def)

lemma wf64_val: "wf64 a \<Longrightarrow> wf64 (Fin (val a))"
  by (cases a) auto

lemma fadd_ge_both:
  assumes a: "fnonneg a" and b: "fnonneg b" and wf: "wf64 a" "wf64 b"
  shows "fle a (fadd a b)" "fle b (fadd a b)"
proof -
  have "fle a (fadd a b) \<and> fle b (fadd a b)"
  proof (cases "is_finite a \<and> is_finite b")
    case True
    with a b have nn: "0 \<le> val a" "0 \<le> val b" by (auto elim: fnonnegE)
    let ?s = "mk64 False (val a + val b)"
    have "fle (Fin (val a)) ?s" "fle (Fin (val b)) ?s"
      using wf nn by (simp_all only: mk64_ge wf64_val le_add_same_cancel1 le_add_same_cancel2)
    moreover have "fle a (Fin (val a))" "fle b (Fin (val b))" using True by (simp_all add: fle_finite)
    ultimately have "fle a ?s" "fle b ?s" by (blast intro: fle_trans)+
    then show ?thesis using True by (auto simp: fadd_finite fle_finite)
  next
    case False
    with a b have "a = PInf \<or> b = PInf" by (auto elim!: fnonnegE)
    then show ?thesis using a b by (auto simp: fadd_PInf fle_PInf)
  qed
  then show "fle a (fadd a b)" "fle b (fadd a b)" by simp_all
qed

lemma fadd_nonneg:
  assumes "fnonneg a" "fnonneg b" shows "fnonneg (fadd a b)"
proof (cases "is_finite a \<and> is_finite b")
  case True
  with assms have "0 \<le> val a + val b" by (auto elim!: fnonnegE)
  then have "fnonneg (mk64 False (val a + val b))" by (rule mk64_nonneg)
  then show ?thesis using True by (auto simp: fadd_finite fle_finite)
next
  case False
  with assms have "a = PInf \<or> b = PInf" by (auto elim!: fnonnegE)
  then show ?thesis using assms by (auto simp: fadd_PInf fle_PInf)
qed

lemma fmul_nonneg:
  assumes "fnonneg a" "fnonneg b" "is_finite a" "is_finite b"
  shows "fnonneg (fmul a b)"
proof -
  have "0 \<le> val a * val b" using assms by (auto elim!: fnonnegE)
  then show ?thesis using assms by (auto simp: fmul_def Let_def mk64_nonneg)
qed

lemma fdiv_nonneg:
  assumes "fnonneg a" "is_finite a" "flt (Fin 0) b"
  shows "fnonneg (fdiv a b)"
proof (cases "is_finite b")
  case True
  then have "0 < val b" using assms by (simp add: flt_finite)
  moreover have "0 \<le> val a" using assms by (simp add: fle_finite)
  ultimately have "0 \<le> val a / val b" by simp
  then show ?thesis using assms True \<open>0 < val b\<close>
    by (auto simp: fdiv_def Let_def is_zero_def mk64_nonneg)
next
  case False
  then show ?thesis using assms by (auto simp: fdiv_def Let_def fpos_iff is_inf_def mk64_nonneg)
qed

lemma fdiv_le_1:
  assumes "fnonneg a" "is_finite a" "fle a b" "flt (Fin 0) b"
  shows "fle (fdiv a b) (Fin 1)"
proof (cases "is_finite b")
  case True
  have b: "0 < val b" using assms True by (simp add: flt_finite)
  have "val a \<le> val b" using assms True by (simp add: fle_finite)
  then have "val a / val b \<le> 1" using b by simp
  then have "fle (mk64 s (val a / val b)) (Fin 1)" for s by (rule mk64_le [rotated]) simp
  then show ?thesis using assms True b by (auto simp: fdiv_def Let_def is_zero_def)
next
  case False
  have "fle (mk64 s 0) (Fin 1)" for s by (rule mk64_le) simp_all
  then show ?thesis using False assms by (auto simp: fdiv_def Let_def fpos_iff is_inf_def)
qed

lemma fmax_0_nonneg: "fnonneg (fmax x (Fin 0))"
  by (cases x) (auto simp: fmax_def fle_def flt_def)

lemma fmax_ge_left: "\<not> is_nan x \<Longrightarrow> fle x (fmax x y)"
  by (cases x; cases y) (auto simp: fmax_def fle_def flt_def)

lemma fmax_finite: "is_finite x \<Longrightarrow> is_finite y \<Longrightarrow> is_finite (fmax x y)"
  by (auto simp: fmax_def)

lemma fmax_0_id: "fnonneg x \<Longrightarrow> fmax x (Fin 0) = x"
  by (cases x) (auto simp: fmax_def fle_def flt_def)

lemma fmax_not_nan: "\<not> is_nan y \<Longrightarrow> \<not> is_nan (fmax x y)"
  by (auto simp: fmax_def is_nan_def)

lemma fclamp_some_iff: "(\<exists>y. fclamp x lo hi = Some y) \<longleftrightarrow> fle lo hi"
  by (simp add: fclamp_def)

lemma fclamp_range:
  assumes "fclamp x lo hi = Some y" "\<not> is_nan x"
  shows "fle lo y" "fle y hi"
proof -
  have lh: "fle lo hi" using fclamp_some_iff assms(1) by blast
  have nn: "\<not> is_nan lo" "\<not> is_nan hi" using fle_not_nan [OF lh] by auto
  define x1 where "x1 = (if flt x lo then lo else x)"
  have x1: "\<not> is_nan x1" using assms(2) nn by (simp add: x1_def)
  have y: "y = (if flt hi x1 then hi else x1)"
    using assms(1) lh unfolding x1_def by (simp only: fclamp_def Let_def if_True option.inject)
  have "fle lo x1" using assms(2) nn by (auto simp: x1_def fle_refl not_flt_fle)
  then show "fle lo y" using lh by (simp add: y)
  show "fle y hi" using nn x1 by (auto simp: y fle_refl not_flt_fle)
qed

lemma foldl_fadd_nonneg:
  "fnonneg a \<Longrightarrow> \<forall>x \<in> set xs. fnonneg x \<Longrightarrow> fnonneg (foldl fadd a xs)"
  by (induction xs arbitrary: a) (simp_all add: fadd_nonneg)

lemma foldl_fadd_wf: "wf64 a \<Longrightarrow> wf64 (foldl fadd a xs)"
  by (induction xs arbitrary: a) simp_all

lemma fsum_nonneg: "\<forall>x \<in> set xs. fnonneg x \<Longrightarrow> fnonneg (fsum xs)"
  unfolding fsum_def by (rule foldl_fadd_nonneg) (simp_all add: fle_finite)

lemma foldl_fadd_ge_acc:
  "fnonneg a \<Longrightarrow> wf64 a \<Longrightarrow> \<forall>x \<in> set xs. fnonneg x \<and> wf64 x \<Longrightarrow> fle a (foldl fadd a xs)"
proof (induction xs arbitrary: a)
  case Nil
  then show ?case using fle_not_nan fle_refl by auto
next
  case (Cons x xs)
  have "fle a (fadd a x)" using Cons.prems by (intro fadd_ge_both) simp_all
  also have "fle (fadd a x) (foldl fadd (fadd a x) xs)"
    using Cons.prems by (intro Cons.IH) (simp_all add: fadd_nonneg)
  finally (fle_trans) show ?case by simp
qed

lemma foldl_fadd_ge_elem:
  "fnonneg a \<Longrightarrow> wf64 a \<Longrightarrow> \<forall>x \<in> set xs. fnonneg x \<and> wf64 x \<Longrightarrow> y \<in> set xs \<Longrightarrow>
     fle y (foldl fadd a xs)"
proof (induction xs arbitrary: a)
  case (Cons x xs)
  show ?case
  proof (cases "y = x")
    case True
    have "fle y (fadd a y)" using Cons.prems True by (intro fadd_ge_both) simp_all
    also have "fle (fadd a y) (foldl fadd (fadd a y) xs)"
      using Cons.prems True by (intro foldl_fadd_ge_acc) (simp_all add: fadd_nonneg)
    finally (fle_trans) show ?thesis by (simp add: True)
  next
    case False
    then have "fle y (foldl fadd (fadd a x) xs)"
      using Cons.prems by (intro Cons.IH) (simp_all add: fadd_nonneg)
    then show ?thesis by simp
  qed
qed simp

lemma isqrt_correct:
  "0 \<le> n \<Longrightarrow> isqrt n * isqrt n \<le> n \<and> n < (isqrt n + 1) * (isqrt n + 1) \<and> 0 \<le> isqrt n"
proof (induction n rule: isqrt.induct)
  case (1 n)
  show ?case
  proof (cases "n \<le> 0")
    case True
    then have "n = 0" using "1.prems" by simp
    moreover have "isqrt 0 = 0" by (simp add: isqrt.simps [of 0])
    ultimately show ?thesis by simp
  next
    case False
    define s where "s = isqrt (n div 4)"
    have IH: "s * s \<le> n div 4" "n div 4 < (s + 1) * (s + 1)" "0 \<le> s"
      using "1.IH" False by (simp_all add: s_def)
    have "4 * (s * s) \<le> n" using IH(1) by linarith
    moreover have "n < 4 * ((s + 1) * (s + 1))" using IH(2) by linarith
    moreover have "isqrt n = (if (2 * s + 1) * (2 * s + 1) \<le> n then 2 * s + 1 else 2 * s)"
      using False by (simp add: isqrt.simps [of n] s_def Let_def)
    ultimately show ?thesis using IH(3) by (auto simp: algebra_simps)
  qed
qed

lemma isqrt_nonneg [simp]: "0 \<le> isqrt n"
  using isqrt_correct [of n] by (cases "0 \<le> n") (simp_all add: isqrt.simps [of n])

lemma fsqrt_nonneg: "fnonneg x \<Longrightarrow> fnonneg (fsqrt x)"
proof (cases x)
  case (Fin r)
  assume "fnonneg x"
  then have "\<not> r < 0" by (simp add: Fin fle_finite)
  moreover have "fnonneg (mk64 False (of_int m * pow2 q))" if "0 \<le> m" for m q
    using that by (intro mk64_nonneg) simp
  ultimately show ?thesis by (simp add: Fin fsqrt_def Let_def fle_refl)
qed (simp_all add: fsqrt_def fle_def)

section \<open>Values of operations\<close>

lemma maxf_less_pow2: "maxf < pow2 1024"
proof -
  have "(of_int (2 ^ 53 - 1) :: rat) < pow2 53" using pow2_of_nat [of 53] by simp
  then have "of_int (2 ^ 53 - 1) * pow2 971 < pow2 53 * pow2 971"
    by (rule mult_strict_right_mono) (rule pow2_pos)
  then show ?thesis using pow2_add [of 53 971] by (simp add: maxf_def)
qed

text \<open>Values up to one beyond the largest finite number still round to it.\<close>

lemma rnd_near_max: "x \<le> maxf + 1 \<Longrightarrow> rnd x \<le> maxf"
proof (cases "x \<le> maxf")
  case False
  assume le: "x \<le> maxf + 1"
  have m: "maxf = (2 ^ 53 - 1) * pow2 971" by (simp add: maxf_def)
  have big: "pow2 52 * pow2 971 \<le> maxf"
    unfolding m using pow2_of_nat [of 52] by (intro mult_right_mono) simp_all
  then have lo: "pow2 1023 \<le> x" using False pow2_add [of 52 971] by simp
  have p: "(1 :: rat) < pow2 970" using pow2_strict_mono [of 0 970] by simp
  have "pow2 971 = 2 * pow2 970" using pow2_add [of 970 1] pow2_of_nat [of 1] by simp
  then have half: "x < (2 ^ 53 - 1 + 1 / 2) * pow2 971"
    using le p unfolding m by (simp add: algebra_simps)
  also have "\<dots> < 2 ^ 53 * pow2 971" by (intro mult_strict_right_mono) simp_all
  also have "\<dots> = pow2 1024" using pow2_add [of 53 971] pow2_of_nat [of 53] by simp
  finally have hi: "x < pow2 1024" .
  have x0: "0 < x" using lo pow2_pos [of 1023] by linarith
  have "ilog2 x = 1023" using ilog2_ge [OF x0 lo] ilog2_less [OF x0 hi] by simp
  then have u: "ulp_exp x = 971" using x0 by (simp add: ulp_exp_def)
  have y: "2 ^ 53 - 1 < x / pow2 971" "x / pow2 971 < 2 ^ 53 - 1 + 1 / 2"
    using False half unfolding m by (simp_all add: pos_less_divide_eq pos_divide_less_eq)
  have k: "of_int (2 ^ 53 - 1) = (2 ^ 53 - 1 :: rat)" by simp
  have fl: "\<lfloor>x / pow2 971\<rfloor> = 2 ^ 53 - 1"
  proof (rule floor_unique)
    show "of_int (2 ^ 53 - 1) \<le> x / pow2 971" unfolding k using y(1) by linarith
    show "x / pow2 971 < of_int (2 ^ 53 - 1) + 1" unfolding k using y(2) by linarith
  qed
  have "rne (x / pow2 971) = 2 ^ 53 - 1"
    unfolding rne_def fl Let_def k using y(2) by simp
  then show ?thesis using x0 by (simp add: rnd_def u m)
qed (simp add: rnd_le)

lemma val_mk64: "\<bar>rnd r\<bar> \<le> maxf \<Longrightarrow> is_finite (mk64 s r) \<and> val (mk64 s r) = rnd r"
  by (auto simp: mk64_def Let_def val_def)

lemma val_fadd:
  assumes "is_finite a" "is_finite b" "\<bar>rnd (val a + val b)\<bar> \<le> maxf"
  shows "is_finite (fadd a b)" "val (fadd a b) = rnd (val a + val b)"
  using assms val_mk64 [of "val a + val b" False] by (auto simp: fadd_finite val_def)

lemma val_fsub:
  assumes "is_finite a" "is_finite b" "\<bar>rnd (val a - val b)\<bar> \<le> maxf"
  shows "is_finite (fsub a b)" "val (fsub a b) = rnd (val a - val b)"
  using assms val_fadd [of a "fneg b"] by (simp_all add: fsub_def)

lemma val_fdiv:
  assumes "is_finite a" "is_finite b" "0 < val b" "\<bar>rnd (val a / val b)\<bar> \<le> maxf"
  shows "is_finite (fdiv a b)" "val (fdiv a b) = rnd (val a / val b)"
  using assms val_mk64 [of "val a / val b"]
  by (auto simp: fdiv_def Let_def is_zero_def is_inf_def is_finite_def)

lemma fmul_same_sign: "is_finite a \<Longrightarrow> is_finite b \<Longrightarrow> 0 \<le> val a * val b \<Longrightarrow> fnonneg (fmul a b)"
  by (auto simp: fmul_def Let_def is_inf_def is_finite_def mk64_nonneg)

lemma abs_rnd_le: "\<bar>x\<bar> \<le> maxf \<Longrightarrow> \<bar>rnd x\<bar> \<le> maxf"
  using rnd_le [of maxf x] rnd_ge [of "- maxf" x] rnd_uminus [of maxf] by (simp add: abs_le_iff)

lemma wf_repr: "wf64 a \<Longrightarrow> is_finite a \<Longrightarrow> repr (val a)"
  using repr_rnd by (cases a) (auto simp: val_def, metis)

lemma fdiv_PInf: "is_finite t \<Longrightarrow> flt (Fin 0) t \<Longrightarrow> fdiv PInf t = PInf"
  by (cases t) (auto simp: fdiv_def Let_def is_inf_def is_neg_def finf_def flt_def)

lemma fsub_one_finite:
  assumes "is_finite a" "wf64 a"
  shows "is_finite (fsub a (Fin 1))"
proof -
  have "\<bar>val a\<bar> \<le> maxf" using assms by (cases a) (auto simp: val_def)
  then have "\<bar>rnd (val a - 1)\<bar> \<le> maxf"
    using rnd_near_max [of "val a - 1"] rnd_near_max [of "1 - val a"] rnd_uminus [of "val a - 1"]
    by (simp add: abs_le_iff)
  then show ?thesis using val_fsub [of a "Fin 1"] assms by simp
qed

end
