(* ===== verification/Corpus.thy ===== *)
theory Corpus
  imports Prelude "HOL-Library.Mapping" "HOL-Library.AList_Mapping"
begin

text \<open>
  The in-memory corpus of LibAFL (\<open>libafl/src/corpus/inmemory.rs\<close> and the id iterator of
  \<open>corpus/mod.rs\<close>): testcases live in a hash map whose items are doubly linked in creation order,
  next to a sorted vector of the ids. The testcase type is a parameter. An \<open>unwrap\<close> of a missing
  item is a panic, the value \<open>None\<close>. The well-formedness predicate says that the links, the key
  vector and the map agree; every operation keeps it and none of them panics under it.
\<close>

section \<open>Storage\<close>

type_synonym corpus_id = nat

record 'a storage_item =
  item_testcase :: 'a
  item_prev :: "corpus_id option"
  item_next :: "corpus_id option"

record 'a storage_map =
  smap :: "(corpus_id, 'a storage_item) mapping"
  skeys :: "corpus_id list"
  first_id :: "corpus_id option"
  last_id :: "corpus_id option"

definition storage_map_new :: "'a storage_map" where
  "storage_map_new = \<lparr>smap = Mapping.empty, skeys = [], first_id = None, last_id = None\<rparr>"

text \<open>
  \<open>Vec::binary_search\<close> on a sorted vector: the position of the key, or the position at which it
  would have to be inserted.
\<close>

definition binary_search :: "nat list \<Rightarrow> nat \<Rightarrow> nat + nat" where
  "binary_search ks k = (let i = length (takeWhile (\<lambda>x. x < k) ks) in
     if i < length ks \<and> ks ! i = k then Inr i else Inl i)"

definition insert_key :: "'a storage_map \<Rightarrow> corpus_id \<Rightarrow> 'a storage_map" where
  "insert_key m k = (case binary_search (skeys m) k of
     Inl i \<Rightarrow> m\<lparr>skeys := take i (skeys m) @ k # drop i (skeys m)\<rparr> | Inr _ \<Rightarrow> m)"

definition remove_key :: "'a storage_map \<Rightarrow> corpus_id \<Rightarrow> 'a storage_map" where
  "remove_key m k = (case binary_search (skeys m) k of
     Inr i \<Rightarrow> m\<lparr>skeys := take i (skeys m) @ drop (Suc i) (skeys m)\<rparr> | Inl _ \<Rightarrow> m)"

definition map_replace :: "'a storage_map \<Rightarrow> corpus_id \<Rightarrow> 'a \<Rightarrow> 'a storage_map \<times> 'a option" where
  "map_replace m k tc = (case Mapping.lookup (smap m) k of
     Some it \<Rightarrow> (m\<lparr>smap := Mapping.update k (it\<lparr>item_testcase := tc\<rparr>) (smap m)\<rparr>,
                 Some (item_testcase it))
   | None \<Rightarrow> (m, None))"

text \<open>\<open>self.map.get_mut(&k).unwrap().next = v\<close>, and the same for \<open>prev\<close>.\<close>

definition set_next :: "corpus_id \<Rightarrow> corpus_id option \<Rightarrow> 'a storage_map \<Rightarrow> 'a storage_map option" where
  "set_next k v m = map_option
     (\<lambda>it. m\<lparr>smap := Mapping.update k (it\<lparr>item_next := v\<rparr>) (smap m)\<rparr>) (Mapping.lookup (smap m) k)"

definition set_prev :: "corpus_id \<Rightarrow> corpus_id option \<Rightarrow> 'a storage_map \<Rightarrow> 'a storage_map option" where
  "set_prev k v m = map_option
     (\<lambda>it. m\<lparr>smap := Mapping.update k (it\<lparr>item_prev := v\<rparr>) (smap m)\<rparr>) (Mapping.lookup (smap m) k)"

definition map_remove :: "'a storage_map \<Rightarrow> corpus_id \<Rightarrow> ('a storage_map \<times> 'a option) option" where
  "map_remove m k = (case Mapping.lookup (smap m) k of
     None \<Rightarrow> Some (m, None)
   | Some it \<Rightarrow>
       let m1 = remove_key (m\<lparr>smap := Mapping.delete k (smap m)\<rparr>) k in
       Option.bind (case item_prev it of
                      Some p \<Rightarrow> set_next p (item_next it) m1
                    | None \<Rightarrow> Some (m1\<lparr>first_id := item_next it\<rparr>))
         (\<lambda>m2. Option.bind (case item_next it of
                      Some n \<Rightarrow> set_prev n (item_prev it) m2
                    | None \<Rightarrow> Some (m2\<lparr>last_id := item_prev it\<rparr>))
           (\<lambda>m3. Some (m3, Some (item_testcase it)))))"

definition map_get :: "'a storage_map \<Rightarrow> corpus_id \<Rightarrow> 'a option" where
  "map_get m k = map_option item_testcase (Mapping.lookup (smap m) k)"

definition map_next :: "'a storage_map \<Rightarrow> corpus_id \<Rightarrow> corpus_id option" where
  "map_next m k = (case Mapping.lookup (smap m) k of Some it \<Rightarrow> item_next it | None \<Rightarrow> None)"

definition map_prev :: "'a storage_map \<Rightarrow> corpus_id \<Rightarrow> corpus_id option" where
  "map_prev m k = (case Mapping.lookup (smap m) k of Some it \<Rightarrow> item_prev it | None \<Rightarrow> None)"

record 'a testcase_storage =
  enabled :: "'a storage_map"
  disabled_map :: "'a storage_map"
  progressive_id :: nat

definition storage_new :: "'a testcase_storage" where
  "storage_new = \<lparr>enabled = storage_map_new, disabled_map = storage_map_new, progressive_id = 0\<rparr>"

definition peek_free_id :: "'a testcase_storage \<Rightarrow> corpus_id" where
  "peek_free_id s = progressive_id s"

text \<open>The body of \<open>insert_inner\<close> on the chosen map: link behind the last item, then insert.\<close>

definition map_insert_last :: "corpus_id \<Rightarrow> 'a \<Rightarrow> 'a storage_map \<Rightarrow> 'a storage_map option" where
  "map_insert_last k tc m =
     Option.bind (case last_id m of Some l \<Rightarrow> set_next l (Some k) m | None \<Rightarrow> Some m)
       (\<lambda>m1. let m2 = (if first_id m1 = None then m1\<lparr>first_id := Some k\<rparr> else m1);
                 m3 = insert_key (m2\<lparr>last_id := Some k\<rparr>) k
             in Some (m3\<lparr>smap := Mapping.update k
                  \<lparr>item_testcase = tc, item_prev = last_id m, item_next = None\<rparr> (smap m3)\<rparr>))"

definition insert_inner ::
  "'a testcase_storage \<Rightarrow> 'a \<Rightarrow> bool \<Rightarrow> ('a testcase_storage \<times> corpus_id) option" where
  "insert_inner s tc is_disabled =
     (let k = progressive_id s; s1 = s\<lparr>progressive_id := progressive_id s + 1\<rparr> in
      if is_disabled
      then map_option (\<lambda>m. (s1\<lparr>disabled_map := m\<rparr>, k)) (map_insert_last k tc (disabled_map s1))
      else map_option (\<lambda>m. (s1\<lparr>enabled := m\<rparr>, k)) (map_insert_last k tc (enabled s1)))"

section \<open>The corpus\<close>

record 'a corpus =
  storage :: "'a testcase_storage"
  current :: "corpus_id option"

datatype corpus_error = KeyNotFound corpus_id

definition corpus_new :: "'a corpus" where
  "corpus_new = \<lparr>storage = storage_new, current = None\<rparr>"

definition count :: "'a corpus \<Rightarrow> nat" where
  "count c = Mapping.size (smap (enabled (storage c)))"

definition count_disabled :: "'a corpus \<Rightarrow> nat" where
  "count_disabled c = Mapping.size (smap (disabled_map (storage c)))"

definition count_all :: "'a corpus \<Rightarrow> nat" where
  "count_all c = count c + count_disabled c"

definition corpus_add :: "'a corpus \<Rightarrow> 'a \<Rightarrow> ('a corpus \<times> corpus_id) option" where
  "corpus_add c tc = map_option (\<lambda>(s, k). (c\<lparr>storage := s\<rparr>, k)) (insert_inner (storage c) tc False)"

definition corpus_add_disabled :: "'a corpus \<Rightarrow> 'a \<Rightarrow> ('a corpus \<times> corpus_id) option" where
  "corpus_add_disabled c tc =
     map_option (\<lambda>(s, k). (c\<lparr>storage := s\<rparr>, k)) (insert_inner (storage c) tc True)"

definition corpus_replace :: "'a corpus \<Rightarrow> corpus_id \<Rightarrow> 'a \<Rightarrow> 'a corpus \<times> (corpus_error + 'a)" where
  "corpus_replace c k tc = (case map_replace (enabled (storage c)) k tc of
     (m, Some old) \<Rightarrow> (c\<lparr>storage := (storage c)\<lparr>enabled := m\<rparr>\<rparr>, Inr old)
   | (m, None) \<Rightarrow> (c, Inl (KeyNotFound k)))"

definition corpus_remove ::
  "'a corpus \<Rightarrow> corpus_id \<Rightarrow> ('a corpus \<times> (corpus_error + 'a)) option" where
  "corpus_remove c k =
     Option.bind (map_remove (enabled (storage c)) k) (\<lambda>(m, r).
       case r of
         Some tc \<Rightarrow> Some (c\<lparr>storage := (storage c)\<lparr>enabled := m\<rparr>\<rparr>, Inr tc)
       | None \<Rightarrow> Option.bind (map_remove (disabled_map (storage c)) k) (\<lambda>(m', r').
           case r' of
             Some tc \<Rightarrow> Some (c\<lparr>storage := (storage c)\<lparr>disabled_map := m'\<rparr>\<rparr>, Inr tc)
           | None \<Rightarrow> Some (c, Inl (KeyNotFound k))))"

definition corpus_get :: "'a corpus \<Rightarrow> corpus_id \<Rightarrow> corpus_error + 'a" where
  "corpus_get c k = (case map_get (enabled (storage c)) k of
     Some tc \<Rightarrow> Inr tc | None \<Rightarrow> Inl (KeyNotFound k))"

definition corpus_get_from_all :: "'a corpus \<Rightarrow> corpus_id \<Rightarrow> corpus_error + 'a" where
  "corpus_get_from_all c k = (case map_get (enabled (storage c)) k of
     Some tc \<Rightarrow> Inr tc
   | None \<Rightarrow> (case map_get (disabled_map (storage c)) k of
       Some tc \<Rightarrow> Inr tc | None \<Rightarrow> Inl (KeyNotFound k)))"

definition corpus_next :: "'a corpus \<Rightarrow> corpus_id \<Rightarrow> corpus_id option" where
  "corpus_next c k = map_next (enabled (storage c)) k"

definition corpus_prev :: "'a corpus \<Rightarrow> corpus_id \<Rightarrow> corpus_id option" where
  "corpus_prev c k = map_prev (enabled (storage c)) k"

definition corpus_first :: "'a corpus \<Rightarrow> corpus_id option" where
  "corpus_first c = first_id (enabled (storage c))"

definition corpus_last :: "'a corpus \<Rightarrow> corpus_id option" where
  "corpus_last c = last_id (enabled (storage c))"

text \<open>Vector indexing panics out of range.\<close>

definition corpus_nth :: "'a corpus \<Rightarrow> nat \<Rightarrow> corpus_id option" where
  "corpus_nth c n = get_opt (skeys (enabled (storage c))) n"

definition nth_from_all :: "'a corpus \<Rightarrow> nat \<Rightarrow> corpus_id option" where
  "nth_from_all c n = (if count c \<le> n
     then get_opt (skeys (disabled_map (storage c))) (n - count c)
     else get_opt (skeys (enabled (storage c))) n)"

text \<open>The id iterator: forwards along \<open>next\<close>, backwards along \<open>prev\<close>.\<close>

partial_function (option) ids_from :: "'a storage_map \<Rightarrow> corpus_id option \<Rightarrow> corpus_id list option" where
  "ids_from m cur = (case cur of None \<Rightarrow> Some []
     | Some k \<Rightarrow> Option.bind (ids_from m (map_next m k)) (\<lambda>ks. Some (k # ks)))"

partial_function (option) ids_back_from ::
  "'a storage_map \<Rightarrow> corpus_id option \<Rightarrow> corpus_id list option" where
  "ids_back_from m cur = (case cur of None \<Rightarrow> Some []
     | Some k \<Rightarrow> Option.bind (ids_back_from m (map_prev m k)) (\<lambda>ks. Some (k # ks)))"

definition ids :: "'a corpus \<Rightarrow> corpus_id list option" where
  "ids c = ids_from (enabled (storage c)) (corpus_first c)"

definition ids_rev :: "'a corpus \<Rightarrow> corpus_id list option" where
  "ids_rev c = ids_back_from (enabled (storage c)) (corpus_last c)"

text \<open>\<open>corpus.get(id)?.borrow_mut()\<close> followed by an update of the testcase in place.\<close>

definition update_testcase :: "corpus_id \<Rightarrow> ('a \<Rightarrow> 'a) \<Rightarrow> 'a corpus \<Rightarrow> corpus_error + 'a corpus" where
  "update_testcase k f c = (case Mapping.lookup (smap (enabled (storage c))) k of
     None \<Rightarrow> Inl (KeyNotFound k)
   | Some it \<Rightarrow> Inr (c\<lparr>storage := (storage c)\<lparr>enabled := (enabled (storage c))\<lparr>smap :=
       Mapping.update k (it\<lparr>item_testcase := f (item_testcase it)\<rparr>) (smap (enabled (storage c)))\<rparr>\<rparr>\<rparr>))"

section \<open>Well-formedness\<close>

text \<open>
  \<open>links L p ks e\<close>: following the lookup function \<open>L\<close>, the ids \<open>ks\<close> form a doubly linked segment
  whose first item points back to \<open>p\<close> and whose last item points forward to \<open>e\<close>.
\<close>

fun links :: "(corpus_id \<Rightarrow> 'a storage_item option) \<Rightarrow> corpus_id option \<Rightarrow> corpus_id list \<Rightarrow>
    corpus_id option \<Rightarrow> bool" where
  "links L p [] e = True"
| "links L p (k # ks) e = (case L k of None \<Rightarrow> False | Some it \<Rightarrow>
     item_prev it = p \<and> item_next it = (case ks of [] \<Rightarrow> e | n # _ \<Rightarrow> Some n) \<and>
     links L (Some k) ks e)"

definition hd_opt :: "'b list \<Rightarrow> 'b option \<Rightarrow> 'b option" where
  "hd_opt xs e = (case xs of [] \<Rightarrow> e | x # _ \<Rightarrow> Some x)"

definition last_opt :: "'b list \<Rightarrow> 'b option \<Rightarrow> 'b option" where
  "last_opt xs e = (if xs = [] then e else Some (last xs))"

definition wf_map :: "'a storage_map \<Rightarrow> bool" where
  "wf_map m = (sorted_wrt (<) (skeys m) \<and> Mapping.keys (smap m) = set (skeys m) \<and>
     first_id m = hd_opt (skeys m) None \<and> last_id m = last_opt (skeys m) None \<and>
     links (Mapping.lookup (smap m)) None (skeys m) None)"

definition wf_storage :: "'a testcase_storage \<Rightarrow> bool" where
  "wf_storage s = (wf_map (enabled s) \<and> wf_map (disabled_map s) \<and>
     (\<forall>k \<in> set (skeys (enabled s)) \<union> set (skeys (disabled_map s)). k < progressive_id s) \<and>
     set (skeys (enabled s)) \<inter> set (skeys (disabled_map s)) = {})"

abbreviation wf_corpus :: "'a corpus \<Rightarrow> bool" where
  "wf_corpus c \<equiv> wf_storage (storage c)"

lemma opt_simps [simp]:
  "hd_opt [] e = e" "hd_opt (x # xs) e = Some x" "last_opt [] e = e" "last_opt (xs @ [x]) e = Some x"
  "xs \<noteq> [] \<Longrightarrow> last_opt xs e = Some (last xs)" "xs \<noteq> [] \<Longrightarrow> hd_opt xs e = Some (hd xs)"
  by (auto simp: hd_opt_def last_opt_def split: list.splits)

lemma lookup_update_fun: "Mapping.lookup (Mapping.update k v m) = (Mapping.lookup m)(k \<mapsto> v)"
  by (rule ext) (simp add: lookup_update')

lemma lookup_delete_fun: "Mapping.lookup (Mapping.delete k m) = (Mapping.lookup m)(k := None)"
  by (rule ext) (transfer, simp)

lemmas mapping_simps = lookup_update_fun lookup_delete_fun

lemma links_append:
  "links L p (as @ bs) e \<longleftrightarrow> links L p as (hd_opt bs e) \<and> links L (last_opt as p) bs e"
proof (induction as arbitrary: p)
  case (Cons a as)
  have "last_opt (a # as) p = last_opt as (Some a)" by (simp add: last_opt_def)
  with Cons show ?case
    by (auto simp: hd_opt_def split: option.splits list.splits)
qed (simp add: hd_opt_def)

lemma links_cong: "(\<And>k. k \<in> set ks \<Longrightarrow> L k = L' k) \<Longrightarrow> links L p ks e = links L' p ks e"
  by (induction ks arbitrary: p) (auto split: option.splits)

lemma links_dom: "links L p ks e \<Longrightarrow> k \<in> set ks \<Longrightarrow> \<exists>it. L k = Some it"
  by (induction ks arbitrary: p) (auto split: option.splits)

lemma links_set_end:
  assumes "links L p (as @ [l]) e" "distinct (as @ [l])" "L l = Some it"
  shows "links (L(l \<mapsto> it\<lparr>item_next := e'\<rparr>)) p (as @ [l]) e'"
proof -
  have "links L p as (Some l)" "links L (last_opt as p) [l] e"
    using assms(1) by (simp_all add: links_append)
  moreover have "links L p as (Some l) = links (L(l \<mapsto> it\<lparr>item_next := e'\<rparr>)) p as (Some l)"
    using assms(2) by (intro links_cong) auto
  ultimately show ?thesis using assms(3) by (simp add: links_append)
qed

lemma links_set_start:
  assumes "links L p (b # bs) e" "distinct (b # bs)" "L b = Some it"
  shows "links (L(b \<mapsto> it\<lparr>item_prev := p'\<rparr>)) p' (b # bs) e"
proof -
  have "links L (Some b) bs e = links (L(b \<mapsto> it\<lparr>item_prev := p'\<rparr>)) (Some b) bs e"
    using assms(2) by (intro links_cong) auto
  then show ?thesis using assms by simp
qed

lemma sorted_distinct: "sorted_wrt (<) (ks :: nat list) \<Longrightarrow> distinct ks"
  by (induction ks) auto

lemma wf_map_new [simp]: "wf_map storage_map_new"
  by (simp add: wf_map_def storage_map_new_def)

lemma wf_storage_new [simp]: "wf_storage storage_new"
  by (simp add: wf_storage_def storage_new_def) (simp add: storage_map_new_def)

lemma wf_corpus_new [simp]: "wf_corpus corpus_new"
  by (simp add: corpus_new_def)

section \<open>Insertion\<close>

lemma takeWhile_all: "\<forall>x \<in> set ks. x < k \<Longrightarrow> takeWhile (\<lambda>x. x < (k::nat)) ks = ks"
  by (simp add: takeWhile_eq_all_conv)

lemma insert_key_last:
  "\<forall>x \<in> set (skeys m). x < k \<Longrightarrow> insert_key m k = m\<lparr>skeys := skeys m @ [k]\<rparr>"
  by (simp add: insert_key_def binary_search_def takeWhile_all Let_def)

lemma map_insert_last_ok:
  assumes wf: "wf_map m" and k: "\<forall>x \<in> set (skeys m). x < k"
  shows "\<exists>m'. map_insert_last k tc m = Some m' \<and> wf_map m' \<and> skeys m' = skeys m @ [k] \<and>
    map_get m' k = Some tc \<and> (\<forall>j. j \<noteq> k \<longrightarrow> map_get m' j = map_get m j)"
proof (cases "skeys m = []")
  case True
  then show ?thesis using wf
    by (auto simp: map_insert_last_def wf_map_def insert_key_def binary_search_def mapping_simps
        map_get_def Let_def)
next
  case False
  then obtain as l where ks: "skeys m = as @ [l]" by (metis rev_exhaust)
  let ?L = "Mapping.lookup (smap m)"
  have lk: "links ?L None (as @ [l]) None" and srt: "sorted_wrt (<) (as @ [l])"
    and dom: "Mapping.keys (smap m) = set (as @ [l])" and last: "last_id m = Some l"
    and first: "first_id m = Some (hd (as @ [l]))"
    using wf by (auto simp: wf_map_def ks)
  obtain it where it: "?L l = Some it" using links_dom [OF lk, of l] by auto
  have kl: "\<forall>x \<in> set (as @ [l]). x < k" using k by (simp add: ks)
  define m1 where "m1 = m\<lparr>smap := Mapping.update l (it\<lparr>item_next := Some k\<rparr>) (smap m)\<rparr>"
  define new where "new = \<lparr>item_testcase = tc, item_prev = Some l, item_next = None\<rparr>"
  define m' where "m' = m\<lparr>smap := Mapping.update k new (smap m1), skeys := (as @ [l]) @ [k],
    last_id := Some k\<rparr>"
  have eq: "map_insert_last k tc m = Some m'"
    using first k by (simp add: map_insert_last_def last set_next_def it insert_key_last m1_def
        m'_def new_def ks Let_def)
  have "distinct (as @ [l])" using srt by (rule sorted_distinct)
  then have "links (?L(l \<mapsto> it\<lparr>item_next := Some k\<rparr>)) None (as @ [l]) (Some k)"
    using links_set_end [OF lk _ it] by blast
  moreover have "links (?L(l \<mapsto> it\<lparr>item_next := Some k\<rparr>)) None (as @ [l]) (Some k) =
      links (?L(l \<mapsto> it\<lparr>item_next := Some k\<rparr>, k \<mapsto> new)) None (as @ [l]) (Some k)"
    using kl by (intro links_cong) auto
  ultimately have "links (?L(l \<mapsto> it\<lparr>item_next := Some k\<rparr>, k \<mapsto> new)) None ((as @ [l]) @ [k]) None"
    by (simp only: links_append [of _ _ "as @ [l]" "[k]"]) (simp add: new_def)
  then have "wf_map m'"
    using srt kl dom first
    by (auto simp: wf_map_def m'_def m1_def mapping_simps sorted_wrt_append hd_append)
  moreover have "map_get m' k = Some tc"
    by (simp add: m'_def map_get_def mapping_simps new_def)
  moreover have "map_get m' j = map_get m j" if "j \<noteq> k" for j
    using that it by (simp add: m'_def m1_def map_get_def mapping_simps)
  ultimately show ?thesis using eq by (auto simp: m'_def ks)
qed

lemma insert_inner_ok:
  assumes wf: "wf_storage s"
  shows "\<exists>s'. insert_inner s tc d = Some (s', progressive_id s) \<and> wf_storage s' \<and>
     progressive_id s' = Suc (progressive_id s) \<and>
     skeys (enabled s') = (if d then skeys (enabled s) else skeys (enabled s) @ [progressive_id s]) \<and>
     skeys (disabled_map s') =
       (if d then skeys (disabled_map s) @ [progressive_id s] else skeys (disabled_map s)) \<and>
     map_get (if d then disabled_map s' else enabled s') (progressive_id s) = Some tc \<and>
     (\<forall>j. j \<noteq> progressive_id s \<longrightarrow> map_get (enabled s') j = map_get (enabled s) j \<and>
        map_get (disabled_map s') j = map_get (disabled_map s) j)"
proof (cases d)
  case True
  have "wf_map (disabled_map s)" "\<forall>x \<in> set (skeys (disabled_map s)). x < progressive_id s"
    using wf by (auto simp: wf_storage_def)
  from map_insert_last_ok [OF this, of tc] obtain m where
    m: "map_insert_last (progressive_id s) tc (disabled_map s) = Some m" "wf_map m"
      "skeys m = skeys (disabled_map s) @ [progressive_id s]" "map_get m (progressive_id s) = Some tc"
      "\<forall>j. j \<noteq> progressive_id s \<longrightarrow> map_get m j = map_get (disabled_map s) j" by blast
  then show ?thesis using wf True
    by (auto simp: insert_inner_def Let_def wf_storage_def less_Suc_eq)
next
  case False
  have "wf_map (enabled s)" "\<forall>x \<in> set (skeys (enabled s)). x < progressive_id s"
    using wf by (auto simp: wf_storage_def)
  from map_insert_last_ok [OF this, of tc] obtain m where
    m: "map_insert_last (progressive_id s) tc (enabled s) = Some m" "wf_map m"
      "skeys m = skeys (enabled s) @ [progressive_id s]" "map_get m (progressive_id s) = Some tc"
      "\<forall>j. j \<noteq> progressive_id s \<longrightarrow> map_get m j = map_get (enabled s) j" by blast
  then show ?thesis using wf False
    by (auto simp: insert_inner_def Let_def wf_storage_def less_Suc_eq)
qed

section \<open>Removal, replacement and in-place update\<close>

lemma remove_key_split:
  assumes "sorted_wrt (<) (as @ k # bs)" "skeys m = as @ k # bs"
  shows "remove_key m k = m\<lparr>skeys := as @ bs\<rparr>"
proof -
  have "takeWhile (\<lambda>x. x < k) (as @ k # bs) = as"
    using assms(1) by (auto simp: sorted_wrt_append takeWhile_append takeWhile_eq_all_conv)
  then show ?thesis using assms(2) by (simp add: remove_key_def binary_search_def Let_def)
qed

lemma wf_map_lookup_iff: "wf_map m \<Longrightarrow> (\<exists>it. Mapping.lookup (smap m) k = Some it) \<longleftrightarrow> k \<in> set (skeys m)"
  by (auto simp: wf_map_def keys_dom_lookup dom_def)

lemma map_get_iff: "wf_map m \<Longrightarrow> (\<exists>tc. map_get m k = Some tc) \<longleftrightarrow> k \<in> set (skeys m)"
  by (auto simp: map_get_def simp flip: wf_map_lookup_iff)

lemma map_get_None_iff: "wf_map m \<Longrightarrow> map_get m k = None \<longleftrightarrow> k \<notin> set (skeys m)"
  using map_get_iff by (metis option.exhaust option.simps(3))

text \<open>Unlinking one item joins the two segments around it.\<close>

lemma links_unlink:
  assumes lk: "links L None (as @ k # bs) None" and d: "distinct (as @ k # bs)"
    and L1: "L1 = L(k := None)"
    and L2: "L2 = (if as = [] then L1 else
      L1(last as \<mapsto> (the (L (last as)))\<lparr>item_next := hd_opt bs None\<rparr>))"
    and L3: "L3 = (if bs = [] then L2 else
      L2(hd bs \<mapsto> (the (L (hd bs)))\<lparr>item_prev := last_opt as None\<rparr>))"
  shows "links L3 None (as @ bs) None"
proof -
  have sa: "links L None as (Some k)" and sb: "links L (Some k) bs None"
    using lk by (auto simp: links_append split: option.splits list.splits)
  have "links L2 None as (hd_opt bs None)"
  proof (cases as rule: rev_cases)
    case (snoc a l)
    obtain it where it: "L l = Some it" using links_dom [OF sa, of l] snoc by auto
    have "links (L(l \<mapsto> it\<lparr>item_next := hd_opt bs None\<rparr>)) None as (hd_opt bs None)"
      using links_set_end [OF sa [unfolded snoc] _ it] d snoc by simp
    moreover have "links (L(l \<mapsto> it\<lparr>item_next := hd_opt bs None\<rparr>)) None as (hd_opt bs None) =
        links L2 None as (hd_opt bs None)"
      using d snoc it by (intro links_cong) (auto simp: L2 L1)
    ultimately show ?thesis by simp
  qed simp
  moreover have "links L2 None as (hd_opt bs None) = links L3 None as (hd_opt bs None)"
    using d by (intro links_cong) (cases bs; auto simp: L3)
  moreover have "links L3 (last_opt as None) bs None"
  proof (cases bs)
    case (Cons b r)
    obtain it where it: "L b = Some it" using links_dom [OF sb, of b] Cons by auto
    have "links (L(b \<mapsto> it\<lparr>item_prev := last_opt as None\<rparr>)) (last_opt as None) bs None"
      using links_set_start [OF sb [unfolded Cons] _ it] d Cons by simp
    moreover have "last as \<notin> set bs" if "as \<noteq> []" using d last_in_set [OF that] by auto
    then have "links (L(b \<mapsto> it\<lparr>item_prev := last_opt as None\<rparr>)) (last_opt as None) bs None =
        links L3 (last_opt as None) bs None"
      using d Cons it by (intro links_cong) (cases "as = []"; auto simp: L3 L2 L1)
    ultimately show ?thesis by simp
  qed simp
  ultimately show ?thesis by (simp add: links_append)
qed

lemma map_remove_absent: "Mapping.lookup (smap m) k = None \<Longrightarrow> map_remove m k = Some (m, None)"
  by (simp add: map_remove_def)

lemma map_remove_ok:
  assumes wf: "wf_map m" and k: "k \<in> set (skeys m)"
  shows "\<exists>m' tc. map_remove m k = Some (m', Some tc) \<and> map_get m k = Some tc \<and> wf_map m' \<and>
     skeys m' = remove1 k (skeys m) \<and> map_get m' k = None \<and>
     (\<forall>j. j \<noteq> k \<longrightarrow> map_get m' j = map_get m j)"
proof -
  obtain as bs where ks: "skeys m = as @ k # bs" using k by (metis split_list)
  let ?L = "Mapping.lookup (smap m)"
  have srt: "sorted_wrt (<) (as @ k # bs)" and lk: "links ?L None (as @ k # bs) None"
    and dom: "dom ?L = set (as @ k # bs)"
    and fl: "first_id m = hd_opt (as @ k # bs) None" "last_id m = last_opt (as @ k # bs) None"
    using wf by (simp_all add: wf_map_def ks keys_dom_lookup)
  have d: "distinct (as @ k # bs)" using srt by (rule sorted_distinct)
  obtain it where it: "?L k = Some it" "item_prev it = last_opt as None"
      "item_next it = hd_opt bs None"
    using lk by (auto simp: links_append hd_opt_def split: option.splits)
  have some: "\<exists>i. ?L x = Some i" if "x \<in> set as \<union> set bs" for x
    using links_dom [OF lk, of x] that by auto
  define L1 where "L1 = ?L(k := None)"
  define L2 where "L2 = (if as = [] then L1 else
      L1(last as \<mapsto> (the (?L (last as)))\<lparr>item_next := hd_opt bs None\<rparr>))"
  define L3 where "L3 = (if bs = [] then L2 else
      L2(hd bs \<mapsto> (the (?L (hd bs)))\<lparr>item_prev := last_opt as None\<rparr>))"
  have lk3: "links L3 None (as @ bs) None"
    by (rule links_unlink [OF lk d L1_def L2_def L3_def])
  have neq: "last as \<in> set as \<and> last as \<noteq> k \<and> last as \<notin> set bs" if "as \<noteq> []"
    using d last_in_set [OF that] by auto
  have neq': "hd bs \<in> set bs \<and> hd bs \<noteq> k \<and> hd bs \<notin> set as" if "bs \<noteq> []"
    using d hd_in_set [OF that] by auto
  have rk: "remove_key (m\<lparr>smap := X\<rparr>) k = m\<lparr>smap := X, skeys := as @ bs\<rparr>" for X
    by (subst remove_key_split [OF srt]) (simp_all add: ks)
  have "\<exists>m'. map_remove m k = Some (m', Some (item_testcase it)) \<and>
      Mapping.lookup (smap m') = L3 \<and> skeys m' = as @ bs \<and>
      first_id m' = hd_opt (as @ bs) None \<and> last_id m' = last_opt (as @ bs) None"
  proof (cases as rule: rev_cases)
    case Nil
    then show ?thesis using it fl srt some [of "hd bs"] neq'
      by (cases bs) (auto simp: map_remove_def rk mapping_simps Let_def ks
          set_prev_def L3_def L2_def L1_def)
  next
    case (snoc a l)
    then show ?thesis using it fl some [of "hd bs"] some [of l] neq neq' srt
      by (cases bs) (auto simp: map_remove_def rk mapping_simps Let_def
          set_next_def set_prev_def L3_def L2_def L1_def hd_append)
  qed
  then obtain m' where m': "map_remove m k = Some (m', Some (item_testcase it))"
      "Mapping.lookup (smap m') = L3" "skeys m' = as @ bs"
      "first_id m' = hd_opt (as @ bs) None" "last_id m' = last_opt (as @ bs) None" by blast
  have "dom L3 = set (as @ bs)"
    using dom d neq neq' by (auto simp: L3_def L2_def L1_def)
  then have "wf_map m'"
    using srt lk3 m' by (auto simp: wf_map_def keys_dom_lookup sorted_wrt_append)
  moreover have "as \<noteq> [] \<Longrightarrow> \<exists>i. ?L (last as) = Some i" "bs \<noteq> [] \<Longrightarrow> \<exists>i. ?L (hd bs) = Some i"
    using some neq neq' by blast+
  then have "\<forall>j. j \<noteq> k \<longrightarrow> map_get m' j = map_get m j"
    using neq neq' by (auto simp: map_get_def m' L3_def L2_def L1_def)
  moreover have "map_get m' k = None"
    using neq neq' by (cases "as = []"; cases "bs = []") (auto simp: map_get_def m' L3_def L2_def L1_def)
  moreover have "remove1 k (skeys m) = as @ bs" using d by (simp add: ks remove1_append)
  ultimately show ?thesis using m' it by (auto simp: map_get_def)
qed

lemma map_update_item_ok:
  assumes wf: "wf_map m" and it: "Mapping.lookup (smap m) k = Some it"
  shows "wf_map (m\<lparr>smap := Mapping.update k (it\<lparr>item_testcase := tc\<rparr>) (smap m)\<rparr>)"
proof -
  let ?L = "Mapping.lookup (smap m)"
  have "links (?L(k \<mapsto> it\<lparr>item_testcase := tc\<rparr>)) p ks e = links ?L p ks e" for p ks e
    using it by (induction ks arbitrary: p) (auto split: option.splits)
  moreover have "k \<in> set (skeys m)" using wf_map_lookup_iff [OF wf] it by blast
  ultimately show ?thesis using wf by (auto simp: wf_map_def mapping_simps)
qed

lemma wf_storage_enabled_update:
  "wf_storage s \<Longrightarrow> wf_map m \<Longrightarrow> set (skeys m) \<subseteq> set (skeys (enabled s)) \<Longrightarrow> wf_storage (s\<lparr>enabled := m\<rparr>)"
  by (auto simp: wf_storage_def)

lemma wf_storage_disabled_update:
  "wf_storage s \<Longrightarrow> wf_map m \<Longrightarrow> set (skeys m) \<subseteq> set (skeys (disabled_map s)) \<Longrightarrow>
    wf_storage (s\<lparr>disabled_map := m\<rparr>)"
  by (auto simp: wf_storage_def)

lemma corpus_replace_wf: "wf_corpus c \<Longrightarrow> corpus_replace c k tc = (c', r) \<Longrightarrow> wf_corpus c'"
  by (auto simp: corpus_replace_def map_replace_def wf_storage_def map_update_item_ok
      split: option.splits)

lemma update_testcase_wf: "wf_corpus c \<Longrightarrow> update_testcase k f c = Inr c' \<Longrightarrow> wf_corpus c'"
  by (auto simp: update_testcase_def wf_storage_def map_update_item_ok split: option.splits)

lemma wf_corpus_maps:
  "wf_corpus c \<Longrightarrow> wf_map (enabled (storage c))" "wf_corpus c \<Longrightarrow> wf_map (disabled_map (storage c))"
  by (simp_all add: wf_storage_def)

text \<open>Removal, on its three branches: enabled, disabled, and unknown id.\<close>

lemma corpus_remove_enabled:
  assumes wf: "wf_corpus c" and k: "k \<in> set (skeys (enabled (storage c)))"
  shows "\<exists>c' tc. corpus_remove c k = Some (c', Inr tc) \<and> corpus_get c k = Inr tc \<and> wf_corpus c' \<and>
    skeys (enabled (storage c')) = remove1 k (skeys (enabled (storage c))) \<and>
    progressive_id (storage c') = progressive_id (storage c)"
proof -
  obtain m' tc where m: "map_remove (enabled (storage c)) k = Some (m', Some tc)" "wf_map m'"
      "skeys m' = remove1 k (skeys (enabled (storage c)))" "map_get (enabled (storage c)) k = Some tc"
    using map_remove_ok [OF wf_corpus_maps(1) [OF wf] k] by blast
  then show ?thesis
    using wf set_remove1_subset [of k "skeys (enabled (storage c))"]
    by (simp add: corpus_remove_def corpus_get_def wf_storage_enabled_update)
qed

lemma corpus_remove_disabled:
  assumes wf: "wf_corpus c" and k: "k \<in> set (skeys (disabled_map (storage c)))"
  shows "\<exists>c' tc. corpus_remove c k = Some (c', Inr tc) \<and> corpus_get_from_all c k = Inr tc \<and>
    wf_corpus c' \<and> skeys (enabled (storage c')) = skeys (enabled (storage c)) \<and>
    progressive_id (storage c') = progressive_id (storage c)"
proof -
  have "k \<notin> set (skeys (enabled (storage c)))" using wf k by (auto simp: wf_storage_def)
  then have n: "map_get (enabled (storage c)) k = None"
    using map_get_None_iff wf_corpus_maps(1) [OF wf] by blast
  then have "map_remove (enabled (storage c)) k = Some (enabled (storage c), None)"
    by (simp add: map_remove_absent map_get_def)
  moreover obtain m' tc where m: "map_remove (disabled_map (storage c)) k = Some (m', Some tc)"
      "wf_map m'" "skeys m' = remove1 k (skeys (disabled_map (storage c)))"
      "map_get (disabled_map (storage c)) k = Some tc"
    using map_remove_ok [OF wf_corpus_maps(2) [OF wf] k] by blast
  ultimately show ?thesis
    using wf n set_remove1_subset [of k "skeys (disabled_map (storage c))"]
    by (simp add: corpus_remove_def corpus_get_from_all_def wf_storage_disabled_update)
qed

lemma corpus_remove_unknown:
  assumes wf: "wf_corpus c"
    and k: "k \<notin> set (skeys (enabled (storage c)))" "k \<notin> set (skeys (disabled_map (storage c)))"
  shows "corpus_remove c k = Some (c, Inl (KeyNotFound k))"
proof -
  have "Mapping.lookup (smap (enabled (storage c))) k = None"
    "Mapping.lookup (smap (disabled_map (storage c))) k = None"
    using k wf_corpus_maps [OF wf] by (simp_all add: keys_dom_lookup wf_map_def domIff)
      (metis domIff keys_dom_lookup)+
  then show ?thesis by (simp add: corpus_remove_def map_remove_absent)
qed

lemma corpus_remove_wf:
  assumes "wf_corpus c" "corpus_remove c k = Some (c', r)"
  shows "wf_corpus c'"
proof -
  consider "k \<in> set (skeys (enabled (storage c)))" | "k \<in> set (skeys (disabled_map (storage c)))"
    | "k \<notin> set (skeys (enabled (storage c)))" "k \<notin> set (skeys (disabled_map (storage c)))" by blast
  then show ?thesis
    using corpus_remove_enabled [OF assms(1)] corpus_remove_disabled [OF assms(1)]
      corpus_remove_unknown [OF assms(1)] assms by cases fastforce+
qed

section \<open>Iteration\<close>

lemma ids_from_links:
  "links (Mapping.lookup (smap m)) p ks None \<Longrightarrow> ids_from m (hd_opt ks None) = Some ks"
proof (induction ks arbitrary: p)
  case (Cons k ks)
  then have "map_next m k = hd_opt ks None" "ids_from m (hd_opt ks None) = Some ks"
    by (auto simp: map_next_def hd_opt_def split: option.splits)
  then show ?case by (simp add: ids_from.simps)
qed (simp add: ids_from.simps)

lemma ids_back_from_links:
  "links (Mapping.lookup (smap m)) None ks e \<Longrightarrow> ids_back_from m (last_opt ks None) = Some (rev ks)"
proof (induction ks arbitrary: e rule: rev_induct)
  case (snoc k ks)
  then have "map_prev m k = last_opt ks None" "ids_back_from m (last_opt ks None) = Some (rev ks)"
    by (auto simp: map_prev_def links_append split: option.splits)
  then show ?case by (simp add: ids_back_from.simps)
qed (simp add: ids_back_from.simps)

lemma ids_ok: "wf_corpus c \<Longrightarrow> ids c = Some (skeys (enabled (storage c)))"
  by (auto simp: ids_def corpus_first_def wf_storage_def wf_map_def intro: ids_from_links)

lemma ids_rev_ok: "wf_corpus c \<Longrightarrow> ids_rev c = Some (rev (skeys (enabled (storage c))))"
  by (auto simp: ids_rev_def corpus_last_def wf_storage_def wf_map_def intro: ids_back_from_links)

lemma count_ok: "wf_corpus c \<Longrightarrow> count c = length (skeys (enabled (storage c)))"
  by (simp add: count_def Mapping.size_def wf_storage_def wf_map_def sorted_distinct distinct_card)

lemma corpus_get_iff: "wf_corpus c \<Longrightarrow> is_Ok (corpus_get c k) \<longleftrightarrow> k \<in> set (skeys (enabled (storage c)))"
  using map_get_iff [OF wf_corpus_maps(1), of c k]
  by (auto simp: corpus_get_def is_Ok_def split: option.splits)

section \<open>The contract of the corpus\<close>

text \<open>
  The abstract corpus: the live and the disabled testcases as association lists in creation order and
  the next id. The operations of the contract are those that change the corpus.
\<close>

record 'a spec_corpus =
  sp_live :: "(corpus_id \<times> 'a) list"
  sp_disabled :: "(corpus_id \<times> 'a) list"
  sp_next :: nat

datatype 'a corpus_op = Add 'a | AddDisabled 'a | Remove corpus_id | Replace corpus_id 'a

text \<open>An addition returns the new id, a removal and a replacement the testcase that was there.\<close>

datatype 'a op_result = NewId corpus_id | Previous 'a

fun spec_op :: "'a corpus_op \<Rightarrow> 'a spec_corpus \<Rightarrow> 'a spec_corpus \<times> (corpus_error + 'a op_result)" where
  "spec_op (Add tc) s =
     (s\<lparr>sp_live := sp_live s @ [(sp_next s, tc)], sp_next := sp_next s + 1\<rparr>, Inr (NewId (sp_next s)))"
| "spec_op (AddDisabled tc) s =
     (s\<lparr>sp_disabled := sp_disabled s @ [(sp_next s, tc)], sp_next := sp_next s + 1\<rparr>, Inr (NewId (sp_next s)))"
| "spec_op (Remove k) s = (case map_of (sp_live s) k of
     Some tc \<Rightarrow> (s\<lparr>sp_live := filter (\<lambda>(j, _). j \<noteq> k) (sp_live s)\<rparr>, Inr (Previous tc))
   | None \<Rightarrow> (case map_of (sp_disabled s) k of
       Some tc \<Rightarrow> (s\<lparr>sp_disabled := filter (\<lambda>(j, _). j \<noteq> k) (sp_disabled s)\<rparr>, Inr (Previous tc))
     | None \<Rightarrow> (s, Inl (KeyNotFound k))))"
| "spec_op (Replace k tc) s = (case map_of (sp_live s) k of
     Some old \<Rightarrow> (s\<lparr>sp_live := map (\<lambda>(j, v). (j, if j = k then tc else v)) (sp_live s)\<rparr>, Inr (Previous old))
   | None \<Rightarrow> (s, Inl (KeyNotFound k)))"

text \<open>The same operations on the in-memory corpus; \<open>None\<close> is a panic.\<close>

fun apply_op :: "'a corpus_op \<Rightarrow> 'a corpus \<Rightarrow> ('a corpus \<times> (corpus_error + 'a op_result)) option" where
  "apply_op (Add tc) c = map_option (\<lambda>(c', k). (c', Inr (NewId k))) (corpus_add c tc)"
| "apply_op (AddDisabled tc) c = map_option (\<lambda>(c', k). (c', Inr (NewId k))) (corpus_add_disabled c tc)"
| "apply_op (Remove k) c = map_option (\<lambda>(c', r). (c', bindR r (\<lambda>old. Inr (Previous old)))) (corpus_remove c k)"
| "apply_op (Replace k tc) c = (case corpus_replace c k tc of (c', r) \<Rightarrow> Some (c', bindR r (\<lambda>old. Inr (Previous old))))"

definition abs_map :: "'a storage_map \<Rightarrow> (corpus_id \<times> 'a) list" where
  "abs_map m = map (\<lambda>k. (k, the (map_get m k))) (skeys m)"

definition abs_corpus :: "'a corpus \<Rightarrow> 'a spec_corpus" where
  "abs_corpus c = \<lparr>sp_live = abs_map (enabled (storage c)),
     sp_disabled = abs_map (disabled_map (storage c)), sp_next = progressive_id (storage c)\<rparr>"

text \<open>A client of a corpus issues a sequence of operations.\<close>

fun run_ops :: "('o \<Rightarrow> 'c \<Rightarrow> ('c \<times> 'r) option) \<Rightarrow> 'o list \<Rightarrow> 'c \<Rightarrow> ('c \<times> 'r list) option" where
  "run_ops step [] c = Some (c, [])"
| "run_ops step (x # xs) c = Option.bind (step x c) (\<lambda>(c', r).
     map_option (\<lambda>(c'', rs). (c'', r # rs)) (run_ops step xs c'))"

fun run_spec :: "('o \<Rightarrow> 's \<Rightarrow> 's \<times> 'r) \<Rightarrow> 'o list \<Rightarrow> 's \<Rightarrow> 's \<times> 'r list" where
  "run_spec step [] s = (s, [])"
| "run_spec step (x # xs) s =
     (let (s', r) = step x s; (s'', rs) = run_spec step xs s' in (s'', r # rs))"

text \<open>
  A refinement contract: an operation of the implementation never panics on a well-formed state,
  keeps it well-formed, and agrees in state and result with the abstract operation.
\<close>

locale refines =
  fixes inv :: "'c \<Rightarrow> bool" and abs :: "'c \<Rightarrow> 's"
    and impl :: "'o \<Rightarrow> 'c \<Rightarrow> ('c \<times> 'r) option" and spec :: "'o \<Rightarrow> 's \<Rightarrow> 's \<times> 'r"
  assumes step_ok: "inv c \<Longrightarrow> \<exists>c' r. impl x c = Some (c', r) \<and> inv c' \<and> spec x (abs c) = (abs c', r)"
begin

lemma run_ok:
  "inv c \<Longrightarrow> \<exists>c' rs. run_ops impl xs c = Some (c', rs) \<and> inv c' \<and> run_spec spec xs (abs c) = (abs c', rs)"
proof (induction xs arbitrary: c)
  case (Cons x xs)
  obtain c1 r where 1: "impl x c = Some (c1, r)" "inv c1" "spec x (abs c) = (abs c1, r)"
    using step_ok [OF Cons.prems] by blast
  obtain c2 rs where "run_ops impl xs c1 = Some (c2, rs)" "inv c2"
      "run_spec spec xs (abs c1) = (abs c2, rs)"
    using Cons.IH [OF 1(2)] by blast
  with 1 show ?case by simp
qed simp

end

lemma abs_map_cong:
  "skeys m' = skeys m @ [k] \<Longrightarrow> k \<notin> set (skeys m) \<Longrightarrow> map_get m' k = Some tc \<Longrightarrow>
    \<forall>j. j \<noteq> k \<longrightarrow> map_get m' j = map_get m j \<Longrightarrow> abs_map m' = abs_map m @ [(k, tc)]"
  by (auto simp: abs_map_def)

lemma abs_map_remove:
  assumes "skeys m' = remove1 k (skeys m)" "distinct (skeys m)"
    "\<forall>j. j \<noteq> k \<longrightarrow> map_get m' j = map_get m j"
  shows "abs_map m' = filter (\<lambda>(j, _). j \<noteq> k) (abs_map m)"
proof -
  have "skeys m' = filter (\<lambda>x. x \<noteq> k) (skeys m)"
    using assms(1,2) by (auto simp: distinct_remove1_removeAll removeAll_filter_not_eq intro: filter_cong)
  then show ?thesis using assms(3) by (simp add: abs_map_def filter_map o_def)
qed

lemma fst_abs_map [simp]: "fst ` set (abs_map m) = set (skeys m)"
  by (force simp: abs_map_def)

lemma skeys_facts:
  assumes "wf_corpus c"
  shows "distinct (skeys (enabled (storage c)))" "distinct (skeys (disabled_map (storage c)))"
    "progressive_id (storage c) \<notin> set (skeys (enabled (storage c)))"
    "progressive_id (storage c) \<notin> set (skeys (disabled_map (storage c)))"
  using assms by (auto simp: wf_storage_def wf_map_def intro: sorted_distinct)

lemma abs_map_eqI:
  "skeys m' = skeys m \<Longrightarrow> \<forall>j \<in> set (skeys m). map_get m' j = map_get m j \<Longrightarrow> abs_map m' = abs_map m"
  by (auto simp: abs_map_def)

lemma map_of_abs_map:
  "wf_map m \<Longrightarrow> map_of (abs_map m) k = map_get m k"
proof -
  assume wf: "wf_map m"
  have "map_of (abs_map m) k = (if k \<in> set (skeys m) then Some (the (map_get m k)) else None)"
    by (auto simp: abs_map_def map_of_map_restrict)
  then show ?thesis using map_get_None_iff [OF wf, of k] by (cases "map_get m k") simp_all
qed

lemma apply_add_ok:
  assumes "wf_corpus c"
  shows "\<exists>c' r. apply_op (Add tc) c = Some (c', r) \<and> wf_corpus c' \<and>
    spec_op (Add tc) (abs_corpus c) = (abs_corpus c', r)"
proof -
  obtain s' where s: "insert_inner (storage c) tc False = Some (s', progressive_id (storage c))"
      "wf_storage s'" "progressive_id s' = Suc (progressive_id (storage c))"
      "skeys (enabled s') = skeys (enabled (storage c)) @ [progressive_id (storage c)]"
      "skeys (disabled_map s') = skeys (disabled_map (storage c))"
      "map_get (enabled s') (progressive_id (storage c)) = Some tc"
      "\<forall>j. j \<noteq> progressive_id (storage c) \<longrightarrow> map_get (enabled s') j = map_get (enabled (storage c)) j \<and>
        map_get (disabled_map s') j = map_get (disabled_map (storage c)) j"
    using insert_inner_ok [OF assms, of tc False] by auto
  have "abs_map (enabled s') = abs_map (enabled (storage c)) @ [(progressive_id (storage c), tc)]"
    using s skeys_facts [OF assms] by (intro abs_map_cong) auto
  moreover have "abs_map (disabled_map s') = abs_map (disabled_map (storage c))"
    using s skeys_facts [OF assms] by (intro abs_map_eqI) metis+
  ultimately show ?thesis using s by (simp add: corpus_add_def abs_corpus_def)
qed

lemma apply_add_disabled_ok:
  assumes "wf_corpus c"
  shows "\<exists>c' r. apply_op (AddDisabled tc) c = Some (c', r) \<and> wf_corpus c' \<and>
    spec_op (AddDisabled tc) (abs_corpus c) = (abs_corpus c', r)"
proof -
  obtain s' where s: "insert_inner (storage c) tc True = Some (s', progressive_id (storage c))"
      "wf_storage s'" "progressive_id s' = Suc (progressive_id (storage c))"
      "skeys (enabled s') = skeys (enabled (storage c))"
      "skeys (disabled_map s') = skeys (disabled_map (storage c)) @ [progressive_id (storage c)]"
      "map_get (disabled_map s') (progressive_id (storage c)) = Some tc"
      "\<forall>j. j \<noteq> progressive_id (storage c) \<longrightarrow> map_get (enabled s') j = map_get (enabled (storage c)) j \<and>
        map_get (disabled_map s') j = map_get (disabled_map (storage c)) j"
    using insert_inner_ok [OF assms, of tc True] by auto
  have "abs_map (disabled_map s') =
      abs_map (disabled_map (storage c)) @ [(progressive_id (storage c), tc)]"
    using s skeys_facts [OF assms] by (intro abs_map_cong) auto
  moreover have "abs_map (enabled s') = abs_map (enabled (storage c))"
    using s skeys_facts [OF assms] by (intro abs_map_eqI) metis+
  ultimately show ?thesis using s by (simp add: corpus_add_disabled_def abs_corpus_def)
qed

lemma apply_remove_ok:
  assumes wf: "wf_corpus c"
  shows "\<exists>c' r. apply_op (Remove k) c = Some (c', r) \<and> wf_corpus c' \<and>
    spec_op (Remove k) (abs_corpus c) = (abs_corpus c', r)"
proof -
  let ?e = "enabled (storage c)" and ?d = "disabled_map (storage c)"
  have wfs: "wf_map ?e" "wf_map ?d" using wf by (simp_all add: wf_storage_def)
  note mo = map_of_abs_map [OF wfs(1), of k] map_of_abs_map [OF wfs(2), of k]
  consider (e) "k \<in> set (skeys ?e)" | (d) "k \<notin> set (skeys ?e)" "k \<in> set (skeys ?d)"
    | (n) "k \<notin> set (skeys ?e)" "k \<notin> set (skeys ?d)" by blast
  then show ?thesis
  proof cases
    case e
    obtain m tc where m: "map_remove ?e k = Some (m, Some tc)" "map_get ?e k = Some tc" "wf_map m"
        "skeys m = remove1 k (skeys ?e)" "\<forall>j. j \<noteq> k \<longrightarrow> map_get m j = map_get ?e j"
      using map_remove_ok [OF wfs(1) e] by blast
    then have "abs_map m = filter (\<lambda>(j, _). j \<noteq> k) (abs_map ?e)"
      using skeys_facts [OF wf] by (intro abs_map_remove)
    then show ?thesis using m mo wf set_remove1_subset [of k "skeys ?e"]
      by (simp add: corpus_remove_def abs_corpus_def wf_storage_enabled_update)
  next
    case d
    have "map_remove ?e k = Some (?e, None)"
      using map_get_None_iff [OF wfs(1), of k] d by (simp add: map_remove_absent map_get_def)
    moreover obtain m tc where m: "map_remove ?d k = Some (m, Some tc)" "map_get ?d k = Some tc" "wf_map m"
        "skeys m = remove1 k (skeys ?d)" "\<forall>j. j \<noteq> k \<longrightarrow> map_get m j = map_get ?d j"
      using map_remove_ok [OF wfs(2) d(2)] by blast
    moreover have "abs_map m = filter (\<lambda>(j, _). j \<noteq> k) (abs_map ?d)"
      using skeys_facts [OF wf] m by (intro abs_map_remove)
    moreover have "map_get ?e k = None" using map_get_None_iff [OF wfs(1), of k] d by simp
    ultimately show ?thesis using mo wf set_remove1_subset [of k "skeys ?d"]
      by (simp add: corpus_remove_def abs_corpus_def wf_storage_disabled_update)
  next
    case n
    then have "map_get ?e k = None" "map_get ?d k = None" using map_get_None_iff wfs by blast+
    then show ?thesis using corpus_remove_unknown [OF wf n] mo wf by (simp add: abs_corpus_def)
  qed
qed

lemma apply_replace_ok:
  assumes wf: "wf_corpus c"
  shows "\<exists>c' r. apply_op (Replace k tc) c = Some (c', r) \<and> wf_corpus c' \<and>
    spec_op (Replace k tc) (abs_corpus c) = (abs_corpus c', r)"
proof (cases "Mapping.lookup (smap (enabled (storage c))) k")
  case None
  then show ?thesis using wf map_of_abs_map [OF wf_corpus_maps(1) [OF wf], of k]
    by (simp add: corpus_replace_def map_replace_def abs_corpus_def map_get_def)
next
  case (Some it)
  let ?m = "(enabled (storage c))\<lparr>smap := Mapping.update k (it\<lparr>item_testcase := tc\<rparr>)
     (smap (enabled (storage c)))\<rparr>"
  have "abs_map ?m = map (\<lambda>(j, v). (j, if j = k then tc else v)) (abs_map (enabled (storage c)))"
    by (auto simp: abs_map_def map_get_def mapping_simps)
  moreover have "wf_storage ((storage c)\<lparr>enabled := ?m\<rparr>)"
    using map_update_item_ok [OF wf_corpus_maps(1) [OF wf] Some] wf
    by (intro wf_storage_enabled_update) auto
  ultimately show ?thesis using Some map_of_abs_map [OF wf_corpus_maps(1) [OF wf], of k]
    by (simp add: corpus_replace_def map_replace_def abs_corpus_def map_get_def)
qed

interpretation inmem: refines "\<lambda>c. wf_storage (storage c)" abs_corpus apply_op spec_op
proof
  fix c :: "'a corpus" and x
  assume "wf_corpus c"
  then show "\<exists>c' r. apply_op x c = Some (c', r) \<and> wf_corpus c' \<and> spec_op x (abs_corpus c) = (abs_corpus c', r)"
    by (cases x) (simp_all only: apply_add_ok apply_add_disabled_ok apply_remove_ok apply_replace_ok)
qed

lemma corpus_observe:
  assumes wf: "wf_corpus c"
  shows "ids c = Some (map fst (sp_live (abs_corpus c)))"
    "ids_rev c = Some (rev (map fst (sp_live (abs_corpus c))))"
    "count c = length (sp_live (abs_corpus c))"
    "corpus_get c k = (case map_of (sp_live (abs_corpus c)) k of Some tc \<Rightarrow> Inr tc | None \<Rightarrow> Inl (KeyNotFound k))"
    "peek_free_id (storage c) = sp_next (abs_corpus c)"
  using ids_ok [OF wf] ids_rev_ok [OF wf] count_ok [OF wf] map_of_abs_map [OF wf_corpus_maps(1) [OF wf]]
  by (auto simp: abs_corpus_def abs_map_def comp_def corpus_get_def peek_free_id_def)

text \<open>An in-place update changes one testcase and nothing else.\<close>

lemma update_testcase_Ok_iff: "is_Ok (update_testcase k f c) \<longleftrightarrow> is_Ok (corpus_get c k)"
  by (auto simp: update_testcase_def corpus_get_def map_get_def split: option.splits)

lemma update_testcase_get:
  assumes "update_testcase k f c = Inr c'"
  shows "corpus_get c' j = (if j = k then bindR (corpus_get c k) (\<lambda>tc. Inr (f tc)) else corpus_get c j)"
proof -
  obtain it where it: "Mapping.lookup (smap (enabled (storage c))) k = Some it"
      "c' = c\<lparr>storage := (storage c)\<lparr>enabled := (enabled (storage c))\<lparr>smap :=
        Mapping.update k (it\<lparr>item_testcase := f (item_testcase it)\<rparr>) (smap (enabled (storage c)))\<rparr>\<rparr>\<rparr>"
    using assms by (auto simp: update_testcase_def split: option.splits)
  then show ?thesis by (simp add: corpus_get_def map_get_def mapping_simps)
qed

lemma update_testcase_ids:
  assumes "wf_corpus c" "update_testcase k f c = Inr c'"
  shows "ids c' = ids c" "count c' = count c" "wf_corpus c'" "current c' = current c"
proof -
  show wf: "wf_corpus c'" using update_testcase_wf assms .
  have "skeys (enabled (storage c')) = skeys (enabled (storage c))"
    using assms(2) by (auto simp: update_testcase_def split: option.splits)
  then show "ids c' = ids c" "count c' = count c"
    using ids_ok [OF wf] ids_ok [OF assms(1)] count_ok [OF wf] count_ok [OF assms(1)] by simp_all
  show "current c' = current c" using assms(2) by (auto simp: update_testcase_def split: option.splits)
qed

section \<open>Properties\<close>

text \<open>C6. Whatever sequence of additions (enabled or disabled), removals and replacements a client issues
  on a fresh in-memory corpus, no operation panics, every result (the new id, the removed or replaced
  testcase, or the error) is the result of the abstract association-list corpus, and afterwards iteration in both directions, the count, every lookup and
  the announced next id are exactly those of the abstract corpus.\<close>

theorem corpus_refines_spec:
  fixes xs :: "'a corpus_op list"
  shows "\<exists>c rs s. run_ops apply_op xs corpus_new = Some (c, rs) \<and>
     run_spec spec_op xs \<lparr>sp_live = [], sp_disabled = [], sp_next = 0\<rparr> = (s, rs) \<and>
     ids c = Some (map fst (sp_live s)) \<and> ids_rev c = Some (rev (map fst (sp_live s))) \<and>
     count c = length (sp_live s) \<and> peek_free_id (storage c) = sp_next s \<and>
     (\<forall>k. corpus_get c k = (case map_of (sp_live s) k of Some tc \<Rightarrow> Inr tc | None \<Rightarrow> Inl (KeyNotFound k)))"
proof -
  have "abs_corpus (corpus_new :: 'a corpus) = \<lparr>sp_live = [], sp_disabled = [], sp_next = 0\<rparr>"
    by (simp add: abs_corpus_def corpus_new_def storage_new_def storage_map_new_def abs_map_def)
  then obtain c rs where "run_ops apply_op xs corpus_new = Some (c, rs)" "wf_corpus c"
      "run_spec spec_op xs \<lparr>sp_live = [], sp_disabled = [], sp_next = 0\<rparr> = (abs_corpus c, rs)"
    using inmem.run_ok [OF wf_corpus_new, of xs] by auto
  then show ?thesis using corpus_observe [of c] by blast
qed

text \<open>The well-formedness of the corpus (sorted key vector, doubly linked items agreeing with it,
  first and last id, ids below the progressive id, enabled and disabled ids disjoint) is kept by
  \<open>remove\<close> and by an in-place testcase update; removing an enabled id returns the testcase that
  \<open>get\<close> returned before, and afterwards \<open>get\<close> reports the id as not found.\<close>

theorem corpus_remove_correct:
  assumes "wf_corpus c" "k \<in> set (skeys (enabled (storage c)))"
  shows "\<exists>c' tc. corpus_remove c k = Some (c', Inr tc) \<and> wf_corpus c' \<and> corpus_get c k = Inr tc \<and>
     corpus_get c' k = Inl (KeyNotFound k) \<and> ids c' = Some (remove1 k (skeys (enabled (storage c)))) \<and>
     count c' = count c - 1 \<and> is_Ok (update_testcase k f c) \<and> update_testcase k f c' = Inl (KeyNotFound k)"
proof -
  obtain c' tc where c': "corpus_remove c k = Some (c', Inr tc)" "corpus_get c k = Inr tc"
      "wf_corpus c'" "skeys (enabled (storage c')) = remove1 k (skeys (enabled (storage c)))"
    using corpus_remove_enabled [OF assms] by blast
  have k: "k \<notin> set (skeys (enabled (storage c')))"
    using skeys_facts(1) [OF assms(1)] by (simp add: c')
  then have "Mapping.lookup (smap (enabled (storage c'))) k = None"
    using wf_map_lookup_iff [OF wf_corpus_maps(1) [OF c'(3)], of k] by simp
  then have "corpus_get c' k = Inl (KeyNotFound k)" "update_testcase k f c' = Inl (KeyNotFound k)"
    by (simp_all add: corpus_get_def map_get_def update_testcase_def)
  moreover have "is_Ok (update_testcase k f c)"
    using assms wf_map_lookup_iff [OF wf_corpus_maps(1) [OF assms(1)], of k]
    by (auto simp: update_testcase_def)
  ultimately show ?thesis
    using c' ids_ok [OF c'(3)] count_ok [OF c'(3)] count_ok [OF assms(1)] assms(2)
    by (simp add: length_remove1)
qed

definition corpus_example :: "nat corpus" where
  "corpus_example = (case run_ops apply_op [Add 10, AddDisabled 20, Add 30, Add 40] corpus_new of
     Some (c, _) \<Rightarrow> c | None \<Rightarrow> corpus_new)"

theorem corpus_remove_correct_witness:
  "wf_corpus corpus_example \<and> 2 \<in> set (skeys (enabled (storage corpus_example))) \<and>
   (\<exists>c' tc. corpus_remove corpus_example 2 = Some (c', Inr tc) \<and> ids c' = Some [0, 3])"
proof -
  have "wf_corpus corpus_example" by code_simp
  moreover have "skeys (enabled (storage corpus_example)) = [0, 2, 3]" by code_simp
  ultimately show ?thesis using corpus_remove_correct [of corpus_example 2 id] by auto
qed

end
