(* ===== verification/Rands.thy ===== *)
theory Rands
  imports Float64
begin

text \<open>
  The pseudo random generators of LibAFL (\<open>libafl_bolts/src/rands/mod.rs\<close>): the bounded draws of the
  \<open>Rand\<close> trait, as functions of the generator's \<open>next\<close>, and the generators themselves as state
  passing functions on 64 bit words. \<open>StdRand\<close>, the generator of the fuzzer state, is
  \<open>RomuDuoJrRand\<close>. Shown: bounded draws stay in their bounds for every generator, the float draw is
  exact and lies in the half open unit interval, and the xorshift state never becomes zero.
\<close>

unbundle bit_operations_syntax

section \<open>Bounded draws\<close>

type_synonym u128 = "128 word"

definition splitmix64 :: "u64 \<Rightarrow> u64 \<times> u64" where
  "splitmix64 x0 =
     (let x = x0 + 0x9e3779b97f4a7c15;
          z = (x XOR drop_bit 30 x) * 0xbf58476d1ce4e5b9;
          z = (z XOR drop_bit 27 z) * 0x94d049bb133111eb
      in (z XOR drop_bit 31 z, x))"

definition fast_bound :: "u64 \<Rightarrow> nat \<Rightarrow> nat" where
  "fast_bound rand n = unat (drop_bit 64 ((ucast rand :: u128) * (ucast (of_nat n :: u64) :: u128)))"

definition fast_bound_usize :: "u64 \<Rightarrow> nat \<Rightarrow> nat" where
  "fast_bound_usize rand n = unat (drop_bit 64 ((ucast rand :: u128) * (ucast (of_nat n :: u64) :: u128)))"

definition choose_item :: "'a list \<Rightarrow> u64 \<Rightarrow> 'a option" where
  "choose_item xs rand = (if length xs = 0 then None else get_opt xs (fast_bound rand (length xs)))"

definition next_float :: "('r \<Rightarrow> u64 \<times> 'r) \<Rightarrow> 'r \<Rightarrow> f64 \<times> 'r" where
  "next_float nxt r = (let (x, r') = nxt r; u = x AND (push_bit 53 1 - 1) in
     (fmul (f_of_u64 u) (fdiv (Fin 1) (f_of_u64 (push_bit 53 1))), r'))"

definition coinflip :: "('r \<Rightarrow> u64 \<times> 'r) \<Rightarrow> 'r \<Rightarrow> f64 \<Rightarrow> bool \<times> 'r" where
  "coinflip nxt r p = (let (x, r') = next_float nxt r in (flt x p, r'))"

definition below :: "('r \<Rightarrow> u64 \<times> 'r) \<Rightarrow> 'r \<Rightarrow> nat \<Rightarrow> nat \<times> 'r" where
  "below nxt r n = (let (x, r') = nxt r in (fast_bound x n, r'))"

definition zero_upto :: "('r \<Rightarrow> u64 \<times> 'r) \<Rightarrow> 'r \<Rightarrow> nat \<Rightarrow> nat \<times> 'r" where
  "zero_upto nxt r n = (let (x, r') = nxt r in (fast_bound_usize x n, r'))"

definition between :: "('r \<Rightarrow> u64 \<times> 'r) \<Rightarrow> 'r \<Rightarrow> nat \<Rightarrow> nat \<Rightarrow> nat \<times> 'r" where
  "between nxt r lo hi = (let (x, r') = below nxt r (hi - lo + 1) in (lo + x, r'))"

text \<open>The \<open>choose\<close> method of the trait on an iterator of known length.\<close>

definition rand_choose :: "('r \<Rightarrow> u64 \<times> 'r) \<Rightarrow> 'r \<Rightarrow> 'a list \<Rightarrow> 'a option \<times> 'r" where
  "rand_choose nxt r xs = (if length xs = 0 then (None, r)
     else let (i, r') = below nxt r (length xs) in (get_opt xs i, r'))"

section \<open>Generators\<close>

record xoshiro = xs0 :: u64  xs1 :: u64  xs2 :: u64  xs3 :: u64

definition xoshiro_with_seed :: "u64 \<Rightarrow> xoshiro" where
  "xoshiro_with_seed seed =
     (let (a, s1) = splitmix64 seed; (b, s2) = splitmix64 s1; (c, s3) = splitmix64 s2; (d, _) = splitmix64 s3
      in \<lparr>xs0 = a, xs1 = b, xs2 = c, xs3 = d\<rparr>)"

definition xoshiro_next :: "xoshiro \<Rightarrow> u64 \<times> xoshiro" where
  "xoshiro_next r =
     (let ret = word_rotl 23 (xs0 r + xs3 r) + xs0 r;
          t = push_bit 17 (xs1 r);
          s2 = xs2 r XOR xs0 r; s3 = xs3 r XOR xs1 r;
          s1 = xs1 r XOR s2; s0 = xs0 r XOR s3
      in (ret, \<lparr>xs0 = s0, xs1 = s1, xs2 = s2 XOR t, xs3 = word_rotl 45 s3\<rparr>))"

definition xorshift_with_seed :: "u64 \<Rightarrow> u64" where
  "xorshift_with_seed seed = fst (splitmix64 seed) OR 1"

definition xorshift_next :: "u64 \<Rightarrow> u64 \<times> u64" where
  "xorshift_next s =
     (let x = s XOR push_bit 13 s; x = x XOR drop_bit 7 x; x = x XOR push_bit 17 x in (x, x))"

record romu_trio = rt_x :: u64  rt_y :: u64  rt_z :: u64

definition romu_trio_with_seed :: "u64 \<Rightarrow> romu_trio" where
  "romu_trio_with_seed seed =
     (let (x, s1) = splitmix64 seed; (y, s2) = splitmix64 s1; (z, _) = splitmix64 s2
      in \<lparr>rt_x = x, rt_y = y, rt_z = z\<rparr>)"

definition romu_trio_next :: "romu_trio \<Rightarrow> u64 \<times> romu_trio" where
  "romu_trio_next r = (rt_x r, \<lparr>rt_x = 15241094284759029579 * rt_z r,
     rt_y = word_rotl 12 (rt_y r - rt_x r), rt_z = word_rotl 44 (rt_z r - rt_y r)\<rparr>)"

record std_rand = x_state :: u64  y_state :: u64

definition std_rand_with_seed :: "u64 \<Rightarrow> std_rand" where
  "std_rand_with_seed seed =
     (let (x, s1) = splitmix64 seed; (y, _) = splitmix64 s1 in \<lparr>x_state = x, y_state = y\<rparr>)"

definition std_rand_next :: "std_rand \<Rightarrow> u64 \<times> std_rand" where
  "std_rand_next r = (x_state r, \<lparr>x_state = 15241094284759029579 * y_state r,
     y_state = word_rotl 27 (y_state r - x_state r)\<rparr>)"

record sfc64 = sfc_a :: u64  sfc_b :: u64  sfc_c :: u64  sfc_w :: u64

definition sfc64_next :: "sfc64 \<Rightarrow> u64 \<times> sfc64" where
  "sfc64_next r = (let out = sfc_a r + sfc_b r + sfc_w r in
     (out, \<lparr>sfc_a = sfc_b r XOR drop_bit 11 (sfc_b r), sfc_b = sfc_c r + push_bit 3 (sfc_c r),
            sfc_c = word_rotl 24 (sfc_c r) + out, sfc_w = sfc_w r + 1\<rparr>))"

definition sfc64_with_seed :: "u64 \<Rightarrow> sfc64" where
  "sfc64_with_seed seed = ((\<lambda>r. snd (sfc64_next r)) ^^ 12)
     \<lparr>sfc_a = seed, sfc_b = seed, sfc_c = seed, sfc_w = 1\<rparr>"

section \<open>Bounds\<close>

lemma fast_bound_eq: "n < 2 ^ 64 \<Longrightarrow> fast_bound x n = unat x * n div 2 ^ 64"
proof -
  assume n: "n < 2 ^ 64"
  have "unat x < 2 ^ 64" using unsigned_less [of x] by simp
  then have "unat x * n < 2 ^ 64 * 2 ^ 64" using n by (intro mult_strict_mono) auto
  then have p: "unat x * n < 2 ^ 128" by simp
  have "unat (of_nat n :: u64) = n" using n by (simp add: unat_of_nat take_bit_nat_eq_self)
  moreover have "unat x < 2 ^ 128" "n < 2 ^ 128" using n \<open>unat x < 2 ^ 64\<close> by simp_all
  ultimately have "unat ((ucast x :: u128) * (ucast (of_nat n :: u64) :: u128)) = unat x * n"
    using p by (simp add: unat_word_ariths unsigned_ucast_eq take_bit_nat_eq_self)
  then show ?thesis
    using p by (simp only: fast_bound_def unsigned_drop_bit_eq) (simp add: drop_bit_eq_div take_bit_nat_eq_self)
qed

lemma fast_bound_less: "0 < n \<Longrightarrow> n < 2 ^ 64 \<Longrightarrow> fast_bound x n < n"
proof -
  assume n: "0 < n" "n < 2 ^ 64"
  have "unat x < 2 ^ 64" using unsigned_less [of x] by simp
  then have "unat x * n < n * 2 ^ 64" using n by simp
  then show ?thesis using n by (simp add: fast_bound_eq div_less_iff_less_mult)
qed

lemma below_less: "0 < n \<Longrightarrow> n < 2 ^ 64 \<Longrightarrow> below nxt r n = (i, r') \<Longrightarrow> i < n"
  by (auto simp: below_def fast_bound_less split: prod.splits)

lemma below_pair: "below nxt r n = (fast_bound (fst (nxt r)) n, snd (nxt r))"
  by (simp add: below_def split: prod.splits)

text \<open>The float draw is exact: the low 53 bits divided by \<open>2 ^ 53\<close>.\<close>

lemma unat_low_bits: "unat ((x :: u64) AND (push_bit 53 1 - 1)) = unat x mod 2 ^ 53"
proof -
  have "push_bit 53 1 - 1 = (mask 53 :: u64)" by (simp add: mask_eq_exp_minus_1 push_bit_eq_mult)
  then have "x AND (push_bit 53 1 - 1) = take_bit 53 x" by (simp add: take_bit_eq_mask)
  then show ?thesis by (simp only: unsigned_take_bit_eq) (simp only: take_bit_eq_mod)
qed

lemma f_of_nat_small: "n < 2 ^ 53 \<Longrightarrow> f_of_nat n = Fin (of_nat n)"
proof -
  assume n: "n < 2 ^ 53"
  have "(of_nat n :: rat) = of_int (int n)" by simp
  moreover have "repr (of_int (int n))" using n by (intro repr_of_int) simp
  ultimately have "rnd (of_nat n) = of_nat n" by (simp only: rnd_repr_fix)
  moreover have "(of_nat n :: rat) \<le> maxf"
  proof -
    have "(of_nat n :: rat) \<le> of_nat (2 ^ 53)" using n by (simp only: of_nat_le_iff less_imp_le)
    also have "\<dots> = 2 ^ 53" by simp
    also have "(2 :: rat) ^ 53 \<le> maxf" by code_simp
    finally show ?thesis .
  qed
  ultimately show ?thesis by (cases "n = 0") (auto simp: f_of_nat_def mk64_def)
qed

lemma mk64_fix: "rnd q = q \<Longrightarrow> 0 \<le> q \<Longrightarrow> q \<le> maxf \<Longrightarrow> mk64 False q = Fin q"
  by (auto simp: mk64_def)

lemma max_div: "fdiv (Fin 1) (f_of_u64 (push_bit 53 1)) = Fin (1 / 2 ^ 53)"
proof -
  have "repr (2 ^ 53)" using repr_pow2 [of 53] by (simp add: pow2_def)
  moreover have "(2 :: rat) ^ 53 \<le> maxf" by code_simp
  ultimately have "mk64 False (2 ^ 53) = Fin (2 ^ 53)"
    by (intro mk64_fix rnd_repr_fix) simp_all
  then have "f_of_u64 (push_bit 53 1) = Fin (2 ^ 53)" by (simp add: f_of_u64_def f_of_nat_def)
  moreover have "fdiv (Fin 1) (Fin (2 ^ 53)) = Fin (1 / 2 ^ 53)" by code_simp
  ultimately show ?thesis by (simp only:)
qed

lemma repr_unit_grid: "n < 2 ^ 53 \<Longrightarrow> repr (of_nat n / 2 ^ 53)"
proof -
  assume n: "n < 2 ^ 53"
  have "pow2 (- 53) = 1 / 2 ^ 53" by code_simp
  then have "of_nat n / 2 ^ 53 = of_int (int n) * pow2 (- 53)" by (simp only:) simp
  then show ?thesis unfolding repr_def
    by (intro exI [of _ "int n"] exI [of _ "- 53"]) (use n in simp)
qed

lemma next_float_exact:
  "fst (next_float nxt r) = Fin (of_nat (unat (fst (nxt r)) mod 2 ^ 53) / 2 ^ 53)"
proof -
  let ?n = "unat (fst (nxt r)) mod 2 ^ 53"
  have n: "?n < 2 ^ 53" by simp
  have "f_of_u64 (fst (nxt r) AND (push_bit 53 1 - 1)) = Fin (of_nat ?n)"
    by (simp only: f_of_u64_def unat_low_bits f_of_nat_small [OF n])
  moreover have "fmul (Fin (of_nat ?n)) (Fin (1 / 2 ^ 53)) = Fin (of_nat ?n / 2 ^ 53)"
  proof -
    have "rnd (of_nat ?n / 2 ^ 53) = of_nat ?n / 2 ^ 53" using repr_unit_grid [OF n] by (rule rnd_repr_fix)
    moreover have "(of_nat ?n :: rat) / 2 ^ 53 \<le> maxf"
    proof -
      have "(of_nat ?n :: rat) \<le> of_nat (2 ^ 53)" using n by (simp only: of_nat_le_iff less_imp_le)
      then have "(of_nat ?n :: rat) / 2 ^ 53 \<le> 1" by simp
      also have "1 \<le> maxf" by code_simp
      finally show ?thesis .
    qed
    ultimately have "mk64 False (of_nat ?n / 2 ^ 53) = Fin (of_nat ?n / 2 ^ 53)"
      by (intro mk64_fix) simp_all
    then show ?thesis by (simp add: fmul_def is_neg_def)
  qed
  ultimately show ?thesis by (simp only: next_float_def max_div Let_def case_prod_beta fst_conv)
qed

lemma next_float_unit:
  "fle (Fin 0) (fst (next_float nxt r))" "flt (fst (next_float nxt r)) (Fin 1)"
proof -
  let ?n = "unat (fst (nxt r)) mod 2 ^ 53"
  have "(of_nat ?n :: rat) < of_nat (2 ^ 53)" by (simp only: of_nat_less_iff) simp
  then show "flt (fst (next_float nxt r)) (Fin 1)" by (simp only: next_float_exact) (simp add: flt_def)
  show "fle (Fin 0) (fst (next_float nxt r))" by (simp only: next_float_exact) (simp add: fle_def)
qed

lemma next_float_snd: "snd (next_float nxt r) = snd (nxt r)"
  by (simp add: next_float_def Let_def split: prod.splits)

lemma rand_choose_mem:
  "xs \<noteq> [] \<Longrightarrow> length xs < 2 ^ 64 \<Longrightarrow> \<exists>x \<in> set xs. fst (rand_choose nxt r xs) = Some x"
  using fast_bound_less [of "length xs" "fst (nxt r)"]
  by (auto simp: rand_choose_def below_def get_opt_def split: prod.splits)

text \<open>Xorshift steps are injective, so the state stays non-zero.\<close>

lemma xor_zero_eq: "x XOR y = 0 \<Longrightarrow> x = (y :: u64)"
proof -
  assume "x XOR y = 0"
  moreover have "(x XOR y) XOR y = x" by (simp only: xor.assoc xor_self_eq xor.right_neutral)
  ultimately show ?thesis by simp
qed

lemma xor_push_bit_zero: "0 < k \<Longrightarrow> x XOR push_bit k x = 0 \<Longrightarrow> (x :: u64) = 0"
proof (rule bit_eqI, goal_cases)
  case (1 n)
  then have eq: "x = push_bit k x" using xor_zero_eq by blast
  have "\<not> bit x m" for m
  proof (induction m rule: less_induct)
    case (less m)
    show ?case
      by (subst eq) (use less 1 in \<open>auto simp: bit_push_bit_iff\<close>)
  qed
  then show ?case by simp
qed

lemma xor_drop_bit_zero: "0 < k \<Longrightarrow> x XOR drop_bit k x = 0 \<Longrightarrow> (x :: u64) = 0"
proof (rule bit_eqI, goal_cases)
  case (1 n)
  then have eq: "x = drop_bit k x" using xor_zero_eq by blast
  have "m \<le> 64 \<Longrightarrow> \<not> bit x (64 - m)" for m
  proof (induction m rule: less_induct)
    case (less m)
    have "\<not> bit x (64 - m + k)"
    proof (cases "m < k")
      case True
      then have "64 \<le> 64 - m + k" using less.prems by simp
      then show ?thesis using bit_imp_le_length by fastforce
    next
      case False
      then have "64 - m + k = 64 - (m - k)" using less.prems by simp
      then show ?thesis using less.IH [of "m - k"] less.prems False 1 by simp
    qed
    then show ?case by (subst eq) (simp add: bit_drop_bit_eq add.commute)
  qed
  from this [of "64 - n"] 1 show ?case by simp
qed

lemma xorshift_next_nonzero:
  assumes "s \<noteq> 0"
  shows "snd (xorshift_next s) \<noteq> 0"
proof -
  define x1 where "x1 = s XOR push_bit 13 s"
  define x2 where "x2 = x1 XOR drop_bit 7 x1"
  have "x1 \<noteq> 0" using xor_push_bit_zero [of 13 s] assms unfolding x1_def by linarith
  then have "x2 \<noteq> 0" using xor_drop_bit_zero [of 7 x1] unfolding x2_def by linarith
  then have "x2 XOR push_bit 17 x2 \<noteq> 0" using xor_push_bit_zero [of 17 x2] by linarith
  then show ?thesis by (simp only: xorshift_next_def Let_def snd_conv x1_def x2_def not_False_eq_True)
qed

section \<open>Properties\<close>

text \<open>For every generator, the float draw lies in the half open unit interval, and a draw below a
  bound (an index draw, a ranged draw, the choice from a non-empty list) stays inside it: an index
  drawn below a length never leaves the list.\<close>

theorem rand_draws_in_bounds:
  assumes "0 < n" "n < 2 ^ 64" "lo \<le> hi" "hi < 2 ^ 64 - 1" "xs \<noteq> []" "length xs < 2 ^ 64"
  shows "fle (Fin 0) (fst (next_float nxt r)) \<and> flt (fst (next_float nxt r)) (Fin 1) \<and>
    fst (below nxt r n) < n \<and> lo \<le> fst (between nxt r lo hi) \<and> fst (between nxt r lo hi) \<le> hi \<and>
    (\<exists>x \<in> set xs. fst (rand_choose nxt r xs) = Some x)"
proof -
  have "fst (below nxt r (hi - lo + 1)) < hi - lo + 1" "fst (below nxt r n) < n"
    using assms by (simp_all add: below_pair fast_bound_less)
  then show ?thesis
    using assms next_float_unit [of nxt r] rand_choose_mem [of xs nxt r]
    by (auto simp: between_def split: prod.splits)
qed

theorem rand_draws_in_bounds_witness:
  "fst (below std_rand_next (std_rand_with_seed 1337) 9) < 9 \<and>
   3 \<le> fst (between std_rand_next (std_rand_with_seed 1337) 3 9)"
  using rand_draws_in_bounds [of 9 3 9 "[True]" std_rand_next "std_rand_with_seed 1337"] by simp

text \<open>\<open>zero_upto\<close> never returns its bound: the documented closed interval \<open>[0, n]\<close> is the half open
  one, and \<open>n\<close> itself is unreachable for every generator and every positive \<open>n\<close>.\<close>

theorem zero_upto_excludes_bound:
  assumes "0 < n" "n < 2 ^ 64"
  shows "fst (zero_upto nxt r n) < n"
  using fast_bound_less [OF assms, of "fst (nxt r)"]
  by (simp only: zero_upto_def fast_bound_usize_def fast_bound_def case_prod_beta Let_def fst_conv)

theorem zero_upto_excludes_bound_witness: "fst (zero_upto std_rand_next (std_rand_with_seed 7) 5) < 5"
  using zero_upto_excludes_bound [of 5] by simp

text \<open>The xorshift generator never reaches the absorbing zero state: seeding gives a non-zero state
  and every number of draws keeps it non-zero.\<close>

theorem xorshift_never_zero:
  "((\<lambda>s. snd (xorshift_next s)) ^^ k) (xorshift_with_seed seed) \<noteq> 0"
proof (induction k)
  case 0
  have "bit (xorshift_with_seed seed) 0" by (simp add: xorshift_with_seed_def bit_or_iff)
  then show ?case by auto
next
  case (Suc k)
  then show ?case by (simp add: xorshift_next_nonzero)
qed

end
