(* ===== verification/Metadata.thy ===== *)
theory Metadata
  imports Float64 Corpus Rands
begin

text \<open>
  The metadata of the fuzzer state and of testcases: the structs of \<open>feature_sched/metadata.rs\<close>,
  \<open>stats.rs\<close> and \<open>factor.rs\<close>, the scheduler metadata of LibAFL (\<open>powersched.rs\<close>, \<open>weighted.rs\<close>,
  \<open>testcase_score.rs\<close>, \<open>minimizer.rs\<close>, \<open>testcase.rs\<close>), and the state as one record. A type-keyed
  metadata map (\<open>SerdeAnyMap\<close>) is a record with one optional field for every metadata type that the
  modelled code stores in it; \<open>add_metadata\<close> sets the field, \<open>get\<close> reads it and
  \<open>get_or_insert_with\<close> fills in the default. Error values have one constructor for every message of
  the source, with its arguments, and \<open>Panic\<close> for a panic (a failed assertion or \<open>unwrap\<close>, an index
  out of range, a clamp with swapped bounds).
\<close>

section \<open>Errors\<close>

datatype mask_msg =
    AlterCommittedMask | CommittedLength nat nat | CommittedAllZero
  | NonBinary | NonBinaryChar char | MaskLength nat nat | MaskAllZero
  | CreditsLength nat nat | TopKRange nat nat | CreditNonFinite nat | CreditNegative nat
  | ProjectLength nat nat | NormNonFinite nat | NormNegative nat | CliTopKRange nat

datatype schema_msg =
    SchemaMissing | SchemaUnreadable | SchemaBadJson | SchemaVersion u64 | SchemaEmpty
  | DuplicateId string | DuplicateName string | AliasCollision string string

datatype map_msg =
    MapOpen | MapRead | MapBadJson | MapLegacyFormat | MapLegacyKey string | MapUnknownKey string
  | MapMissing string string | MapNonNumeric string string nat | MapNotArray string string
  | MapNonFinite string string nat | MapNegative string string nat | MapExceeds string string nat
  | MapLength string string nat nat | MapSites nat nat

datatype vector_msg =
    NonFiniteWeight | NegativeWeight | ZeroDenominator | NonFiniteAt nat | NegativeAt nat
  | WeightLength nat nat | CenterLength nat nat
  | CandOpen | CandRead | CandBadJson | CandEmpty | CandFormat nat nat nat
  | CandNonFinite nat nat | CandNegative nat nat | CandInvalid vector_msg

datatype resume_msg =
    ResumeCurrentV nat nat | ResumeCandidate nat nat nat | ResumeTrial nat nat nat | ResumeInitV nat nat
  | ResumeNoRuntimeMeta | ResumeMode | ResumeFullMask | ResumeNoCliMask | ResumeExplicitMask
  | ResumeTopK | ResumePendingNotFull | ExplicitConfigMissing

datatype stage_msg =
    MatrixMissing | CreditDimension string nat nat | FullModeDim nat nat | MissingExplicitMask
  | WorkerDisconnected | NoMatrixForRecompute | NoInitialCandidate | InitNotCommitted
  | ObserverMissing | ColumnMissing

datatype acfg_msg =
    AcfgOpen | AcfgRead | AcfgBadJson | AcfgKind | AcfgSites nat nat | AcfgSuccLength | AcfgPredLength
  | AcfgNode string nat nat | AcfgNoPath

datatype message =
    MaskMsg mask_msg | SchemaMsg schema_msg | MapMsg map_msg | VectorMsg vector_msg
  | ResumeMsg resume_msg | StageMsg stage_msg | AcfgMsg acfg_msg | NoMetadata string | Text string

datatype error =
    IllegalState message | IllegalArgument message | Unknown message | KeyNotFoundE message
  | Empty message | CorpusE corpus_error | InvalidCorpus message | ShuttingDown | Panic

section \<open>Feature scheduling metadata\<close>

type_synonym bitset = "bool list"

record weight_stats =
  ws_n :: u64
  ws_mu :: f64
  ws_m2 :: f64

definition weight_stats_default :: weight_stats where
  "weight_stats_default = \<lparr>ws_n = 0, ws_mu = Fin 0, ws_m2 = Fin 0\<rparr>"

record factor_params =
  fp_alpha :: f64
  fp_beta :: f64
  fp_gmin :: f64
  fp_gmax :: f64
  fp_use_tanh :: bool

definition factor_params_default :: factor_params where
  "factor_params_default = \<lparr>fp_alpha = f_lit 0.85, fp_beta = f_lit 0.6, fp_gmin = f_lit 0.5,
     fp_gmax = f_lit 2, fp_use_tanh = False\<rparr>"

record features_matrix =
  fm_matrix :: "(string, f64 list) mapping"
  fm_sites :: nat

record sancov_acfg =
  ac_iteration :: u64
  n_sancov_sites :: nat
  successors :: "nat list list"
  predecessors :: "nat list list"

datatype weight_compute_mode = Frontier | Path

record tc_feature_weight =
  fw_iteration :: u64
  fw_weight :: f64
  fw_mode :: weight_compute_mode

record frontier_meta =
  fr_iteration :: u64
  covered :: bitset
  f_prev :: bitset
  f_next :: bitset

definition frontier_default :: frontier_meta where
  "frontier_default = \<lparr>fr_iteration = 0, covered = [], f_prev = [], f_next = []\<rparr>"

record coverage_delta =
  cd_iteration :: u64
  cd_delta_edges :: u64
  newly_covered_sancov :: "nat list"

record credit_meta =
  cr_iteration :: u64
  cr_credits :: "f64 list"
  total_delta_edges :: u64

definition credit_default :: credit_meta where
  "credit_default = \<lparr>cr_iteration = 0, cr_credits = [], total_delta_edges = 0\<rparr>"

datatype vec_mask_mode = Full | Explicit | AutoCredit

datatype tpe_init_source = ExternalCandidateFile | ExploreCreditsExactFirst | EqualSimplexFallback

datatype tpe_phase = Explore | PendingRecompute | ActiveWindow | LockedBest

record explore_credit_entry =
  ee_iteration :: u64
  ee_corpus_id :: "corpus_id option"
  ee_delta_edges :: u64
  ee_frontier_nodes :: "nat list"
  ee_credit_delta :: "f64 list"
  ee_cumulative :: "f64 list"

record runtime_credit_entry =
  re_iteration :: u64
  re_phase :: tpe_phase
  re_corpus_id :: "corpus_id option"
  re_delta_edges :: u64
  re_frontier_nodes :: "nat list"
  re_credit_delta :: "f64 list"
  re_cumulative :: "f64 list"

text \<open>File paths are lists of components, as \<open>Path::components\<close> yields them.\<close>

datatype path_component = RootDir | CurDir | ParentDir | Normal string

type_synonym path = "path_component list"

record vec_mask_runtime =
  vm_mode :: vec_mask_mode
  credit_top_k :: nat
  requested_explicit_mask :: "bool list option"
  mask_committed :: bool
  tpe_init_committed :: bool
  effective_mask :: "bool list"
  selected_feature_names :: "string list"
  selected_schema_indices :: "nat list"
  candidate_file_path :: "string option"
  candidate_file_loaded :: bool
  vm_init_source :: "tpe_init_source option"
  explore_credits_full :: "f64 list"
  explore_credits_active :: "f64 list"
  normalized_credit_init_v :: "f64 list"
  positive_credit_count :: nat
  positive_credit_sum :: f64
  fallback_reason :: "string option"

definition vec_mask_runtime_default :: vec_mask_runtime where
  "vec_mask_runtime_default = \<lparr>vm_mode = Full, credit_top_k = 8, requested_explicit_mask = None,
     mask_committed = False, tpe_init_committed = False, effective_mask = [],
     selected_feature_names = [], selected_schema_indices = [], candidate_file_path = None,
     candidate_file_loaded = False, vm_init_source = None, explore_credits_full = [],
     explore_credits_active = [], normalized_credit_init_v = [], positive_credit_count = 0,
     positive_credit_sum = Fin 0, fallback_reason = None\<rparr>"

record feature_vector =
  fv_iteration :: u64
  simplex_weights :: "f64 list"

record tpe_iteration =
  current_iteration :: u64
  active_iteration :: "u64 option"
  pending_iteration :: "u64 option"
  ti_phase :: tpe_phase
  active_start_ms :: "u64 option"
  active_start_edges :: "u64 option"
  last_new_edges_ms :: "u64 option"

definition tpe_iteration_default :: tpe_iteration where
  "tpe_iteration_default = \<lparr>current_iteration = 0, active_iteration = None, pending_iteration = None,
     ti_phase = Explore, active_start_ms = None, active_start_edges = None, last_new_edges_ms = None\<rparr>"

record feature_spec =
  fs_id :: string
  fs_name :: string
  fs_group :: "string option"
  fs_aliases :: "string list option"

record feature_schema_file =
  fsf_version :: u64
  fsf_features :: "feature_spec list"

record feature_globals =
  features_active :: bool
  feat_exists :: bool
  tpe_satisfied :: bool
  feat_val0 :: f64
  explore_time_secs :: u64
  tpe_period_secs :: u64
  alpha_init :: f64
  g_factor_params :: factor_params
  current_v :: "f64 list"
  v_candidates :: "f64 list list"
  fuzz_start_epoch_ms :: u64
  schema_version :: u64
  schema_features :: "feature_spec list"
  vec_mask :: "bool list"
  active_features :: "feature_spec list"
  active_feature_names :: "string list"
  feature_dim :: nat

definition feature_globals_default :: feature_globals where
  "feature_globals_default = \<lparr>features_active = False, feat_exists = False, tpe_satisfied = False,
     feat_val0 = Fin 0, explore_time_secs = 43200, tpe_period_secs = 600, alpha_init = f_lit 0.85,
     g_factor_params = factor_params_default, current_v = [], v_candidates = [],
     fuzz_start_epoch_ms = 0, schema_version = 0, schema_features = [], vec_mask = [],
     active_features = [], active_feature_names = [], feature_dim = 0\<rparr>"

record tpe_history =
  h_trials :: "(f64 list \<times> f64 \<times> u64) list"
  h_last_vec :: "f64 list"
  last_check_ms :: "u64 option"
  last_corpus :: "nat option"
  last_cov :: "nat option"
  h_max_trials :: nat

definition tpe_history_default :: tpe_history where
  "tpe_history_default = \<lparr>h_trials = [], h_last_vec = [], last_check_ms = None, last_corpus = None,
     last_cov = None, h_max_trials = 0\<rparr>"

record runtime_export =
  output_path :: string
  last_export_ms :: u64

section \<open>Scheduler metadata\<close>

datatype base_schedule = EXPLORE | EXPLOIT | FAST | COE | LIN | QUAD

record power_schedule =
  ps_base :: base_schedule
  avoid_crash :: bool

text \<open>Durations are numbers of nanoseconds.\<close>

type_synonym duration = nat

record scheduler_metadata =
  sm_strat :: "power_schedule option"
  sm_exec_time :: duration
  sm_cycles :: u64
  sm_bitmap_size :: u64
  bitmap_size_log :: f64
  bitmap_entries :: u64
  sm_queue_cycles :: u64
  n_fuzz :: "u32 list"

record weighted_schedule_metadata =
  runs_in_current_cycle :: nat
  alias_table :: "(corpus_id, corpus_id) mapping"
  alias_probability :: "(corpus_id, f64) mapping"

record alias_dirty =
  ad_iteration :: u64
  ad_dirty :: bool

record sched_testcase_metadata =
  st_bitmap_size :: u64
  handicap :: u64
  depth :: u64
  n_fuzz_entry :: nat
  cycle_and_time :: "duration \<times> nat"

record map_indexes =
  mi_list :: "nat list"
  tcref :: int

record map_feedback_metadata =
  history_map :: "u8 list"
  num_covered_map_indexes :: nat

record unstable_entries_metadata =
  unstable_entries :: "nat set"
  filled_entries_count :: nat

record retry_helper =
  tries_remaining :: "nat option"
  skipped :: "corpus_id set"

section \<open>Mutator metadata\<close>

record tokens =
  tokens_vec :: "u8 list list"
  tokens_set :: "u8 list set"

record cmplog_bytes =
  cb_buf :: "u8 list"
  cb_len :: u8

datatype cmp_values =
    CmpU8 u8 u8 bool | CmpU16 u16 u16 bool | CmpU32 u32 u32 bool | CmpU64 u64 u64 bool
  | CmpBytes cmplog_bytes cmplog_bytes

datatype mopt_mode = Pilotfuzzing | Corefuzzing

record mopt =
  mo_rand :: std_rand
  total_finds :: nat
  finds_until_last_swarm :: nat
  w_init :: f64
  w_end :: f64
  w_now :: f64
  g_now :: f64
  g_max :: f64
  operator_num :: nat
  swarm_num :: nat
  period_pilot :: nat
  period_core :: nat
  pilot_time :: nat
  core_time :: nat
  swarm_now :: nat
  x_now :: "f64 list list"
  l_best :: "f64 list list"
  eff_best :: "f64 list list"
  g_best :: "f64 list"
  v_now :: "f64 list list"
  probability_now :: "f64 list list"
  swarm_fitness :: "f64 list"
  pilot_operator_finds :: "u64 list list"
  pilot_operator_finds_v2 :: "u64 list list"
  pilot_operator_cycles :: "u64 list list"
  pilot_operator_cycles_v2 :: "u64 list list"
  pilot_operator_cycles_v3 :: "u64 list list"
  operator_finds_puppet :: "u64 list"
  core_operator_finds :: "u64 list"
  core_operator_finds_v2 :: "u64 list"
  core_operator_cycles :: "u64 list"
  core_operator_cycles_v2 :: "u64 list"
  core_operator_cycles_v3 :: "u64 list"

section \<open>Testcases and the state\<close>

record testcase =
  tc_input :: "u8 list option"
  exec_time :: "duration option"
  cached_len :: "nat option"
  scheduled_count :: nat
  parent_id :: "corpus_id option"
  objectives_found :: nat
  tc_sched :: "sched_testcase_metadata option"
  tc_perf_mult :: "f64 option"
  tc_favored :: bool
  tc_map_indexes :: "map_indexes option"
  tc_path_weight :: "f64 option"
  tc_sancov :: "nat list option"
  tc_feature_weight_meta :: "tc_feature_weight option"
  tc_novelties :: "nat list option"
  tc_disabled :: bool

definition testcase_new :: "u8 list \<Rightarrow> testcase" where
  "testcase_new inp = \<lparr>tc_input = Some inp, exec_time = None, cached_len = None, scheduled_count = 0,
     parent_id = None, objectives_found = 0, tc_sched = None, tc_perf_mult = None, tc_favored = False,
     tc_map_indexes = None, tc_path_weight = None, tc_sancov = None, tc_feature_weight_meta = None,
     tc_novelties = None, tc_disabled = False\<rparr>"

record fuzz_state =
  st_corpus :: "testcase corpus"
  st_rand :: std_rand
  m_globals :: "feature_globals option"
  m_feat_mode :: "u8 option"
  m_vec_mask :: "vec_mask_runtime option"
  m_history :: "tpe_history option"
  m_stats :: "weight_stats option"
  m_weight_mode :: "weight_compute_mode option"
  m_matrix :: "features_matrix option"
  m_feats :: "f64 list option"
  m_vector :: "feature_vector option"
  m_frontier :: "frontier_meta option"
  m_acfg :: "sancov_acfg option"
  m_progress :: "u64 option"
  m_delta :: "coverage_delta option"
  m_explore :: "credit_meta option"
  m_explore_history :: "explore_credit_entry list option"
  m_runtime :: "credit_meta option"
  m_runtime_history :: "runtime_credit_entry list option"
  m_tpe_iter :: "tpe_iteration option"
  m_export :: "runtime_export option"
  m_dirty :: "alias_dirty option"
  m_sched :: "scheduler_metadata option"
  m_weighted :: "weighted_schedule_metadata option"
  m_top_rateds :: "(nat, corpus_id) mapping option"
  m_edges :: "map_feedback_metadata option"
  st_solutions :: "testcase corpus"
  st_executions :: u64
  st_corpus_id :: "corpus_id option"
  stage_idx_stack :: "nat list"
  stage_depth :: nat
  stop_requested :: bool
  m_unstable :: "unstable_entries_metadata option"
  m_retry :: "string \<Rightarrow> retry_helper option"
  m_tokens :: "tokens option"
  m_cmps :: "cmp_values list option"
  m_mopt :: "mopt option"
  last_found_time :: duration

definition state_new :: "std_rand \<Rightarrow> fuzz_state" where
  "state_new r = \<lparr>st_corpus = corpus_new, st_rand = r, m_globals = None, m_feat_mode = None,
     m_vec_mask = None, m_history = None, m_stats = None, m_weight_mode = None, m_matrix = None,
     m_feats = None, m_vector = None, m_frontier = None, m_acfg = None, m_progress = None,
     m_delta = None, m_explore = None, m_explore_history = None, m_runtime = None,
     m_runtime_history = None, m_tpe_iter = None, m_export = None, m_dirty = None, m_sched = None,
     m_weighted = None, m_top_rateds = None, m_edges = None,
     st_solutions = corpus_new, st_executions = 0, st_corpus_id = None, stage_idx_stack = [], stage_depth = 0, stop_requested = False,
     m_unstable = None, m_retry = (\<lambda>_. None), m_tokens = None, m_cmps = None, m_mopt = None,
     last_found_time = 0\<rparr>"

text \<open>The weight mode in force: \<open>Frontier\<close> unless the metadata says otherwise.\<close>

definition weight_mode :: "fuzz_state \<Rightarrow> weight_compute_mode" where
  "weight_mode s = (case m_weight_mode s of Some m \<Rightarrow> m | None \<Rightarrow> Frontier)"

definition tpe_iter :: "fuzz_state \<Rightarrow> tpe_iteration" where
  "tpe_iter s = (case m_tpe_iter s of Some m \<Rightarrow> m | None \<Rightarrow> tpe_iteration_default)"

end
