(* ===== verification/Globals.thy ===== *)
theory Globals
  imports Metadata
begin

text \<open>
  The accessors of the feature scheduling globals (\<open>feature_sched/mod.rs\<close>): the globals metadata is
  created with its default on first write, read as the default while absent. The mask installer
  refuses to change a committed mask, and the dimension check is the one run on resume.
\<close>

section \<open>Globals\<close>

definition globals :: "fuzz_state \<Rightarrow> feature_globals" where
  "globals s = (case m_globals s of Some g \<Rightarrow> g | None \<Rightarrow> feature_globals_default)"

text \<open>\<open>globals_mut(state)\<close> followed by an update of the record it returns.\<close>

definition upd_globals :: "(feature_globals \<Rightarrow> feature_globals) \<Rightarrow> fuzz_state \<Rightarrow> fuzz_state" where
  "upd_globals f s = s\<lparr>m_globals := Some (f (globals s))\<rparr>"

definition vecn_eq :: "f64 list \<Rightarrow> f64 list \<Rightarrow> f64 \<Rightarrow> bool" where
  "vecn_eq a b eps = (length a = length b \<and> list_all (\<lambda>(x, y). fle (fabs (fsub x y)) eps) (zip a b))"

definition get_features_active :: "fuzz_state \<Rightarrow> bool" where
  "get_features_active s = features_active (globals s)"

definition get_feat_exists :: "fuzz_state \<Rightarrow> bool" where
  "get_feat_exists s = feat_exists (globals s)"

definition get_tpe_satisfied :: "fuzz_state \<Rightarrow> bool" where
  "get_tpe_satisfied s = tpe_satisfied (globals s)"

definition get_feat0 :: "fuzz_state \<Rightarrow> f64" where
  "get_feat0 s = feat_val0 (globals s)"

definition get_explore_time :: "fuzz_state \<Rightarrow> u64" where
  "get_explore_time s = explore_time_secs (globals s)"

definition get_tpe_period :: "fuzz_state \<Rightarrow> u64" where
  "get_tpe_period s = tpe_period_secs (globals s)"

definition get_current_weight_vec :: "fuzz_state \<Rightarrow> f64 list" where
  "get_current_weight_vec s = current_v (globals s)"

definition get_factor_params :: "fuzz_state \<Rightarrow> factor_params" where
  "get_factor_params s = g_factor_params (globals s)"

definition get_fuzz_start :: "fuzz_state \<Rightarrow> u64" where
  "get_fuzz_start s = fuzz_start_epoch_ms (globals s)"

definition get_active_dim :: "fuzz_state \<Rightarrow> nat" where
  "get_active_dim s = feature_dim (globals s)"

definition get_active_feature_names :: "fuzz_state \<Rightarrow> string list" where
  "get_active_feature_names s = active_feature_names (globals s)"

definition get_schema_features :: "fuzz_state \<Rightarrow> feature_spec list" where
  "get_schema_features s = schema_features (globals s)"

definition get_schema_version :: "fuzz_state \<Rightarrow> u64" where
  "get_schema_version s = schema_version (globals s)"

definition get_vec_mask :: "fuzz_state \<Rightarrow> bool list" where
  "get_vec_mask s = vec_mask (globals s)"

definition get_v_candidates :: "fuzz_state \<Rightarrow> f64 list list" where
  "get_v_candidates s = v_candidates (globals s)"

definition get_feat_mode :: "fuzz_state \<Rightarrow> u8" where
  "get_feat_mode s = (case m_feat_mode s of Some m \<Rightarrow> m | None \<Rightarrow> 1)"

definition get_features_enabled :: "fuzz_state \<Rightarrow> bool" where
  "get_features_enabled s = (get_features_active s \<and> get_feat_exists s \<and> get_feat_mode s \<noteq> 0)"

definition set_features_active :: "bool \<Rightarrow> fuzz_state \<Rightarrow> fuzz_state" where
  "set_features_active v = upd_globals (\<lambda>g. g\<lparr>features_active := v\<rparr>)"

definition set_feat_exists :: "bool \<Rightarrow> fuzz_state \<Rightarrow> fuzz_state" where
  "set_feat_exists v = upd_globals (\<lambda>g. g\<lparr>feat_exists := v\<rparr>)"

definition set_tpe_satisfied :: "bool \<Rightarrow> fuzz_state \<Rightarrow> fuzz_state" where
  "set_tpe_satisfied v = upd_globals (\<lambda>g. g\<lparr>tpe_satisfied := v\<rparr>)"

definition set_feat0 :: "f64 \<Rightarrow> fuzz_state \<Rightarrow> fuzz_state" where
  "set_feat0 v = upd_globals (\<lambda>g. g\<lparr>feat_val0 := v\<rparr>)"

definition set_explore_time :: "u64 \<Rightarrow> fuzz_state \<Rightarrow> fuzz_state" where
  "set_explore_time v = upd_globals (\<lambda>g. g\<lparr>explore_time_secs := v\<rparr>)"

definition set_tpe_period :: "u64 \<Rightarrow> fuzz_state \<Rightarrow> fuzz_state" where
  "set_tpe_period v = upd_globals (\<lambda>g. g\<lparr>tpe_period_secs := v\<rparr>)"

definition set_alpha_init :: "f64 \<Rightarrow> fuzz_state \<Rightarrow> fuzz_state" where
  "set_alpha_init v = upd_globals (\<lambda>g. g\<lparr>alpha_init := v\<rparr>)"

definition set_fuzz_start :: "u64 \<Rightarrow> fuzz_state \<Rightarrow> fuzz_state" where
  "set_fuzz_start now = upd_globals (\<lambda>g. g\<lparr>fuzz_start_epoch_ms := now\<rparr>)"

definition set_factor_params :: "factor_params \<Rightarrow> fuzz_state \<Rightarrow> fuzz_state" where
  "set_factor_params p = upd_globals (\<lambda>g. g\<lparr>g_factor_params := p\<rparr>)"

definition set_schema_info ::
  "u64 \<Rightarrow> feature_spec list \<Rightarrow> bool list \<Rightarrow> feature_spec list \<Rightarrow> fuzz_state \<Rightarrow> fuzz_state" where
  "set_schema_info version features msk active = upd_globals (\<lambda>g. g\<lparr>
     schema_version := version, schema_features := features,
     active_feature_names := map fs_name active, feature_dim := length active,
     vec_mask := msk, active_features := active\<rparr>)"

definition push_v_candidate :: "f64 list \<Rightarrow> fuzz_state \<Rightarrow> fuzz_state" where
  "push_v_candidate v = upd_globals (\<lambda>g.
     if list_ex (\<lambda>u. vecn_eq u v (f_lit 0.001)) (v_candidates g) then g
     else g\<lparr>v_candidates := v_candidates g @ [v]\<rparr>)"

definition replace_v_candidates :: "f64 list list \<Rightarrow> fuzz_state \<Rightarrow> fuzz_state" where
  "replace_v_candidates vs = upd_globals (\<lambda>g. g\<lparr>v_candidates := vs\<rparr>)"

definition set_current_weight_vec :: "f64 list \<Rightarrow> fuzz_state \<Rightarrow> fuzz_state" where
  "set_current_weight_vec v = upd_globals (\<lambda>g. g\<lparr>current_v := v\<rparr>)"

definition set_feat_mode :: "u8 \<Rightarrow> fuzz_state \<Rightarrow> fuzz_state" where
  "set_feat_mode m s = s\<lparr>m_feat_mode := Some (min m 3)\<rparr>"

lemmas getter_defs = get_features_active_def get_feat_exists_def get_tpe_satisfied_def get_feat0_def
  get_explore_time_def get_tpe_period_def get_current_weight_vec_def get_factor_params_def
  get_fuzz_start_def get_active_dim_def get_active_feature_names_def get_schema_features_def
  get_schema_version_def get_vec_mask_def get_v_candidates_def

lemmas setter_defs = set_features_active_def set_feat_exists_def set_tpe_satisfied_def set_feat0_def
  set_explore_time_def set_tpe_period_def set_alpha_init_def set_fuzz_start_def set_factor_params_def
  set_schema_info_def push_v_candidate_def replace_v_candidates_def set_current_weight_vec_def

lemma globals_upd [simp, state_simps]: "globals (upd_globals f s) = f (globals s)"
  by (simp add: globals_def upd_globals_def)

lemma upd_globals_frame [simp]:
  "st_corpus (upd_globals f s) = st_corpus s" "st_rand (upd_globals f s) = st_rand s"
  "m_feat_mode (upd_globals f s) = m_feat_mode s" "m_vec_mask (upd_globals f s) = m_vec_mask s"
  "m_history (upd_globals f s) = m_history s" "m_stats (upd_globals f s) = m_stats s"
  "m_weight_mode (upd_globals f s) = m_weight_mode s" "m_matrix (upd_globals f s) = m_matrix s"
  "m_feats (upd_globals f s) = m_feats s" "m_vector (upd_globals f s) = m_vector s"
  "m_frontier (upd_globals f s) = m_frontier s" "m_acfg (upd_globals f s) = m_acfg s"
  "m_delta (upd_globals f s) = m_delta s" "m_explore (upd_globals f s) = m_explore s"
  "m_runtime (upd_globals f s) = m_runtime s" "m_tpe_iter (upd_globals f s) = m_tpe_iter s"
  "m_dirty (upd_globals f s) = m_dirty s" "m_export (upd_globals f s) = m_export s"
  by (simp_all add: upd_globals_def)

lemma globals_frame [simp]:
  "globals (s\<lparr>m_vec_mask := v\<rparr>) = globals s" "globals (s\<lparr>m_history := h\<rparr>) = globals s"
  "globals (s\<lparr>m_stats := st\<rparr>) = globals s" "globals (s\<lparr>m_matrix := mm\<rparr>) = globals s"
  "globals (s\<lparr>m_feats := ff\<rparr>) = globals s" "globals (s\<lparr>m_vector := fv\<rparr>) = globals s"
  "globals (s\<lparr>m_tpe_iter := ti\<rparr>) = globals s" "globals (s\<lparr>m_dirty := d\<rparr>) = globals s"
  "globals (s\<lparr>st_corpus := c\<rparr>) = globals s" "globals (s\<lparr>st_rand := r\<rparr>) = globals s"
  "globals (s\<lparr>m_frontier := f\<rparr>) = globals s" "globals (s\<lparr>m_feat_mode := fm\<rparr>) = globals s"
  "globals (s\<lparr>m_explore := e\<rparr>) = globals s" "globals (s\<lparr>m_runtime := e\<rparr>) = globals s"
  "globals (s\<lparr>m_explore_history := eh\<rparr>) = globals s" "globals (s\<lparr>m_runtime_history := rh\<rparr>) = globals s"
  "globals (s\<lparr>m_delta := cd\<rparr>) = globals s" "globals (s\<lparr>m_progress := cp\<rparr>) = globals s"
  "globals (s\<lparr>m_export := ex\<rparr>) = globals s"
  by (simp_all add: globals_def)

section \<open>The effective mask\<close>

datatype mask_install_reason = StartupFull | StartupExplicit | AutoCreditCommit | RestoreCommittedMask

definition set_vec_mask_runtime_meta :: "vec_mask_runtime \<Rightarrow> fuzz_state \<Rightarrow> fuzz_state" where
  "set_vec_mask_runtime_meta m s = s\<lparr>m_vec_mask := Some m\<rparr>"

definition vec_mask_runtime_meta :: "fuzz_state \<Rightarrow> vec_mask_runtime" where
  "vec_mask_runtime_meta s = (case m_vec_mask s of Some m \<Rightarrow> m | None \<Rightarrow> vec_mask_runtime_default)"

definition install_or_validate_effective_mask ::
  "fuzz_state \<Rightarrow> bool list \<Rightarrow> feature_spec list \<Rightarrow> mask_install_reason \<Rightarrow> error + fuzz_state" where
  "install_or_validate_effective_mask s new_mask active reason =
     (let rt = vec_mask_runtime_meta s;
          mask_changes = (effective_mask rt \<noteq> [] \<and> effective_mask rt \<noteq> new_mask)
      in if mask_committed rt \<and> mask_changes \<and>
            \<not> (vm_mode rt = AutoCredit \<and> reason = AutoCreditCommit \<and> \<not> tpe_init_committed rt)
         then Err (IllegalState (MaskMsg AlterCommittedMask))
         else
           let s1 = set_schema_info (get_schema_version s) (get_schema_features s) new_mask active s;
               rt1 = rt\<lparr>effective_mask := new_mask, selected_feature_names := map fs_name active,
                 selected_schema_indices := true_indices new_mask\<rparr>;
               rt2 = (if reason \<in> {StartupFull, StartupExplicit, AutoCreditCommit, RestoreCommittedMask}
                 then rt1\<lparr>mask_committed := (vm_mode rt1 \<noteq> AutoCredit \<or>
                        reason \<in> {AutoCreditCommit, RestoreCommittedMask})\<rparr>
                 else rt1)
           in Ok (set_vec_mask_runtime_meta rt2 s1))"

text \<open>The first element of an enumerated list that fails a test, as in a loop with an early return.\<close>

fun first_bad :: "('a \<Rightarrow> bool) \<Rightarrow> nat \<Rightarrow> 'a list \<Rightarrow> (nat \<times> 'a) option" where
  "first_bad P i [] = None"
| "first_bad P i (x # xs) = (if P x then first_bad P (Suc i) xs else Some (i, x))"

definition validate_committed_vector_dimensions :: "fuzz_state \<Rightarrow> error + unit" where
  "validate_committed_vector_dimensions s =
     (let d = get_active_dim s; g = globals s in
      if current_v g \<noteq> [] \<and> length (current_v g) \<noteq> d
      then Err (IllegalState (ResumeMsg (ResumeCurrentV (length (current_v g)) d)))
      else case first_bad (\<lambda>c. length c = d) 0 (v_candidates g) of
        Some (i, c) \<Rightarrow> Err (IllegalState (ResumeMsg (ResumeCandidate i (length c) d)))
      | None \<Rightarrow>
        (case (case m_history s of None \<Rightarrow> None
               | Some h \<Rightarrow> first_bad (\<lambda>(v, _, _). length v = d) 0 (h_trials h)) of
           Some (i, (v, _, _)) \<Rightarrow> Err (IllegalState (ResumeMsg (ResumeTrial i (length v) d)))
         | None \<Rightarrow>
           (case m_vec_mask s of
              Some rt \<Rightarrow> if tpe_init_committed rt \<and> length (normalized_credit_init_v rt) \<noteq> d
                then Err (IllegalState (ResumeMsg (ResumeInitV (length (normalized_credit_init_v rt)) d)))
                else Ok ()
            | None \<Rightarrow> Ok ())))"

section \<open>Lemmas\<close>

lemma first_bad_None_iff: "first_bad P i xs = None \<longleftrightarrow> (\<forall>x \<in> set xs. P x)"
  by (induction xs arbitrary: i) auto

lemma first_bad_SomeD:
  "first_bad P i xs = Some (j, x) \<Longrightarrow> i \<le> j \<and> j < i + length xs \<and> xs ! (j - i) = x \<and> x \<in> set xs \<and> \<not> P x"
proof (induction xs arbitrary: i)
  case (Cons y ys)
  show ?case
  proof (cases "P y")
    case True
    then have "Suc i \<le> j \<and> j < Suc i + length ys \<and> ys ! (j - Suc i) = x \<and> x \<in> set ys \<and> \<not> P x"
      using Cons.prems Cons.IH [of "Suc i"] by simp
    moreover then have "j - i = Suc (j - Suc i)" by (simp add: Suc_diff_Suc less_eq_Suc_le)
    ultimately show ?thesis by simp
  qed (use Cons.prems in auto)
qed simp

text \<open>Every stored vector that is in use has the active dimension.\<close>

definition dims_ok :: "fuzz_state \<Rightarrow> bool" where
  "dims_ok s \<longleftrightarrow> (current_v (globals s) = [] \<or> length (current_v (globals s)) = get_active_dim s) \<and>
     (\<forall>c \<in> set (v_candidates (globals s)). length c = get_active_dim s) \<and>
     (\<forall>h. m_history s = Some h \<longrightarrow> (\<forall>(v, _, _) \<in> set (h_trials h). length v = get_active_dim s)) \<and>
     (\<forall>rt. m_vec_mask s = Some rt \<longrightarrow> tpe_init_committed rt \<longrightarrow>
        length (normalized_credit_init_v rt) = get_active_dim s)"

lemma validate_ok_iff: "validate_committed_vector_dimensions s = Ok () \<longleftrightarrow> dims_ok s"
  by (auto simp: validate_committed_vector_dimensions_def dims_ok_def Let_def first_bad_None_iff
      split: option.splits if_splits dest!: first_bad_SomeD)

section \<open>Properties\<close>

text \<open>The check run on resume succeeds exactly when every vector in use (the current vector unless
  empty, every candidate, every recorded trial, the committed initial vector) has the active
  dimension.\<close>

theorem validate_dimensions_iff:
  "validate_committed_vector_dimensions s = Ok () \<longleftrightarrow>
     (current_v (globals s) = [] \<or> length (current_v (globals s)) = get_active_dim s) \<and>
     (\<forall>c \<in> set (v_candidates (globals s)). length c = get_active_dim s) \<and>
     (\<forall>h. m_history s = Some h \<longrightarrow> (\<forall>(v, _, _) \<in> set (h_trials h). length v = get_active_dim s)) \<and>
     (\<forall>rt. m_vec_mask s = Some rt \<longrightarrow> tpe_init_committed rt \<longrightarrow>
        length (normalized_credit_init_v rt) = get_active_dim s)"
  by (simp only: validate_ok_iff dims_ok_def)

theorem validate_dimensions_iff_witness:
  "validate_committed_vector_dimensions (replace_v_candidates [[Fin 1]] (state_new (std_rand_with_seed 0))) \<noteq> Ok ()"
  by (subst validate_dimensions_iff)
    (simp add: replace_v_candidates_def globals_def state_new_def upd_globals_def get_active_dim_def
      feature_globals_default_def)

text \<open>C10. A committed mask is immutable: an installation that succeeds on a committed, non-empty mask
  either installs the very same mask or is the automatic credit selection before its TPE
  initialisation was committed. Every successful installation leaves the globals and the runtime
  metadata in agreement on the mask, the active features and the selected indices.\<close>

theorem committed_mask_immutable:
  assumes "install_or_validate_effective_mask s msk active reason = Ok s'"
  shows "(mask_committed (vec_mask_runtime_meta s) \<and> effective_mask (vec_mask_runtime_meta s) \<noteq> [] \<longrightarrow>
      msk = effective_mask (vec_mask_runtime_meta s) \<or>
      vm_mode (vec_mask_runtime_meta s) = AutoCredit \<and> reason = AutoCreditCommit \<and>
      \<not> tpe_init_committed (vec_mask_runtime_meta s)) \<and>
    get_vec_mask s' = msk \<and> effective_mask (vec_mask_runtime_meta s') = msk \<and>
    selected_schema_indices (vec_mask_runtime_meta s') = true_indices msk \<and>
    get_active_feature_names s' = selected_feature_names (vec_mask_runtime_meta s') \<and>
    get_active_dim s' = length active \<and> get_schema_features s' = get_schema_features s \<and>
    (mask_committed (vec_mask_runtime_meta s') \<longleftrightarrow> vm_mode (vec_mask_runtime_meta s) \<noteq> AutoCredit \<or>
       reason \<in> {AutoCreditCommit, RestoreCommittedMask})"
proof -
  let ?rt = "vec_mask_runtime_meta s"
  have ok: "\<not> (mask_committed ?rt \<and> effective_mask ?rt \<noteq> [] \<and> effective_mask ?rt \<noteq> msk \<and>
      \<not> (vm_mode ?rt = AutoCredit \<and> reason = AutoCreditCommit \<and> \<not> tpe_init_committed ?rt))"
    using assms by (auto simp: install_or_validate_effective_mask_def Let_def split: if_splits)
  then have "s' = set_vec_mask_runtime_meta (?rt\<lparr>effective_mask := msk,
        selected_feature_names := map fs_name active, selected_schema_indices := true_indices msk,
        mask_committed := (vm_mode ?rt \<noteq> AutoCredit \<or> reason \<in> {AutoCreditCommit, RestoreCommittedMask})\<rparr>)
      (set_schema_info (get_schema_version s) (get_schema_features s) msk active s)"
    using assms by (cases reason) (auto simp: install_or_validate_effective_mask_def Let_def split: if_splits)
  then show ?thesis using ok
    by (auto simp: set_vec_mask_runtime_meta_def vec_mask_runtime_meta_def set_schema_info_def getter_defs)
qed

theorem committed_mask_immutable_witness:
  "\<exists>s'. install_or_validate_effective_mask (state_new (std_rand_with_seed 0)) [True] [] StartupFull = Ok s' \<and>
     get_vec_mask s' = [True]"
proof -
  have "is_Ok (install_or_validate_effective_mask (state_new (std_rand_with_seed 0)) [True] [] StartupFull)"
    by (simp add: install_or_validate_effective_mask_def vec_mask_runtime_meta_def state_new_def
        vec_mask_runtime_default_def Let_def)
  then obtain s' where
    "install_or_validate_effective_mask (state_new (std_rand_with_seed 0)) [True] [] StartupFull = Ok s'"
    by (auto simp: is_Ok_def split: sum.splits)
  then show ?thesis using committed_mask_immutable by blast
qed

end
