(* ===== verification/Mask_Selection.thy ===== *)
theory Mask_Selection
  imports Globals "HOL-Library.Multiset"
begin

text \<open>
  Credit based mask selection and simplex vectors from credits (\<open>feature_sched/mask_selection.rs\<close>).
  Shown: the selected mask marks exactly the best strictly positive credits, at most \<open>k\<close> of them, ties
  broken by the schema index; projection by a mask; the normalised credit vector.
\<close>

section \<open>Definitions\<close>

text \<open>The validation loop of both credit functions: reject a non-finite or negative credit.\<close>

fun check_credits :: "(nat \<Rightarrow> mask_msg) \<Rightarrow> (nat \<Rightarrow> mask_msg) \<Rightarrow> nat \<Rightarrow> f64 list \<Rightarrow> mask_msg + unit" where
  "check_credits nonfin neg i [] = Ok ()"
| "check_credits nonfin neg i (c # cs) =
     (if \<not> is_finite c then Err (nonfin i)
      else if flt c (Fin 0) then Err (neg i)
      else check_credits nonfin neg (Suc i) cs)"

text \<open>
  The comparator of the sort: larger credit first, then smaller index. \<open>sort_by\<close> is a stable sort;
  its comparator says which element precedes.
\<close>

definition credit_before :: "nat \<times> f64 \<Rightarrow> nat \<times> f64 \<Rightarrow> bool" where
  "credit_before a b = (if flt (snd b) (snd a) then True else if flt (snd a) (snd b) then False
     else fst a \<le> fst b)"

fun insert_credit :: "nat \<times> f64 \<Rightarrow> (nat \<times> f64) list \<Rightarrow> (nat \<times> f64) list" where
  "insert_credit a [] = [a]"
| "insert_credit a (b # bs) = (if credit_before a b then a # b # bs else b # insert_credit a bs)"

definition sort_credits :: "(nat \<times> f64) list \<Rightarrow> (nat \<times> f64) list" where
  "sort_credits xs = foldr insert_credit xs []"

definition positive_credits :: "f64 list \<Rightarrow> (nat \<times> f64) list" where
  "positive_credits cs = filter (\<lambda>(_, c). flt (Fin 0) c) (zip [0..<length cs] cs)"

definition select_positive_credit_top_k_mask ::
  "f64 list \<Rightarrow> nat \<Rightarrow> nat \<Rightarrow> mask_msg + bool list option" where
  "select_positive_credit_top_k_mask credits schema_dim top_k =
     (if length credits \<noteq> schema_dim then Err (CreditsLength (length credits) schema_dim)
      else if top_k = 0 \<or> schema_dim < top_k then Err (TopKRange top_k schema_dim)
      else bindR (check_credits CreditNonFinite CreditNegative 0 credits) (\<lambda>_.
        let positive = positive_credits credits in
        if positive = [] then Ok None
        else Ok (Some (foldl (\<lambda>m (i, _). m[i := True]) (replicate schema_dim False)
               (take top_k (sort_credits positive))))))"

definition project_vector_by_mask :: "'a list \<Rightarrow> bool list \<Rightarrow> mask_msg + 'a list" where
  "project_vector_by_mask full msk = (if length full \<noteq> length msk
     then Err (ProjectLength (length full) (length msk)) else Ok (masked full msk))"

definition mask_to_bitstring :: "bool list \<Rightarrow> string" where
  "mask_to_bitstring = map (\<lambda>b. if b then CHR ''1'' else CHR ''0'')"

definition equal_simplex :: "nat \<Rightarrow> f64 list" where
  "equal_simplex d = (if d = 0 then [] else replicate d (fdiv (Fin 1) (f_of_nat d)))"

definition positive_sum :: "f64 list \<Rightarrow> f64" where
  "positive_sum cs = foldl (\<lambda>acc c. if flt (Fin 0) c then fadd acc c else acc) (Fin 0) cs"

definition normalize_credit_or_equal_simplex :: "f64 list \<Rightarrow> mask_msg + (f64 list \<times> bool \<times> f64)" where
  "normalize_credit_or_equal_simplex credits =
     (if credits = [] then Ok ([], False, Fin 0)
      else bindR (check_credits NormNonFinite NormNegative 0 credits) (\<lambda>_.
        let sum = positive_sum credits in
        if flt (Fin 0) sum then Ok (map (\<lambda>c. fdiv c sum) credits, True, sum)
        else Ok (equal_simplex (length credits), False, Fin 0)))"

section \<open>Selection\<close>

lemma check_credits_Ok_iff:
  "check_credits f g i cs = Ok u \<longleftrightarrow> (\<forall>c \<in> set cs. is_finite c \<and> \<not> flt c (Fin 0))"
  by (induction cs arbitrary: i) auto

lemma check_credits_Ok_iff': "check_credits f g i cs = Ok u \<longleftrightarrow> (\<forall>c \<in> set cs. is_finite c \<and> fle (Fin 0) c)"
proof -
  have "is_finite c \<and> \<not> flt c (Fin 0) \<longleftrightarrow> is_finite c \<and> fle (Fin 0) c" for c
    by (metis fcmp_Fin(3) fle_finite flt_finite not_less)
  then show ?thesis by (simp only: check_credits_Ok_iff)
qed

lemma set_positive: "set (positive_credits cs) = {(i, cs ! i) | i. i < length cs \<and> flt (Fin 0) (cs ! i)}"
  by (force simp: positive_credits_def set_zip)

lemma distinct_positive: "distinct (map fst (positive_credits cs))"
proof -
  have "distinct (map fst (zip [0..<length cs] cs))" by simp
  then show ?thesis unfolding positive_credits_def by (rule distinct_map_filter)
qed

lemma insert_credit_mset: "mset (insert_credit a bs) = add_mset a (mset bs)"
  by (induction bs) auto

lemma sort_credits_mset: "mset (sort_credits xs) = mset xs"
  by (induction xs) (simp_all add: sort_credits_def insert_credit_mset)

lemma sort_credits_set: "set (sort_credits xs) = set xs"
  using sort_credits_mset [of xs] by (rule mset_eq_setD)

text \<open>On finite credits the comparator is a total order, so the sort yields a sorted list.\<close>

lemma credit_before_total:
  "is_finite (snd a) \<Longrightarrow> is_finite (snd b) \<Longrightarrow> credit_before a b \<or> credit_before b a"
  by (auto simp: credit_before_def flt_finite)

lemma credit_before_trans:
  "is_finite (snd a) \<Longrightarrow> is_finite (snd b) \<Longrightarrow> is_finite (snd c) \<Longrightarrow>
    credit_before a b \<Longrightarrow> credit_before b c \<Longrightarrow> credit_before a c"
  by (auto simp: credit_before_def flt_finite split: if_splits)

lemma insert_credit_sorted:
  assumes "sorted_wrt credit_before bs" "\<forall>b \<in> set (a # bs). is_finite (snd b)"
  shows "sorted_wrt credit_before (insert_credit a bs)"
  using assms
proof (induction bs)
  case (Cons b bs)
  have s: "set (insert_credit a bs) = insert a (set bs)"
    by (metis insert_credit_mset set_mset_add_mset_insert set_mset_mset)
  show ?case
  proof (cases "credit_before a b")
    case True
    then show ?thesis using Cons.prems credit_before_trans [of a b] by auto
  next
    case False
    then have "credit_before b a" using Cons.prems credit_before_total [of a b] by auto
    then show ?thesis using Cons False by (auto simp: s)
  qed
qed simp

lemma sort_credits_sorted:
  "\<forall>b \<in> set xs. is_finite (snd b) \<Longrightarrow> sorted_wrt credit_before (sort_credits xs)"
proof (induction xs)
  case (Cons x xs)
  then show ?case using sort_credits_set [of xs] insert_credit_sorted [of "sort_credits xs" x]
    by (auto simp: sort_credits_def)
qed (simp add: sort_credits_def)

lemma mark_nth:
  "i < length m \<Longrightarrow> foldl (\<lambda>m (j, _). m[j := True]) m ps ! i \<longleftrightarrow> m ! i \<or> i \<in> fst ` set ps"
proof (induction ps arbitrary: m)
  case (Cons p ps)
  obtain j c where p: "p = (j, c)" by fastforce
  show ?case using Cons.IH [of "m[j := True]"] Cons.prems
    by (cases "i = j") (simp_all add: p nth_list_update)
qed simp

lemma mark_length: "length (foldl (\<lambda>m (j, _). m[j := True]) m ps) = length m"
  by (induction ps arbitrary: m) (auto split: prod.splits)

lemma finite_credits:
  "\<forall>c \<in> set cs. is_finite c \<Longrightarrow> \<forall>b \<in> set (sort_credits (positive_credits cs)). is_finite (snd b)"
  by (auto simp: sort_credits_set set_positive)

lemma take_drop_before:
  "sorted_wrt P xs \<Longrightarrow> a \<in> set (take k xs) \<Longrightarrow> b \<in> set (drop k xs) \<Longrightarrow> P a b"
  using append_take_drop_id [of k xs] by (metis sorted_wrt_append)

text \<open>The marked positions: those of the first \<open>k\<close> entries of the sorted positive credits.\<close>

lemma select_Some_iff:
  "select_positive_credit_top_k_mask cs d k = Ok (Some m) \<longleftrightarrow>
     length cs = d \<and> 0 < k \<and> k \<le> d \<and> (\<forall>c \<in> set cs. is_finite c \<and> fle (Fin 0) c) \<and>
     positive_credits cs \<noteq> [] \<and>
     m = foldl (\<lambda>m (i, _). m[i := True]) (replicate d False) (take k (sort_credits (positive_credits cs)))"
  by (auto simp: select_positive_credit_top_k_mask_def bindR_Ok_iff check_credits_Ok_iff' Let_def)

lemma select_None_iff:
  "select_positive_credit_top_k_mask cs d k = Ok None \<longleftrightarrow>
     length cs = d \<and> 0 < k \<and> k \<le> d \<and> (\<forall>c \<in> set cs. is_finite c \<and> fle (Fin 0) c) \<and>
     (\<forall>c \<in> set cs. \<not> flt (Fin 0) c)"
proof -
  have "positive_credits cs = [] \<longleftrightarrow> (\<forall>c \<in> set cs. \<not> flt (Fin 0) c)"
    unfolding set_empty [symmetric] set_positive by (fastforce simp: in_set_conv_nth)
  then show ?thesis
    by (auto simp: select_positive_credit_top_k_mask_def bindR_Ok_iff check_credits_Ok_iff' Let_def)
qed

lemma distinct_fst_sort: "distinct (map fst xs) \<Longrightarrow> distinct (map fst (sort_credits xs))"
  using sort_credits_mset [of xs]
  by (metis mset_map mset_eq_imp_distinct_iff)

lemma selected_nth:
  assumes "select_positive_credit_top_k_mask cs d k = Ok (Some m)" "i < d"
  shows "m ! i \<longleftrightarrow> i \<in> fst ` set (take k (sort_credits (positive_credits cs)))"
  using assms by (auto simp: select_Some_iff mark_nth)

lemma selected_length: "select_positive_credit_top_k_mask cs d k = Ok (Some m) \<Longrightarrow> length m = d"
  by (auto simp: select_Some_iff mark_length)

lemma selected_count:
  assumes sel: "select_positive_credit_top_k_mask cs d k = Ok (Some m)"
  shows "length (true_indices m) = min k (length (positive_credits cs))"
proof -
  let ?t = "take k (sort_credits (positive_credits cs))"
  have d: "distinct (map fst ?t)"
    using distinct_fst_sort [OF distinct_positive [of cs]] by (metis distinct_take take_map)
  have "fst ` set ?t \<subseteq> {..<d}"
    using sel by (auto simp: select_Some_iff sort_credits_set set_positive dest!: in_set_takeD)
  then have "set (true_indices m) = fst ` set ?t"
    using selected_nth [OF sel] selected_length [OF sel] by (auto simp: set_true_indices)
  then have "length (true_indices m) = card (fst ` set ?t)"
    using sorted_true_indices(2) [of m] by (metis distinct_card)
  also have "\<dots> = length ?t" using d by (metis distinct_card length_map set_map)
  also have "\<dots> = min k (length (positive_credits cs))"
    using arg_cong [OF sort_credits_mset [of "positive_credits cs"], of size] by simp
  finally show ?thesis .
qed

section \<open>Vectors from credits\<close>

lemma positive_sum_eq: "positive_sum cs = foldl fadd (Fin 0) (filter (flt (Fin 0)) cs)"
proof -
  have "foldl (\<lambda>acc c. if flt (Fin 0) c then fadd acc c else acc) a cs =
      foldl fadd a (filter (flt (Fin 0)) cs)" for a
    by (induction cs arbitrary: a) auto
  then show ?thesis by (simp add: positive_sum_def)
qed

lemma positive_sum_nonneg: "fnonneg (positive_sum cs)"
  unfolding positive_sum_eq by (rule foldl_fadd_nonneg) (simp_all add: flt_imp_fle)

lemma positive_sum_ge:
  assumes "c \<in> set cs" "\<forall>c \<in> set cs. wf64 c" "flt (Fin 0) c"
  shows "fle c (positive_sum cs)"
  unfolding positive_sum_eq
  by (rule foldl_fadd_ge_elem) (use assms in \<open>simp_all add: flt_imp_fle\<close>)

lemma positive_sum_pos_iff:
  assumes "\<forall>c \<in> set cs. wf64 c"
  shows "flt (Fin 0) (positive_sum cs) \<longleftrightarrow> (\<exists>c \<in> set cs. flt (Fin 0) c)"
proof
  assume "\<exists>c \<in> set cs. flt (Fin 0) c"
  then show "flt (Fin 0) (positive_sum cs)" using positive_sum_ge assms flt_fle_trans by blast
next
  assume "flt (Fin 0) (positive_sum cs)"
  then have "filter (flt (Fin 0)) cs \<noteq> []" by (auto simp: positive_sum_eq)
  then show "\<exists>c \<in> set cs. flt (Fin 0) c" by (simp add: filter_empty_conv)
qed

lemma length_equal_simplex [simp]: "length (equal_simplex d) = d"
  by (simp add: equal_simplex_def)

lemma normalize_credit_length:
  "normalize_credit_or_equal_simplex cs = Ok (v, p, sm) \<Longrightarrow> length v = length cs"
  by (auto simp: normalize_credit_or_equal_simplex_def Let_def split: if_splits)

lemma equal_simplex_unit: "v \<in> set (equal_simplex d) \<Longrightarrow> fle (Fin 0) v \<and> fle v (Fin 1)"
proof -
  assume "v \<in> set (equal_simplex d)"
  then have d: "0 < d" and v: "v = fdiv (Fin 1) (f_of_nat d)"
    by (auto simp: equal_simplex_def split: if_splits)
  have 1: "fle (Fin 1) (f_of_nat d)" using d by (simp add: f_of_nat_ge_1)
  have "flt (Fin 0) (f_of_nat d)" by (rule flt_fle_trans [OF _ 1]) simp
  with 1 show ?thesis unfolding v by (intro conjI fdiv_nonneg fdiv_le_1) simp_all
qed

text \<open>The sum of the credits may overflow, and then the credit driven vector is all zero.\<close>

lemma repr_double: "repr r \<Longrightarrow> repr (2 * r)"
proof -
  assume "repr r"
  then obtain m e where "\<bar>m\<bar> < 2 ^ 53" "- 1074 \<le> e" "r = of_int m * pow2 e" by (auto simp: repr_def)
  then show ?thesis unfolding repr_def
    by (intro exI [of _ m] exI [of _ "e + 1"]) (simp add: pow2_def power_int_add)
qed

lemma fadd_maxf: "fadd (Fin maxf) (Fin maxf) = PInf" "fadd (Fin 0) (Fin maxf) = Fin maxf"
proof -
  have r: "repr maxf" using repr_rnd [of maxf] by simp
  have "rnd (2 * maxf) = 2 * maxf" using repr_double [OF r] by (rule rnd_repr_fix)
  then show "fadd (Fin maxf) (Fin maxf) = PInf"
    using maxf_pos by (auto simp: fadd_def mk64_def Let_def simp del: maxf_pos)
  show "fadd (Fin 0) (Fin maxf) = Fin maxf"
    using maxf_pos by (auto simp: fadd_def mk64_def Let_def simp del: maxf_pos)
qed

lemma normalize_credit_overflow:
  "normalize_credit_or_equal_simplex [Fin maxf, Fin maxf] = Ok ([Fin 0, Fin 0], True, PInf)"
  using maxf_pos by (simp add: normalize_credit_or_equal_simplex_def positive_sum_eq fadd_maxf flt_def
      fdiv_def mk64_0 is_neg_def is_zero_def Let_def)

section \<open>Properties\<close>

text \<open>A successful automatic selection marks only strictly positive credits, as many as there are up
  to \<open>k\<close>, and every marked credit is strictly larger than every unmarked one or equal to it at a
  smaller schema index.\<close>

theorem top_k_mask_is_best:
  assumes "select_positive_credit_top_k_mask credits d k = Ok (Some m)"
  shows "length m = d \<and> (\<forall>i < d. m ! i \<longrightarrow> flt (Fin 0) (credits ! i)) \<and>
    length (true_indices m) = min k (length (filter (flt (Fin 0)) credits)) \<and>
    (\<forall>i < d. \<forall>j < d. m ! i \<and> \<not> m ! j \<longrightarrow>
       flt (credits ! j) (credits ! i) \<or> (\<not> flt (credits ! i) (credits ! j) \<and> i < j))"
proof -
  let ?s = "sort_credits (positive_credits credits)"
  have fin: "\<forall>c \<in> set credits. is_finite c" "length credits = d"
    using assms by (auto simp: select_Some_iff)
  have in_pos: "i < d \<Longrightarrow> m ! i \<Longrightarrow> (i, credits ! i) \<in> set (take k ?s)" for i
    using selected_nth [OF assms] set_positive [of credits] set_take_subset [of k ?s]
    by (fastforce simp: sort_credits_set)
  have pos: "i < d \<Longrightarrow> m ! i \<Longrightarrow> flt (Fin 0) (credits ! i)" for i
    using in_pos [of i] set_take_subset [of k ?s] by (auto simp: sort_credits_set set_positive)
  moreover have "flt (credits ! j) (credits ! i) \<or> (\<not> flt (credits ! i) (credits ! j) \<and> i < j)"
    if i: "i < d" "m ! i" and j: "j < d" "\<not> m ! j" for i j
  proof (cases "flt (Fin 0) (credits ! j)")
    case True
    have "(j, credits ! j) \<notin> set (take k ?s)" using selected_nth [OF assms j(1)] j(2) by force
    moreover have "(j, credits ! j) \<in> set ?s"
      using True j fin by (auto simp: sort_credits_set set_positive)
    ultimately have "(j, credits ! j) \<in> set (drop k ?s)"
      by (metis Un_iff append_take_drop_id set_append)
    then have "credit_before (i, credits ! i) (j, credits ! j)"
      using take_drop_before [OF sort_credits_sorted in_pos [OF i]] fin(1)
      by (auto simp: set_positive)
    then show ?thesis using i j by (auto simp: credit_before_def le_less split: if_splits)
  next
    case False
    then have "flt (credits ! j) (credits ! i)"
      using pos [OF i] fin j i by (auto simp: flt_finite)
    then show ?thesis by simp
  qed
  moreover have "length (positive_credits credits) = length (filter (flt (Fin 0)) credits)"
  proof -
    have "map snd (positive_credits credits) = filter (flt (Fin 0)) credits"
      by (simp add: positive_credits_def case_prod_beta' filter_map [of "flt (Fin 0)" snd, unfolded comp_def, symmetric])
    then show ?thesis by (metis length_map)
  qed
  ultimately show ?thesis
    using selected_length [OF assms] selected_count [OF assms] by auto
qed

theorem top_k_mask_is_best_witness:
  "select_positive_credit_top_k_mask [Fin 0, Fin 10, Fin 5, Fin 5] 4 2 = Ok (Some [False, True, True, False]) \<and>
   length (true_indices [False, True, True, False]) =
     min 2 (length (filter (flt (Fin 0)) [Fin 0, Fin 10, Fin 5, Fin 5]))"
proof -
  have "select_positive_credit_top_k_mask [Fin 0, Fin 10, Fin 5, Fin 5] 4 2 = Ok (Some [False, True, True, False])"
    by code_simp
  then show ?thesis using top_k_mask_is_best by blast
qed

text \<open>Normalising a credit vector keeps its length and yields entries in the unit interval; the vector
  is credit driven exactly when some credit is positive, and the equal simplex otherwise.\<close>

theorem normalize_credit_correct:
  assumes "\<forall>c \<in> set credits. wf64 c" "normalize_credit_or_equal_simplex credits = Ok (v, positive, s)"
  shows "length v = length credits \<and> (\<forall>x \<in> set v. fle (Fin 0) x \<and> fle x (Fin 1)) \<and>
    (positive \<longleftrightarrow> (\<exists>c \<in> set credits. flt (Fin 0) c)) \<and>
    (\<not> positive \<longrightarrow> v = equal_simplex (length credits) \<and> s = Fin 0)"
proof (cases "credits = []")
  case True
  then show ?thesis using assms by (simp add: normalize_credit_or_equal_simplex_def equal_simplex_def)
next
  case False
  then have ok: "\<forall>c \<in> set credits. is_finite c \<and> fle (Fin 0) c" and
    split: "(if flt (Fin 0) (positive_sum credits)
       then (map (\<lambda>c. fdiv c (positive_sum credits)) credits, True, positive_sum credits)
       else (equal_simplex (length credits), False, Fin 0)) = (v, positive, s)"
    using assms(2) by (auto simp: normalize_credit_or_equal_simplex_def bindR_Ok_iff check_credits_Ok_iff'
        Let_def split: if_splits)
  have "fle (Fin 0) (fdiv c (positive_sum credits)) \<and> fle (fdiv c (positive_sum credits)) (Fin 1)"
    if "c \<in> set credits" "flt (Fin 0) (positive_sum credits)" for c
  proof (cases "flt (Fin 0) c")
    case True
    then show ?thesis
      using that ok positive_sum_ge [OF that(1) assms(1)] by (auto intro!: fdiv_nonneg fdiv_le_1)
  next
    case False
    then have "fle c (Fin 0)" using ok that(1) by (simp add: flt_finite fle_finite)
    then have "fle c (positive_sum credits)" using that(2) fle_flt_trans flt_imp_fle by blast
    then show ?thesis using that ok by (auto intro!: fdiv_nonneg fdiv_le_1)
  qed
  then show ?thesis using split positive_sum_pos_iff [OF assms(1)] equal_simplex_unit
    by (auto split: if_splits)
qed

theorem normalize_credit_correct_witness:
  "normalize_credit_or_equal_simplex [Fin 2, Fin 1, Fin 1] = Ok ([Fin (1/2), Fin (1/4), Fin (1/4)], True, Fin 4) \<and>
   fle (Fin (1/4)) (Fin 1)"
proof -
  have "normalize_credit_or_equal_simplex [Fin 2, Fin 1, Fin 1] =
      Ok ([Fin (1/2), Fin (1/4), Fin (1/4)], True, Fin 4)" by code_simp
  moreover have "\<forall>c \<in> set [Fin 2, Fin 1, Fin 1]. wf64 c" by code_simp
  ultimately show ?thesis using normalize_credit_correct by (metis list.set_intros(1) list.set_intros(2))
qed

end
