(* ===== verification/Features_Map.thy ===== *)
theory Features_Map
  imports Mask_Selection
begin

text \<open>
  Schema, mask, feature map and candidate loading (\<open>feature_sched/features_map.rs\<close>). Reading and
  decoding a file is an argument: the outcome of opening, reading and JSON decoding it. Strings are
  ASCII. A JSON object is the list of its members in the order a hash map yields them. Shown: what a
  loaded schema, mask, feature map or candidate list guarantees, the simplex normalisation, and the
  combination of the feature matrix into one non-negative weight per site.
\<close>

section \<open>Files, strings and paths\<close>

datatype 'a file_result = NoFile | OpenError | ReadError | JsonError | Parsed 'a

definition is_ws :: "char \<Rightarrow> bool" where
  "is_ws c = (c \<in> {CHR '' '', CHR 0x09, CHR 0x0A, CHR 0x0B, CHR 0x0C, CHR 0x0D})"

definition trim :: "string \<Rightarrow> string" where
  "trim s = rev (dropWhile is_ws (rev (dropWhile is_ws s)))"

text \<open>\<open>str::split(',')\<close>: always at least one piece.\<close>

fun split_on :: "char \<Rightarrow> string \<Rightarrow> string list" where
  "split_on c [] = [[]]"
| "split_on c (x # xs) = (if x = c then [] # split_on c xs
     else (case split_on c xs of [] \<Rightarrow> [[x]] | p # ps \<Rightarrow> (x # p) # ps))"

definition digit_val :: "char \<Rightarrow> nat option" where
  "digit_val c = (let n = of_char c :: nat in if 48 \<le> n \<and> n \<le> 57 then Some (n - 48) else None)"

fun parse_digits :: "nat \<Rightarrow> string \<Rightarrow> nat option" where
  "parse_digits acc [] = Some acc"
| "parse_digits acc (c # cs) = (case digit_val c of None \<Rightarrow> None
     | Some d \<Rightarrow> if 255 < acc * 10 + d then None else parse_digits (acc * 10 + d) cs)"

text \<open>\<open>str::parse::<u8>\<close>: an optional plus sign, at least one digit, no overflow.\<close>

definition parse_u8 :: "string \<Rightarrow> nat option" where
  "parse_u8 s = (let ds = (case s of c # cs \<Rightarrow> if c = CHR ''+'' then cs else s | [] \<Rightarrow> s)
     in if ds = [] then None else parse_digits 0 ds)"

definition path_parent :: "path \<Rightarrow> path option" where
  "path_parent p = (if p = [] \<or> last p = RootDir then None else Some (butlast p))"

definition path_file_name :: "path \<Rightarrow> string option" where
  "path_file_name p = (if p = [] then None else case last p of Normal n \<Rightarrow> Some n | _ \<Rightarrow> None)"

text \<open>\<open>Path::file_stem\<close>: the name up to its last dot, unless the dot is its first character.\<close>

definition path_file_stem :: "path \<Rightarrow> string option" where
  "path_file_stem p = map_option (\<lambda>n.
     let ext = rev (takeWhile (\<lambda>c. c \<noteq> CHR ''.'') (rev n));
         stem = take (length n - length ext - 1) n
     in if CHR ''.'' \<notin> set n \<or> stem = [] then n else stem) (path_file_name p)"

text \<open>\<open>str::find\<close>: the first position at which the needle occurs.\<close>

fun str_find :: "string \<Rightarrow> string \<Rightarrow> nat option" where
  "str_find needle [] = (if needle = [] then Some 0 else None)"
| "str_find needle (c # cs) = (if take (length needle) (c # cs) = needle then Some 0
     else map_option Suc (str_find needle cs))"

section \<open>Schema and mask\<close>

definition EPS :: f64 where "EPS = f_lit 0.000001"

definition LEGACY_KEYS :: "string list" where
  "LEGACY_KEYS = [''imme'', ''strc'', ''mem'', ''arith'', ''indeg'', ''offsp'', ''btw'', ''depth'']"

lemma EPS_code [code]: "EPS = Fin (4722366482869645 / 4722366482869645213696)"
  unfolding EPS_def by code_simp

datatype candidate_file_policy = AllowExternalFile | IgnoreExternalFile

record candidate_file_status =
  cs_path :: "path option"
  cs_loaded :: bool

record feature_map_load_result =
  lr_feats :: "f64 list"
  lr_matrix :: "(string, f64 list) mapping"
  lr_status :: candidate_file_status

fun check_unique :: "string set \<Rightarrow> string set \<Rightarrow> feature_spec list \<Rightarrow> schema_msg + unit" where
  "check_unique seen_ids names [] = Ok ()"
| "check_unique seen_ids names (f # fs) =
     (if fs_id f \<in> seen_ids then Err (DuplicateId (fs_id f))
      else if fs_name f \<in> names then Err (DuplicateName (fs_name f))
      else check_unique (insert (fs_id f) seen_ids) (insert (fs_name f) names) fs)"

fun check_aliases_of :: "string set \<Rightarrow> feature_spec \<Rightarrow> string list \<Rightarrow> schema_msg + unit" where
  "check_aliases_of canon f [] = Ok ()"
| "check_aliases_of canon f (a # as) =
     (if a \<in> canon \<and> a \<noteq> fs_name f then Err (AliasCollision a (fs_id f)) else check_aliases_of canon f as)"

fun check_aliases :: "string set \<Rightarrow> feature_spec list \<Rightarrow> schema_msg + unit" where
  "check_aliases canon [] = Ok ()"
| "check_aliases canon (f # fs) = bindR
     (case fs_aliases f of None \<Rightarrow> Ok () | Some as \<Rightarrow> check_aliases_of canon f as)
     (\<lambda>_. check_aliases canon fs)"

definition load_and_validate_schema ::
  "feature_schema_file file_result \<Rightarrow> schema_msg + feature_schema_file" where
  "load_and_validate_schema file = (case file of
     NoFile \<Rightarrow> Err SchemaMissing | OpenError \<Rightarrow> Err SchemaMissing | ReadError \<Rightarrow> Err SchemaUnreadable
   | JsonError \<Rightarrow> Err SchemaBadJson
   | Parsed schema \<Rightarrow>
       if fsf_version schema \<noteq> 4 then Err (SchemaVersion (fsf_version schema))
       else if fsf_features schema = [] then Err SchemaEmpty
       else bindR (check_unique {} {} (fsf_features schema)) (\<lambda>_.
         bindR (check_aliases (set (map fs_name (fsf_features schema))) (fsf_features schema)) (\<lambda>_.
           Ok schema)))"

definition parse_mask_values :: "string \<Rightarrow> mask_msg + nat list" where
  "parse_mask_values trimmed =
     (if trimmed \<noteq> [] \<and> hd trimmed = CHR ''['' \<and> last trimmed = CHR '']''
      then map_result (\<lambda>p. case parse_u8 (trim p) of Some v \<Rightarrow> Ok v | None \<Rightarrow> Err NonBinary)
             (split_on (CHR '','') (butlast (tl trimmed)))
      else if CHR '','' \<in> set trimmed
      then map_result (\<lambda>p. case parse_u8 (trim p) of Some v \<Rightarrow> Ok v | None \<Rightarrow> Err NonBinary)
             (split_on (CHR '','') trimmed)
      else map_result (\<lambda>c. if c = CHR ''0'' then Ok 0 else if c = CHR ''1'' then Ok 1
             else Err (NonBinaryChar c)) trimmed)"

definition parse_vec_mask :: "string \<Rightarrow> nat \<Rightarrow> mask_msg + bool list" where
  "parse_vec_mask raw schema_len = bindR (parse_mask_values (trim raw)) (\<lambda>values.
     if list_ex (\<lambda>v. 1 < v) values then Err NonBinary
     else if length values \<noteq> schema_len then Err (MaskLength (length values) schema_len)
     else let m = map (\<lambda>v. v = 1) values in
       if list_all Not m then Err MaskAllZero else Ok m)"

definition compute_active_features :: "feature_schema_file \<Rightarrow> bool list \<Rightarrow> feature_spec list" where
  "compute_active_features schema m = masked (fsf_features schema) m"

section \<open>The feature map\<close>

text \<open>A decoded JSON value; \<open>as_f64\<close> succeeds on numbers only.\<close>

datatype json = JNull | JBool bool | JNumber f64 | JString string | JArray "json list"
  | JObject "(string \<times> json) list"

fun as_f64 :: "json \<Rightarrow> f64 option" where
  "as_f64 (JNumber x) = Some x"
| "as_f64 _ = None"

definition allowed_keys :: "feature_spec list \<Rightarrow> string set" where
  "allowed_keys fs = set (map fs_name fs) \<union> (\<Union>f \<in> set fs. set (case fs_aliases f of Some as \<Rightarrow> as | None \<Rightarrow> []))"

fun check_keys :: "string set \<Rightarrow> string list \<Rightarrow> map_msg + unit" where
  "check_keys allowed [] = Ok ()"
| "check_keys allowed (k # ks) = (if k \<in> set LEGACY_KEYS then Err (MapLegacyKey k)
     else if k \<notin> allowed then Err (MapUnknownKey k) else check_keys allowed ks)"

definition resolve_key :: "(string \<times> json) list \<Rightarrow> feature_spec \<Rightarrow> string option" where
  "resolve_key m spec = (if map_of m (fs_name spec) \<noteq> None then Some (fs_name spec)
     else case fs_aliases spec of Some as \<Rightarrow> find (\<lambda>a. map_of m a \<noteq> None) as | None \<Rightarrow> None)"

fun read_numbers :: "feature_spec \<Rightarrow> nat \<Rightarrow> json list \<Rightarrow> map_msg + f64 list" where
  "read_numbers spec i [] = Ok []"
| "read_numbers spec i (v # vs) = (case as_f64 v of
     None \<Rightarrow> Err (MapNonNumeric (fs_id spec) (fs_name spec) i)
   | Some x \<Rightarrow> bindR (read_numbers spec (Suc i) vs) (\<lambda>xs. Ok (x # xs)))"

fun check_values :: "feature_spec \<Rightarrow> nat \<Rightarrow> f64 list \<Rightarrow> map_msg + unit" where
  "check_values spec i [] = Ok ()"
| "check_values spec i (v # vs) =
     (if \<not> is_finite v then Err (MapNonFinite (fs_id spec) (fs_name spec) i)
      else if flt v (Fin 0) then Err (MapNegative (fs_id spec) (fs_name spec) i)
      else if flt (fadd (Fin 1) EPS) v then Err (MapExceeds (fs_id spec) (fs_name spec) i)
      else check_values spec (Suc i) vs)"

definition read_feature :: "(string \<times> json) list \<Rightarrow> feature_spec \<Rightarrow> map_msg + f64 list" where
  "read_feature m spec = (case resolve_key m spec of
     None \<Rightarrow> Err (MapMissing (fs_id spec) (fs_name spec))
   | Some key \<Rightarrow> bindR (case map_of m key of
         Some (JArray a) \<Rightarrow> read_numbers spec 0 a
       | _ \<Rightarrow> Err (MapNotArray (fs_id spec) (fs_name spec)))
       (\<lambda>arr. bindR (check_values spec 0 arr) (\<lambda>_. Ok arr)))"

fun read_features :: "(string \<times> json) list \<Rightarrow> feature_spec list \<Rightarrow> nat option \<Rightarrow>
    (string, f64 list) mapping \<Rightarrow> map_msg + ((string, f64 list) mapping \<times> nat option)" where
  "read_features m [] expected res = Ok (res, expected)"
| "read_features m (spec # specs) expected res = bindR (read_feature m spec) (\<lambda>arr.
     case expected of
       Some el \<Rightarrow> if length arr \<noteq> el
         then Err (MapLength (fs_id spec) (fs_name spec) (length arr) el)
         else read_features m specs expected (Mapping.update (fs_name spec) arr res)
     | None \<Rightarrow> read_features m specs (Some (length arr)) (Mapping.update (fs_name spec) arr res))"

definition load_and_validate_feature_map ::
  "(string \<times> json) list file_result \<Rightarrow> feature_schema_file \<Rightarrow> nat \<Rightarrow> map_msg + (string, f64 list) mapping" where
  "load_and_validate_feature_map file schema sancov_sites = (case file of
     NoFile \<Rightarrow> Err MapOpen | OpenError \<Rightarrow> Err MapOpen | ReadError \<Rightarrow> Err MapRead | JsonError \<Rightarrow> Err MapBadJson
   | Parsed m \<Rightarrow>
       if map_of m ''features'' \<noteq> None then Err MapLegacyFormat
       else bindR (check_keys (allowed_keys (fsf_features schema)) (map fst m)) (\<lambda>_.
         bindR (read_features m (fsf_features schema) None Mapping.empty) (\<lambda>(res, expected).
           case expected of
             Some el \<Rightarrow> if el \<noteq> sancov_sites then Err (MapSites el sancov_sites) else Ok res
           | None \<Rightarrow> Ok res)))"

section \<open>Simplex vectors and candidates\<close>

fun simplex_loop :: "f64 list \<Rightarrow> f64 \<Rightarrow> f64 list \<Rightarrow> vector_msg + (f64 list \<times> f64)" where
  "simplex_loop [] acc out = Ok (out, acc)"
| "simplex_loop (x # xs) acc out =
     (if \<not> is_finite x then Err NonFiniteWeight
      else if flt x (Fin 0) then Err NegativeWeight
      else let y = fadd x EPS in simplex_loop xs (fadd acc y) (out @ [y]))"

definition normalize_simplex_eps :: "f64 list \<Rightarrow> vector_msg + f64 list" where
  "normalize_simplex_eps v = (if v = [] then Ok []
     else bindR (simplex_loop v (Fin 0) []) (\<lambda>(out, acc).
       if \<not> is_finite acc \<or> fle acc EPS then Err ZeroDenominator
       else Ok (map (\<lambda>x. fdiv x acc) out)))"

definition derive_dir_and_target :: "path \<Rightarrow> (path \<times> string) option" where
  "derive_dir_and_target p = Option.bind (path_parent p) (\<lambda>dir.
     Option.bind (path_file_name p) (\<lambda>file.
       case str_find ''_features_map'' file of
         Some i \<Rightarrow> Some (dir, take i file)
       | None \<Rightarrow> Option.bind (path_file_stem p) (\<lambda>stem. Some (dir, stem))))"

fun check_candidate :: "nat \<Rightarrow> nat \<Rightarrow> f64 list \<Rightarrow> vector_msg + unit" where
  "check_candidate i j [] = Ok ()"
| "check_candidate i j (v # vs) = (if \<not> is_finite v then Err (CandNonFinite i j)
     else if flt v (Fin 0) then Err (CandNegative i j) else check_candidate i (Suc j) vs)"

fun load_candidate_list :: "nat \<Rightarrow> nat \<Rightarrow> f64 list list \<Rightarrow> vector_msg + f64 list list" where
  "load_candidate_list d i [] = Ok []"
| "load_candidate_list d i (c # cs) =
     (if length c \<noteq> d then Err (CandFormat i (length c) d)
      else bindR (check_candidate i 0 c) (\<lambda>_. bindR (normalize_simplex_eps c) (\<lambda>n.
        bindR (load_candidate_list d (Suc i) cs) (\<lambda>ns. Ok (n # ns)))))"

definition load_candidates_from :: "f64 list list file_result \<Rightarrow> nat \<Rightarrow> vector_msg + f64 list list" where
  "load_candidates_from file active_dim = (case file of
     NoFile \<Rightarrow> Err CandOpen | OpenError \<Rightarrow> Err CandOpen | ReadError \<Rightarrow> Err CandRead | JsonError \<Rightarrow> Err CandBadJson
   | Parsed arr \<Rightarrow> if arr = [] then Err CandEmpty else load_candidate_list active_dim 0 arr)"

definition candidate_path_for :: "path \<Rightarrow> path option" where
  "candidate_path_for p =
     map_option (\<lambda>(dir, tgt). dir @ [Normal (tgt @ ''_v_candidates.json'')]) (derive_dir_and_target p)"

definition ensure_v_candidates_for ::
  "(path \<Rightarrow> f64 list list file_result) \<Rightarrow> fuzz_state \<Rightarrow> path \<Rightarrow> nat \<Rightarrow> candidate_file_policy \<Rightarrow>
    vector_msg + (fuzz_state \<times> candidate_file_status)" where
  "ensure_v_candidates_for fs s map_path active_dim policy =
     (let candidate_path = candidate_path_for map_path in
      if policy = IgnoreExternalFile then Ok (s, \<lparr>cs_path = candidate_path, cs_loaded = False\<rparr>)
      else if get_v_candidates s \<noteq> [] then Ok (s, \<lparr>cs_path = candidate_path, cs_loaded = False\<rparr>)
      else case candidate_path of
        None \<Rightarrow> Ok (replace_v_candidates [] s, \<lparr>cs_path = None, cs_loaded = False\<rparr>)
      | Some p \<Rightarrow>
          if fs p \<noteq> NoFile
          then bindR (map_err CandInvalid (load_candidates_from (fs p) active_dim)) (\<lambda>cands.
            Ok (replace_v_candidates cands s, \<lparr>cs_path = Some p, cs_loaded = True\<rparr>))
          else Ok (replace_v_candidates [] s, \<lparr>cs_path = Some p, cs_loaded = False\<rparr>))"

section \<open>Combining the feature matrix\<close>

definition feature_value :: "(string, f64 list) mapping \<Rightarrow> nat \<Rightarrow> string \<Rightarrow> f64" where
  "feature_value m i name = (case Mapping.lookup m name of Some arr \<Rightarrow> get_or (Fin 0) arr i | None \<Rightarrow> Fin 0)"

text \<open>The inner loop: add the weighted positive values of one site.\<close>

fun site_total :: "(string, f64 list) mapping \<Rightarrow> nat \<Rightarrow> f64 \<Rightarrow> string list \<Rightarrow> f64 list \<Rightarrow> f64" where
  "site_total m i acc (name # names) (w # ws) =
     (let v = feature_value m i name in
      site_total m i (if is_finite v \<and> flt (Fin 0) v then fadd acc (fmul w v) else acc) names ws)"
| "site_total m i acc _ _ = acc"

definition expected_length :: "(string, f64 list) mapping \<Rightarrow> string list \<Rightarrow> nat" where
  "expected_length m names =
     (case find (\<lambda>n. Mapping.lookup m n \<noteq> None) names of
        Some n \<Rightarrow> (case Mapping.lookup m n of Some arr \<Rightarrow> length arr | None \<Rightarrow> 0)
      | None \<Rightarrow> 0)"

definition combine_feature_matrix_to_weights ::
  "(string, f64 list) mapping \<Rightarrow> f64 list \<Rightarrow> string list \<Rightarrow> f64 list" where
  "combine_feature_matrix_to_weights m v_in names =
     (let d = length names in
      if d = 0 then []
      else
        let weights = (if length v_in = d
              then (case normalize_simplex_eps v_in of Inr w \<Rightarrow> w | Inl _ \<Rightarrow> equal_simplex d)
              else equal_simplex d)
        in map (\<lambda>i. let acc = site_total m i (Fin 0) names weights in
                 if is_finite acc then fmax acc (Fin 0) else Fin 0)
             [0..<expected_length m names])"

definition filter_active_features ::
  "(string, f64 list) mapping \<Rightarrow> string list \<Rightarrow> (string, f64 list) mapping" where
  "filter_active_features full names = fold (\<lambda>n acc. case Mapping.lookup full n of
     Some arr \<Rightarrow> Mapping.update n arr acc | None \<Rightarrow> acc) names Mapping.empty"

definition load_and_align_features_map ::
  "(path \<Rightarrow> f64 list list file_result) \<Rightarrow> fuzz_state \<Rightarrow> (string, f64 list) mapping \<Rightarrow> nat \<Rightarrow> nat \<Rightarrow>
    string list \<Rightarrow> path \<Rightarrow> candidate_file_policy \<Rightarrow> vector_msg + (fuzz_state \<times> feature_map_load_result)" where
  "load_and_align_features_map fs s canonical_map sites active_dim names map_path policy =
     bindR (ensure_v_candidates_for fs s map_path active_dim policy) (\<lambda>(s1, status).
       let v0 = (case get_v_candidates s1 of c # _ \<Rightarrow> c | [] \<Rightarrow> equal_simplex active_dim);
           active_map = filter_active_features canonical_map names;
           feats = combine_feature_matrix_to_weights active_map v0 names;
           s2 = set_current_weight_vec [] (set_tpe_satisfied (0 < active_dim) s1)
       in Ok (s2, \<lparr>lr_feats = resize sites (Fin 0) feats, lr_matrix = active_map, lr_status = status\<rparr>))"

definition install_committed_runtime_mask ::
  "fuzz_state \<Rightarrow> feature_schema_file \<Rightarrow> bool list \<Rightarrow> error + fuzz_state" where
  "install_committed_runtime_mask s schema m =
     (if length m \<noteq> length (fsf_features schema)
      then Err (IllegalArgument (MaskMsg (CommittedLength (length m) (length (fsf_features schema)))))
      else if list_all Not m then Err (IllegalArgument (MaskMsg CommittedAllZero))
      else
        let active = compute_active_features schema m;
            names = map fs_name active;
            s1 = set_schema_info (fsf_version schema) (fsf_features schema) m active s;
            s2 = (case m_matrix s1 of
                    Some mm \<Rightarrow> s1\<lparr>m_matrix := Some (mm\<lparr>fm_matrix := filter_active_features (fm_matrix mm) names\<rparr>)\<rparr>
                  | None \<Rightarrow> s1)
        in Ok (set_tpe_satisfied (names \<noteq> []) (set_current_weight_vec [] (replace_v_candidates [] s2))))"

definition apply_v_to_features :: "fuzz_state \<Rightarrow> f64 list \<Rightarrow> u64 \<Rightarrow> error + fuzz_state" where
  "apply_v_to_features s v iteration =
     (let d = get_active_dim s; names = get_active_feature_names s in
      if length v \<noteq> d then Err (IllegalArgument (VectorMsg (WeightLength (length v) d)))
      else bindR (map_err (\<lambda>e. IllegalArgument (VectorMsg e)) (normalize_simplex_eps v)) (\<lambda>w.
        let (feats, sites) = (case m_matrix s of
              Some mm \<Rightarrow> (combine_feature_matrix_to_weights (fm_matrix mm) w names, fm_sites mm)
            | None \<Rightarrow> (let f = (case m_feats s of Some f \<Rightarrow> f | None \<Rightarrow> []) in (f, length f)));
            s1 = s\<lparr>m_feats := Some (resize sites (Fin 0) feats)\<rparr>;
            s2 = s1\<lparr>m_vector := Some \<lparr>fv_iteration = iteration, simplex_weights = w\<rparr>\<rparr>
        in Ok (set_current_weight_vec w s2)))"

section \<open>Schema and mask lemmas\<close>

lemma check_unique_Ok_iff:
  "check_unique seen_ids names fs = Ok u \<longleftrightarrow> distinct (map fs_id fs) \<and> distinct (map fs_name fs) \<and>
     fs_id ` set fs \<inter> seen_ids = {} \<and> fs_name ` set fs \<inter> names = {}"
  by (induction fs arbitrary: seen_ids names) auto

lemma check_aliases_of_Ok_iff:
  "check_aliases_of canon f as = Ok u \<longleftrightarrow> (\<forall>a \<in> set as. a \<in> canon \<longrightarrow> a = fs_name f)"
  by (induction as) auto

lemma check_aliases_Ok_iff:
  "check_aliases canon fs = Ok u \<longleftrightarrow>
     (\<forall>f \<in> set fs. \<forall>as. fs_aliases f = Some as \<longrightarrow> (\<forall>a \<in> set as. a \<in> canon \<longrightarrow> a = fs_name f))"
  by (induction fs) (auto simp: bindR_Ok_iff check_aliases_of_Ok_iff split: option.splits)

definition valid_schema :: "feature_schema_file \<Rightarrow> bool" where
  "valid_schema schema \<longleftrightarrow> fsf_version schema = 4 \<and> fsf_features schema \<noteq> [] \<and>
     distinct (map fs_id (fsf_features schema)) \<and> distinct (map fs_name (fsf_features schema)) \<and>
     (\<forall>f \<in> set (fsf_features schema). \<forall>as. fs_aliases f = Some as \<longrightarrow>
        (\<forall>a \<in> set as. a \<in> fs_name ` set (fsf_features schema) \<longrightarrow> a = fs_name f))"

lemma load_schema_Ok_iff:
  "load_and_validate_schema r = Ok schema \<longleftrightarrow> r = Parsed schema \<and> valid_schema schema"
  by (cases r) (auto simp: load_and_validate_schema_def valid_schema_def bindR_Ok_iff
      check_unique_Ok_iff check_aliases_Ok_iff)

lemma trim_id: "(\<forall>c \<in> set s. \<not> is_ws c) \<Longrightarrow> trim s = s"
proof -
  assume "\<forall>c \<in> set s. \<not> is_ws c"
  then have "dropWhile is_ws s = s" "dropWhile is_ws (rev s) = rev s"
    using hd_in_set [of s] hd_in_set [of "rev s"] by (auto simp: dropWhile_eq_self_iff simp del: hd_in_set)
  then show ?thesis by (simp add: trim_def)
qed

lemma bitstring_chars: "set (mask_to_bitstring m) \<subseteq> {CHR ''0'', CHR ''1''}"
  by (auto simp: mask_to_bitstring_def)

lemma bitstring_values:
  "map_result (\<lambda>c. if c = CHR ''0'' then Ok 0 else if c = CHR ''1'' then Ok (1::nat) else Err (NonBinaryChar c))
     (mask_to_bitstring m) = Ok (map (\<lambda>b. if b then 1 else 0) m)"
  by (induction m) (auto simp: mask_to_bitstring_def)

lemma parse_bitstring_values:
  "parse_mask_values (mask_to_bitstring m) = Ok (map (\<lambda>b. if b then 1 else 0) m)"
proof -
  have "CHR '','' \<notin> set (mask_to_bitstring m)" using bitstring_chars [of m] by auto
  moreover have "\<not> (mask_to_bitstring m \<noteq> [] \<and> hd (mask_to_bitstring m) = CHR ''['')"
    using bitstring_chars [of m] hd_in_set [of "mask_to_bitstring m"] by fastforce
  ultimately show ?thesis unfolding parse_mask_values_def by (auto simp: bitstring_values)
qed

lemma trim_bitstring: "trim (mask_to_bitstring m) = mask_to_bitstring m"
  using bitstring_chars [of m] by (intro trim_id) (auto simp: is_ws_def)

lemma parse_vec_mask_bitstring:
  "parse_vec_mask (mask_to_bitstring m) n =
     (if length m \<noteq> n then Err (MaskLength (length m) n)
      else if True \<notin> set m then Err MaskAllZero else Ok m)"
proof -
  have 1: "map (\<lambda>v. v = Suc 0) (map (\<lambda>b. if b then 1 else 0) m) = m" by (induction m) auto
  have 2: "list_all Not m \<longleftrightarrow> True \<notin> set m" by (auto simp: list_all_iff)
  have 3: "\<not> list_ex (\<lambda>v. Suc 0 < v) (map (\<lambda>b. if b then 1 else 0) m)" by (auto simp: list_ex_iff)
  show ?thesis unfolding parse_vec_mask_def trim_bitstring parse_bitstring_values
    using 1 2 3 by (simp add: Let_def)
qed

lemma parse_vec_mask_Ok: "parse_vec_mask raw n = Ok m \<Longrightarrow> length m = n \<and> True \<in> set m"
  by (auto simp: parse_vec_mask_def bindR_Ok_iff Let_def list_all_iff split: if_splits)

lemma parse_mask_values_len1: "length (mask_to_bitstring m) = length m"
  by (simp add: mask_to_bitstring_def)

lemma active_features_nonempty:
  "length m = length (fsf_features schema) \<Longrightarrow> True \<in> set m \<Longrightarrow> compute_active_features schema m \<noteq> []"
  by (simp add: compute_active_features_def masked_Nil_iff)

section \<open>Feature map lemmas\<close>

lemma check_keys_Ok_iff:
  "check_keys allowed ks = Ok u \<longleftrightarrow> (\<forall>k \<in> set ks. k \<notin> set LEGACY_KEYS \<and> k \<in> allowed)"
  by (induction ks) auto

lemma check_values_Ok_iff:
  "check_values spec i vs = Ok u \<longleftrightarrow>
     (\<forall>v \<in> set vs. is_finite v \<and> \<not> flt v (Fin 0) \<and> \<not> flt (fadd (Fin 1) EPS) v)"
  by (induction vs arbitrary: i) auto

definition feature_values_ok :: "f64 list \<Rightarrow> bool" where
  "feature_values_ok arr = list_all (\<lambda>v. is_finite v \<and> \<not> flt v (Fin 0) \<and> \<not> flt (fadd (Fin 1) EPS) v) arr"

lemma read_feature_Ok: "read_feature m spec = Ok arr \<Longrightarrow> feature_values_ok arr"
  by (auto simp: read_feature_def feature_values_ok_def list_all_iff bindR_Ok_iff check_values_Ok_iff
      split: option.splits json.splits)

lemma read_features_Ok:
  assumes "read_features m specs expected res = Ok (res', expected')"
    "distinct (map fs_name specs)"
  shows "(\<forall>spec \<in> set specs. \<exists>arr. Mapping.lookup res' (fs_name spec) = Some arr \<and>
        read_feature m spec = Ok arr \<and> expected' = Some (length arr)) \<and>
     (\<forall>n. n \<notin> fs_name ` set specs \<longrightarrow> Mapping.lookup res' n = Mapping.lookup res n) \<and>
     (\<forall>el. expected = Some el \<longrightarrow> expected' = Some el)"
  using assms
proof (induction specs arbitrary: expected res)
  case (Cons spec specs)
  obtain arr where arr: "read_feature m spec = Ok arr" using Cons.prems by auto
  let ?res = "Mapping.update (fs_name spec) arr res"
  have exp: "expected = None \<or> expected = Some (length arr)" and
    rest: "read_features m specs (Some (length arr)) ?res = Ok (res', expected')"
    using Cons.prems(1) arr by (auto split: option.splits if_splits)
  note IH = Cons.IH [OF rest]
  have "fs_name spec \<notin> fs_name ` set specs" "distinct (map fs_name specs)" using Cons.prems(2) by auto
  with IH arr exp show ?case by (auto simp: lookup_update')
qed simp

definition valid_feature_map ::
  "feature_schema_file \<Rightarrow> nat \<Rightarrow> (string, f64 list) mapping \<Rightarrow> bool" where
  "valid_feature_map schema sites res \<longleftrightarrow>
     Mapping.keys res = fs_name ` set (fsf_features schema) \<and>
     (\<forall>n \<in> Mapping.keys res. \<forall>arr. Mapping.lookup res n = Some arr \<longrightarrow>
        length arr = sites \<and> feature_values_ok arr)"

lemma load_feature_map_Ok:
  assumes "load_and_validate_feature_map r schema sites = Ok res" "valid_schema schema"
  shows "valid_feature_map schema sites res"
proof -
  obtain m expected where m: "r = Parsed m"
    and rd: "read_features m (fsf_features schema) None Mapping.empty = Ok (res, expected)"
    and ex: "\<forall>el. expected = Some el \<longrightarrow> el = sites"
    using assms(1) by (cases r) (auto simp: load_and_validate_feature_map_def bindR_Ok_iff
        split: if_splits option.splits)
  have d: "distinct (map fs_name (fsf_features schema))" using assms(2) by (simp add: valid_schema_def)
  note props = read_features_Ok [OF rd d]
  have "Mapping.keys res = fs_name ` set (fsf_features schema)"
  proof (rule set_eqI)
    fix n
    show "n \<in> Mapping.keys res \<longleftrightarrow> n \<in> fs_name ` set (fsf_features schema)"
      using props by (cases "n \<in> fs_name ` set (fsf_features schema)")
        (force simp: keys_dom_lookup lookup_empty)+
  qed
  moreover have "length arr = sites \<and> feature_values_ok arr"
    if "spec \<in> set (fsf_features schema)" "Mapping.lookup res (fs_name spec) = Some arr" for spec arr
    using props that ex read_feature_Ok by fastforce
  ultimately show ?thesis by (auto simp: valid_feature_map_def)
qed

lemma lookup_filter_active:
  "Mapping.lookup (filter_active_features full names) n =
     (if n \<in> set names then Mapping.lookup full n else None)"
proof -
  have "Mapping.lookup (fold (\<lambda>n acc. case Mapping.lookup full n of
        Some arr \<Rightarrow> Mapping.update n arr acc | None \<Rightarrow> acc) names acc) n =
      (if n \<in> set names \<and> Mapping.lookup full n \<noteq> None then Mapping.lookup full n
       else Mapping.lookup acc n)" for acc
    by (induction names arbitrary: acc) (auto simp: lookup_update' split: option.splits)
  then show ?thesis by (simp add: filter_active_features_def lookup_empty)
qed

lemma filter_active_twice:
  "set names' \<subseteq> set names \<Longrightarrow>
    Mapping.lookup (filter_active_features (filter_active_features full names) names') =
    Mapping.lookup (filter_active_features full names')"
  by (rule ext) (auto simp: lookup_filter_active)

section \<open>Simplex lemmas\<close>

lemma EPS_val: "\<exists>e. EPS = Fin e \<and> 0 < e \<and> pow2 (- 20) \<le> e \<and> rnd e = e \<and> e \<le> maxf"
proof -
  have c: "case EPS of Fin e \<Rightarrow> 0 < e \<and> pow2 (- 20) \<le> e \<and> e \<le> 1 | _ \<Rightarrow> False" by code_simp
  then obtain e where e: "EPS = Fin e" by (cases EPS) simp_all
  have "wf64 EPS" by (simp add: EPS_def f_lit_def)
  then have "rnd e = e" unfolding e by simp
  moreover have "0 < e" "pow2 (- 20) \<le> e" "e \<le> 1" using c unfolding e f64.case by blast+
  moreover have "e \<le> maxf" using \<open>e \<le> 1\<close> one_le_maxf by (rule order_trans)
  ultimately show ?thesis using e by blast
qed

lemma EPS_facts [simp]: "is_finite EPS" "wf64 EPS" "flt (Fin 0) EPS" "fle (Fin 0) EPS"
proof -
  obtain e where e: "EPS = Fin e" "0 < e" "rnd e = e" "e \<le> maxf" using EPS_val by blast
  show "is_finite EPS" "wf64 EPS" "flt (Fin 0) EPS" "fle (Fin 0) EPS" using e(2-4) by (simp_all add: e(1))
qed

lemma simplex_loop_Ok_iff:
  "simplex_loop v s out = Ok (ys, t) \<longleftrightarrow> (\<forall>x \<in> set v. is_finite x \<and> \<not> flt x (Fin 0)) \<and>
     ys = out @ map (\<lambda>x. fadd x EPS) v \<and> t = foldl fadd s (map (\<lambda>x. fadd x EPS) v)"
  by (induction v arbitrary: s out) (auto simp: Let_def)

lemma normalize_Ok_iff:
  "normalize_simplex_eps v = Ok w \<longleftrightarrow> (v = [] \<and> w = []) \<or>
     (v \<noteq> [] \<and> (\<forall>x \<in> set v. is_finite x \<and> \<not> flt x (Fin 0)) \<and>
      (let t = foldl fadd (Fin 0) (map (\<lambda>x. fadd x EPS) v) in
       is_finite t \<and> \<not> fle t EPS \<and> w = map (\<lambda>x. fdiv (fadd x EPS) t) v))"
  by (auto simp: normalize_simplex_eps_def bindR_Ok_iff simplex_loop_Ok_iff Let_def split: if_splits)

lemma fadd_EPS_ge:
  assumes "is_finite x" "\<not> flt x (Fin 0)"
  shows "fle EPS (fadd x EPS)"
proof -
  obtain e where e: "EPS = Fin e" "0 < e" "rnd e = e" "e \<le> maxf" using EPS_val by blast
  have "0 \<le> val x" using assms by (simp add: flt_finite)
  moreover have "fadd x EPS = mk64 False (val x + e)"
    using assms(1) by (cases x) (simp_all add: fadd_def e)
  moreover have "fle (Fin e) (mk64 False (val x + e))"
    using e calculation(1) by (intro mk64_ge) simp_all
  ultimately show ?thesis by (simp add: e)
qed

lemma fdiv_EPS_pos:
  assumes "fle EPS y" "is_finite y" "is_finite t" "wf64 t" "fle y t"
  shows "flt (Fin 0) (fdiv y t)"
proof -
  obtain e where e: "EPS = Fin e" "0 < e" "pow2 (- 20) \<le> e" using EPS_val by blast
  have t: "val t \<le> maxf" using assms(4) by (cases t) (auto simp: val_def)
  have y: "e \<le> val y" and yt: "val y \<le> val t" using assms by (simp_all add: e fle_finite)
  have pos: "0 < val y" "0 < val t" using y yt e by linarith+
  have "fdiv y t = mk64 False (val y / val t)"
    using pos assms(2,3) by (cases y; cases t) (auto simp: fdiv_def is_neg_def is_zero_def)
  moreover have "pow2 (- 1044) \<le> val y / val t"
  proof -
    have "pow2 (- 1044) * val t \<le> pow2 (- 1044) * pow2 1024"
      using t maxf_less_pow2 by (intro mult_left_mono) simp_all
    also have "\<dots> = pow2 (- 20)" using pow2_add [of "- 1044" 1024] by simp
    also have "\<dots> \<le> val y" using e y by linarith
    finally show ?thesis using pos by (simp add: pos_le_divide_eq)
  qed
  moreover have "wf64 (Fin (pow2 (- 1044)))"
  proof -
    have "pow2 (- 1044) \<le> 1" using pow2_mono [of "- 1044" 0] by simp
    then have "pow2 (- 1044) \<le> maxf" using one_le_maxf by (rule order_trans)
    then show ?thesis by (simp add: rnd_repr_fix repr_pow2)
  qed
  ultimately have "fle (Fin (pow2 (- 1044))) (fdiv y t)" using mk64_ge by metis
  moreover have "flt (Fin 0) (Fin (pow2 (- 1044)))" by simp
  ultimately show ?thesis using flt_fle_trans by blast
qed

lemma normalize_entries:
  assumes "normalize_simplex_eps v = Ok w"
  shows "length w = length v" "x \<in> set w \<Longrightarrow> flt (Fin 0) x \<and> fle x (Fin 1) \<and> is_finite x \<and> wf64 x"
proof -
  show "length w = length v" using assms by (auto simp: normalize_Ok_iff Let_def)
  assume x: "x \<in> set w"
  let ?t = "foldl fadd (Fin 0) (map (\<lambda>x. fadd x EPS) v)"
  obtain z where z: "z \<in> set v" "x = fdiv (fadd z EPS) ?t"
    and ok: "\<forall>x \<in> set v. is_finite x \<and> \<not> flt x (Fin 0)" "is_finite ?t"
    using assms x by (auto simp: normalize_Ok_iff Let_def)
  have ge: "fle EPS (fadd y EPS)" "fle (Fin 0) (fadd y EPS)" if "y \<in> set v" for y
    using ok that fadd_EPS_ge EPS_facts(4) fle_trans by blast+
  have le: "fle (fadd z EPS) ?t"
    by (rule foldl_fadd_ge_elem) (use ge z in \<open>auto simp del: EPS_facts\<close>)
  have fin: "is_finite (fadd z EPS)" using fle_between_finite ge z le ok(2) EPS_facts(1) by metis
  have wf: "wf64 ?t" by (rule foldl_fadd_wf) simp
  have pos: "flt (Fin 0) x" unfolding z(2) using ge(1) [OF z(1)] fin ok(2) wf le by (rule fdiv_EPS_pos)
  moreover have "flt (Fin 0) ?t" using ge(1) [OF z(1)] le EPS_facts(3) flt_fle_trans by blast
  then have le1: "fle x (Fin 1)" unfolding z(2) using ge(2) [OF z(1)] fin le by (intro fdiv_le_1)
  moreover have "is_finite x"
    using fle_between_finite [OF flt_imp_fle [OF pos] le1] by simp
  ultimately show "flt (Fin 0) x \<and> fle x (Fin 1) \<and> is_finite x \<and> wf64 x" by (simp add: z(2))
qed

lemma load_candidate_list_Ok:
  "load_candidate_list d i cs = Ok ns \<Longrightarrow> length ns = length cs \<and>
     (\<forall>n \<in> set ns. length n = d \<and> (\<forall>x \<in> set n. flt (Fin 0) x \<and> fle x (Fin 1)))"
proof (induction cs arbitrary: i ns)
  case (Cons c cs)
  then obtain n ns' where "normalize_simplex_eps c = Ok n" "load_candidate_list d (Suc i) cs = Ok ns'"
    "length c = d" "ns = n # ns'" by (auto simp: bindR_Ok_iff split: if_splits)
  then show ?case using Cons.IH normalize_entries by auto
qed simp

text \<open>What a candidate pool provides: vectors of the active dimension with entries in \<open>(0, 1]\<close>.\<close>

definition candidates_ok :: "nat \<Rightarrow> f64 list list \<Rightarrow> bool" where
  "candidates_ok d cs = list_all (\<lambda>c. length c = d \<and> list_all (\<lambda>x. flt (Fin 0) x \<and> fle x (Fin 1)) c) cs"

lemma ensure_candidates_Ok:
  assumes "ensure_v_candidates_for fs s p d policy = Ok (s', status)"
  shows "cs_loaded status \<Longrightarrow> candidates_ok d (get_v_candidates s') \<and> get_v_candidates s' \<noteq> []"
    "policy = IgnoreExternalFile \<Longrightarrow> s' = s" "get_v_candidates s \<noteq> [] \<Longrightarrow> s' = s"
    "\<not> cs_loaded status \<Longrightarrow> get_v_candidates s' = get_v_candidates s"
proof -
  have "candidates_ok d cs \<and> cs \<noteq> []" if "load_candidates_from r d = Ok cs" for r cs
    using that load_candidate_list_Ok
    by (cases r) (fastforce simp: load_candidates_from_def candidates_ok_def list_all_iff split: if_splits)+
  then show "cs_loaded status \<Longrightarrow> candidates_ok d (get_v_candidates s') \<and> get_v_candidates s' \<noteq> []"
    using assms by (auto simp: ensure_v_candidates_for_def Let_def bindR_Ok_iff replace_v_candidates_def
        getter_defs split: if_splits option.splits)
qed (use assms in \<open>auto simp: ensure_v_candidates_for_def Let_def bindR_Ok_iff replace_v_candidates_def
        getter_defs split: if_splits option.splits\<close>)

section \<open>Combination lemmas\<close>

lemma length_combine:
  "names \<noteq> [] \<Longrightarrow> length (combine_feature_matrix_to_weights m v names) = expected_length m names"
  by (simp add: combine_feature_matrix_to_weights_def Let_def)

lemma combine_entries:
  "x \<in> set (combine_feature_matrix_to_weights m v names) \<Longrightarrow> is_finite x \<and> fle (Fin 0) x"
  by (auto simp: combine_feature_matrix_to_weights_def Let_def fmax_0_nonneg split: if_splits)
    (auto simp: fmax_def)

lemma expected_length_sites:
  assumes "\<forall>n \<in> set names. \<exists>arr. Mapping.lookup m n = Some arr \<and> length arr = sites" "names \<noteq> []"
  shows "expected_length m names = sites"
proof (cases names)
  case (Cons n ns)
  then show ?thesis using assms by (auto simp: expected_length_def)
qed (use assms in simp)

lemma fle_even_nat: "k < 2 ^ 52 \<Longrightarrow> wf64 (Fin (of_nat (2 * k)))"
proof -
  assume k: "k < 2 ^ 52"
  then have "2 * k < 2 ^ 53" by simp
  then have "f_of_nat (2 * k) = Fin (of_nat (2 * k))" by (rule f_of_nat_small)
  then show ?thesis using f_of_nat_wf [of "2 * k"] by simp
qed

lemma fadd_bound:
  assumes "fle (Fin 0) a" "fle a (Fin p)" "fle (Fin 0) b" "fle b (Fin q)" "wf64 (Fin (p + q))"
  shows "fle (fadd a b) (Fin (p + q))"
proof -
  have fin: "is_finite a" "is_finite b" using assms fle_between_finite by (metis fcmp_Fin(3))+
  then have "val a + val b \<le> p + q" "0 \<le> p + q" using assms by (simp_all add: fle_finite)
  moreover from this(1) have "fle (mk64 False (val a + val b)) (Fin (p + q))" by (rule mk64_le [OF assms(5)])
  ultimately show ?thesis by (simp add: fadd_finite [OF fin] fle_finite)
qed

lemma fmul_bound:
  assumes "fle (Fin 0) w" "fle w (Fin 1)" "fle (Fin 0) v" "fle v (Fin 2)"
  shows "fle (Fin 0) (fmul w v) \<and> fle (fmul w v) (Fin 2)"
proof -
  have fin: "is_finite w" "is_finite v" using assms fle_between_finite by (metis fcmp_Fin(3))+
  then have "0 \<le> val w" "val w \<le> 1" "0 \<le> val v" "val v \<le> 2" using assms by (simp_all add: fle_finite)
  then have "val w * val v \<le> 1 * 2" by (intro mult_mono) simp_all
  moreover have "wf64 (Fin 2)" using fle_even_nat [of 1] by simp
  ultimately have "fle (mk64 b (val w * val v)) (Fin 2)" for b by (intro mk64_le) simp_all
  then show ?thesis using fin fmul_nonneg assms by (auto simp: fmul_def Let_def is_finite_def is_inf_def)
qed

lemma fle_even_mono:
  "fle a (Fin (of_nat (2 * k))) \<Longrightarrow> fle a (Fin (of_nat (2 * (k + l))))"
proof -
  have "fle (Fin (of_nat (2 * k))) (Fin (of_nat (2 * (k + l))))" by simp
  then show "fle a (Fin (of_nat (2 * k))) \<Longrightarrow> ?thesis" using fle_trans by blast
qed

lemma site_total_bound:
  assumes "\<forall>w \<in> set ws. fle (Fin 0) w \<and> fle w (Fin 1)"
    "\<forall>n \<in> set names. fle (feature_value m i n) (Fin 2)"
    "fle (Fin 0) acc" "fle acc (Fin (of_nat (2 * k)))" "k + length names < 2 ^ 52"
  shows "fle (Fin 0) (site_total m i acc names ws) \<and>
    fle (site_total m i acc names ws) (Fin (of_nat (2 * (k + length names))))"
  using assms
proof (induction m i acc names ws arbitrary: k rule: site_total.induct)
  case (1 m i acc name names w ws)
  let ?v = "feature_value m i name"
  let ?acc = "if is_finite ?v \<and> flt (Fin 0) ?v then fadd acc (fmul w ?v) else acc"
  have "fle (Fin 0) ?acc \<and> fle ?acc (Fin (of_nat (2 * Suc k)))"
  proof (cases "is_finite ?v \<and> flt (Fin 0) ?v")
    case True
    then have b: "fle (Fin 0) (fmul w ?v)" "fle (fmul w ?v) (Fin 2)"
      using 1(2,3) fmul_bound [of w ?v] flt_imp_fle by auto
    have "wf64 (Fin (of_nat (2 * k) + 2))" using fle_even_nat [of "Suc k"] 1(6) by (simp add: algebra_simps)
    then have "fle (fadd acc (fmul w ?v)) (Fin (of_nat (2 * k) + 2))" using 1(4,5) b by (intro fadd_bound)
    then show ?thesis using True fadd_nonneg [OF 1(4) b(1)] by (simp add: algebra_simps)
  next
    case False
    have "fle (Fin (of_nat (2 * k))) (Fin (of_nat (2 * Suc k)))" by simp
    then have "fle acc (Fin (of_nat (2 * Suc k)))" using 1(5) fle_trans by blast
    then show ?thesis using 1(4) by (simp only: False if_False)
  qed
  then have "fle (Fin 0) (site_total m i ?acc names ws) \<and>
      fle (site_total m i ?acc names ws) (Fin (of_nat (2 * (Suc k + length names))))"
    using 1(2,3,6) by (intro "1.IH") auto
  then show ?case by (simp add: Let_def)
qed (simp_all only: site_total.simps fle_even_mono list.size add_0_right)

lemma foldl_fadd_bound:
  assumes "\<forall>x \<in> set xs. fle (Fin 0) x \<and> fle x (Fin 2)" "fle (Fin 0) acc" "fle acc (Fin (of_nat (2 * k)))"
    "k + length xs < 2 ^ 52"
  shows "fle (foldl fadd acc xs) (Fin (of_nat (2 * (k + length xs))))"
  using assms
proof (induction xs arbitrary: acc k)
  case (Cons x xs)
  have "wf64 (Fin (of_nat (2 * k) + 2))" using fle_even_nat [of "Suc k"] Cons.prems by (simp add: algebra_simps)
  then have "fle (fadd acc x) (Fin (of_nat (2 * Suc k)))"
    using fadd_bound [of acc "of_nat (2 * k)" x 2] Cons.prems by (simp add: algebra_simps)
  moreover have "fle (Fin 0) (fadd acc x)" using Cons.prems by (intro fadd_nonneg) simp_all
  ultimately have "fle (foldl fadd (fadd acc x) xs) (Fin (of_nat (2 * (Suc k + length xs))))"
    using Cons.prems by (intro Cons.IH) simp_all
  then show ?case by simp
qed simp

lemma fadd_EPS_le_2: "fle (Fin 0) x \<Longrightarrow> fle x (Fin 1) \<Longrightarrow> fle (fadd x EPS) (Fin 2)"
proof -
  assume x: "fle (Fin 0) x" "fle x (Fin 1)"
  have "fle EPS (Fin 1)" by code_simp
  moreover have "wf64 (Fin (1 + 1))" using fle_even_nat [of 1] by simp
  ultimately have "fle (fadd x EPS) (Fin (1 + 1))" using x EPS_facts(4) by (intro fadd_bound)
  then show ?thesis by simp
qed

lemma fadd_two_EPS:
  assumes "fle EPS a" "fle EPS b" "is_finite a" "is_finite b"
  shows "flt EPS (fadd a b)"
proof -
  obtain e where e: "EPS = Fin e" "0 < e" "rnd e = e" "e \<le> maxf" "pow2 (- 20) \<le> e" using EPS_val by blast
  have "repr e" using repr_rnd [of e] e(3) by simp
  then have "rnd (2 * e) = 2 * e" by (intro rnd_repr_fix repr_double)
  moreover have "2 * e \<le> maxf"
  proof -
    have "fle EPS (Fin 1)" by code_simp
    then have "e \<le> 1" by (simp add: e(1))
    moreover have "(2 :: rat) \<le> maxf" using fle_even_nat [of 1] by simp
    ultimately show ?thesis by linarith
  qed
  ultimately have wf: "wf64 (Fin (2 * e))" using e(2) by simp
  have "2 * e \<le> val a + val b" using assms by (simp add: e(1) fle_finite)
  then have "fle (Fin (2 * e)) (mk64 False (val a + val b))" by (rule mk64_ge [OF wf])
  moreover have "flt EPS (Fin (2 * e))" using e(2) by (simp add: e(1))
  moreover have "fadd a b = mk64 False (val a + val b)"
    using assms e(2) by (auto simp: fadd_finite e(1) fle_finite)
  ultimately show ?thesis using flt_fle_trans by metis
qed

lemma normalize_total:
  assumes "2 \<le> length v" "length v < 2 ^ 52" "\<forall>x \<in> set v. fle (Fin 0) x \<and> fle x (Fin 1)"
  shows "\<exists>w. normalize_simplex_eps v = Ok w"
proof -
  let ?ys = "map (\<lambda>x. fadd x EPS) v"
  have fin: "is_finite x \<and> \<not> flt x (Fin 0)" if "x \<in> set v" for x
    using assms(3) that fle_between_finite [of "Fin 0" x "Fin 1"] by (auto simp: flt_finite fle_finite)
  have ys: "fle EPS y \<and> fle (Fin 0) y \<and> fle y (Fin 2) \<and> wf64 y" if y: "y \<in> set ?ys" for y
  proof -
    obtain x where x: "x \<in> set v" "y = fadd x EPS" using y by auto
    then have "fle EPS y" using fin fadd_EPS_ge by blast
    moreover have "fle y (Fin 2)" using x assms(3) fadd_EPS_le_2 by blast
    ultimately show ?thesis using x(2) fle_trans [OF EPS_facts(4)] by simp
  qed
  have ysfin: "is_finite y" if "y \<in> set ?ys" for y
    using ys [OF that] fle_between_finite [of "Fin 0" y "Fin 2"] by simp
  have up: "fle (foldl fadd (Fin 0) ?ys) (Fin (of_nat (2 * (0 + length ?ys))))"
    using ys assms(2) by (intro foldl_fadd_bound) simp_all
  have lo: "fle (Fin 0) (foldl fadd (Fin 0) ?ys)" using ys by (intro foldl_fadd_nonneg) simp_all
  have t: "is_finite (foldl fadd (Fin 0) ?ys)" using fle_between_finite [OF lo up] by simp
  obtain a b r where v: "v = a # b # r" using assms(1) by (cases v; cases "tl v") auto
  let ?a = "fadd (Fin 0) (fadd a EPS)" and ?b = "fadd b EPS"
  have a: "fle (fadd a EPS) ?a" "wf64 ?a" "fle (Fin 0) ?a"
    using ys [of "fadd a EPS"] v fadd_ge_both(2) [of "Fin 0" "fadd a EPS"] fadd_nonneg [of "Fin 0" "fadd a EPS"]
    by simp_all
  have "is_finite ?a"
  proof -
    have "fle ?a (Fin (0 + 2))" using ys [of "fadd a EPS"] v fle_even_nat [of 1] by (intro fadd_bound) simp_all
    then show ?thesis using a(3) fle_between_finite by (metis fcmp_Fin(3))
  qed
  then have "flt EPS (fadd ?a ?b)"
    using a ys [of "fadd a EPS"] ys [of ?b] ysfin [of ?b] v fle_trans by (intro fadd_two_EPS) auto
  moreover have "fle (fadd ?a ?b) (foldl fadd (Fin 0) ?ys)"
    using ys v fadd_nonneg [OF a(3), of ?b] by (simp add: foldl_fadd_ge_acc)
  ultimately have "flt EPS (foldl fadd (Fin 0) ?ys)" using flt_fle_trans by blast
  then have "\<not> fle (foldl fadd (Fin 0) ?ys) EPS" using flt_fle_contr by blast
  then show ?thesis using fin t v by (auto simp: normalize_Ok_iff Let_def)
qed

lemma feature_value_le_2:
  assumes "\<And>arr. Mapping.lookup m n = Some arr \<Longrightarrow> feature_values_ok arr"
  shows "fle (feature_value m i n) (Fin 2)"
proof -
  have lim: "flt (fadd (Fin 1) EPS) (Fin 2)" by code_simp
  have "fle v (Fin 2)" if "is_finite v" "\<not> flt (fadd (Fin 1) EPS) v" for v
  proof -
    have "\<not> is_nan (fadd (Fin 1) EPS)" using flt_not_nan [OF lim] by blast
    then have "fle v (fadd (Fin 1) EPS)" using that by (simp add: not_flt_fle [symmetric] finite_not_nan)
    then show ?thesis using lim fle_flt_trans flt_imp_fle by blast
  qed
  then show ?thesis using assms
    by (cases "Mapping.lookup m n") (auto simp: feature_value_def get_or_def feature_values_ok_def list_all_iff)
qed

lemma combine_weights_unit:
  "w \<in> set (case normalize_simplex_eps v of Inr w \<Rightarrow> w | Inl _ \<Rightarrow> equal_simplex d) \<Longrightarrow>
    fle (Fin 0) w \<and> fle w (Fin 1)"
  using normalize_entries(2) equal_simplex_unit flt_imp_fle by (fastforce split: sum.splits)

text \<open>On a validated matrix the accumulated total of a site is finite: the fallback to zero is never taken.\<close>

lemma combine_no_fallback:
  assumes "\<And>n arr. n \<in> set names \<Longrightarrow> Mapping.lookup m n = Some arr \<Longrightarrow> feature_values_ok arr"
    and "\<forall>w \<in> set ws. fle (Fin 0) w \<and> fle w (Fin 1)" "length names < 2 ^ 52"
  shows "is_finite (site_total m i (Fin 0) names ws)" "fle (Fin 0) (site_total m i (Fin 0) names ws)"
proof -
  have "fle (Fin 0) (site_total m i (Fin 0) names ws) \<and>
      fle (site_total m i (Fin 0) names ws) (Fin (of_nat (2 * (0 + length names))))"
    using assms feature_value_le_2 by (intro site_total_bound) auto
  then show "is_finite (site_total m i (Fin 0) names ws)" "fle (Fin 0) (site_total m i (Fin 0) names ws)"
    using fle_between_finite fcmp_Fin(3) by blast+
qed

section \<open>Effects on the state\<close>

lemma install_mask_Ok_iff:
  "is_Ok (install_committed_runtime_mask s schema m) \<longleftrightarrow>
     length m = length (fsf_features schema) \<and> True \<in> set m"
  by (auto simp: install_committed_runtime_mask_def Let_def list_all_iff)

lemma install_mask_effect:
  assumes "install_committed_runtime_mask s schema m = Ok s'"
  shows "globals s' = (globals s)\<lparr>schema_version := fsf_version schema,
      schema_features := fsf_features schema, active_feature_names := map fs_name (masked (fsf_features schema) m),
      feature_dim := length (masked (fsf_features schema) m), vec_mask := m,
      active_features := masked (fsf_features schema) m, v_candidates := [], current_v := [],
      tpe_satisfied := True\<rparr>"
    "m_vec_mask s' = m_vec_mask s" "m_history s' = m_history s" "m_tpe_iter s' = m_tpe_iter s"
    "m_explore s' = m_explore s" "st_corpus s' = st_corpus s" "m_feat_mode s' = m_feat_mode s"
proof -
  have "masked (fsf_features schema) m \<noteq> []"
    using assms by (auto simp: install_committed_runtime_mask_def Let_def list_all_iff masked_Nil_iff
        split: if_splits)
  then show "globals s' = (globals s)\<lparr>schema_version := fsf_version schema,
      schema_features := fsf_features schema, active_feature_names := map fs_name (masked (fsf_features schema) m),
      feature_dim := length (masked (fsf_features schema) m), vec_mask := m,
      active_features := masked (fsf_features schema) m, v_candidates := [], current_v := [],
      tpe_satisfied := True\<rparr>"
    using assms by (auto simp: install_committed_runtime_mask_def Let_def setter_defs
        compute_active_features_def split: if_splits option.splits)
qed (use assms in \<open>auto simp: install_committed_runtime_mask_def Let_def setter_defs
        split: if_splits option.splits\<close>)

lemma install_mask_correct_Ok:
  assumes 1: "install_committed_runtime_mask s schema m = Ok s'"
  shows "get_vec_mask s' = m \<and> get_active_feature_names s' = map fs_name (masked (fsf_features schema) m) \<and>
      get_active_dim s' = length (filter id m) \<and> 0 < get_active_dim s' \<and>
      get_v_candidates s' = [] \<and> get_current_weight_vec s' = [] \<and> get_tpe_satisfied s' \<and>
      (\<forall>mm. m_matrix s = Some mm \<longrightarrow> (\<exists>mm'. m_matrix s' = Some mm' \<and> fm_sites mm' = fm_sites mm \<and>
         (\<forall>n. Mapping.lookup (fm_matrix mm') n = (if n \<in> set (get_active_feature_names s')
            then Mapping.lookup (fm_matrix mm) n else None))))"
proof -
  have ok: "length m = length (fsf_features schema)" "True \<in> set m"
    using 1 install_mask_Ok_iff [of s schema m] by (simp_all add: is_Ok_def)
  note eff = install_mask_effect [OF 1]
  have g: "get_vec_mask s' = m" "get_active_feature_names s' = map fs_name (masked (fsf_features schema) m)"
    "get_active_dim s' = length (masked (fsf_features schema) m)" "get_v_candidates s' = []"
    "get_current_weight_vec s' = []" "get_tpe_satisfied s'"
    by (simp_all add: getter_defs eff(1))
  have "m_matrix s' = map_option (\<lambda>mm. mm\<lparr>fm_matrix := filter_active_features (fm_matrix mm)
      (map fs_name (masked (fsf_features schema) m))\<rparr>) (m_matrix s)"
    using 1 by (auto simp: install_committed_runtime_mask_def Let_def setter_defs
        compute_active_features_def split: if_splits option.splits)
  then show ?thesis using ok g length_masked [of "fsf_features schema" m]
    masked_Nil_iff [of "fsf_features schema" m] by (auto simp: lookup_filter_active)
qed

lemma apply_v_effect:
  assumes "apply_v_to_features s v it = Ok s'"
  obtains w feats where "length v = get_active_dim s" "normalize_simplex_eps v = Ok w"
    "globals s' = (globals s)\<lparr>current_v := w\<rparr>" "m_feats s' = Some feats"
    "m_vector s' = Some \<lparr>fv_iteration = it, simplex_weights = w\<rparr>"
    "feats = (case m_matrix s of
       Some mm \<Rightarrow> resize (fm_sites mm) (Fin 0)
         (combine_feature_matrix_to_weights (fm_matrix mm) w (get_active_feature_names s))
     | None \<Rightarrow> (case m_feats s of Some f \<Rightarrow> f | None \<Rightarrow> []))"
    "s' = set_current_weight_vec w (s\<lparr>m_feats := m_feats s', m_vector := m_vector s'\<rparr>)"
proof -
  obtain w where len: "length v = get_active_dim s" and w: "normalize_simplex_eps v = Ok w"
    using assms by (auto simp: apply_v_to_features_def Let_def bindR_Ok_iff split: if_splits)
  show ?thesis
    by (rule that [OF len w]) (use assms len w in
      \<open>auto simp: apply_v_to_features_def Let_def setter_defs split: option.splits\<close>)
qed

lemma apply_v_total: "length v = get_active_dim s \<Longrightarrow> normalize_simplex_eps v = Ok w \<Longrightarrow>
    \<exists>s'. apply_v_to_features s v it = Ok s'"
  by (simp add: apply_v_to_features_def Let_def split: option.splits prod.splits)

section \<open>Properties\<close>

text \<open>Schema loading accepts exactly the decoded files of version 4 with a non-empty feature list,
  pairwise distinct ids, pairwise distinct names, and no alias that is another feature's name.\<close>

theorem schema_load_iff:
  "load_and_validate_schema r = Ok schema \<longleftrightarrow> r = Parsed schema \<and>
     fsf_version schema = 4 \<and> fsf_features schema \<noteq> [] \<and>
     distinct (map fs_id (fsf_features schema)) \<and> distinct (map fs_name (fsf_features schema)) \<and>
     (\<forall>f \<in> set (fsf_features schema). \<forall>as. fs_aliases f = Some as \<longrightarrow>
        (\<forall>a \<in> set as. a \<in> fs_name ` set (fsf_features schema) \<longrightarrow> a = fs_name f))"
  by (simp only: load_schema_Ok_iff valid_schema_def)

definition example_schema :: feature_schema_file where
  "example_schema = \<lparr>fsf_version = 4, fsf_features =
     [\<lparr>fs_id = ''f1'', fs_name = ''centrality'', fs_group = None, fs_aliases = Some [''betweenness'']\<rparr>,
      \<lparr>fs_id = ''f2'', fs_name = ''depth2'', fs_group = None, fs_aliases = None\<rparr>]\<rparr>"

theorem schema_load_iff_witness: "load_and_validate_schema (Parsed example_schema) = Ok example_schema"
  by (subst schema_load_iff) (simp add: example_schema_def)

text \<open>Printing a mask as a bit string and parsing it back is the identity, and the parser rejects
  the bit string of a mask of the wrong length or without any active feature.\<close>

theorem mask_bitstring_roundtrip:
  "parse_vec_mask (mask_to_bitstring m) n =
     (if length m \<noteq> n then Err (MaskLength (length m) n)
      else if True \<notin> set m then Err MaskAllZero else Ok m)"
  by (rule parse_vec_mask_bitstring)

text \<open>A feature map that loads against a valid schema has exactly the canonical feature names as keys
  (aliases resolved), every array has one value per sancov site, and every value is finite, not
  negative and at most \<open>1 + EPS\<close>.\<close>

theorem feature_map_load_valid:
  assumes "valid_schema schema" "load_and_validate_feature_map r schema sites = Ok res"
  shows "Mapping.keys res = fs_name ` set (fsf_features schema) \<and>
    (\<forall>n arr. Mapping.lookup res n = Some arr \<longrightarrow> length arr = sites \<and>
       (\<forall>v \<in> set arr. is_finite v \<and> \<not> flt v (Fin 0) \<and> \<not> flt (fadd (Fin 1) EPS) v))"
proof -
  have "n \<in> Mapping.keys res" if "Mapping.lookup res n = Some arr" for n arr
    using that by (auto simp: keys_dom_lookup)
  then show ?thesis using load_feature_map_Ok [OF assms(2,1)]
    unfolding valid_feature_map_def feature_values_ok_def list_all_iff by blast
qed

theorem feature_map_load_valid_witness:
  "\<exists>res. load_and_validate_feature_map
      (Parsed [(''depth2'', JArray [JNumber (Fin 1)]), (''betweenness'', JArray [JNumber (Fin (1/2))])])
      example_schema 1 = Ok res \<and> Mapping.keys res = {''centrality'', ''depth2''}"
proof -
  let ?file = "Parsed [(''depth2'', JArray [JNumber (Fin 1)]), (''betweenness'', JArray [JNumber (Fin (1/2))])]"
  have "is_Ok (load_and_validate_feature_map ?file example_schema 1)" by code_simp
  then obtain res where res: "load_and_validate_feature_map ?file example_schema 1 = Ok res"
    by (auto simp: is_Ok_def split: sum.splits)
  have v: "valid_schema example_schema" by (simp add: valid_schema_def example_schema_def)
  have "fs_name ` set (fsf_features example_schema) = {''centrality'', ''depth2''}"
    by (simp add: example_schema_def)
  then show ?thesis using feature_map_load_valid [OF v res] res by auto
qed

text \<open>Simplex normalisation succeeds on every vector of at least two entries of the unit interval,
  and whenever it succeeds the result has the length of its input and only entries in \<open>(0, 1]\<close>:
  every active feature keeps a strictly positive weight.\<close>

theorem normalize_simplex_correct:
  "(2 \<le> length v \<and> length v < 2 ^ 52 \<and> (\<forall>x \<in> set v. fle (Fin 0) x \<and> fle x (Fin 1)) \<longrightarrow>
      (\<exists>w. normalize_simplex_eps v = Ok w)) \<and>
   (\<forall>w. normalize_simplex_eps v = Ok w \<longrightarrow>
      length w = length v \<and> (\<forall>x \<in> set w. is_finite x \<and> flt (Fin 0) x \<and> fle x (Fin 1)))"
  using normalize_total [of v] normalize_entries [of v] by blast

theorem normalize_simplex_correct_witness:
  "\<exists>w. normalize_simplex_eps [Fin 1, Fin 0] = Ok w \<and> length w = 2 \<and> (\<forall>x \<in> set w. flt (Fin 0) x)"
proof -
  have "2 \<le> length [Fin 1, Fin 0] \<and> length [Fin 1, Fin 0] < 2 ^ 52 \<and>
      (\<forall>x \<in> set [Fin 1, Fin 0]. fle (Fin 0) x \<and> fle x (Fin 1))" by simp
  then obtain w where w: "normalize_simplex_eps [Fin 1, Fin 0] = Ok w"
    using normalize_simplex_correct [of "[Fin 1, Fin 0]"] by blast
  then have "length w = length [Fin 1, Fin 0]" "\<forall>x \<in> set w. flt (Fin 0) x"
    using normalize_simplex_correct [of "[Fin 1, Fin 0]"] by blast+
  then show ?thesis using w by simp
qed

text \<open>On a matrix whose active features are validated arrays of one length, the combination yields
  one weight per site for any weight vector, each weight is finite and not negative, and it is the
  accumulated weighted sum itself: the overflow fallback to zero is never taken.\<close>

theorem combine_weights_correct:
  assumes "names \<noteq> []" "length names < 2 ^ 52"
    "\<forall>n \<in> set names. \<exists>arr. Mapping.lookup m n = Some arr \<and> length arr = sites \<and> feature_values_ok arr"
  shows "length (combine_feature_matrix_to_weights m v names) = sites \<and>
    (\<forall>x \<in> set (combine_feature_matrix_to_weights m v names). is_finite x \<and> fle (Fin 0) x) \<and>
    combine_feature_matrix_to_weights m v names =
      (let w = (if length v = length names
            then (case normalize_simplex_eps v of Inr w \<Rightarrow> w | Inl _ \<Rightarrow> equal_simplex (length names))
            else equal_simplex (length names))
       in map (\<lambda>i. fmax (site_total m i (Fin 0) names w) (Fin 0)) [0..<sites])"
proof -
  let ?w = "if length v = length names
    then (case normalize_simplex_eps v of Inr w \<Rightarrow> w | Inl _ \<Rightarrow> equal_simplex (length names))
    else equal_simplex (length names)"
  have fin: "is_finite (site_total m i (Fin 0) names ?w)" for i
    using assms combine_weights_unit equal_simplex_unit
    by (intro combine_no_fallback) (fastforce split: if_splits)+
  have ex: "expected_length m names = sites" using assms by (intro expected_length_sites) auto
  have "combine_feature_matrix_to_weights m v names =
      map (\<lambda>i. if is_finite (site_total m i (Fin 0) names ?w)
        then fmax (site_total m i (Fin 0) names ?w) (Fin 0) else Fin 0) [0..<sites]"
    using assms(1) unfolding combine_feature_matrix_to_weights_def Let_def ex by simp
  also have "\<dots> = map (\<lambda>i. fmax (site_total m i (Fin 0) names ?w) (Fin 0)) [0..<sites]"
    by (simp only: fin if_True)
  finally have "combine_feature_matrix_to_weights m v names =
      map (\<lambda>i. fmax (site_total m i (Fin 0) names ?w) (Fin 0)) [0..<sites]" .
  moreover have "length (combine_feature_matrix_to_weights m v names) = sites"
    using length_combine [OF assms(1)] ex by simp
  ultimately show ?thesis using combine_entries [of _ m v names] unfolding Let_def by blast
qed

theorem combine_weights_correct_witness:
  "length (combine_feature_matrix_to_weights
     (Mapping.update ''a'' [Fin 1, Fin 0] (Mapping.update ''b'' [Fin 0, Fin 1] Mapping.empty))
     [Fin (1/4), Fin (3/4)] [''a'', ''b'']) = 2"
proof -
  let ?m = "Mapping.update ''a'' [Fin 1, Fin 0] (Mapping.update ''b'' [Fin 0, Fin 1] Mapping.empty)"
  have "feature_values_ok [Fin 1, Fin 0]" "feature_values_ok [Fin 0, Fin 1]" by code_simp+
  then have "\<forall>n \<in> set [''a'', ''b'']. \<exists>arr. Mapping.lookup ?m n = Some arr \<and> length arr = 2 \<and> feature_values_ok arr"
    by (simp add: lookup_update')
  then show ?thesis by (intro combine_weights_correct [THEN conjunct1]) simp_all
qed

text \<open>Installing a committed mask succeeds exactly on a mask of the schema's length with an active
  feature; it makes the selected features the active ones in schema order, restricts the stored
  feature matrix to them, and drops the candidates and the current vector, so no vector of the old
  dimension survives.\<close>

theorem install_committed_mask_correct:
  "(is_Ok (install_committed_runtime_mask s schema m) \<longleftrightarrow>
      length m = length (fsf_features schema) \<and> True \<in> set m) \<and>
   (\<forall>s'. install_committed_runtime_mask s schema m = Ok s' \<longrightarrow>
      get_vec_mask s' = m \<and> get_active_feature_names s' = map fs_name (masked (fsf_features schema) m) \<and>
      get_active_dim s' = length (filter id m) \<and> 0 < get_active_dim s' \<and>
      get_v_candidates s' = [] \<and> get_current_weight_vec s' = [] \<and> get_tpe_satisfied s' \<and>
      (\<forall>mm. m_matrix s = Some mm \<longrightarrow> (\<exists>mm'. m_matrix s' = Some mm' \<and> fm_sites mm' = fm_sites mm \<and>
         (\<forall>n. Mapping.lookup (fm_matrix mm') n = (if n \<in> set (get_active_feature_names s')
            then Mapping.lookup (fm_matrix mm) n else None)))))"
  using install_mask_Ok_iff install_mask_correct_Ok by blast

definition example_state :: fuzz_state where
  "example_state = state_new (std_rand_with_seed 1)"

theorem install_committed_mask_correct_witness:
  "\<exists>s'. install_committed_runtime_mask example_state example_schema [False, True] = Ok s' \<and>
     get_active_feature_names s' = [''depth2''] \<and> get_active_dim s' = 1"
proof -
  have "is_Ok (install_committed_runtime_mask example_state example_schema [False, True])"
    using install_committed_mask_correct [of example_state example_schema "[False, True]"]
    by (simp add: example_schema_def)
  then obtain s' where s': "install_committed_runtime_mask example_state example_schema [False, True] = Ok s'"
    by (auto simp: is_Ok_def split: sum.splits)
  then have "get_active_feature_names s' = map fs_name (masked (fsf_features example_schema) [False, True])"
    "get_active_dim s' = length (filter id [False, True])"
    using install_committed_mask_correct [of example_state example_schema "[False, True]"] by blast+
  then show ?thesis using s' by (simp add: example_schema_def)
qed

text \<open>C7. Applying a weight vector fails exactly when its length is not the active dimension or it cannot
  be normalised. On success the current vector and the stored feature vector are the normalised
  input with entries in \<open>(0, 1]\<close>, and the feature map holds one finite, not negative weight per
  site of the feature matrix.\<close>

theorem apply_v_correct:
  "(is_Ok (apply_v_to_features s v it) \<longleftrightarrow>
      length v = get_active_dim s \<and> is_Ok (normalize_simplex_eps v)) \<and>
   (\<forall>s'. apply_v_to_features s v it = Ok s' \<longrightarrow>
      normalize_simplex_eps v = Ok (get_current_weight_vec s') \<and>
      length (get_current_weight_vec s') = get_active_dim s' \<and>
      (\<forall>x \<in> set (get_current_weight_vec s'). flt (Fin 0) x \<and> fle x (Fin 1)) \<and>
      m_vector s' = Some \<lparr>fv_iteration = it, simplex_weights = get_current_weight_vec s'\<rparr> \<and>
      (\<forall>mm. m_matrix s = Some mm \<longrightarrow> (\<exists>feats. m_feats s' = Some feats \<and> length feats = fm_sites mm \<and>
         (\<forall>x \<in> set feats. is_finite x \<and> fle (Fin 0) x))))"
proof (intro conjI allI, goal_cases)
  case 1
  then show ?case by (auto simp: apply_v_to_features_def Let_def bindR_def is_Ok_def map_err_def
        split: sum.splits option.splits prod.splits)
next
  case (2 s')
  show ?case
  proof
    assume "apply_v_to_features s v it = Ok s'"
    then obtain w feats where e: "length v = get_active_dim s" "normalize_simplex_eps v = Ok w"
      "globals s' = (globals s)\<lparr>current_v := w\<rparr>" "m_feats s' = Some feats"
      "m_vector s' = Some \<lparr>fv_iteration = it, simplex_weights = w\<rparr>"
      "feats = (case m_matrix s of Some mm \<Rightarrow> resize (fm_sites mm) (Fin 0)
         (combine_feature_matrix_to_weights (fm_matrix mm) w (get_active_feature_names s))
       | None \<Rightarrow> (case m_feats s of Some f \<Rightarrow> f | None \<Rightarrow> []))"
      by (rule apply_v_effect)
    have "is_finite x \<and> fle (Fin 0) x" if "m_matrix s = Some mm" "x \<in> set feats" for mm x
      using that e(6) combine_entries set_resize by fastforce
    then show "normalize_simplex_eps v = Ok (get_current_weight_vec s') \<and>
      length (get_current_weight_vec s') = get_active_dim s' \<and>
      (\<forall>x \<in> set (get_current_weight_vec s'). flt (Fin 0) x \<and> fle x (Fin 1)) \<and>
      m_vector s' = Some \<lparr>fv_iteration = it, simplex_weights = get_current_weight_vec s'\<rparr> \<and>
      (\<forall>mm. m_matrix s = Some mm \<longrightarrow> (\<exists>feats. m_feats s' = Some feats \<and> length feats = fm_sites mm \<and>
         (\<forall>x \<in> set feats. is_finite x \<and> fle (Fin 0) x)))"
      using e normalize_entries [OF e(2)] by (auto simp: getter_defs)
  qed
qed

theorem apply_v_correct_witness:
  "\<exists>s s'. install_committed_runtime_mask example_state example_schema [True, True] = Ok s \<and>
     apply_v_to_features s [Fin 1, Fin 0] 3 = Ok s' \<and> length (get_current_weight_vec s') = 2"
proof -
  have "is_Ok (install_committed_runtime_mask example_state example_schema [True, True])"
    by (subst install_mask_Ok_iff) (simp add: example_schema_def)
  then obtain s where s: "install_committed_runtime_mask example_state example_schema [True, True] = Ok s"
    by (auto simp: is_Ok_def split: sum.splits)
  then have d: "get_active_dim s = 2" using install_mask_correct_Ok [OF s] by simp
  obtain w where "normalize_simplex_eps [Fin 1, Fin 0] = Ok w"
    using normalize_total [of "[Fin 1, Fin 0]"] by auto
  then have "is_Ok (apply_v_to_features s [Fin 1, Fin 0] 3)"
    using apply_v_correct [of s "[Fin 1, Fin 0]" 3] d by (simp add: is_Ok_def)
  then obtain s' where "apply_v_to_features s [Fin 1, Fin 0] 3 = Ok s'"
    by (auto simp: is_Ok_def split: sum.splits)
  moreover from this have "length (get_current_weight_vec s') = 2"
    using apply_v_correct [of s "[Fin 1, Fin 0]" 3] normalize_entries(1) by fastforce
  ultimately show ?thesis using s by blast
qed

end
