(* ===== verification/Frontier.thy ===== *)
theory Frontier
  imports Globals
begin

text \<open>
  The coverage frontier of the control flow graph over sancov sites (\<open>feature_sched/frontier.rs\<close>):
  covered sites with an uncovered successor and uncovered sites with a covered predecessor. Shown: the
  sets are exactly that, the stored metadata stays in step with the covered set, coverage only grows,
  and the local frontier of a testcase.
\<close>

section \<open>Definitions\<close>

definition bitset_from_indices :: "nat \<Rightarrow> nat list \<Rightarrow> bitset" where
  "bitset_from_indices n idx = foldl (\<lambda>b i. if i < n then b[i := True] else b) (replicate n False) idx"

definition bitset_get :: "bitset \<Rightarrow> nat \<Rightarrow> bool" where
  "bitset_get bits i = get_or False bits i"

text \<open>\<open>lists.get(u).into_iter().flatten()\<close>: the neighbours of \<open>u\<close>, none out of range.\<close>

definition neighbours :: "nat list list \<Rightarrow> nat \<Rightarrow> nat list" where
  "neighbours g u = (case get_opt g u of Some vs \<Rightarrow> vs | None \<Rightarrow> [])"

definition recompute_frontier_sets :: "bitset \<Rightarrow> sancov_acfg \<Rightarrow> bitset \<times> bitset" where
  "recompute_frontier_sets cov acfg =
     (let n = n_sancov_sites acfg in
      (map (\<lambda>u. bitset_get cov u \<and>
          list_ex (\<lambda>v. v < n \<and> \<not> bitset_get cov v) (neighbours (successors acfg) u)) [0..<n],
       map (\<lambda>u. \<not> bitset_get cov u \<and>
          list_ex (\<lambda>p. p < n \<and> bitset_get cov p) (neighbours (predecessors acfg) u)) [0..<n]))"

definition current_iter :: "fuzz_state \<Rightarrow> u64" where
  "current_iter s = (case m_tpe_iter s of Some m \<Rightarrow> current_iteration m | None \<Rightarrow> 0)"

fun mark_covered :: "nat \<Rightarrow> nat list \<Rightarrow> bitset \<times> bool \<Rightarrow> bitset \<times> bool" where
  "mark_covered n [] bc = bc"
| "mark_covered n (i # is) (b, changed) =
     mark_covered n is (if i < n \<and> \<not> b ! i then (b[i := True], True) else (b, changed))"

definition update_frontier_meta :: "fuzz_state \<Rightarrow> nat list \<Rightarrow> fuzz_state \<times> bool" where
  "update_frontier_meta s newly = (case m_acfg s of
     None \<Rightarrow> (s, False)
   | Some acfg \<Rightarrow>
       let n = n_sancov_sites acfg;
           meta = (case m_frontier s of Some fm \<Rightarrow> fm
             | None \<Rightarrow> \<lparr>fr_iteration = current_iter s, covered = replicate n False,
                       f_prev = replicate n False, f_next = replicate n False\<rparr>);
           cov0 = (if length (covered meta) \<noteq> n then resize n False (covered meta) else covered meta);
           (cov, changed) = mark_covered n newly (cov0, False)
       in if changed
          then let (fp, fn) = recompute_frontier_sets cov acfg in
            (s\<lparr>m_frontier := Some (meta\<lparr>covered := cov, fr_iteration := current_iter s,
                 f_prev := fp, f_next := fn\<rparr>)\<rparr>, True)
          else (s, False))"

definition local_frontier_nodes :: "nat list \<Rightarrow> nat list \<Rightarrow> sancov_acfg \<Rightarrow> nat list" where
  "local_frontier_nodes newly testcase_covered acfg =
     (let n = n_sancov_sites acfg;
          bits = bitset_from_indices n testcase_covered;
          out = foldl (\<lambda>out node. if n \<le> node then out
                  else foldl (\<lambda>out p. if p < n \<and> bitset_get bits p then out[p := True] else out)
                         (out[node := True]) (neighbours (predecessors acfg) node))
                (replicate n False) newly
      in true_indices out)"

section \<open>Bit sets\<close>

lemma length_set_bits: "length (foldl (\<lambda>b i. if P i then b[i := True] else b) b xs) = length b"
  by (induction xs arbitrary: b) auto

lemma nth_set_bits:
  "i < length b \<Longrightarrow> foldl (\<lambda>b i. if P i then b[i := True] else b) b xs ! i \<longleftrightarrow> b ! i \<or> (i \<in> set xs \<and> P i)"
  by (induction xs arbitrary: b) (auto simp: nth_upd)

lemma bitset_from_indices_get [simp]: "bitset_get (bitset_from_indices n idx) i \<longleftrightarrow> i < n \<and> i \<in> set idx"
  by (auto simp: bitset_get_def get_or_def bitset_from_indices_def length_set_bits nth_set_bits)

lemma mark_covered_length: "length (fst (mark_covered n is (b, c))) = length b"
  by (induction n "is" "(b, c)" arbitrary: b c rule: mark_covered.induct) auto

lemma mark_covered_nth:
  "length b = n \<Longrightarrow> i < n \<Longrightarrow> fst (mark_covered n is (b, c)) ! i \<longleftrightarrow> b ! i \<or> i \<in> set is"
  by (induction n "is" "(b, c)" arbitrary: b c rule: mark_covered.induct) (auto simp: nth_upd)

lemma mark_covered_changed:
  "length b = n \<Longrightarrow> snd (mark_covered n is (b, c)) \<longleftrightarrow> c \<or> (\<exists>i \<in> set is. i < n \<and> \<not> b ! i)"
proof (induction "is" arbitrary: b c)
  case (Cons i "is")
  show ?case
  proof (cases "i < n \<and> \<not> b ! i")
    case True
    then show ?thesis using Cons.IH [of "b[i := True]" True] Cons.prems by auto
  next
    case False
    then show ?thesis using Cons.IH [of b c] Cons.prems by auto
  qed
qed simp

section \<open>Frontier sets\<close>

lemma recompute_lengths:
  "length (fst (recompute_frontier_sets cov acfg)) = n_sancov_sites acfg"
  "length (snd (recompute_frontier_sets cov acfg)) = n_sancov_sites acfg"
  by (simp_all add: recompute_frontier_sets_def Let_def)

lemma recompute_get:
  "bitset_get (fst (recompute_frontier_sets cov acfg)) u \<longleftrightarrow> u < n_sancov_sites acfg \<and> bitset_get cov u \<and>
     (\<exists>v \<in> set (neighbours (successors acfg) u). v < n_sancov_sites acfg \<and> \<not> bitset_get cov v)"
  "bitset_get (snd (recompute_frontier_sets cov acfg)) u \<longleftrightarrow> u < n_sancov_sites acfg \<and> \<not> bitset_get cov u \<and>
     (\<exists>p \<in> set (neighbours (predecessors acfg) u). p < n_sancov_sites acfg \<and> bitset_get cov p)"
  by (auto simp: recompute_frontier_sets_def Let_def bitset_get_def [of "map _ _"] get_or_def list_ex_iff)

text \<open>The successor and predecessor lists describe the same edges.\<close>

definition acfg_dual :: "sancov_acfg \<Rightarrow> bool" where
  "acfg_dual acfg \<longleftrightarrow> (\<forall>u < n_sancov_sites acfg. \<forall>v < n_sancov_sites acfg.
     v \<in> set (neighbours (successors acfg) u) \<longleftrightarrow> u \<in> set (neighbours (predecessors acfg) v))"

text \<open>The stored frontier belongs to the stored covered set.\<close>

definition frontier_inv :: "fuzz_state \<Rightarrow> bool" where
  "frontier_inv s \<longleftrightarrow> (\<forall>fm acfg. m_frontier s = Some fm \<longrightarrow> m_acfg s = Some acfg \<longrightarrow>
     length (covered fm) = n_sancov_sites acfg \<and>
     (f_prev fm, f_next fm) = recompute_frontier_sets (covered fm) acfg)"

definition covered_set :: "fuzz_state \<Rightarrow> nat set" where
  "covered_set s = (case m_frontier s of Some fm \<Rightarrow> {i. bitset_get (covered fm) i} | None \<Rightarrow> {})"

lemma update_frontier_inv: "frontier_inv s \<Longrightarrow> frontier_inv (fst (update_frontier_meta s newly))"
  by (auto simp: update_frontier_meta_def frontier_inv_def Let_def mark_covered_length case_prod_beta
      split: option.splits)

text \<open>What an update does: the new sites below the site count join the covered set, and the result says
  whether any of them was new.\<close>

lemma update_covered:
  assumes "m_acfg s = Some acfg" "frontier_inv s"
  shows "covered_set (fst (update_frontier_meta s newly)) =
      covered_set s \<union> {i \<in> set newly. i < n_sancov_sites acfg}"
    "snd (update_frontier_meta s newly) \<longleftrightarrow> (\<exists>i \<in> set newly. i < n_sancov_sites acfg \<and> i \<notin> covered_set s)"
proof -
  let ?n = "n_sancov_sites acfg"
  define meta where "meta = (case m_frontier s of Some fm \<Rightarrow> fm
    | None \<Rightarrow> \<lparr>fr_iteration = current_iter s, covered = replicate ?n False,
        f_prev = replicate ?n False, f_next = replicate ?n False\<rparr>)"
  have len: "length (covered meta) = ?n"
    using assms by (auto simp: meta_def frontier_inv_def split: option.splits)
  have cs: "covered_set s = {i. i < ?n \<and> covered meta ! i}"
    using len assms(2) by (auto simp: covered_set_def meta_def bitset_get_def get_or_def split: option.splits)
  let ?mc = "mark_covered ?n newly (covered meta, False)"
  have upd: "update_frontier_meta s newly = (if snd ?mc
      then (s\<lparr>m_frontier := Some (meta\<lparr>covered := fst ?mc, fr_iteration := current_iter s,
          f_prev := fst (recompute_frontier_sets (fst ?mc) acfg),
          f_next := snd (recompute_frontier_sets (fst ?mc) acfg)\<rparr>)\<rparr>, True)
      else (s, False))"
    using assms(1) len unfolding update_frontier_meta_def
    by (simp add: Let_def case_prod_beta flip: meta_def)
  show changed: "snd (update_frontier_meta s newly) \<longleftrightarrow>
      (\<exists>i \<in> set newly. i < ?n \<and> i \<notin> covered_set s)"
    using mark_covered_changed [OF len, of newly False] by (auto simp: upd cs)
  show "covered_set (fst (update_frontier_meta s newly)) =
      covered_set s \<union> {i \<in> set newly. i < n_sancov_sites acfg}"
  proof (cases "snd ?mc")
    case True
    then have "covered_set (fst (update_frontier_meta s newly)) = {i. i < ?n \<and> fst ?mc ! i}"
      using len by (auto simp: upd covered_set_def bitset_get_def get_or_def mark_covered_length
          split: if_splits)
    then show ?thesis using mark_covered_nth [OF len] cs by auto
  next
    case False
    then show ?thesis using changed by (auto simp: upd)
  qed
qed

text \<open>Local frontier: the inner loop marks the predecessors, the outer one the nodes themselves.\<close>

lemma local_outer:
  assumes "length out = n" "x < n"
  shows "length (foldl (\<lambda>out node. if n \<le> node then out
            else foldl (\<lambda>out p. if P p then out[p := True] else out) (out[node := True]) (g node)) out newly) = n \<and>
    (foldl (\<lambda>out node. if n \<le> node then out
            else foldl (\<lambda>out p. if P p then out[p := True] else out) (out[node := True]) (g node)) out newly ! x \<longleftrightarrow>
     out ! x \<or> x \<in> set newly \<or> (P x \<and> (\<exists>m \<in> set newly. m < n \<and> x \<in> set (g m))))"
  using assms
proof (induction newly arbitrary: out)
  case (Cons m newly)
  let ?out = "if n \<le> m then out else foldl (\<lambda>out p. if P p then out[p := True] else out) (out[m := True]) (g m)"
  have "length ?out = n" using Cons.prems by (simp add: length_set_bits)
  moreover have "?out ! x \<longleftrightarrow> out ! x \<or> (m < n \<and> (x = m \<or> (x \<in> set (g m) \<and> P x)))"
    using Cons.prems by (auto simp: nth_set_bits nth_upd)
  ultimately show ?case using Cons.IH [of ?out] Cons.prems by auto
qed simp

lemma set_local_frontier:
  "set (local_frontier_nodes newly tc acfg) = {x. x < n_sancov_sites acfg \<and> (x \<in> set newly \<or>
     (x \<in> set tc \<and> (\<exists>m \<in> set newly. m < n_sancov_sites acfg \<and> x \<in> set (neighbours (predecessors acfg) m))))}"
proof -
  let ?n = "n_sancov_sites acfg"
  let ?P = "\<lambda>p. p < ?n \<and> bitset_get (bitset_from_indices ?n tc) p"
  let ?out = "foldl (\<lambda>out node. if ?n \<le> node then out else foldl (\<lambda>out p. if ?P p then out[p := True] else out)
      (out[node := True]) (neighbours (predecessors acfg) node)) (replicate ?n False) newly"
  have nth: "?out ! x \<longleftrightarrow> x \<in> set newly \<or> (?P x \<and>
      (\<exists>m \<in> set newly. m < ?n \<and> x \<in> set (neighbours (predecessors acfg) m)))" if "x < ?n" for x
    using local_outer [of "replicate ?n False" ?n x ?P "neighbours (predecessors acfg)" newly] that by simp
  have "length ?out = ?n"
    using local_outer [of "replicate ?n False" ?n 0 ?P "neighbours (predecessors acfg)" newly]
    by (cases "?n = 0") (simp_all, induction newly, simp_all add: length_set_bits)
  then show ?thesis using nth unfolding local_frontier_nodes_def Let_def set_true_indices by auto
qed

section \<open>Properties\<close>

text \<open>C19. On a graph whose successor and predecessor lists describe the same edges, the recomputed sets are
  the two sides of the coverage frontier: the first holds covered sites only, the second uncovered
  ones, every site of the first has an edge into the second and every site of the second has an edge
  from the first, and no covered-to-uncovered edge is missed.\<close>

theorem frontier_sets_are_boundary:
  assumes "acfg_dual acfg" "recompute_frontier_sets cov acfg = (fp, fn)"
  shows "(\<forall>u. bitset_get fp u \<longrightarrow> bitset_get cov u \<and> (\<exists>v \<in> set (neighbours (successors acfg) u). bitset_get fn v)) \<and>
    (\<forall>v. bitset_get fn v \<longrightarrow> \<not> bitset_get cov v \<and> (\<exists>u \<in> set (neighbours (predecessors acfg) v). bitset_get fp u)) \<and>
    (\<forall>u < n_sancov_sites acfg. \<forall>v < n_sancov_sites acfg.
       v \<in> set (neighbours (successors acfg) u) \<and> bitset_get cov u \<and> \<not> bitset_get cov v \<longrightarrow>
       bitset_get fp u \<and> bitset_get fn v)"
proof -
  have fp: "bitset_get fp u \<longleftrightarrow> u < n_sancov_sites acfg \<and> bitset_get cov u \<and>
     (\<exists>v \<in> set (neighbours (successors acfg) u). v < n_sancov_sites acfg \<and> \<not> bitset_get cov v)" for u
    using recompute_get(1) [of cov acfg u] assms(2) by simp
  have fn: "bitset_get fn u \<longleftrightarrow> u < n_sancov_sites acfg \<and> \<not> bitset_get cov u \<and>
     (\<exists>p \<in> set (neighbours (predecessors acfg) u). p < n_sancov_sites acfg \<and> bitset_get cov p)" for u
    using recompute_get(2) [of cov acfg u] assms(2) by simp
  show ?thesis using assms(1) unfolding acfg_dual_def fp fn by blast
qed

definition example_acfg :: sancov_acfg where
  "example_acfg = \<lparr>ac_iteration = 0, n_sancov_sites = 3, successors = [[1, 2], [2], []],
     predecessors = [[], [0], [0, 1]]\<rparr>"

theorem frontier_sets_are_boundary_witness:
  "recompute_frontier_sets [True, True, False] example_acfg = ([True, True, False], [False, False, True]) \<and>
   (\<exists>v \<in> set (neighbours (successors example_acfg) 1). bitset_get [False, False, True] v)"
proof -
  have "acfg_dual example_acfg"
    by (auto simp: acfg_dual_def example_acfg_def neighbours_def get_opt_def less_Suc_eq numeral_3_eq_3)
  moreover have r: "recompute_frontier_sets [True, True, False] example_acfg =
      ([True, True, False], [False, False, True])" by code_simp
  moreover have "bitset_get [True, True, False] 1" by code_simp
  ultimately show ?thesis using frontier_sets_are_boundary [of example_acfg "[True, True, False]"] by blast
qed

text \<open>C20. A frontier update adds exactly the reported sites below the site count to the covered set,
  reports a change exactly when one of them was new, and keeps the stored frontier sets equal to the
  ones of the stored covered set.\<close>

theorem update_frontier_correct:
  assumes "m_acfg s = Some acfg" "frontier_inv s" "update_frontier_meta s newly = (s', changed)"
  shows "frontier_inv s' \<and>
    covered_set s' = covered_set s \<union> {i \<in> set newly. i < n_sancov_sites acfg} \<and>
    (changed \<longleftrightarrow> (\<exists>i \<in> set newly. i < n_sancov_sites acfg \<and> i \<notin> covered_set s))"
  using update_covered [OF assms(1,2), of newly] update_frontier_inv [OF assms(2), of newly] assms(3) by simp

theorem update_frontier_correct_witness:
  "covered_set (fst (update_frontier_meta ((state_new (std_rand_with_seed 0))\<lparr>m_acfg := Some example_acfg\<rparr>) [1, 7])) = {1}"
proof -
  let ?s = "(state_new (std_rand_with_seed 0))\<lparr>m_acfg := Some example_acfg\<rparr>"
  have "m_acfg ?s = Some example_acfg" "frontier_inv ?s" "covered_set ?s = {}"
    by (simp_all add: frontier_inv_def covered_set_def state_new_def)
  moreover have "{i \<in> set [1, 7]. i < n_sancov_sites example_acfg} = {1}" by (auto simp: example_acfg_def)
  moreover obtain s' c where "update_frontier_meta ?s [1, 7] = (s', c)" by fastforce
  ultimately show ?thesis using update_frontier_correct [of ?s example_acfg "[1, 7]" s' c] by simp
qed

text \<open>The local frontier of a testcase is, without repetition and in increasing order, the newly covered
  sites in range together with those of their predecessors that the testcase itself covers.\<close>

theorem local_frontier_correct:
  "set (local_frontier_nodes newly tc acfg) = {x. x < n_sancov_sites acfg \<and> (x \<in> set newly \<or>
     (x \<in> set tc \<and> (\<exists>m \<in> set newly. m < n_sancov_sites acfg \<and> x \<in> set (neighbours (predecessors acfg) m))))} \<and>
   sorted (local_frontier_nodes newly tc acfg) \<and> distinct (local_frontier_nodes newly tc acfg)"
  by (simp only: set_local_frontier) (simp add: local_frontier_nodes_def Let_def sorted_true_indices)

end
