(* ===== verification/Float_Error.thy ===== *)
theory Float_Error
  imports Float64
begin

text \<open>
  Rounding errors of the binary64 model: the relative error of a rounded result above the smallest
  normal number, its accumulation over a sum of positive terms, the sum of a normalised vector, and
  the strict gap below a normal number that a product with a draw from the half open unit interval
  never closes. The probabilities of the mutation scheduler rest on these.
\<close>

section \<open>One rounding\<close>

definition eps :: rat where
  "eps = 1 / 2 ^ 53"

lemma eps_bounds [simp]: "0 < eps" "0 \<le> eps" "eps < 1" "eps \<le> 1"
  by (simp_all add: eps_def)

lemma rne_half: "\<bar>of_int (rne x) - x\<bar> \<le> 1 / 2"
  using floor_correct [of x] by (auto simp: rne_def Let_def abs_le_iff)

lemma rnd_err: "\<bar>rnd r - r\<bar> \<le> pow2 (ulp_exp r) / 2"
proof (cases "r = 0")
  case False
  define u where "u = pow2 (ulp_exp r)"
  have u: "0 < u" by (simp add: u_def)
  have "rnd r - r = (of_int (rne (r / u)) - r / u) * u"
    using False u by (simp add: rnd_def u_def [symmetric] left_diff_distrib)
  then have "\<bar>rnd r - r\<bar> = \<bar>of_int (rne (r / u)) - r / u\<bar> * u" using u by (simp add: abs_mult)
  also have "\<dots> \<le> 1 / 2 * u" using rne_half [of "r / u"] u by (intro mult_right_mono) simp_all
  finally show ?thesis by (simp add: u_def)
qed simp

lemma ulp_exp_normal: "pow2 (- 1022) \<le> r \<Longrightarrow> ulp_exp r = ilog2 r - 52"
proof -
  assume r: "pow2 (- 1022) \<le> r"
  then have "0 < r" using pow2_pos [of "- 1022"] by linarith
  then show ?thesis using ilog2_ge [OF _ r] by (simp add: ulp_exp_def)
qed

lemma normal_pos: "pow2 (- 1022) \<le> r \<Longrightarrow> 0 < r"
  using pow2_pos [of "- 1022"] by linarith

lemma half_ulp: "pow2 (e - 52) / 2 = eps * pow2 e"
  using pow2_diff [of e 52] pow2_of_nat [of 52] by (simp add: eps_def)

lemma rnd_rel: "pow2 (- 1022) \<le> r \<Longrightarrow> \<bar>rnd r - r\<bar> \<le> eps * r"
proof -
  assume r: "pow2 (- 1022) \<le> r"
  have "\<bar>rnd r - r\<bar> \<le> eps * pow2 (ilog2 r)"
    using rnd_err [of r] by (simp only: ulp_exp_normal [OF r] half_ulp)
  also have "\<dots> \<le> eps * r" using ilog2_bounds(1) [OF normal_pos [OF r]] by (intro mult_left_mono) simp_all
  finally show ?thesis .
qed

lemma rnd_lower: "pow2 (- 1022) \<le> r \<Longrightarrow> (1 - eps) * r \<le> rnd r"
  using rnd_rel [of r] by (simp add: algebra_simps abs_le_iff)

lemma rnd_upper:
  assumes "pow2 (- 1022) \<le> r" shows "(1 - eps) * rnd r \<le> r"
proof -
  have "rnd r \<le> (1 + eps) * r" using rnd_rel [OF assms] by (simp add: algebra_simps abs_le_iff)
  then have "(1 - eps) * rnd r \<le> (1 - eps) * ((1 + eps) * r)" by (intro mult_left_mono) simp_all
  also have "\<dots> = (1 - eps * eps) * r" by (simp add: algebra_simps)
  also have "\<dots> \<le> 1 * r" using normal_pos [OF assms] by (intro mult_right_mono) simp_all
  finally show ?thesis by simp
qed

text \<open>A product with a factor at most \<^term>\<open>1 - eps\<close> rounds strictly below a normal number.\<close>

lemma rnd_mult_less:
  assumes p: "pow2 (- 1021) \<le> p" "rnd p = p" and f: "0 \<le> f" "f \<le> 1 - eps"
  shows "rnd (p * f) < p"
proof (cases "p * f = 0")
  case True
  moreover have "0 < p" using p(1) pow2_pos [of "- 1021"] by linarith
  ultimately show ?thesis by simp
next
  case False
  define x where "x = p * f"
  define e where "e = ilog2 p"
  have p0: "0 < p" using p(1) pow2_pos [of "- 1021"] by linarith
  have x0: "0 < x" using False f p0 by (simp add: x_def zero_less_mult_iff)
  have gap: "x \<le> p - eps * p"
  proof -
    have "p * f \<le> p * (1 - eps)" using f p0 by (intro mult_left_mono) simp_all
    then show ?thesis by (simp add: x_def algebra_simps)
  qed
  moreover have "0 < eps * p" using p0 by simp
  ultimately have "x \<le> p" by linarith
  then have le: "rnd x \<le> p" using p(2) rnd_le by blast
  have e: "- 1021 \<le> e" using ilog2_ge [OF p0 p(1)] by (simp add: e_def)
  have pe: "pow2 e \<le> p" using ilog2_bounds(1) [OF p0] by (simp add: e_def)
  have xe: "ilog2 x \<le> e" using ilog2_mono [OF x0 \<open>x \<le> p\<close>] by (simp add: e_def)
  have err: "p - x \<le> pow2 (ulp_exp x) / 2" if "rnd x = p"
    using rnd_err [of x] abs_ge_self [of "rnd x - x"] unfolding that by linarith
  have "rnd x \<noteq> p"
  proof
    assume eq: "rnd x = p"
    show False
    proof (cases "ilog2 x = e")
      case True
      then have "pow2 e \<le> x" using ilog2_bounds(1) [OF x0] by simp
      moreover have "x < p"
        using gap \<open>0 < eps * p\<close> by linarith
      ultimately have "eps * pow2 e < eps * p" by (intro mult_strict_left_mono) simp_all
      moreover have "ulp_exp x = e - 52" using True e x0 by (simp add: ulp_exp_def)
      ultimately have "p - x < eps * p" using err [OF eq] by (simp only: half_ulp)
      then show False using gap by linarith
    next
      case False
      then have "ulp_exp x \<le> e - 53" using xe e x0 by (simp add: ulp_exp_def)
      then have "pow2 (ulp_exp x) \<le> pow2 (e - 53)" by (rule pow2_mono)
      also have "\<dots> = eps * pow2 e" using pow2_diff [of e 53] pow2_of_nat [of 53] by (simp add: eps_def)
      finally have "pow2 (ulp_exp x) \<le> eps * pow2 e" .
      moreover have "eps * pow2 e \<le> eps * p" using pe by (intro mult_left_mono) simp_all
      moreover have "0 < pow2 (ulp_exp x)" by simp
      ultimately show False using err [OF eq] gap by linarith
    qed
  qed
  with le show ?thesis by (simp add: x_def)
qed

section \<open>Sums\<close>

definition rsum :: "rat \<Rightarrow> rat list \<Rightarrow> rat" where
  "rsum a xs = foldl (\<lambda>s x. rnd (s + x)) a xs"

lemma rsum_simps [simp]: "rsum a [] = a" "rsum a (x # xs) = rsum (rnd (a + x)) xs"
  by (simp_all add: rsum_def)

lemma rsum_error:
  assumes "0 \<le> a" "\<forall>x \<in> set xs. pow2 (- 1022) \<le> x"
  shows "(1 - eps) ^ length xs * (a + sum_list xs) \<le> rsum a xs \<and>
    (1 - eps) ^ length xs * rsum a xs \<le> a + sum_list xs"
  using assms
proof (induction xs arbitrary: a)
  case (Cons x xs)
  define c where "c = (1 - eps) ^ length xs"
  define T where "T = sum_list xs"
  have c: "0 \<le> c" by (simp add: c_def)
  have n: "pow2 (- 1022) \<le> a + x" using Cons.prems by (simp add: add_increasing)
  have T: "0 \<le> T" unfolding T_def
    using Cons.prems(2) normal_pos by (intro sum_list_nonneg) (auto intro: less_imp_le)
  have r0: "0 \<le> rnd (a + x)" using normal_pos [OF n] by (simp add: rnd_nonneg)
  have IH: "c * (rnd (a + x) + T) \<le> rsum (rnd (a + x)) xs" "c * rsum (rnd (a + x)) xs \<le> rnd (a + x) + T"
    using Cons.IH [OF r0] Cons.prems(2) by (simp_all add: c_def T_def)
  have eT: "(1 - eps) * T \<le> T" using T mult_right_mono [of "1 - eps" 1 T] by simp
  have "(1 - eps) * c * (a + x + T) = c * ((1 - eps) * (a + x) + (1 - eps) * T)"
    by (simp add: algebra_simps)
  also have "\<dots> \<le> c * (rnd (a + x) + T)" using rnd_lower [OF n] eT c by (intro mult_left_mono add_mono)
  finally have lo: "(1 - eps) * c * (a + x + T) \<le> rsum (rnd (a + x)) xs" using IH(1) by simp
  have "(1 - eps) * c * rsum (rnd (a + x)) xs \<le> (1 - eps) * (rnd (a + x) + T)"
    using mult_left_mono [OF IH(2), of "1 - eps"] by (simp add: mult.assoc)
  also have "\<dots> \<le> a + x + T" using rnd_upper [OF n] eT by (simp add: distrib_left)
  finally show ?case using lo by (simp add: c_def T_def add.assoc)
qed simp

lemma bernoulli_eps: "1 - of_nat n * eps \<le> (1 - eps) ^ n"
proof (induction n)
  case (Suc n)
  have "1 - of_nat (Suc n) * eps \<le> (1 - of_nat n * eps) * (1 - eps)"
    by (simp add: algebra_simps)
  also have "\<dots> \<le> (1 - eps) ^ n * (1 - eps)" using Suc by (intro mult_right_mono) simp_all
  finally show ?case by (simp add: mult.commute)
qed simp


text \<open>A sum of floats in the unit interval stays finite and is the rounded sum of the values.\<close>

abbreviation in_unit :: "f64 \<Rightarrow> bool" where
  "in_unit x \<equiv> is_finite x \<and> 0 \<le> val x \<and> val x \<le> 1"

lemma rnd_le_nat: "x \<le> of_nat n \<Longrightarrow> n < 2 ^ 53 \<Longrightarrow> rnd x \<le> of_nat n"
proof -
  assume x: "x \<le> of_nat n" and n: "n < 2 ^ 53"
  have "\<bar>int n\<bar> < 2 ^ 53" using n by simp
  then have "rnd (of_nat n) = (of_nat n :: rat)" using repr_of_int [of "int n"] rnd_repr_fix by simp
  then show ?thesis using x rnd_le by blast
qed

lemma nat_le_maxf: "n < 2 ^ 53 \<Longrightarrow> of_nat n \<le> maxf"
proof -
  assume "n < 2 ^ 53"
  then have "(of_nat n :: rat) \<le> of_nat (2 ^ 53 - 1)" by (simp only: of_nat_le_iff)
  also have "\<dots> = of_int (2 ^ 53 - 1) * 1" by simp
  also have "\<dots> \<le> of_int (2 ^ 53 - 1) * pow2 971"
    using pow2_mono [of 0 971] by (intro mult_left_mono) simp_all
  finally show ?thesis by (simp add: maxf_def)
qed

lemma foldl_fadd_val:
  assumes "is_finite a" "0 \<le> val a" "val a \<le> of_nat m" "\<forall>x \<in> set xs. in_unit x" "m + length xs < 2 ^ 53"
  shows "is_finite (foldl fadd a xs) \<and> val (foldl fadd a xs) = rsum (val a) (map val xs) \<and>
    0 \<le> val (foldl fadd a xs) \<and> val (foldl fadd a xs) \<le> of_nat (m + length xs)"
  using assms
proof (induction xs arbitrary: a m)
  case (Cons x xs)
  have hi: "val a + val x \<le> of_nat (Suc m)" using Cons.prems by simp
  have "rnd (val a + val x) \<le> of_nat (Suc m)" using Cons.prems by (intro rnd_le_nat [OF hi]) simp
  moreover have "0 \<le> rnd (val a + val x)" using Cons.prems by (simp add: rnd_nonneg)
  moreover have "(of_nat (Suc m) :: rat) \<le> maxf" using Cons.prems by (intro nat_le_maxf) simp
  ultimately have b: "\<bar>rnd (val a + val x)\<bar> \<le> maxf" "0 \<le> rnd (val a + val x)" "rnd (val a + val x) \<le> of_nat (Suc m)"
    by linarith+
  have v: "is_finite (fadd a x)" "val (fadd a x) = rnd (val a + val x)"
    using val_fadd [of a x] Cons.prems b(1) by simp_all
  show ?case using Cons.IH [of "fadd a x" "Suc m"] Cons.prems v b by simp
qed simp

text \<open>
  Sums of non-negative representable numbers of any size: a sum below the smallest normal number is exact,
  so that every addition still has the relative error \<^term>\<open>eps\<close>.
\<close>

lemma repr_grid: "repr r \<Longrightarrow> \<exists>k :: int. r = of_int k * pow2 (- 1074)"
proof -
  assume "repr r"
  then obtain m e where e: "- 1074 \<le> e" "r = of_int m * pow2 e" by (auto simp: repr_def)
  then have "r = of_int (m * 2 ^ nat (e + 1074)) * pow2 (- 1074)"
    using pow2_grid [of "- 1074" e] by simp
  then show ?thesis by blast
qed

lemma repr_subnormal:
  assumes "repr a" "repr b" "0 \<le> a + b" "a + b < pow2 (- 1022)"
  shows "repr (a + b)"
proof -
  obtain m n where mn: "a = of_int m * pow2 (- 1074)" "b = of_int n * pow2 (- 1074)" using repr_grid assms(1,2) by blast
  then have s: "a + b = of_int (m + n) * pow2 (- 1074)" by (simp add: distrib_right)
  have "pow2 (- 1022) = pow2 (- 1074) * pow2 (of_nat 52)" by (simp flip: pow2_add)
  then have "of_int (m + n) * pow2 (- 1074) < of_int (2 ^ 52) * pow2 (- 1074)"
    using assms(4) unfolding s by (simp only: pow2_of_nat) (simp add: mult.commute)
  then have "(of_int (m + n) :: rat) < of_int (2 ^ 52)" by (simp only: mult_less_cancel_right_pos pow2_pos)
  moreover have "(0 :: rat) \<le> of_int (m + n)" using assms(3) pow2_pos [of "- 1074"] unfolding s by (simp only: zero_le_mult_iff) linarith
  ultimately have "\<bar>m + n\<bar> < 2 ^ 53" by (simp only: of_int_less_iff of_int_0_le_iff) simp
  then show ?thesis using s unfolding repr_def by (intro exI [of _ "m + n"] exI [of _ "- 1074"]) simp
qed

lemma rnd_sum:
  assumes "repr a" "repr b" "0 \<le> a" "0 \<le> b"
  shows "(1 - eps) * (a + b) \<le> rnd (a + b)" "(1 - eps) * rnd (a + b) \<le> a + b"
proof -
  have e: "(1 - eps) * r \<le> r" if "0 \<le> r" for r using that mult_right_mono [of "1 - eps" 1 r] by simp
  have "(1 - eps) * (a + b) \<le> rnd (a + b) \<and> (1 - eps) * rnd (a + b) \<le> a + b"
  proof (cases "pow2 (- 1022) \<le> a + b")
    case True
    then show ?thesis using rnd_lower rnd_upper by blast
  next
    case False
    then have "rnd (a + b) = a + b" using repr_subnormal [OF assms(1,2)] assms(3,4) rnd_repr_fix by simp
    then show ?thesis using e [of "a + b"] assms(3,4) by simp
  qed
  then show "(1 - eps) * (a + b) \<le> rnd (a + b)" "(1 - eps) * rnd (a + b) \<le> a + b" by simp_all
qed

lemma rsum_repr_error:
  assumes "0 \<le> a" "repr a" "\<forall>x \<in> set xs. 0 \<le> x \<and> repr x"
  shows "(1 - eps) ^ length xs * (a + sum_list xs) \<le> rsum a xs \<and>
    (1 - eps) ^ length xs * rsum a xs \<le> a + sum_list xs"
  using assms
proof (induction xs arbitrary: a)
  case (Cons x xs)
  define c where "c = (1 - eps) ^ length xs"
  define T where "T = sum_list xs"
  have c: "0 \<le> c" by (simp add: c_def)
  note n = rnd_sum [of a x]
  have T: "0 \<le> T" unfolding T_def using Cons.prems(3) by (intro sum_list_nonneg) auto
  have r0: "0 \<le> rnd (a + x)" using Cons.prems by (simp add: rnd_nonneg)
  have IH: "c * (rnd (a + x) + T) \<le> rsum (rnd (a + x)) xs" "c * rsum (rnd (a + x)) xs \<le> rnd (a + x) + T"
    using Cons.IH [OF r0 repr_rnd] Cons.prems(3) by (simp_all add: c_def T_def)
  have eT: "(1 - eps) * T \<le> T" using T mult_right_mono [of "1 - eps" 1 T] by simp
  have "(1 - eps) * c * (a + x + T) = c * ((1 - eps) * (a + x) + (1 - eps) * T)"
    by (simp add: algebra_simps)
  also have "\<dots> \<le> c * (rnd (a + x) + T)" using n(1) Cons.prems eT c by (intro mult_left_mono add_mono) simp_all
  finally have lo: "(1 - eps) * c * (a + x + T) \<le> rsum (rnd (a + x)) xs" using IH(1) by simp
  have "(1 - eps) * c * rsum (rnd (a + x)) xs \<le> (1 - eps) * (rnd (a + x) + T)"
    using mult_left_mono [OF IH(2), of "1 - eps"] by (simp add: mult.assoc)
  also have "\<dots> \<le> a + x + T" using n(2) Cons.prems eT by (simp add: distrib_left)
  finally show ?case using lo by (simp add: c_def T_def add.assoc)
qed simp

abbreviation nonneg_float :: "f64 \<Rightarrow> bool" where
  "nonneg_float x \<equiv> is_finite x \<and> wf64 x \<and> 0 \<le> val x"

lemma foldl_fadd_rsum:
  assumes "nonneg_float a" "\<forall>x \<in> set xs. nonneg_float x" "val a + sum_list (map val xs) \<le> maxf * (1 - eps) ^ length xs"
  shows "is_finite (foldl fadd a xs) \<and> val (foldl fadd a xs) = rsum (val a) (map val xs)"
  using assms
proof (induction xs arbitrary: a)
  case (Cons x xs)
  define c where "c = (1 - eps) ^ length xs"
  define T where "T = sum_list (map val xs)"
  have c: "0 < c" "c \<le> 1" unfolding c_def by (simp, rule power_le_one) simp_all
  have T: "0 \<le> T" unfolding T_def using Cons.prems(2) by (intro sum_list_nonneg) auto
  have r: "repr (val a)" "repr (val x)" using Cons.prems wf_repr by simp_all
  note n = rnd_sum [OF r]
  have "(1 - eps) * (rnd (val a + val x) + T) = (1 - eps) * rnd (val a + val x) + (1 - eps) * T" by (simp add: distrib_left)
  also have "\<dots> \<le> (val a + val x) + 1 * T" using n(2) Cons.prems T by (intro add_mono mult_right_mono) simp_all
  also have "\<dots> \<le> (1 - eps) * (maxf * c)" using Cons.prems(3) by (simp add: T_def c_def algebra_simps)
  finally have b: "rnd (val a + val x) + T \<le> maxf * c" by (rule mult_left_le_imp_le) simp
  have r0: "0 \<le> rnd (val a + val x)" using Cons.prems by (simp add: rnd_nonneg)
  have "maxf * c \<le> maxf" using c mult_left_mono [of c 1 maxf] by simp
  then have "\<bar>rnd (val a + val x)\<bar> \<le> maxf" using b T r0 by linarith
  note v = val_fadd [of a x, OF _ _ this]
  have "is_finite (fadd a x)" "val (fadd a x) = rnd (val a + val x)" using v Cons.prems by simp_all
  then show ?case using Cons.IH [of "fadd a x"] Cons.prems(2) b r0 by (simp add: c_def T_def)
qed simp

lemma half_power_eps: "n \<le> 2 ^ 52 \<Longrightarrow> 1 / 2 \<le> (1 - eps) ^ n"
proof -
  assume "n \<le> 2 ^ 52"
  then have "(of_nat n :: rat) \<le> of_nat (2 ^ 52)" by (simp only: of_nat_le_iff)
  then have "of_nat n * eps \<le> 2 ^ 52 * eps" by (intro mult_right_mono) simp_all
  then have "1 / 2 \<le> 1 - of_nat n * eps" by (simp add: eps_def)
  then show ?thesis using bernoulli_eps [of n] by linarith
qed

text \<open>A value within the relative error of \<open>n\<close> roundings of an exact one.\<close>

definition near_exact :: "nat \<Rightarrow> rat \<Rightarrow> f64 \<Rightarrow> bool" where
  "near_exact n exact w \<longleftrightarrow> is_finite w \<and> (1 - eps) ^ n * exact \<le> val w \<and> (1 - eps) ^ n * val w \<le> exact"

lemma near_exact_mono:
  assumes "near_exact m exact w" "m \<le> n" "0 \<le> exact" "0 \<le> val w"
  shows "near_exact n exact w"
proof -
  have le: "(1 - eps) ^ n \<le> (1 - eps) ^ m" using assms(2) by (intro power_decreasing) simp_all
  show ?thesis using assms(1) mult_right_mono [OF le assms(3)] mult_right_mono [OF le assms(4)] by (auto simp: near_exact_def)
qed

lemma foldl_fadd_near:
  assumes "nonneg_float a" "\<forall>x \<in> set xs. nonneg_float x" "val a + sum_list (map val xs) \<le> maxf / 2" "length xs \<le> 2 ^ 52"
  shows "near_exact (length xs) (val a + sum_list (map val xs)) (foldl fadd a xs)"
proof -
  have "maxf * (1 / 2) \<le> maxf * (1 - eps) ^ length xs"
    using half_power_eps [OF assms(4)] maxf_pos by (intro mult_left_mono) simp_all
  moreover have "maxf * (1 / 2) = maxf / 2" by simp
  ultimately have "val a + sum_list (map val xs) \<le> maxf * (1 - eps) ^ length xs" using assms(3) by linarith
  then have v: "is_finite (foldl fadd a xs) \<and> val (foldl fadd a xs) = rsum (val a) (map val xs)"
    by (rule foldl_fadd_rsum [OF assms(1,2)])
  have "\<forall>x \<in> set (map val xs). 0 \<le> x \<and> repr x" using assms(2) wf_repr by auto
  then show ?thesis using rsum_repr_error [of "val a" "map val xs"] assms(1) wf_repr v by (simp add: near_exact_def)
qed

section \<open>Normalising a vector\<close>

text \<open>
  A vector of \<open>n\<close> numbers between \<open>1/32\<close> and \<open>1\<close> is divided by its rounded sum; the rounded sum of
  the quotients differs from one by at most the \<open>2 n + 1\<close> roundings made.
\<close>


definition normalisable :: "f64 list \<Rightarrow> bool" where
  "normalisable xs \<longleftrightarrow> xs \<noteq> [] \<and> length xs \<le> 2 ^ 20 \<and>
     (\<forall>x \<in> set xs. is_finite x \<and> wf64 x \<and> 1 / 32 \<le> val x \<and> val x \<le> 1)"

lemma normalisable_vals: "normalisable xs \<Longrightarrow> \<forall>x \<in> set (map val xs). pow2 (- 1022) \<le> x"
proof -
  assume "normalisable xs"
  moreover have "pow2 (- 1022) \<le> (1 / 32 :: rat)"
    using pow2_mono [of "- 1022" "- 5"] pow2_diff [of 0 5] pow2_of_nat [of 5] by simp
  ultimately show ?thesis by (force simp: normalisable_def)
qed

lemma normalisable_unit: "normalisable xs \<Longrightarrow> \<forall>x \<in> set xs. in_unit x"
  by (force simp: normalisable_def)

lemma unit_sum_val:
  assumes "normalisable xs"
  defines "S \<equiv> foldl fadd (Fin 0) xs"
  shows "is_finite S" "val S = rsum 0 (map val xs)" "val S \<le> 2 ^ 20" "\<forall>x \<in> set xs. val x \<le> val S" "0 < val S"
proof -
  have xs: "xs \<noteq> []" "length xs \<le> 2 ^ 20" using assms(1) by (simp_all add: normalisable_def)
  have v: "is_finite S \<and> val S = rsum 0 (map val xs) \<and> 0 \<le> val S \<and> val S \<le> of_nat (0 + length xs)"
    unfolding S_def using foldl_fadd_val [of "Fin 0" 0 xs] normalisable_unit [OF assms(1)] xs(2) by simp
  moreover have "(of_nat (length xs) :: rat) \<le> of_nat (2 ^ 20)" using xs(2) by (simp only: of_nat_le_iff)
  ultimately show f: "is_finite S" "val S = rsum 0 (map val xs)" "val S \<le> 2 ^ 20" by simp_all
  show le: "\<forall>x \<in> set xs. val x \<le> val S"
  proof
    fix x assume x: "x \<in> set xs"
    have "fle x S" unfolding S_def
      using assms(1) normalisable_unit [OF assms(1)] x
      by (intro foldl_fadd_ge_elem) (auto simp: normalisable_def fle_finite)
    then show "val x \<le> val S" using f x normalisable_unit [OF assms(1)] by (simp add: fle_finite)
  qed
  obtain x where x: "x \<in> set xs" using xs(1) by (meson last_in_set)
  then have "1 / 32 \<le> val x" using assms(1) by (simp add: normalisable_def)
  then show "0 < val S" using le x by fastforce
qed

lemma quotient_val:
  assumes "normalisable xs" "x \<in> set xs"
  defines "S \<equiv> foldl fadd (Fin 0) xs"
  shows "in_unit (fdiv x S)" "val (fdiv x S) = rnd (val x / val S)" "pow2 (- 25) \<le> val x / val S"
    "pow2 (- 25) \<le> val (fdiv x S)"
proof -
  note S = unit_sum_val [OF assms(1), folded S_def]
  have x: "is_finite x" "1 / 32 \<le> val x" using assms(1,2) by (simp_all add: normalisable_def)
  have "val x / val S \<le> 1" using S(4,5) assms(2) by simp
  then have le: "rnd (val x / val S) \<le> 1" by (intro rnd_le) (simp_all add: rnd_repr_fix)
  have ge: "0 \<le> rnd (val x / val S)" using x S(5) by (simp add: rnd_nonneg)
  have "(1 :: rat) \<le> maxf" using nat_le_maxf [of 1] by simp
  then have "\<bar>rnd (val x / val S)\<bar> \<le> maxf" using le ge by linarith
  then show v: "val (fdiv x S) = rnd (val x / val S)" and "in_unit (fdiv x S)"
    using val_fdiv [OF x(1) S(1) S(5)] le ge by simp_all
  have "pow2 (- 25) = 1 / 32 / 2 ^ 20" using pow2_diff [of 0 25] pow2_of_nat [of 25] by simp
  also have "\<dots> \<le> val x / val S" using x S(3,5) by (intro frac_le) simp_all
  finally show q: "pow2 (- 25) \<le> val x / val S" .
  show "pow2 (- 25) \<le> val (fdiv x S)" unfolding v using q
    by (intro rnd_ge) (simp_all add: rnd_repr_fix repr_pow2)
qed

lemma sum_quotients:
  assumes "normalisable xs"
  defines "S \<equiv> foldl fadd (Fin 0) xs"
  defines "n \<equiv> length xs" and "Q \<equiv> sum_list (map (\<lambda>x. val (fdiv x S)) xs)"
  shows "(1 - eps) ^ Suc n \<le> Q" "(1 - eps) ^ Suc n * Q \<le> 1"
proof -
  define T where "T = sum_list (map val xs)"
  define c where "c = (1 - eps) ^ n"
  have c: "0 \<le> c" by (simp add: c_def)
  note S = unit_sum_val [OF assms(1), folded S_def]
  have TS: "c * T \<le> val S" "c * val S \<le> T"
    using rsum_error [OF _ normalisable_vals [OF assms(1)], of 0] S(2) by (simp_all add: T_def c_def n_def)
  have n25: "pow2 (- 1022) \<le> pow2 (- 25)" by (rule pow2_mono) simp
  have each: "(1 - eps) * (val x / val S) \<le> val (fdiv x S) \<and> (1 - eps) * val (fdiv x S) \<le> val x / val S"
    if "x \<in> set xs" for x
    using quotient_val [OF assms(1) that, folded S_def] n25
      rnd_lower [of "val x / val S"] rnd_upper [of "val x / val S"] by simp
  have div: "sum_list (map (\<lambda>x. val x / val S) xs) = T / val S"
    unfolding T_def by (induction xs) (simp_all add: add_divide_distrib)
  have "(1 - eps) * (T / val S) = sum_list (map (\<lambda>x. (1 - eps) * (val x / val S)) xs)"
    by (simp only: div [symmetric] sum_list_const_mult)
  also have "\<dots> \<le> Q" unfolding Q_def using each by (intro sum_list_mono) simp
  finally have lo: "(1 - eps) * (T / val S) \<le> Q" .
  have "(1 - eps) * Q = sum_list (map (\<lambda>x. (1 - eps) * val (fdiv x S)) xs)"
    by (simp only: Q_def sum_list_const_mult)
  also have "\<dots> \<le> sum_list (map (\<lambda>x. val x / val S) xs)" using each by (intro sum_list_mono) simp
  finally have hi: "(1 - eps) * Q \<le> T / val S" by (simp only: div)
  have "c \<le> T / val S" using TS(2) S(5) by (simp add: pos_le_divide_eq)
  then have "(1 - eps) * c \<le> (1 - eps) * (T / val S)" by (intro mult_left_mono) simp_all
  with lo show "(1 - eps) ^ Suc n \<le> Q" by (simp add: c_def)
  have "c * (T / val S) \<le> 1" using TS(1) S(5) by (simp add: pos_divide_le_eq)
  moreover have "c * ((1 - eps) * Q) \<le> c * (T / val S)" using hi c by (rule mult_left_mono)
  ultimately show "(1 - eps) ^ Suc n * Q \<le> 1" by (simp add: c_def mult.commute mult.left_commute)
qed

text \<open>The rounded running sum of the quotients.\<close>

theorem normalised_total:
  assumes "normalisable xs"
  defines "ys \<equiv> map (\<lambda>x. fdiv x (foldl fadd (Fin 0) xs)) xs"
  defines "P \<equiv> foldl fadd (hd ys) (tl ys)"
  shows "is_finite P" "999 / 1000 \<le> val P" "val P \<le> 1001 / 1000"
proof -
  obtain z zs where xs: "xs = z # zs" and len: "length xs \<le> 2 ^ 20"
    using assms(1) by (cases xs) (auto simp: normalisable_def)
  define S where "S = foldl fadd (Fin 0) xs"
  have q: "in_unit (fdiv x S)" "pow2 (- 25) \<le> val (fdiv x S)" if "x \<in> set xs" for x
    using quotient_val [OF assms(1) that] by (simp_all add: S_def)
  have ys: "hd ys = fdiv z S" "tl ys = map (\<lambda>x. fdiv x S) zs" by (simp_all add: ys_def xs S_def)
  define Q where "Q = sum_list (map (\<lambda>x. val (fdiv x S)) xs)"
  have m: "\<forall>x \<in> set (map val (tl ys)). pow2 (- 1022) \<le> x"
    using q(2) pow2_mono [of "- 1022" "- 25"] by (fastforce simp: ys xs)
  have P: "is_finite P" "val P = rsum (val (hd ys)) (map val (tl ys))"
    unfolding P_def using foldl_fadd_val [of "hd ys" 1 "tl ys"] q(1) len by (auto simp: ys xs)
  show "is_finite P" by (rule P)
  have Q: "val (hd ys) + sum_list (map val (tl ys)) = Q" by (simp add: Q_def ys xs comp_def)
  have h0: "0 \<le> val (hd ys)" using q(1) by (simp add: ys xs)
  define d where "d = (1 - eps) ^ length zs"
  define c where "c = (1 - eps) ^ Suc (length xs)"
  have PQ: "d * Q \<le> val P" "d * val P \<le> Q"
    using rsum_error [OF h0 m, unfolded Q] by (simp_all only: P(2) d_def ys length_map)
  have cQ: "c \<le> Q" "c * Q \<le> 1"
    using sum_quotients [OF assms(1)] by (simp_all add: c_def Q_def S_def)
  have dc: "0 \<le> d" "0 \<le> c" by (simp_all add: c_def d_def)
  have "d * c = (1 - eps) ^ (length zs + Suc (length xs))" by (simp only: d_def c_def power_add)
  moreover have "1 - of_nat (length zs + Suc (length xs)) * eps \<ge> 1 - of_nat (2 ^ 22) * eps"
    using len by (intro diff_left_mono mult_right_mono, simp only: of_nat_le_iff) (simp_all add: xs)
  ultimately have b: "1 - of_nat (2 ^ 22) * eps \<le> d * c"
    using bernoulli_eps [of "length zs + Suc (length xs)"] by linarith
  have k: "(999999 / 1000000 :: rat) \<le> 1 - of_nat (2 ^ 22) * eps" by (simp add: eps_def)
  have "d * c \<le> d * Q" using cQ(1) dc by (intro mult_left_mono)
  then show "999 / 1000 \<le> val P" using b k PQ(1) by linarith
  have "c * (d * val P) \<le> c * Q" using PQ(2) dc by (intro mult_left_mono)
  then have "(d * c) * val P \<le> 1" using cQ(2) by (simp add: mult.commute mult.left_commute)
  moreover have P0: "0 \<le> val P" using PQ(1) dc cQ(1) by (meson mult_nonneg_nonneg order_trans)
  moreover have "(999999 / 1000000) * val P \<le> (d * c) * val P" using b k P0 by (intro mult_right_mono) linarith
  ultimately show "val P \<le> 1001 / 1000" by linarith
qed

section \<open>Ranges of operations\<close>

definition float_in :: "rat \<Rightarrow> rat \<Rightarrow> f64 \<Rightarrow> bool" where
  "float_in lo hi x \<longleftrightarrow> is_finite x \<and> lo \<le> val x \<and> val x \<le> hi"

text \<open>A bound that is itself a number of moderate size.\<close>

definition grid :: "rat \<Rightarrow> bool" where
  "grid b = (rnd b = b \<and> \<bar>b\<bar> \<le> 2 ^ 40)"

lemma float_in_widen: "float_in lo hi x \<Longrightarrow> lo' \<le> lo \<Longrightarrow> hi \<le> hi' \<Longrightarrow> float_in lo' hi' x"
  by (auto simp: float_in_def)

lemma grid_uminus: "grid b \<Longrightarrow> grid (- b)"
  by (simp add: grid_def rnd_uminus)

lemma rnd_in_grid:
  assumes "grid lo" "grid hi" "lo \<le> r" "r \<le> hi"
  shows "lo \<le> rnd r" "rnd r \<le> hi" "\<bar>rnd r\<bar> \<le> maxf"
proof -
  have m: "(2 ^ 40 :: rat) \<le> maxf" using nat_le_maxf [of "2 ^ 40"] by simp
  show a: "lo \<le> rnd r" "rnd r \<le> hi" using assms rnd_ge [of lo r] rnd_le [of hi r] by (simp_all add: grid_def)
  then show "\<bar>rnd r\<bar> \<le> maxf" using m assms(1,2) by (simp add: grid_def abs_le_iff)
qed

lemma fadd_in:
  assumes "float_in a b x" "float_in c d y" "grid lo" "grid hi" "lo \<le> a + c" "b + d \<le> hi"
  shows "float_in lo hi (fadd x y)"
  using assms rnd_in_grid [of lo hi "val x + val y"] val_fadd [of x y]
  by (auto simp: float_in_def)

lemma fsub_in:
  assumes "float_in a b x" "float_in c d y" "grid lo" "grid hi" "lo \<le> a - d" "b - c \<le> hi"
  shows "float_in lo hi (fsub x y)"
  using assms rnd_in_grid [of lo hi "val x - val y"] val_fsub [of x y]
  by (auto simp: float_in_def)

lemma val_fmul:
  assumes "is_finite a" "is_finite b" "\<bar>rnd (val a * val b)\<bar> \<le> maxf"
  shows "is_finite (fmul a b)" "val (fmul a b) = rnd (val a * val b)"
  using assms val_mk64 [of "val a * val b"] by (auto simp: fmul_def Let_def is_finite_def)

lemma fmul_in_abs:
  assumes "float_in (- X) X x" "float_in (- Y) Y y" "grid B" "X * Y \<le> B"
  shows "float_in (- B) B (fmul x y)"
proof -
  have "\<bar>val x * val y\<bar> \<le> X * Y"
    using assms(1,2) by (auto simp: abs_mult float_in_def abs_le_iff intro!: mult_mono)
  then have "- B \<le> val x * val y" "val x * val y \<le> B" using assms(4) by linarith+
  then show ?thesis
    using rnd_in_grid [OF grid_uminus [OF assms(3)] assms(3), of "val x * val y"] val_fmul [of x y] assms(1,2)
    by (simp add: float_in_def)
qed

lemma fmul_in_pos:
  assumes "float_in 0 X x" "float_in 0 Y y" "grid B" "X * Y \<le> B"
  shows "float_in 0 B (fmul x y)"
proof -
  have "0 \<le> val x * val y" "val x * val y \<le> X * Y"
    using assms(1,2) by (auto simp: float_in_def intro!: mult_mono)
  then show ?thesis
    using rnd_in_grid [of 0 B "val x * val y"] val_fmul [of x y] assms by (simp add: float_in_def grid_def)
qed

lemma fdiv_in_pos:
  assumes "float_in 0 X x" "float_in Y Z y" "0 < Y" "grid B" "X \<le> B * Y"
  shows "float_in 0 B (fdiv x y)"
proof -
  have v: "0 \<le> val x" "0 < val y" "val x \<le> B * Y" "Y \<le> val y" using assms by (auto simp: float_in_def)
  then have "0 \<le> B" using assms(3) by (meson order_trans zero_le_mult_iff not_le)
  then have "val x \<le> B * val y" using v(3,4) mult_left_mono [of Y "val y" B] by linarith
  then have "val x / val y \<le> B" using v(2) by (simp add: pos_divide_le_eq)
  moreover have "0 \<le> val x / val y" using v by simp
  ultimately show ?thesis
    using rnd_in_grid [of 0 B "val x / val y"] val_fdiv [of x y] v(2) assms by (simp add: float_in_def grid_def)
qed

end
