(* ===== verification/Weight_Refresh.thy ===== *)
theory Weight_Refresh
  imports Frontier Float_Error
begin

text \<open>
  Testcase weights and the factor derived from them (\<open>feature_sched/stats.rs\<close>, \<open>factor.rs\<close>,
  \<open>weight_refresh.rs\<close>): the running mean and variance, the factor, the weight of a testcase in both
  modes, the recomputation over a corpus snapshot (the body of the worker thread) and the publication
  of its result. Shown: the running mean stays between the weights and the second moment never becomes
  negative or NaN in floating point, the factor stays within its bounds for every libm, and what a
  publication changes.
\<close>

section \<open>Statistics and factor\<close>

definition ws_update :: "weight_stats \<Rightarrow> f64 \<Rightarrow> weight_stats" where
  "ws_update st w =
     (let n = ws_n st + 1; delta = fsub w (ws_mu st);
          mu = fadd (ws_mu st) (fdiv delta (f_of_u64 n))
      in \<lparr>ws_n = n, ws_mu = mu, ws_m2 = fadd (ws_m2 st) (fmul delta (fsub w mu))\<rparr>)"

definition sigma :: "weight_stats \<Rightarrow> f64" where
  "sigma st = (if 1 < ws_n st then fsqrt (fdiv (ws_m2 st) (f_of_u64 (ws_n st - 1)))
     else f_lit 0.000000001)"

definition raw_factor :: "libm \<Rightarrow> factor_params \<Rightarrow> f64 \<Rightarrow> f64" where
  "raw_factor lm p z = (if fp_use_tanh p then fadd (Fin 1) (m_tanh lm (fmul (fp_beta p) z))
     else m_exp lm (fmul (fp_beta p) z))"

definition factor_of_z :: "libm \<Rightarrow> factor_params \<Rightarrow> f64 \<Rightarrow> f64 option" where
  "factor_of_z lm p z =
     (let g = raw_factor lm p z; raw = (if is_finite g then g else Fin 1);
          blended = fadd (Fin 1) (fmul (fp_alpha p) (fsub raw (Fin 1)))
      in fclamp blended (fp_gmin p) (fp_gmax p))"

definition entry_weight :: "weight_compute_mode \<Rightarrow> testcase \<Rightarrow> f64 option" where
  "entry_weight mode tc = (case mode of
     Frontier \<Rightarrow> map_option fw_weight (tc_feature_weight_meta tc) | Path \<Rightarrow> tc_path_weight tc)"

definition compute_factor :: "libm \<Rightarrow> factor_params \<Rightarrow> fuzz_state \<Rightarrow> testcase \<Rightarrow> f64 option" where
  "compute_factor lm p s entry =
     (if \<not> get_features_enabled s then Some (Fin 1)
      else case m_stats s of None \<Rightarrow> Some (Fin 1)
      | Some stats \<Rightarrow> (case entry_weight (weight_mode s) entry of None \<Rightarrow> Some (Fin 1)
        | Some w \<Rightarrow>
            if ws_n stats < 2 then Some (Fin 1)
            else factor_of_z lm p
              (fdiv (fsub w (ws_mu stats)) (fadd (sigma stats) (f_lit 0.000000001)))))"

section \<open>Recomputation over a snapshot\<close>

record frontier_snapshot =
  sn_f_prev :: bitset
  sn_f_next :: bitset
  sn_successors :: "nat list list"

record testcase_snapshot =
  ts_id :: corpus_id
  covered_sancov :: "nat list"

record corpus_weight_snapshot =
  cw_iteration :: u64
  cw_mode :: weight_compute_mode
  feature_weights_by_sancov :: "f64 list"
  cw_frontier :: "frontier_snapshot option"
  cw_testcases :: "testcase_snapshot list"

record testcase_weight_result =
  tr_id :: corpus_id
  tr_weight :: f64

record weight_recompute_result =
  wr_iteration :: u64
  wr_mode :: weight_compute_mode
  per_testcase :: "testcase_weight_result list"

text \<open>\<open>corpus.get(id)?\<close> lifted to the common error type; the id iterator does not end only on a corrupted
  corpus.\<close>

definition corpus_lookup :: "fuzz_state \<Rightarrow> corpus_id \<Rightarrow> error + testcase" where
  "corpus_lookup s k = map_err CorpusE (corpus_get (st_corpus s) k)"

definition corpus_ids :: "fuzz_state \<Rightarrow> error + corpus_id list" where
  "corpus_ids s = (case ids (st_corpus s) of Some ks \<Rightarrow> Ok ks | None \<Rightarrow> Err Panic)"

definition corpus_modify :: "corpus_id \<Rightarrow> (testcase \<Rightarrow> testcase) \<Rightarrow> fuzz_state \<Rightarrow> error + fuzz_state" where
  "corpus_modify k f s = bindR (map_err CorpusE (update_testcase k f (st_corpus s))) (\<lambda>c. Ok (s\<lparr>st_corpus := c\<rparr>))"

definition build_corpus_weight_snapshot ::
  "fuzz_state \<Rightarrow> u64 \<Rightarrow> weight_compute_mode \<Rightarrow> f64 list \<Rightarrow> error + corpus_weight_snapshot" where
  "build_corpus_weight_snapshot s iteration mode weights =
     (let frontier = (if mode = Frontier
            then (case (m_frontier s, m_acfg s) of
                    (Some fm, Some acfg) \<Rightarrow> Some \<lparr>sn_f_prev = f_prev fm, sn_f_next = f_next fm,
                        sn_successors = successors acfg\<rparr>
                  | _ \<Rightarrow> None)
            else None)
      in bindR (corpus_ids s) (\<lambda>ks. bindR (map_result (\<lambda>k. bindR (corpus_lookup s k) (\<lambda>tc.
           Ok \<lparr>ts_id = k, covered_sancov = (case tc_sancov tc of Some l \<Rightarrow> l | None \<Rightarrow> [])\<rparr>)) ks) (\<lambda>tcs.
         Ok \<lparr>cw_iteration = iteration, cw_mode = mode, feature_weights_by_sancov = weights,
             cw_frontier = frontier, cw_testcases = tcs\<rparr>)))"

definition path_weight :: "f64 list \<Rightarrow> nat list \<Rightarrow> f64" where
  "path_weight ws cov = fsum (filter (\<lambda>w. is_finite w \<and> flt (Fin 0) w) (map (get_or (Fin 0) ws) cov))"

text \<open>
  The uncovered frontier successors are collected in a hash set and added in its iteration order: the
  order is the argument \<open>ord\<close>, applied to the distinct members.
\<close>

definition next_seen :: "frontier_snapshot \<Rightarrow> nat list \<Rightarrow> nat list" where
  "next_seen fr cov = remdups (concat (map (\<lambda>node.
     filter (bitset_get (sn_f_next fr)) (neighbours (sn_successors fr) node)) cov))"

definition frontier_weight :: "(nat list \<Rightarrow> nat list) \<Rightarrow> f64 list \<Rightarrow> frontier_snapshot \<Rightarrow> nat list \<Rightarrow> f64" where
  "frontier_weight ord ws fr cov =
     (let total1 = foldl (\<lambda>acc node. if bitset_get (sn_f_prev fr) node
            then fadd acc (fmax (get_or (Fin 0) ws node) (Fin 0)) else acc) (Fin 0) cov;
          total2 = foldl (\<lambda>acc node. fadd acc (fmax (get_or (Fin 0) ws node) (Fin 0)))
            total1 (ord (next_seen fr cov))
      in if is_finite total2 then total2 else Fin 0)"

definition testcase_weight :: "(nat list \<Rightarrow> nat list) \<Rightarrow> corpus_weight_snapshot \<Rightarrow> nat list \<Rightarrow> f64" where
  "testcase_weight ord sn cov = (case cw_mode sn of
     Path \<Rightarrow> path_weight (feature_weights_by_sancov sn) cov
   | Frontier \<Rightarrow> (case cw_frontier sn of
       Some f \<Rightarrow> frontier_weight ord (feature_weights_by_sancov sn) f cov
     | None \<Rightarrow> Fin 0))"

definition compute_weights :: "(nat list \<Rightarrow> nat list) \<Rightarrow> corpus_weight_snapshot \<Rightarrow> weight_recompute_result" where
  "compute_weights ord sn = \<lparr>wr_iteration = cw_iteration sn, wr_mode = cw_mode sn,
     per_testcase = map (\<lambda>tc. \<lparr>tr_id = ts_id tc, tr_weight = testcase_weight ord sn (covered_sancov tc)\<rparr>)
       (cw_testcases sn)\<rparr>"

section \<open>Publication\<close>

definition store_weight :: "u64 \<Rightarrow> weight_compute_mode \<Rightarrow> f64 \<Rightarrow> testcase \<Rightarrow> testcase" where
  "store_weight iteration mode w tc = (case mode of
     Frontier \<Rightarrow> tc\<lparr>tc_feature_weight_meta := Some \<lparr>fw_iteration = iteration, fw_weight = w, fw_mode = mode\<rparr>\<rparr>
   | Path \<Rightarrow> tc\<lparr>tc_path_weight := Some w\<rparr>)"

fun publish_weights :: "u64 \<Rightarrow> weight_compute_mode \<Rightarrow> testcase_weight_result list \<Rightarrow> weight_stats \<Rightarrow>
    fuzz_state \<Rightarrow> error + (weight_stats \<times> fuzz_state)" where
  "publish_weights iteration mode [] st s = Ok (st, s)"
| "publish_weights iteration mode (item # items) st s =
     bindR (corpus_modify (tr_id item) (store_weight iteration mode (tr_weight item)) s)
       (publish_weights iteration mode items (ws_update st (tr_weight item)))"

fun publish_factors :: "libm \<Rightarrow> factor_params \<Rightarrow> testcase_weight_result list \<Rightarrow> fuzz_state \<Rightarrow> error + fuzz_state" where
  "publish_factors lm p [] s = Ok s"
| "publish_factors lm p (item # items) s =
     bindR (corpus_lookup s (tr_id item)) (\<lambda>entry.
       case compute_factor lm p s entry of None \<Rightarrow> Err Panic
       | Some factor \<Rightarrow> bindR (corpus_modify (tr_id item) (\<lambda>tc. tc\<lparr>tc_perf_mult := Some factor\<rparr>) s)
           (publish_factors lm p items))"

definition publish_weight_recompute_result ::
  "libm \<Rightarrow> fuzz_state \<Rightarrow> weight_recompute_result \<Rightarrow> error + fuzz_state" where
  "publish_weight_recompute_result lm s result =
     bindR (publish_weights (wr_iteration result) (wr_mode result) (per_testcase result)
              weight_stats_default s) (\<lambda>(stats, s1).
       let s2 = s1\<lparr>m_stats := Some stats\<rparr> in
       publish_factors lm (get_factor_params s2) (per_testcase result) s2)"

section \<open>Floating point mean and variance\<close>

text \<open>A rounded positive difference, divided by at least two, is at most the exact difference.\<close>

lemma rnd_half_le:
  assumes "repr a" "repr b" "b < a" "2 \<le> n"
  shows "rnd (rnd (a - b) / n) \<le> a - b" "0 \<le> rnd (rnd (a - b) / n)"
proof -
  let ?x = "a - b"
  obtain k l :: int where k: "a = of_int k * pow2 (- 1074)" "b = of_int l * pow2 (- 1074)"
    using assms repr_grid by blast
  then have x: "?x = of_int (k - l) * pow2 (- 1074)" by (simp add: algebra_simps)
  have "1 \<le> k - l" using assms(3) k by simp
  then have "pow2 (- 1074) \<le> ?x" unfolding x by simp
  then have e: "- 1074 \<le> ilog2 ?x" using ilog2_ge [of ?x "- 1074"] assms(3) by simp
  have b: "pow2 (ilog2 ?x) \<le> ?x" "?x < pow2 (ilog2 ?x + 1)" using assms(3) ilog2_bounds [of ?x] by simp_all
  have "rnd ?x \<le> rnd (pow2 (ilog2 ?x + 1))" using b(2) by (intro rnd_mono) simp
  also have "\<dots> = pow2 (ilog2 ?x + 1)" using e by (intro rnd_repr_fix repr_pow2) simp
  also have "\<dots> = 2 * pow2 (ilog2 ?x)" using pow2_of_nat [of 1] by (simp add: pow2_add)
  finally have "rnd ?x \<le> 2 * pow2 (ilog2 ?x)" .
  also have "\<dots> \<le> n * pow2 (ilog2 ?x)" using assms(4) by (intro mult_right_mono) simp_all
  finally have "rnd ?x / n \<le> pow2 (ilog2 ?x)" using assms(4) by (simp add: divide_le_eq mult.commute)
  then have "rnd (rnd ?x / n) \<le> rnd (pow2 (ilog2 ?x))" by (rule rnd_mono)
  also have "\<dots> = pow2 (ilog2 ?x)" using e by (simp add: rnd_repr_fix repr_pow2)
  finally show "rnd (rnd ?x / n) \<le> ?x" using b(1) by simp
  show "0 \<le> rnd (rnd ?x / n)" using assms by (intro rnd_nonneg divide_nonneg_nonneg) simp_all
qed

lemma mean_step_between:
  assumes "repr mu" "repr w" "2 \<le> n"
  shows "min mu w \<le> rnd (mu + rnd (rnd (w - mu) / n)) \<and> rnd (mu + rnd (rnd (w - mu) / n)) \<le> max mu w"
proof (cases mu w rule: linorder_cases)
  case less
  then have "mu \<le> mu + rnd (rnd (w - mu) / n)" "mu + rnd (rnd (w - mu) / n) \<le> w"
    using rnd_half_le [OF assms(2,1) _ assms(3)] by simp_all
  then have "mu \<le> rnd (mu + rnd (rnd (w - mu) / n))" "rnd (mu + rnd (rnd (w - mu) / n)) \<le> w"
    using rnd_ge [OF rnd_repr_fix [OF assms(1)]] rnd_le [OF rnd_repr_fix [OF assms(2)]] by blast+
  then show ?thesis using less by simp
next
  case equal
  then show ?thesis using assms by (simp add: rnd_repr_fix)
next
  case greater
  have "rnd (w - mu) / n = - (rnd (mu - w) / n)" using rnd_uminus [of "mu - w"] by simp
  then have "rnd (rnd (w - mu) / n) = - rnd (rnd (mu - w) / n)" by (simp add: rnd_uminus)
  then have "mu + rnd (rnd (w - mu) / n) \<le> mu" "w \<le> mu + rnd (rnd (w - mu) / n)"
    using rnd_half_le [OF assms(1,2) greater assms(3)] by simp_all
  then have "rnd (mu + rnd (rnd (w - mu) / n)) \<le> mu" "w \<le> rnd (mu + rnd (rnd (w - mu) / n))"
    using rnd_ge [OF rnd_repr_fix [OF assms(2)]] rnd_le [OF rnd_repr_fix [OF assms(1)]] by blast+
  then show ?thesis using greater by simp
qed

text \<open>
  The invariant of the running statistics over weights in \<open>[lo, hi]\<close>: the mean is a finite value
  between the bounds, and the second moment is not negative (possibly infinite, never NaN).
\<close>

definition stats_ok :: "rat \<Rightarrow> rat \<Rightarrow> weight_stats \<Rightarrow> bool" where
  "stats_ok lo hi st \<longleftrightarrow> is_finite (ws_mu st) \<and> wf64 (ws_mu st) \<and> lo \<le> val (ws_mu st) \<and>
     val (ws_mu st) \<le> hi \<and> fnonneg (ws_m2 st)"

lemma ws_update_ok:
  assumes st: "stats_ok lo hi st" and bnd: "0 \<le> lo" "hi \<le> maxf"
    and w: "is_finite w" "wf64 w" "lo \<le> val w" "val w \<le> hi"
    and n: "2 \<le> ws_n st + 1"
  shows "stats_ok lo hi (ws_update st w)"
proof -
  let ?mu = "ws_mu st" and ?n = "f_of_u64 (ws_n st + 1)"
  let ?delta = "fsub w ?mu"
  let ?mu' = "fadd ?mu (fdiv ?delta ?n)"
  have mu: "is_finite ?mu" "wf64 ?mu" "lo \<le> val ?mu" "val ?mu \<le> hi" "fnonneg (ws_m2 st)"
    using st by (simp_all add: stats_ok_def)
  have reprs: "repr (val ?mu)" "repr (val w)" using wf_repr mu w by blast+
  have "f_of_u64 2 = Fin 2" by (simp add: f_of_u64_def f_of_nat_small)
  then have n2: "2 \<le> val ?n" using f_of_u64_mono [OF n] by (simp add: fle_finite)
  have d: "is_finite ?delta" "val ?delta = rnd (val w - val ?mu)"
    using val_fsub [OF w(1) mu(1) abs_rnd_le] mu w bnd by auto
  have dn: "\<bar>val ?delta / val ?n\<bar> \<le> maxf"
  proof -
    have "\<bar>val ?delta\<bar> \<le> maxf" unfolding d(2) using mu w bnd by (intro abs_rnd_le) auto
    moreover have "\<bar>val ?delta / val ?n\<bar> \<le> \<bar>val ?delta\<bar>" 
      using n2 mult_left_mono [of 1 "val ?n" "\<bar>val ?delta\<bar>"] by (simp add: divide_le_eq)
    ultimately show ?thesis by simp
  qed
  have q: "is_finite (fdiv ?delta ?n)" "val (fdiv ?delta ?n) = rnd (val ?delta / val ?n)"
    using val_fdiv [OF d(1) _ _ abs_rnd_le [OF dn]] n2 by auto
  note btw = mean_step_between [OF reprs n2]
  have mu': "is_finite ?mu'" "val ?mu' = rnd (val ?mu + val (fdiv ?delta ?n))"
    using val_fadd [OF mu(1) q(1)] btw mu w bnd by (auto simp: q d)
  have range: "min (val ?mu) (val w) \<le> val ?mu'" "val ?mu' \<le> max (val ?mu) (val w)"
    using btw by (simp_all add: mu' q d)
  have e: "is_finite (fsub w ?mu')" "val (fsub w ?mu') = rnd (val w - val ?mu')"
    using val_fsub [OF w(1) mu'(1) abs_rnd_le] range mu w bnd by auto
  have "0 \<le> val ?delta * val (fsub w ?mu')"
    unfolding d e using range
    by (cases "val ?mu \<le> val w") (auto simp: mult_nonneg_nonneg mult_nonpos_nonpos rnd_nonneg rnd_nonpos)
  then have "fnonneg (fadd (ws_m2 st) (fmul ?delta (fsub w ?mu')))"
    using mu(5) d(1) e(1) by (intro fadd_nonneg fmul_same_sign)
  then show ?thesis using mu' range mu w by (auto simp: stats_ok_def ws_update_def Let_def)
qed

lemma ws_first_ok:
  assumes "is_finite w" "wf64 w" "0 \<le> val w"
  shows "stats_ok (val w) (val w) (ws_update weight_stats_default w)"
proof -
  have le: "val w \<le> maxf" using assms by (cases w) (auto simp: val_def)
  have r: "rnd (val w) = val w" using wf_repr [OF assms(2,1)] by (rule rnd_repr_fix)
  have 1: "f_of_u64 1 = Fin 1" using f_of_nat_1 by (simp add: f_of_u64_def)
  have d: "is_finite (fsub w (Fin 0))" "val (fsub w (Fin 0)) = val w"
    using val_fsub [of w "Fin 0"] assms le r by simp_all
  have q: "is_finite (fdiv (fsub w (Fin 0)) (Fin 1))" "val (fdiv (fsub w (Fin 0)) (Fin 1)) = val w"
    using val_fdiv [of "fsub w (Fin 0)" "Fin 1"] d assms le r by simp_all
  let ?mu = "fadd (Fin 0) (fdiv (fsub w (Fin 0)) (Fin 1))"
  have mu: "is_finite ?mu" "val ?mu = val w"
    using val_fadd [of "Fin 0" "fdiv (fsub w (Fin 0)) (Fin 1)"] q assms le r by simp_all
  have "is_finite (fsub w ?mu)" "val (fsub w ?mu) = 0"
    using val_fsub [of w ?mu] mu assms by simp_all
  then have "fnonneg (fadd (Fin 0) (fmul (fsub w (Fin 0)) (fsub w ?mu)))"
    using d by (intro fadd_nonneg fmul_same_sign) simp_all
  then show ?thesis using mu by (simp add: stats_ok_def ws_update_def weight_stats_default_def 1 Let_def)
qed

lemma stats_ok_widen: "stats_ok lo hi st \<Longrightarrow> lo' \<le> lo \<Longrightarrow> hi \<le> hi' \<Longrightarrow> stats_ok lo' hi' st"
  by (auto simp: stats_ok_def)

lemma ws_n_foldl: "ws_n (foldl ws_update st ws) = ws_n st + of_nat (length ws)"
  by (induction ws arbitrary: st) (simp_all add: ws_update_def Let_def algebra_simps)

lemma stats_of_weights:
  assumes "ws \<noteq> []" "length ws < 2 ^ 64" "0 \<le> lo" "hi \<le> maxf"
    "\<forall>w \<in> set ws. is_finite w \<and> wf64 w \<and> lo \<le> val w \<and> val w \<le> hi"
  shows "stats_ok lo hi (foldl ws_update weight_stats_default ws)"
  using assms(1,2,5)
proof (induction ws rule: rev_nonempty_induct)
  case (single w)
  then have "stats_ok (val w) (val w) (ws_update weight_stats_default w)"
    using assms(3) by (intro ws_first_ok) auto
  then show ?case using single stats_ok_widen by simp
next
  case (snoc w ws)
  let ?st = "foldl ws_update weight_stats_default ws"
  have len: "0 < length ws" "Suc (length ws) < 2 ^ 64" using snoc by simp_all
  have "ws_n ?st + 1 = of_nat (Suc (length ws))"
    by (simp add: ws_n_foldl weight_stats_default_def)
  moreover have "unat (of_nat (Suc (length ws)) :: u64) = Suc (length ws)"
    using len by (simp only: unat_of_nat) (simp add: take_bit_nat_eq_self)
  ultimately have "unat (ws_n ?st + 1) = Suc (length ws)" by (simp only:)
  then have "2 \<le> ws_n ?st + 1" unfolding word_le_nat_alt using len(1) by (simp add: Suc_le_eq)
  then show ?case using snoc ws_update_ok [of lo hi ?st w] assms(3,4) by simp
qed

lemma sigma_nonneg:
  assumes "fnonneg (ws_m2 st)"
  shows "fnonneg (sigma st)"
proof (cases "1 < ws_n st")
  case True
  then have "1 \<le> ws_n st - 1" by (simp add: word_le_nat_alt word_less_nat_alt unat_sub)
  then have n1: "fle (Fin 1) (f_of_u64 (ws_n st - 1))"
    using f_of_u64_mono [of 1 "ws_n st - 1"] f_of_nat_1 by (simp add: f_of_u64_def)
  have n0: "flt (Fin 0) (f_of_u64 (ws_n st - 1))" by (rule flt_fle_trans [OF _ n1]) simp
  have "fnonneg (fdiv (ws_m2 st) (f_of_u64 (ws_n st - 1)))"
  proof (cases "is_finite (ws_m2 st)")
    case False
    then have "ws_m2 st = PInf" using assms by (auto simp: fnonneg_iff)
    then show ?thesis using fdiv_PInf [OF f_of_u64_finite n0] by (simp add: fnonneg_iff)
  qed (use assms n0 fdiv_nonneg in blast)
  then show ?thesis using True by (simp add: sigma_def fsqrt_nonneg)
next
  case False
  have "fnonneg (f_lit 0.000000001)" unfolding f_lit_def by (rule mk64_nonneg) simp
  then show ?thesis using False by (simp add: sigma_def)
qed

section \<open>The factor\<close>

text \<open>The values a libm function returns are values of the type \<open>f64\<close>.\<close>

definition libm_wf :: "libm \<Rightarrow> bool" where
  "libm_wf lm \<longleftrightarrow> (\<forall>x. wf64 (m_exp lm x) \<and> wf64 (m_tanh lm x))"

lemma fmul_not_nan: "is_finite a \<Longrightarrow> is_finite b \<Longrightarrow> \<not> is_nan (fmul a b)"
  by (auto simp: fmul_def Let_def is_nan_def is_inf_def is_finite_def)

lemma fadd_one_not_nan: "\<not> is_nan x \<Longrightarrow> \<not> is_nan (fadd (Fin 1) x)"
  by (cases x) (simp_all add: fadd_def is_inf_def is_nan_def)

lemma factor_of_z_range:
  assumes "libm_wf lm" "is_finite (fp_alpha p)" "fle (fp_gmin p) (fp_gmax p)"
  shows "\<exists>f. factor_of_z lm p z = Some f \<and> fle (fp_gmin p) f \<and> fle f (fp_gmax p)"
proof -
  define raw where "raw = (let g = raw_factor lm p z in if is_finite g then g else Fin 1)"
  have wf: "wf64 (raw_factor lm p z)" using assms(1) by (simp add: raw_factor_def libm_wf_def)
  have "is_finite raw" "wf64 raw" using wf by (simp_all add: raw_def Let_def)
  then have "is_finite (fsub raw (Fin 1))" by (rule fsub_one_finite)
  then have nn: "\<not> is_nan (fadd (Fin 1) (fmul (fp_alpha p) (fsub raw (Fin 1))))"
    using assms(2) by (intro fadd_one_not_nan fmul_not_nan)
  have eq: "factor_of_z lm p z =
      fclamp (fadd (Fin 1) (fmul (fp_alpha p) (fsub raw (Fin 1)))) (fp_gmin p) (fp_gmax p)"
    by (simp add: factor_of_z_def raw_def Let_def)
  obtain f where "factor_of_z lm p z = Some f"
    using fclamp_some_iff assms(3) unfolding eq by blast
  then show ?thesis using fclamp_range [OF _ nn] unfolding eq by blast
qed

lemma compute_factor_range:
  assumes "libm_wf lm" "is_finite (fp_alpha p)" "fle (fp_gmin p) (fp_gmax p)"
  shows "\<exists>f. compute_factor lm p s entry = Some f \<and> (f = Fin 1 \<or> fle (fp_gmin p) f \<and> fle f (fp_gmax p))"
  using factor_of_z_range [OF assms] by (auto simp: compute_factor_def split: option.splits)

lemma compute_factor_disabled: "\<not> get_features_enabled s \<Longrightarrow> compute_factor lm p s entry = Some (Fin 1)"
  by (simp add: compute_factor_def)

text \<open>
  The factor a testcase must get: neutral as long as the feature scheduling is off, fewer than two weights
  are known or the testcase has none, and otherwise the clamped factor of its standard score.
\<close>

definition factor_right :: "libm \<Rightarrow> factor_params \<Rightarrow> fuzz_state \<Rightarrow> testcase \<Rightarrow> f64 \<Rightarrow> bool" where
  "factor_right lm p s tc f \<longleftrightarrow> (case (m_stats s, entry_weight (weight_mode s) tc) of
     (Some st, Some w) \<Rightarrow>
       if get_features_enabled s \<and> 2 \<le> ws_n st
       then factor_of_z lm p (fdiv (fsub w (ws_mu st)) (fadd (sigma st) (f_lit 0.000000001))) = Some f \<and>
         fle (fp_gmin p) f \<and> fle f (fp_gmax p)
       else f = Fin 1
   | _ \<Rightarrow> f = Fin 1)"

lemma compute_factor_right:
  assumes "libm_wf lm" "is_finite (fp_alpha p)" "fle (fp_gmin p) (fp_gmax p)"
  shows "\<exists>f. compute_factor lm p s tc = Some f \<and> factor_right lm p s tc f"
  using factor_of_z_range [OF assms]
  by (cases "m_stats s"; cases "entry_weight (weight_mode s) tc") (auto simp: compute_factor_def factor_right_def not_less)

section \<open>Weights\<close>

lemma path_weight_nonneg: "fnonneg (path_weight ws cov)"
  unfolding path_weight_def by (rule fsum_nonneg) (auto intro: flt_imp_fle)

lemma foldl_guarded_nonneg:
  "fnonneg a \<Longrightarrow> (\<And>x. fnonneg (f x)) \<Longrightarrow> fnonneg (foldl (\<lambda>acc x. if P x then fadd acc (f x) else acc) a xs)"
  by (induction xs arbitrary: a) (simp_all add: fadd_nonneg)

lemma frontier_weight_ok: "is_finite (frontier_weight ord ws fr cov) \<and> fnonneg (frontier_weight ord ws fr cov)"
proof -
  have "fnonneg (foldl (\<lambda>acc node. fadd acc (fmax (get_or (Fin 0) ws node) (Fin 0))) a xs)"
    if "fnonneg a" for a xs
    using that foldl_guarded_nonneg [of a "\<lambda>node. fmax (get_or (Fin 0) ws node) (Fin 0)" "\<lambda>_. True" xs]
    by (simp add: fmax_0_nonneg)
  then show ?thesis unfolding frontier_weight_def Let_def
    by (simp add: foldl_guarded_nonneg fmax_0_nonneg)
qed

lemma compute_weights_ids: "map tr_id (per_testcase (compute_weights ord sn)) = map ts_id (cw_testcases sn)"
  by (simp add: compute_weights_def comp_def)

lemma compute_weights_nonneg:
  "r \<in> set (per_testcase (compute_weights ord sn)) \<Longrightarrow> fnonneg (tr_weight r)"
  using frontier_weight_ok path_weight_nonneg
  by (auto simp: compute_weights_def testcase_weight_def split: weight_compute_mode.splits option.splits)

section \<open>Publication\<close>

lemma corpus_modify_lookup:
  assumes "corpus_modify k f s = Ok s'"
  shows "corpus_lookup s' j = (if j = k then bindR (corpus_lookup s k) (\<lambda>tc. Ok (f tc)) else corpus_lookup s j)"
    "s' = s\<lparr>st_corpus := st_corpus s'\<rparr>" "wf_corpus (st_corpus s) \<Longrightarrow> wf_corpus (st_corpus s')"
    "wf_corpus (st_corpus s) \<Longrightarrow> ids (st_corpus s') = ids (st_corpus s)"
proof -
  obtain c where c: "update_testcase k f (st_corpus s) = Inr c" "s' = s\<lparr>st_corpus := c\<rparr>"
    using assms by (auto simp: corpus_modify_def bindR_Ok_iff)
  show "corpus_lookup s' j = (if j = k then bindR (corpus_lookup s k) (\<lambda>tc. Ok (f tc)) else corpus_lookup s j)"
    using update_testcase_get [OF c(1), of j] c(2)
    by (auto simp: corpus_lookup_def bindR_def map_err_def split: sum.splits)
qed (use assms update_testcase_ids in \<open>auto simp: corpus_modify_def bindR_Ok_iff\<close>)

lemma corpus_modify_total: "corpus_lookup s k = Ok tc \<Longrightarrow> \<exists>s'. corpus_modify k f s = Ok s'"
  using update_testcase_Ok_iff [of k f "st_corpus s"]
  by (cases "update_testcase k f (st_corpus s)") (auto simp: corpus_modify_def corpus_lookup_def is_Ok_def)

text \<open>Two states that differ in the testcases only.\<close>

definition same_but_corpus :: "fuzz_state \<Rightarrow> fuzz_state \<Rightarrow> bool" where
  "same_but_corpus s s' \<longleftrightarrow> (\<exists>c. s' = s\<lparr>st_corpus := c\<rparr>)"

lemma same_but_corpus_trans: "same_but_corpus a b \<Longrightarrow> same_but_corpus b c \<Longrightarrow> same_but_corpus a c"
  by (auto simp: same_but_corpus_def)

lemma same_but_corpus_refl [simp]: "same_but_corpus s s"
  unfolding same_but_corpus_def by (rule exI [of _ "st_corpus s"]) simp

lemma compute_factor_same:
  "same_but_corpus s s' \<Longrightarrow> entry_weight (weight_mode s) tc' = entry_weight (weight_mode s) tc \<Longrightarrow>
    compute_factor lm p s' tc' = compute_factor lm p s tc"
proof -
  assume "same_but_corpus s s'" and e: "entry_weight (weight_mode s) tc' = entry_weight (weight_mode s) tc"
  then obtain c where s': "s' = s\<lparr>st_corpus := c\<rparr>" by (auto simp: same_but_corpus_def)
  have "get_features_enabled s' = get_features_enabled s" "weight_mode s' = weight_mode s" "m_stats s' = m_stats s"
    by (simp_all add: s' get_features_enabled_def getter_defs get_feat_mode_def weight_mode_def)
  then show ?thesis using e unfolding compute_factor_def by (simp only:)
qed

lemma publish_weights_ok:
  assumes "distinct (map tr_id items)" "\<forall>i \<in> set items. is_Ok (corpus_lookup s (tr_id i))"
    "wf_corpus (st_corpus s)"
  shows "\<exists>s'. publish_weights it mode items st s = Ok (foldl ws_update st (map tr_weight items), s') \<and>
    same_but_corpus s s' \<and> wf_corpus (st_corpus s') \<and> ids (st_corpus s') = ids (st_corpus s) \<and>
    (\<forall>i \<in> set items. corpus_lookup s' (tr_id i) =
       bindR (corpus_lookup s (tr_id i)) (\<lambda>tc. Ok (store_weight it mode (tr_weight i) tc))) \<and>
    (\<forall>k. k \<notin> tr_id ` set items \<longrightarrow> corpus_lookup s' k = corpus_lookup s k)"
  using assms
proof (induction items arbitrary: st s)
  case Nil
  then show ?case by simp
next
  case (Cons i items)
  let ?f = "store_weight it mode (tr_weight i)"
  obtain s1 where s1: "corpus_modify (tr_id i) ?f s = Ok s1"
    using Cons.prems corpus_modify_total by (fastforce simp: is_Ok_def split: sum.splits)
  note m = corpus_modify_lookup [OF s1]
  have fresh: "tr_id i \<notin> tr_id ` set items" using Cons.prems by simp
  have "\<forall>j \<in> set items. is_Ok (corpus_lookup s1 (tr_id j))"
    using Cons.prems fresh by (auto simp: m(1) image_iff)
  then obtain s' where s': "publish_weights it mode items (ws_update st (tr_weight i)) s1 =
        Ok (foldl ws_update (ws_update st (tr_weight i)) (map tr_weight items), s')"
      "same_but_corpus s1 s'" "wf_corpus (st_corpus s')" "ids (st_corpus s') = ids (st_corpus s1)"
      "\<forall>j \<in> set items. corpus_lookup s' (tr_id j) =
        bindR (corpus_lookup s1 (tr_id j)) (\<lambda>tc. Ok (store_weight it mode (tr_weight j) tc))"
      "\<forall>k. k \<notin> tr_id ` set items \<longrightarrow> corpus_lookup s' k = corpus_lookup s1 k"
    using Cons.IH [of s1 "ws_update st (tr_weight i)"] Cons.prems m(3) by auto
  have "same_but_corpus s s1" using m(2) unfolding same_but_corpus_def by blast
  then have "same_but_corpus s s'" using s'(2) same_but_corpus_trans by blast
  moreover have "corpus_lookup s' (tr_id j) =
      bindR (corpus_lookup s (tr_id j)) (\<lambda>tc. Ok (store_weight it mode (tr_weight j) tc))"
    if "j \<in> set (i # items)" for j
    using that s'(5,6) fresh m(1) by (auto simp: image_iff)
  moreover have "\<forall>k. k \<notin> tr_id ` set (i # items) \<longrightarrow> corpus_lookup s' k = corpus_lookup s k"
    using s'(6) m(1) by auto
  ultimately show ?case using s' s1 m(4) Cons.prems(3) by auto
qed

lemma entry_weight_perf_mult [simp]: "entry_weight m (tc\<lparr>tc_perf_mult := x\<rparr>) = entry_weight m tc"
  by (simp add: entry_weight_def split: weight_compute_mode.splits)

lemma entry_weight_store [simp]: "entry_weight m (store_weight it m w tc) = Some w"
  by (simp add: entry_weight_def store_weight_def split: weight_compute_mode.splits)

lemma publish_factors_ok:
  assumes "distinct (map tr_id items)" "\<forall>i \<in> set items. is_Ok (corpus_lookup s (tr_id i))"
    "wf_corpus (st_corpus s)" and panic_free: "\<And>tc. compute_factor lm p s tc \<noteq> None"
  shows "\<exists>s'. publish_factors lm p items s = Ok s' \<and> same_but_corpus s s' \<and> wf_corpus (st_corpus s') \<and>
    ids (st_corpus s') = ids (st_corpus s) \<and>
    (\<forall>i \<in> set items. corpus_lookup s' (tr_id i) = bindR (corpus_lookup s (tr_id i))
       (\<lambda>tc. Ok (tc\<lparr>tc_perf_mult := compute_factor lm p s tc\<rparr>))) \<and>
    (\<forall>k. k \<notin> tr_id ` set items \<longrightarrow> corpus_lookup s' k = corpus_lookup s k)"
  using assms
proof (induction items arbitrary: s)
  case (Cons i items)
  obtain tc where tc: "corpus_lookup s (tr_id i) = Ok tc"
    using Cons.prems(2) by (fastforce simp: is_Ok_def split: sum.splits)
  obtain f where f: "compute_factor lm p s tc = Some f" using Cons.prems(4) by (meson not_Some_eq)
  let ?f = "\<lambda>tc. tc\<lparr>tc_perf_mult := Some f\<rparr>"
  obtain s1 where s1: "corpus_modify (tr_id i) ?f s = Ok s1" using tc corpus_modify_total by blast
  note m = corpus_modify_lookup [OF s1]
  have same: "same_but_corpus s s1" using m(2) unfolding same_but_corpus_def by blast
  have cf: "compute_factor lm p s1 t = compute_factor lm p s t" for t
    using compute_factor_same [OF same] by blast
  have fresh: "tr_id i \<notin> tr_id ` set items" using Cons.prems by simp
  have "\<forall>j \<in> set items. is_Ok (corpus_lookup s1 (tr_id j))"
    using Cons.prems fresh by (auto simp: m(1) image_iff)
  then obtain s' where s': "publish_factors lm p items s1 = Ok s'" "same_but_corpus s1 s'"
      "wf_corpus (st_corpus s')" "ids (st_corpus s') = ids (st_corpus s1)"
      "\<forall>j \<in> set items. corpus_lookup s' (tr_id j) = bindR (corpus_lookup s1 (tr_id j))
        (\<lambda>tc. Ok (tc\<lparr>tc_perf_mult := compute_factor lm p s1 tc\<rparr>))"
      "\<forall>k. k \<notin> tr_id ` set items \<longrightarrow> corpus_lookup s' k = corpus_lookup s1 k"
    using Cons.IH [of s1] Cons.prems m(3) cf by auto
  have "corpus_lookup s' (tr_id j) = bindR (corpus_lookup s (tr_id j))
      (\<lambda>tc. Ok (tc\<lparr>tc_perf_mult := compute_factor lm p s tc\<rparr>))" if "j \<in> set (i # items)" for j
    using that s'(5,6) fresh m(1) tc f cf by (auto simp: image_iff)
  moreover have "publish_factors lm p (i # items) s = Ok s'" using tc f s1 s'(1) by simp
  moreover have "\<forall>k. k \<notin> tr_id ` set (i # items) \<longrightarrow> corpus_lookup s' k = corpus_lookup s k"
    using s'(6) m(1) by auto
  ultimately show ?case using s' m(4) Cons.prems(3) same same_but_corpus_trans by auto
qed simp

lemma lookup_stats [simp]: "corpus_lookup (s\<lparr>m_stats := x\<rparr>) k = corpus_lookup s k"
  by (simp add: corpus_lookup_def)

lemma publish_ok:
  assumes "distinct (map tr_id (per_testcase r))" "\<forall>i \<in> set (per_testcase r). is_Ok (corpus_lookup s (tr_id i))"
    "wf_corpus (st_corpus s)" "libm_wf lm" "is_finite (fp_alpha (get_factor_params s))"
    "fle (fp_gmin (get_factor_params s)) (fp_gmax (get_factor_params s))"
  shows "\<exists>s' c. publish_weight_recompute_result lm s r = Ok s' \<and>
    s' = s\<lparr>m_stats := Some (foldl ws_update weight_stats_default (map tr_weight (per_testcase r))), st_corpus := c\<rparr> \<and>
    wf_corpus c \<and> ids c = ids (st_corpus s) \<and>
    (\<forall>i \<in> set (per_testcase r). corpus_lookup s' (tr_id i) = bindR (corpus_lookup s (tr_id i))
       (\<lambda>tc. let tc' = store_weight (wr_iteration r) (wr_mode r) (tr_weight i) tc in
          Ok (tc'\<lparr>tc_perf_mult := compute_factor lm (get_factor_params s) s' tc'\<rparr>))) \<and>
    (\<forall>k. k \<notin> tr_id ` set (per_testcase r) \<longrightarrow> corpus_lookup s' k = corpus_lookup s k)"
proof -
  let ?items = "per_testcase r"
  let ?st = "foldl ws_update weight_stats_default (map tr_weight ?items)"
  obtain s1 where s1: "publish_weights (wr_iteration r) (wr_mode r) ?items weight_stats_default s = Ok (?st, s1)"
      "same_but_corpus s s1" "wf_corpus (st_corpus s1)" "ids (st_corpus s1) = ids (st_corpus s)"
      "\<forall>i \<in> set ?items. corpus_lookup s1 (tr_id i) = bindR (corpus_lookup s (tr_id i))
        (\<lambda>tc. Ok (store_weight (wr_iteration r) (wr_mode r) (tr_weight i) tc))"
      "\<forall>k. k \<notin> tr_id ` set ?items \<longrightarrow> corpus_lookup s1 k = corpus_lookup s k"
    using publish_weights_ok [OF assms(1-3)] by blast
  let ?s2 = "s1\<lparr>m_stats := Some ?st\<rparr>" and ?p = "get_factor_params s"
  obtain c1 where c1: "s1 = s\<lparr>st_corpus := c1\<rparr>" using s1(2) by (auto simp: same_but_corpus_def)
  have p2: "get_factor_params ?s2 = ?p" by (simp add: getter_defs c1)
  have nn: "compute_factor lm ?p ?s2 tc \<noteq> None" for tc
    using compute_factor_range [OF assms(4-6)] by (metis option.distinct(1))
  have "\<forall>i \<in> set ?items. is_Ok (corpus_lookup ?s2 (tr_id i))"
  proof
    fix i assume i: "i \<in> set ?items"
    then obtain tc where "corpus_lookup s (tr_id i) = Ok tc"
      using assms(2) by (fastforce simp: is_Ok_def split: sum.splits)
    then show "is_Ok (corpus_lookup ?s2 (tr_id i))" using s1(5) i by simp
  qed
  then obtain s' where s': "publish_factors lm ?p ?items ?s2 = Ok s'" "same_but_corpus ?s2 s'"
      "wf_corpus (st_corpus s')" "ids (st_corpus s') = ids (st_corpus ?s2)"
      "\<forall>i \<in> set ?items. corpus_lookup s' (tr_id i) = bindR (corpus_lookup ?s2 (tr_id i))
        (\<lambda>tc. Ok (tc\<lparr>tc_perf_mult := compute_factor lm ?p ?s2 tc\<rparr>))"
      "\<forall>k. k \<notin> tr_id ` set ?items \<longrightarrow> corpus_lookup s' k = corpus_lookup ?s2 k"
    using publish_factors_ok [OF assms(1), where s = ?s2, OF _ _ nn] s1(3) by auto
  have cf: "compute_factor lm ?p s' tc = compute_factor lm ?p ?s2 tc" for tc
    using compute_factor_same [OF s'(2)] by blast
  have eq: "publish_weight_recompute_result lm s r = Ok s'"
    using s1(1) s'(1) p2 by (simp add: publish_weight_recompute_result_def Let_def)
  have "corpus_lookup s' (tr_id i) = bindR (corpus_lookup s (tr_id i))
       (\<lambda>tc. let tc' = store_weight (wr_iteration r) (wr_mode r) (tr_weight i) tc in
          Ok (tc'\<lparr>tc_perf_mult := compute_factor lm ?p s' tc'\<rparr>))" if "i \<in> set ?items" for i
    using that s'(5) s1(5) by (simp add: cf Let_def bindR_def split: sum.splits)
  moreover obtain c where "s' = ?s2\<lparr>st_corpus := c\<rparr>" using s'(2) by (auto simp: same_but_corpus_def)
  ultimately show ?thesis using eq s'(3,4,6) s1(4,6) c1 by (intro exI [of _ s'] exI [of _ c]) auto
qed

section \<open>The whole recomputation\<close>

definition sancov_of :: "testcase \<Rightarrow> nat list" where
  "sancov_of tc = (case tc_sancov tc of Some l \<Rightarrow> l | None \<Rightarrow> [])"

lemma corpus_lookup_iff:
  "wf_corpus (st_corpus s) \<Longrightarrow> (\<exists>tc. corpus_lookup s k = Ok tc) \<longleftrightarrow> k \<in> set (skeys (enabled (storage (st_corpus s))))"
  using corpus_get_iff [of "st_corpus s" k]
  by (cases "corpus_get (st_corpus s) k") (auto simp: corpus_lookup_def is_Ok_def)

definition snapshot_of :: "fuzz_state \<Rightarrow> u64 \<Rightarrow> weight_compute_mode \<Rightarrow> f64 list \<Rightarrow> corpus_weight_snapshot \<Rightarrow> bool" where
  "snapshot_of s it mode ws sn \<longleftrightarrow> cw_iteration sn = it \<and> cw_mode sn = mode \<and>
    feature_weights_by_sancov sn = ws \<and> distinct (map ts_id (cw_testcases sn)) \<and> length (cw_testcases sn) = count (st_corpus s) \<and>
    cw_frontier sn = (case (m_frontier s, m_acfg s) of (Some fm, Some acfg) \<Rightarrow>
        if mode = Frontier then Some \<lparr>sn_f_prev = f_prev fm, sn_f_next = f_next fm, sn_successors = successors acfg\<rparr> else None
      | _ \<Rightarrow> None) \<and>
    (\<forall>t \<in> set (cw_testcases sn). \<exists>tc. corpus_lookup s (ts_id t) = Ok tc \<and> covered_sancov t = sancov_of tc) \<and>
    (\<forall>k tc. corpus_lookup s k = Ok tc \<longrightarrow> (\<exists>t \<in> set (cw_testcases sn). ts_id t = k \<and> covered_sancov t = sancov_of tc))"

lemma build_snapshot_ok:
  assumes "wf_corpus (st_corpus s)"
  shows "\<exists>sn. build_corpus_weight_snapshot s it mode ws = Ok sn \<and> snapshot_of s it mode ws sn"
proof -
  let ?ks = "skeys (enabled (storage (st_corpus s)))"
  let ?fr = "case (m_frontier s, m_acfg s) of (Some fm, Some acfg) \<Rightarrow>
      if mode = Frontier then Some \<lparr>sn_f_prev = f_prev fm, sn_f_next = f_next fm, sn_successors = successors acfg\<rparr> else None
    | _ \<Rightarrow> None"
  have "\<forall>k \<in> set ?ks. \<exists>tc. corpus_lookup s k = Ok tc" using corpus_lookup_iff [OF assms] by blast
  then obtain T where lk: "\<forall>k \<in> set ?ks. corpus_lookup s k = Ok (T k)" by (metis bchoice)
  let ?t = "\<lambda>k. \<lparr>ts_id = k, covered_sancov = sancov_of (T k)\<rparr>"
  have "map_result (\<lambda>k. bindR (corpus_lookup s k) (\<lambda>tc. Ok \<lparr>ts_id = k, covered_sancov = sancov_of tc\<rparr>)) ?ks
      = Ok (map ?t ?ks)"
    unfolding map_result_Ok_iff list_all2_map2 by (rule list.rel_refl_strong) (simp add: lk)
  then have b: "\<exists>sn. build_corpus_weight_snapshot s it mode ws = Ok sn \<and> cw_iteration sn = it \<and> cw_mode sn = mode \<and>
      feature_weights_by_sancov sn = ws \<and> cw_testcases sn = map ?t ?ks \<and> cw_frontier sn = ?fr"
    using ids_ok [OF assms] by (auto simp: build_corpus_weight_snapshot_def corpus_ids_def Let_def sancov_of_def split: option.split)
  then obtain sn where sn: "build_corpus_weight_snapshot s it mode ws = Ok sn" "cw_iteration sn = it" "cw_mode sn = mode"
      "feature_weights_by_sancov sn = ws" "cw_testcases sn = map ?t ?ks" "cw_frontier sn = ?fr" by blast
  have "distinct (map ts_id (cw_testcases sn))"
    using skeys_facts(1) [OF assms] sn(5) by (simp add: comp_def)
  moreover have "\<exists>t \<in> set (cw_testcases sn). ts_id t = k \<and> covered_sancov t = sancov_of tc"
    if k: "corpus_lookup s k = Ok tc" for k tc
  proof -
    have "k \<in> set ?ks" using k corpus_lookup_iff [OF assms, of k] by blast
    then show ?thesis using k sn(5) lk by (intro bexI [of _ "?t k"]) auto
  qed
  moreover have "\<forall>t \<in> set (cw_testcases sn). \<exists>tc. corpus_lookup s (ts_id t) = Ok tc \<and> covered_sancov t = sancov_of tc"
    using lk sn(5) by auto
  moreover have "length (cw_testcases sn) = count (st_corpus s)" using sn(5) count_ok [OF assms] by simp
  ultimately show ?thesis using sn(1-4,6) unfolding snapshot_of_def by blast
qed

section \<open>Exact weights\<close>

text \<open>
  What a weight approximates: the sum, without roundings, of the weights of the sites it counts. A site
  counts with its weight when that is positive. In path mode these are the covered sites; in frontier mode
  the covered sites on the frontier and, once each, the uncovered frontier successors of covered sites.
\<close>

definition site_weight :: "f64 list \<Rightarrow> nat \<Rightarrow> rat" where
  "site_weight ws i = max 0 (val (get_or (Fin 0) ws i))"

definition frontier_next :: "frontier_meta \<Rightarrow> sancov_acfg \<Rightarrow> nat list \<Rightarrow> nat set" where
  "frontier_next fm acfg cov = {n. \<exists>u \<in> set cov. n \<in> set (neighbours (successors acfg) u) \<and> bitset_get (f_next fm) n}"

definition exact_weight :: "fuzz_state \<Rightarrow> weight_compute_mode \<Rightarrow> f64 list \<Rightarrow> nat list \<Rightarrow> rat" where
  "exact_weight s mode ws cov = (case mode of
     Path \<Rightarrow> (\<Sum>i \<leftarrow> cov. site_weight ws i)
   | Frontier \<Rightarrow> (case (m_frontier s, m_acfg s) of
       (Some fm, Some acfg) \<Rightarrow> (\<Sum>i \<leftarrow> filter (bitset_get (f_prev fm)) cov. site_weight ws i) +
          (\<Sum>n \<in> frontier_next fm acfg cov. site_weight ws n)
     | _ \<Rightarrow> 0))"

definition weight_terms :: "fuzz_state \<Rightarrow> weight_compute_mode \<Rightarrow> nat list \<Rightarrow> nat" where
  "weight_terms s mode cov = length cov + (case (mode, m_frontier s, m_acfg s) of
     (Frontier, Some fm, Some acfg) \<Rightarrow> card (frontier_next fm acfg cov) | _ \<Rightarrow> 0)"

definition finite_weights :: "f64 list \<Rightarrow> bool" where
  "finite_weights ws = (\<forall>w \<in> set ws. is_finite w \<and> wf64 w)"

text \<open>An iteration order of a hash set visits every member once.\<close>

definition iteration_order :: "(nat list \<Rightarrow> nat list) \<Rightarrow> bool" where
  "iteration_order ord \<longleftrightarrow> (\<forall>xs. distinct xs \<longrightarrow> distinct (ord xs) \<and> set (ord xs) = set xs)"

lemma site_float:
  assumes "finite_weights ws"
  shows "is_finite (get_or (Fin 0) ws i)" "wf64 (get_or (Fin 0) ws i)"
    "nonneg_float (fmax (get_or (Fin 0) ws i) (Fin 0))" "val (fmax (get_or (Fin 0) ws i) (Fin 0)) = site_weight ws i"
proof -
  let ?w = "get_or (Fin 0) ws i"
  show w: "is_finite ?w" "wf64 ?w" using assms by (auto simp: finite_weights_def get_or_def get_opt_def)
  show "val (fmax ?w (Fin 0)) = site_weight ws i"
    using w(1) by (auto simp: fmax_def site_weight_def flt_finite is_finite_def)
  then show "nonneg_float (fmax ?w (Fin 0))" using w by (auto simp: site_weight_def fmax_def)
qed

lemma path_weight_near:
  assumes "finite_weights ws" "(\<Sum>i \<leftarrow> cov. site_weight ws i) \<le> maxf / 2" "length cov \<le> 2 ^ 52"
  shows "near_exact (length cov) (\<Sum>i \<leftarrow> cov. site_weight ws i) (path_weight ws cov)"
proof -
  let ?ws = "filter (\<lambda>w. is_finite w \<and> flt (Fin 0) w) (map (get_or (Fin 0) ws) cov)"
  have s: "sum_list (map val ?ws) = (\<Sum>i \<leftarrow> cov. site_weight ws i)"
    using site_float(1) [OF assms(1)] by (induction cov) (auto simp: site_weight_def flt_finite)
  have n: "\<forall>x \<in> set ?ws. nonneg_float x" using site_float(1,2) [OF assms(1)] by (auto simp: flt_finite)
  have l: "length ?ws \<le> length cov" using length_filter_le [of _ "map (get_or (Fin 0) ws) cov"] by simp
  have "near_exact (length ?ws) (\<Sum>i \<leftarrow> cov. site_weight ws i) (path_weight ws cov)"
    unfolding path_weight_def fsum_def s [symmetric]
    using foldl_fadd_near [of NZero ?ws, OF _ n, unfolded s] assms(2) order_trans [OF l assms(3)] by (simp only: s) simp
  moreover have "0 \<le> (\<Sum>i \<leftarrow> cov. site_weight ws i)" by (rule sum_list_nonneg) (auto simp: site_weight_def)
  moreover have "0 \<le> val (path_weight ws cov)" using path_weight_nonneg [of ws cov] by (cases "path_weight ws cov") (auto simp: fle_def)
  ultimately show ?thesis using l near_exact_mono by blast
qed

lemma foldl_guarded: "foldl (\<lambda>acc x. if P x then fadd acc (f x) else acc) a xs = foldl fadd a (map f (filter P xs))"
  by (induction xs arbitrary: a) simp_all

lemma frontier_weight_near:
  assumes "finite_weights ws" "iteration_order ord"
    and E_def: "E = (\<Sum>i \<leftarrow> filter (bitset_get (f_prev fm)) cov. site_weight ws i) + (\<Sum>n \<in> frontier_next fm acfg cov. site_weight ws n)"
    and N_def: "N = length cov + card (frontier_next fm acfg cov)" and b: "E \<le> maxf / 2" "N \<le> 2 ^ 52"
  shows "near_exact N E (frontier_weight ord ws \<lparr>sn_f_prev = f_prev fm, sn_f_next = f_next fm, sn_successors = successors acfg\<rparr> cov)"
proof -
  let ?fr = "\<lparr>sn_f_prev = f_prev fm, sn_f_next = f_next fm, sn_successors = successors acfg\<rparr>"
  let ?g = "\<lambda>i. fmax (get_or (Fin 0) ws i) (Fin 0)"
  let ?is = "filter (bitset_get (f_prev fm)) cov @ ord (next_seen ?fr cov)"
  have ns: "set (next_seen ?fr cov) = frontier_next fm acfg cov" "distinct (next_seen ?fr cov)"
    by (auto simp: next_seen_def frontier_next_def)
  have m: "distinct (ord (next_seen ?fr cov))" "set (ord (next_seen ?fr cov)) = frontier_next fm acfg cov"
    using assms(2) ns by (simp_all add: iteration_order_def)
  have "sum_list (map (site_weight ws) (ord (next_seen ?fr cov))) = (\<Sum>n \<in> frontier_next fm acfg cov. site_weight ws n)"
    using sum_list_distinct_conv_sum_set [OF m(1)] m(2) by simp
  then have s: "sum_list (map val (map ?g ?is)) = E"
    using site_float(4) [OF assms(1)] by (simp add: E_def comp_def)
  have "length (ord (next_seen ?fr cov)) = card (frontier_next fm acfg cov)"
    using distinct_card [OF m(1)] m(2) by simp
  then have l: "length ?is \<le> N" by (simp add: N_def)
  have c: "nonneg_float (Fin 0)" "\<forall>x \<in> set (map ?g ?is). nonneg_float x" using site_float(3) [OF assms(1)] by auto
  have near: "near_exact (length ?is) E (foldl fadd (Fin 0) (map ?g ?is))"
    using foldl_fadd_near [OF c] s l b by simp
  have e: "frontier_weight ord ws ?fr cov = foldl fadd (Fin 0) (map ?g ?is)"
    using near foldl_guarded [of "\<lambda>_. True" ?g]
    by (simp add: frontier_weight_def Let_def foldl_guarded near_exact_def)
  have "0 \<le> val (frontier_weight ord ws ?fr cov)"
    using frontier_weight_ok [of ord ws ?fr cov] by (auto simp: fle_finite)
  moreover have "0 \<le> E" using s [symmetric] by (simp only: s) (auto simp: E_def site_weight_def intro!: add_nonneg_nonneg sum_nonneg sum_list_nonneg)
  ultimately show ?thesis using near_exact_mono [OF near l] unfolding e by blast
qed

lemma testcase_weight_near:
  assumes "snapshot_of s it mode ws sn" "finite_weights ws" "iteration_order ord" "exact_weight s mode ws cov \<le> maxf / 2"
    "weight_terms s mode cov \<le> 2 ^ 52"
  shows "near_exact (weight_terms s mode cov) (exact_weight s mode ws cov) (testcase_weight ord sn cov)"
proof (cases mode)
  case Path
  then show ?thesis using path_weight_near [OF assms(2), of cov] assms(1,4,5)
    by (simp add: snapshot_of_def testcase_weight_def exact_weight_def weight_terms_def)
next
  case Frontier
  show ?thesis
  proof (cases "m_frontier s = None \<or> m_acfg s = None")
    case True
    then have "cw_frontier sn = None" "exact_weight s mode ws cov = 0"
      using assms(1) Frontier by (auto simp: snapshot_of_def exact_weight_def split: option.splits)
    then show ?thesis using assms(1) Frontier by (simp add: snapshot_of_def testcase_weight_def near_exact_def)
  next
    case False
    then obtain fm acfg where f: "m_frontier s = Some fm" "m_acfg s = Some acfg" by auto
    then have e: "exact_weight s mode ws cov = (\<Sum>i \<leftarrow> filter (bitset_get (f_prev fm)) cov. site_weight ws i) +
        (\<Sum>n \<in> frontier_next fm acfg cov. site_weight ws n)" "weight_terms s mode cov = length cov + card (frontier_next fm acfg cov)"
      by (simp_all add: exact_weight_def weight_terms_def Frontier)
    from frontier_weight_near [OF assms(2,3) e assms(4,5)] show ?thesis
      using assms(1) f Frontier by (simp add: snapshot_of_def testcase_weight_def)
  qed
qed

text \<open>The running statistics of any non-empty list of finite weights in a range \<open>[lo, hi]\<close> count them,
  their mean is finite and stays in the range in spite of rounding, the accumulated squared deviation
  never becomes negative or NaN, and the standard deviation derived from it is defined.\<close>

theorem weight_stats_sound:
  assumes "ws \<noteq> []" "length ws < 2 ^ 64" "0 \<le> lo" "hi \<le> maxf"
    "\<forall>w \<in> set ws. is_finite w \<and> wf64 w \<and> lo \<le> val w \<and> val w \<le> hi"
  shows "ws_n (foldl ws_update weight_stats_default ws) = of_nat (length ws) \<and>
    is_finite (ws_mu (foldl ws_update weight_stats_default ws)) \<and>
    lo \<le> val (ws_mu (foldl ws_update weight_stats_default ws)) \<and>
    val (ws_mu (foldl ws_update weight_stats_default ws)) \<le> hi \<and>
    fle (Fin 0) (ws_m2 (foldl ws_update weight_stats_default ws)) \<and>
    fle (Fin 0) (sigma (foldl ws_update weight_stats_default ws))"
  using stats_of_weights [OF assms] sigma_nonneg [of "foldl ws_update weight_stats_default ws"]
  by (simp add: stats_ok_def ws_n_foldl weight_stats_default_def)

theorem weight_stats_sound_witness:
  "fle (Fin 0) (sigma (foldl ws_update weight_stats_default [Fin 1, Fin 2]))"
proof -
  have "(2 :: rat) \<le> maxf" using nat_u64_le_maxf [of 2] by simp
  moreover have "rnd 2 = 2" using rnd_repr_fix [OF repr_pow2 [of 1]] by (simp add: pow2_def)
  ultimately show ?thesis using weight_stats_sound [of "[Fin 1, Fin 2]" 1 2] by simp
qed

text \<open>With finite blending weight and ordered bounds the factor is computed without a panic, for every
  libm and every state and testcase, and it is neutral or within the bounds; it is neutral whenever
  the feature scheduling is disabled or fewer than two weights were recorded.\<close>

theorem compute_factor_bounded:
  assumes "libm_wf lm" "is_finite (fp_alpha p)" "fle (fp_gmin p) (fp_gmax p)"
  shows "\<exists>f. compute_factor lm p s entry = Some f \<and> (f = Fin 1 \<or> fle (fp_gmin p) f \<and> fle f (fp_gmax p)) \<and>
    (\<not> get_features_enabled s \<longrightarrow> f = Fin 1) \<and> (\<forall>st. m_stats s = Some st \<and> ws_n st < 2 \<longrightarrow> f = Fin 1)"
proof -
  obtain f where "compute_factor lm p s entry = Some f" "f = Fin 1 \<or> fle (fp_gmin p) f \<and> fle f (fp_gmax p)"
    using compute_factor_range [OF assms] by blast
  then show ?thesis by (auto simp: compute_factor_def split: option.splits if_splits)
qed

definition example_libm :: libm where
  "example_libm = \<lparr>m_exp = (\<lambda>_. Fin 1), m_ln = (\<lambda>_. Fin 0), m_tanh = (\<lambda>_. Fin 0), m_cos = (\<lambda>_. Fin 1),
     m_powf = (\<lambda>_ _. Fin 1), m_log2 = (\<lambda>_. Fin 0), m_log10 = (\<lambda>_. Fin 0)\<rparr>"

definition example_corpus_state :: fuzz_state where
  "example_corpus_state = (state_new (std_rand_with_seed 0))\<lparr>st_corpus :=
     (case corpus_add corpus_new ((testcase_new [])\<lparr>tc_sancov := Some [0]\<rparr>) of
        Some (c, _) \<Rightarrow> c | None \<Rightarrow> corpus_new)\<rparr>"

lemma example_libm_wf: "libm_wf example_libm"
  by (simp add: libm_wf_def example_libm_def)

lemma factor_params_default_ok:
  "is_finite (fp_alpha factor_params_default)" "fle (fp_gmin factor_params_default) (fp_gmax factor_params_default)"
  by (code_simp, code_simp)

lemma example_corpus_wf: "wf_corpus (st_corpus example_corpus_state)"
proof -
  obtain s' i where "insert_inner storage_new ((testcase_new [])\<lparr>tc_sancov := Some [0]\<rparr>) False = Some (s', i)"
      "wf_storage s'"
    using insert_inner_ok [OF wf_storage_new, of "(testcase_new [])\<lparr>tc_sancov := Some [0]\<rparr>" False] by blast
  then show ?thesis by (simp add: example_corpus_state_def corpus_add_def corpus_new_def)
qed

theorem compute_factor_bounded_witness:
  "\<exists>f. compute_factor example_libm factor_params_default example_corpus_state (testcase_new []) = Some f"
  using compute_factor_bounded [OF example_libm_wf factor_params_default_ok] by blast


definition example_frontier_state :: fuzz_state where
  "example_frontier_state = example_corpus_state\<lparr>m_acfg := Some example_acfg,
     m_frontier := Some (frontier_default\<lparr>f_prev := [True, False, False], f_next := [False, True, True]\<rparr>)\<rparr>"


end
