(* ===== verification/Credit_Feedback.thy ===== *)
theory Credit_Feedback
  imports Features_Map Weight_Refresh
begin

text \<open>
  What a new testcase contributes: the two feedbacks that append metadata to it
  (\<open>feature_sched/sancov_index_feedback.rs\<close>, \<open>frontier_credit_feedback.rs\<close>) and the accounting stage
  (\<open>accounting_stage.rs\<close>). The observer is what the executor recorded: the initial entry and the map,
  or nothing when no observer has the name. Firing an event is a parameter, its only effect here is that
  it may fail. Shown: the credits of every feature never decrease and stay free of NaN, only the ledger of
  the current phase changes and its last history entry agrees with it, and the accounting stage writes
  the factor of the current testcase only.
\<close>

type_synonym map_observer = "u8 \<times> u8 list"

section \<open>The sancov index feedback\<close>

definition covered_indexes :: "map_observer \<Rightarrow> nat list" where
  "covered_indexes obs = filter (\<lambda>i. snd obs ! i \<noteq> fst obs) [0..<length (snd obs)]"

definition sancov_is_interesting :: "fuzz_state \<Rightarrow> error + bool" where
  "sancov_is_interesting s = Ok False"

definition current_covered_edges :: "fuzz_state \<Rightarrow> u64" where
  "current_covered_edges s = (case m_edges s of Some m \<Rightarrow> of_nat (num_covered_map_indexes m) | None \<Rightarrow> 0)"

definition last_covered_edges :: "fuzz_state \<Rightarrow> u64" where
  "last_covered_edges s = (case m_progress s of Some n \<Rightarrow> n | None \<Rightarrow> 0)"

definition frontier_covered :: "fuzz_state \<Rightarrow> bitset" where
  "frontier_covered s = (case m_frontier s of Some m \<Rightarrow> covered m | None \<Rightarrow> [])"

definition sancov_append_metadata ::
  "(fuzz_state \<Rightarrow> error + unit) \<Rightarrow> map_observer option \<Rightarrow> fuzz_state \<Rightarrow> testcase \<Rightarrow> error + (fuzz_state \<times> testcase)" where
  "sancov_append_metadata fire observer s tc = (case observer of
     None \<Rightarrow> Err (Unknown (StageMsg ObserverMissing))
   | Some obs \<Rightarrow>
       let idx = covered_indexes obs;
           tc1 = (if idx \<noteq> [] then tc\<lparr>tc_sancov := Some idx\<rparr> else tc);
           delta_edges = saturating_sub (current_covered_edges s) (last_covered_edges s);
           s1 = s\<lparr>m_progress := Some (current_covered_edges s)\<rparr>;
           newly = filter (\<lambda>i. \<not> bitset_get (frontier_covered s1) i) idx;
           s2 = s1\<lparr>m_delta := Some \<lparr>cd_iteration = current_iter s1, cd_delta_edges = delta_edges,
                    newly_covered_sancov = newly\<rparr>\<rparr>
       in bindR (fire s2) (\<lambda>_. Ok (s2, tc1)))"

section \<open>The frontier credit feedback\<close>

definition credit_is_interesting :: "fuzz_state \<Rightarrow> error + bool" where
  "credit_is_interesting s = Ok False"

fun node_mass :: "f64 list \<Rightarrow> nat list \<Rightarrow> f64 \<Rightarrow> error + f64" where
  "node_mass arr [] acc = Ok acc"
| "node_mass arr (node # nodes) acc =
     (let v = get_or (Fin 0) arr node in
      if flt v (Fin 0) then Err (IllegalState (Text ''negative feature value forbidden under simplex mode''))
      else node_mass arr nodes (if is_finite v then fadd acc v else acc))"

definition local_mass :: "(string, f64 list) mapping \<Rightarrow> string list \<Rightarrow> nat list \<Rightarrow> error + f64 list" where
  "local_mass m names nodes = map_result (\<lambda>name. case Mapping.lookup m name of
     None \<Rightarrow> Ok (Fin 0) | Some arr \<Rightarrow> node_mass arr nodes (Fin 0)) names"

definition credit_delta :: "u64 \<Rightarrow> f64 list \<Rightarrow> f64 list" where
  "credit_delta delta_edges masses =
     (let denom = fsum masses in
      if flt EPS denom \<and> 0 < delta_edges
      then map (\<lambda>m. fmax (fdiv (fmul (f_of_u64 delta_edges) m) denom) (Fin 0)) masses
      else replicate (length masses) (Fin 0))"

definition add_credit :: "nat \<Rightarrow> u64 \<Rightarrow> u64 \<Rightarrow> f64 list \<Rightarrow> credit_meta \<Rightarrow> credit_meta" where
  "add_credit n iteration delta_edges delta m =
     (let cs = (if length (cr_credits m) \<noteq> n then resize n (Fin 0) (cr_credits m) else cr_credits m)
      in m\<lparr>cr_iteration := iteration, total_delta_edges := saturating_add (total_delta_edges m) delta_edges,
           cr_credits := map2 (\<lambda>c d. fmax (fadd c d) (Fin 0)) cs delta\<rparr>)"

definition explore_credit :: "fuzz_state \<Rightarrow> credit_meta" where
  "explore_credit s = (case m_explore s of Some m \<Rightarrow> m | None \<Rightarrow> credit_default)"

definition runtime_credit :: "fuzz_state \<Rightarrow> credit_meta" where
  "runtime_credit s = (case m_runtime s of Some m \<Rightarrow> m | None \<Rightarrow> credit_default)"

definition record_explore :: "nat \<Rightarrow> u64 \<Rightarrow> u64 \<Rightarrow> nat list \<Rightarrow> f64 list \<Rightarrow> fuzz_state \<Rightarrow> fuzz_state" where
  "record_explore n iteration delta_edges nodes delta s =
     (let m = add_credit n iteration delta_edges delta (explore_credit s);
          entry = \<lparr>ee_iteration = iteration, ee_corpus_id = None, ee_delta_edges = delta_edges,
            ee_frontier_nodes = nodes, ee_credit_delta = delta, ee_cumulative = cr_credits m\<rparr>;
          entries = (case m_explore_history s of Some es \<Rightarrow> es | None \<Rightarrow> [])
      in s\<lparr>m_explore := Some m, m_explore_history := Some (entries @ [entry])\<rparr>)"

definition record_runtime ::
  "nat \<Rightarrow> u64 \<Rightarrow> tpe_phase \<Rightarrow> u64 \<Rightarrow> nat list \<Rightarrow> f64 list \<Rightarrow> fuzz_state \<Rightarrow> fuzz_state" where
  "record_runtime n iteration phase delta_edges nodes delta s =
     (let m = add_credit n iteration delta_edges delta (runtime_credit s);
          entry = \<lparr>re_iteration = iteration, re_phase = phase, re_corpus_id = None, re_delta_edges = delta_edges,
            re_frontier_nodes = nodes, re_credit_delta = delta, re_cumulative = cr_credits m\<rparr>;
          entries = (case m_runtime_history s of Some es \<Rightarrow> es | None \<Rightarrow> [])
      in s\<lparr>m_runtime := Some m, m_runtime_history := Some (entries @ [entry])\<rparr>)"

definition delta_meta :: "fuzz_state \<Rightarrow> coverage_delta" where
  "delta_meta s = (case m_delta s of Some d \<Rightarrow> d
     | None \<Rightarrow> \<lparr>cd_iteration = 0, cd_delta_edges = 0, newly_covered_sancov = []\<rparr>)"

definition credit_append_metadata :: "fuzz_state \<Rightarrow> testcase \<Rightarrow> error + fuzz_state" where
  "credit_append_metadata s tc = (case m_acfg s of None \<Rightarrow> Ok s
   | Some acfg \<Rightarrow>
     if m_matrix s = None then Ok s
     else let delta = delta_meta s in
       if newly_covered_sancov delta = [] then Ok s
       else let (s1, changed) = update_frontier_meta s (newly_covered_sancov delta) in
         if \<not> changed then Ok s1
         else let nodes = local_frontier_nodes (newly_covered_sancov delta) (sancov_of tc) acfg;
                  names = get_active_feature_names s1
              in if names = [] then Ok s1
         else (case m_matrix s1 of None \<Rightarrow> Err (IllegalState (StageMsg MatrixMissing))
           | Some mm \<Rightarrow> bindR (local_mass (fm_matrix mm) names nodes) (\<lambda>masses.
               let cd = credit_delta (cd_delta_edges delta) masses;
                   ti = tpe_iter s1;
                   iteration = (if current_iteration ti = 0 then cd_iteration delta else current_iteration ti)
               in Ok (if ti_phase ti = Explore
                      then record_explore (length names) iteration (cd_delta_edges delta) nodes cd s1
                      else record_runtime (length names) iteration (ti_phase ti) (cd_delta_edges delta) nodes cd s1))))"

section \<open>The accounting stage\<close>

definition fill_sancov :: "map_observer option \<Rightarrow> corpus_id \<Rightarrow> fuzz_state \<Rightarrow> error + fuzz_state" where
  "fill_sancov observer cid s = bindR (corpus_lookup s cid) (\<lambda>entry.
     if tc_sancov entry \<noteq> None then Ok s
     else (case observer of None \<Rightarrow> Err (Unknown (StageMsg ObserverMissing))
       | Some obs \<Rightarrow> (let idx = covered_indexes obs in
           if idx = [] then Ok s else corpus_modify cid (\<lambda>tc. tc\<lparr>tc_sancov := Some idx\<rparr>) s)))"

definition accounting_perform ::
  "libm \<Rightarrow> (fuzz_state \<Rightarrow> error + unit) \<Rightarrow> map_observer option \<Rightarrow> fuzz_state \<Rightarrow> error + fuzz_state" where
  "accounting_perform lm fire observer s = (case current (st_corpus s) of None \<Rightarrow> Ok s
   | Some cid \<Rightarrow> bindR (fill_sancov observer cid s) (\<lambda>s1.
       if \<not> get_features_enabled s1 then corpus_modify cid (\<lambda>tc. tc\<lparr>tc_perf_mult := None\<rparr>) s1
       else
         let feat0 = (case m_feats s1 of Some (f # _) \<Rightarrow> f | _ \<Rightarrow> Fin 0);
             s2 = set_feat0 feat0 s1
         in bindR (corpus_lookup s2 cid) (\<lambda>entry.
            case compute_factor lm (get_factor_params s2) s2 entry of None \<Rightarrow> Err Panic
            | Some factor \<Rightarrow>
                bindR (corpus_modify cid (\<lambda>tc. tc\<lparr>tc_perf_mult := Some factor\<rparr>) s2) (\<lambda>s3.
                bindR (fire s3) (\<lambda>_. Ok s3)))))"

section \<open>Credits\<close>

definition credits_ok :: "f64 list \<Rightarrow> bool" where
  "credits_ok cs \<longleftrightarrow> (\<forall>c \<in> set cs. wf64 c \<and> fnonneg c)"

lemma credit_delta_ok: "credits_ok (credit_delta de ms)"
  by (auto simp: credits_ok_def credit_delta_def Let_def fmax_0_nonneg intro!: fmax_wf)

lemma credit_delta_length [simp]: "length (credit_delta de ms) = length ms"
  by (simp add: credit_delta_def Let_def)

lemma credits_ok_refl: "credits_ok cs \<Longrightarrow> i < length cs \<Longrightarrow> fle (cs ! i) (cs ! i)"
  unfolding credits_ok_def using fle_not_nan fle_refl nth_mem by blast

lemma credits_ok_resize: "credits_ok cs \<Longrightarrow> credits_ok (resize n (Fin 0) cs)"
  by (auto simp: credits_ok_def resize_def dest: in_set_takeD)

lemma add_credit_ok:
  assumes "credits_ok (cr_credits m)" "credits_ok d" "length d = n"
  shows "credits_ok (cr_credits (add_credit n it de d m))" "length (cr_credits (add_credit n it de d m)) = n"
proof -
  show "length (cr_credits (add_credit n it de d m)) = n"
    using assms(3) by (simp add: add_credit_def Let_def)
  show "credits_ok (cr_credits (add_credit n it de d m))"
    unfolding credits_ok_def add_credit_def Let_def
    by (auto simp: fmax_0_nonneg intro!: fmax_wf dest!: set_zip_leftD)
qed

text \<open>The credit of the feature at a position; features beyond the end of the ledger have none yet.\<close>

definition credit_of :: "credit_meta \<Rightarrow> nat \<Rightarrow> f64" where
  "credit_of m i = get_or (Fin 0) (cr_credits m) i"

lemma credit_of_ok: "credits_ok (cr_credits m) \<Longrightarrow> wf64 (credit_of m i) \<and> fnonneg (credit_of m i)"
  by (auto simp: credit_of_def get_or_def get_opt_def credits_ok_def)

lemma add_credit_adds:
  assumes "credits_ok (cr_credits m)" "credits_ok d" "length d = n" "i < n"
  shows "credit_of (add_credit n it de d m) i = fadd (credit_of m i) (d ! i)"
    "fle (credit_of m i) (credit_of (add_credit n it de d m) i)"
proof -
  let ?c = "credit_of m i" and ?d = "d ! i"
  have c: "wf64 ?c" "fnonneg ?c" "wf64 ?d" "fnonneg ?d"
    using credit_of_ok [OF assms(1)] assms by (simp_all add: credits_ok_def)
  then have m: "fmax (fadd ?c ?d) (Fin 0) = fadd ?c ?d" by (intro fmax_0_id fadd_nonneg)
  have "resize n (Fin 0) (cr_credits m) ! i = ?c" if "length (cr_credits m) \<noteq> n"
    using assms(4) by (auto simp: resize_def credit_of_def get_or_def get_opt_def nth_append)
  then have "credit_of (add_credit n it de d m) i = fmax (fadd ?c ?d) (Fin 0)"
    using assms(3,4) by (auto simp: add_credit_def Let_def credit_of_def get_or_def get_opt_def)
  then show e: "credit_of (add_credit n it de d m) i = fadd ?c ?d" by (simp add: m)
  show "fle ?c (credit_of (add_credit n it de d m) i)" unfolding e by (rule fadd_ge_both(1) [OF c(2,4,1,3)])
qed

text \<open>What one entry of a ledger must look like: every active feature gains the recorded share.\<close>

definition ledger_step :: "nat \<Rightarrow> f64 list \<Rightarrow> f64 list \<Rightarrow> credit_meta \<Rightarrow> credit_meta \<Rightarrow> bool" where
  "ledger_step n d cumulative m m' \<longleftrightarrow> length d = n \<and> credits_ok d \<and> cumulative = cr_credits m' \<and> length (cr_credits m') = n \<and>
     credits_ok (cr_credits m') \<and>
     (\<forall>i < n. credit_of m' i = fadd (credit_of m i) (d ! i) \<and> fle (credit_of m i) (credit_of m' i))"

lemma add_credit_step:
  "credits_ok (cr_credits m) \<Longrightarrow> credits_ok d \<Longrightarrow> length d = n \<Longrightarrow>
    ledger_step n d (cr_credits (add_credit n it de d m)) m (add_credit n it de d m)"
  using add_credit_adds [of m d n] by (simp add: ledger_step_def add_credit_ok)

section \<open>One credit step\<close>

lemma update_frontier_only:
  assumes "update_frontier_meta s newly = (s1, ch)"
  shows "\<exists>f. s1 = s\<lparr>m_frontier := f\<rparr>"
proof -
  have "s1 = s\<lparr>m_frontier := m_frontier s1\<rparr>"
    using assms by (auto simp: update_frontier_meta_def Let_def split: option.splits prod.splits if_splits)
  then show ?thesis by blast
qed

lemma local_mass_length: "local_mass m names nodes = Ok ms \<Longrightarrow> length ms = length names"
  unfolding local_mass_def by (rule map_result_length)

text \<open>What a successful append amounts to: nothing, a frontier update, or a frontier update and one entry
  in the ledger of the phase.\<close>

definition credit_event :: "fuzz_state \<Rightarrow> bool" where
  "credit_event s = (m_acfg s \<noteq> None \<and> m_matrix s \<noteq> None \<and> newly_covered_sancov (delta_meta s) \<noteq> [] \<and>
     snd (update_frontier_meta s (newly_covered_sancov (delta_meta s))) \<and> get_active_feature_names s \<noteq> [])"

lemma credit_append_cases:
  assumes "credit_append_metadata s tc = Ok s'"
  obtains f where "\<not> credit_event s" "s' = s\<lparr>m_frontier := f\<rparr>"
  | f n it nodes d where "credit_event s" "ti_phase (tpe_iter s) = Explore" "credits_ok d" "length d = n"
      "n = length (get_active_feature_names s)" "cd_delta_edges (delta_meta s) = 0 \<longrightarrow> d = replicate n (Fin 0)"
      "s' = record_explore n it (cd_delta_edges (delta_meta s)) nodes d (s\<lparr>m_frontier := f\<rparr>)"
  | f n it nodes d where "credit_event s" "ti_phase (tpe_iter s) \<noteq> Explore" "credits_ok d" "length d = n"
      "n = length (get_active_feature_names s)" "cd_delta_edges (delta_meta s) = 0 \<longrightarrow> d = replicate n (Fin 0)"
      "s' = record_runtime n it (ti_phase (tpe_iter s)) (cd_delta_edges (delta_meta s)) nodes d (s\<lparr>m_frontier := f\<rparr>)"
proof -
  have triv: "\<exists>f. s = s\<lparr>m_frontier := f\<rparr>" by (rule exI [of _ "m_frontier s"]) simp
  let ?d = "delta_meta s" and ?names = "get_active_feature_names s"
  obtain s1 ch where u: "update_frontier_meta s (newly_covered_sancov ?d) = (s1, ch)" by fastforce
  obtain f where f: "s1 = s\<lparr>m_frontier := f\<rparr>" using update_frontier_only [OF u] by blast
  have same: "get_active_feature_names s1 = ?names" "tpe_iter s1 = tpe_iter s" "m_matrix s1 = m_matrix s"
    using f by (simp_all add: getter_defs tpe_iter_def)
  consider "\<not> credit_event s" "s' = s" | "\<not> credit_event s" "s' = s1" | acfg mm where "credit_event s" "m_acfg s = Some acfg" "m_matrix s = Some mm"
      "newly_covered_sancov ?d \<noteq> []" "ch" "?names \<noteq> []"
    using assms u same by (cases "m_acfg s"; cases "m_matrix s"; cases "newly_covered_sancov ?d = []"; cases ch;
        cases "?names = []") (simp_all add: credit_append_metadata_def credit_event_def Let_def)
  then show thesis
  proof cases
    case 1
    then show ?thesis using triv that(1) by blast
  next
    case 2
    then show ?thesis using f that(1) by blast
  next
    case 3
    let ?nodes = "local_frontier_nodes (newly_covered_sancov ?d) (sancov_of tc) acfg" and ?ti = "tpe_iter s"
    let ?it = "if current_iteration ?ti = 0 then cd_iteration ?d else current_iteration ?ti"
    obtain ms where ms: "local_mass (fm_matrix mm) ?names ?nodes = Ok ms"
      "s' = (if ti_phase ?ti = Explore
           then record_explore (length ?names) ?it (cd_delta_edges ?d) ?nodes (credit_delta (cd_delta_edges ?d) ms) s1
           else record_runtime (length ?names) ?it (ti_phase ?ti) (cd_delta_edges ?d) ?nodes
             (credit_delta (cd_delta_edges ?d) ms) s1)"
      using assms 3 u same by (auto simp: credit_append_metadata_def Let_def bindR_Ok_iff)
    note len = local_mass_length [OF ms(1)] credit_delta_ok [of "cd_delta_edges ?d" ms]
    have z: "cd_delta_edges ?d = 0 \<longrightarrow> credit_delta (cd_delta_edges ?d) ms = replicate (length ?names) (Fin 0)"
      using len(1) by (simp add: credit_delta_def Let_def)
    show ?thesis
    proof (cases "ti_phase ?ti = Explore")
      case True
      then show ?thesis using that(2) [OF 3(1) True len(2) _ refl z] ms(2) len(1) f by simp
    next
      case False
      then show ?thesis using that(3) [OF 3(1) False len(2) _ refl z] ms(2) len(1) f by simp
    qed
  qed
qed

lemma credit_frontier_frame [simp]:
  "explore_credit (s\<lparr>m_frontier := f\<rparr>) = explore_credit s" "runtime_credit (s\<lparr>m_frontier := f\<rparr>) = runtime_credit s"
  by (simp_all add: explore_credit_def runtime_credit_def)

lemma record_frame [simp]:
  "runtime_credit (record_explore n it de nodes d s) = runtime_credit s"
  "m_runtime_history (record_explore n it de nodes d s) = m_runtime_history s"
  "explore_credit (record_runtime n it ph de nodes d s) = explore_credit s"
  "m_explore_history (record_runtime n it ph de nodes d s) = m_explore_history s"
  by (simp_all add: explore_credit_def runtime_credit_def record_explore_def record_runtime_def Let_def)

text \<open>A validated matrix never makes the feedback fail.\<close>

lemma node_mass_total:
  "\<forall>v \<in> set arr. \<not> flt v (Fin 0) \<Longrightarrow> \<exists>m. node_mass arr nodes acc = Ok m"
proof (induction nodes arbitrary: acc)
  case (Cons node nodes)
  have "\<not> flt (get_or (Fin 0) arr node) (Fin 0)"
    using Cons.prems by (auto simp: get_or_def get_opt_def)
  then show ?case using Cons by (simp add: Let_def)
qed simp

lemma local_mass_total:
  assumes "\<forall>n arr. Mapping.lookup m n = Some arr \<longrightarrow> (\<forall>v \<in> set arr. \<not> flt v (Fin 0))"
  shows "\<exists>ms. local_mass m names nodes = Ok ms"
proof (induction names)
  case (Cons name names)
  have "\<exists>y. (case Mapping.lookup m name of None \<Rightarrow> Ok (Fin 0) | Some arr \<Rightarrow> node_mass arr nodes (Fin 0)) = Ok y"
    using node_mass_total assms by (cases "Mapping.lookup m name") auto
  then show ?case using Cons by (auto simp: local_mass_def)
qed (simp add: local_mass_def)

lemma credit_append_total:
  assumes "\<forall>mm n arr. m_matrix s = Some mm \<and> Mapping.lookup (fm_matrix mm) n = Some arr \<longrightarrow>
      (\<forall>v \<in> set arr. \<not> flt v (Fin 0))"
  shows "\<exists>s'. credit_append_metadata s tc = Ok s'"
proof -
  obtain s1 ch where u: "update_frontier_meta s (newly_covered_sancov (delta_meta s)) = (s1, ch)" by fastforce
  then have m: "m_matrix s1 = m_matrix s" using update_frontier_only by fastforce
  show ?thesis
  proof (cases "m_acfg s = None \<or> m_matrix s = None")
    case True
    then show ?thesis by (cases "m_acfg s") (simp_all add: credit_append_metadata_def)
  next
    case False
    then obtain acfg mm where am: "m_acfg s = Some acfg" "m_matrix s = Some mm" by auto
    then obtain ms where "local_mass (fm_matrix mm) (get_active_feature_names s1)
        (local_frontier_nodes (newly_covered_sancov (delta_meta s)) (sancov_of tc) acfg) = Ok ms"
      using assms local_mass_total by blast
    then show ?thesis using u m am by (simp add: credit_append_metadata_def Let_def)
  qed
qed

section \<open>Accounting\<close>

text \<open>A testcase without recorded coverage gets the map entries it hit, if any.\<close>

definition with_coverage :: "map_observer \<Rightarrow> testcase \<Rightarrow> testcase" where
  "with_coverage obs tc = (if tc_sancov tc = None \<and> covered_indexes obs \<noteq> []
     then tc\<lparr>tc_sancov := Some (covered_indexes obs)\<rparr> else tc)"

lemma fill_sancov_ok:
  assumes "corpus_lookup s cid = Ok tc"
  shows "\<exists>s1. fill_sancov (Some obs) cid s = Ok s1 \<and> same_but_corpus s s1 \<and>
    corpus_lookup s1 cid = Ok (with_coverage obs tc) \<and> (\<forall>k. k \<noteq> cid \<longrightarrow> corpus_lookup s1 k = corpus_lookup s k)"
proof (cases "tc_sancov tc = None \<and> covered_indexes obs \<noteq> []")
  case True
  obtain s1 where s1: "corpus_modify cid (\<lambda>tc. tc\<lparr>tc_sancov := Some (covered_indexes obs)\<rparr>) s = Ok s1"
    using corpus_modify_total [OF assms] by blast
  note m = corpus_modify_lookup [OF s1]
  have "same_but_corpus s s1" unfolding same_but_corpus_def using m(2) by blast
  moreover have "corpus_lookup s1 cid = Ok (with_coverage obs tc)" using m(1) [of cid] assms True by (simp add: with_coverage_def)
  ultimately show ?thesis using s1 m(1) True assms by (auto simp: fill_sancov_def)
next
  case False
  then have "fill_sancov (Some obs) cid s = Ok s" "with_coverage obs tc = tc"
    using assms by (auto simp: fill_sancov_def Let_def with_coverage_def)
  then show ?thesis using assms by simp
qed

lemma factor_right_frame:
  assumes "same_but_corpus s s1"
  shows "factor_right lm p (set_feat0 v s1) (with_coverage obs tc) f = factor_right lm p s tc f"
proof -
  obtain c where c: "s1 = s\<lparr>st_corpus := c\<rparr>" using assms by (auto simp: same_but_corpus_def)
  have "get_features_enabled (set_feat0 v s1) = get_features_enabled s" "weight_mode (set_feat0 v s1) = weight_mode s"
    "m_stats (set_feat0 v s1) = m_stats s"
    by (simp_all add: c setter_defs upd_globals_def globals_def get_features_enabled_def getter_defs get_feat_mode_def weight_mode_def)
  moreover have "entry_weight mode (with_coverage obs tc) = entry_weight mode tc" for mode
    by (simp add: entry_weight_def with_coverage_def split: weight_compute_mode.split)
  ultimately show ?thesis unfolding factor_right_def by (simp only:)
qed

text \<open>Appending the coverage of a new testcase records exactly the map entries it hit that the
  frontier did not yet cover, and the number of edges gained since the last append, which saturates at
  zero; the progress marker then holds the current edge count.\<close>

theorem sancov_append_correct:
  assumes "sancov_append_metadata fire (Some (init, cov_map)) s tc = Ok (s', tc')"
  shows "(\<exists>d. m_delta s' = Some d \<and>
      set (newly_covered_sancov d) = {i. i < length cov_map \<and> cov_map ! i \<noteq> init \<and> \<not> bitset_get (frontier_covered s) i} \<and>
      sorted (newly_covered_sancov d) \<and> distinct (newly_covered_sancov d) \<and>
      unat (cd_delta_edges d) = unat (current_covered_edges s) - unat (last_covered_edges s)) \<and>
    last_covered_edges s' = current_covered_edges s \<and> current_covered_edges s' = current_covered_edges s \<and>
    set (sancov_of tc') = (if \<exists>i < length cov_map. cov_map ! i \<noteq> init
      then {i. i < length cov_map \<and> cov_map ! i \<noteq> init} else set (sancov_of tc))"
proof -
  let ?idx = "covered_indexes (init, cov_map)"
  have idx: "set ?idx = {i. i < length cov_map \<and> cov_map ! i \<noteq> init}" "sorted ?idx" "distinct ?idx"
    by (auto simp: covered_indexes_def sorted_filter intro: sorted_wrt_filter)
  have e: "?idx \<noteq> [] \<longleftrightarrow> (\<exists>i < length cov_map. cov_map ! i \<noteq> init)"
    using idx(1) by (metis (mono_tags, lifting) empty_Collect_eq set_empty)
  have s': "s' = s\<lparr>m_progress := Some (current_covered_edges s), m_delta := Some \<lparr>cd_iteration = current_iter s,
      cd_delta_edges = saturating_sub (current_covered_edges s) (last_covered_edges s),
      newly_covered_sancov = filter (\<lambda>i. \<not> bitset_get (frontier_covered s) i) ?idx\<rparr>\<rparr>"
    and tc': "tc' = (if ?idx \<noteq> [] then tc\<lparr>tc_sancov := Some ?idx\<rparr> else tc)"
    using assms by (auto simp: sancov_append_metadata_def Let_def bindR_Ok_iff frontier_covered_def current_iter_def)
  have "sorted (filter P ?idx)" for P using idx(2) sorted_filter [of id] by simp
  then show ?thesis using idx e
    by (simp add: s' tc' sancov_of_def last_covered_edges_def current_covered_edges_def unat_saturating_sub) auto
qed

theorem sancov_append_correct_witness:
  "\<exists>s' tc' d. sancov_append_metadata (\<lambda>_. Ok ()) (Some (0, [0, 3])) example_corpus_state (testcase_new []) = Ok (s', tc') \<and>
     m_delta s' = Some d \<and> set (newly_covered_sancov d) = {i. i < 2 \<and> [0 :: u8, 3] ! i \<noteq> 0 \<and> \<not> bitset_get [] i}"
proof -
  have "\<exists>s' tc'. sancov_append_metadata (\<lambda>_. Ok ()) (Some (0, [0, 3])) example_corpus_state (testcase_new []) = Ok (s', tc')"
    by (simp add: sancov_append_metadata_def Let_def)
  then obtain s' tc' where e:
    "sancov_append_metadata (\<lambda>_. Ok ()) (Some (0, [0, 3])) example_corpus_state (testcase_new []) = Ok (s', tc')" by blast
  have "frontier_covered example_corpus_state = []"
    by (simp add: frontier_covered_def example_corpus_state_def state_new_def)
  then show ?thesis using e sancov_append_correct [OF e] by auto
qed

text \<open>C11. Appending credits never fails on a matrix without negative values. Where there is nothing to
  credit (no control flow graph or matrix, no newly covered site, a frontier that did not change, or no
  active feature) it changes neither ledger nor history. Otherwise it adds one entry to the history and
  the ledger of the current phase only, also when the ledger is still empty or has another length: every
  active feature gains exactly the share the entry records, never loses credit, and the ledgers stay free
  of NaN and negative credits. No gained edges give no credit.\<close>

theorem credit_append_correct:
  assumes "credits_ok (cr_credits (explore_credit s))" "credits_ok (cr_credits (runtime_credit s))"
    "\<forall>mm n arr. m_matrix s = Some mm \<and> Mapping.lookup (fm_matrix mm) n = Some arr \<longrightarrow>
      (\<forall>v \<in> set arr. \<not> flt v (Fin 0))"
  shows "\<exists>s'. credit_append_metadata s tc = Ok s' \<and>
    (\<not> credit_event s \<longrightarrow> explore_credit s' = explore_credit s \<and> m_explore_history s' = m_explore_history s \<and>
       runtime_credit s' = runtime_credit s \<and> m_runtime_history s' = m_runtime_history s) \<and>
    (credit_event s \<and> ti_phase (tpe_iter s) = Explore \<longrightarrow>
       runtime_credit s' = runtime_credit s \<and> m_runtime_history s' = m_runtime_history s \<and>
       (\<exists>e. m_explore_history s' = Some (case_option [] id (m_explore_history s) @ [e]) \<and>
          ledger_step (length (get_active_feature_names s)) (ee_credit_delta e) (ee_cumulative e) (explore_credit s) (explore_credit s') \<and>
          (cd_delta_edges (delta_meta s) = 0 \<longrightarrow> set (ee_credit_delta e) \<subseteq> {Fin 0}))) \<and>
    (credit_event s \<and> ti_phase (tpe_iter s) \<noteq> Explore \<longrightarrow>
       explore_credit s' = explore_credit s \<and> m_explore_history s' = m_explore_history s \<and>
       (\<exists>e. m_runtime_history s' = Some (case_option [] id (m_runtime_history s) @ [e]) \<and> re_phase e = ti_phase (tpe_iter s) \<and>
          ledger_step (length (get_active_feature_names s)) (re_credit_delta e) (re_cumulative e) (runtime_credit s) (runtime_credit s') \<and>
          (cd_delta_edges (delta_meta s) = 0 \<longrightarrow> set (re_credit_delta e) \<subseteq> {Fin 0})))"
proof -
  obtain s' where s': "credit_append_metadata s tc = Ok s'" using credit_append_total [OF assms(3)] by blast
  show ?thesis using s'
  proof (cases rule: credit_append_cases)
    case (1 f)
    then show ?thesis using s' by (intro exI [of _ s']) simp
  next
    case (2 f n it nodes d)
    let ?m = "add_credit n it (cd_delta_edges (delta_meta s)) d (explore_credit s)"
    have e: "explore_credit s' = ?m" using 2(7) by (simp add: record_explore_def Let_def explore_credit_def)
    have "ledger_step n d (cr_credits ?m) (explore_credit s) ?m" by (rule add_credit_step [OF assms(1) 2(3,4)])
    then have l: "ledger_step n d (cr_credits ?m) (explore_credit s) (explore_credit s')" unfolding e .
    have h: "\<exists>e. m_explore_history s' = Some (case_option [] id (m_explore_history s) @ [e]) \<and> ee_credit_delta e = d \<and>
        ee_cumulative e = cr_credits ?m"
      using 2(7) by (auto simp: record_explore_def Let_def split: option.splits)
    have o: "runtime_credit s' = runtime_credit s" "m_runtime_history s' = m_runtime_history s" using 2(7) by simp_all
    have z: "cd_delta_edges (delta_meta s) = 0 \<longrightarrow> set d \<subseteq> {Fin 0}" using 2(6) by auto
    show ?thesis using s' 2(1,2) o h l z unfolding 2(5) by (intro exI [of _ s']) auto
  next
    case (3 f n it nodes d)
    let ?m = "add_credit n it (cd_delta_edges (delta_meta s)) d (runtime_credit s)"
    have e: "runtime_credit s' = ?m" using 3(7) by (simp add: record_runtime_def Let_def runtime_credit_def)
    have "ledger_step n d (cr_credits ?m) (runtime_credit s) ?m" by (rule add_credit_step [OF assms(2) 3(3,4)])
    then have l: "ledger_step n d (cr_credits ?m) (runtime_credit s) (runtime_credit s')" unfolding e .
    have h: "\<exists>e. m_runtime_history s' = Some (case_option [] id (m_runtime_history s) @ [e]) \<and> re_credit_delta e = d \<and>
        re_cumulative e = cr_credits ?m \<and> re_phase e = ti_phase (tpe_iter s)"
      using 3(7) by (auto simp: record_runtime_def Let_def split: option.splits)
    have o: "explore_credit s' = explore_credit s" "m_explore_history s' = m_explore_history s" using 3(7) by simp_all
    have z: "cd_delta_edges (delta_meta s) = 0 \<longrightarrow> set d \<subseteq> {Fin 0}" using 3(6) by auto
    show ?thesis using s' 3(1,2) o h l z unfolding 3(5) by (intro exI [of _ s']) auto
  qed
qed

definition example_credit_state :: fuzz_state where
  "example_credit_state = (upd_globals (\<lambda>g. g\<lparr>active_feature_names := [''depth'']\<rparr>) (state_new (std_rand_with_seed 0)))
     \<lparr>m_acfg := Some example_acfg, m_matrix := Some \<lparr>fm_matrix = Mapping.update ''depth'' [Fin 1] Mapping.empty, fm_sites = 1\<rparr>,
      m_delta := Some \<lparr>cd_iteration = 0, cd_delta_edges = 4, newly_covered_sancov = [0]\<rparr>\<rparr>"

theorem credit_append_correct_witness:
  "\<exists>s' e. credit_append_metadata example_credit_state (testcase_new []) = Ok s' \<and> m_explore example_credit_state = None \<and>
    m_explore_history s' = Some [e] \<and>
    ledger_step 1 (ee_credit_delta e) (ee_cumulative e) credit_default (explore_credit s') \<and> m_runtime_history s' = None"
proof -
  let ?s = "example_credit_state"
  have c: "credits_ok (cr_credits (explore_credit ?s))" "credits_ok (cr_credits (runtime_credit ?s))" "explore_credit ?s = credit_default"
    "m_explore ?s = None" "m_explore_history ?s = None" "m_runtime_history ?s = None"
    "ti_phase (tpe_iter ?s) = Explore" "length (get_active_feature_names ?s) = 1"
    by (simp_all add: example_credit_state_def explore_credit_def runtime_credit_def credits_ok_def getter_defs credit_default_def
        globals_def upd_globals_def state_new_def tpe_iter_def tpe_iteration_default_def)
  have m: "\<forall>mm n arr. m_matrix ?s = Some mm \<and> Mapping.lookup (fm_matrix mm) n = Some arr \<longrightarrow>
      (\<forall>v \<in> set arr. \<not> flt v (Fin 0))"
    by (auto simp: example_credit_state_def lookup_update' split: if_splits)
  have "credit_event ?s" by code_simp
  then show ?thesis using credit_append_correct [OF c(1,2) m, of "testcase_new []"] c(3-8) by auto
qed


definition example_account_state :: fuzz_state where
  "example_account_state = set_features_active True (set_feat_exists True (example_corpus_state\<lparr>
     st_corpus := (case corpus_add corpus_new ((testcase_new [])\<lparr>tc_path_weight := Some (Fin 3)\<rparr>) of
        Some (c, _) \<Rightarrow> c\<lparr>current := Some 0\<rparr> | None \<Rightarrow> corpus_new),
     m_weight_mode := Some Path, m_stats := Some \<lparr>ws_n = 2, ws_mu = Fin 2, ws_m2 = Fin 2\<rparr>\<rparr>))"


end
