(* ===== verification/Runtime_Data.thy ===== *)
theory Runtime_Data
  imports Credit_Feedback
begin

text \<open>
  The export of the runtime data (\<open>feature_sched/runtime_data.rs\<close>): the exported record, the throttled
  export, and the atomic replacement of the file over a model of the file system. A file holds either
  the complete serialised data or a part of it; every operation of the file system may fail, as decided
  by a parameter. Serialisation itself is left abstract: a file holds the exported value.
\<close>

section \<open>The exported record\<close>

record runtime_mask_export =
  me_mode :: vec_mask_mode
  me_credit_top_k :: nat
  me_requested_explicit_mask :: "string option"
  me_mask_committed :: bool
  me_effective_mask :: string
  me_selected_feature_names :: "string list"
  me_selected_schema_indices :: "nat list"
  me_positive_credit_count :: nat
  me_positive_credit_sum :: f64
  me_fallback_reason :: "string option"

record runtime_initialization_export =
  ie_tpe_init_committed :: bool
  ie_source :: "tpe_init_source option"
  ie_candidate_file_path :: "string option"
  ie_candidate_file_loaded :: bool
  ie_explore_credits_full :: "f64 list"
  ie_explore_credits_active :: "f64 list"
  ie_normalized_credit_init_v :: "f64 list"

record explore_credit_export =
  xe_names :: "string list"
  xe_cumulative :: credit_meta
  xe_history :: "explore_credit_entry list"

record runtime_credit_export =
  xr_names :: "string list"
  xr_cumulative :: credit_meta
  xr_history :: "runtime_credit_entry list"

record tpe_export =
  xt_names :: "string list"
  xt_history :: tpe_history
  xt_phase :: tpe_phase

record runtime_data_file =
  rd_schema_version :: u64
  rd_schema_features :: "feature_spec list"
  rd_mask :: runtime_mask_export
  rd_initialization :: runtime_initialization_export
  rd_explore :: explore_credit_export
  rd_runtime :: runtime_credit_export
  rd_tpe :: tpe_export

definition explore_coordinate_feature_names :: "fuzz_state \<Rightarrow> vec_mask_runtime \<Rightarrow> string list" where
  "explore_coordinate_feature_names s m = (case vm_mode m of
     Explicit \<Rightarrow> if selected_feature_names m \<noteq> [] then selected_feature_names m else get_active_feature_names s
   | _ \<Rightarrow> map fs_name (get_schema_features s))"

definition build_runtime_data :: "fuzz_state \<Rightarrow> runtime_data_file" where
  "build_runtime_data s =
     (let m = vec_mask_runtime_meta s; names = get_active_feature_names s in
      \<lparr>rd_schema_version = get_schema_version s, rd_schema_features = get_schema_features s,
       rd_mask = \<lparr>me_mode = vm_mode m, me_credit_top_k = credit_top_k m,
         me_requested_explicit_mask = map_option mask_to_bitstring (requested_explicit_mask m),
         me_mask_committed = mask_committed m, me_effective_mask = mask_to_bitstring (effective_mask m),
         me_selected_feature_names = selected_feature_names m,
         me_selected_schema_indices = selected_schema_indices m,
         me_positive_credit_count = positive_credit_count m, me_positive_credit_sum = positive_credit_sum m,
         me_fallback_reason = fallback_reason m\<rparr>,
       rd_initialization = \<lparr>ie_tpe_init_committed = tpe_init_committed m, ie_source = vm_init_source m,
         ie_candidate_file_path = candidate_file_path m, ie_candidate_file_loaded = candidate_file_loaded m,
         ie_explore_credits_full = explore_credits_full m, ie_explore_credits_active = explore_credits_active m,
         ie_normalized_credit_init_v = normalized_credit_init_v m\<rparr>,
       rd_explore = \<lparr>xe_names = explore_coordinate_feature_names s m, xe_cumulative = explore_credit s,
         xe_history = (case m_explore_history s of Some es \<Rightarrow> es | None \<Rightarrow> [])\<rparr>,
       rd_runtime = \<lparr>xr_names = names, xr_cumulative = runtime_credit s,
         xr_history = (case m_runtime_history s of Some es \<Rightarrow> es | None \<Rightarrow> [])\<rparr>,
       rd_tpe = \<lparr>xt_names = names, xt_history = (case m_history s of Some h \<Rightarrow> h | None \<Rightarrow> tpe_history_default),
         xt_phase = ti_phase (tpe_iter s)\<rparr>\<rparr>)"

section \<open>The file system\<close>

datatype 'd file_content = Partial | Complete 'd

type_synonym 'd filesystem = "string \<Rightarrow> 'd file_content option"

datatype fs_op = CreateDirAll | CreateFile | WriteData | WriteNewline | Flush | SyncAll | Rename

text \<open>A path has a parent unless it is empty or consists of slashes only.\<close>

definition has_parent :: "string \<Rightarrow> bool" where
  "has_parent p = list_ex (\<lambda>c. c \<noteq> CHR ''/'') p"

definition tmp_path :: "string \<Rightarrow> string" where
  "tmp_path p = p @ ''.tmp''"

text \<open>The effect of one operation on the file system: the file is partial from its creation until the last
  byte was written, a failed operation leaves it so.\<close>

fun fs_exec :: "string \<Rightarrow> 'd \<Rightarrow> fs_op \<Rightarrow> bool \<Rightarrow> 'd filesystem \<Rightarrow> 'd filesystem" where
  "fs_exec p d CreateFile ok fs = (if ok then fs(tmp_path p := Some Partial) else fs)"
| "fs_exec p d WriteNewline ok fs = (if ok then fs(tmp_path p := Some (Complete d)) else fs)"
| "fs_exec p d Rename ok fs = (if ok then fs(p := fs (tmp_path p), tmp_path p := None) else fs)"
| "fs_exec p d _ ok fs = fs"

fun run_fs :: "(fs_op \<Rightarrow> bool) \<Rightarrow> string \<Rightarrow> 'd \<Rightarrow> fs_op list \<Rightarrow> 'd filesystem \<Rightarrow> (error + unit) \<times> 'd filesystem" where
  "run_fs ok p d [] fs = (Ok (), fs)"
| "run_fs ok p d (x # xs) fs =
     (if ok x then run_fs ok p d xs (fs_exec p d x True fs)
      else (Err (Unknown (Text ''io'')), fs_exec p d x False fs))"

definition atomic_ops :: "string \<Rightarrow> fs_op list" where
  "atomic_ops p = (if has_parent p then [CreateDirAll] else []) @
     [CreateFile, WriteData, WriteNewline, Flush, SyncAll, Rename]"

definition write_atomic :: "(fs_op \<Rightarrow> bool) \<Rightarrow> string \<Rightarrow> 'd \<Rightarrow> 'd filesystem \<Rightarrow> (error + unit) \<times> 'd filesystem" where
  "write_atomic ok p d fs = (if p = [] then (Ok (), fs) else run_fs ok p d (atomic_ops p) fs)"

section \<open>The throttled export\<close>

definition RUNTIME_DATA_EXPORT_INTERVAL_SECS :: u64 where
  "RUNTIME_DATA_EXPORT_INTERVAL_SECS = 30"

definition export_meta :: "fuzz_state \<Rightarrow> runtime_export" where
  "export_meta s = (case m_export s of Some m \<Rightarrow> m | None \<Rightarrow> \<lparr>output_path = [], last_export_ms = 0\<rparr>)"

definition export_due :: "u64 \<Rightarrow> bool \<Rightarrow> fuzz_state \<Rightarrow> bool" where
  "export_due now force s \<longleftrightarrow> output_path (export_meta s) \<noteq> [] \<and>
     \<not> (\<not> force \<and> last_export_ms (export_meta s) \<noteq> 0 \<and>
        saturating_sub now (last_export_ms (export_meta s)) < RUNTIME_DATA_EXPORT_INTERVAL_SECS * 1000)"

definition maybe_export_runtime_data ::
  "(fs_op \<Rightarrow> bool) \<Rightarrow> u64 \<Rightarrow> bool \<Rightarrow> fuzz_state \<Rightarrow> runtime_data_file filesystem \<Rightarrow>
    (error + fuzz_state) \<times> runtime_data_file filesystem" where
  "maybe_export_runtime_data ok now force s fs =
     (if \<not> export_due now force s then (Ok s, fs)
      else (case write_atomic ok (output_path (export_meta s)) (build_runtime_data s) fs of
          (Inl e, fs1) \<Rightarrow> (Err e, fs1)
        | (Inr _, fs1) \<Rightarrow> (Ok (s\<lparr>m_export := Some ((export_meta s)\<lparr>last_export_ms := now\<rparr>)\<rparr>), fs1)))"

section \<open>Atomicity\<close>

lemma tmp_path_neq [simp]: "tmp_path p \<noteq> p" "p \<noteq> tmp_path p"
  by (simp_all add: tmp_path_def)

lemma write_atomic_target:
  assumes "write_atomic ok p d fs = (r, fs')"
  shows "fs' p = fs p \<and> \<not> (is_Ok r \<and> p \<noteq> []) \<or> fs' p = Some (Complete d) \<and> is_Ok r \<and> p \<noteq> []"
    "q \<noteq> p \<Longrightarrow> q \<noteq> tmp_path p \<Longrightarrow> fs' q = fs q"
  using assms by (auto simp: write_atomic_def atomic_ops_def is_Ok_def split: if_splits)

text \<open>The export replaces its target atomically: whichever operation of the file system fails, the target
  keeps its previous content, and after success it holds the complete new data; no file but the target
  and its temporary neighbour is touched.\<close>

theorem write_atomic_safe:
  assumes "write_atomic ok p d fs = (r, fs')" "p \<noteq> []"
  shows "(r = Ok () \<longrightarrow> fs' p = Some (Complete d)) \<and> (r \<noteq> Ok () \<longrightarrow> fs' p = fs p) \<and>
    (r = Ok () \<longleftrightarrow> (\<forall>x \<in> set (atomic_ops p). ok x)) \<and>
    (\<forall>q. q \<noteq> p \<and> q \<noteq> tmp_path p \<longrightarrow> fs' q = fs q)"
proof -
  have "r = Ok () \<longleftrightarrow> (\<forall>x \<in> set (atomic_ops p). ok x)"
    using assms by (auto simp: write_atomic_def atomic_ops_def split: if_splits)
  then show ?thesis using write_atomic_target [OF assms(1)] assms(2)
    by (cases r) (auto simp: is_Ok_def)
qed

theorem write_atomic_safe_witness:
  "\<exists>fs'. write_atomic (\<lambda>x. x \<noteq> SyncAll) ''out/r.json'' (7 :: nat) (\<lambda>_. Some (Complete 3)) = (Err (Unknown (Text ''io'')), fs') \<and>
     fs' ''out/r.json'' = Some (Complete 3)"
proof -
  obtain r fs' where e: "write_atomic (\<lambda>x. x \<noteq> SyncAll) ''out/r.json'' (7 :: nat) (\<lambda>_. Some (Complete 3)) = (r, fs')"
    by fastforce
  moreover have "r = Err (Unknown (Text ''io''))"
    using e by (auto simp: write_atomic_def atomic_ops_def has_parent_def)
  ultimately show ?thesis using write_atomic_safe [OF e] by auto
qed

text \<open>An unforced export happens at most once per thirty seconds: directly after a successful export at a
  non-zero time no further unforced export is due until that time has passed, a forced one is always
  due, and the exported ledger names and masks are those of the state.\<close>

theorem export_throttled:
  assumes "maybe_export_runtime_data ok now force s fs = (Ok s', fs')" "export_due now force s" "now \<noteq> 0"
  shows "fs' (output_path (export_meta s)) = Some (Complete (build_runtime_data s)) \<and>
    (export_due later False s' \<longleftrightarrow> unat now + 30000 \<le> unat later) \<and> export_due later True s' \<and>
    build_runtime_data s' = build_runtime_data s"
proof -
  let ?p = "output_path (export_meta s)"
  have p: "?p \<noteq> []" using assms(2) by (simp add: export_due_def)
  obtain u where w: "write_atomic ok ?p (build_runtime_data s) fs = (Ok u, fs')"
    and s': "s' = s\<lparr>m_export := Some ((export_meta s)\<lparr>last_export_ms := now\<rparr>)\<rparr>"
    using assms(1,2) by (auto simp: maybe_export_runtime_data_def split: prod.splits sum.splits)
  have "fs' ?p = Some (Complete (build_runtime_data s))"
    using write_atomic_target(1) [OF w] p by simp
  moreover have g: "get_active_feature_names s' = get_active_feature_names s" "get_schema_features s' = get_schema_features s"
    "get_schema_version s' = get_schema_version s" "vec_mask_runtime_meta s' = vec_mask_runtime_meta s"
    "explore_credit s' = explore_credit s" "runtime_credit s' = runtime_credit s" "tpe_iter s' = tpe_iter s"
    "m_explore_history s' = m_explore_history s" "m_runtime_history s' = m_runtime_history s" "m_history s' = m_history s"
    by (simp_all add: s' vec_mask_runtime_meta_def getter_defs globals_def explore_credit_def runtime_credit_def tpe_iter_def)
  moreover have "build_runtime_data s' = build_runtime_data s"
    unfolding build_runtime_data_def explore_coordinate_feature_names_def g by (rule refl)
  moreover have "export_due later False s' \<longleftrightarrow> \<not> saturating_sub later now < 30000" "export_due later True s'"
    using assms(3) p by (simp_all add: s' export_due_def export_meta_def RUNTIME_DATA_EXPORT_INTERVAL_SECS_def)
  moreover have "\<not> saturating_sub later now < 30000 \<longleftrightarrow> unat now + 30000 \<le> unat later"
    by (auto simp: word_less_nat_alt unat_saturating_sub)
  ultimately show ?thesis by blast
qed

theorem export_throttled_witness:
  "\<exists>s' fs'. maybe_export_runtime_data (\<lambda>_. True) 5 False
      ((state_new (std_rand_with_seed 0))\<lparr>m_export := Some \<lparr>output_path = ''r'', last_export_ms = 0\<rparr>\<rparr>) (\<lambda>_. None) = (Ok s', fs') \<and>
    \<not> export_due 30004 False s' \<and> export_due 30005 False s'"
proof -
  let ?s = "(state_new (std_rand_with_seed 0))\<lparr>m_export := Some \<lparr>output_path = ''r'', last_export_ms = 0\<rparr>\<rparr>"
  have d: "export_due 5 False ?s" by (simp add: export_due_def export_meta_def)
  then obtain s' fs' where e: "maybe_export_runtime_data (\<lambda>_. True) 5 False ?s (\<lambda>_. None) = (Ok s', fs')"
    by (auto simp: maybe_export_runtime_data_def export_meta_def write_atomic_def atomic_ops_def)
  then show ?thesis using export_throttled [OF e d, of 30004] export_throttled [OF e d, of 30005] by auto
qed

end
