(* ===== verification/Tpe.thy ===== *)
theory Tpe
  imports Features_Map Weight_Refresh
begin

text \<open>
  The tree-structured Parzen estimator over simplex vectors (\<open>feature_sched/tpe.rs\<close>): logistic normal
  sampling and densities, the trial history, the candidate pool and the suggestion of the next vector.
  The functions of the mathematics library are parameters (\<open>libm\<close>), the generator is threaded through,
  and a panic of \<open>best_by_reward\<close> on a NaN reward is an error value. The optimizer's lock is not
  modelled: every method is called by the single stage that owns the optimizer. Shown: samples keep the
  dimension of their centre and lie in the unit cube, the history is bounded, the good and bad trials
  partition the history by a reward threshold, the pool search returns the first untried candidate, and a
  suggestion has the active dimension.
\<close>

section \<open>Sampling and densities\<close>

definition MAX_TRIALS :: nat where
  "MAX_TRIALS = 1024"

definition INVERSE_LAMBDA :: f64 where
  "INVERSE_LAMBDA = f_lit 0.5"

definition PI64 :: f64 where
  "PI64 = Fin (884279719003555 / 281474976710656)"

record tpe_params =
  tp_gamma :: f64
  tp_samples :: nat
  tp_bw :: f64
  tp_period :: duration
  tp_trials_threshold :: nat
  tp_re_tpe_threshold :: duration

definition tpe_params_default :: tpe_params where
  "tpe_params_default = \<lparr>tp_gamma = f_lit 0.15, tp_samples = 16, tp_bw = f_lit 0.05,
     tp_period = 600 * 10 ^ 9, tp_trials_threshold = 5, tp_re_tpe_threshold = 3600 * 10 ^ 9\<rparr>"

definition rand_gaussian :: "libm \<Rightarrow> std_rand \<Rightarrow> f64 \<times> std_rand" where
  "rand_gaussian lm r =
     (let (a, r1) = next_float std_rand_next r;
          u1 = (case fclamp a min_positive (Fin 1) of Some u \<Rightarrow> u | None \<Rightarrow> a);
          (u2, r2) = next_float std_rand_next r1;
          rad = fsqrt (fmul (Fin (- 2)) (m_ln lm u1));
          theta = fmul (fmul (Fin 2) PI64) u2
      in (fmul rad (m_cos lm theta), r2))"

text \<open>\<open>normalize_simplex_eps(v).unwrap_or_else(..)\<close> with the uniform vector as the fallback.\<close>

definition normalize_or_uniform :: "f64 list \<Rightarrow> f64 list" where
  "normalize_or_uniform v = (case normalize_simplex_eps v of Inr w \<Rightarrow> w
     | Inl _ \<Rightarrow> if v = [] then [] else replicate (length v) (fdiv (Fin 1) (f_of_nat (length v))))"

definition alr :: "libm \<Rightarrow> f64 list \<Rightarrow> f64 list" where
  "alr lm v =
     (let w = normalize_or_uniform v; k = length w in
      if k \<le> 1 then []
      else let ref_w = fmax (w ! (k - 1)) EPS in
        map (\<lambda>wi. m_ln lm (fdiv (fmax wi EPS) ref_w)) (take (k - 1) w))"

definition softmax :: "libm \<Rightarrow> f64 list \<Rightarrow> f64 list" where
  "softmax lm z = (if z = [] then []
     else let max_z = foldl fmax NInf z;
              exps = map (\<lambda>v. m_exp lm (fsub v max_z)) z;
              total = fsum exps
          in if \<not> is_finite total \<or> fle total (Fin 0)
             then replicate (length z) (fdiv (Fin 1) (f_of_nat (length z)))
             else map (\<lambda>v. fdiv v total) exps)"

definition alr_inverse :: "libm \<Rightarrow> f64 list \<Rightarrow> f64 list" where
  "alr_inverse lm u = (if u = [] then [Fin 1] else softmax lm (u @ [Fin 0]))"

fun add_noise :: "libm \<Rightarrow> f64 \<Rightarrow> f64 list \<Rightarrow> std_rand \<Rightarrow> f64 list \<times> std_rand" where
  "add_noise lm h [] r = ([], r)"
| "add_noise lm h (x # xs) r =
     (let (g, r1) = rand_gaussian lm r; (ys, r2) = add_noise lm h xs r1 in (fadd x (fmul h g) # ys, r2))"

definition logistic_normal_sample :: "libm \<Rightarrow> f64 list \<Rightarrow> f64 \<Rightarrow> std_rand \<Rightarrow> f64 list \<times> std_rand" where
  "logistic_normal_sample lm center_simplex bw r =
     (let center = normalize_or_uniform center_simplex in
      if length center \<le> 1 then (replicate (max (length center) 1) (Fin 1), r)
      else let (u, r1) = add_noise lm (fmax bw EPS) (alr lm center) r in (alr_inverse lm u, r1))"

definition logistic_normal_log_pdf :: "libm \<Rightarrow> f64 list \<Rightarrow> f64 list \<Rightarrow> f64 \<Rightarrow> f64" where
  "logistic_normal_log_pdf lm xv cv bw =
     (if length xv \<noteq> length cv \<or> xv = [] then NInf
      else if length xv = 1 then Fin 0
      else let h = fmax bw EPS; x = alr lm xv; c = alr lm cv in
        if length x \<noteq> length c then NInf
        else let d = f_of_nat (length x);
                 sq = fsum (map (\<lambda>(a, b). let z = fdiv (fsub a b) h in fmul z z) (zip x c))
             in fsub (fsub (fmul (f_lit (- 0.5)) sq) (fmul d (m_ln lm h)))
                  (fmul (fmul (f_lit 0.5) d) (m_ln lm (fmul (Fin 2) PI64))))"

definition kde_log_pdf :: "libm \<Rightarrow> f64 list \<Rightarrow> f64 list list \<Rightarrow> f64 \<Rightarrow> f64" where
  "kde_log_pdf lm xv centers bw =
     (if centers = [] then NInf
      else let vals = map (\<lambda>c. logistic_normal_log_pdf lm xv c bw) centers;
               max_v = foldl fmax NInf vals
           in if \<not> is_finite max_v then NInf
              else fsub (fadd max_v (m_ln lm (fsum (map (\<lambda>v. m_exp lm (fsub v max_v)) vals))))
                     (m_ln lm (f_of_nat (length centers))))"

text \<open>The index is drawn below the number of centers, so the lookup is in range.\<close>

definition sample_one_from_kde ::
  "libm \<Rightarrow> f64 list list \<Rightarrow> f64 \<Rightarrow> std_rand \<Rightarrow> (f64 list option) \<times> std_rand" where
  "sample_one_from_kde lm centers bw r =
     (if centers = [] then (None, r)
      else let (i, r1) = below std_rand_next r (length centers) in
        case get_opt centers i of None \<Rightarrow> (None, r1)
        | Some c \<Rightarrow> (let (v, r2) = logistic_normal_sample lm c bw r1 in (Some v, r2)))"

definition inverse_simplex :: "libm \<Rightarrow> f64 list \<Rightarrow> f64 list" where
  "inverse_simplex lm best =
     (let inv = map (\<lambda>w. fdiv (Fin 1) (m_powf lm (fadd (fmax w (Fin 0)) EPS) INVERSE_LAMBDA)) best in
      case normalize_simplex_eps inv of Inr w \<Rightarrow> w
      | Inl _ \<Rightarrow> replicate (length best) (fdiv (Fin 1) (f_of_nat (max (length best) 1))))"

fun exact_sum :: "nat \<Rightarrow> f64 list \<Rightarrow> f64 \<Rightarrow> error + f64" where
  "exact_sum i [] acc = Ok acc"
| "exact_sum i (v # vs) acc =
     (if \<not> is_finite v then Err (IllegalArgument (VectorMsg (NonFiniteAt i)))
      else if flt v (Fin 0) then Err (IllegalArgument (VectorMsg (NegativeAt i)))
      else exact_sum (Suc i) vs (fadd acc v))"

definition normalize_simplex_exact :: "f64 list \<Rightarrow> error + f64 list" where
  "normalize_simplex_exact v =
     (if v = [] then Ok []
      else bindR (exact_sum 0 v (Fin 0)) (\<lambda>total.
        if \<not> is_finite total \<or> fle total (Fin 0) then Err (IllegalArgument (VectorMsg ZeroDenominator))
        else Ok (map (\<lambda>x. fdiv x total) v)))"

section \<open>The optimizer\<close>

record tpe_trial =
  tt_iteration :: u64
  tt_vector :: "f64 list"
  tt_reward :: f64
  tt_start_ms :: u64
  tt_end_ms :: u64

record tpe_state =
  ts_trials :: "tpe_trial list"
  ts_last_vec :: "f64 list"
  ts_lock_best :: bool
  ts_best_fixed :: "f64 list"
  ts_restored_once :: bool

definition tpe_state_new :: tpe_state where
  "tpe_state_new = \<lparr>ts_trials = [], ts_last_vec = [], ts_lock_best = False, ts_best_fixed = [],
     ts_restored_once = False\<rparr>"

fun restore_trials :: "nat \<Rightarrow> (f64 list \<times> f64 \<times> u64) list \<Rightarrow> tpe_trial list" where
  "restore_trials i [] = []"
| "restore_trials i ((v, r, ts) # rest) = (case normalize_simplex_eps v of
     Inr w \<Rightarrow> \<lparr>tt_iteration = of_nat i, tt_vector = w, tt_reward = r, tt_start_ms = ts, tt_end_ms = ts\<rparr> #
       restore_trials (Suc i) rest
   | Inl _ \<Rightarrow> restore_trials (Suc i) rest)"

definition restore_once :: "fuzz_state \<Rightarrow> tpe_state \<Rightarrow> tpe_state" where
  "restore_once s t = (if ts_restored_once t then t
     else let t1 = t\<lparr>ts_restored_once := True\<rparr> in
       case m_history s of None \<Rightarrow> t1
       | Some h \<Rightarrow> t1\<lparr>ts_trials := restore_trials 0 (h_trials h),
           ts_last_vec := (case normalize_simplex_eps (h_last_vec h) of Inr w \<Rightarrow> w | Inl _ \<Rightarrow> [])\<rparr>)"

definition set_last_vec :: "f64 list \<Rightarrow> tpe_state \<Rightarrow> tpe_state" where
  "set_last_vec v t = t\<lparr>ts_last_vec := (case normalize_simplex_eps v of Inr w \<Rightarrow> w | Inl _ \<Rightarrow> v)\<rparr>"

definition is_locked :: "tpe_state \<Rightarrow> bool" where
  "is_locked t = ts_lock_best t"

text \<open>\<open>max_by\<close> keeps the later of two equal elements; comparing a NaN reward panics (\<open>None\<close>).\<close>

fun max_trial :: "tpe_trial \<Rightarrow> tpe_trial list \<Rightarrow> tpe_trial option" where
  "max_trial b [] = Some b"
| "max_trial b (t # ts) =
     (if is_nan (tt_reward b) \<or> is_nan (tt_reward t) then None
      else max_trial (if flt (tt_reward t) (tt_reward b) then b else t) ts)"

definition best_by_reward :: "tpe_state \<Rightarrow> error + f64 list option" where
  "best_by_reward t = (case ts_trials t of [] \<Rightarrow> Ok None
     | x # xs \<Rightarrow> (case max_trial x xs of None \<Rightarrow> Err Panic | Some b \<Rightarrow> Ok (Some (tt_vector b))))"

definition lock_best :: "tpe_state \<Rightarrow> error + tpe_state" where
  "lock_best t = bindR (best_by_reward t) (\<lambda>b.
     let best = (case b of Some v \<Rightarrow> Some v
           | None \<Rightarrow> if ts_last_vec t = [] then None else Some (ts_last_vec t));
         t1 = (case best of Some v \<Rightarrow> t\<lparr>ts_best_fixed := v\<rparr> | None \<Rightarrow> t)
     in Ok (t1\<lparr>ts_lock_best := True\<rparr>))"

definition unlock :: "tpe_state \<Rightarrow> tpe_state" where
  "unlock t = t\<lparr>ts_lock_best := False\<rparr>"

definition best_vec :: "tpe_state \<Rightarrow> error + f64 list option" where
  "best_vec t = (if ts_best_fixed t \<noteq> [] then Ok (Some (ts_best_fixed t)) else best_by_reward t)"

definition observe_trial :: "u64 \<Rightarrow> f64 list \<Rightarrow> f64 \<Rightarrow> u64 \<Rightarrow> u64 \<Rightarrow> tpe_state \<Rightarrow> tpe_state" where
  "observe_trial iteration vector reward start_ms end_ms t = (case normalize_simplex_eps vector of
     Inl _ \<Rightarrow> t
   | Inr w \<Rightarrow>
       let push = (let ts = ts_trials t @ [\<lparr>tt_iteration = iteration, tt_vector = w, tt_reward = reward,
                     tt_start_ms = start_ms, tt_end_ms = end_ms\<rparr>]
                   in t\<lparr>ts_trials := (if MAX_TRIALS < length ts then drop (length ts - MAX_TRIALS) ts else ts)\<rparr>)
       in if ts_trials t = [] then push
          else let l = last (ts_trials t) in
            if tt_iteration l = iteration \<or> vecn_eq (tt_vector l) w (f_lit 0.000001)
            then (if flt (tt_reward l) reward
                  then t\<lparr>ts_trials := butlast (ts_trials t) @ [l\<lparr>tt_reward := reward, tt_end_ms := end_ms\<rparr>]\<rparr>
                  else t)
            else push)"

section \<open>The candidate pool and the suggestion\<close>

fun enqueue_samples :: "libm \<Rightarrow> f64 \<Rightarrow> f64 list \<Rightarrow> nat \<Rightarrow> fuzz_state \<times> std_rand \<Rightarrow> fuzz_state \<times> std_rand" where
  "enqueue_samples lm bw center 0 sr = sr"
| "enqueue_samples lm bw center (Suc n) (s, r) =
     (let (cand, r1) = logistic_normal_sample lm center bw r in
      enqueue_samples lm bw center n (push_v_candidate cand s, r1))"

definition enqueue_samples_around ::
  "libm \<Rightarrow> tpe_params \<Rightarrow> fuzz_state \<Rightarrow> f64 list \<Rightarrow> nat \<Rightarrow> std_rand \<Rightarrow> fuzz_state \<times> std_rand" where
  "enqueue_samples_around lm p s center n r = enqueue_samples lm (tp_bw p) center (max n 1) (s, r)"

definition enqueue_exact_then_neighbor_candidates ::
  "libm \<Rightarrow> tpe_params \<Rightarrow> fuzz_state \<Rightarrow> f64 list \<Rightarrow> std_rand \<Rightarrow> error + (fuzz_state \<times> std_rand)" where
  "enqueue_exact_then_neighbor_candidates lm p s exact_center r =
     (let d = get_active_dim s in
      if length exact_center \<noteq> d
      then Err (IllegalArgument (VectorMsg (CenterLength (length exact_center) d)))
      else if d = 0 then Ok (s, r)
      else bindR (normalize_simplex_exact exact_center) (\<lambda>c.
        Ok (enqueue_samples_around lm p (push_v_candidate c s) c (tp_samples p) r)))"

definition enqueue_inverse_candidates ::
  "libm \<Rightarrow> tpe_params \<Rightarrow> fuzz_state \<Rightarrow> tpe_state \<Rightarrow> std_rand \<Rightarrow> error + (fuzz_state \<times> tpe_state \<times> std_rand)" where
  "enqueue_inverse_candidates lm p s t r = bindR (best_vec t) (\<lambda>b. case b of
     None \<Rightarrow> Ok (s, t, r)
   | Some best \<Rightarrow>
       let (s1, r1) = enqueue_samples_around lm p s (inverse_simplex lm best) (tp_samples p) r
       in Ok (s1, unlock t, r1))"

definition trial_seen :: "tpe_state \<Rightarrow> f64 list \<Rightarrow> bool" where
  "trial_seen t front = list_ex (\<lambda>h. length (tt_vector h) = length front \<and>
     vecn_eq (tt_vector h) front (f_lit 0.001)) (ts_trials t)"

definition next_untried_from_pool :: "fuzz_state \<Rightarrow> tpe_state \<Rightarrow> f64 list option \<times> fuzz_state" where
  "next_untried_from_pool s t = (case dropWhile (trial_seen t) (get_v_candidates s) of
     [] \<Rightarrow> (None, replace_v_candidates [] s)
   | raw # pool \<Rightarrow> (case normalize_simplex_eps raw of Inr w \<Rightarrow> Some w | Inl _ \<Rightarrow> None,
       replace_v_candidates pool s))"

definition init_center :: "fuzz_state \<Rightarrow> f64 list" where
  "init_center s =
     (let d = get_active_dim s; uniform = replicate d (fdiv (Fin 1) (f_of_nat d)) in
      case m_vec_mask s of None \<Rightarrow> uniform
      | Some m \<Rightarrow>
          if length (normalized_credit_init_v m) = d
          then (case normalize_simplex_eps (normalized_credit_init_v m) of Inr w \<Rightarrow> w | Inl _ \<Rightarrow> uniform)
          else uniform)"

definition init_candidate ::
  "libm \<Rightarrow> tpe_params \<Rightarrow> fuzz_state \<Rightarrow> tpe_state \<Rightarrow> std_rand \<Rightarrow> f64 list option \<times> fuzz_state \<times> std_rand" where
  "init_candidate lm p s t r = (case next_untried_from_pool s t of
     (Some v, s1) \<Rightarrow> (Some v, s1, r)
   | (None, s1) \<Rightarrow>
       if get_active_dim s1 = 0 then (None, s1, r)
       else let (v, r1) = logistic_normal_sample lm (init_center s1) (tp_bw p) r in (Some v, s1, r1))"

fun insert_trial :: "tpe_trial \<Rightarrow> tpe_trial list \<Rightarrow> tpe_trial list" where
  "insert_trial a [] = [a]"
| "insert_trial a (b # bs) = (if flt (tt_reward a) (tt_reward b) then b # insert_trial a bs else a # b # bs)"

text \<open>The stable sort by descending reward.\<close>

definition sort_trials :: "tpe_trial list \<Rightarrow> tpe_trial list" where
  "sort_trials ts = foldr insert_trial ts []"

definition split_count :: "tpe_params \<Rightarrow> nat \<Rightarrow> nat" where
  "split_count p n = min n (max 1 (f_to_usize (fceil (fmul (f_of_nat n) (tp_gamma p)))))"

definition split_good_bad :: "tpe_params \<Rightarrow> tpe_state \<Rightarrow> (f64 list list \<times> f64 list list) option" where
  "split_good_bad p t =
     (let n = length (ts_trials t) in
      if n < max (tp_trials_threshold p) 2 then None
      else let sorted_trials = sort_trials (ts_trials t);
               threshold = tt_reward (sorted_trials ! (split_count p n - 1));
               good = map tt_vector (filter (\<lambda>x. fle threshold (tt_reward x)) (ts_trials t));
               bad = map tt_vector (filter (\<lambda>x. \<not> fle threshold (tt_reward x)) (ts_trials t))
           in if good = [] \<or> bad = [] then None else Some (good, bad))"

fun best_sample :: "libm \<Rightarrow> f64 \<Rightarrow> f64 list list \<Rightarrow> f64 list list \<Rightarrow> nat \<Rightarrow> f64 list option \<Rightarrow> f64 \<Rightarrow> std_rand \<Rightarrow>
    f64 list option \<times> f64 \<times> std_rand" where
  "best_sample lm bw good bad 0 best score r = (best, score, r)"
| "best_sample lm bw good bad (Suc n) best score r =
     (case sample_one_from_kde lm good bw r of
        (None, r1) \<Rightarrow> best_sample lm bw good bad n best score r1
      | (Some cand, r1) \<Rightarrow>
          let sc = fsub (kde_log_pdf lm cand good bw) (kde_log_pdf lm cand bad bw) in
          if is_finite sc \<and> flt score sc then best_sample lm bw good bad n (Some cand) sc r1
          else best_sample lm bw good bad n best score r1)"

definition suggest_next :: "libm \<Rightarrow> tpe_params \<Rightarrow> fuzz_state \<Rightarrow> tpe_state \<Rightarrow> std_rand \<Rightarrow>
    error + (f64 list option \<times> fuzz_state \<times> tpe_state \<times> std_rand)" where
  "suggest_next lm p s t r =
     (if is_locked t then Ok (None, s, t, r)
      else case next_untried_from_pool s t of
        (Some v, s1) \<Rightarrow> Ok (Some v, s1, t, r)
      | (None, s1) \<Rightarrow> (case split_good_bad p t of
          None \<Rightarrow> (let (v, s2, r1) = init_candidate lm p s1 t r in Ok (v, s2, t, r1))
        | Some (good, bad) \<Rightarrow>
            let (best, score, r1) = best_sample lm (tp_bw p) good bad (max (tp_samples p) 1) None NInf r in
            if is_finite score \<and> flt (Fin 0) score then Ok (best, s1, t, r1)
            else bindR (lock_best t) (\<lambda>t1. Ok (None, s1, t1, r1))))"

definition persist_to_meta :: "u64 \<Rightarrow> tpe_state \<Rightarrow> fuzz_state \<Rightarrow> fuzz_state" where
  "persist_to_meta now t s =
     (let h = (case m_history s of Some h \<Rightarrow> h | None \<Rightarrow> tpe_history_default) in
      s\<lparr>m_history := Some (h\<lparr>h_trials := map (\<lambda>x. (tt_vector x, tt_reward x, tt_end_ms x)) (ts_trials t),
         h_max_trials := MAX_TRIALS, h_last_vec := ts_last_vec t, last_check_ms := Some now\<rparr>)\<rparr>)"

section \<open>Samples\<close>

abbreviation unit_vec :: "f64 list \<Rightarrow> bool" where
  "unit_vec v \<equiv> (\<forall>x \<in> set v. fle (Fin 0) x \<and> fle x (Fin 1))"

lemma uniform_unit: "unit_vec (replicate n (fdiv (Fin 1) (f_of_nat n)))"
  using equal_simplex_unit [of _ n] by (auto simp: equal_simplex_def split: if_splits)

lemma normalize_or_uniform_ok [simp]:
  "length (normalize_or_uniform v) = length v" "unit_vec (normalize_or_uniform v)"
proof -
  show "length (normalize_or_uniform v) = length v"
    by (cases "normalize_simplex_eps v") (simp_all add: normalize_or_uniform_def normalize_entries(1))
  show "unit_vec (normalize_or_uniform v)"
    using uniform_unit [of "length v"] normalize_entries(2) [of v] flt_imp_fle
    by (auto simp: normalize_or_uniform_def split: sum.splits if_splits)
qed

lemma length_alr [simp]: "length (alr lm v) = length v - 1"
  by (simp add: alr_def Let_def)

lemma length_softmax [simp]: "length (softmax lm z) = length z"
  by (simp add: softmax_def Let_def)

lemma length_alr_inverse [simp]: "length (alr_inverse lm u) = Suc (length u)"
  by (simp add: alr_inverse_def)

lemma length_add_noise [simp]: "length (fst (add_noise lm h xs r)) = length xs"
  by (induction xs arbitrary: r) (simp_all add: Let_def case_prod_beta)

text \<open>The documented range of the exponential: never negative, NaN only for a NaN argument.\<close>

definition libm_exp_ok :: "libm \<Rightarrow> bool" where
  "libm_exp_ok lm \<longleftrightarrow> (\<forall>x. is_nan (m_exp lm x) \<or> fnonneg (m_exp lm x) \<and> wf64 (m_exp lm x))"

lemma fadd_finiteD: "is_finite (fadd a b) \<Longrightarrow> is_finite a \<and> is_finite b"
  by (cases a; cases b) (auto simp: fadd_def is_inf_def is_finite_def split: if_splits)

lemma foldl_fadd_finiteD: "is_finite (foldl fadd a xs) \<Longrightarrow> is_finite a \<and> (\<forall>x \<in> set xs. is_finite x)"
proof (induction xs arbitrary: a)
  case (Cons x xs)
  show ?case using Cons.prems Cons.IH [of "fadd a x"] fadd_finiteD [of a x] by simp
qed simp

lemma softmax_unit:
  assumes "libm_exp_ok lm"
  shows "unit_vec (softmax lm z)"
proof (cases "z = []")
  case False
  define exps where "exps = map (\<lambda>v. m_exp lm (fsub v (foldl fmax NInf z))) z"
  show ?thesis
  proof (cases "\<not> is_finite (fsum exps) \<or> fle (fsum exps) (Fin 0)")
    case True
    then have "softmax lm z = replicate (length z) (fdiv (Fin 1) (f_of_nat (length z)))"
      using False by (simp only: softmax_def Let_def exps_def if_True if_False simp_thms)
    then show ?thesis using uniform_unit [of "length z"] by presburger
  next
    case ok: False
    then have fin: "\<forall>x \<in> set exps. is_finite x" using foldl_fadd_finiteD unfolding fsum_def by blast
    then have nn: "\<forall>x \<in> set exps. fnonneg x \<and> wf64 x"
      using assms finite_not_nan by (auto simp: libm_exp_ok_def exps_def)
    have pos: "flt (Fin 0) (fsum exps)" using ok not_flt_fle [of "Fin 0" "fsum exps"] finite_not_nan by auto
    have "fnonneg NZero" by (simp add: fle_def)
    then have "fle x (fsum exps)" if "x \<in> set exps" for x
      using foldl_fadd_ge_elem [of NZero exps x] nn that by (simp add: fsum_def)
    then have "unit_vec (map (\<lambda>v. fdiv v (fsum exps)) exps)"
      using nn fin pos fdiv_nonneg fdiv_le_1 by auto
    moreover have "softmax lm z = map (\<lambda>v. fdiv v (fsum exps)) exps"
      using ok False by (simp add: softmax_def Let_def exps_def)
    ultimately show ?thesis by simp
  qed
qed (simp add: softmax_def)

lemma sample_length: "length (fst (logistic_normal_sample lm c bw r)) = max 1 (length c)"
  using length_add_noise [of lm "fmax bw EPS" "alr lm (normalize_or_uniform c)" r]
  by (auto simp: logistic_normal_sample_def Let_def case_prod_beta)

lemma sample_unit: "libm_exp_ok lm \<Longrightarrow> unit_vec (fst (logistic_normal_sample lm c bw r))"
  using softmax_unit [of lm]
  by (auto simp: logistic_normal_sample_def Let_def case_prod_beta alr_inverse_def)

lemma inverse_simplex_length [simp]: "length (inverse_simplex lm v) = length v"
proof -
  have "normalize_simplex_eps (map f v) = Ok w \<Longrightarrow> length w = length v" for f :: "f64 \<Rightarrow> f64" and w
    using normalize_entries(1) by fastforce
  then show ?thesis by (auto simp: inverse_simplex_def Let_def split: sum.splits)
qed

lemma normalize_exact_length: "normalize_simplex_exact v = Ok w \<Longrightarrow> length w = length v"
  by (auto simp: normalize_simplex_exact_def bindR_Ok_iff split: if_splits)

section \<open>Trials\<close>

lemma observe_trial_cases:
  obtains "observe_trial it v r a b t = t"
  | l where "ts_trials t \<noteq> []" "l = last (ts_trials t)" "flt (tt_reward l) r"
      "ts_trials (observe_trial it v r a b t) = butlast (ts_trials t) @ [l\<lparr>tt_reward := r, tt_end_ms := b\<rparr>]"
  | w where "normalize_simplex_eps v = Ok w"
      "ts_trials (observe_trial it v r a b t) = drop (Suc (length (ts_trials t)) - MAX_TRIALS) (ts_trials t @
         [\<lparr>tt_iteration = it, tt_vector = w, tt_reward = r, tt_start_ms = a, tt_end_ms = b\<rparr>])"
proof (cases "normalize_simplex_eps v")
  case (Inl e)
  then show ?thesis using that(1) by (simp add: observe_trial_def)
next
  case (Inr w)
  let ?l = "last (ts_trials t)"
  let ?merge = "ts_trials t \<noteq> [] \<and> (tt_iteration ?l = it \<or> vecn_eq (tt_vector ?l) w (f_lit 0.000001))"
  show ?thesis
  proof (cases "?merge \<and> flt (tt_reward ?l) r")
    case True
    then show ?thesis using that(2) [OF _ refl] Inr by (simp add: observe_trial_def Let_def)
  next
    case False
    then show ?thesis using that(1) that(3) [OF Inr] Inr
      by (cases ?merge) (auto simp: observe_trial_def Let_def)
  qed
qed

lemma max_trial_total:
  "\<not> is_nan (tt_reward b) \<Longrightarrow> \<forall>t \<in> set ts. \<not> is_nan (tt_reward t) \<Longrightarrow>
   \<exists>m. max_trial b ts = Some m \<and> m \<in> insert b (set ts) \<and> (\<forall>t \<in> insert b (set ts). fle (tt_reward t) (tt_reward m))"
proof (induction ts arbitrary: b)
  case (Cons t ts)
  let ?b = "if flt (tt_reward t) (tt_reward b) then b else t"
  have nb: "\<not> is_nan (tt_reward ?b)" "\<not> is_nan (tt_reward b)" "\<not> is_nan (tt_reward t)" using Cons.prems by auto
  then obtain m where m: "max_trial ?b ts = Some m" "m \<in> insert ?b (set ts)"
      "\<forall>t \<in> insert ?b (set ts). fle (tt_reward t) (tt_reward m)"
    using Cons.IH [of ?b] Cons.prems by auto
  have "fle (tt_reward b) (tt_reward ?b)" "fle (tt_reward t) (tt_reward ?b)"
    using nb by (auto simp: fle_refl flt_imp_fle not_flt_fle)
  then have "fle (tt_reward b) (tt_reward m)" "fle (tt_reward t) (tt_reward m)" using m(3) fle_trans by blast+
  then show ?case using m nb by (auto split: if_splits)
qed (simp add: fle_refl)

abbreviation rewards_ok :: "tpe_state \<Rightarrow> bool" where
  "rewards_ok t \<equiv> (\<forall>x \<in> set (ts_trials t). \<not> is_nan (tt_reward x))"

lemma best_by_reward_ok:
  assumes "rewards_ok t"
  shows "ts_trials t = [] \<and> best_by_reward t = Ok None \<or>
    (\<exists>m \<in> set (ts_trials t). best_by_reward t = Ok (Some (tt_vector m)) \<and>
       (\<forall>x \<in> set (ts_trials t). fle (tt_reward x) (tt_reward m)))"
proof (cases "ts_trials t")
  case (Cons b bs)
  then obtain m where "max_trial b bs = Some m" "m \<in> set (ts_trials t)"
      "\<forall>x \<in> set (ts_trials t). fle (tt_reward x) (tt_reward m)"
    using max_trial_total [of b bs] assms by auto
  then show ?thesis using Cons by (auto simp: best_by_reward_def)
qed (simp add: best_by_reward_def)

lemma lock_best_ok:
  assumes "rewards_ok t" "ts_trials t \<noteq> []"
  shows "\<exists>m \<in> set (ts_trials t). lock_best t = Ok (t\<lparr>ts_best_fixed := tt_vector m, ts_lock_best := True\<rparr>) \<and>
    (\<forall>x \<in> set (ts_trials t). fle (tt_reward x) (tt_reward m))"
  using best_by_reward_ok [OF assms(1)] assms(2) by (auto simp: lock_best_def Let_def)

lemma insert_trial_mset: "mset (insert_trial a bs) = add_mset a (mset bs)"
  by (induction bs) auto

lemma sort_trials_mset: "mset (sort_trials ts) = mset ts"
  by (induction ts) (simp_all add: sort_trials_def insert_trial_mset)

abbreviation reward_ge :: "tpe_trial \<Rightarrow> tpe_trial \<Rightarrow> bool" where
  "reward_ge a b \<equiv> fle (tt_reward b) (tt_reward a)"

lemma insert_trial_sorted:
  assumes "\<not> is_nan (tt_reward a)" "\<forall>b \<in> set bs. \<not> is_nan (tt_reward b)" "sorted_wrt reward_ge bs"
  shows "sorted_wrt reward_ge (insert_trial a bs)"
  using assms
proof (induction bs)
  case (Cons b bs)
  have set: "set (insert_trial a bs) = insert a (set bs)"
    by (metis insert_trial_mset set_mset_add_mset_insert set_mset_mset)
  show ?case
  proof (cases "flt (tt_reward a) (tt_reward b)")
    case True
    then show ?thesis using Cons flt_imp_fle by (auto simp: set)
  next
    case False
    then have ab: "fle (tt_reward b) (tt_reward a)" using Cons.prems by (simp add: not_flt_fle)
    then show ?thesis using False Cons.prems fle_trans [OF _ ab] by auto
  qed
qed simp

lemma sort_trials_sorted: "\<forall>b \<in> set ts. \<not> is_nan (tt_reward b) \<Longrightarrow> sorted_wrt reward_ge (sort_trials ts)"
proof (induction ts)
  case (Cons a ts)
  have "set (sort_trials ts) = set ts" using sort_trials_mset [of ts] by (rule mset_eq_setD)
  then show ?case using Cons insert_trial_sorted [of a "sort_trials ts"] by (simp add: sort_trials_def)
qed (simp add: sort_trials_def)

text \<open>At least the first \<open>k\<close> trials of the sorted history reach the reward of the \<open>k\<close>-th.\<close>

lemma sorted_threshold_count:
  assumes "sorted_wrt reward_ge ts" "\<forall>x \<in> set ts. \<not> is_nan (tt_reward x)" "0 < k" "k \<le> length ts"
  shows "k \<le> length (filter (\<lambda>x. fle (tt_reward (ts ! (k - 1))) (tt_reward x)) ts)"
proof -
  let ?P = "\<lambda>x. fle (tt_reward (ts ! (k - 1))) (tt_reward x)"
  have "?P (ts ! i)" if "i < k" for i
  proof (cases "i = k - 1")
    case True
    then show ?thesis using assms(2-4) that fle_refl by auto
  next
    case False
    then show ?thesis using sorted_wrt_nth_less [OF assms(1), of i "k - 1"] that assms(4) by simp
  qed
  then have "\<forall>x \<in> set (take k ts). ?P x" using assms(4) by (auto simp: in_set_conv_nth)
  then have "length (filter ?P (take k ts)) = k" using assms(4) by (simp add: filter_id_conv)
  moreover have "length (filter ?P ts) = length (filter ?P (take k ts)) + length (filter ?P (drop k ts))"
    by (metis append_take_drop_id filter_append length_append)
  ultimately show ?thesis by linarith
qed

lemma length_filter_mset: "mset xs = mset ys \<Longrightarrow> length (filter P xs) = length (filter P ys)"
  by (metis mset_filter size_mset)

lemma split_good_bad_ok:
  assumes "split_good_bad p t = Some (good, bad)" "rewards_ok t"
  shows "\<exists>thr. \<not> is_nan thr \<and> good = map tt_vector (filter (\<lambda>x. fle thr (tt_reward x)) (ts_trials t)) \<and>
    bad = map tt_vector (filter (\<lambda>x. flt (tt_reward x) thr) (ts_trials t)) \<and> good \<noteq> [] \<and> bad \<noteq> [] \<and>
    length good + length bad = length (ts_trials t) \<and> split_count p (length (ts_trials t)) \<le> length good \<and>
    max (tp_trials_threshold p) 2 \<le> length (ts_trials t)"
proof -
  let ?ts = "ts_trials t" and ?n = "length (ts_trials t)" and ?k = "split_count p (length (ts_trials t))"
  let ?srt = "sort_trials ?ts"
  define thr where "thr = tt_reward (?srt ! (?k - 1))"
  have n: "max (tp_trials_threshold p) 2 \<le> ?n" and
    g: "good = map tt_vector (filter (\<lambda>x. fle thr (tt_reward x)) ?ts)" "good \<noteq> []" and
    b: "bad = map tt_vector (filter (\<lambda>x. \<not> fle thr (tt_reward x)) ?ts)" "bad \<noteq> []"
    using assms(1) by (auto simp: split_good_bad_def Let_def thr_def split: if_splits)
  have k: "0 < ?k" "?k \<le> length ?srt"
    using n sort_trials_mset [of ?ts] by (auto simp: split_count_def dest: mset_eq_length)
  have srt: "\<forall>x \<in> set ?srt. \<not> is_nan (tt_reward x)" "sorted_wrt reward_ge ?srt"
    using assms(2) sort_trials_sorted mset_eq_setD [OF sort_trials_mset [of ?ts]] by auto
  then have thr: "\<not> is_nan thr" using k by (auto simp: thr_def)
  then have "filter (\<lambda>x. \<not> fle thr (tt_reward x)) ?ts = filter (\<lambda>x. flt (tt_reward x) thr) ?ts"
    using assms(2) by (intro filter_cong refl) (metis not_flt_fle)
  then have b': "bad = map tt_vector (filter (\<lambda>x. flt (tt_reward x) thr) ?ts)" using b(1) by simp
  have "?k \<le> length good"
    using sorted_threshold_count [OF srt(2,1) k] length_filter_mset [OF sort_trials_mset [of ?ts]]
    by (simp add: g(1) thr_def)
  moreover have "length good + length bad = ?n"
    using sum_length_filter_compl [of "\<lambda>x. fle thr (tt_reward x)" ?ts] by (simp add: g(1) b(1))
  ultimately show ?thesis using n g b(2) b' thr by (intro exI [of _ thr]) simp
qed

lemma candidates_frame [simp]:
  "get_active_dim (replace_v_candidates vs s) = get_active_dim s"
  "get_v_candidates (replace_v_candidates vs s) = vs"
  "m_vec_mask (replace_v_candidates vs s) = m_vec_mask s"
  by (simp_all add: getter_defs setter_defs)

lemma next_untried_frame:
  "next_untried_from_pool s t = (v, s1) \<Longrightarrow> \<exists>pool. s1 = replace_v_candidates pool s \<and> set pool \<subseteq> set (get_v_candidates s)"
  using set_dropWhileD [of _ "trial_seen t" "get_v_candidates s"]
  by (auto simp: next_untried_from_pool_def split: list.splits)

lemma next_untried_length:
  assumes "next_untried_from_pool s t = (Some v, s1)" "\<forall>c \<in> set (get_v_candidates s). length c = d"
  shows "length v = d"
proof -
  obtain raw pool where p: "dropWhile (trial_seen t) (get_v_candidates s) = raw # pool" "normalize_simplex_eps raw = Ok v"
    using assms(1) by (auto simp: next_untried_from_pool_def split: list.splits sum.splits)
  then have "raw \<in> set (get_v_candidates s)" using set_dropWhileD by (metis list.set_intros(1))
  then show ?thesis using assms(2) normalize_entries(1) [OF p(2)] by simp
qed

lemma init_center_length: "length (init_center s) = get_active_dim s"
  by (auto simp: init_center_def Let_def normalize_entries(1) split: option.splits sum.splits)

lemma sample_kde_length:
  assumes "centers \<noteq> []" "length centers < 2 ^ 64" "\<forall>c \<in> set centers. length c = d" "0 < d"
  shows "\<exists>v r1. sample_one_from_kde lm centers bw r = (Some v, r1) \<and> length v = d"
proof -
  obtain i r1 where i: "below std_rand_next r (length centers) = (i, r1)" by fastforce
  then have "i < length centers" using fast_bound_less [of "length centers"] assms(1,2) by (auto simp: below_pair)
  moreover obtain v r2 where v: "logistic_normal_sample lm (centers ! i) bw r1 = (v, r2)" by fastforce
  ultimately have "sample_one_from_kde lm centers bw r = (Some v, r2)" "length v = d"
    using i assms sample_length [of lm "centers ! i" bw r1] by (auto simp: sample_one_from_kde_def get_opt_def)
  then show ?thesis by blast
qed

lemma best_sample_ok:
  assumes "good \<noteq> []" "length good < 2 ^ 64" "\<forall>c \<in> set good. length c = d" "0 < d"
    "best_sample lm bw good bad n best score r = (best', score', r')"
    "case best of None \<Rightarrow> score = NInf | Some v \<Rightarrow> length v = d"
  shows "case best' of None \<Rightarrow> score' = NInf | Some v \<Rightarrow> length v = d"
  using assms(5,6)
proof (induction n arbitrary: best score r)
  case (Suc n)
  obtain v r1 where v: "sample_one_from_kde lm good bw r = (Some v, r1)" "length v = d"
    using sample_kde_length [OF assms(1-4)] by blast
  let ?sc = "fsub (kde_log_pdf lm v good bw) (kde_log_pdf lm v bad bw)"
  show ?case
  proof (cases "is_finite ?sc \<and> flt score ?sc")
    case True
    then show ?thesis using Suc.IH [of "Some v" ?sc r1] Suc.prems(1) v by (simp add: Let_def)
  next
    case False
    then show ?thesis using Suc.IH [of best score r1] Suc.prems v by (auto simp: Let_def)
  qed
qed simp

section \<open>Properties\<close>

text \<open>A sample around a centre, drawn with any generator state, has the dimension of the centre (one for an
  empty centre) and all its entries lie in the unit interval, whatever the centre, the bandwidth and
  the mathematics library, as long as its exponential is never negative.\<close>

theorem sample_on_unit_cube:
  assumes "libm_exp_ok lm"
  shows "length (fst (logistic_normal_sample lm c bw r)) = max 1 (length c) \<and>
    (\<forall>x \<in> set (fst (logistic_normal_sample lm c bw r)). is_finite x \<and> fle (Fin 0) x \<and> fle x (Fin 1))"
  using sample_length [of lm c bw r] sample_unit [OF assms, of c bw r] fle_between_finite [of "Fin 0" _ "Fin 1"] by simp

lemma example_libm_exp_ok: "libm_exp_ok example_libm"
  by (simp add: libm_exp_ok_def example_libm_def)

theorem sample_on_unit_cube_witness:
  "length (fst (logistic_normal_sample example_libm [Fin 1, NaN, NInf] PInf (std_rand_with_seed 7))) = 3"
  using sample_on_unit_cube [OF example_libm_exp_ok, of "[Fin 1, NaN, NInf]" PInf "std_rand_with_seed 7"] by simp

text \<open>Observing trials keeps the history bounded: it never exceeds 1024 entries, an observation either
  changes nothing, raises the reward of the last trial, or appends the normalised vector, dropping
  the oldest trial only when the history is full.\<close>

theorem observe_trial_bounded:
  assumes "length (ts_trials t) \<le> MAX_TRIALS"
  shows "length (ts_trials (observe_trial it v r a b t)) \<le> MAX_TRIALS \<and>
    (ts_trials (observe_trial it v r a b t) = ts_trials t \<or>
     (\<exists>xs l. ts_trials t = xs @ [l] \<and> flt (tt_reward l) r \<and>
        ts_trials (observe_trial it v r a b t) = xs @ [l\<lparr>tt_reward := r, tt_end_ms := b\<rparr>]) \<or>
     (\<exists>w. normalize_simplex_eps v = Ok w \<and>
        ts_trials (observe_trial it v r a b t) =
          (if length (ts_trials t) = MAX_TRIALS then tl (ts_trials t) else ts_trials t) @
          [\<lparr>tt_iteration = it, tt_vector = w, tt_reward = r, tt_start_ms = a, tt_end_ms = b\<rparr>]))"
proof (cases rule: observe_trial_cases [of it v r a b t])
  case (2 l)
  then have "ts_trials t = butlast (ts_trials t) @ [l]" by simp
  then show ?thesis using 2 assms by (metis (no_types, lifting) length_append_singleton)
next
  case (3 w)
  let ?x = "\<lparr>tt_iteration = it, tt_vector = w, tt_reward = r, tt_start_ms = a, tt_end_ms = b\<rparr>"
  have "drop (Suc (length (ts_trials t)) - MAX_TRIALS) (ts_trials t @ [?x]) =
      (if length (ts_trials t) = MAX_TRIALS then tl (ts_trials t) else ts_trials t) @ [?x]"
    using assms by (auto simp: drop_Suc tl_append MAX_TRIALS_def split: list.splits)
  moreover have "length \<dots> \<le> MAX_TRIALS" using assms by (auto simp: MAX_TRIALS_def)
  ultimately show ?thesis using 3 by auto
qed (use assms in simp)

theorem observe_trial_bounded_witness:
  "length (ts_trials (observe_trial 1 [Fin 1, Fin 0] (Fin 3) 0 9 tpe_state_new)) \<le> MAX_TRIALS"
  using observe_trial_bounded [of tpe_state_new] by (simp add: tpe_state_new_def)

text \<open>The split of the history is a partition by a reward threshold that is itself the reward of a trial:
  good trials reach it, bad trials stay below it, both sides are inhabited, together they are all
  trials, and at least the requested share of them is good.\<close>

theorem split_good_bad_partition:
  assumes "split_good_bad p t = Some (good, bad)" "\<forall>x \<in> set (ts_trials t). \<not> is_nan (tt_reward x)"
  shows "\<exists>thr. good = map tt_vector (filter (\<lambda>x. fle thr (tt_reward x)) (ts_trials t)) \<and>
    bad = map tt_vector (filter (\<lambda>x. flt (tt_reward x) thr) (ts_trials t)) \<and> good \<noteq> [] \<and> bad \<noteq> [] \<and>
    length good + length bad = length (ts_trials t) \<and> split_count p (length (ts_trials t)) \<le> length good \<and>
    max (tp_trials_threshold p) 2 \<le> length (ts_trials t)"
  using split_good_bad_ok [OF assms] by blast

definition example_trials :: tpe_state where
  "example_trials = tpe_state_new\<lparr>ts_trials := map (\<lambda>r. \<lparr>tt_iteration = 0, tt_vector = [r], tt_reward = r,
     tt_start_ms = 0, tt_end_ms = 0\<rparr>) [Fin 2, Fin 1]\<rparr>"

theorem split_good_bad_partition_witness:
  "\<exists>good bad. split_good_bad (tpe_params_default\<lparr>tp_trials_threshold := 2, tp_gamma := Fin 0\<rparr>) example_trials = Some (good, bad) \<and>
    length good + length bad = 2"
proof -
  let ?p = "tpe_params_default\<lparr>tp_trials_threshold := 2, tp_gamma := Fin 0\<rparr>"
  have "is_finite (f_of_nat 2)" by (rule f_of_nat_finite) simp
  then have "fmul (f_of_nat 2) (Fin 0) \<in> {Fin 0, NZero}"
    by (auto simp: fmul_def Let_def mk64_0 is_finite_def is_inf_def)
  then have "split_count ?p 2 = 1" by (auto simp: split_count_def fceil_def f_to_usize_def)
  then have k: "split_count ?p (length (ts_trials example_trials)) = 1"
    by (simp add: example_trials_def numeral_2_eq_2)
  obtain good bad where e: "split_good_bad ?p example_trials = Some (good, bad)"
    unfolding split_good_bad_def Let_def k by (auto simp: example_trials_def sort_trials_def flt_def fle_def)
  have "\<forall>x \<in> set (ts_trials example_trials). \<not> is_nan (tt_reward x)" by (simp add: example_trials_def)
  then have "length good + length bad = length (ts_trials example_trials)"
    using split_good_bad_partition [OF e] by blast
  then show ?thesis using e by (simp add: example_trials_def)
qed

text \<open>The pool search returns the first candidate that no trial resembles, in normalised form; it drops
  exactly the resembling candidates before it, so a pool is used up after as many calls as it has
  candidates.\<close>

theorem next_untried_is_first:
  assumes "next_untried_from_pool s t = (v, s')"
  shows "\<exists>seen rest. get_v_candidates s = seen @ rest \<and> (\<forall>c \<in> set seen. trial_seen t c) \<and>
    (case rest of [] \<Rightarrow> v = None \<and> get_v_candidates s' = []
     | raw # pool \<Rightarrow> \<not> trial_seen t raw \<and> get_v_candidates s' = pool \<and>
         (\<forall>w. v = Some w \<longleftrightarrow> normalize_simplex_eps raw = Ok w)) \<and>
    (get_v_candidates s \<noteq> [] \<longrightarrow> length (get_v_candidates s') < length (get_v_candidates s))"
proof -
  let ?P = "trial_seen t" and ?c = "get_v_candidates s"
  have split: "?c = takeWhile ?P ?c @ dropWhile ?P ?c" by simp
  have seen: "\<forall>c \<in> set (takeWhile ?P ?c). ?P c" by (auto dest: set_takeWhileD)
  have len: "length ?c = length (takeWhile ?P ?c) + length (dropWhile ?P ?c)"
    by (metis length_append takeWhile_dropWhile_id)
  show ?thesis
  proof (cases "dropWhile ?P ?c")
    case Nil
    have "v = None" "get_v_candidates s' = []" using assms unfolding next_untried_from_pool_def Nil by auto
    then show ?thesis using split [unfolded Nil] seen by (intro exI [of _ "takeWhile ?P ?c"] exI [of _ "[]"]) auto
  next
    case (Cons raw pool)
    then have "\<not> ?P raw" by (metis hd_dropWhile list.distinct(1) list.sel(1))
    moreover have "get_v_candidates s' = pool" "\<forall>w. v = Some w \<longleftrightarrow> normalize_simplex_eps raw = Ok w"
      using assms unfolding next_untried_from_pool_def Cons by (auto split: sum.splits)
    ultimately show ?thesis using split seen len Cons
      by (intro exI [of _ "takeWhile ?P ?c"] exI [of _ "raw # pool"]) auto
  qed
qed

theorem next_untried_is_first_witness:
  "length (get_v_candidates (snd (next_untried_from_pool (replace_v_candidates [[Fin 1]] (state_new (std_rand_with_seed 0))) tpe_state_new))) < 1"
proof -
  let ?s = "replace_v_candidates [[Fin 1]] (state_new (std_rand_with_seed 0))"
  obtain v s' where e: "next_untried_from_pool ?s tpe_state_new = (v, s')" by fastforce
  then show ?thesis using next_untried_is_first [OF e] by auto
qed

text \<open>C4. A suggestion never fails when the rewards are numbers. With candidates, trials and initial vector of
  the active dimension it has that dimension; no vector is suggested exactly when the optimizer is
  locked afterwards; a locked optimizer changes nothing; and locking fixes the vector of a trial of
  maximal reward.\<close>

theorem suggest_next_correct:
  assumes "\<forall>x \<in> set (ts_trials t). \<not> is_nan (tt_reward x) \<and> length (tt_vector x) = get_active_dim s"
    "\<forall>c \<in> set (get_v_candidates s). length c = get_active_dim s" "0 < get_active_dim s"
    "length (ts_trials t) < 2 ^ 64"
  shows "\<exists>v s' t' r'. suggest_next lm p s t r = Ok (v, s', t', r') \<and>
    (\<forall>w. v = Some w \<longrightarrow> length w = get_active_dim s) \<and> (v = None \<longleftrightarrow> is_locked t') \<and>
    get_active_dim s' = get_active_dim s \<and> set (get_v_candidates s') \<subseteq> set (get_v_candidates s) \<and>
    (is_locked t \<longrightarrow> s' = s \<and> t' = t \<and> r' = r) \<and> (\<not> is_locked t' \<longrightarrow> t' = t) \<and>
    (\<not> is_locked t \<and> is_locked t' \<longrightarrow> (\<exists>m \<in> set (ts_trials t). ts_best_fixed t' = tt_vector m \<and>
       (\<forall>x \<in> set (ts_trials t). fle (tt_reward x) (tt_reward m))))"
proof (cases "is_locked t")
  case True
  then show ?thesis by (simp add: suggest_next_def)
next
  case nl: False
  let ?d = "get_active_dim s"
  obtain v s1 where n: "next_untried_from_pool s t = (v, s1)" by fastforce
  obtain pool where s1: "s1 = replace_v_candidates pool s" "set pool \<subseteq> set (get_v_candidates s)"
    using next_untried_frame [OF n] by blast
  show ?thesis
  proof (cases v)
    case (Some w)
    then show ?thesis using n nl s1 next_untried_length [of s t w s1] assms(2) by (simp add: suggest_next_def)
  next
    case None
    show ?thesis
    proof (cases "split_good_bad p t")
      case no_split: None
      obtain v2 s2 where n2: "next_untried_from_pool s1 t = (v2, s2)" by fastforce
      obtain pool2 where s2: "s2 = replace_v_candidates pool2 s1" "set pool2 \<subseteq> set pool"
        using next_untried_frame [OF n2] s1 by auto
      obtain w r1 where w: "logistic_normal_sample lm (init_center s2) (tp_bw p) r = (w, r1)" by fastforce
      have "length w = ?d" using sample_length [of lm "init_center s2" "tp_bw p" r] w assms(3)
        by (simp add: init_center_length s2 s1)
      moreover have "\<forall>u. v2 = Some u \<longrightarrow> length u = ?d"
        using next_untried_length [of s1 t _ s2] n2 s1 assms(2) by auto
      ultimately show ?thesis using nl n None no_split n2 s2 s1 w assms(3)
        by (cases v2) (auto simp: suggest_next_def init_candidate_def)
    next
      case (Some gb)
      obtain good bad where gb: "split_good_bad p t = Some (good, bad)" using Some by (cases gb) auto
      obtain thr where g: "good = map tt_vector (filter (\<lambda>x. fle thr (tt_reward x)) (ts_trials t))" "good \<noteq> []"
        using split_good_bad_ok [OF gb] assms(1) by blast
      have "length good \<le> length (ts_trials t)" unfolding g(1) by simp
      then have gd: "length good < 2 ^ 64" "\<forall>c \<in> set good. length c = ?d" "ts_trials t \<noteq> []"
        using assms(4) by (linarith, use g assms(1) in auto)
      obtain best score r1 where b: "best_sample lm (tp_bw p) good bad (max (tp_samples p) 1) None NInf r = (best, score, r1)"
        by (metis prod_cases3)
      have bo: "case best of None \<Rightarrow> score = NInf | Some v \<Rightarrow> length v = ?d"
        using best_sample_ok [OF g(2) gd(1,2) assms(3) b] by simp
      obtain m where m: "m \<in> set (ts_trials t)" "lock_best t = Ok (t\<lparr>ts_best_fixed := tt_vector m, ts_lock_best := True\<rparr>)"
          "\<forall>x \<in> set (ts_trials t). fle (tt_reward x) (tt_reward m)"
        using lock_best_ok [of t] assms(1) gd(3) by blast
      show ?thesis
      proof (cases "is_finite score \<and> flt (Fin 0) score")
        case True
        then obtain w where "best = Some w" "length w = ?d" using bo by (cases best) (auto simp: is_finite_def)
        then show ?thesis using True nl n None gb b s1 by (simp add: suggest_next_def)
      next
        case False
        then show ?thesis using nl n None gb b s1 m by (auto simp: suggest_next_def is_locked_def)
      qed
    qed
  qed
qed

theorem suggest_next_correct_witness:
  "\<exists>v s' t' r'. suggest_next example_libm tpe_params_default
      (set_schema_info 4 [] [] [\<lparr>fs_id = [], fs_name = [], fs_group = None, fs_aliases = None\<rparr>] (state_new (std_rand_with_seed 0)))
      tpe_state_new (std_rand_with_seed 1) = Ok (v, s', t', r') \<and> (\<forall>w. v = Some w \<longrightarrow> length w = 1)"
proof -
  let ?s = "set_schema_info 4 [] [] [\<lparr>fs_id = [], fs_name = [], fs_group = None, fs_aliases = None\<rparr>] (state_new (std_rand_with_seed 0))"
  have "get_active_dim ?s = 1" "get_v_candidates ?s = []"
    by (simp_all add: getter_defs setter_defs state_new_def globals_def upd_globals_def feature_globals_default_def)
  then show ?thesis using suggest_next_correct [of tpe_state_new ?s example_libm tpe_params_default "std_rand_with_seed 1"]
    by (auto simp: tpe_state_new_def)
qed

text \<open>Persisting the history and restoring it in a fresh optimizer gives back every trial that has at least
  two weights, in order, with its reward and end time; its vector is renormalised, which keeps the
  dimension. A second restore changes nothing.\<close>

theorem persist_restore_roundtrip:
  assumes "\<forall>x \<in> set (ts_trials t). 2 \<le> length (tt_vector x) \<and> length (tt_vector x) < 2 ^ 52 \<and>
      (\<forall>w \<in> set (tt_vector x). fle (Fin 0) w \<and> fle w (Fin 1))"
    "t' = restore_once (persist_to_meta now t s) tpe_state_new"
  shows "map tt_reward (ts_trials t') = map tt_reward (ts_trials t) \<and>
    map tt_end_ms (ts_trials t') = map tt_end_ms (ts_trials t) \<and>
    map (\<lambda>x. Ok (tt_vector x)) (ts_trials t') = map (\<lambda>x. normalize_simplex_eps (tt_vector x)) (ts_trials t) \<and>
    map (\<lambda>x. length (tt_vector x)) (ts_trials t') = map (\<lambda>x. length (tt_vector x)) (ts_trials t) \<and>
    restore_once s' t' = t'"
proof -
  have t': "ts_trials t' = restore_trials 0 (map (\<lambda>x. (tt_vector x, tt_reward x, tt_end_ms x)) (ts_trials t))"
    "ts_restored_once t'"
    by (simp_all add: assms(2) restore_once_def persist_to_meta_def tpe_state_new_def Let_def)
  have "map tt_reward ts' = map tt_reward ts \<and> map tt_end_ms ts' = map tt_end_ms ts \<and>
      map (\<lambda>x. Ok (tt_vector x)) ts' = map (\<lambda>x. normalize_simplex_eps (tt_vector x)) ts \<and>
      map (\<lambda>x. length (tt_vector x)) ts' = map (\<lambda>x. length (tt_vector x)) ts"
    if "ts' = restore_trials i (map (\<lambda>x. (tt_vector x, tt_reward x, tt_end_ms x)) ts)"
      "\<forall>x \<in> set ts. \<exists>w. normalize_simplex_eps (tt_vector x) = Ok w" for i ts ts'
    using that by (induction ts arbitrary: i ts') (auto simp: normalize_entries(1))
  moreover have "\<forall>x \<in> set (ts_trials t). \<exists>w. normalize_simplex_eps (tt_vector x) = Ok w"
    using assms(1) normalize_total by blast
  ultimately show ?thesis using t' by (auto simp: restore_once_def)
qed

theorem persist_restore_roundtrip_witness:
  "map tt_reward (ts_trials (restore_once (persist_to_meta 9 (tpe_state_new\<lparr>ts_trials := [\<lparr>tt_iteration = 3,
      tt_vector = [Fin 1, Fin 0], tt_reward = Fin 5, tt_start_ms = 1, tt_end_ms = 2\<rparr>]\<rparr>) (state_new (std_rand_with_seed 0))) tpe_state_new)) = [Fin 5]"
proof -
  let ?t = "tpe_state_new\<lparr>ts_trials := [\<lparr>tt_iteration = 3, tt_vector = [Fin 1, Fin 0], tt_reward = Fin 5,
    tt_start_ms = 1, tt_end_ms = 2\<rparr>]\<rparr>"
  have "\<forall>x \<in> set (ts_trials ?t). 2 \<le> length (tt_vector x) \<and> length (tt_vector x) < 2 ^ 52 \<and>
      (\<forall>w \<in> set (tt_vector x). fle (Fin 0) w \<and> fle w (Fin 1))" by simp
  from persist_restore_roundtrip [OF this refl] show ?thesis by simp
qed

end
