(* ===== verification/Tpe_Stage.thy ===== *)
theory Tpe_Stage
  imports Tpe Runtime_Data
begin

text \<open>
  The stage that drives the optimization (\<open>feature_sched/tpe_stage.rs\<close>): the phase machine Explore,
  PendingRecompute, ActiveWindow, LockedBest, the commit of the mask and of the first candidates, and
  the worker thread. A call of \<open>perform\<close> is a function of the stage, the fuzzer state, the file system
  and an environment: the clock (its \<open>i\<close>-th reading in the call), the outcome of polling the channel, the
  iteration order of a hash set, the event manager and which file operations succeed. The running worker is
  represented by the snapshot it owns; its result is \<open>compute_weights\<close> of it.
\<close>

section \<open>The stage\<close>

datatype recv_outcome = Received | EmptyChannel | Disconnected

record tpe_env =
  e_libm :: libm
  e_clock :: "nat \<Rightarrow> u64"
  e_recv :: recv_outcome
  e_ord :: "nat list \<Rightarrow> nat list"
  e_fire :: "fuzz_state \<Rightarrow> error + unit"
  e_fs_ok :: "fs_op \<Rightarrow> bool"

record tpe_stage =
  sg_opt :: tpe_state
  sg_rng :: std_rand
  sg_worker :: bool
  sg_rx :: "corpus_weight_snapshot option"
  sg_pending_iteration :: "u64 option"
  sg_last_explore_report_ms :: u64

definition tpe_stage_new :: "std_rand \<Rightarrow> tpe_stage" where
  "tpe_stage_new r = \<lparr>sg_opt = tpe_state_new, sg_rng = r, sg_worker = False, sg_rx = None,
     sg_pending_iteration = None, sg_last_explore_report_ms = 0\<rparr>"

record world =
  w_stage :: tpe_stage
  w_state :: fuzz_state
  w_fs :: "runtime_data_file filesystem"

definition current_edges :: "fuzz_state \<Rightarrow> u64" where
  "current_edges s = (case m_edges s of Some m \<Rightarrow> of_nat (num_covered_map_indexes m) | None \<Rightarrow> 0)"

definition explore_done :: "u64 \<Rightarrow> fuzz_state \<Rightarrow> bool" where
  "explore_done now s = (get_explore_time s * 1000 \<le> saturating_sub now (get_fuzz_start s))"

definition phase :: "fuzz_state \<Rightarrow> tpe_phase" where
  "phase s = (case m_tpe_iter s of Some m \<Rightarrow> ti_phase m | None \<Rightarrow> Explore)"

definition set_phase :: "tpe_phase \<Rightarrow> fuzz_state \<Rightarrow> fuzz_state" where
  "set_phase ph s = s\<lparr>m_tpe_iter := Some ((tpe_iter s)\<lparr>ti_phase := ph\<rparr>)\<rparr>"

definition millis :: "duration \<Rightarrow> u64" where
  "millis d = of_nat (d div 10 ^ 6)"

definition start_pending_recompute :: "f64 list \<Rightarrow> world \<Rightarrow> error + world" where
  "start_pending_recompute vector w =
     (let s = w_state w; sg = w_stage w; mode = weight_mode s in
      if sg_worker sg then Ok w
      else if mode = Frontier \<and> m_acfg s = None
      then Err (IllegalState (Text ''frontier weight recompute requires SancovAcfgMeta''))
      else let next_iteration = (case m_tpe_iter s of
                 Some m \<Rightarrow> saturating_add (current_iteration m) 1 | None \<Rightarrow> 1)
        in bindR (apply_v_to_features s vector next_iteration) (\<lambda>s1.
           let feats = (case m_feats s1 of Some f \<Rightarrow> f | None \<Rightarrow> []) in
           bindR (build_corpus_weight_snapshot s1 next_iteration mode feats) (\<lambda>sn.
             Ok (w\<lparr>w_stage := sg\<lparr>sg_opt := set_last_vec vector (sg_opt sg), sg_worker := True, sg_rx := Some sn,
                     sg_pending_iteration := Some next_iteration\<rparr>,
                   w_state := s1\<lparr>m_tpe_iter := Some ((tpe_iter s1)\<lparr>current_iteration := next_iteration,
                     pending_iteration := Some next_iteration, ti_phase := PendingRecompute\<rparr>)\<rparr>\<rparr>))))"

definition forget_worker :: "tpe_stage \<Rightarrow> tpe_stage" where
  "forget_worker sg = sg\<lparr>sg_worker := False, sg_rx := None, sg_pending_iteration := None\<rparr>"

definition activate :: "u64 \<Rightarrow> u64 \<Rightarrow> fuzz_state \<Rightarrow> fuzz_state" where
  "activate now iteration s = s\<lparr>m_tpe_iter := Some ((tpe_iter s)\<lparr>active_iteration := Some iteration,
     pending_iteration := None, ti_phase := ActiveWindow, active_start_ms := Some now,
     active_start_edges := Some (current_edges s), last_new_edges_ms := Some now\<rparr>)\<rparr>"

definition poll_pending :: "tpe_env \<Rightarrow> world \<Rightarrow> error + (bool \<times> world)" where
  "poll_pending env w = (let s = w_state w; sg = w_stage w in
     case sg_rx sg of
       None \<Rightarrow> Ok (False, w\<lparr>w_state := set_phase ActiveWindow s\<rparr>)
     | Some sn \<Rightarrow> (case e_recv env of
         EmptyChannel \<Rightarrow> Ok (False, w)
       | Disconnected \<Rightarrow> Err (Unknown (StageMsg WorkerDisconnected))
       | Received \<Rightarrow>
           let result = compute_weights (e_ord env) sn; sg1 = forget_worker sg in
           if wr_iteration result \<noteq> current_iter s then Ok (False, w\<lparr>w_stage := sg1\<rparr>)
           else bindR (publish_weight_recompute_result (e_libm env) s result) (\<lambda>s1.
             let it = wr_iteration result;
                 s2 = set_features_active True (s1\<lparr>m_dirty := Some \<lparr>ad_iteration = it, ad_dirty = True\<rparr>\<rparr>);
                 s3 = activate (e_clock env 0) it s2
             in Ok (True, w\<lparr>w_stage := sg1, w_state := persist_to_meta (e_clock env 1) (sg_opt sg1) s3\<rparr>))))"

section \<open>The commit before the first trial\<close>

definition schema_from_state :: "fuzz_state \<Rightarrow> feature_schema_file" where
  "schema_from_state s = \<lparr>fsf_version = get_schema_version s, fsf_features = get_schema_features s\<rparr>"

definition credits_with_dim :: "f64 list \<Rightarrow> nat \<Rightarrow> string \<Rightarrow> error + f64 list" where
  "credits_with_dim credits d label =
     (if credits = [] then Ok (replicate d (Fin 0))
      else if length credits \<noteq> d
      then Err (IllegalState (StageMsg (CreditDimension label (length credits) d)))
      else Ok credits)"

definition positive_credit_stats :: "f64 list \<Rightarrow> nat \<times> f64" where
  "positive_credit_stats credits =
     foldl (\<lambda>(n, t) c. if flt (Fin 0) c then (Suc n, fadd t c) else (n, t)) (0, Fin 0) credits"

definition selected_names :: "feature_schema_file \<Rightarrow> bool list \<Rightarrow> string list" where
  "selected_names schema msk = map fs_name (masked (fsf_features schema) msk)"

definition init_source :: "bool \<Rightarrow> bool \<Rightarrow> tpe_init_source" where
  "init_source loaded has_positive = (if loaded then ExternalCandidateFile
     else if has_positive then ExploreCreditsExactFirst else EqualSimplexFallback)"

definition lift_mask :: "mask_msg + 'a \<Rightarrow> error + 'a" where
  "lift_mask r = map_err (\<lambda>m. IllegalState (MaskMsg m)) r"

text \<open>The end of the commit in the modes that honour a candidate file.\<close>

definition finish_commit ::
  "libm \<Rightarrow> tpe_params \<Rightarrow> vec_mask_runtime \<Rightarrow> f64 list \<Rightarrow> fuzz_state \<Rightarrow> std_rand \<Rightarrow> error + (fuzz_state \<times> std_rand)" where
  "finish_commit lm p rt normalized s r =
     (let s1 = set_vec_mask_runtime_meta rt s in
      if candidate_file_loaded rt then Ok (s1, r)
      else enqueue_exact_then_neighbor_candidates lm p (replace_v_candidates [] s1) normalized r)"

definition commit_full ::
  "libm \<Rightarrow> tpe_params \<Rightarrow> vec_mask_runtime \<Rightarrow> f64 list \<Rightarrow> fuzz_state \<Rightarrow> std_rand \<Rightarrow> error + (fuzz_state \<times> std_rand)" where
  "commit_full lm p rt raw s r =
     (let schema = schema_from_state s; schema_dim = length (fsf_features schema); d = get_active_dim s in
      if d \<noteq> schema_dim then Err (IllegalState (StageMsg (FullModeDim d schema_dim)))
      else bindR (credits_with_dim raw d ''full'') (\<lambda>credits.
        bindR (lift_mask (normalize_credit_or_equal_simplex credits)) (\<lambda>(normalized, has_positive, positive_sum).
          let msk = replicate schema_dim True;
              rt1 = rt\<lparr>mask_committed := True, tpe_init_committed := True, effective_mask := msk,
                selected_feature_names := selected_names schema msk, selected_schema_indices := true_indices msk,
                explore_credits_full := credits, explore_credits_active := credits,
                normalized_credit_init_v := normalized, positive_credit_count := fst (positive_credit_stats credits),
                positive_credit_sum := positive_sum, fallback_reason := None,
                vm_init_source := Some (init_source (candidate_file_loaded rt) has_positive)\<rparr>
          in finish_commit lm p rt1 normalized s r)))"

definition commit_explicit ::
  "libm \<Rightarrow> tpe_params \<Rightarrow> vec_mask_runtime \<Rightarrow> f64 list \<Rightarrow> fuzz_state \<Rightarrow> std_rand \<Rightarrow> error + (fuzz_state \<times> std_rand)" where
  "commit_explicit lm p rt raw s r = (case requested_explicit_mask rt of
     None \<Rightarrow> Err (IllegalState (StageMsg MissingExplicitMask))
   | Some requested \<Rightarrow>
       if get_vec_mask s \<noteq> requested then Err (IllegalState (ResumeMsg ResumeExplicitMask))
       else bindR (credits_with_dim raw (get_active_dim s) ''explicit'') (\<lambda>credits.
         bindR (lift_mask (normalize_credit_or_equal_simplex credits)) (\<lambda>(normalized, has_positive, positive_sum).
           let rt1 = rt\<lparr>mask_committed := True, tpe_init_committed := True, effective_mask := requested,
                 selected_feature_names := get_active_feature_names s,
                 selected_schema_indices := true_indices requested,
                 explore_credits_full := [], explore_credits_active := credits,
                 normalized_credit_init_v := normalized, positive_credit_count := fst (positive_credit_stats credits),
                 positive_credit_sum := positive_sum, fallback_reason := None,
                 vm_init_source := Some (init_source (candidate_file_loaded rt) has_positive)\<rparr>
           in finish_commit lm p rt1 normalized s r)))"

text \<open>The selected mask with the credits of its features, or the full mask when no credit is positive.\<close>

definition auto_selection :: "feature_schema_file \<Rightarrow> f64 list \<Rightarrow> bool list option \<Rightarrow> fuzz_state \<Rightarrow>
    error + (fuzz_state \<times> bool list \<times> f64 list \<times> f64 list \<times> tpe_init_source \<times> string option)" where
  "auto_selection schema credits selected s = (case selected of
     Some msk \<Rightarrow> bindR (install_committed_runtime_mask s schema msk) (\<lambda>s1.
       bindR (lift_mask (project_vector_by_mask credits msk)) (\<lambda>active.
         bindR (lift_mask (normalize_credit_or_equal_simplex active)) (\<lambda>(normalized, _, _).
           Ok (s1, msk, active, normalized, ExploreCreditsExactFirst, None))))
   | None \<Rightarrow> (let msk = replicate (length (fsf_features schema)) True in
       bindR (install_committed_runtime_mask s schema msk) (\<lambda>s1.
         Ok (s1, msk, credits, equal_simplex (length (fsf_features schema)), EqualSimplexFallback,
             Some ''no_positive_explore_credits''))))"

definition auto_runtime :: "vec_mask_runtime \<Rightarrow> feature_schema_file \<Rightarrow> f64 list \<Rightarrow> bool list \<Rightarrow> f64 list \<Rightarrow>
    f64 list \<Rightarrow> tpe_init_source \<Rightarrow> string option \<Rightarrow> vec_mask_runtime" where
  "auto_runtime rt schema credits msk active normalized source reason =
     rt\<lparr>mask_committed := True, tpe_init_committed := True, effective_mask := msk,
        selected_feature_names := selected_names schema msk, selected_schema_indices := true_indices msk,
        candidate_file_loaded := False, vm_init_source := Some source,
        explore_credits_full := credits, explore_credits_active := active,
        normalized_credit_init_v := normalized,
        positive_credit_count := fst (positive_credit_stats credits),
        positive_credit_sum := snd (positive_credit_stats credits), fallback_reason := reason\<rparr>"

definition commit_auto ::
  "libm \<Rightarrow> tpe_params \<Rightarrow> vec_mask_runtime \<Rightarrow> f64 list \<Rightarrow> fuzz_state \<Rightarrow> std_rand \<Rightarrow> error + (fuzz_state \<times> std_rand)" where
  "commit_auto lm p rt raw s r =
     (let schema = schema_from_state s; schema_dim = length (fsf_features schema) in
      bindR (credits_with_dim raw schema_dim ''auto-credit'') (\<lambda>credits.
        bindR (lift_mask (select_positive_credit_top_k_mask credits schema_dim (credit_top_k rt))) (\<lambda>selected.
          bindR (auto_selection schema credits selected s) (\<lambda>(s1, msk, active, normalized, source, reason).
            enqueue_exact_then_neighbor_candidates lm p
              (set_vec_mask_runtime_meta (auto_runtime rt schema credits msk active normalized source reason) s1)
              normalized r))))"

definition commit_mask_and_tpe_initialization ::
  "libm \<Rightarrow> tpe_params \<Rightarrow> fuzz_state \<Rightarrow> std_rand \<Rightarrow> error + (fuzz_state \<times> std_rand)" where
  "commit_mask_and_tpe_initialization lm p s r =
     (let rt = vec_mask_runtime_meta s in
      if tpe_init_committed rt then bindR (validate_committed_vector_dimensions s) (\<lambda>_. Ok (s, r))
      else let raw = (case m_explore s of Some m \<Rightarrow> cr_credits m | None \<Rightarrow> []) in
        bindR (case vm_mode rt of
                 Full \<Rightarrow> commit_full lm p rt raw s r
               | Explicit \<Rightarrow> commit_explicit lm p rt raw s r
               | AutoCredit \<Rightarrow> commit_auto lm p rt raw s r) (\<lambda>(s1, r1).
          bindR (validate_committed_vector_dimensions s1) (\<lambda>_. Ok (s1, r1))))"

section \<open>One call of the stage\<close>

definition export_world :: "tpe_env \<Rightarrow> u64 \<Rightarrow> bool \<Rightarrow> world \<Rightarrow> error + world" where
  "export_world env now force w = (case maybe_export_runtime_data (e_fs_ok env) now force (w_state w) (w_fs w) of
     (Inl e, _) \<Rightarrow> Err e
   | (Inr s, fs) \<Rightarrow> Ok (w\<lparr>w_state := s, w_fs := fs\<rparr>))"

definition report :: "tpe_env \<Rightarrow> world \<Rightarrow> error + world" where
  "report env w = bindR (e_fire env (w_state w)) (\<lambda>_. Ok w)"

definition perform_explore :: "tpe_params \<Rightarrow> tpe_env \<Rightarrow> world \<Rightarrow> error + world" where
  "perform_explore p env w =
     (if \<not> explore_done (e_clock env 0) (w_state w)
      then bindR (export_world env (e_clock env 1) False w) (\<lambda>w1.
        let now = e_clock env 2 in
        if 30000 < saturating_sub now (sg_last_explore_report_ms (w_stage w1))
        then report env (w1\<lparr>w_stage := (w_stage w1)\<lparr>sg_last_explore_report_ms := now\<rparr>\<rparr>)
        else Ok w1)
      else bindR (commit_mask_and_tpe_initialization (e_libm env) p (w_state w) (sg_rng (w_stage w))) (\<lambda>(s1, r1).
        if get_v_candidates s1 = [] then Err (IllegalState (StageMsg InitNotCommitted))
        else (case next_untried_from_pool s1 (sg_opt (w_stage w)) of
            (None, _) \<Rightarrow> Err (IllegalState (StageMsg NoInitialCandidate))
          | (Some candidate, s2) \<Rightarrow>
              bindR (start_pending_recompute candidate
                  (w\<lparr>w_stage := (w_stage w)\<lparr>sg_rng := r1\<rparr>, w_state := s2\<rparr>)) (\<lambda>w1.
                bindR (export_world env (e_clock env 1) True w1) (report env)))))"

definition perform_pending :: "tpe_env \<Rightarrow> world \<Rightarrow> error + world" where
  "perform_pending env w = bindR (poll_pending env w) (\<lambda>(published, w1).
     if published then report env w1 else Ok w1)"

definition mark_new_edges :: "u64 \<Rightarrow> f64 \<Rightarrow> fuzz_state \<Rightarrow> fuzz_state" where
  "mark_new_edges now reward s = (if flt (Fin 0) reward
     then s\<lparr>m_tpe_iter := Some ((tpe_iter s)\<lparr>last_new_edges_ms := Some now\<rparr>)\<rparr> else s)"

definition suggest_world :: "tpe_params \<Rightarrow> tpe_env \<Rightarrow> world \<Rightarrow> error + (f64 list option \<times> world)" where
  "suggest_world p env w =
     bindR (suggest_next (e_libm env) p (w_state w) (sg_opt (w_stage w)) (sg_rng (w_stage w))) (\<lambda>(v, s1, t1, r1).
       Ok (v, w\<lparr>w_state := s1, w_stage := (w_stage w)\<lparr>sg_opt := t1, sg_rng := r1\<rparr>\<rparr>))"

definition lock_world :: "world \<Rightarrow> error + world" where
  "lock_world w = bindR (lock_best (sg_opt (w_stage w))) (\<lambda>t.
     Ok (w\<lparr>w_stage := (w_stage w)\<lparr>sg_opt := t\<rparr>, w_state := set_phase LockedBest (w_state w)\<rparr>))"

definition observe_window :: "u64 \<Rightarrow> u64 \<Rightarrow> world \<Rightarrow> world" where
  "observe_window now start_ms w =
     (let s = w_state w; meta = tpe_iter s; edges = current_edges s;
          start_edges = (case active_start_edges meta of Some e \<Rightarrow> e | None \<Rightarrow> edges);
          reward = f_of_u64 (saturating_sub edges start_edges);
          last_vec = get_current_weight_vec s;
          iteration = (case active_iteration meta of Some i \<Rightarrow> i | None \<Rightarrow> current_iteration meta);
          t = sg_opt (w_stage w);
          t1 = (if last_vec \<noteq> [] then observe_trial iteration last_vec reward start_ms now t else t)
      in w\<lparr>w_stage := (w_stage w)\<lparr>sg_opt := t1\<rparr>, w_state := mark_new_edges now reward s\<rparr>)"

definition perform_active :: "tpe_params \<Rightarrow> tpe_env \<Rightarrow> world \<Rightarrow> error + world" where
  "perform_active p env w =
     (let now = e_clock env 0 in
      case active_start_ms (tpe_iter (w_state w)) of None \<Rightarrow> Ok w
      | Some start_ms \<Rightarrow>
          if saturating_sub now start_ms < millis (tp_period p) then Ok w
          else bindR (suggest_world p env (observe_window now start_ms w)) (\<lambda>(v, w1).
            bindR (case v of Some next \<Rightarrow> start_pending_recompute next w1 | None \<Rightarrow> lock_world w1) (\<lambda>w2.
              let w3 = w2\<lparr>w_state := persist_to_meta (e_clock env 1) (sg_opt (w_stage w2)) (w_state w2)\<rparr> in
              bindR (export_world env (e_clock env 2) True w3) (\<lambda>w4.
                bindR (report env w4) (report env)))))"

definition perform_locked :: "tpe_params \<Rightarrow> tpe_env \<Rightarrow> world \<Rightarrow> error + world" where
  "perform_locked p env w =
     (let now = e_clock env 0; s = w_state w; edges = current_edges s; meta = tpe_iter s;
          start_edges = (case active_start_edges meta of Some e \<Rightarrow> e | None \<Rightarrow> edges)
      in if start_edges < edges
         then Ok (w\<lparr>w_state := s\<lparr>m_tpe_iter := Some (meta\<lparr>active_start_edges := Some edges,
                    last_new_edges_ms := Some now\<rparr>)\<rparr>\<rparr>)
         else let last_new = (case last_new_edges_ms meta of Some t \<Rightarrow> t
                | None \<Rightarrow> (case active_start_ms meta of Some t \<Rightarrow> t | None \<Rightarrow> now)) in
           if saturating_sub now last_new < millis (tp_re_tpe_threshold p) then Ok w
           else bindR (enqueue_inverse_candidates (e_libm env) p s (sg_opt (w_stage w)) (sg_rng (w_stage w)))
               (\<lambda>(s1, t1, r1).
             bindR (export_world env (e_clock env 1) True
                (w\<lparr>w_state := s1, w_stage := (w_stage w)\<lparr>sg_opt := t1, sg_rng := r1\<rparr>\<rparr>)) (\<lambda>w1.
               bindR (suggest_world p env w1) (\<lambda>(v, w2).
                 case v of Some next \<Rightarrow> start_pending_recompute next w2 | None \<Rightarrow> Ok w2))))"

definition stage_enabled :: "fuzz_state \<Rightarrow> bool" where
  "stage_enabled s \<longleftrightarrow> get_feat_exists s \<and> get_feat_mode s \<noteq> 0 \<and> get_tpe_satisfied s"

text \<open>A recomputation whose worker died with the process is abandoned.\<close>

definition recover_phase :: "world \<Rightarrow> world" where
  "recover_phase w =
     (if phase (w_state w) = PendingRecompute \<and> \<not> sg_worker (w_stage w)
      then w\<lparr>w_state := set_phase (if get_current_weight_vec (w_state w) = [] then Explore else ActiveWindow) (w_state w)\<rparr>
      else w)"

definition restore_world :: "world \<Rightarrow> world" where
  "restore_world w = w\<lparr>w_stage := (w_stage w)\<lparr>sg_opt := restore_once (w_state w) (sg_opt (w_stage w))\<rparr>\<rparr>"

definition tpe_perform :: "tpe_params \<Rightarrow> tpe_env \<Rightarrow> world \<Rightarrow> error + world" where
  "tpe_perform p env w =
     (if \<not> stage_enabled (w_state w) then Ok w
      else let w1 = recover_phase (restore_world w) in
        case phase (w_state w1) of
          Explore \<Rightarrow> perform_explore p env w1
        | PendingRecompute \<Rightarrow> perform_pending env w1
        | ActiveWindow \<Rightarrow> perform_active p env w1
        | LockedBest \<Rightarrow> perform_locked p env w1)"

definition tpe_should_restart :: "world \<Rightarrow> bool \<times> world" where
  "tpe_should_restart w = (stage_enabled (w_state w), restore_world w)"

section \<open>What the operations leave alone\<close>

lemma iter_of_meta: "m_tpe_iter s' = m_tpe_iter s \<Longrightarrow> phase s' = phase s \<and> current_iter s' = current_iter s \<and> tpe_iter s' = tpe_iter s"
  by (simp add: phase_def current_iter_def tpe_iter_def)

lemma iter_explicit [simp]:
  "phase (s\<lparr>m_tpe_iter := Some m\<rparr>) = ti_phase m" "current_iter (s\<lparr>m_tpe_iter := Some m\<rparr>) = current_iteration m"
  by (simp_all add: phase_def current_iter_def)

lemma tpe_iter_fields [simp]: "ti_phase (tpe_iter s) = phase s" "current_iteration (tpe_iter s) = current_iter s"
  by (simp_all add: tpe_iter_def phase_def current_iter_def tpe_iteration_default_def split: option.splits)

lemma set_phase_simps [simp]: "phase (set_phase ph s) = ph" "current_iter (set_phase ph s) = current_iter s"
  by (simp_all add: set_phase_def)

text \<open>Only the candidate pool may differ.\<close>

definition only_pool :: "fuzz_state \<Rightarrow> fuzz_state \<Rightarrow> bool" where
  "only_pool s s' \<longleftrightarrow> s' = s \<or> (\<exists>vs. s' = replace_v_candidates vs s)"

lemma replace_replace [simp]: "replace_v_candidates vs (replace_v_candidates us s) = replace_v_candidates vs s"
  by (simp add: replace_v_candidates_def upd_globals_def globals_def)

lemma only_pool_refl [simp]: "only_pool s s"
  by (simp add: only_pool_def)

lemma only_pool_trans: "only_pool a b \<Longrightarrow> only_pool b c \<Longrightarrow> only_pool a c"
  by (auto simp: only_pool_def)

lemma push_is_replace: "\<exists>vs. push_v_candidate v s = replace_v_candidates vs s"
proof -
  have "push_v_candidate v s = replace_v_candidates (get_v_candidates (push_v_candidate v s)) s"
    by (simp add: push_v_candidate_def replace_v_candidates_def get_v_candidates_def upd_globals_def globals_def
        split: option.splits)
  then show ?thesis by blast
qed

lemma only_pool_push [simp]: "only_pool s (push_v_candidate v s)" "only_pool s (replace_v_candidates vs s)"
  using push_is_replace by (auto simp: only_pool_def)

lemma only_pool_enqueue: "only_pool s (fst (enqueue_samples lm bw c n (s, r)))"
proof (induction n arbitrary: s r)
  case (Suc n)
  obtain v r1 where v: "logistic_normal_sample lm c bw r = (v, r1)" by fastforce
  show ?case using Suc.IH [of "push_v_candidate v s" r1] only_pool_trans [OF only_pool_push(1)] v by simp
qed simp

lemma only_pool_same:
  assumes "only_pool s s'"
  shows "m_tpe_iter s' = m_tpe_iter s" "get_active_dim s' = get_active_dim s" "m_vec_mask s' = m_vec_mask s"
    "st_corpus s' = st_corpus s" "m_history s' = m_history s" "get_current_weight_vec s' = get_current_weight_vec s"
  using assms by (auto simp: only_pool_def setter_defs getter_defs)

lemma only_pool_exact:
  "enqueue_exact_then_neighbor_candidates lm p s c r = Ok (s', r') \<Longrightarrow> only_pool s s'"
  by (auto simp: enqueue_exact_then_neighbor_candidates_def enqueue_samples_around_def Let_def bindR_Ok_iff
      split: if_splits)
    (metis fst_conv only_pool_enqueue only_pool_push(1) only_pool_trans)

lemma only_pool_next: "next_untried_from_pool s t = (v, s') \<Longrightarrow> only_pool s s'"
  using next_untried_frame by (fastforce simp: only_pool_def)

lemma only_pool_inverse:
  assumes "enqueue_inverse_candidates lm p s t r = Ok (s', t', r')"
  shows "only_pool s s'"
proof -
  have "only_pool s (fst (enqueue_samples_around lm p s c n r))" for c n
    unfolding enqueue_samples_around_def by (rule only_pool_enqueue)
  then show ?thesis using assms
    by (auto simp: enqueue_inverse_candidates_def bindR_Ok_iff Let_def case_prod_beta split: option.splits)
qed

lemma only_pool_init: "init_candidate lm p s t r = (v, s', r') \<Longrightarrow> only_pool s s'"
  using only_pool_next by (auto simp: init_candidate_def Let_def split: prod.splits option.splits if_splits)

lemma only_pool_suggest:
  assumes "suggest_next lm p s t r = Ok (v, s', t', r')"
  shows "only_pool s s'"
proof -
  obtain u s1 where n: "next_untried_from_pool s t = (u, s1)" by fastforce
  note n1 = only_pool_next [OF n]
  show ?thesis using assms n n1 only_pool_trans [OF n1 only_pool_init]
    by (auto simp: suggest_next_def bindR_Ok_iff Let_def split: if_splits option.splits prod.splits)
qed

lemma apply_v_iter:
  assumes "apply_v_to_features s v it = Ok s'"
  shows "m_tpe_iter s' = m_tpe_iter s"
proof -
  obtain w where "s' = set_current_weight_vec w (s\<lparr>m_feats := m_feats s', m_vector := m_vector s'\<rparr>)"
    using assms by (rule apply_v_effect)
  then have "m_tpe_iter s' = m_tpe_iter (set_current_weight_vec w (s\<lparr>m_feats := m_feats s', m_vector := m_vector s'\<rparr>))"
    by (rule arg_cong)
  then show ?thesis by (simp add: setter_defs)
qed

lemma persist_iter [simp]: "m_tpe_iter (persist_to_meta now t s) = m_tpe_iter s"
  by (simp add: persist_to_meta_def Let_def)

lemma enqueue_exact_iter:
  "enqueue_exact_then_neighbor_candidates lm p s c r = Ok (s', r') \<Longrightarrow> m_tpe_iter s' = m_tpe_iter s"
  by (rule only_pool_same(1) [OF only_pool_exact])

lemma commit_frame [simp]:
  "m_tpe_iter (set_vec_mask_runtime_meta rt s) = m_tpe_iter s" "m_tpe_iter (replace_v_candidates vs s) = m_tpe_iter s"
  by (simp_all add: set_vec_mask_runtime_meta_def setter_defs)

lemma finish_commit_iter: "finish_commit lm p rt v s r = Ok (s', r') \<Longrightarrow> m_tpe_iter s' = m_tpe_iter s"
  by (auto simp: finish_commit_def Let_def dest!: enqueue_exact_iter split: if_splits)

lemma commit_full_iter: "commit_full lm p rt raw s r = Ok (s', r') \<Longrightarrow> m_tpe_iter s' = m_tpe_iter s"
  by (auto simp: commit_full_def Let_def bindR_Ok_iff dest!: finish_commit_iter split: if_splits)

lemma commit_explicit_iter: "commit_explicit lm p rt raw s r = Ok (s', r') \<Longrightarrow> m_tpe_iter s' = m_tpe_iter s"
  by (auto simp: commit_explicit_def Let_def bindR_Ok_iff dest!: finish_commit_iter split: if_splits option.splits)

lemma auto_selection_iter:
  "auto_selection schema credits sel s = Ok (s1, rest) \<Longrightarrow> m_tpe_iter s1 = m_tpe_iter s"
  using install_mask_effect(4) by (auto simp: auto_selection_def Let_def bindR_Ok_iff split: option.splits)

lemma commit_auto_iter: "commit_auto lm p rt raw s r = Ok (s', r') \<Longrightarrow> m_tpe_iter s' = m_tpe_iter s"
  by (auto simp: commit_auto_def Let_def bindR_Ok_iff dest!: enqueue_exact_iter auto_selection_iter)

lemma commit_iter:
  "commit_mask_and_tpe_initialization lm p s r = Ok (s', r') \<Longrightarrow> m_tpe_iter s' = m_tpe_iter s"
  using commit_full_iter commit_explicit_iter commit_auto_iter
  by (cases "vm_mode (vec_mask_runtime_meta s)")
    (auto simp: commit_mask_and_tpe_initialization_def Let_def bindR_Ok_iff split: if_splits)

lemma corpus_modify_iter: "corpus_modify k f s = Ok s' \<Longrightarrow> m_tpe_iter s' = m_tpe_iter s"
  by (auto simp: corpus_modify_def bindR_Ok_iff)

lemma publish_iter:
  assumes "publish_weight_recompute_result lm s r = Ok s'"
  shows "m_tpe_iter s' = m_tpe_iter s"
proof -
  have pw: "m_tpe_iter b = m_tpe_iter a" if "publish_weights it mode items st a = Ok (st', b)" for it mode items st st' a b
    using that by (induction items arbitrary: st a) (auto simp: bindR_Ok_iff dest!: corpus_modify_iter)
  have pf: "m_tpe_iter b = m_tpe_iter a" if "publish_factors lm p items a = Ok b" for p items a b
    using that by (induction items arbitrary: a) (auto simp: bindR_Ok_iff split: option.splits dest!: corpus_modify_iter)
  show ?thesis using assms pw pf by (fastforce simp: publish_weight_recompute_result_def Let_def bindR_Ok_iff)
qed

section \<open>The phase machine\<close>

text \<open>The worker, the phase and the iteration are untouched.\<close>

definition calm :: "world \<Rightarrow> world \<Rightarrow> bool" where
  "calm w w' \<longleftrightarrow> sg_worker (w_stage w') = sg_worker (w_stage w) \<and> sg_rx (w_stage w') = sg_rx (w_stage w) \<and>
     sg_pending_iteration (w_stage w') = sg_pending_iteration (w_stage w) \<and>
     phase (w_state w') = phase (w_state w) \<and> current_iter (w_state w') = current_iter (w_state w)"

lemma calm_refl [simp]: "calm w w"
  by (simp add: calm_def)

lemma calm_trans: "calm a b \<Longrightarrow> calm b c \<Longrightarrow> calm a c"
  by (simp add: calm_def)

lemma calm_export: "export_world env now force w = Ok w' \<Longrightarrow> calm w w'"
  by (auto simp: export_world_def maybe_export_runtime_data_def calm_def phase_def current_iter_def
      split: prod.splits sum.splits if_splits)

lemma report_same: "report env w = Ok w' \<Longrightarrow> w' = w"
  by (auto simp: report_def bindR_Ok_iff)

lemma calm_suggest: "suggest_world p env w = Ok (v, w') \<Longrightarrow> calm w w'"
  by (auto simp: suggest_world_def bindR_Ok_iff calm_def
      dest!: only_pool_suggest only_pool_same(1) iter_of_meta)

lemma calm_observe: "calm w (observe_window now start w)"
  by (simp add: observe_window_def Let_def calm_def mark_new_edges_def)

lemma calm_restore: "calm w (restore_world w)"
  by (simp add: restore_world_def calm_def)

lemma recover_simps [simp]:
  "w_stage (recover_phase w) = w_stage w" "current_iter (w_state (recover_phase w)) = current_iter (w_state w)"
  "phase (w_state w) \<noteq> PendingRecompute \<or> sg_worker (w_stage w) \<Longrightarrow> recover_phase w = w"
  by (auto simp: recover_phase_def)

text \<open>
  The invariant of the stage: a worker exists exactly while a snapshot is pending, and then the phase is
  PendingRecompute and the snapshot carries the current iteration.
\<close>

definition stage_inv :: "world \<Rightarrow> bool" where
  "stage_inv w \<longleftrightarrow> (case sg_rx (w_stage w) of
     None \<Rightarrow> \<not> sg_worker (w_stage w) \<and> sg_pending_iteration (w_stage w) = None
   | Some sn \<Rightarrow> sg_worker (w_stage w) \<and> phase (w_state w) = PendingRecompute \<and>
       sg_pending_iteration (w_stage w) = Some (cw_iteration sn) \<and> current_iter (w_state w) = cw_iteration sn)"

definition started :: "world \<Rightarrow> world \<Rightarrow> bool" where
  "started w w' \<longleftrightarrow> stage_inv w' \<and> phase (w_state w') = PendingRecompute \<and> sg_worker (w_stage w') \<and>
     current_iter (w_state w') = saturating_add (current_iter (w_state w)) 1"

lemma stage_inv_calm: "stage_inv w \<Longrightarrow> calm w w' \<Longrightarrow> stage_inv w'"
  by (auto simp: stage_inv_def calm_def split: option.splits)

lemma started_calm: "started w w' \<Longrightarrow> calm w0 w \<Longrightarrow> calm w' w1 \<Longrightarrow> started w0 w1"
  using stage_inv_calm by (auto simp: started_def calm_def)

lemma build_snapshot_iteration:
  "build_corpus_weight_snapshot s it mode ws = Ok sn \<Longrightarrow> cw_iteration sn = it"
  by (auto simp: build_corpus_weight_snapshot_def Let_def bindR_Ok_iff)

lemma start_pending_cases:
  assumes "start_pending_recompute v w = Ok w'" "\<not> sg_worker (w_stage w)"
  shows "started w w'"
proof -
  let ?s = "w_state w"
  let ?it = "case m_tpe_iter ?s of Some m \<Rightarrow> saturating_add (current_iteration m) 1 | None \<Rightarrow> 1"
  have it: "?it = saturating_add (current_iter ?s) 1"
    by (auto simp: current_iter_def saturating_add_def split: option.splits)
  obtain s1 feats sn where s1: "apply_v_to_features ?s v ?it = Ok s1"
      "build_corpus_weight_snapshot s1 ?it (weight_mode ?s) feats = Ok sn"
      "w' = w\<lparr>w_stage := (w_stage w)\<lparr>sg_opt := set_last_vec v (sg_opt (w_stage w)), sg_worker := True, sg_rx := Some sn,
         sg_pending_iteration := Some ?it\<rparr>,
         w_state := s1\<lparr>m_tpe_iter := Some ((tpe_iter s1)\<lparr>current_iteration := ?it,
           pending_iteration := Some ?it, ti_phase := PendingRecompute\<rparr>)\<rparr>\<rparr>"
    using assms by (auto simp: start_pending_recompute_def Let_def bindR_Ok_iff split: if_splits)
  then show ?thesis using build_snapshot_iteration [OF s1(2)] it by (simp add: started_def stage_inv_def)
qed

lemma perform_explore_step:
  assumes "perform_explore p env w = Ok w'" "stage_inv w" "phase (w_state w) = Explore"
  shows "calm w w' \<or> started w w'"
proof -
  have nw: "\<not> sg_worker (w_stage w)" using assms(2,3) by (auto simp: stage_inv_def split: option.splits)
  show ?thesis
  proof (cases "explore_done (e_clock env 0) (w_state w)")
    case False
    then obtain w1 where w1: "export_world env (e_clock env 1) False w = Ok w1"
      and r: "(if 30000 < saturating_sub (e_clock env 2) (sg_last_explore_report_ms (w_stage w1))
        then report env (w1\<lparr>w_stage := (w_stage w1)\<lparr>sg_last_explore_report_ms := e_clock env 2\<rparr>\<rparr>) else Ok w1) = Ok w'"
      using assms(1) by (auto simp: perform_explore_def Let_def bindR_Ok_iff)
    have "calm w1 w'" using r by (auto simp: calm_def dest!: report_same split: if_splits)
    then show ?thesis using calm_trans [OF calm_export [OF w1]] by blast
  next
    case True
    then obtain s1 r1 c s2 w1 w2 where s1: "commit_mask_and_tpe_initialization (e_libm env) p (w_state w) (sg_rng (w_stage w)) = Ok (s1, r1)"
      and n: "next_untried_from_pool s1 (sg_opt (w_stage w)) = (Some c, s2)"
      and w1: "start_pending_recompute c (w\<lparr>w_stage := (w_stage w)\<lparr>sg_rng := r1\<rparr>, w_state := s2\<rparr>) = Ok w1"
      and w2: "export_world env (e_clock env 1) True w1 = Ok w2" "report env w2 = Ok w'"
      using assms(1) by (auto simp: perform_explore_def bindR_Ok_iff split: if_splits prod.splits option.splits)
    have "m_tpe_iter s2 = m_tpe_iter (w_state w)"
      using commit_iter [OF s1] only_pool_same(1) [OF only_pool_next [OF n]] by simp
    then have "calm w (w\<lparr>w_stage := (w_stage w)\<lparr>sg_rng := r1\<rparr>, w_state := s2\<rparr>)"
      using iter_of_meta [of s2 "w_state w"] by (simp add: calm_def)
    then show ?thesis
      using started_calm [OF start_pending_cases [OF w1]] nw calm_export [OF w2(1)] report_same [OF w2(2)] by simp
  qed
qed

lemma perform_pending_step:
  assumes "perform_pending env w = Ok w'" "stage_inv w" "phase (w_state w) = PendingRecompute" "sg_worker (w_stage w)"
  shows "calm w w' \<or> stage_inv w' \<and> phase (w_state w') = ActiveWindow \<and>
    current_iter (w_state w') = current_iter (w_state w) \<and> active_start_ms (tpe_iter (w_state w')) = Some (e_clock env 0)"
proof -
  obtain sn where sn: "sg_rx (w_stage w) = Some sn" "current_iter (w_state w) = cw_iteration sn"
    using assms(2,4) by (auto simp: stage_inv_def split: option.splits)
  obtain pub w1 where w1: "poll_pending env w = Ok (pub, w1)" "w' = w1"
    using assms(1) by (auto simp: perform_pending_def bindR_Ok_iff dest!: report_same split: if_splits)
  show ?thesis
  proof (cases "e_recv env")
    case Received
    have "wr_iteration (compute_weights (e_ord env) sn) = current_iter (w_state w)"
      by (simp add: compute_weights_def sn)
    then obtain s1 s3 where s1: "publish_weight_recompute_result (e_libm env) (w_state w) (compute_weights (e_ord env) sn) = Ok s1"
      and s3: "s3 = activate (e_clock env 0) (cw_iteration sn)
          (set_features_active True (s1\<lparr>m_dirty := Some \<lparr>ad_iteration = cw_iteration sn, ad_dirty = True\<rparr>\<rparr>))"
      and w': "w' = w\<lparr>w_stage := forget_worker (w_stage w), w_state := persist_to_meta (e_clock env 1) (sg_opt (forget_worker (w_stage w))) s3\<rparr>"
      using w1 sn Received by (auto simp: poll_pending_def Let_def bindR_Ok_iff compute_weights_def)
    have "m_tpe_iter (w_state w') = m_tpe_iter s3" using w' by simp
    moreover have "phase s3 = ActiveWindow" "current_iter s3 = current_iter (w_state w)"
        "active_start_ms (tpe_iter s3) = Some (e_clock env 0)"
      using publish_iter [OF s1] iter_of_meta [of s1 "w_state w"]
      by (simp_all add: s3 activate_def setter_defs upd_globals_def tpe_iter_def current_iter_def tpe_iteration_default_def
          split: option.splits)
    ultimately show ?thesis using w' iter_of_meta [of "w_state w'" s3]
      by (simp add: stage_inv_def forget_worker_def)
  qed (use w1 sn in \<open>simp_all add: poll_pending_def Let_def\<close>)
qed

lemma suggest_start_step:
  assumes "suggest_world p env w = Ok (v, w1)" "v = Some next" "start_pending_recompute next w1 = Ok w2" "\<not> sg_worker (w_stage w)"
  shows "started w w2"
proof -
  have c: "calm w w1" by (rule calm_suggest [OF assms(1)])
  then have "started w1 w2" using start_pending_cases [OF assms(3)] assms(4) by (simp add: calm_def)
  then show ?thesis using started_calm [OF _ c calm_refl] by blast
qed

definition window_over :: "tpe_params \<Rightarrow> u64 \<Rightarrow> fuzz_state \<Rightarrow> bool" where
  "window_over p now s = (case active_start_ms (tpe_iter s) of None \<Rightarrow> False
     | Some t \<Rightarrow> \<not> saturating_sub now t < millis (tp_period p))"

definition locked_after :: "world \<Rightarrow> world \<Rightarrow> bool" where
  "locked_after w w' \<longleftrightarrow> stage_inv w' \<and> phase (w_state w') = LockedBest \<and>
     current_iter (w_state w') = current_iter (w_state w) \<and> is_locked (sg_opt (w_stage w'))"

lemma lock_best_locks: "lock_best t = Ok t' \<Longrightarrow> is_locked t'"
  by (auto simp: lock_best_def bindR_Ok_iff Let_def is_locked_def)

lemma export_stage: "export_world env now force w = Ok w' \<Longrightarrow> w_stage w' = w_stage w"
  by (auto simp: export_world_def split: prod.splits sum.splits)

lemma lock_world_step:
  assumes "lock_world w = Ok w'" "stage_inv w" "\<not> sg_worker (w_stage w)"
  shows "locked_after w w'"
  using assms by (auto simp: lock_world_def bindR_Ok_iff locked_after_def stage_inv_def lock_best_locks split: option.splits)

lemma perform_active_step:
  assumes "perform_active p env w = Ok w'" "stage_inv w" "phase (w_state w) = ActiveWindow"
  shows "if window_over p (e_clock env 0) (w_state w) then started w w' \<or> locked_after w w' else w' = w"
proof (cases "window_over p (e_clock env 0) (w_state w)")
  case False
  then show ?thesis using assms(1) by (auto simp: perform_active_def window_over_def Let_def split: option.splits)
next
  case True
  then obtain t where t: "active_start_ms (tpe_iter (w_state w)) = Some t" "\<not> saturating_sub (e_clock env 0) t < millis (tp_period p)"
    by (auto simp: window_over_def split: option.splits)
  let ?w0 = "observe_window (e_clock env 0) t w"
  have c0: "calm w ?w0" by (rule calm_observe)
  have nw: "\<not> sg_worker (w_stage ?w0)" "stage_inv ?w0"
    using assms(2,3) c0 stage_inv_calm by (auto simp: stage_inv_def calm_def split: option.splits)
  obtain v w1 w2 w3 w4 where w1: "suggest_world p env ?w0 = Ok (v, w1)"
    and w2: "(case v of Some next \<Rightarrow> start_pending_recompute next w1 | None \<Rightarrow> lock_world w1) = Ok w2"
    and w3: "w3 = w2\<lparr>w_state := persist_to_meta (e_clock env 1) (sg_opt (w_stage w2)) (w_state w2)\<rparr>"
    and w4: "export_world env (e_clock env 2) True w3 = Ok w4" "w' = w4"
    using assms(1) t by (auto simp: perform_active_def Let_def bindR_Ok_iff dest!: report_same)
  have c1: "calm w w1" using calm_trans [OF c0 calm_suggest [OF w1]] .
  have "calm w2 w3" using w3 iter_of_meta [of "w_state w3" "w_state w2"] by (simp add: calm_def)
  then have c3: "calm w2 w'" using calm_trans calm_export w4 by blast
  have st: "w_stage w' = w_stage w2" using export_stage [OF w4(1)] w3 w4(2) by simp
  have "started w w' \<or> locked_after w w'"
  proof (cases v)
    case None
    have "locked_after w1 w2"
      using lock_world_step [of w1 w2] w2 None c1 nw stage_inv_calm [OF assms(2) c1] calm_suggest [OF w1]
      by (simp add: calm_def)
    then have "locked_after w w'" using c1 c3 st stage_inv_calm [OF _ c3] by (auto simp: locked_after_def calm_def)
    then show ?thesis by blast
  next
    case (Some nx)
    then have "started ?w0 w2" using suggest_start_step [OF w1] w2 nw(1) by simp
    then show ?thesis using started_calm [OF _ c0 c3] by blast
  qed
  then show ?thesis using True by simp
qed

lemma perform_locked_step:
  assumes "perform_locked p env w = Ok w'" "stage_inv w" "phase (w_state w) = LockedBest"
  shows "calm w w' \<or> started w w'"
proof -
  have nw: "\<not> sg_worker (w_stage w)" using assms(2,3) by (auto simp: stage_inv_def split: option.splits)
  let ?s = "w_state w" and ?sg = "w_stage w"
  let ?start = "case active_start_edges (tpe_iter ?s) of Some e \<Rightarrow> e | None \<Rightarrow> current_edges ?s"
  let ?last = "case last_new_edges_ms (tpe_iter ?s) of Some t \<Rightarrow> t
    | None \<Rightarrow> (case active_start_ms (tpe_iter ?s) of Some t \<Rightarrow> t | None \<Rightarrow> e_clock env 0)"
  show ?thesis
  proof (cases "?start < current_edges ?s \<or> saturating_sub (e_clock env 0) ?last < millis (tp_re_tpe_threshold p)")
    case True
    then show ?thesis using assms(1) by (auto simp: perform_locked_def Let_def calm_def split: if_splits)
  next
    case False
    then obtain s1 t1 r1 w1 v w2 where
        e: "enqueue_inverse_candidates (e_libm env) p ?s (sg_opt ?sg) (sg_rng ?sg) = Ok (s1, t1, r1)"
      and w1: "export_world env (e_clock env 1) True (w\<lparr>w_state := s1, w_stage := ?sg\<lparr>sg_opt := t1, sg_rng := r1\<rparr>\<rparr>) = Ok w1"
      and v: "suggest_world p env w1 = Ok (v, w2)"
      and w': "(case v of Some next \<Rightarrow> start_pending_recompute next w2 | None \<Rightarrow> Ok w2) = Ok w'"
      using assms(1) by (auto simp: perform_locked_def Let_def bindR_Ok_iff)
    have "calm w (w\<lparr>w_state := s1, w_stage := ?sg\<lparr>sg_opt := t1, sg_rng := r1\<rparr>\<rparr>)"
      using iter_of_meta [OF only_pool_same(1) [OF only_pool_inverse [OF e]]] by (simp add: calm_def)
    then have c1: "calm w w1" using calm_trans calm_export [OF w1] by blast
    show ?thesis
    proof (cases v)
      case None
      then show ?thesis using w' calm_trans [OF c1 calm_suggest [OF v]] by simp
    next
      case (Some nx)
      then have "started w1 w'" using suggest_start_step [OF v] w' nw c1 by (simp add: calm_def)
      then show ?thesis using started_calm [OF _ c1 calm_refl] by blast
    qed
  qed
qed

text \<open>The transitions of one successful call, seen after the recovery of an abandoned recomputation.\<close>

definition tpe_transition :: "tpe_phase \<Rightarrow> tpe_phase \<Rightarrow> bool" where
  "tpe_transition a b = (case a of
     Explore \<Rightarrow> b \<in> {Explore, PendingRecompute}
   | PendingRecompute \<Rightarrow> b \<in> {PendingRecompute, ActiveWindow}
   | ActiveWindow \<Rightarrow> b \<in> {ActiveWindow, PendingRecompute, LockedBest}
   | LockedBest \<Rightarrow> b \<in> {LockedBest, PendingRecompute})"

lemma recover_inv: "stage_inv w \<Longrightarrow> stage_inv (recover_phase w)"
  by (auto simp: stage_inv_def recover_phase_def split: option.splits)

lemma perform_step:
  assumes "tpe_perform p env w = Ok w'" "stage_inv w" "stage_enabled (w_state w)"
  defines "w1 \<equiv> recover_phase (restore_world w)"
  shows "stage_inv w1 \<and> current_iter (w_state w1) = current_iter (w_state w) \<and>
    (calm w1 w' \<or> started w1 w' \<and> phase (w_state w1) \<noteq> PendingRecompute \<or>
     locked_after w1 w' \<and> phase (w_state w1) = ActiveWindow \<or>
     stage_inv w' \<and> phase (w_state w1) = PendingRecompute \<and> phase (w_state w') = ActiveWindow \<and>
     current_iter (w_state w') = current_iter (w_state w1))"
proof -
  have inv: "stage_inv w1" unfolding w1_def using recover_inv stage_inv_calm [OF assms(2) calm_restore] by blast
  have cur: "current_iter (w_state w1) = current_iter (w_state w)" using calm_restore [of w] by (simp add: w1_def calm_def)
  have e: "(case phase (w_state w1) of Explore \<Rightarrow> perform_explore p env w1
        | PendingRecompute \<Rightarrow> perform_pending env w1 | ActiveWindow \<Rightarrow> perform_active p env w1
        | LockedBest \<Rightarrow> perform_locked p env w1) = Ok w'"
    using assms(1) unfolding tpe_perform_def Let_def w1_def by (simp only: assms(3) simp_thms if_False)
  show ?thesis
  proof (cases "phase (w_state w1)")
    case Explore
    then show ?thesis using perform_explore_step [OF _ inv Explore] e inv cur by auto
  next
    case PendingRecompute
    have "sg_worker (w_stage w1)"
    proof (rule ccontr)
      assume nw: "\<not> sg_worker (w_stage w1)"
      then have "phase (w_state w1) \<noteq> PendingRecompute" by (auto simp: w1_def recover_phase_def split: if_splits)
      then show False using PendingRecompute by simp
    qed
    then show ?thesis using perform_pending_step [OF _ inv PendingRecompute] e PendingRecompute inv cur by auto
  next
    case ActiveWindow
    then have "perform_active p env w1 = Ok w'" using e by simp
    from perform_active_step [OF this inv ActiveWindow] have "calm w1 w' \<or> started w1 w' \<or> locked_after w1 w'"
      by (auto split: if_splits)
    then show ?thesis using ActiveWindow inv cur by auto
  next
    case LockedBest
    then show ?thesis using perform_locked_step [OF _ inv LockedBest] e inv cur by auto
  qed
qed

lemma stage_inv_perform:
  assumes "tpe_perform p env w = Ok w'" "stage_inv w"
  shows "stage_inv w'"
proof (cases "stage_enabled (w_state w)")
  case True
  then show ?thesis using perform_step [OF assms True] stage_inv_calm
    by (auto simp: started_def locked_after_def)
next
  case False
  then show ?thesis using assms by (simp add: tpe_perform_def)
qed

section \<open>The commit\<close>

lemma push_nonempty: "get_v_candidates (push_v_candidate v s) \<noteq> []"
  by (auto simp: push_v_candidate_def getter_defs list_ex_iff)

lemma enqueue_nonempty: "get_v_candidates s \<noteq> [] \<Longrightarrow> get_v_candidates (fst (enqueue_samples lm bw c n (s, r))) \<noteq> []"
proof (induction n arbitrary: s r)
  case (Suc n)
  obtain v r1 where v: "logistic_normal_sample lm c bw r = (v, r1)" by fastforce
  show ?case using Suc.IH [OF push_nonempty] v by simp
qed simp

lemma exact_nonempty:
  assumes "enqueue_exact_then_neighbor_candidates lm p s c r = Ok (s', r')" "0 < get_active_dim s"
  shows "get_v_candidates s' \<noteq> [] \<and> length c = get_active_dim s"
proof -
  obtain w where "s' = fst (enqueue_samples lm (tp_bw p) w (max (tp_samples p) 1) (push_v_candidate w s, r))"
      "length c = get_active_dim s"
    using assms by (auto simp: enqueue_exact_then_neighbor_candidates_def enqueue_samples_around_def Let_def
        bindR_Ok_iff split: if_splits) (metis fst_conv)
  then show ?thesis using enqueue_nonempty [OF push_nonempty] by simp
qed

text \<open>What the three modes have in common.\<close>

definition committed_by :: "vec_mask_runtime \<Rightarrow> fuzz_state \<Rightarrow> bool" where
  "committed_by rt s' \<longleftrightarrow> m_vec_mask s' = Some rt \<and> tpe_init_committed rt \<and> mask_committed rt \<and>
     (\<not> candidate_file_loaded rt \<and> 0 < get_active_dim s' \<longrightarrow> get_v_candidates s' \<noteq> [])"

lemma committed_enqueue:
  assumes "enqueue_exact_then_neighbor_candidates lm p s1 v r = Ok (s', r')" "m_vec_mask s1 = Some rt"
    "tpe_init_committed rt" "mask_committed rt"
  shows "committed_by rt s'"
proof -
  note same = only_pool_same [OF only_pool_exact [OF assms(1)]]
  show ?thesis using exact_nonempty [OF assms(1)] same(2,3) assms(2-4) by (simp add: committed_by_def)
qed

lemma committed_plain:
  "candidate_file_loaded rt \<Longrightarrow> tpe_init_committed rt \<Longrightarrow> mask_committed rt \<Longrightarrow>
    committed_by rt (set_vec_mask_runtime_meta rt s)"
  by (simp add: committed_by_def set_vec_mask_runtime_meta_def)

lemma runtime_meta_frame [simp]:
  "m_vec_mask (set_vec_mask_runtime_meta rt s) = Some rt" "m_vec_mask (replace_v_candidates vs s) = m_vec_mask s"
  by (simp_all add: set_vec_mask_runtime_meta_def setter_defs)

lemma finish_committed:
  assumes "finish_commit lm p rt v s r = Ok (s', r')" "tpe_init_committed rt \<and> mask_committed rt \<and> vm_mode rt = m"
  shows "\<exists>rt'. committed_by rt' s' \<and> vm_mode rt' = m"
proof -
  have "committed_by rt s'"
  proof (cases "candidate_file_loaded rt")
    case True
    then show ?thesis using assms committed_plain by (auto simp: finish_commit_def Let_def)
  next
    case False
    then have "enqueue_exact_then_neighbor_candidates lm p (replace_v_candidates [] (set_vec_mask_runtime_meta rt s)) v r = Ok (s', r')"
      using assms(1) by (simp add: finish_commit_def Let_def)
    then show ?thesis by (rule committed_enqueue) (use assms(2) in simp_all)
  qed
  then show ?thesis using assms(2) by blast
qed

lemma commit_full_committed:
  "commit_full lm p rt raw s r = Ok (s', r') \<Longrightarrow> \<exists>rt'. committed_by rt' s' \<and> vm_mode rt' = vm_mode rt"
  by (auto simp: commit_full_def Let_def bindR_Ok_iff split: if_split_asm elim!: finish_committed)

lemma commit_explicit_committed:
  "commit_explicit lm p rt raw s r = Ok (s', r') \<Longrightarrow> \<exists>rt'. committed_by rt' s' \<and> vm_mode rt' = vm_mode rt"
  by (auto simp: commit_explicit_def Let_def bindR_Ok_iff split: if_split_asm option.splits elim!: finish_committed)

lemma auto_selection_effect:
  assumes "auto_selection schema credits sel s = Ok (s1, msk, rest)"
  shows "msk = (case sel of Some m \<Rightarrow> m | None \<Rightarrow> replicate (length (fsf_features schema)) True) \<and>
    install_committed_runtime_mask s schema msk = Ok s1"
  using assms by (auto simp: auto_selection_def Let_def bindR_Ok_iff split: option.splits)

lemma commit_auto_committed:
  assumes "commit_auto lm p rt raw s r = Ok (s', r')"
  shows "\<exists>rt'. committed_by rt' s' \<and> vm_mode rt' = vm_mode rt \<and> get_vec_mask s' = effective_mask rt' \<and>
    get_active_feature_names s' = selected_feature_names rt' \<and> candidate_file_loaded rt' = False \<and>
    credits_with_dim raw (length (get_schema_features s)) ''auto-credit'' = Ok (explore_credits_full rt') \<and>
    (\<exists>sel. select_positive_credit_top_k_mask (explore_credits_full rt') (length (get_schema_features s)) (credit_top_k rt) = Ok sel \<and>
       effective_mask rt' = (case sel of Some m \<Rightarrow> m | None \<Rightarrow> replicate (length (get_schema_features s)) True))"
proof -
  let ?schema = "schema_from_state s"
  obtain credits sel s1 msk active v src reason where
      cr: "credits_with_dim raw (length (get_schema_features s)) ''auto-credit'' = Ok credits"
    and sel: "select_positive_credit_top_k_mask credits (length (get_schema_features s)) (credit_top_k rt) = Ok sel"
    and a: "auto_selection ?schema credits sel s = Ok (s1, msk, active, v, src, reason)"
    and e: "enqueue_exact_then_neighbor_candidates lm p
       (set_vec_mask_runtime_meta (auto_runtime rt ?schema credits msk active v src reason) s1) v r = Ok (s', r')"
    using assms by (auto simp: commit_auto_def Let_def bindR_Ok_iff lift_mask_def schema_from_state_def)
  define rt' where "rt' = auto_runtime rt ?schema credits msk active v src reason"
  have rt': "tpe_init_committed rt'" "mask_committed rt'" "vm_mode rt' = vm_mode rt" "effective_mask rt' = msk"
      "selected_feature_names rt' = selected_names ?schema msk" "candidate_file_loaded rt' = False" "explore_credits_full rt' = credits"
    by (simp_all add: rt'_def auto_runtime_def)
  note e = e [folded rt'_def]
  have ln: "length (fsf_features ?schema) = length (get_schema_features s)" by (simp add: schema_from_state_def)
  note eff = auto_selection_effect [OF a, unfolded ln]
  have m: "install_committed_runtime_mask s ?schema msk = Ok s1" using eff by blast
  have g: "globals s1 = globals (set_vec_mask_runtime_meta rt' s1)" by (simp add: set_vec_mask_runtime_meta_def)
  have "get_vec_mask s' = get_vec_mask s1" "get_active_feature_names s' = get_active_feature_names s1"
    using only_pool_exact [OF e] g by (auto simp: only_pool_def setter_defs getter_defs)
  moreover have "get_vec_mask s1 = msk" "get_active_feature_names s1 = selected_names ?schema msk"
    using install_mask_effect(1) [OF m] by (simp_all add: getter_defs selected_names_def)
  moreover have "committed_by rt' s'" by (rule committed_enqueue [OF e]) (simp_all add: rt')
  ultimately show ?thesis using rt' cr sel eff by (intro exI [of _ rt']) auto
qed

text \<open>
  The credits of the exploration, one per feature of the schema, none when nothing was credited, and the
  mask they must lead to: without a positive credit every feature, otherwise as many of the features with
  positive credit as there are up to \<open>k\<close>, where a marked feature has more credit than an unmarked one, or the
  same and a smaller index.
\<close>

definition explore_ledger :: "fuzz_state \<Rightarrow> f64 list" where
  "explore_ledger s = (case m_explore s of
     Some m \<Rightarrow> if cr_credits m = [] then replicate (length (get_schema_features s)) (Fin 0) else cr_credits m
   | None \<Rightarrow> replicate (length (get_schema_features s)) (Fin 0))"

definition best_mask :: "nat \<Rightarrow> f64 list \<Rightarrow> bool list \<Rightarrow> bool" where
  "best_mask k credits m \<longleftrightarrow> length m = length credits \<and>
     (if \<exists>c \<in> set credits. flt (Fin 0) c
      then (\<forall>i < length m. m ! i \<longrightarrow> flt (Fin 0) (credits ! i)) \<and>
        length (true_indices m) = min k (length (filter (flt (Fin 0)) credits)) \<and>
        (\<forall>i < length m. \<forall>j < length m. m ! i \<and> \<not> m ! j \<longrightarrow>
           flt (credits ! j) (credits ! i) \<or> (\<not> flt (credits ! i) (credits ! j) \<and> i < j))
      else m = replicate (length credits) True)"

lemma selection_best:
  assumes "select_positive_credit_top_k_mask credits d k = Ok sel"
  shows "length credits = d \<and> best_mask k credits (case sel of Some m \<Rightarrow> m | None \<Rightarrow> replicate d True)"
proof (cases sel)
  case None
  then show ?thesis using assms by (auto simp: select_None_iff best_mask_def)
next
  case (Some m)
  then have s: "length credits = d" "0 < k" "k \<le> d" "\<forall>c \<in> set credits. is_finite c \<and> fle (Fin 0) c"
    using assms by (auto simp: select_Some_iff)
  have "select_positive_credit_top_k_mask credits d k \<noteq> Ok None" using assms Some by simp
  then have "\<exists>c \<in> set credits. flt (Fin 0) c" using s by (auto simp: select_None_iff)
  then show ?thesis using top_k_mask_is_best [of credits d k m] s(1) assms Some by (auto simp: best_mask_def)
qed

lemma commit_auto_best:
  assumes "commit_auto lm p rt (case m_explore s of Some m \<Rightarrow> cr_credits m | None \<Rightarrow> []) s r = Ok (s', r')"
  shows "\<exists>rt'. committed_by rt' s' \<and> get_vec_mask s' = effective_mask rt' \<and> explore_credits_full rt' = explore_ledger s \<and>
    length (explore_ledger s) = length (get_schema_features s) \<and> best_mask (credit_top_k rt) (explore_ledger s) (get_vec_mask s') \<and>
    get_active_feature_names s' = selected_feature_names rt' \<and> \<not> candidate_file_loaded rt'"
proof -
  from commit_auto_committed [OF assms] obtain rt' sel where rt': "committed_by rt' s'" "get_vec_mask s' = effective_mask rt'"
      "get_active_feature_names s' = selected_feature_names rt'" "candidate_file_loaded rt' = False"
      "credits_with_dim (case m_explore s of Some m \<Rightarrow> cr_credits m | None \<Rightarrow> []) (length (get_schema_features s)) ''auto-credit'' = Ok (explore_credits_full rt')"
      "select_positive_credit_top_k_mask (explore_credits_full rt') (length (get_schema_features s)) (credit_top_k rt) = Ok sel"
      "effective_mask rt' = (case sel of Some m \<Rightarrow> m | None \<Rightarrow> replicate (length (get_schema_features s)) True)" by blast
  have "explore_credits_full rt' = explore_ledger s"
    using rt'(5) by (auto simp: credits_with_dim_def explore_ledger_def split: option.splits if_splits)
  then show ?thesis using rt' selection_best [OF rt'(6)] by (intro exI [of _ rt']) auto
qed

section \<open>Reachable stages\<close>

text \<open>
  A process starts with a fresh stage on any state (new or resumed); then calls of the stage alternate
  with the rest of the fuzzer, which may change everything but the stage and the iteration metadata.
\<close>

inductive tpe_reach :: "tpe_params \<Rightarrow> world \<Rightarrow> bool" for p where
  boot: "w_stage w = tpe_stage_new r \<Longrightarrow> tpe_reach p w"
| call: "tpe_reach p w \<Longrightarrow> tpe_perform p env w = Ok w' \<Longrightarrow> tpe_reach p w'"
| fuzz: "tpe_reach p w \<Longrightarrow> w_stage w' = w_stage w \<Longrightarrow> m_tpe_iter (w_state w') = m_tpe_iter (w_state w) \<Longrightarrow>
    tpe_reach p w'"

inductive_cases tpe_reachE: "tpe_reach p w"

lemma reach_inv: "tpe_reach p w \<Longrightarrow> stage_inv w"
proof (induction rule: tpe_reach.induct)
  case (boot w r)
  then show ?case by (simp add: stage_inv_def tpe_stage_new_def)
next
  case (call w env w')
  then show ?case using stage_inv_perform by blast
next
  case (fuzz w w')
  then have "calm w w'" using iter_of_meta [of "w_state w'" "w_state w"] by (simp add: calm_def)
  then show ?case using fuzz stage_inv_calm by blast
qed

text \<open>A small enabled state: one schema feature, one testcase, path weights.\<close>

definition example_spec :: feature_spec where
  "example_spec = \<lparr>fs_id = ''f1'', fs_name = ''depth'', fs_group = None, fs_aliases = None\<rparr>"

definition example_stage_state :: fuzz_state where
  "example_stage_state = (set_feat_exists True (set_tpe_satisfied True
     (set_schema_info 4 [example_spec] [True] [example_spec] example_corpus_state)))\<lparr>m_weight_mode := Some Path\<rparr>"

definition example_env :: tpe_env where
  "example_env = \<lparr>e_libm = example_libm, e_clock = (\<lambda>_. 10 ^ 9), e_recv = Received, e_ord = (\<lambda>xs. xs),
     e_fire = (\<lambda>_. Ok ()), e_fs_ok = (\<lambda>_. True)\<rparr>"

definition example_world :: "tpe_iteration \<Rightarrow> f64 list \<Rightarrow> world" where
  "example_world ti v = \<lparr>w_stage = tpe_stage_new (std_rand_with_seed 3),
     w_state = (set_current_weight_vec v example_stage_state)\<lparr>m_tpe_iter := Some ti\<rparr>, w_fs = (\<lambda>_. None)\<rparr>"

lemma example_world_facts [simp]:
  "stage_enabled (w_state (example_world ti v))" "tpe_iter (w_state (example_world ti v)) = ti"
  "phase (w_state (example_world ti v)) = ti_phase ti" "get_current_weight_vec (w_state (example_world ti v)) = v"
  "tpe_reach p (example_world ti v)"
proof -
  show "tpe_reach p (example_world ti v)" by (rule tpe_reach.boot) (simp add: example_world_def)
qed (simp_all add: example_world_def example_stage_state_def example_corpus_state_def stage_enabled_def getter_defs setter_defs
    get_feat_mode_def state_new_def tpe_iter_def upd_globals_def globals_def phase_def)

lemma example_active_quiet:
  assumes "active_start_ms ti = None" "ti_phase ti = ActiveWindow"
  shows "tpe_perform p env (example_world ti v) = Ok (restore_world (example_world ti v))"
proof -
  let ?w = "restore_world (example_world ti v)"
  have s: "w_state ?w = w_state (example_world ti v)" by (simp add: restore_world_def)
  then have "recover_phase ?w = ?w" using assms(2) by simp
  then show ?thesis using assms s by (simp add: tpe_perform_def Let_def perform_active_def)
qed

text \<open>C3. A successful commit marks the mask and the initialisation as committed, leaves every vector in use
  with the active dimension and, unless an external candidate file provides the pool or no feature is
  active, a non-empty candidate pool; committing again changes nothing. In automatic mode the credits it
  records are those of the exploration ledger, and the installed mask is the best one for these credits and
  the configured number of features, or the full mask when no credit is positive; the active features are
  the selected ones.\<close>

theorem commit_correct:
  assumes "commit_mask_and_tpe_initialization lm p s r = Ok (s', r')"
    "\<not> tpe_init_committed (vec_mask_runtime_meta s)"
  shows "tpe_init_committed (vec_mask_runtime_meta s') \<and> mask_committed (vec_mask_runtime_meta s') \<and>
    validate_committed_vector_dimensions s' = Ok () \<and>
    (\<not> candidate_file_loaded (vec_mask_runtime_meta s') \<and> 0 < get_active_dim s' \<longrightarrow> get_v_candidates s' \<noteq> []) \<and>
    length (normalized_credit_init_v (vec_mask_runtime_meta s')) = get_active_dim s' \<and>
    commit_mask_and_tpe_initialization lm p s' r' = Ok (s', r') \<and>
    (vm_mode (vec_mask_runtime_meta s) = AutoCredit \<longrightarrow>
       get_vec_mask s' = effective_mask (vec_mask_runtime_meta s') \<and>
       explore_credits_full (vec_mask_runtime_meta s') = explore_ledger s \<and>
       length (explore_ledger s) = length (get_schema_features s) \<and>
       best_mask (credit_top_k (vec_mask_runtime_meta s)) (explore_ledger s) (get_vec_mask s') \<and>
       get_active_feature_names s' = selected_feature_names (vec_mask_runtime_meta s') \<and>
       \<not> candidate_file_loaded (vec_mask_runtime_meta s'))"
proof -
  let ?rt = "vec_mask_runtime_meta s"
  let ?raw = "case m_explore s of Some m \<Rightarrow> cr_credits m | None \<Rightarrow> []"
  have val: "validate_committed_vector_dimensions s' = Ok ()" and
    c: "(case vm_mode ?rt of Full \<Rightarrow> commit_full lm p ?rt ?raw s r
       | Explicit \<Rightarrow> commit_explicit lm p ?rt ?raw s r
       | AutoCredit \<Rightarrow> commit_auto lm p ?rt ?raw s r) = Ok (s', r')"
    using assms by (auto simp: commit_mask_and_tpe_initialization_def Let_def bindR_Ok_iff)
  obtain rt' where rt': "committed_by rt' s'"
      "vm_mode ?rt = AutoCredit \<longrightarrow> get_vec_mask s' = effective_mask rt' \<and> explore_credits_full rt' = explore_ledger s \<and>
       length (explore_ledger s) = length (get_schema_features s) \<and> best_mask (credit_top_k ?rt) (explore_ledger s) (get_vec_mask s') \<and>
       get_active_feature_names s' = selected_feature_names rt' \<and> \<not> candidate_file_loaded rt'"
    using c commit_full_committed [of lm p ?rt ?raw s r s' r'] commit_explicit_committed [of lm p ?rt ?raw s r s' r']
      commit_auto_best [of lm p ?rt s r s' r']
    by (cases "vm_mode ?rt") auto
  have e: "vec_mask_runtime_meta s' = rt'" using rt'(1) by (simp add: committed_by_def vec_mask_runtime_meta_def)
  have t: "tpe_init_committed rt'" "mask_committed rt'"
      "\<not> candidate_file_loaded rt' \<and> 0 < get_active_dim s' \<longrightarrow> get_v_candidates s' \<noteq> []"
    using rt'(1) by (simp_all add: committed_by_def)
  have "length (normalized_credit_init_v rt') = get_active_dim s'"
    using validate_ok_iff [of s'] val rt'(1) t(1) by (auto simp: dims_ok_def committed_by_def)
  moreover have "commit_mask_and_tpe_initialization lm p s' r' = Ok (s', r')"
    using val t(1) e by (simp add: commit_mask_and_tpe_initialization_def)
  ultimately show ?thesis unfolding e using val rt'(2) t by blast
qed

definition example_commit_state :: fuzz_state where
  "example_commit_state = (set_vec_mask_runtime_meta (vec_mask_runtime_default\<lparr>vm_mode := AutoCredit, credit_top_k := 1\<rparr>)
     (set_schema_info 4 [example_spec, example_spec\<lparr>fs_name := ''width''\<rparr>] [True, True] [example_spec, example_spec\<lparr>fs_name := ''width''\<rparr>]
       example_stage_state))\<lparr>m_explore := Some (credit_default\<lparr>cr_credits := [Fin 1, Fin 4]\<rparr>)\<rparr>"

lemma enqueue_dims:
  "\<forall>c \<in> set (get_v_candidates s). length c = d \<Longrightarrow> length w = d \<Longrightarrow> 0 < d \<Longrightarrow>
    \<forall>c \<in> set (get_v_candidates (fst (enqueue_samples lm bw w n (s, r)))). length c = d"
proof (induction n arbitrary: s r)
  case (Suc n)
  obtain v r1 where v: "logistic_normal_sample lm w bw r = (v, r1)" by fastforce
  then have "length v = d" using sample_length [of lm w bw r] Suc.prems(2,3) by simp
  then have "\<forall>c \<in> set (get_v_candidates (push_v_candidate v s)). length c = d"
    using Suc.prems(1) by (auto simp: setter_defs getter_defs upd_globals_def globals_def)
  then show ?case using Suc.IH [of "push_v_candidate v s" r1] Suc.prems(2,3) v by simp
qed simp

lemma commit_auto_dims:
  assumes "commit_auto lm p rt raw s r = Ok (s', r')" "m_history s = None"
  shows "dims_ok s'"
proof -
  let ?schema = "schema_from_state s"
  obtain credits sel s1 msk active v src reason where
      a: "auto_selection ?schema credits sel s = Ok (s1, msk, active, v, src, reason)"
    and e: "enqueue_exact_then_neighbor_candidates lm p
       (set_vec_mask_runtime_meta (auto_runtime rt ?schema credits msk active v src reason) s1) v r = Ok (s', r')"
    using assms by (auto simp: commit_auto_def Let_def bindR_Ok_iff lift_mask_def schema_from_state_def)
  define rt' where "rt' = auto_runtime rt ?schema credits msk active v src reason"
  define s2 where "s2 = set_vec_mask_runtime_meta rt' s1"
  note e = e [folded rt'_def s2_def]
  note i = install_mask_effect [OF auto_selection_effect [OF a, THEN conjunct2]]
  have s2: "get_v_candidates s2 = []" "get_current_weight_vec s2 = []" "m_history s2 = None" "m_vec_mask s2 = Some rt'"
    "normalized_credit_init_v rt' = v"
    using i(1,3) assms(2) by (simp_all add: s2_def set_vec_mask_runtime_meta_def getter_defs rt'_def auto_runtime_def)
  have l: "length v = get_active_dim s2"
    using e by (auto simp: enqueue_exact_then_neighbor_candidates_def Let_def split: if_splits)
  have pool: "\<forall>c \<in> set (get_v_candidates s'). length c = get_active_dim s2"
  proof (cases "get_active_dim s2 = 0")
    case True
    then show ?thesis using e l s2(1) by (simp add: enqueue_exact_then_neighbor_candidates_def)
  next
    case False
    then obtain w where w: "normalize_simplex_exact v = Ok w" "(s', r') = enqueue_samples lm (tp_bw p) w (max (tp_samples p) 1) (push_v_candidate w s2, r)"
      using e l by (auto simp: enqueue_exact_then_neighbor_candidates_def enqueue_samples_around_def Let_def bindR_Ok_iff)
    have n: "length w = get_active_dim s2" using normalize_exact_length [OF w(1)] l by simp
    have "\<forall>c \<in> set (get_v_candidates (push_v_candidate w s2)). length c = get_active_dim s2"
      using s2(1) n by (auto simp: setter_defs getter_defs upd_globals_def globals_def)
    from enqueue_dims [OF this n, of lm "tp_bw p" "max (tp_samples p) 1" r] show ?thesis using False w(2) by (metis fst_conv neq0_conv)
  qed
  note same = only_pool_same [OF only_pool_exact [OF e]]
  have "current_v (globals s') = []" using same(6) s2(2) by (simp add: getter_defs)
  then show ?thesis using pool same(2,3,5) s2 l by (simp add: dims_ok_def getter_defs)
qed

lemma example_commit_parts:
  "select_positive_credit_top_k_mask [Fin 1, Fin 4] 2 1 = Ok (Some [False, True])"
  "normalize_credit_or_equal_simplex [Fin 4] = Ok ([Fin 1], True, Fin 4)" "normalize_simplex_exact [Fin 1] = Ok [Fin 1]"
  "project_vector_by_mask [Fin 1, Fin 4] [False, True] = Ok [Fin 4]"
  by code_simp+

lemma example_commit_Ok: "\<exists>s' r'. commit_mask_and_tpe_initialization example_libm (tpe_params_default\<lparr>tp_samples := 1\<rparr>) example_commit_state
      (std_rand_with_seed 0) = Ok (s', r')"
proof -
  let ?s = example_commit_state
  have g: "get_schema_features ?s = [example_spec, example_spec\<lparr>fs_name := ''width''\<rparr>]" "m_history ?s = None" "m_matrix ?s = None"
    "m_explore ?s = Some (credit_default\<lparr>cr_credits := [Fin 1, Fin 4]\<rparr>)"
    "vec_mask_runtime_meta ?s = vec_mask_runtime_default\<lparr>vm_mode := AutoCredit, credit_top_k := 1\<rparr>"
    by (simp_all add: example_commit_state_def set_vec_mask_runtime_meta_def vec_mask_runtime_meta_def example_stage_state_def
        example_corpus_state_def state_new_def getter_defs setter_defs upd_globals_def globals_def feature_globals_default_def)
  let ?schema = "schema_from_state ?s" and ?m = "[False, True]"
  have f: "fsf_features ?schema = [example_spec, example_spec\<lparr>fs_name := ''width''\<rparr>]" by (simp add: schema_from_state_def g(1))
  then have "is_Ok (install_committed_runtime_mask ?s ?schema ?m)" by (simp add: install_mask_Ok_iff)
  then obtain s1 where s1: "install_committed_runtime_mask ?s ?schema ?m = Ok s1" by (auto simp: is_Ok_def split: sum.splits)
  have d: "get_active_dim (set_vec_mask_runtime_meta rt s1) = 1" for rt
    using install_mask_effect(1) [OF s1] f by (simp add: set_vec_mask_runtime_meta_def getter_defs masked_def)
  have "auto_selection ?schema [Fin 1, Fin 4] (Some ?m) ?s = Ok (s1, ?m, [Fin 4], [Fin 1], ExploreCreditsExactFirst, None)"
    by (simp add: auto_selection_def s1 lift_mask_def example_commit_parts)
  then have "\<exists>s' r'. commit_auto example_libm (tpe_params_default\<lparr>tp_samples := 1\<rparr>) (vec_mask_runtime_default\<lparr>vm_mode := AutoCredit, credit_top_k := 1\<rparr>)
      [Fin 1, Fin 4] ?s (std_rand_with_seed 0) = Ok (s', r')"
    using example_commit_parts(1) d
    by (auto simp: commit_auto_def f Let_def credits_with_dim_def lift_mask_def numeral_2_eq_2 enqueue_exact_then_neighbor_candidates_def
        example_commit_parts(3))
  then obtain s' r' where c: "commit_auto example_libm (tpe_params_default\<lparr>tp_samples := 1\<rparr>)
      (vec_mask_runtime_default\<lparr>vm_mode := AutoCredit, credit_top_k := 1\<rparr>) [Fin 1, Fin 4] ?s (std_rand_with_seed 0) = Ok (s', r')" by blast
  have "validate_committed_vector_dimensions s' = Ok ()" unfolding validate_ok_iff by (rule commit_auto_dims [OF c g(2)])
  then show ?thesis using c g
    by (simp add: commit_mask_and_tpe_initialization_def Let_def vec_mask_runtime_default_def)
qed

theorem commit_correct_witness:
  "\<exists>s' r'. commit_mask_and_tpe_initialization example_libm (tpe_params_default\<lparr>tp_samples := 1\<rparr>) example_commit_state
      (std_rand_with_seed 0) = Ok (s', r') \<and> tpe_init_committed (vec_mask_runtime_meta s') \<and>
    explore_credits_full (vec_mask_runtime_meta s') = [Fin 1, Fin 4] \<and> best_mask 1 [Fin 1, Fin 4] (get_vec_mask s')"
proof -
  obtain s' r' where e: "commit_mask_and_tpe_initialization example_libm (tpe_params_default\<lparr>tp_samples := 1\<rparr>) example_commit_state
      (std_rand_with_seed 0) = Ok (s', r')" using example_commit_Ok by blast
  have rt: "vec_mask_runtime_meta example_commit_state = vec_mask_runtime_default\<lparr>vm_mode := AutoCredit, credit_top_k := 1\<rparr>"
    "explore_ledger example_commit_state = [Fin 1, Fin 4]"
    by (simp_all add: example_commit_state_def set_vec_mask_runtime_meta_def vec_mask_runtime_meta_def explore_ledger_def)
  then have "\<not> tpe_init_committed (vec_mask_runtime_meta example_commit_state)" by (simp add: vec_mask_runtime_default_def)
  then show ?thesis using commit_correct [OF e] e rt by auto
qed

text \<open>C1. In every reachable state a worker exists exactly while its result is awaited, the phase is then
  PendingRecompute, and the awaited result carries the current iteration: the branch that discards a
  stale result is never taken, so every received result is published.\<close>

theorem received_result_is_current:
  assumes "tpe_reach p w"
  shows "(sg_worker (w_stage w) \<longleftrightarrow> sg_rx (w_stage w) \<noteq> None) \<and>
    (\<forall>sn ord. sg_rx (w_stage w) = Some sn \<longrightarrow> phase (w_state w) = PendingRecompute \<and>
       sg_pending_iteration (w_stage w) = Some (current_iter (w_state w)) \<and>
       wr_iteration (compute_weights ord sn) = current_iter (w_state w)) \<and>
    (\<forall>env w'. sg_rx (w_stage w) \<noteq> None \<and> e_recv env = Received \<longrightarrow> poll_pending env w \<noteq> Ok (False, w'))"
proof -
  have inv: "stage_inv w" by (rule reach_inv [OF assms])
  have it: "wr_iteration (compute_weights ord sn) = cw_iteration sn" for ord sn by (simp add: compute_weights_def)
  have "poll_pending env w \<noteq> Ok (False, w')" if rx: "sg_rx (w_stage w) \<noteq> None" and e: "e_recv env = Received" for env w'
  proof -
    obtain sn where sn: "sg_rx (w_stage w) = Some sn" using rx by blast
    then have "wr_iteration (compute_weights (e_ord env) sn) = current_iter (w_state w)"
      using inv by (simp add: stage_inv_def it)
    then show ?thesis using sn e by (simp add: poll_pending_def Let_def bindR_def split: sum.splits)
  qed
  then show ?thesis using inv it by (auto simp: stage_inv_def split: option.splits)
qed

theorem received_result_is_current_witness:
  "\<not> sg_worker (w_stage (example_world tpe_iteration_default []))"
  using received_result_is_current [of tpe_params_default "example_world tpe_iteration_default []"]
  by (simp add: example_world_def tpe_stage_new_def)

text \<open>C2. A successful call moves between phases only along the edges of the phase machine (after an
  abandoned recomputation was recovered), the iteration number never decreases, and it grows, by one up
  to saturation, exactly in the calls that start a recomputation.\<close>

theorem phase_machine_correct:
  assumes "tpe_reach p w" "tpe_perform p env w = Ok w'" "stage_enabled (w_state w)"
  shows "tpe_transition (phase (w_state (recover_phase (restore_world w)))) (phase (w_state w')) \<and>
    current_iter (w_state w) \<le> current_iter (w_state w') \<and>
    (current_iter (w_state w') = (if sg_worker (w_stage w') \<and> \<not> sg_worker (w_stage w)
       then saturating_add (current_iter (w_state w)) 1 else current_iter (w_state w)))"
proof -
  let ?w1 = "recover_phase (restore_world w)"
  have inv: "stage_inv w" by (rule reach_inv [OF assms(1)])
  have st: "sg_worker (w_stage ?w1) = sg_worker (w_stage w)" "sg_rx (w_stage ?w1) = sg_rx (w_stage w)"
    using calm_restore [of w] by (simp_all add: calm_def)
  have ge: "x \<le> saturating_add x 1" for x :: u64 by (rule saturating_add_ge)
  have nw: "\<not> sg_worker (w_stage ?w1)" if "phase (w_state ?w1) \<noteq> PendingRecompute" "stage_inv ?w1"
    using that by (auto simp: stage_inv_def split: option.splits)
  have nw': "\<not> sg_worker (w_stage w')" if "phase (w_state w') \<noteq> PendingRecompute" "stage_inv w'"
    using that by (auto simp: stage_inv_def split: option.splits)
  note step = perform_step [OF assms(2) inv assms(3)]
  from step consider "calm ?w1 w'" | "started ?w1 w'" "phase (w_state ?w1) \<noteq> PendingRecompute"
    | "locked_after ?w1 w'" "phase (w_state ?w1) = ActiveWindow"
    | "stage_inv w'" "phase (w_state ?w1) = PendingRecompute" "phase (w_state w') = ActiveWindow"
      "current_iter (w_state w') = current_iter (w_state ?w1)" by blast
  then show ?thesis
  proof cases
    case 1
    then show ?thesis using step st by (cases "phase (w_state ?w1)") (auto simp: tpe_transition_def calm_def)
  next
    case 2
    then show ?thesis using step st nw ge by (cases "phase (w_state ?w1)") (auto simp: tpe_transition_def started_def)
  next
    case 3
    then show ?thesis using step st nw' by (auto simp: tpe_transition_def locked_after_def)
  next
    case 4
    then show ?thesis using step nw' by (auto simp: tpe_transition_def)
  qed
qed

theorem phase_machine_correct_witness:
  "tpe_transition ActiveWindow (phase (w_state (restore_world (example_world (tpe_iteration_default\<lparr>ti_phase := ActiveWindow\<rparr>) []))))"
proof -
  let ?ti = "tpe_iteration_default\<lparr>ti_phase := ActiveWindow\<rparr>"
  let ?w = "example_world ?ti []"
  have "active_start_ms ?ti = None" "ti_phase ?ti = ActiveWindow" by (simp_all add: tpe_iteration_default_def)
  note q = example_active_quiet [OF this, of tpe_params_default example_env "[]"]
  have "recover_phase (restore_world ?w) = restore_world ?w" "w_state (restore_world ?w) = w_state ?w"
    by (simp_all add: recover_phase_def restore_world_def)
  then show ?thesis using phase_machine_correct [OF example_world_facts(5) q] by simp
qed

text \<open>C17. In the active window nothing happens before the period is over; the first successful call after it
  leaves the phase: either a recomputation for a new vector is started or the best vector is locked.\<close>

theorem active_window_progress:
  assumes "tpe_reach p w" "tpe_perform p env w = Ok w'" "stage_enabled (w_state w)"
    "phase (w_state w) = ActiveWindow"
  shows "if window_over p (e_clock env 0) (w_state w)
    then phase (w_state w') = PendingRecompute \<and> sg_worker (w_stage w') \<or>
      phase (w_state w') = LockedBest \<and> is_locked (sg_opt (w_stage w'))
    else w' = restore_world w"
proof -
  have inv: "stage_inv (restore_world w)" using stage_inv_calm [OF reach_inv [OF assms(1)] calm_restore] .
  have s: "w_state (restore_world w) = w_state w" by (simp add: restore_world_def)
  have "recover_phase (restore_world w) = restore_world w" using assms(4) s by simp
  then have "perform_active p env (restore_world w) = Ok w'"
    using assms(2,3,4) s by (simp add: tpe_perform_def Let_def)
  from perform_active_step [OF this inv] show ?thesis
    using assms(4) s by (auto simp: started_def locked_after_def split: if_splits)
qed

theorem active_window_progress_witness:
  "window_over tpe_params_default (e_clock example_env 0)
      (w_state (example_world (tpe_iteration_default\<lparr>ti_phase := ActiveWindow\<rparr>) [])) = False"
proof -
  let ?ti = "tpe_iteration_default\<lparr>ti_phase := ActiveWindow\<rparr>"
  let ?w = "example_world ?ti []"
  have "active_start_ms ?ti = None" "ti_phase ?ti = ActiveWindow" by (simp_all add: tpe_iteration_default_def)
  note q = example_active_quiet [OF this, of tpe_params_default example_env "[]"]
  have "phase (w_state (restore_world ?w)) = ActiveWindow" by (simp add: restore_world_def)
  then show ?thesis using active_window_progress [OF example_world_facts(5) q] by (simp split: if_splits)
qed

text \<open>C18. A process that is restarted while the very first recomputation is pending never optimises again: the
  first call moves to the active window, which has no start time, and from then on every call, at any
  time and with any outcome of the environment, leaves the world as it is.\<close>

theorem restart_livelock:
  assumes "w_stage w = tpe_stage_new r" "stage_enabled (w_state w)" "phase (w_state w) = PendingRecompute"
    "get_current_weight_vec (w_state w) \<noteq> []" "active_start_ms (tpe_iter (w_state w)) = None"
  shows "\<exists>w1. (\<forall>env. tpe_perform p env w = Ok w1) \<and> phase (w_state w1) = ActiveWindow \<and>
    (\<forall>env. tpe_perform p env w1 = Ok w1)"
proof -
  let ?w1 = "recover_phase (restore_world w)"
  have st: "w_state (restore_world w) = w_state w" "\<not> sg_worker (w_stage (restore_world w))"
    using assms(1) by (simp_all add: restore_world_def tpe_stage_new_def)
  have w1: "w_state ?w1 = set_phase ActiveWindow (w_state w)" "w_stage ?w1 = w_stage (restore_world w)"
    using assms(3,4) st by (simp_all add: recover_phase_def)
  have none: "active_start_ms (tpe_iter (w_state ?w1)) = None" "phase (w_state ?w1) = ActiveWindow"
    using assms(5) w1 by (simp_all add: set_phase_def tpe_iter_def split: option.splits)
  have 1: "tpe_perform p env w = Ok ?w1" for env
    using assms(2) none by (simp add: tpe_perform_def Let_def perform_active_def)
  have once: "ts_restored_once (sg_opt (w_stage ?w1))"
    unfolding w1(2) by (auto simp: restore_world_def restore_once_def Let_def split: option.splits)
  then have "restore_world ?w1 = ?w1" by (simp add: restore_world_def restore_once_def)
  moreover have "recover_phase ?w1 = ?w1" using none(2) by simp
  moreover have "stage_enabled (w_state ?w1)"
    using assms(2) by (simp add: w1 stage_enabled_def set_phase_def getter_defs get_feat_mode_def)
  ultimately have 2: "tpe_perform p env ?w1 = Ok ?w1" for env
    using none by (simp add: tpe_perform_def Let_def perform_active_def)
  show ?thesis using 1 2 none(2) by blast
qed

theorem restart_livelock_witness:
  "\<exists>w1. tpe_perform tpe_params_default example_env (example_world (tpe_iteration_default\<lparr>ti_phase := PendingRecompute\<rparr>) [Fin 1]) = Ok w1 \<and>
     tpe_perform tpe_params_default example_env w1 = Ok w1"
proof -
  let ?ti = "tpe_iteration_default\<lparr>ti_phase := PendingRecompute\<rparr>"
  let ?w = "example_world ?ti [Fin 1]"
  have "w_stage ?w = tpe_stage_new (std_rand_with_seed 3)" by (simp add: example_world_def)
  then show ?thesis
    using restart_livelock [of ?w "std_rand_with_seed 3" tpe_params_default] by (auto simp: tpe_iteration_default_def)
qed

end
