(* ===== verification/Testcase_Score.thy ===== *)
theory Testcase_Score
  imports Weight_Refresh
begin

text \<open>
  The scores of testcases (\<open>libafl/src/schedulers/testcase_score.rs\<close>) and the constructors of the power
  schedule metadata (\<open>powersched.rs\<close>): the length-time product used by the minimizer, the power of the
  mutational stage and the weight of the weighted scheduler, with the factor of the feature scheduling.
  The functions of the external libm package are a parameter; integer arithmetic is that of a release
  build, which wraps. Shown: the power lies between zero and the havoc bound before the external
  factor is applied, the weight of sane metadata is a positive normal number, and the inputs on which
  the final assertion of the weight panics.
\<close>

section \<open>Metadata constructors\<close>

definition N_FUZZ_SIZE :: nat where
  "N_FUZZ_SIZE = 2 ^ 21"

definition scheduler_metadata_new :: "power_schedule option \<Rightarrow> scheduler_metadata" where
  "scheduler_metadata_new strat = \<lparr>sm_strat = strat, sm_exec_time = 0, sm_cycles = 0, sm_bitmap_size = 0,
     bitmap_size_log = Fin 0, bitmap_entries = 0, sm_queue_cycles = 0, n_fuzz = replicate N_FUZZ_SIZE 0\<rparr>"

definition power_schedule_new :: "base_schedule \<Rightarrow> power_schedule" where
  "power_schedule_new b = \<lparr>ps_base = b, avoid_crash = False\<rparr>"

definition with_n_fuzz_entry :: "u64 \<Rightarrow> nat \<Rightarrow> sched_testcase_metadata" where
  "with_n_fuzz_entry d n = \<lparr>st_bitmap_size = 0, handicap = 0, depth = d, n_fuzz_entry = n, cycle_and_time = (0, 0)\<rparr>"

section \<open>Scores\<close>

definition get_feat_mode_from_state :: "fuzz_state \<Rightarrow> u8" where
  "get_feat_mode_from_state s = (case m_feat_mode s of Some m \<Rightarrow> m | None \<Rightarrow> 0)"

definition sched_meta :: "testcase \<Rightarrow> error + sched_testcase_metadata" where
  "sched_meta tc = (case tc_sched tc of Some m \<Rightarrow> Ok m | None \<Rightarrow> Err (KeyNotFoundE (NoMetadata ''SchedulerTestcaseMetadata'')))"

definition scheduler_meta :: "fuzz_state \<Rightarrow> error + scheduler_metadata" where
  "scheduler_meta s = (case m_sched s of Some m \<Rightarrow> Ok m | None \<Rightarrow> Err (KeyNotFoundE (NoMetadata ''SchedulerMetadata'')))"

definition n_fuzz_at :: "scheduler_metadata \<Rightarrow> sched_testcase_metadata \<Rightarrow> error + u32" where
  "n_fuzz_at ps m = (if n_fuzz_entry m < length (n_fuzz ps) then Ok (n_fuzz ps ! n_fuzz_entry m) else Err Panic)"

definition f_of_u32 :: "u32 \<Rightarrow> f64" where
  "f_of_u32 w = f_of_nat (unat w)"

definition exec_nanos :: "testcase \<Rightarrow> error + f64" where
  "exec_nanos tc = (case exec_time tc of Some d \<Rightarrow> Ok (f_of_nat d) | None \<Rightarrow> Err (KeyNotFoundE (Text ''exec_time not set'')))"

text \<open>The length of a testcase is that of its input; an input that is not in memory is loaded first
  (argument \<open>load\<close>). A loader that leaves it unloaded makes the recursion run out of stack.\<close>

definition load_len :: "(testcase \<Rightarrow> error + testcase) \<Rightarrow> testcase \<Rightarrow> error + (nat \<times> testcase)" where
  "load_len load tc = (case tc_input tc of
     Some i \<Rightarrow> Ok (length i, tc\<lparr>cached_len := Some (length i)\<rparr>)
   | None \<Rightarrow> (case cached_len tc of
       Some l \<Rightarrow> Ok (l, tc)
     | None \<Rightarrow> bindR (load tc) (\<lambda>tc1. case tc_input tc1 of
         Some i \<Rightarrow> Ok (length i, tc1\<lparr>cached_len := Some (length i)\<rparr>)
       | None \<Rightarrow> (case cached_len tc1 of Some l \<Rightarrow> Ok (l, tc1) | None \<Rightarrow> Err Panic))))"

definition len_time_mul :: "(testcase \<Rightarrow> error + testcase) \<Rightarrow> testcase \<Rightarrow> error + (f64 \<times> testcase)" where
  "len_time_mul load tc =
     (let t = (case exec_time tc of None \<Rightarrow> 1 | Some d \<Rightarrow> d div 1000000) in
      bindR (load_len load tc) (\<lambda>(l, tc1). Ok (fmul (f_of_nat t) (f_of_nat l), tc1)))"

subsection \<open>Power\<close>

text \<open>The mean logarithmic path frequency, for the COE schedule only.\<close>

fun coe_sum :: "libm \<Rightarrow> scheduler_metadata \<Rightarrow> fuzz_state \<Rightarrow> testcase \<Rightarrow> corpus_id \<Rightarrow> corpus_id list \<Rightarrow>
    f64 \<Rightarrow> error + f64" where
  "coe_sum lm ps s entry cur [] v = Ok v"
| "coe_sum lm ps s entry cur (k # ks) v =
     bindR (if cur = k then sched_meta entry else bindR (corpus_lookup s k) sched_meta) (\<lambda>m.
     bindR (n_fuzz_at ps m) (\<lambda>h. coe_sum lm ps s entry cur ks (fadd v (m_log2 lm (f_of_u32 h)))))"

definition fuzz_mu :: "libm \<Rightarrow> scheduler_metadata \<Rightarrow> fuzz_state \<Rightarrow> testcase \<Rightarrow> error + f64" where
  "fuzz_mu lm ps s entry = (case sm_strat ps of None \<Rightarrow> Ok (Fin 0)
   | Some strat \<Rightarrow>
     if ps_base strat \<noteq> COE then Ok (Fin 0)
     else (case current (st_corpus s) of None \<Rightarrow> Err Panic
       | Some cur \<Rightarrow> bindR (corpus_ids s) (\<lambda>ks. bindR (coe_sum lm ps s entry cur ks (Fin 0)) (\<lambda>v.
           if ks = [] then Err (Unknown (Text ''Queue state corrput'')) else Ok (fdiv v (f_of_nat (length ks)))))))"

definition time_score :: "f64 \<Rightarrow> f64 \<Rightarrow> f64" where
  "time_score q avg =
     (if flt avg (fmul q (f_lit 0.1)) then Fin 10
      else if flt avg (fmul q (f_lit 0.2)) then Fin 25
      else if flt avg (fmul q (f_lit 0.5)) then Fin 50
      else if flt avg (fmul q (f_lit 0.75)) then Fin 75
      else if flt (fmul q (Fin 4)) avg then Fin 300
      else if flt (fmul q (Fin 3)) avg then Fin 200
      else if flt (fmul q (Fin 2)) avg then Fin 150
      else Fin 100)"

definition bitmap_mult :: "f64 \<Rightarrow> f64 \<Rightarrow> f64 \<Rightarrow> f64" where
  "bitmap_mult q avg score =
     (if flt avg (fmul q (f_lit 0.3)) then fmul score (Fin 3)
      else if flt avg (fmul q (f_lit 0.5)) then fmul score (Fin 2)
      else if flt avg (fmul q (f_lit 0.75)) then fmul score (f_lit 1.5)
      else if flt (fmul q (Fin 3)) avg then fmul score (f_lit 0.25)
      else if flt (fmul q (Fin 2)) avg then fmul score (f_lit 0.5)
      else if flt (fmul q (f_lit 1.5)) avg then fmul score (f_lit 0.75)
      else score)"

definition handicap_mult :: "u64 \<Rightarrow> f64 \<Rightarrow> f64" where
  "handicap_mult h score = (if 4 \<le> h then fmul score (Fin 4) else if 0 < h then fmul score (Fin 2) else score)"

definition depth_mult :: "u64 \<Rightarrow> f64 \<Rightarrow> f64" where
  "depth_mult d score =
     (if 4 \<le> d \<and> d < 8 then fmul score (Fin 2)
      else if 8 \<le> d \<and> d < 14 then fmul score (Fin 3)
      else if 14 \<le> d \<and> d < 25 then fmul score (Fin 4)
      else if 25 \<le> d then fmul score (Fin 5) else score)"

definition fast_factor :: "bool \<Rightarrow> f64 \<Rightarrow> f64" where
  "fast_factor favored lg =
     (let factor =
        (if flt lg (Fin 2) then Fin 4
         else if fle (Fin 2) lg \<and> flt lg (Fin 4) then Fin 3
         else if fle (Fin 4) lg \<and> flt lg (Fin 5) then Fin 2
         else if fle (Fin 6) lg \<and> flt lg (Fin 7) then (if \<not> favored then f_lit 0.8 else Fin 1)
         else if fle (Fin 7) lg \<and> flt lg (Fin 8) then (if \<not> favored then f_lit 0.6 else Fin 1)
         else if fle (Fin 8) lg then (if \<not> favored then f_lit 0.4 else Fin 1)
         else Fin 1)
      in if favored then fmul factor (f_lit 1.15) else factor)"

definition schedule_factor ::
  "libm \<Rightarrow> scheduler_metadata \<Rightarrow> f64 \<Rightarrow> testcase \<Rightarrow> sched_testcase_metadata \<Rightarrow> error + f64" where
  "schedule_factor lm ps mu entry tcmeta = (case sm_strat ps of None \<Rightarrow> Ok (Fin 1)
   | Some strat \<Rightarrow> (case ps_base strat of
       EXPLORE \<Rightarrow> Ok (Fin 1)
     | EXPLOIT \<Rightarrow> Ok (Fin 32)
     | COE \<Rightarrow> bindR (n_fuzz_at ps tcmeta) (\<lambda>h.
         Ok (if flt mu (m_log2 lm (f_of_u32 h)) \<and> \<not> tc_favored entry then Fin 0 else Fin 1))
     | FAST \<Rightarrow> if scheduled_count entry \<noteq> 0
         then bindR (n_fuzz_at ps tcmeta) (\<lambda>h. Ok (fast_factor (tc_favored entry) (m_log2 lm (f_of_u32 h))))
         else Ok (Fin 1)
     | LIN \<Rightarrow> bindR (n_fuzz_at ps tcmeta) (\<lambda>h.
         Ok (fdiv (f_of_nat (scheduled_count entry)) (f_of_u32 (h + 1))))
     | QUAD \<Rightarrow> bindR (n_fuzz_at ps tcmeta) (\<lambda>h.
         Ok (fdiv (f_of_nat (scheduled_count entry * scheduled_count entry mod 2 ^ 64)) (f_of_u32 (h + 1))))))"

definition base_is :: "scheduler_metadata \<Rightarrow> base_schedule \<Rightarrow> bool" where
  "base_is ps b = (case sm_strat ps of Some strat \<Rightarrow> ps_base strat = b | None \<Rightarrow> False)"

text \<open>The schedule factor applied to a score, and both bounds.\<close>

definition apply_schedule :: "scheduler_metadata \<Rightarrow> f64 \<Rightarrow> f64 \<Rightarrow> f64" where
  "apply_schedule ps factor score =
     (let s1 = (if sm_strat ps \<noteq> None \<and> \<not> base_is ps EXPLORE
            then fmul score (fdiv (if flt (Fin 32) factor then Fin 32 else factor) (Fin 1)) else score);
          s2 = (if base_is ps COE \<and> flt s1 (Fin 1) then Fin 1 else s1)
      in if flt (Fin 6400) s2 then Fin 6400 else s2)"

text \<open>The factor of the feature scheduling, when one of the listed modes is on.\<close>

definition external_mult :: "u8 set \<Rightarrow> fuzz_state \<Rightarrow> testcase \<Rightarrow> f64 \<Rightarrow> f64" where
  "external_mult modes s entry x =
     (if get_feat_mode_from_state s \<in> modes then (case tc_perf_mult entry of None \<Rightarrow> x
        | Some m \<Rightarrow> if is_finite m \<and> flt (f_lit 0.000000000001) (fabs (fsub m (Fin 1))) \<and> flt (Fin 0) m
                   then fmul x m else x)
      else x)"

definition crash_avoided :: "scheduler_metadata \<Rightarrow> testcase \<Rightarrow> bool" where
  "crash_avoided ps entry = (0 < objectives_found entry \<and>
     (case sm_strat ps of Some strat \<Rightarrow> avoid_crash strat | None \<Rightarrow> False))"

definition bounded_power :: "libm \<Rightarrow> fuzz_state \<Rightarrow> scheduler_metadata \<Rightarrow> testcase \<Rightarrow> error + f64" where
  "bounded_power lm s ps entry =
     bindR (fuzz_mu lm ps s entry) (\<lambda>mu.
     bindR (exec_nanos entry) (\<lambda>q.
       let avg_exec_us = fdiv (f_of_nat (sm_exec_time ps)) (f_of_u64 (sm_cycles ps));
           avg_bitmap_size = (if bitmap_entries ps = 0 then 1 else sm_bitmap_size ps div bitmap_entries ps)
       in bindR (sched_meta entry) (\<lambda>tcmeta.
         let score = depth_mult (depth tcmeta) (handicap_mult (handicap tcmeta)
               (bitmap_mult (f_of_u64 (st_bitmap_size tcmeta)) (f_of_u64 avg_bitmap_size) (time_score q avg_exec_us)))
         in bindR (schedule_factor lm ps mu entry tcmeta) (\<lambda>factor. Ok (apply_schedule ps factor score)))))"

definition corpus_power :: "libm \<Rightarrow> fuzz_state \<Rightarrow> testcase \<Rightarrow> error + f64" where
  "corpus_power lm s entry =
     bindR (scheduler_meta s) (\<lambda>ps.
     bindR (bounded_power lm s ps entry) (\<lambda>score.
       let s1 = external_mult {2, 3} s entry score
       in Ok (if crash_avoided ps entry then fmul s1 (Fin 0) else s1)))"

text \<open>
  The number of mutations that the power stage (\<open>stages/power.rs\<close>) spends on the current testcase of the
  state (\<open>state/mod.rs\<close>): the score cast to an integer.
\<close>

definition current_testcase_mut :: "fuzz_state \<Rightarrow> error + testcase" where
  "current_testcase_mut s = (case st_corpus_id s of
     None \<Rightarrow> Err (IllegalState (Text ''We are not currently processing a testcase''))
   | Some k \<Rightarrow> corpus_lookup s k)"

definition power_iterations :: "libm \<Rightarrow> fuzz_state \<Rightarrow> error + nat" where
  "power_iterations lm s =
     bindR (current_testcase_mut s) (\<lambda>entry.
     bindR (corpus_power lm s entry) (\<lambda>score. Ok (f_to_usize score)))"

subsection \<open>Weight\<close>

definition hits_weight :: "libm \<Rightarrow> scheduler_metadata \<Rightarrow> sched_testcase_metadata \<Rightarrow> error + f64" where
  "hits_weight lm ps tcmeta = (case sm_strat ps of None \<Rightarrow> Ok (Fin 1)
   | Some strat \<Rightarrow>
     if ps_base strat \<in> {FAST, COE, LIN, QUAD}
     then bindR (n_fuzz_at ps tcmeta) (\<lambda>h.
       Ok (if 0 < h then fdiv (Fin 1) (fadd (m_log10 lm (f_of_u32 h)) (Fin 1)) else Fin 1))
     else Ok (Fin 1))"

definition f_of_int :: "int \<Rightarrow> f64" where
  "f_of_int i = mk64 False (of_int i)"

text \<open>Everything after the early return, up to the assertion.\<close>

definition calibrated_weight ::
  "libm \<Rightarrow> fuzz_state \<Rightarrow> scheduler_metadata \<Rightarrow> sched_testcase_metadata \<Rightarrow> testcase \<Rightarrow> error + f64" where
  "calibrated_weight lm s ps tcmeta entry =
     bindR (exec_nanos entry) (\<lambda>q.
       let avg_exec_us = fdiv (f_of_nat (sm_exec_time ps)) (f_of_u64 (sm_cycles ps));
           avg_bitmap_size = fdiv (bitmap_size_log ps) (f_of_u64 (bitmap_entries ps));
           q_bitmap_size = f_of_u64 (st_bitmap_size tcmeta)
       in bindR (hits_weight lm ps tcmeta) (\<lambda>w0.
         let w1 = fmul w0 (fdiv avg_exec_us q);
             w2 = fmul w1 (fdiv (fmax (m_log2 lm q_bitmap_size) (Fin 1)) avg_bitmap_size);
             tc_ref = (case tc_map_indexes entry of Some m \<Rightarrow> f_of_int (tcref m) | None \<Rightarrow> Fin 0)
         in case m_top_rateds s of None \<Rightarrow> Err (KeyNotFoundE (Text ''You have to use Minimizer scheduler with this.''))
         | Some tops \<Rightarrow>
           let w3 = fmul w2 (fadd (Fin 1) (fdiv tc_ref (f_of_nat (Mapping.size tops))));
               w4 = (if tc_favored entry then fmul w3 (Fin 5) else w3);
               w5 = (if scheduled_count entry = 0 then fmul w4 (Fin 2) else w4);
               w6 = (if crash_avoided ps entry then fmul w5 (Fin 0) else w5)
           in Ok (external_mult {1, 3} s entry w6)))"

definition corpus_weight :: "libm \<Rightarrow> fuzz_state \<Rightarrow> testcase \<Rightarrow> error + f64" where
  "corpus_weight lm s entry =
     bindR (scheduler_meta s) (\<lambda>ps.
     bindR (sched_meta entry) (\<lambda>tcmeta.
       if scheduled_count entry = 0 \<or> sm_cycles ps = 0 then Ok (Fin 1)
       else bindR (calibrated_weight lm s ps tcmeta entry) (\<lambda>w.
         if is_normal w then Ok w else Err Panic)))"

section \<open>Magnitudes\<close>

text \<open>A positive number within a power of two of one; products and quotients add the exponents.\<close>

definition near :: "int \<Rightarrow> f64 \<Rightarrow> bool" where
  "near e x = (is_finite x \<and> pow2 (- e) \<le> val x \<and> val x \<le> pow2 e)"

lemma wf_pow2: "- 1022 \<le> e \<Longrightarrow> e \<le> 1022 \<Longrightarrow> wf64 (Fin (pow2 e))"
proof -
  assume e: "- 1022 \<le> e" "e \<le> 1022"
  have "pow2 e \<le> pow2 1022" using e by (intro pow2_mono)
  also have "\<dots> = pow2 51 * pow2 971" using pow2_add [of 51 971] by simp
  also have "\<dots> \<le> maxf" unfolding maxf_def by (intro mult_right_mono) (simp_all add: pow2_of_nat [of 51, simplified])
  finally show ?thesis using rnd_repr_fix [OF repr_pow2 [of e]] e by (simp add: abs_of_pos)
qed

lemma mk64_near:
  assumes "pow2 (- e) \<le> r" "r \<le> pow2 e" "0 \<le> e" "e \<le> 1022"
  shows "near e (mk64 s r)"
proof -
  have 1: "fle (Fin (pow2 (- e))) (mk64 s r)" by (rule mk64_ge [OF wf_pow2]) (use assms in simp_all)
  have 2: "fle (mk64 s r) (Fin (pow2 e))" by (rule mk64_le [OF wf_pow2]) (use assms in simp_all)
  have "is_finite (mk64 s r)" by (rule fle_between_finite [OF 1 2]) simp_all
  then show ?thesis using 1 2 by (simp add: near_def fle_finite)
qed

lemma near_pos: "near e x \<Longrightarrow> 0 < val x" "near e x \<Longrightarrow> is_finite x"
  using less_le_trans [OF pow2_pos] by (auto simp: near_def)

lemma near_mono: "near e x \<Longrightarrow> e \<le> e' \<Longrightarrow> near e' x"
  using pow2_mono [of e e'] pow2_mono [of "- e'" "- e"] by (auto simp: near_def)

lemma near_normal: "near e x \<Longrightarrow> e \<le> 1022 \<Longrightarrow> is_normal x"
  using pow2_mono [of "- 1022" "- e"] near_pos(1) [of e x] by (auto simp: near_def is_normal_def)

lemma fmul_near:
  assumes "near a x" "near b y" "0 \<le> a" "0 \<le> b" "a + b \<le> 1022"
  shows "near (a + b) (fmul x y)"
proof -
  have x: "is_finite x" "is_finite y" "0 < val x" "0 < val y" using assms near_pos by blast+
  have "x \<noteq> NaN" "y \<noteq> NaN" using x by auto
  then have eq: "fmul x y = mk64 (is_neg x \<noteq> is_neg y) (val x * val y)" using x by (simp add: fmul_def Let_def)
  have lo: "pow2 (- a) * pow2 (- b) \<le> val x * val y" using assms x by (intro mult_mono) (auto simp: near_def)
  have hi: "val x * val y \<le> pow2 a * pow2 b" using assms x by (intro mult_mono) (auto simp: near_def)
  have e: "- a + - b = - (a + b)" by simp
  show ?thesis unfolding eq by (rule mk64_near) (use assms lo hi pow2_add [of "- a" "- b"] pow2_add [of a b] in \<open>simp_all only: e\<close>)
qed

lemma fdiv_near:
  assumes "near a x" "near b y" "0 \<le> a" "0 \<le> b" "a + b \<le> 1022"
  shows "near (a + b) (fdiv x y)"
proof -
  have x: "is_finite x" "is_finite y" "0 < val x" "0 < val y" using assms near_pos by blast+
  have "x \<noteq> NaN" "y \<noteq> NaN" using x by auto
  then have eq: "fdiv x y = mk64 (is_neg x \<noteq> is_neg y) (val x / val y)"
    using x by (simp add: fdiv_def Let_def is_zero_def)
  have lo: "pow2 (- a) / pow2 b \<le> val x / val y" using assms x by (intro frac_le) (auto simp: near_def)
  have hi: "val x / val y \<le> pow2 a / pow2 (- b)" using assms x by (intro frac_le) (auto simp: near_def)
  have e: "- a - b = - (a + b)" "a - - b = a + b" by simp_all
  show ?thesis unfolding eq
    by (rule mk64_near) (use assms lo hi pow2_diff [of "- a" b] pow2_diff [of a "- b"] in \<open>simp_all only: e\<close>)
qed

lemma near_one: "near 0 (Fin 1)"
  by (simp add: near_def)

lemma near_of_nat:
  assumes "1 \<le> n" "n \<le> 2 ^ k" "k \<le> 1022"
  shows "near (int k) (f_of_nat n)"
  unfolding f_of_nat_def
proof (rule mk64_near)
  have "pow2 (- int k) \<le> pow2 0" by (intro pow2_mono) simp
  also have "\<dots> \<le> of_nat n" using assms(1) by simp
  finally show "pow2 (- int k) \<le> of_nat n" .
  have "(of_nat n :: rat) \<le> of_nat (2 ^ k)" using assms(2) by (simp only: of_nat_le_iff)
  then show "of_nat n \<le> pow2 (int k)" by (simp add: pow2_of_nat)
qed (use assms in simp_all)

lemma near_of_u64: "w \<noteq> 0 \<Longrightarrow> near 64 (f_of_u64 w)"
proof -
  assume "w \<noteq> 0"
  then have "1 \<le> unat w" using unat_gt_0 [of w] by simp
  moreover have "unat w < 2 ^ 64" using unsigned_less [of w] by simp
  then have "unat w \<le> 2 ^ 64" by simp
  ultimately show ?thesis unfolding f_of_u64_def using near_of_nat [of "unat w" 64] by simp
qed

text \<open>A number between zero and a bound.\<close>

definition upto_bound :: "nat \<Rightarrow> f64 \<Rightarrow> bool" where
  "upto_bound b x = (is_finite x \<and> 0 \<le> val x \<and> val x \<le> of_nat b)"

lemma wf_small: "b < 2 ^ 53 \<Longrightarrow> wf64 (Fin (of_nat b))"
  using f_of_nat_small [of b] f_of_nat_wf [of b] by simp

lemma mk64_upto: "0 \<le> r \<Longrightarrow> r \<le> of_nat b \<Longrightarrow> b < 2 ^ 53 \<Longrightarrow> upto_bound b (mk64 s r)"
proof -
  assume r: "0 \<le> r" "r \<le> of_nat b" "b < 2 ^ 53"
  have 1: "fle (Fin 0) (mk64 s r)" by (rule mk64_nonneg [OF r(1)])
  have 2: "fle (mk64 s r) (Fin (of_nat b))" by (rule mk64_le [OF wf_small [OF r(3)] r(2)])
  have "is_finite (mk64 s r)" by (rule fle_between_finite [OF 1 2]) simp_all
  then show ?thesis using 1 2 by (simp add: upto_bound_def fle_finite)
qed

lemma fmul_upto:
  assumes "upto_bound a x" "upto_bound b y" "a * b < 2 ^ 53"
  shows "upto_bound (a * b) (fmul x y)"
proof -
  have x: "is_finite x" "is_finite y" "0 \<le> val x" "0 \<le> val y" "val x \<le> of_nat a" "val y \<le> of_nat b"
    using assms by (simp_all add: upto_bound_def)
  have "x \<noteq> NaN" "y \<noteq> NaN" using x by auto
  then have eq: "fmul x y = mk64 (is_neg x \<noteq> is_neg y) (val x * val y)" using x by (simp add: fmul_def Let_def)
  have "val x * val y \<le> of_nat a * of_nat b" using x by (intro mult_mono) simp_all
  then show ?thesis unfolding eq using x assms(3) by (intro mk64_upto) simp_all
qed

lemma upto_mono: "upto_bound a x \<Longrightarrow> a \<le> b \<Longrightarrow> upto_bound b x"
proof -
  assume "upto_bound a x" "a \<le> b"
  then show ?thesis using of_nat_mono [of a b, where 'a = rat] by (simp add: upto_bound_def)
qed

lemma fmul_upto': "upto_bound a x \<Longrightarrow> upto_bound b y \<Longrightarrow> a * b < 2 ^ 53 \<Longrightarrow> a * b \<le> c \<Longrightarrow> upto_bound c (fmul x y)"
  using fmul_upto upto_mono by blast

lemma f_lit_upto: "0 \<le> r \<Longrightarrow> r \<le> of_nat b \<Longrightarrow> b < 2 ^ 53 \<Longrightarrow> upto_bound b (f_lit r)"
  unfolding f_lit_def by (rule mk64_upto)

lemma Fin_upto: "0 \<le> r \<Longrightarrow> r \<le> of_nat b \<Longrightarrow> upto_bound b (Fin r)"
  by (simp add: upto_bound_def)

lemma time_score_upto: "upto_bound 300 (time_score q avg)"
  by (simp add: time_score_def upto_bound_def)

lemma bitmap_mult_upto: "upto_bound 300 x \<Longrightarrow> upto_bound 900 (bitmap_mult q avg x)"
proof -
  assume x: "upto_bound 300 x"
  have m: "upto_bound 3 y \<Longrightarrow> upto_bound 900 (fmul x y)" for y using fmul_upto' [OF x] by simp
  have "upto_bound 900 x" using upto_mono [OF x] by simp
  then show ?thesis unfolding bitmap_mult_def by (auto intro!: m Fin_upto f_lit_upto)
qed

lemma handicap_mult_upto: "upto_bound 900 x \<Longrightarrow> upto_bound 3600 (handicap_mult h x)"
proof -
  assume x: "upto_bound 900 x"
  have m: "upto_bound 4 y \<Longrightarrow> upto_bound 3600 (fmul x y)" for y using fmul_upto' [OF x] by simp
  have "upto_bound 3600 x" using upto_mono [OF x] by simp
  then show ?thesis unfolding handicap_mult_def by (auto intro!: m Fin_upto)
qed

lemma depth_mult_upto: "upto_bound 3600 x \<Longrightarrow> upto_bound 18000 (depth_mult d x)"
proof -
  assume x: "upto_bound 3600 x"
  have m: "upto_bound 5 y \<Longrightarrow> upto_bound 18000 (fmul x y)" for y using fmul_upto' [OF x] by simp
  have "upto_bound 18000 x" using upto_mono [OF x] by simp
  then show ?thesis unfolding depth_mult_def by (auto intro!: m Fin_upto)
qed

lemma fast_factor_upto: "upto_bound 8 (fast_factor favored lg)"
proof -
  have m: "upto_bound 4 x \<Longrightarrow> upto_bound 8 (fmul x (f_lit 1.15))" for x
    using fmul_upto' [of 4 x 2 "f_lit 1.15" 8] f_lit_upto [of "1.15" 2] by simp
  have l: "upto_bound 4 (f_lit 0.8)" "upto_bound 4 (f_lit 0.6)" "upto_bound 4 (f_lit 0.4)" by (rule f_lit_upto; simp)+
  have f: "upto_bound 4 (Fin 4)" "upto_bound 4 (Fin 3)" "upto_bound 4 (Fin 2)" "upto_bound 4 (Fin 1)"
    by (simp_all add: upto_bound_def)
  show ?thesis
    using l f m [OF f(1)] m [OF f(2)] m [OF f(3)] m [OF f(4)] upto_mono [of 4 _ 8]
    by (auto simp: fast_factor_def Let_def)
qed

lemma u32_succ_pos: "(h :: u32) \<noteq> - 1 \<Longrightarrow> 1 \<le> unat (h + 1)"
proof -
  assume "h \<noteq> - 1"
  then have "h + 1 \<noteq> 0" using eq_neg_iff_add_eq_0 by blast
  then show ?thesis using unat_gt_0 [of "h + 1"] by simp
qed

lemma fdiv_u32_nonneg:
  assumes "n < 2 ^ 64" "(h :: u32) \<noteq> - 1"
  shows "fnonneg (fdiv (f_of_nat n) (f_of_u32 (h + 1)))"
proof -
  have "fle (Fin 1) (f_of_u32 (h + 1))" unfolding f_of_u32_def by (rule f_of_nat_ge_1 [OF u32_succ_pos [OF assms(2)]])
  then have "flt (Fin 0) (f_of_u32 (h + 1))" by (rule flt_fle_trans [rotated]) simp
  then show ?thesis using f_of_nat_finite [OF assms(1)] by (intro fdiv_nonneg) simp_all
qed

text \<open>A path frequency that is saturated wraps in the divisor of the LIN and QUAD schedules.\<close>

definition frequency_ok :: "scheduler_metadata \<Rightarrow> testcase \<Rightarrow> bool" where
  "frequency_ok ps entry = (scheduled_count entry < 2 ^ 64 \<and>
     (\<forall>m. tc_sched entry = Some m \<and> n_fuzz_entry m < length (n_fuzz ps) \<longrightarrow> n_fuzz ps ! n_fuzz_entry m \<noteq> - 1))"

lemma schedule_factor_nonneg:
  assumes "schedule_factor lm ps mu entry m = Ok f" "tc_sched entry = Some m" "frequency_ok ps entry"
  shows "fnonneg f"
proof -
  have h: "n_fuzz_at ps m = Ok h \<Longrightarrow> h \<noteq> - 1" for h
    using assms(2,3) by (auto simp: frequency_ok_def n_fuzz_at_def split: if_splits)
  have c: "scheduled_count entry < 2 ^ 64" using assms(3) by (simp add: frequency_ok_def)
  have sq: "scheduled_count entry * scheduled_count entry mod 2 ^ 64 < 2 ^ 64" by simp
  have ff: "fnonneg (fast_factor b lg)" for b lg
    using fast_factor_upto [of b lg] by (simp add: upto_bound_def fnonneg_iff)
  show ?thesis using assms(1) h c sq ff fdiv_u32_nonneg
    by (auto simp: schedule_factor_def bindR_Ok_iff split: option.splits base_schedule.splits if_splits)
qed

lemma clip_upto: "fnonneg f \<Longrightarrow> upto_bound 32 (if flt (Fin 32) f then Fin 32 else f)"
  by (cases f) (auto simp: upto_bound_def fle_def flt_def)

lemma fdiv_one_upto: "upto_bound 32 f \<Longrightarrow> upto_bound 32 (fdiv f (Fin 1))"
proof -
  assume f: "upto_bound 32 f"
  then have "f \<noteq> NaN" "is_finite f" by (auto simp: upto_bound_def)
  then have "fdiv f (Fin 1) = mk64 (is_neg f \<noteq> is_neg (Fin 1)) (val f)" by (simp add: fdiv_def Let_def is_zero_def)
  then show ?thesis using f mk64_upto [of "val f" 32] by (simp add: upto_bound_def)
qed

lemma apply_schedule_upto:
  assumes "upto_bound 18000 score" "fnonneg factor"
  shows "upto_bound 6400 (apply_schedule ps factor score)"
proof -
  let ?f = "fdiv (if flt (Fin 32) factor then Fin 32 else factor) (Fin 1)"
  let ?s1 = "if sm_strat ps \<noteq> None \<and> \<not> base_is ps EXPLORE then fmul score ?f else score"
  let ?s2 = "if base_is ps COE \<and> flt ?s1 (Fin 1) then Fin 1 else ?s1"
  have "upto_bound 32 ?f" by (rule fdiv_one_upto [OF clip_upto [OF assms(2)]])
  then have "upto_bound 576000 (fmul score ?f)" using fmul_upto' [OF assms(1), of 32] by simp
  moreover have "upto_bound 576000 score" by (rule upto_mono [OF assms(1)]) simp
  ultimately have "upto_bound 576000 ?s1" by simp
  then have s2: "upto_bound 576000 ?s2" by (simp add: upto_bound_def)
  have "apply_schedule ps factor score = (if flt (Fin 6400) ?s2 then Fin 6400 else ?s2)"
    by (simp only: apply_schedule_def Let_def)
  moreover have "upto_bound 6400 (if flt (Fin 6400) x then Fin 6400 else x)" if "upto_bound 576000 x" for x
    using that by (cases x) (auto simp: upto_bound_def flt_def)
  ultimately show ?thesis using s2 by presburger
qed

lemma bounded_power_upto:
  assumes "bounded_power lm s ps entry = Ok v" "frequency_ok ps entry"
  shows "upto_bound 6400 v"
proof -
  obtain m mu q f where m: "tc_sched entry = Some m" and f: "schedule_factor lm ps mu entry m = Ok f"
    and v: "v = apply_schedule ps f (depth_mult (depth m) (handicap_mult (handicap m)
       (bitmap_mult (f_of_u64 (st_bitmap_size m))
          (f_of_u64 (if bitmap_entries ps = 0 then 1 else sm_bitmap_size ps div bitmap_entries ps))
          (time_score q (fdiv (f_of_nat (sm_exec_time ps)) (f_of_u64 (sm_cycles ps)))))))"
    using assms(1) by (auto simp: bounded_power_def Let_def bindR_Ok_iff sched_meta_def split: option.splits)
  show ?thesis unfolding v
    by (intro apply_schedule_upto depth_mult_upto handicap_mult_upto bitmap_mult_upto time_score_upto
        schedule_factor_nonneg [OF f m assms(2)])
qed

section \<open>Zero and non-finite weights\<close>

text \<open>A weight that became zero, infinite or NaN never becomes normal again.\<close>

definition dead :: "f64 \<Rightarrow> bool" where
  "dead x = (\<not> is_finite x \<or> val x = 0)"

lemma dead_not_normal: "dead x \<Longrightarrow> \<not> is_normal x"
  using pow2_pos [of "- 1022"] by (auto simp: dead_def is_normal_def simp del: pow2_pos dest: less_le_trans)

lemma mk64_zero_dead: "dead (mk64 s 0)"
  by (simp add: mk64_0 dead_def)

lemma fmul_dead: "dead x \<or> dead y \<Longrightarrow> dead (fmul x y)"
proof (cases "is_finite x \<and> is_finite y")
  case True
  assume "dead x \<or> dead y"
  then have "val x * val y = 0" using True by (auto simp: dead_def)
  then show ?thesis using True mk64_zero_dead by (auto simp: fmul_def Let_def)
next
  case False
  then have "\<not> is_finite (fmul x y)"
    by (cases x; cases y) (simp_all add: fmul_def Let_def is_inf_def finf_def)
  then show ?thesis by (simp add: dead_def)
qed

lemma fdiv_zero_dead: "is_zero y \<Longrightarrow> dead (fdiv x y)"
  by (cases x; cases y) (auto simp: fdiv_def Let_def dead_def is_zero_def finf_def is_inf_def)

lemma external_mult_dead: "dead x \<Longrightarrow> dead (external_mult modes s entry x)"
  by (auto simp: external_mult_def fmul_dead split: option.splits)

text \<open>The factor of the feature scheduling may overflow, but a finite product with zero is a zero.\<close>

lemma mk64_cases: "0 \<le> r \<Longrightarrow> is_finite (mk64 b r) \<or> mk64 b r = PInf"
  using rnd_nonneg [of r] maxf_pos by (auto simp: mk64_def Let_def is_finite_def)

lemma external_mult_range:
  assumes "is_finite x" "0 \<le> val x"
  shows "is_finite (external_mult modes s entry x) \<or> external_mult modes s entry x = PInf"
proof -
  have "is_finite (fmul x m) \<or> fmul x m = PInf" if "is_finite m" "flt (Fin 0) m" for m
    using mk64_cases [of "val x * val m" "is_neg x \<noteq> is_neg m"] assms that by (auto simp: fmul_def Let_def is_finite_def is_inf_def flt_finite)
  then show ?thesis using assms(1) by (auto simp: external_mult_def split: option.splits)
qed

lemma fmul_zero_cases:
  assumes "is_finite x \<or> x = PInf"
  shows "fmul x (Fin 0) \<in> {Fin 0, NZero, NaN} \<and> (fmul x (Fin 0) = NaN \<longleftrightarrow> x = PInf)"
  using assms by (auto simp: fmul_def Let_def is_finite_def is_inf_def is_zero_def mk64_0)

lemma f_to_usize_small:
  assumes "is_finite x" "val x \<le> of_nat b" "b < 2 ^ 64"
  shows "f_to_usize x = nat \<lfloor>val x\<rfloor>"
proof (cases x)
  case (Fin r)
  then have "nat \<lfloor>r\<rfloor> \<le> b" using assms(2) by (simp add: nat_le_iff floor_le_iff)
  then show ?thesis using Fin assms(3) by (simp add: f_to_usize_def)
qed (use assms(1) in \<open>simp_all add: f_to_usize_def is_finite_def\<close>)

section \<open>Positive normal weights\<close>

text \<open>What the code relies on of the libm package: logarithms of counts stay in their ranges.\<close>

definition log_ranges :: "libm \<Rightarrow> bool" where
  "log_ranges lm = ((\<forall>x. wf64 (m_log10 lm x)) \<and> (\<forall>w. \<not> flt (Fin 1024) (m_log2 lm (f_of_u64 w))) \<and>
     (\<forall>h. 0 < h \<longrightarrow> fle (Fin 0) (m_log10 lm (f_of_u32 h)) \<and> fle (m_log10 lm (f_of_u32 h)) (Fin 400)))"

text \<open>Sane scheduler metadata: measured times, filled maps, a non-empty set of top rated testcases and an
  external factor that is not extreme.\<close>

definition sane_meta :: "fuzz_state \<Rightarrow> scheduler_metadata \<Rightarrow> testcase \<Rightarrow> bool" where
  "sane_meta s ps entry =
     (0 < sm_exec_time ps \<and> sm_exec_time ps < 2 ^ 100 \<and> near 100 (bitmap_size_log ps) \<and> bitmap_entries ps \<noteq> 0 \<and>
      (case exec_time entry of Some d \<Rightarrow> 0 < d \<and> d < 2 ^ 100 | None \<Rightarrow> False) \<and>
      (case tc_sched entry of Some m \<Rightarrow> n_fuzz_entry m < length (n_fuzz ps) | None \<Rightarrow> False) \<and>
      (case m_top_rateds s of Some t \<Rightarrow> 0 < Mapping.size t \<and> Mapping.size t < 2 ^ 64 | None \<Rightarrow> False) \<and>
      (case tc_map_indexes entry of Some m \<Rightarrow> 0 \<le> tcref m \<and> tcref m < 2 ^ 63 | None \<Rightarrow> True) \<and>
      (case tc_perf_mult entry of Some m \<Rightarrow> near 100 m | None \<Rightarrow> True))"

lemma near_1_plus:
  assumes "is_finite x" "0 \<le> val x" "val x \<le> pow2 e" "0 \<le> e" "e \<le> 1000" "wf64 x"
  shows "near (e + 1) (fadd (Fin 1) x)"
proof -
  have "pow2 (e + 1) = pow2 e + pow2 e" using pow2_of_nat [of 1] by (simp add: pow2_add)
  moreover have "1 \<le> pow2 e" using pow2_mono [of 0 e] assms by simp
  ultimately have "1 + val x \<le> pow2 (e + 1)" using assms by simp
  moreover have "pow2 (- (e + 1)) \<le> 1 + val x" using pow2_mono [of "- (e + 1)" 0] assms by simp
  ultimately have "near (e + 1) (mk64 False (1 + val x))" using assms by (intro mk64_near) simp_all
  then show ?thesis using assms by (simp add: fadd_finite)
qed

lemma fadd_comm_1: "is_finite x \<Longrightarrow> fadd x (Fin 1) = fadd (Fin 1) x"
  by (simp add: fadd_finite add.commute)

lemma hits_weight_near:
  assumes "log_ranges lm" "n_fuzz_entry m < length (n_fuzz ps)"
  shows "\<exists>w. hits_weight lm ps m = Ok w \<and> near 10 w"
proof -
  have "near 10 (fdiv (Fin 1) (fadd (m_log10 lm (f_of_u32 h)) (Fin 1)))" if "0 < h" for h :: u32
  proof -
    let ?x = "m_log10 lm (f_of_u32 h)"
    have r: "fle (Fin 0) ?x" "fle ?x (Fin 400)" using that assms(1) by (simp_all add: log_ranges_def)
    have f: "is_finite ?x" by (rule fle_between_finite [OF r]) simp_all
    have "val ?x \<le> pow2 9" using r f pow2_of_nat [of 9] by (simp add: fle_finite)
    then have "near 10 (fadd (Fin 1) ?x)" using near_1_plus [OF f, of 9] r f assms(1) by (simp add: fle_finite log_ranges_def)
    then show ?thesis using fdiv_near [OF near_one, of 10] by (simp add: fadd_comm_1 [OF f])
  qed
  moreover have "near 10 (Fin 1)" by (rule near_mono [OF near_one]) simp
  ultimately show ?thesis using assms(2)
    by (auto simp: hits_weight_def n_fuzz_at_def split: option.splits)
qed

lemma external_near:
  assumes "near e x" "0 \<le> e" "e \<le> 900" "case tc_perf_mult entry of Some m \<Rightarrow> near 100 m | None \<Rightarrow> True"
  shows "near (e + 100) (external_mult modes s entry x)"
  using assms fmul_near [OF assms(1), of 100] near_mono [OF assms(1), of "e + 100"]
  by (auto simp: external_mult_def split: option.splits)

lemma ratio_near:
  assumes "0 \<le> r" "r < 2 ^ 63" "0 < n" "n < 2 ^ 64"
  shows "near 64 (fadd (Fin 1) (fdiv (f_of_int r) (f_of_nat n)))"
proof -
  have r: "of_int r \<le> pow2 63" "(0 :: rat) \<le> of_int r"
  proof -
    have "(of_int r :: rat) \<le> of_int (2 ^ 63)" using assms(2) by (simp only: of_int_le_iff)
    then show "of_int r \<le> pow2 63" using pow2_of_nat [of 63] by simp
    show "(0 :: rat) \<le> of_int r" using assms(1) by simp
  qed
  have wf: "wf64 (Fin (pow2 63))" by (rule wf_pow2) simp_all
  have lo: "fle (Fin 0) (f_of_int r)" unfolding f_of_int_def by (rule mk64_nonneg [OF r(2)])
  have hi: "fle (f_of_int r) (Fin (pow2 63))" unfolding f_of_int_def by (rule mk64_le [OF wf r(1)])
  have fr: "is_finite (f_of_int r)" by (rule fle_between_finite [OF lo hi]) simp_all
  have n1: "fle (Fin 1) (f_of_nat n)" using assms(3) by (intro f_of_nat_ge_1) simp
  have fn: "is_finite (f_of_nat n)" by (rule f_of_nat_finite [OF assms(4)])
  have n: "1 \<le> val (f_of_nat n)" using n1 fn by (simp add: fle_finite)
  let ?q = "val (f_of_int r) / val (f_of_nat n)"
  have "pow2 63 * 1 \<le> pow2 63 * val (f_of_nat n)" by (rule mult_left_mono [OF n]) simp
  moreover have "val (f_of_int r) \<le> pow2 63 * 1" using hi fr by (simp add: fle_finite)
  ultimately have "val (f_of_int r) \<le> pow2 63 * val (f_of_nat n)" by (rule order_trans [rotated])
  then have q: "0 \<le> ?q" "?q \<le> pow2 63"
    using lo fr n by (simp_all add: fle_finite divide_le_eq)
  have eq: "fdiv (f_of_int r) (f_of_nat n) = mk64 (is_neg (f_of_int r) \<noteq> is_neg (f_of_nat n)) ?q" (is "_ = mk64 ?s _")
    using fr fn n by (auto simp: fdiv_def Let_def is_zero_def)
  have b: "fle (Fin 0) (mk64 ?s ?q)" "fle (mk64 ?s ?q) (Fin (pow2 63))"
    by (rule mk64_nonneg [OF q(1)], rule mk64_le [OF wf q(2)])
  have f: "is_finite (mk64 ?s ?q)" by (rule fle_between_finite [OF b]) simp_all
  show ?thesis unfolding eq using near_1_plus [OF f, of 63] b f by (simp add: fle_finite)
qed

lemma log2_near: "log_ranges lm \<Longrightarrow> near 10 (fmax (m_log2 lm (f_of_u64 w)) (Fin 1))"
proof -
  assume "log_ranges lm"
  then have "\<not> flt (Fin 1024) (m_log2 lm (f_of_u64 w))" by (simp add: log_ranges_def)
  moreover have "near 10 (Fin 1)" by (rule near_mono [OF near_one]) simp
  moreover have "pow2 10 = 1024" using pow2_of_nat [of 10] by simp
  moreover have "pow2 (- 10) \<le> pow2 0" by (rule pow2_mono) simp
  ultimately show ?thesis
    by (cases "m_log2 lm (f_of_u64 w)") (auto simp: near_def fmax_def flt_def)
qed

lemma calibrated_weight_near:
  assumes lm: "log_ranges lm" and sane: "sane_meta s ps entry" and m: "tc_sched entry = Some m"
    and c: "sm_cycles ps \<noteq> 0" and cnt: "scheduled_count entry \<noteq> 0" and crash: "\<not> crash_avoided ps entry"
  shows "\<exists>w. calibrated_weight lm s ps m entry = Ok w \<and> near 700 w"
proof -
  obtain d tops where d: "exec_time entry = Some d" "0 < d" "d < 2 ^ 100" and
      t: "m_top_rateds s = Some tops" "0 < Mapping.size tops" "Mapping.size tops < 2 ^ 64"
    using sane by (auto simp: sane_meta_def split: option.splits)
  obtain w0 where w0: "hits_weight lm ps m = Ok w0" "near 10 w0"
    using hits_weight_near [OF lm] sane m by (auto simp: sane_meta_def)
  let ?ref = "case tc_map_indexes entry of Some x \<Rightarrow> f_of_int (tcref x) | None \<Rightarrow> Fin 0"
  have q: "near 100 (f_of_nat d)" using near_of_nat [of d 100] d by simp
  have "near 100 (f_of_nat (sm_exec_time ps))" using near_of_nat [of "sm_exec_time ps" 100] sane by (simp add: sane_meta_def)
  then have avg: "near 164 (fdiv (f_of_nat (sm_exec_time ps)) (f_of_u64 (sm_cycles ps)))" (is "near _ ?avg")
    using fdiv_near [OF _ near_of_u64 [OF c], of 100] by simp
  have bm: "near 164 (fdiv (bitmap_size_log ps) (f_of_u64 (bitmap_entries ps)))" (is "near _ ?bm")
    using fdiv_near [OF _ near_of_u64, of 100] sane by (simp add: sane_meta_def)
  let ?w1 = "fmul w0 (fdiv ?avg (f_of_nat d))"
  let ?w2 = "fmul ?w1 (fdiv (fmax (m_log2 lm (f_of_u64 (st_bitmap_size m))) (Fin 1)) ?bm)"
  let ?w3 = "fmul ?w2 (fadd (Fin 1) (fdiv ?ref (f_of_nat (Mapping.size tops))))"
  have "near 264 (fdiv ?avg (f_of_nat d))" using fdiv_near [OF avg q] by simp
  then have w1: "near 274 ?w1" using fmul_near [OF w0(2), of 264] by simp
  have "near 174 (fdiv (fmax (m_log2 lm (f_of_u64 (st_bitmap_size m))) (Fin 1)) ?bm)"
    using fdiv_near [OF log2_near [OF lm] bm] by simp
  then have w2: "near 448 ?w2" using fmul_near [OF w1, of 174] by simp
  have z: "f_of_int 0 = Fin 0" by (simp add: f_of_int_def mk64_0)
  have "near 64 (fadd (Fin 1) (fdiv ?ref (f_of_nat (Mapping.size tops))))"
    using ratio_near [OF _ _ t(2,3), of 0] ratio_near [OF _ _ t(2,3)] sane z
    by (auto simp: sane_meta_def split: option.splits)
  then have w3: "near 512 ?w3" using fmul_near [OF w2, of 64] by simp
  have "near 3 (Fin 5)" using pow2_of_nat [of 3] pow2_mono [of "- 3" 0] by (simp add: near_def)
  then have "near 515 (fmul ?w3 (Fin 5))" using fmul_near [OF w3, of 3] by simp
  then have w4: "near 515 (if tc_favored entry then fmul ?w3 (Fin 5) else ?w3)" using near_mono [OF w3, of 515] by simp
  have "near 615 (external_mult {1, 3} s entry (if tc_favored entry then fmul ?w3 (Fin 5) else ?w3))"
    using external_near [OF w4] sane by (simp add: sane_meta_def)
  then show ?thesis using d(1) t(1) w0(1) cnt crash near_mono [of 615 _ 700]
    by (simp add: calibrated_weight_def exec_nanos_def Let_def)
qed

text \<open>A calibrated testcase and the state of its scheduler.\<close>

definition example_sched :: scheduler_metadata where
  "example_sched = \<lparr>sm_strat = Some (power_schedule_new FAST), sm_exec_time = 4000, sm_cycles = 4, sm_bitmap_size = 8,
     bitmap_size_log = Fin 4, bitmap_entries = 1, sm_queue_cycles = 0, n_fuzz = [0, 12]\<rparr>"

definition example_sched_state :: fuzz_state where
  "example_sched_state = (state_new (std_rand_with_seed 1))
     \<lparr>m_sched := Some example_sched, m_top_rateds := Some (Mapping.update 3 0 Mapping.empty)\<rparr>"

definition example_entry :: testcase where
  "example_entry = (testcase_new [1, 2])\<lparr>exec_time := Some 1000, scheduled_count := 1, tc_sched := Some (with_n_fuzz_entry 1 1)\<rparr>"

lemma example_score_facts:
  "log_ranges example_libm" "m_sched example_sched_state = Some example_sched"
  "tc_sched example_entry = Some (with_n_fuzz_entry 1 1)" "\<not> crash_avoided example_sched example_entry"
  "sane_meta example_sched_state example_sched example_entry" "frequency_ok example_sched example_entry"
proof -
  show "log_ranges example_libm" by (simp add: log_ranges_def example_libm_def)
  have "near 100 (Fin 4)" using pow2_mono [of 2 100] pow2_mono [of "- 100" 0] pow2_of_nat [of 2] by (simp add: near_def)
  then show "sane_meta example_sched_state example_sched example_entry"
    by (simp add: sane_meta_def example_sched_def example_entry_def example_sched_state_def with_n_fuzz_entry_def
        testcase_new_def Mapping.size_def keys_update)
qed (simp_all add: example_sched_state_def example_entry_def crash_avoided_def testcase_new_def frequency_ok_def
    example_sched_def with_n_fuzz_entry_def)

text \<open>The same state with two testcases, the second of which found an objective.\<close>

definition example_power_state :: fuzz_state where
  "example_power_state = example_sched_state\<lparr>st_corpus_id := Some 0, st_corpus :=
     (case corpus_add corpus_new example_entry of None \<Rightarrow> corpus_new
      | Some (c, _) \<Rightarrow> (case corpus_add c (example_entry\<lparr>objectives_found := 1\<rparr>) of None \<Rightarrow> corpus_new | Some (c2, _) \<Rightarrow> c2))\<rparr>"

definition crash_sched :: scheduler_metadata where
  "crash_sched = example_sched\<lparr>sm_strat := Some ((power_schedule_new FAST)\<lparr>avoid_crash := True\<rparr>)\<rparr>"

lemma example_power_facts:
  "current_testcase_mut example_power_state = Ok example_entry"
  "current_testcase_mut (example_power_state\<lparr>m_sched := Some crash_sched, st_corpus_id := Some 1\<rparr>) = Ok (example_entry\<lparr>objectives_found := 1\<rparr>)"
  by code_simp+



text \<open>With sane metadata the weight of a testcase exists, is positive and a normal number, so its
  assertion holds; a testcase that was never scheduled, or any testcase before the first calibration,
  has weight one.\<close>

theorem corpus_weight_normal:
  assumes "log_ranges lm" "m_sched s = Some ps" "tc_sched entry = Some m" "\<not> crash_avoided ps entry"
    "sane_meta s ps entry \<or> scheduled_count entry = 0 \<or> sm_cycles ps = 0"
  shows "\<exists>w. corpus_weight lm s entry = Ok w \<and> is_normal w \<and> flt (Fin 0) w \<and>
    (scheduled_count entry = 0 \<or> sm_cycles ps = 0 \<longrightarrow> w = Fin 1)"
proof (cases "scheduled_count entry = 0 \<or> sm_cycles ps = 0")
  case True
  then show ?thesis using assms(2,3) near_normal [OF near_one]
    by (simp add: corpus_weight_def scheduler_meta_def sched_meta_def)
next
  case False
  then obtain w where w: "calibrated_weight lm s ps m entry = Ok w" "near 700 w"
    using calibrated_weight_near [OF assms(1) _ assms(3) _ _ assms(4)] assms(5) by auto
  have "is_normal w" "flt (Fin 0) w" using near_normal [OF w(2)] near_pos [OF w(2)] by (simp_all add: flt_finite)
  then show ?thesis using w(1) assms(2,3) False by (simp add: corpus_weight_def scheduler_meta_def sched_meta_def)
qed

theorem corpus_weight_normal_witness:
  "\<exists>w. corpus_weight example_libm example_sched_state example_entry = Ok w \<and> is_normal w"
  using corpus_weight_normal [OF example_score_facts(1-4)] example_score_facts(5) by blast

text \<open>C21. On a calibrated testcase the assertion of the weight panics whenever a crashing testcase is to be
  avoided, no calibrated testcase has covered more than one map entry (the logarithms of the map sizes
  add up to zero), or the measured execution time is zero.\<close>

theorem corpus_weight_panics:
  assumes "m_sched s = Some ps" "tc_sched entry = Some m" "scheduled_count entry \<noteq> 0" "sm_cycles ps \<noteq> 0"
    "exec_time entry = Some d" "n_fuzz_entry m < length (n_fuzz ps)" "m_top_rateds s = Some tops"
    "crash_avoided ps entry \<or> bitmap_size_log ps = Fin 0 \<and> bitmap_entries ps \<noteq> 0 \<or> d = 0"
  shows "corpus_weight lm s entry = Err Panic"
proof -
  have "\<exists>w. hits_weight lm ps m = Ok w"
    using assms(6) by (auto simp: hits_weight_def n_fuzz_at_def split: option.splits)
  then obtain w0 where w0: "hits_weight lm ps m = Ok w0" by blast
  have z: "fdiv (Fin 0) (f_of_u64 n) = Fin 0 \<or> fdiv (Fin 0) (f_of_u64 n) = NZero" if "n \<noteq> 0" for n
    using near_pos [OF near_of_u64 [OF that]] by (auto simp: fdiv_def Let_def is_zero_def mk64_0)
  have "is_zero (fdiv (bitmap_size_log ps) (f_of_u64 (bitmap_entries ps)))"
    if "bitmap_size_log ps = Fin 0" "bitmap_entries ps \<noteq> 0"
    using z [OF that(2)] that(1) by (auto simp: is_zero_def)
  moreover have "is_zero (f_of_nat d)" if "d = 0" using that by (simp add: is_zero_def)
  ultimately obtain w where "calibrated_weight lm s ps m entry = Ok w" "dead w"
    using assms(5,7,8) w0 fmul_dead fdiv_zero_dead external_mult_dead
    by (auto simp: calibrated_weight_def exec_nanos_def Let_def dead_def [of "Fin 0"])
  then show ?thesis using assms(1-4) dead_not_normal
    by (simp add: corpus_weight_def scheduler_meta_def sched_meta_def)
qed

theorem corpus_weight_panics_witness:
  "corpus_weight example_libm (example_sched_state\<lparr>m_sched := Some (example_sched\<lparr>bitmap_size_log := Fin 0\<rparr>)\<rparr>)
     example_entry = Err Panic"
  by (rule corpus_weight_panics [where ps = "example_sched\<lparr>bitmap_size_log := Fin 0\<rparr>" and
        m = "with_n_fuzz_entry 1 1" and d = 1000 and tops = "Mapping.update 3 0 Mapping.empty"])
    (simp_all add: example_sched_def example_sched_state_def example_entry_def with_n_fuzz_entry_def)

end
