(* ===== verification/Schedulers.thy ===== *)
theory Schedulers
  imports Testcase_Score
begin

text \<open>
  The corpus schedulers of \<open>libafl/src/schedulers\<close>: the metadata hooks shared by the AFL-style schedulers
  (\<open>mod.rs\<close>), the weighted scheduler with its alias table (\<open>weighted.rs\<close>), the power queue
  (\<open>powersched.rs\<close>), the plain queue (\<open>queue.rs\<close>) and the random scheduler. A score is an argument (the
  generic parameter \<open>F\<close> of the source), as is the hash of the observed map. The stacks that the
  source keeps in hash maps with a counter are lists with the top first. The alias table is built over
  any arithmetic; the program uses it on floats, and the exact rationals are the reference.
\<close>

section \<open>Hooks\<close>

text \<open>\<open>state.testcase_mut(id)?\<close> with an update that needs the scheduler metadata.\<close>

definition on_add_metadata_default :: "nat \<Rightarrow> corpus_id \<Rightarrow> fuzz_state \<Rightarrow> error + fuzz_state" where
  "on_add_metadata_default lh k s =
     (let current_id = current (st_corpus s) in
      bindR (case current_id of
               Some parent \<Rightarrow> bindR (corpus_lookup s parent) (\<lambda>tc. bindR (sched_meta tc) (\<lambda>m. Ok (depth m)))
             | None \<Rightarrow> Ok 0) (\<lambda>d.
        corpus_modify k (\<lambda>tc. tc\<lparr>tc_sched := Some (with_n_fuzz_entry (d + 1) lh), parent_id := current_id\<rparr>) s))"

definition on_evaluation_metadata_default :: "u64 option \<Rightarrow> fuzz_state \<Rightarrow> error + (nat \<times> fuzz_state)" where
  "on_evaluation_metadata_default hash s = (case hash of
     None \<Rightarrow> Err (KeyNotFoundE (Text ''Observer not found''))
   | Some h \<Rightarrow> bindR (scheduler_meta s) (\<lambda>ps.
       let n = length (n_fuzz ps) in
       if n = 0 then Err Panic
       else let i = unat h mod n in
         Ok (i, s\<lparr>m_sched := Some (ps\<lparr>n_fuzz := (n_fuzz ps)[i := saturating_add (n_fuzz ps ! i) 1]\<rparr>)\<rparr>)))"

definition next_handicap :: "sched_testcase_metadata \<Rightarrow> sched_testcase_metadata" where
  "next_handicap m = (if 4 \<le> handicap m then m\<lparr>handicap := handicap m - 4\<rparr>
     else if 0 < handicap m then m\<lparr>handicap := handicap m - 1\<rparr> else m)"

definition on_next_metadata_default :: "fuzz_state \<Rightarrow> error + fuzz_state" where
  "on_next_metadata_default s = (case current (st_corpus s) of
     None \<Rightarrow> Ok s
   | Some k \<Rightarrow> bindR (corpus_lookup s k) (\<lambda>tc. bindR (sched_meta tc) (\<lambda>m.
       corpus_modify k (\<lambda>tc. tc\<lparr>tc_sched := Some (next_handicap m)\<rparr>) s)))"

definition set_current :: "corpus_id option \<Rightarrow> fuzz_state \<Rightarrow> fuzz_state" where
  "set_current k s = s\<lparr>st_corpus := (st_corpus s)\<lparr>current := k\<rparr>\<rparr>"

definition set_current_scheduled :: "corpus_id option \<Rightarrow> fuzz_state \<Rightarrow> error + fuzz_state" where
  "set_current_scheduled k s = bindR (on_next_metadata_default s) (\<lambda>s1. Ok (set_current k s1))"

definition empty_corpus :: error where
  "empty_corpus = Empty (Text ''No entries in corpus. This often implies the target is not properly instrumented.'')"

definition random_corpus_id :: "fuzz_state \<Rightarrow> error + (corpus_id \<times> fuzz_state)" where
  "random_corpus_id s =
     (let (i, r) = below std_rand_next (st_rand s) (count (st_corpus s)) in
      case corpus_nth (st_corpus s) i of None \<Rightarrow> Err Panic | Some k \<Rightarrow> Ok (k, s\<lparr>st_rand := r\<rparr>))"

definition set_parent :: "corpus_id \<Rightarrow> fuzz_state \<Rightarrow> error + fuzz_state" where
  "set_parent k s = corpus_modify k (\<lambda>tc. tc\<lparr>parent_id := current (st_corpus s)\<rparr>) s"

section \<open>Queue, power queue and random scheduler\<close>

record queue_scheduler =
  q_queue_cycles :: u64
  q_runs :: u64

definition queue_new :: queue_scheduler where
  "queue_new = \<lparr>q_queue_cycles = 0, q_runs = 0\<rparr>"

definition queue_next :: "queue_scheduler \<Rightarrow> fuzz_state \<Rightarrow> error + (corpus_id \<times> queue_scheduler \<times> fuzz_state)" where
  "queue_next q s =
     (let c = st_corpus s in
      if count c = 0 then Err empty_corpus
      else case (case Option.bind (current c) (corpus_next c) of Some k \<Rightarrow> Some k | None \<Rightarrow> corpus_first c) of
        None \<Rightarrow> Err Panic
      | Some k \<Rightarrow>
          let runs = q_runs q + 1;
              cycles = (if of_nat (count c) \<le> runs then q_queue_cycles q + 1 else q_queue_cycles q)
          in Ok (k, \<lparr>q_queue_cycles = cycles, q_runs = runs\<rparr>, set_current (Some k) s))"

record power_queue =
  pq_queue_cycles :: u64
  pq_strat :: power_schedule
  pq_last_hash :: nat

definition power_queue_new :: "power_schedule \<Rightarrow> fuzz_state \<Rightarrow> power_queue \<times> fuzz_state" where
  "power_queue_new strat s =
     (\<lparr>pq_queue_cycles = 0, pq_strat = strat, pq_last_hash = 0\<rparr>,
      if m_sched s = None then s\<lparr>m_sched := Some (scheduler_metadata_new (Some strat))\<rparr> else s)"

definition power_queue_on_add :: "power_queue \<Rightarrow> corpus_id \<Rightarrow> fuzz_state \<Rightarrow> error + fuzz_state" where
  "power_queue_on_add q k s = on_add_metadata_default (pq_last_hash q) k s"

definition power_queue_on_evaluation :: "u64 option \<Rightarrow> power_queue \<Rightarrow> fuzz_state \<Rightarrow> error + (power_queue \<times> fuzz_state)" where
  "power_queue_on_evaluation hash q s =
     bindR (on_evaluation_metadata_default hash s) (\<lambda>(i, s1). Ok (q\<lparr>pq_last_hash := i\<rparr>, s1))"

definition power_queue_next :: "power_queue \<Rightarrow> fuzz_state \<Rightarrow> error + (corpus_id \<times> power_queue \<times> fuzz_state)" where
  "power_queue_next q s =
     (let c = st_corpus s in
      if count c = 0 then Err empty_corpus
      else bindR (case current c of
          Some cur \<Rightarrow> (case corpus_next c cur of
            Some nx \<Rightarrow> Ok (nx, q, s)
          | None \<Rightarrow> let q1 = q\<lparr>pq_queue_cycles := pq_queue_cycles q + 1\<rparr> in
              bindR (scheduler_meta s) (\<lambda>ps.
                let s1 = s\<lparr>m_sched := Some (ps\<lparr>sm_queue_cycles := pq_queue_cycles q1\<rparr>)\<rparr> in
                case corpus_first (st_corpus s1) of Some k \<Rightarrow> Ok (k, q1, s1) | None \<Rightarrow> Err Panic))
        | None \<Rightarrow> (case corpus_first c of Some k \<Rightarrow> Ok (k, q, s) | None \<Rightarrow> Err Panic)) (\<lambda>(k, q1, s1).
        bindR (set_current_scheduled (Some k) s1) (\<lambda>s2. Ok (k, q1, s2))))"

definition rand_next :: "fuzz_state \<Rightarrow> error + (corpus_id \<times> fuzz_state)" where
  "rand_next s = (if count (st_corpus s) = 0 then Err empty_corpus
     else bindR (random_corpus_id s) (\<lambda>(k, s1). Ok (k, set_current (Some k) s1)))"

section \<open>The alias table\<close>

text \<open>One table construction over an arithmetic: the test \<open>p < 1\<close> and the update \<open>p + (q - 1)\<close>.\<close>

definition p_get :: "(corpus_id, 'v) mapping \<Rightarrow> corpus_id \<Rightarrow> error + 'v" where
  "p_get p k = (case Mapping.lookup p k of Some x \<Rightarrow> Ok x | None \<Rightarrow> Err Panic)"

fun divide_queues :: "('v \<Rightarrow> bool) \<Rightarrow> (corpus_id, 'v) mapping \<Rightarrow> corpus_id list \<Rightarrow> corpus_id list \<Rightarrow> corpus_id list \<Rightarrow>
    error + (corpus_id list \<times> corpus_id list)" where
  "divide_queues small p [] S L = Ok (S, L)"
| "divide_queues small p (k # ks) S L =
     bindR (p_get p k) (\<lambda>x. if small x then divide_queues small p ks (k # S) L else divide_queues small p ks S (k # L))"

function (sequential) alias_loop :: "('v \<Rightarrow> bool) \<Rightarrow> ('v \<Rightarrow> 'v \<Rightarrow> 'v) \<Rightarrow> corpus_id list \<Rightarrow> corpus_id list \<Rightarrow>
    (corpus_id, 'v) mapping \<Rightarrow> (corpus_id, 'v) mapping \<Rightarrow> (corpus_id, corpus_id) mapping \<Rightarrow>
    error + (corpus_id list \<times> corpus_id list \<times> (corpus_id, 'v) mapping \<times> (corpus_id, corpus_id) mapping)" where
  "alias_loop small upd (a # S) (g # L) p prob tab =
     (case p_get p a of Inl e \<Rightarrow> Err e | Inr pa \<Rightarrow>
      (case p_get p g of Inl e \<Rightarrow> Err e | Inr pg \<Rightarrow>
        let pg' = upd pg pa; p' = Mapping.update g pg' p;
            prob' = Mapping.update a pa prob; tab' = Mapping.update a g tab
        in if small pg' then alias_loop small upd (g # S) L p' prob' tab'
           else alias_loop small upd S (g # L) p' prob' tab'))"
| "alias_loop small upd [] L p prob tab = Ok ([], L, prob, tab)"
| "alias_loop small upd (a # S) [] p prob tab = Ok (a # S, [], prob, tab)"
  by pat_completeness auto

termination
  by (relation "measure (\<lambda>(_, _, S, L, _). length S + length L)") auto

definition alias_tables :: "('v \<Rightarrow> bool) \<Rightarrow> ('v \<Rightarrow> 'v \<Rightarrow> 'v) \<Rightarrow> 'v \<Rightarrow> corpus_id list \<Rightarrow> (corpus_id, 'v) mapping \<Rightarrow>
    error + ((corpus_id, 'v) mapping \<times> (corpus_id, corpus_id) mapping)" where
  "alias_tables small upd one rks p =
     bindR (divide_queues small p rks [] []) (\<lambda>(S, L).
     bindR (alias_loop small upd S L p Mapping.empty Mapping.empty) (\<lambda>(S1, L1, prob, tab).
       Ok (foldl (\<lambda>m k. Mapping.update k one m) (foldl (\<lambda>m k. Mapping.update k one m) prob L1) S1, tab)))"

section \<open>The weighted scheduler\<close>

record weighted_scheduler =
  table_invalidated :: bool
  wd_strat :: "power_schedule option"
  wd_last_hash :: nat
  wd_queue_cycles :: u64
  cycle_schedules :: bool

definition weighted_meta_new :: weighted_schedule_metadata where
  "weighted_meta_new = \<lparr>runs_in_current_cycle = 0, alias_table = Mapping.empty, alias_probability = Mapping.empty\<rparr>"

definition with_schedule :: "power_schedule option \<Rightarrow> fuzz_state \<Rightarrow> weighted_scheduler \<times> fuzz_state" where
  "with_schedule strat s =
     (let s1 = (if m_sched s = None then s\<lparr>m_sched := Some (scheduler_metadata_new strat)\<rparr> else s);
          s2 = (if m_weighted s1 = None then s1\<lparr>m_weighted := Some weighted_meta_new\<rparr> else s1)
      in (\<lparr>table_invalidated = True, wd_strat = strat, wd_last_hash = 0, wd_queue_cycles = 0, cycle_schedules = False\<rparr>, s2))"

definition cycling_scheduler :: "weighted_scheduler \<Rightarrow> weighted_scheduler" where
  "cycling_scheduler w = w\<lparr>cycle_schedules := True\<rparr>"

definition weighted_meta :: "fuzz_state \<Rightarrow> error + weighted_schedule_metadata" where
  "weighted_meta s = (case m_weighted s of Some m \<Rightarrow> Ok m
     | None \<Rightarrow> Err (KeyNotFoundE (NoMetadata ''WeightedScheduleMetadata'')))"

definition corpus_ids_rev :: "fuzz_state \<Rightarrow> error + corpus_id list" where
  "corpus_ids_rev s = (case ids_rev (st_corpus s) of Some ks \<Rightarrow> Ok ks | None \<Rightarrow> Err Panic)"

definition corpus_scores :: "(fuzz_state \<Rightarrow> testcase \<Rightarrow> error + f64) \<Rightarrow> fuzz_state \<Rightarrow> error + (corpus_id \<times> f64) list" where
  "corpus_scores score s =
     bindR (corpus_ids s) (map_result (\<lambda>k. bindR (corpus_lookup s k) (\<lambda>tc. bindR (score s tc) (\<lambda>w. Ok (k, w)))))"

definition scaled_weights :: "nat \<Rightarrow> (corpus_id \<times> f64) list \<Rightarrow> (corpus_id, f64) mapping" where
  "scaled_weights n kws =
     (let total_weight = foldl fadd (Fin 0) (map snd kws)
      in Mapping.of_alist (map (\<lambda>(k, w). (k, fdiv (fmul w (f_of_nat n)) total_weight)) kws))"

definition create_alias_table :: "(fuzz_state \<Rightarrow> testcase \<Rightarrow> error + f64) \<Rightarrow> fuzz_state \<Rightarrow> error + fuzz_state" where
  "create_alias_table score s =
     bindR (corpus_scores score s) (\<lambda>kws.
     bindR (corpus_ids_rev s) (\<lambda>rks.
     bindR (alias_tables (\<lambda>x. flt x (Fin 1)) (\<lambda>pg pa. fadd pg (fsub pa (Fin 1))) (Fin 1) rks
              (scaled_weights (count (st_corpus s)) kws)) (\<lambda>(prob, tab).
     bindR (weighted_meta s) (\<lambda>wm. Ok (s\<lparr>m_weighted := Some (wm\<lparr>alias_probability := prob, alias_table := tab\<rparr>)\<rparr>)))))"

definition next_base :: "base_schedule \<Rightarrow> base_schedule" where
  "next_base b = (case b of EXPLORE \<Rightarrow> EXPLOIT | COE \<Rightarrow> LIN | LIN \<Rightarrow> QUAD | FAST \<Rightarrow> COE | QUAD \<Rightarrow> FAST | EXPLOIT \<Rightarrow> EXPLORE)"

definition cycle_schedule ::
  "weighted_scheduler \<Rightarrow> scheduler_metadata \<Rightarrow> error + (weighted_scheduler \<times> scheduler_metadata)" where
  "cycle_schedule w ps = (case sm_strat ps of
     None \<Rightarrow> Err (IllegalArgument (Text ''No strategy specified when initializing scheduler; cannot cycle!''))
   | Some strat \<Rightarrow> Ok (w\<lparr>table_invalidated := True\<rparr>, ps\<lparr>sm_strat := Some (strat\<lparr>ps_base := next_base (ps_base strat)\<rparr>)\<rparr>))"

definition weighted_on_add :: "weighted_scheduler \<Rightarrow> corpus_id \<Rightarrow> fuzz_state \<Rightarrow> error + (weighted_scheduler \<times> fuzz_state)" where
  "weighted_on_add w k s =
     bindR (on_add_metadata_default (wd_last_hash w) k s) (\<lambda>s1. Ok (w\<lparr>table_invalidated := True\<rparr>, s1))"

definition weighted_on_remove :: "weighted_scheduler \<Rightarrow> weighted_scheduler" where
  "weighted_on_remove w = w\<lparr>table_invalidated := True\<rparr>"

definition weighted_on_replace :: "weighted_scheduler \<Rightarrow> weighted_scheduler" where
  "weighted_on_replace w = w\<lparr>table_invalidated := True\<rparr>"

definition weighted_on_evaluation ::
  "u64 option \<Rightarrow> weighted_scheduler \<Rightarrow> fuzz_state \<Rightarrow> error + (weighted_scheduler \<times> fuzz_state)" where
  "weighted_on_evaluation hash w s =
     bindR (on_evaluation_metadata_default hash s) (\<lambda>(i, s1). Ok (w\<lparr>wd_last_hash := i\<rparr>, s1))"

text \<open>The table is rebuilt first when it is invalid or marked dirty by the feature scheduling.\<close>

definition refresh_table ::
  "(fuzz_state \<Rightarrow> testcase \<Rightarrow> error + f64) \<Rightarrow> weighted_scheduler \<Rightarrow> fuzz_state \<Rightarrow> error + (weighted_scheduler \<times> fuzz_state)" where
  "refresh_table score w s =
     (let (w1, s1) = (case m_dirty s of
            Some m \<Rightarrow> if ad_dirty m then (w\<lparr>table_invalidated := True\<rparr>, s\<lparr>m_dirty := Some (m\<lparr>ad_dirty := False\<rparr>)\<rparr>) else (w, s)
          | None \<Rightarrow> (w, s))
      in if table_invalidated w1
         then bindR (create_alias_table score s1) (\<lambda>s2. Ok (w1\<lparr>table_invalidated := False\<rparr>, s2))
         else Ok (w1, s1))"

definition pick_alias :: "weighted_schedule_metadata \<Rightarrow> corpus_id \<Rightarrow> f64 \<Rightarrow> error + corpus_id" where
  "pick_alias wm k x = (case Mapping.lookup (alias_probability wm) k of
     None \<Rightarrow> Err Panic
   | Some pr \<Rightarrow> if flt x pr then Ok k
       else (case Mapping.lookup (alias_table wm) k of Some g \<Rightarrow> Ok g | None \<Rightarrow> Err Panic))"

definition end_of_cycle :: "weighted_scheduler \<Rightarrow> fuzz_state \<Rightarrow> error + (weighted_scheduler \<times> fuzz_state)" where
  "end_of_cycle w s =
     (let w1 = w\<lparr>wd_queue_cycles := wd_queue_cycles w + 1\<rparr> in
      bindR (scheduler_meta s) (\<lambda>ps.
        let ps1 = ps\<lparr>sm_queue_cycles := wd_queue_cycles w1\<rparr> in
        if cycle_schedules w1 then bindR (cycle_schedule w1 ps1) (\<lambda>(w2, ps2). Ok (w2, s\<lparr>m_sched := Some ps2\<rparr>))
        else Ok (w1, s\<lparr>m_sched := Some ps1\<rparr>)))"

definition weighted_next ::
  "(fuzz_state \<Rightarrow> testcase \<Rightarrow> error + f64) \<Rightarrow> weighted_scheduler \<Rightarrow> fuzz_state \<Rightarrow>
     error + (corpus_id \<times> weighted_scheduler \<times> fuzz_state)" where
  "weighted_next score w s =
     bindR (refresh_table score w s) (\<lambda>(w1, s1).
       let corpus_counts = count (st_corpus s1) in
       if corpus_counts = 0 then Err empty_corpus
       else bindR (random_corpus_id s1) (\<lambda>(k, s2).
         let (probability, r) = next_float std_rand_next (st_rand s2); s3 = s2\<lparr>st_rand := r\<rparr> in
         bindR (weighted_meta s3) (\<lambda>wm.
           let runs = runs_in_current_cycle wm;
               wm1 = wm\<lparr>runs_in_current_cycle := (if corpus_counts \<le> runs then 0 else runs + 1)\<rparr>;
               s4 = s3\<lparr>m_weighted := Some wm1\<rparr>
           in bindR (pick_alias wm1 k probability) (\<lambda>idx.
              bindR (if corpus_counts \<le> runs then end_of_cycle w1 s4 else Ok (w1, s4)) (\<lambda>(w2, s5).
              bindR (set_current_scheduled (Some idx) s5) (\<lambda>s6. Ok (idx, w2, s6)))))))"

section \<open>Totality of the alias table\<close>

lemma p_get_Ok_iff: "p_get p k = Inr x \<longleftrightarrow> Mapping.lookup p k = Some x"
  by (simp add: p_get_def split: option.splits)

lemma p_get_in: "k \<in> Mapping.keys p \<Longrightarrow> p_get p k = Inr (the (Mapping.lookup p k))"
  by (auto simp: p_get_def keys_dom_lookup)

lemma lookup_ones:
  "Mapping.lookup (foldl (\<lambda>m k. Mapping.update k one m) m ks) k = (if k \<in> set ks then Some one else Mapping.lookup m k)"
  by (induction ks arbitrary: m) (auto simp: lookup_update_fun)

lemma divide_queues_ok:
  assumes "set ks \<subseteq> Mapping.keys p" "distinct (ks @ S @ L)"
    "\<forall>k \<in> set S. small (the (Mapping.lookup p k))" "\<forall>k \<in> set L. \<not> small (the (Mapping.lookup p k))"
  shows "\<exists>S' L'. divide_queues small p ks S L = Ok (S', L') \<and> distinct (S' @ L') \<and>
    set S' \<union> set L' = set ks \<union> set S \<union> set L \<and>
    (\<forall>k \<in> set S'. small (the (Mapping.lookup p k))) \<and> (\<forall>k \<in> set L'. \<not> small (the (Mapping.lookup p k)))"
  using assms
proof (induction ks arbitrary: S L)
  case (Cons k ks)
  show ?case
  proof (cases "small (the (Mapping.lookup p k))")
    case True
    have "\<exists>S' L'. divide_queues small p ks (k # S) L = Ok (S', L') \<and> distinct (S' @ L') \<and>
        set S' \<union> set L' = set ks \<union> set (k # S) \<union> set L \<and>
        (\<forall>k \<in> set S'. small (the (Mapping.lookup p k))) \<and> (\<forall>k \<in> set L'. \<not> small (the (Mapping.lookup p k)))"
      by (rule Cons.IH) (use Cons.prems True in auto)
    then show ?thesis using Cons.prems(1) True by (auto simp: p_get_in)
  next
    case False
    have "\<exists>S' L'. divide_queues small p ks S (k # L) = Ok (S', L') \<and> distinct (S' @ L') \<and>
        set S' \<union> set L' = set ks \<union> set S \<union> set (k # L) \<and>
        (\<forall>k \<in> set S'. small (the (Mapping.lookup p k))) \<and> (\<forall>k \<in> set L'. \<not> small (the (Mapping.lookup p k)))"
      by (rule Cons.IH) (use Cons.prems False in auto)
    then show ?thesis using Cons.prems(1) False by (auto simp: p_get_in)
  qed
qed auto

text \<open>A slot is settled when it has a small probability and an alias among the given ids.\<close>

definition settled :: "('v \<Rightarrow> bool) \<Rightarrow> corpus_id set \<Rightarrow> (corpus_id, 'v) mapping \<Rightarrow> (corpus_id, corpus_id) mapping \<Rightarrow> corpus_id \<Rightarrow> bool" where
  "settled small K prob tab k = (\<exists>x g. Mapping.lookup prob k = Some x \<and> small x \<and> Mapping.lookup tab k = Some g \<and> g \<in> K)"

lemma alias_loop_total:
  assumes "set S \<union> set L \<subseteq> Mapping.keys p" "distinct (S @ L)" "set S \<union> set L \<subseteq> K"
    "\<forall>k \<in> set S. small (the (Mapping.lookup p k))"
    "\<forall>k \<in> K - (set S \<union> set L). settled small K prob tab k"
  shows "\<exists>S' L' prob' tab'. alias_loop small upd S L p prob tab = Ok (S', L', prob', tab') \<and>
    set S' \<union> set L' \<subseteq> K \<and> (\<forall>k \<in> K - (set S' \<union> set L'). settled small K prob' tab' k)"
  using assms
proof (induction small upd S L p prob tab rule: alias_loop.induct)
  case (1 small upd a S g L p prob tab)
  let ?pa = "the (Mapping.lookup p a)" and ?pg = "the (Mapping.lookup p g)"
  have get: "p_get p a = Inr ?pa" "p_get p g = Inr ?pg" using "1.prems"(1) by (simp_all add: p_get_in)
  let ?pg' = "upd ?pg ?pa"
  let ?p' = "Mapping.update g ?pg' p" and ?prob' = "Mapping.update a ?pa prob" and ?tab' = "Mapping.update a g tab"
  have set: "\<forall>k \<in> K - (set S \<union> insert g (set L)). settled small K ?prob' ?tab' k"
    using "1.prems" by (auto simp: settled_def lookup_update_fun)
  have sm: "\<forall>k \<in> set S. small (the (Mapping.lookup ?p' k))" using "1.prems"(2,4) by (auto simp: lookup_update_fun)
  show ?case
  proof (cases "small ?pg'")
    case True
    have "\<exists>S' L' prob' tab'. alias_loop small upd (g # S) L ?p' ?prob' ?tab' = Ok (S', L', prob', tab') \<and>
        set S' \<union> set L' \<subseteq> K \<and> (\<forall>k \<in> K - (set S' \<union> set L'). settled small K prob' tab' k)"
      by (rule "1.IH"(1) [OF get refl refl refl refl True]) (use "1.prems" set sm True in \<open>auto simp: lookup_update_fun\<close>)
    then show ?thesis using get True by simp
  next
    case False
    have "\<exists>S' L' prob' tab'. alias_loop small upd S (g # L) ?p' ?prob' ?tab' = Ok (S', L', prob', tab') \<and>
        set S' \<union> set L' \<subseteq> K \<and> (\<forall>k \<in> K - (set S' \<union> set L'). settled small K prob' tab' k)"
      by (rule "1.IH"(2) [OF get refl refl refl refl False]) (use "1.prems" set sm in \<open>auto simp: lookup_update_fun\<close>)
    then show ?thesis using get False by simp
  qed
qed auto

text \<open>Every id of the corpus has a probability that is one, or smaller with an alias in the corpus.\<close>

lemma alias_tables_total:
  assumes "set rks \<subseteq> Mapping.keys p" "distinct rks"
  shows "\<exists>prob tab. alias_tables small upd one rks p = Ok (prob, tab) \<and>
    (\<forall>k \<in> set rks. Mapping.lookup prob k = Some one \<or> settled small (set rks) prob tab k)"
proof -
  obtain S L where d: "divide_queues small p rks [] [] = Ok (S, L)" "distinct (S @ L)" "set S \<union> set L = set rks"
      "\<forall>k \<in> set S. small (the (Mapping.lookup p k))"
    using divide_queues_ok [of rks p "[]" "[]" small] assms by auto
  then obtain S' L' prob tab where l: "alias_loop small upd S L p Mapping.empty Mapping.empty = Ok (S', L', prob, tab)"
      "\<forall>k \<in> set rks - (set S' \<union> set L'). settled small (set rks) prob tab k"
    using alias_loop_total [of S L p "set rks" small Mapping.empty Mapping.empty upd] assms by auto
  have "\<forall>k \<in> set rks. Mapping.lookup (foldl (\<lambda>m k. Mapping.update k one m) (foldl (\<lambda>m k. Mapping.update k one m) prob L') S') k = Some one
      \<or> settled small (set rks) (foldl (\<lambda>m k. Mapping.update k one m) (foldl (\<lambda>m k. Mapping.update k one m) prob L') S') tab k"
    using l(2) by (auto simp: lookup_ones settled_def)
  then show ?thesis using d(1) l(1) by (auto simp: alias_tables_def)
qed

section \<open>The alias method over exact numbers\<close>

text \<open>The share of an id when a slot \<open>j\<close> keeps \<open>prob j\<close> for itself and gives the rest to its alias.\<close>

definition alias_share :: "corpus_id set \<Rightarrow> (corpus_id \<Rightarrow> rat) \<Rightarrow> (corpus_id, corpus_id) mapping \<Rightarrow> corpus_id \<Rightarrow> rat" where
  "alias_share D pr tab k = (\<Sum>j \<in> D. if Mapping.lookup tab j = Some k then 1 - pr j else 0)"

lemma alias_share_insert:
  assumes "finite D" "a \<notin> D"
  shows "alias_share (insert a D) (pr(a := x)) (Mapping.update a g tab) k =
    (if g = k then 1 - x else 0) + alias_share D pr tab k"
proof -
  have "alias_share D (pr(a := x)) (Mapping.update a g tab) k = alias_share D pr tab k"
    unfolding alias_share_def using assms(2) by (intro sum.cong) (auto simp: lookup_update_fun)
  then show ?thesis using assms by (simp add: alias_share_def lookup_update_fun)
qed

abbreviation exact_loop :: "corpus_id list \<Rightarrow> corpus_id list \<Rightarrow> (corpus_id, rat) mapping \<Rightarrow> (corpus_id, rat) mapping \<Rightarrow>
    (corpus_id, corpus_id) mapping \<Rightarrow> error + (corpus_id list \<times> corpus_id list \<times> (corpus_id, rat) mapping \<times> (corpus_id, corpus_id) mapping)" where
  "exact_loop \<equiv> alias_loop (\<lambda>x. x < 1) (\<lambda>g a. g + (a - 1))"

text \<open>What remains when one stack is empty is full: each remaining slot holds exactly one.\<close>

lemma leftover_full:
  fixes f :: "nat \<Rightarrow> rat"
  assumes "distinct (S @ L)" "S = [] \<or> L = []" "\<forall>k \<in> set S. f k < 1" "\<forall>k \<in> set L. 1 \<le> f k"
    "(\<Sum>k \<in> set S \<union> set L. f k) = of_nat (length S + length L)"
  shows "S = [] \<and> (\<forall>k \<in> set L. f k = 1)"
proof (cases "S = []")
  case True
  have "(\<Sum>k \<in> set L. f k - 1) = 0"
    using assms(1,5) True by (simp add: sum_subtractf distinct_card)
  moreover have "\<forall>k \<in> set L. 0 \<le> f k - 1" using assms(4) by simp
  ultimately have "\<forall>k \<in> set L. f k - 1 = 0" using sum_nonneg_eq_0_iff [of "set L" "\<lambda>k. f k - 1"] by simp
  then show ?thesis using True by simp
next
  case False
  then have "L = []" using assms(2) by simp
  have "(\<Sum>k \<in> set S. f k) < (\<Sum>k \<in> set S. 1)"
    using assms(3) False by (intro sum_strict_mono) simp_all
  then show ?thesis using assms(1,5) \<open>L = []\<close> by (simp add: distinct_card)
qed

text \<open>The state of the exact loop: \<open>D\<close> are the settled ids, \<open>f\<close> the current share of the open ones.\<close>

definition exact_inv :: "corpus_id list \<Rightarrow> corpus_id list \<Rightarrow> (corpus_id, rat) mapping \<Rightarrow> corpus_id set \<Rightarrow> bool" where
  "exact_inv S L p D = (distinct (S @ L) \<and> set S \<union> set L \<subseteq> Mapping.keys p \<and> finite D \<and> D \<inter> (set S \<union> set L) = {} \<and>
     (\<forall>k \<in> set S. 0 \<le> the (Mapping.lookup p k) \<and> the (Mapping.lookup p k) < 1) \<and>
     (\<forall>k \<in> set L. 1 \<le> the (Mapping.lookup p k)) \<and>
     (\<Sum>k \<in> set S \<union> set L. the (Mapping.lookup p k)) = of_nat (length S + length L))"

lemma exact_inv_step:
  assumes inv: "exact_inv (a # S) (g # L) p D"
  defines "pa \<equiv> the (Mapping.lookup p a)" and "pg \<equiv> the (Mapping.lookup p g)"
  defines "p' \<equiv> Mapping.update g (pg + (pa - 1)) p"
  shows "if pg + (pa - 1) < 1 then exact_inv (g # S) L p' (insert a D) else exact_inv S (g # L) p' (insert a D)"
proof -
  let ?f = "\<lambda>k. the (Mapping.lookup p k)" and ?f' = "\<lambda>k. the (Mapping.lookup p' k)"
  have d: "a \<notin> set S" "a \<notin> set L" "a \<noteq> g" "g \<notin> set S" "g \<notin> set L" "set S \<inter> set L = {}"
    using inv by (auto simp: exact_inv_def)
  have f': "?f' g = pg + (pa - 1)" "k \<noteq> g \<Longrightarrow> ?f' k = ?f k" for k by (simp_all add: p'_def lookup_update_fun)
  have fS: "?f' k = ?f k" if "k \<in> set S \<union> set L" for k using d that by (intro f'(2)) auto
  have "(\<Sum>k \<in> set S \<union> set L. ?f' k) = (\<Sum>k \<in> set S \<union> set L. ?f k)" by (rule sum.cong [OF refl fS])
  then have "(\<Sum>k \<in> insert g (set S \<union> set L). ?f' k) = pg + (pa - 1) + (\<Sum>k \<in> set S \<union> set L. ?f k)"
    using d f'(1) by simp
  moreover have "(\<Sum>k \<in> set (a # S) \<union> set (g # L). ?f k) = pa + (pg + (\<Sum>k \<in> set S \<union> set L. ?f k))"
    using d by (simp add: pa_def pg_def insert_commute)
  ultimately have s: "(\<Sum>k \<in> insert g (set S \<union> set L). ?f' k) = of_nat (Suc (length S + length L))"
    using inv by (simp add: exact_inv_def)
  have b: "0 \<le> pg + (pa - 1)" using inv by (simp add: exact_inv_def pa_def pg_def)
  show ?thesis using inv d s b f'(1) fS by (auto simp: exact_inv_def p'_def)
qed

lemma exact_loop_share:
  assumes "exact_loop S L p prob tab = Ok (S', L', prob', tab')" "exact_inv S L p D"
    "Mapping.keys prob = D" "Mapping.keys tab = D" "\<forall>k \<in> D. 0 \<le> the (Mapping.lookup prob k) \<and> the (Mapping.lookup prob k) < 1"
  shows "S' = [] \<and> set L' \<subseteq> set S \<union> set L \<and> Mapping.keys prob' = D \<union> (set S \<union> set L - set L') \<and>
    Mapping.keys tab' = Mapping.keys prob' \<and>
    (\<forall>k \<in> Mapping.keys prob'. 0 \<le> the (Mapping.lookup prob' k) \<and> the (Mapping.lookup prob' k) < 1) \<and>
    (\<forall>k \<in> D \<union> set S \<union> set L. (if k \<in> set L' then 1 else the (Mapping.lookup prob' k)) +
        alias_share (Mapping.keys prob') (\<lambda>j. the (Mapping.lookup prob' j)) tab' k =
      (if k \<in> D then the (Mapping.lookup prob k) else the (Mapping.lookup p k)) +
        alias_share D (\<lambda>j. the (Mapping.lookup prob j)) tab k)"
  using assms
proof (induction "\<lambda>x. x < (1 :: rat)" "\<lambda>g a. g + (a - 1 :: rat)" S L p prob tab arbitrary: D rule: alias_loop.induct)
  case (1 a S g L p prob tab)
  let ?pa = "the (Mapping.lookup p a)" and ?pg = "the (Mapping.lookup p g)"
  let ?pg' = "?pg + (?pa - 1)"
  let ?p' = "Mapping.update g ?pg' p" and ?prob' = "Mapping.update a ?pa prob" and ?tab' = "Mapping.update a g tab"
  let ?D' = "insert a D"
  have get: "p_get p a = Inr ?pa" "p_get p g = Inr ?pg" using "1.prems"(2) by (simp_all add: exact_inv_def p_get_in)
  have d: "a \<notin> D" "g \<notin> D" "finite D" "a \<noteq> g" "a \<notin> set S" "a \<notin> set L" "g \<notin> set S" "g \<notin> set L"
    using "1.prems"(2) by (auto simp: exact_inv_def)
  have pa: "0 \<le> ?pa" "?pa < 1" using "1.prems"(2) by (simp_all add: exact_inv_def)
  have keys: "Mapping.keys ?prob' = ?D'" "Mapping.keys ?tab' = ?D'"
    using "1.prems"(3,4) by (simp_all add: keys_update)
  have small: "\<forall>k \<in> ?D'. 0 \<le> the (Mapping.lookup ?prob' k) \<and> the (Mapping.lookup ?prob' k) < 1"
    using "1.prems"(5) pa by (auto simp: lookup_update_fun)
  have pr: "(\<lambda>j. the (Mapping.lookup ?prob' j)) = (\<lambda>j. the (Mapping.lookup prob j))(a := ?pa)"
    by (rule ext) (simp add: lookup_update_fun)
  have share: "alias_share ?D' (\<lambda>j. the (Mapping.lookup ?prob' j)) ?tab' k =
      (if g = k then 1 - ?pa else 0) + alias_share D (\<lambda>j. the (Mapping.lookup prob j)) tab k" for k
    unfolding pr by (rule alias_share_insert [OF d(3,1)])
  let ?F = "\<lambda>k. (if k \<in> set L' then 1 else the (Mapping.lookup prob' k)) +
      alias_share (Mapping.keys prob') (\<lambda>j. the (Mapping.lookup prob' j)) tab' k"
  let ?G = "\<lambda>k. (if k \<in> D then the (Mapping.lookup prob k) else the (Mapping.lookup p k)) +
      alias_share D (\<lambda>j. the (Mapping.lookup prob j)) tab k"
  let ?G' = "\<lambda>k. (if k \<in> ?D' then the (Mapping.lookup ?prob' k) else the (Mapping.lookup ?p' k)) +
      alias_share ?D' (\<lambda>j. the (Mapping.lookup ?prob' j)) ?tab' k"
  have pot: "?G' k = ?G k" for k
    unfolding share using d by (auto simp: lookup_update_fun)
  have fin: ?case if IH: "S' = [] \<and> set L' \<subseteq> A \<union> B \<and> Mapping.keys prob' = ?D' \<union> (A \<union> B - set L') \<and>
      Mapping.keys tab' = Mapping.keys prob' \<and>
      (\<forall>k \<in> Mapping.keys prob'. 0 \<le> the (Mapping.lookup prob' k) \<and> the (Mapping.lookup prob' k) < 1) \<and>
      (\<forall>k \<in> ?D' \<union> A \<union> B. ?F k = ?G' k)" and X: "A \<union> B = insert g (set S \<union> set L)" for A B
  proof -
    have K: "?D' \<union> (A \<union> B - set L') = D \<union> (set (a # S) \<union> set (g # L) - set L')"
      "?D' \<union> A \<union> B = D \<union> set (a # S) \<union> set (g # L)" "A \<union> B \<subseteq> set (a # S) \<union> set (g # L)" using d IH X by auto
    show ?thesis using IH [unfolded K pot] K(3) by (intro conjI ballI) (blast | simp only:)+
  qed
  note step = exact_inv_step [OF "1.prems"(2)]
  show ?case
  proof (cases "?pg' < 1")
    case True
    have run: "exact_loop (g # S) L ?p' ?prob' ?tab' = Ok (S', L', prob', tab')" using "1.prems"(1) get True by simp
    have inv: "exact_inv (g # S) L ?p' ?D'" using step True by simp
    show ?thesis by (rule fin [OF "1.hyps"(1) [OF get refl refl refl refl True run inv keys small]]) simp
  next
    case False
    have run: "exact_loop S (g # L) ?p' ?prob' ?tab' = Ok (S', L', prob', tab')" using "1.prems"(1) get False by simp
    have inv: "exact_inv S (g # L) ?p' ?D'" using step False by simp
    show ?thesis by (rule fin [OF "1.hyps"(2) [OF get refl refl refl refl False run inv keys small]]) simp
  qed
next
  case (2 L p prob tab)
  have "\<forall>k \<in> set L. the (Mapping.lookup p k) = 1"
    using leftover_full [of "[]" L "\<lambda>k. the (Mapping.lookup p k)"] "2"(2) by (simp add: exact_inv_def)
  moreover have "D \<inter> set L = {}" using "2"(2) by (simp add: exact_inv_def)
  ultimately show ?case using 2 by auto
next
  case (3 a S p prob tab)
  have "T = []" if "exact_inv T [] p D" for T
    using leftover_full [of T "[]" "\<lambda>k. the (Mapping.lookup p k)"] that by (simp add: exact_inv_def)
  then show ?case using 3 by blast
qed

text \<open>The probability that a uniform slot and a uniform threshold select an id.\<close>

definition pick_share :: "corpus_id list \<Rightarrow> (corpus_id, rat) mapping \<Rightarrow> (corpus_id, corpus_id) mapping \<Rightarrow> corpus_id \<Rightarrow> rat" where
  "pick_share ks prob tab k =
     (\<Sum>j \<in> set ks. (if j = k then the (Mapping.lookup prob j) else 0) +
        (if Mapping.lookup tab j = Some k then 1 - the (Mapping.lookup prob j) else 0)) / of_nat (length ks)"

lemma exact_divide:
  fixes p :: "(corpus_id, rat) mapping"
  assumes "distinct ks" "set ks \<subseteq> Mapping.keys p" "\<forall>k \<in> set ks. 0 \<le> the (Mapping.lookup p k)"
    "(\<Sum>k \<in> set ks. the (Mapping.lookup p k)) = of_nat (length ks)"
  shows "\<exists>S L. divide_queues (\<lambda>x. x < 1) p (rev ks) [] [] = Ok (S, L) \<and> exact_inv S L p {} \<and> set S \<union> set L = set ks"
proof -
  obtain S L where d: "divide_queues (\<lambda>x. x < 1) p (rev ks) [] [] = Ok (S, L)" "distinct (S @ L)" "set S \<union> set L = set ks"
      "\<forall>k \<in> set S. the (Mapping.lookup p k) < 1" "\<forall>k \<in> set L. \<not> the (Mapping.lookup p k) < 1"
    using divide_queues_ok [of "rev ks" p "[]" "[]" "\<lambda>x. x < 1"] assms(1,2) by auto
  have "length S + length L = length ks"
    using distinct_card [OF d(2)] distinct_card [OF assms(1)] d(3) by simp
  then have "exact_inv S L p {}" using d assms by (auto simp: exact_inv_def)
  then show ?thesis using d by blast
qed

lemma alias_share_extend:
  assumes "finite K" "D \<subseteq> K" "Mapping.keys tab = D" "\<forall>j \<in> D. pr j = pr' j"
  shows "alias_share K pr tab k = alias_share D pr' tab k"
proof -
  have "Mapping.lookup tab j = None" if "j \<notin> D" for j using that assms(3) by (auto simp: keys_dom_lookup)
  then have "alias_share K pr tab k = alias_share D pr tab k"
    unfolding alias_share_def using assms(1,2) by (intro sum.mono_neutral_right) auto
  also have "\<dots> = alias_share D pr' tab k" unfolding alias_share_def using assms(4) by (intro sum.cong) auto
  finally show ?thesis .
qed

lemma alias_tables_exact:
  fixes p :: "(corpus_id, rat) mapping"
  assumes "distinct ks" "set ks \<subseteq> Mapping.keys p" "\<forall>k \<in> set ks. 0 \<le> the (Mapping.lookup p k)"
    "(\<Sum>k \<in> set ks. the (Mapping.lookup p k)) = of_nat (length ks)"
  shows "\<exists>prob tab. alias_tables (\<lambda>x. x < 1) (\<lambda>g a. g + (a - 1)) 1 (rev ks) p = Ok (prob, tab) \<and>
    (\<forall>k \<in> set ks. 0 \<le> the (Mapping.lookup prob k) \<and> the (Mapping.lookup prob k) \<le> 1 \<and>
       pick_share ks prob tab k = the (Mapping.lookup p k) / of_nat (length ks))"
proof -
  obtain S L where d: "divide_queues (\<lambda>x. x < 1) p (rev ks) [] [] = Ok (S, L)" "exact_inv S L p {}" "set S \<union> set L = set ks"
    using exact_divide [OF assms] by blast
  obtain S' L' prob' tab where l: "exact_loop S L p Mapping.empty Mapping.empty = Ok (S', L', prob', tab)"
    using alias_loop_total [of S L p "set ks" "\<lambda>x. x < 1" Mapping.empty Mapping.empty] d assms
    by (fastforce simp: exact_inv_def)
  note x = exact_loop_share [OF l d(2), simplified, unfolded d(3)]
  define prob where "prob = foldl (\<lambda>m k. Mapping.update k 1 m) prob' L'"
  have pr: "the (Mapping.lookup prob j) = (if j \<in> set L' then 1 else the (Mapping.lookup prob' j))" for j
    by (simp add: prob_def lookup_ones)
  have keys: "Mapping.keys prob' = set ks - set L'" "Mapping.keys tab = set ks - set L'" using x by auto
  have "pick_share ks prob tab k = the (Mapping.lookup p k) / of_nat (length ks)" if k: "k \<in> set ks" for k
  proof -
    have "alias_share (set ks) (\<lambda>j. the (Mapping.lookup prob j)) tab k =
        alias_share (set ks - set L') (\<lambda>j. the (Mapping.lookup prob' j)) tab k"
      by (rule alias_share_extend) (auto simp: keys pr)
    moreover have "(if k \<in> set L' then 1 else the (Mapping.lookup prob' k)) +
        alias_share (set ks - set L') (\<lambda>j. the (Mapping.lookup prob' j)) tab k = the (Mapping.lookup p k)"
      using x k by (auto simp: keys alias_share_def [of "{}"] Un_assoc)
    ultimately show ?thesis using k
      by (simp add: pick_share_def sum.distrib alias_share_def [symmetric] pr sum.delta)
  qed
  moreover have "0 \<le> the (Mapping.lookup prob k) \<and> the (Mapping.lookup prob k) \<le> 1" if "k \<in> set ks" for k
    using x that by (auto simp: pr keys less_imp_le)
  moreover have "alias_tables (\<lambda>x. x < 1) (\<lambda>g a. g + (a - 1)) 1 (rev ks) p = Ok (prob, tab)"
    using d(1) l x by (simp add: alias_tables_def prob_def)
  ultimately show ?thesis by blast
qed

section \<open>The contract of a scheduler\<close>

definition st_ids :: "fuzz_state \<Rightarrow> corpus_id list" where
  "st_ids s = skeys (enabled (storage (st_corpus s)))"

text \<open>Scheduling changes the scheduler metadata of testcases, the current id and scheduler-wide metadata only.\<close>

definition same_pool :: "fuzz_state \<Rightarrow> fuzz_state \<Rightarrow> bool" where
  "same_pool s s' = (st_ids s' = st_ids s \<and> m_top_rateds s' = m_top_rateds s \<and>
     (wf_corpus (st_corpus s) \<longrightarrow> wf_corpus (st_corpus s')) \<and>
     (\<forall>k tc. corpus_lookup s k = Ok tc \<longrightarrow> (\<exists>x. corpus_lookup s' k = Ok (tc\<lparr>tc_sched := x\<rparr>))))"

lemma sched_self [simp]: "\<exists>x. tc = tc\<lparr>tc_sched := x\<rparr>" for tc :: testcase
  by (rule exI [of _ "tc_sched tc"]) simp

lemma same_pool_refl [simp]: "same_pool s s"
  by (simp add: same_pool_def)

lemma same_pool_trans [trans]:
  assumes "same_pool a b" "same_pool b c"
  shows "same_pool a c"
proof -
  have "\<exists>x. corpus_lookup c k = Ok (tc\<lparr>tc_sched := x\<rparr>)" if "corpus_lookup a k = Ok tc" for k tc
  proof -
    obtain x where "corpus_lookup b k = Ok (tc\<lparr>tc_sched := x\<rparr>)" using assms(1) \<open>corpus_lookup a k = Ok tc\<close> by (auto simp: same_pool_def)
    then obtain y where "corpus_lookup c k = Ok ((tc\<lparr>tc_sched := x\<rparr>)\<lparr>tc_sched := y\<rparr>)" using assms(2) unfolding same_pool_def by blast
    then show ?thesis by auto
  qed
  then show ?thesis using assms by (simp add: same_pool_def)
qed

lemma same_pool_corpus: "st_corpus s' = st_corpus s \<Longrightarrow> m_top_rateds s' = m_top_rateds s \<Longrightarrow> same_pool s s'"
  by (simp add: same_pool_def st_ids_def corpus_lookup_def)

lemma same_pool_set_current [simp]: "same_pool s (set_current k s)"
  by (simp add: same_pool_def set_current_def st_ids_def corpus_lookup_def corpus_get_def)

lemma modify_ids:
  assumes "corpus_modify k f s = Ok s'"
  shows "st_ids s' = st_ids s"
  using assms by (auto simp: corpus_modify_def st_ids_def update_testcase_def bindR_Ok_iff split: option.splits)

lemma modify_sched_same_pool:
  assumes "corpus_modify k (\<lambda>tc. tc\<lparr>tc_sched := x\<rparr>) s = Ok s'"
  shows "same_pool s s'"
proof -
  note m = corpus_modify_lookup [OF assms]
  have "\<exists>y. corpus_lookup s' j = Ok (tc\<lparr>tc_sched := y\<rparr>)" if "corpus_lookup s j = Ok tc" for j tc
  proof (cases "j = k")
    case True
    then show ?thesis using m(1) [of j] that by auto
  next
    case False
    then have "corpus_lookup s' j = Ok (tc\<lparr>tc_sched := tc_sched tc\<rparr>)" using m(1) [of j] that by simp
    then show ?thesis by blast
  qed
  moreover have "m_top_rateds s' = m_top_rateds s" by (subst m(2)) simp
  ultimately show ?thesis using m(3) modify_ids [OF assms] by (simp add: same_pool_def)
qed

lemma set_current_scheduled_ok:
  assumes "set_current_scheduled k s = Ok s'"
  shows "same_pool s s'" "current (st_corpus s') = k" "m_weighted s' = m_weighted s" "m_dirty s' = m_dirty s"
proof -
  obtain s1 where s1: "on_next_metadata_default s = Ok s1" "s' = set_current k s1"
    using assms by (auto simp: set_current_scheduled_def bindR_Ok_iff)
  have "same_pool s s1 \<and> m_weighted s1 = m_weighted s \<and> m_dirty s1 = m_dirty s"
  proof (cases "current (st_corpus s)")
    case None
    then show ?thesis using s1(1) by (simp add: on_next_metadata_default_def)
  next
    case (Some cur)
    then obtain m where "corpus_modify cur (\<lambda>tc. tc\<lparr>tc_sched := Some (next_handicap m)\<rparr>) s = Ok s1"
      using s1(1) by (auto simp: on_next_metadata_default_def bindR_Ok_iff)
    then show ?thesis using modify_sched_same_pool corpus_modify_lookup(2) [of cur _ s s1]
      by (metis fuzz_state.select_convs(22) fuzz_state.select_convs(24) fuzz_state.surjective fuzz_state.update_convs(1))
  qed
  then show "same_pool s s'" "m_weighted s' = m_weighted s" "m_dirty s' = m_dirty s"
    using same_pool_trans [OF _ same_pool_set_current, of s s1 k] s1(2) by (simp_all add: set_current_def)
  show "current (st_corpus s') = k" using s1(2) by (simp add: set_current_def)
qed

lemma set_current_scheduled_total:
  assumes "case current (st_corpus s) of None \<Rightarrow> True | Some c \<Rightarrow> \<exists>tc m. corpus_lookup s c = Ok tc \<and> tc_sched tc = Some m"
  shows "\<exists>s'. set_current_scheduled k s = Ok s'"
proof (cases "current (st_corpus s)")
  case (Some c)
  then obtain tc m where tc: "corpus_lookup s c = Ok tc" "tc_sched tc = Some m" using assms by auto
  then obtain s' where "corpus_modify c (\<lambda>tc. tc\<lparr>tc_sched := Some (next_handicap m)\<rparr>) s = Ok s'"
    using corpus_modify_total by blast
  then show ?thesis using Some tc by (simp add: set_current_scheduled_def on_next_metadata_default_def sched_meta_def)
qed (simp add: set_current_scheduled_def on_next_metadata_default_def)

locale base_scheduler =
  fixes nxt :: "'c \<Rightarrow> fuzz_state \<Rightarrow> error + (corpus_id \<times> 'c \<times> fuzz_state)"
    and inv :: "'c \<Rightarrow> fuzz_state \<Rightarrow> bool"
  assumes next_ok: "inv c s \<Longrightarrow> nxt c s = Ok (k, c', s') \<Longrightarrow>
      k \<in> set (st_ids s) \<and> current (st_corpus s') = Some k \<and> same_pool s s' \<and> inv c' s'"
    and inv_rand: "inv c s \<Longrightarrow> inv c (s\<lparr>st_rand := r\<rparr>)"
begin

lemma next_exists:
  assumes "wf_corpus (st_corpus s)" "inv c s" "nxt c s = Ok (k, c', s')"
  shows "\<exists>tc. corpus_lookup s' k = Ok tc"
proof -
  have "k \<in> set (st_ids s)" "same_pool s s'" using next_ok [OF assms(2,3)] by blast+
  then show ?thesis using assms(1) corpus_lookup_iff [of s' k] by (simp add: same_pool_def st_ids_def)
qed

end

section \<open>The weighted scheduler keeps its table valid\<close>

text \<open>A valid table has, for every id of the corpus, the probability one or a smaller one with an alias in the corpus.\<close>

definition table_ok :: "fuzz_state \<Rightarrow> bool" where
  "table_ok s = (\<exists>wm. m_weighted s = Some wm \<and> (\<forall>k \<in> set (st_ids s).
     Mapping.lookup (alias_probability wm) k = Some (Fin 1) \<or>
     settled (\<lambda>x. flt x (Fin 1)) (set (st_ids s)) (alias_probability wm) (alias_table wm) k))"

definition marked_dirty :: "fuzz_state \<Rightarrow> bool" where
  "marked_dirty s = (case m_dirty s of Some m \<Rightarrow> ad_dirty m | None \<Rightarrow> False)"

definition weighted_inv :: "weighted_scheduler \<Rightarrow> fuzz_state \<Rightarrow> bool" where
  "weighted_inv w s = (wf_corpus (st_corpus s) \<and> length (st_ids s) < 2 ^ 64 \<and> m_weighted s \<noteq> None \<and>
     (table_invalidated w \<or> marked_dirty s \<or> table_ok s))"

lemma wf_ids: "wf_corpus (st_corpus s) \<Longrightarrow> corpus_ids s = Ok (st_ids s)" "wf_corpus (st_corpus s) \<Longrightarrow> corpus_ids_rev s = Ok (rev (st_ids s))"
  "wf_corpus (st_corpus s) \<Longrightarrow> count (st_corpus s) = length (st_ids s)"
  by (simp_all add: corpus_ids_def corpus_ids_rev_def ids_ok ids_rev_ok count_ok st_ids_def)

lemma st_ids_distinct: "wf_corpus (st_corpus s) \<Longrightarrow> distinct (st_ids s)"
  using wf_corpus_maps(1) [of "st_corpus s"] sorted_distinct by (simp add: st_ids_def wf_map_def)

lemma keys_of_alist: "Mapping.keys (Mapping.of_alist xs) = fst ` set xs"
  by transfer (simp add: dom_map_of_conv_image_fst)

lemma scaled_weights_keys: "map fst kws = ks \<Longrightarrow> Mapping.keys (scaled_weights n kws) = set ks"
  by (force simp: scaled_weights_def Let_def keys_of_alist)

lemma corpus_scores_keys:
  assumes "corpus_scores score s = Ok kws" "wf_corpus (st_corpus s)"
  shows "map fst kws = st_ids s"
proof -
  have "map fst kws = ks"
    if "map_result (\<lambda>k. bindR (corpus_lookup s k) (\<lambda>tc. bindR (score s tc) (\<lambda>w. Ok (k, w)))) ks = Ok kws" for ks
    using that by (induction ks arbitrary: kws) (auto simp: bindR_Ok_iff)
  then show ?thesis using assms by (simp add: corpus_scores_def wf_ids)
qed

lemma create_alias_table_ok:
  assumes "wf_corpus (st_corpus s)" "corpus_scores score s = Ok kws" "m_weighted s = Some wm"
  shows "\<exists>prob tab. create_alias_table score s = Ok (s\<lparr>m_weighted := Some (wm\<lparr>alias_probability := prob, alias_table := tab\<rparr>)\<rparr>) \<and>
    table_ok (s\<lparr>m_weighted := Some (wm\<lparr>alias_probability := prob, alias_table := tab\<rparr>)\<rparr>)"
proof -
  let ?p = "scaled_weights (count (st_corpus s)) kws"
  have "set (rev (st_ids s)) \<subseteq> Mapping.keys ?p" using scaled_weights_keys [OF corpus_scores_keys [OF assms(2,1)]] by simp
  then obtain prob tab where t: "alias_tables (\<lambda>x. flt x (Fin 1)) (\<lambda>pg pa. fadd pg (fsub pa (Fin 1))) (Fin 1) (rev (st_ids s)) ?p = Ok (prob, tab)"
      "\<forall>k \<in> set (st_ids s). Mapping.lookup prob k = Some (Fin 1) \<or> settled (\<lambda>x. flt x (Fin 1)) (set (st_ids s)) prob tab k"
    using alias_tables_total [of "rev (st_ids s)" ?p "\<lambda>x. flt x (Fin 1)" "\<lambda>pg pa. fadd pg (fsub pa (Fin 1))" "Fin 1"]
      st_ids_distinct [OF assms(1)] by auto
  have "create_alias_table score s = Ok (s\<lparr>m_weighted := Some (wm\<lparr>alias_probability := prob, alias_table := tab\<rparr>)\<rparr>)"
    using assms t(1) by (simp add: create_alias_table_def wf_ids weighted_meta_def)
  then show ?thesis using t(2) by (auto simp: table_ok_def st_ids_def)
qed

lemma create_alias_table_effect:
  assumes "create_alias_table score s = Ok s'" "wf_corpus (st_corpus s)"
  shows "table_ok s'" "same_pool s s'" "m_dirty s' = m_dirty s" "st_corpus s' = st_corpus s"
    "m_sched s' = m_sched s" "st_rand s' = st_rand s"
proof -
  obtain kws wm where k: "corpus_scores score s = Ok kws" "m_weighted s = Some wm"
    using assms(1) by (auto simp: create_alias_table_def bindR_Ok_iff weighted_meta_def split: option.splits)
  obtain prob tab where s': "s' = s\<lparr>m_weighted := Some (wm\<lparr>alias_probability := prob, alias_table := tab\<rparr>)\<rparr>" "table_ok s'"
    using create_alias_table_ok [OF assms(2) k] assms(1) by auto
  then show "table_ok s'" "same_pool s s'" "m_dirty s' = m_dirty s" "st_corpus s' = st_corpus s"
    "m_sched s' = m_sched s" "st_rand s' = st_rand s"
    by (simp_all add: same_pool_corpus)
qed

lemma refresh_table_effect:
  assumes "refresh_table score w s = Ok (w', s')" "weighted_inv w s"
  shows "table_ok s' \<and> same_pool s s' \<and> st_corpus s' = st_corpus s \<and> \<not> marked_dirty s' \<and> \<not> table_invalidated w' \<and>
    m_sched s' = m_sched s \<and> cycle_schedules w' = cycle_schedules w \<and> st_rand s' = st_rand s"
proof -
  define w1 s1 where "w1 = (if marked_dirty s then w\<lparr>table_invalidated := True\<rparr> else w)"
    and "s1 = (if marked_dirty s then s\<lparr>m_dirty := map_option (ad_dirty_update (\<lambda>_. False)) (m_dirty s)\<rparr> else s)"
  have eq: "(case m_dirty s of
       Some m \<Rightarrow> if ad_dirty m then (w\<lparr>table_invalidated := True\<rparr>, s\<lparr>m_dirty := Some (m\<lparr>ad_dirty := False\<rparr>)\<rparr>) else (w, s)
     | None \<Rightarrow> (w, s)) = (w1, s1)" by (simp add: w1_def s1_def marked_dirty_def split: option.splits)
  have s1: "st_corpus s1 = st_corpus s" "m_top_rateds s1 = m_top_rateds s" "m_weighted s1 = m_weighted s" "\<not> marked_dirty s1"
      "m_sched s1 = m_sched s" "st_rand s1 = st_rand s" "cycle_schedules w1 = cycle_schedules w"
    by (auto simp: s1_def w1_def marked_dirty_def split: option.splits)
  have sp: "same_pool s s1" by (rule same_pool_corpus [OF s1(1,2)])
  have wf: "wf_corpus (st_corpus s1)" using assms(2) s1(1) by (simp add: weighted_inv_def)
  show ?thesis
  proof (cases "table_invalidated w1")
    case True
    then obtain s2 where s2: "create_alias_table score s1 = Ok s2" "w' = w1\<lparr>table_invalidated := False\<rparr>" "s' = s2"
      using assms(1) eq by (auto simp: refresh_table_def bindR_Ok_iff)
    note c = create_alias_table_effect [OF s2(1) wf]
    then show ?thesis using s2 s1 same_pool_trans [OF sp, of s'] by (auto simp: marked_dirty_def)
  next
    case False
    then have "w' = w1" "s' = s1" using assms(1) eq by (simp_all add: refresh_table_def)
    moreover have "table_ok s" using False assms(2) by (auto simp: w1_def weighted_inv_def split: if_splits)
    ultimately show ?thesis using False s1 sp by (simp add: table_ok_def st_ids_def)
  qed
qed

lemma pick_alias_ok:
  assumes "table_ok s" "m_weighted s = Some wm" "k \<in> set (st_ids s)" "flt x (Fin 1)"
  shows "\<exists>j \<in> set (st_ids s). pick_alias wm k x = Ok j"
  using assms by (auto simp: table_ok_def pick_alias_def settled_def split: option.splits)

lemma random_corpus_id_ok:
  assumes "wf_corpus (st_corpus s)" "st_ids s \<noteq> []" "length (st_ids s) < 2 ^ 64"
  shows "\<exists>k r. random_corpus_id s = Ok (k, s\<lparr>st_rand := r\<rparr>) \<and> k \<in> set (st_ids s)"
proof -
  obtain i r where b: "below std_rand_next (st_rand s) (count (st_corpus s)) = (i, r)" by fastforce
  then have i: "i < length (st_ids s)" using below_less [OF _ _ b] assms by (simp add: wf_ids)
  then have "corpus_nth (st_corpus s) i = Some (st_ids s ! i)"
    by (simp add: corpus_nth_def st_ids_def get_opt_def)
  then show ?thesis using b i by (intro exI [of _ "st_ids s ! i"] exI [of _ r]) (simp add: random_corpus_id_def)
qed

lemma end_of_cycle_effect: "end_of_cycle w s = Ok (w', s') \<Longrightarrow> \<exists>x. s' = s\<lparr>m_sched := x\<rparr>"
  by (auto simp: end_of_cycle_def Let_def bindR_Ok_iff split: if_splits)

lemma end_of_cycle_total:
  assumes "m_sched s = Some ps" "cycle_schedules w \<longrightarrow> sm_strat ps \<noteq> None"
  shows "\<exists>w' s'. end_of_cycle w s = Ok (w', s')"
  using assms by (auto simp: end_of_cycle_def Let_def scheduler_meta_def cycle_schedule_def split: option.splits)

lemma next_float_below_1: "flt (fst (next_float std_rand_next r)) (Fin 1)"
  using next_float_unit [of std_rand_next r] by (cases "next_float std_rand_next r") auto

text \<open>What one call of \<open>next\<close> does after the table was refreshed.\<close>

definition draw :: "weighted_scheduler \<Rightarrow> fuzz_state \<Rightarrow> corpus_id \<Rightarrow> f64 \<Rightarrow> std_rand \<Rightarrow> weighted_schedule_metadata \<Rightarrow>
    error + (corpus_id \<times> weighted_scheduler \<times> fuzz_state)" where
  "draw w s k x r wm =
     (let n = count (st_corpus s); runs = runs_in_current_cycle wm;
          wm1 = wm\<lparr>runs_in_current_cycle := (if n \<le> runs then 0 else runs + 1)\<rparr>;
          s4 = s\<lparr>st_rand := r, m_weighted := Some wm1\<rparr>
      in bindR (pick_alias wm1 k x) (\<lambda>idx.
         bindR (if n \<le> runs then end_of_cycle w s4 else Ok (w, s4)) (\<lambda>(w2, s5).
         bindR (set_current_scheduled (Some idx) s5) (\<lambda>s6. Ok (idx, w2, s6)))))"

lemma weighted_next_draw:
  assumes "refresh_table score w s = Ok (w1, s1)" "st_ids s1 \<noteq> []" "wf_corpus (st_corpus s1)" "length (st_ids s1) < 2 ^ 64"
    "m_weighted s1 = Some wm"
  shows "\<exists>k x r. k \<in> set (st_ids s1) \<and> flt x (Fin 1) \<and> weighted_next score w s = draw w1 s1 k x r wm"
proof -
  obtain k r where k: "random_corpus_id s1 = Ok (k, s1\<lparr>st_rand := r\<rparr>)" "k \<in> set (st_ids s1)"
    using random_corpus_id_ok [OF assms(3,2,4)] by blast
  obtain x r' where x: "next_float std_rand_next r = (x, r')" by fastforce
  then have "flt x (Fin 1)" using next_float_below_1 [of r] by simp
  moreover have "count (st_corpus s1) \<noteq> 0" using assms(2,3) by (simp add: wf_ids)
  then have "weighted_next score w s = draw w1 s1 k x r' wm"
    using assms(1,5) k(1) x by (simp add: weighted_next_def draw_def weighted_meta_def Let_def)
  ultimately show ?thesis using k(2) by blast
qed

lemma draw_effect:
  assumes "draw w s k x r wm = Ok (j, w', s')" "table_ok s" "m_weighted s = Some wm" "wf_corpus (st_corpus s)"
    "k \<in> set (st_ids s)" "flt x (Fin 1)"
  shows "j \<in> set (st_ids s) \<and> current (st_corpus s') = Some j \<and> same_pool s s' \<and> table_ok s' \<and> wf_corpus (st_corpus s')"
proof -
  let ?n = "count (st_corpus s)" and ?runs = "runs_in_current_cycle wm"
  define wm1 where "wm1 = wm\<lparr>runs_in_current_cycle := (if ?n \<le> ?runs then 0 else ?runs + 1)\<rparr>"
  define s4 where "s4 = s\<lparr>st_rand := r, m_weighted := Some wm1\<rparr>"
  obtain w2 s5 where p: "pick_alias wm1 k x = Ok j"
    and e: "(if ?n \<le> ?runs then end_of_cycle w s4 else Ok (w, s4)) = Ok (w2, s5)"
    and sc: "set_current_scheduled (Some j) s5 = Ok s'"
    using assms(1) [unfolded draw_def Let_def, folded wm1_def, folded s4_def] by (fastforce simp: bindR_Ok_iff)
  have t4: "table_ok s4" using assms(2,3) by (simp add: table_ok_def s4_def wm1_def st_ids_def)
  have sp4: "same_pool s s4" by (rule same_pool_corpus) (simp_all add: s4_def)
  obtain y where s5: "s5 = s4\<lparr>m_sched := y\<rparr>"
  proof (cases "?n \<le> ?runs")
    case True
    then show ?thesis using e end_of_cycle_effect [of w s4 w2 s5] that by auto
  next
    case False
    then show ?thesis using e that [of "m_sched s4"] by simp
  qed
  have sp5: "same_pool s4 s5" by (rule same_pool_corpus) (simp_all add: s5)
  note c = set_current_scheduled_ok [OF sc]
  have sp: "same_pool s s'" using same_pool_trans [OF same_pool_trans [OF sp4 sp5] c(1)] .
  have "table_ok s5" using t4 by (simp add: s5 table_ok_def st_ids_def)
  then have "table_ok s'" using c(1,3) by (simp add: table_ok_def same_pool_def)
  moreover have "j \<in> set (st_ids s4)"
    using pick_alias_ok [OF t4, of wm1 k x] p assms(5,6) by (auto simp: s4_def st_ids_def)
  then have "j \<in> set (st_ids s)" by (simp add: s4_def st_ids_def)
  ultimately show ?thesis using c(2) sp assms(4) by (simp add: same_pool_def)
qed

lemma weighted_next_effect:
  assumes "weighted_inv w s" "weighted_next score w s = Ok (j, w', s')"
  shows "j \<in> set (st_ids s) \<and> current (st_corpus s') = Some j \<and> same_pool s s' \<and> weighted_inv w' s'"
proof -
  obtain w1 s1 where r: "refresh_table score w s = Ok (w1, s1)" and n: "count (st_corpus s1) \<noteq> 0"
    using assms(2) by (auto simp: weighted_next_def Let_def bindR_Ok_iff split: if_splits)
  note e = refresh_table_effect [OF r assms(1)]
  have wf: "wf_corpus (st_corpus s1)" "length (st_ids s1) < 2 ^ 64" "st_ids s1 = st_ids s"
    using e assms(1) by (simp_all add: weighted_inv_def same_pool_def)
  obtain wm where wm: "m_weighted s1 = Some wm" using e by (auto simp: table_ok_def)
  have "st_ids s1 \<noteq> []" using n wf(1) by (simp add: wf_ids)
  then obtain k x rr where d: "k \<in> set (st_ids s1)" "flt x (Fin 1)" "weighted_next score w s = draw w1 s1 k x rr wm"
    using weighted_next_draw [OF r _ wf(1,2) wm] by blast
  have "j \<in> set (st_ids s1) \<and> current (st_corpus s') = Some j \<and> same_pool s1 s' \<and> table_ok s' \<and> wf_corpus (st_corpus s')"
    by (rule draw_effect [of w1 s1 k x rr wm]) (use assms(2) d wm wf e in auto)
  moreover have "m_weighted s' \<noteq> None" using calculation by (auto simp: table_ok_def)
  ultimately show ?thesis using e wf same_pool_trans [of s s1 s'] by (auto simp: weighted_inv_def same_pool_def)
qed

interpretation weighted: base_scheduler "weighted_next score" weighted_inv
proof unfold_locales
  show "weighted_inv w (s\<lparr>st_rand := r\<rparr>)" if "weighted_inv w s" for w s r
    using that by (simp add: weighted_inv_def table_ok_def marked_dirty_def st_ids_def)
qed (rule weighted_next_effect)

text \<open>The next call succeeds when every score can be computed and the current testcase was scheduled before.\<close>

definition sched_ready :: "fuzz_state \<Rightarrow> bool" where
  "sched_ready s = (case current (st_corpus s) of None \<Rightarrow> True
     | Some c \<Rightarrow> \<exists>tc m. corpus_lookup s c = Ok tc \<and> tc_sched tc = Some m)"

lemma refresh_table_total:
  assumes "weighted_inv w s" "\<forall>d. \<exists>kws. corpus_scores score (s\<lparr>m_dirty := d\<rparr>) = Ok kws"
  shows "\<exists>w' s'. refresh_table score w s = Ok (w', s')"
proof -
  have wm: "\<exists>wm. m_weighted s = Some wm" "wf_corpus (st_corpus s)" using assms(1) by (auto simp: weighted_inv_def)
  have c: "\<exists>s'. create_alias_table score (s\<lparr>m_dirty := d\<rparr>) = Ok s'" for d
  proof -
    obtain kws where k1: "corpus_scores score (s\<lparr>m_dirty := d\<rparr>) = Ok kws" using assms(2) by blast
    obtain wm where k2: "m_weighted (s\<lparr>m_dirty := d\<rparr>) = Some wm" using wm by auto
    note k = k1 k2
    show ?thesis using create_alias_table_ok [OF _ k] wm(2) by auto
  qed
  have "s\<lparr>m_dirty := m_dirty s\<rparr> = s" by simp
  then have "\<exists>s'. create_alias_table score s = Ok s'" using c [of "m_dirty s"] by simp
  moreover have b: "\<exists>w' s'. bindR (create_alias_table score (s\<lparr>m_dirty := d\<rparr>)) (\<lambda>s2. Ok (v, s2)) = Ok (w', s')"
    for d and v :: weighted_scheduler using c [of d] by auto
  ultimately show ?thesis by (auto simp: refresh_table_def Let_def b split: option.splits)
qed

lemma draw_total:
  assumes "table_ok s" "m_weighted s = Some wm" "k \<in> set (st_ids s)" "flt x (Fin 1)" "sched_ready s"
    "m_sched s = Some ps" "cycle_schedules w \<longrightarrow> sm_strat ps \<noteq> None"
  shows "\<exists>j w' s'. draw w s k x r wm = Ok (j, w', s')"
proof -
  let ?n = "count (st_corpus s)" and ?runs = "runs_in_current_cycle wm"
  define wm1 where "wm1 = wm\<lparr>runs_in_current_cycle := (if ?n \<le> ?runs then 0 else ?runs + 1)\<rparr>"
  define s4 where "s4 = s\<lparr>st_rand := r, m_weighted := Some wm1\<rparr>"
  have t4: "table_ok s4" using assms(1,2) by (simp add: table_ok_def s4_def wm1_def st_ids_def)
  obtain j where j: "pick_alias wm1 k x = Ok j"
    using pick_alias_ok [OF t4, of wm1 k x] assms(3,4) by (auto simp: s4_def st_ids_def)
  have "m_sched s4 = Some ps" using assms(6) by (simp add: s4_def)
  then obtain w2 s5 where e: "(if ?n \<le> ?runs then end_of_cycle w s4 else Ok (w, s4)) = Ok (w2, s5)"
    using end_of_cycle_total [OF _ assms(7), of s4] by (cases "?n \<le> ?runs") auto
  have "\<exists>y. s5 = s4\<lparr>m_sched := y\<rparr>"
    using e end_of_cycle_effect [of w s4 w2 s5] by (cases "?n \<le> ?runs") (auto intro!: exI [of _ "m_sched s4"])
  then have "st_corpus s5 = st_corpus s" by (auto simp: s4_def)
  then obtain s6 where "set_current_scheduled (Some j) s5 = Ok s6"
    using set_current_scheduled_total [of s5] assms(5) by (auto simp: sched_ready_def corpus_lookup_def split: option.splits)
  then have "draw w s k x r wm = Ok (j, w2, s6)"
    unfolding draw_def Let_def wm1_def [symmetric] s4_def [symmetric] using j e by simp
  then show ?thesis by blast
qed

lemma weighted_next_total:
  assumes "weighted_inv w s" "\<forall>d. \<exists>kws. corpus_scores score (s\<lparr>m_dirty := d\<rparr>) = Ok kws" "st_ids s \<noteq> []"
    "sched_ready s" "m_sched s = Some ps" "cycle_schedules w \<longrightarrow> sm_strat ps \<noteq> None"
  shows "\<exists>j w' s'. weighted_next score w s = Ok (j, w', s')"
proof -
  obtain w1 s1 where r: "refresh_table score w s = Ok (w1, s1)" using refresh_table_total [OF assms(1,2)] by blast
  note e = refresh_table_effect [OF r assms(1)]
  have wf: "wf_corpus (st_corpus s1)" "length (st_ids s1) < 2 ^ 64" "st_ids s1 \<noteq> []"
    using e assms(1,3) by (simp_all add: weighted_inv_def same_pool_def)
  obtain wm where wm: "m_weighted s1 = Some wm" using e by (auto simp: table_ok_def)
  obtain k x rr where d: "k \<in> set (st_ids s1)" "flt x (Fin 1)" "weighted_next score w s = draw w1 s1 k x rr wm"
    using weighted_next_draw [OF r wf(3,1,2) wm] by blast
  have "sched_ready s1" using assms(4) e by (auto simp: sched_ready_def corpus_lookup_def split: option.splits)
  then show ?thesis unfolding d(3) using draw_total [OF _ wm d(1,2)] e assms(5,6) by auto
qed

section \<open>Reachable weighted schedulers\<close>

text \<open>
  The scheduler is created on a state with a well-formed corpus; testcases are added, removed and
  replaced with the matching hook, inputs are evaluated and testcases drawn, and the rest of the fuzzer
  may change testcases in place and any other metadata.
\<close>

inductive weighted_reach :: "(fuzz_state \<Rightarrow> testcase \<Rightarrow> error + f64) \<Rightarrow> weighted_scheduler \<Rightarrow> fuzz_state \<Rightarrow> bool" for score where
  create: "wf_corpus (st_corpus s) \<Longrightarrow> with_schedule strat s = (w, s') \<Longrightarrow> weighted_reach score w s'"
| cycling: "weighted_reach score w s \<Longrightarrow> weighted_reach score (cycling_scheduler w) s"
| added: "weighted_reach score w s \<Longrightarrow> corpus_add (st_corpus s) tc = Some (c, k) \<Longrightarrow>
    weighted_on_add w k (s\<lparr>st_corpus := c\<rparr>) = Ok (w', s') \<Longrightarrow> weighted_reach score w' s'"
| removed: "weighted_reach score w s \<Longrightarrow> corpus_remove (st_corpus s) k = Some (c, r) \<Longrightarrow>
    weighted_reach score (weighted_on_remove w) (s\<lparr>st_corpus := c\<rparr>)"
| replaced: "weighted_reach score w s \<Longrightarrow> corpus_replace (st_corpus s) k tc = (c, r) \<Longrightarrow>
    weighted_reach score (weighted_on_replace w) (s\<lparr>st_corpus := c\<rparr>)"
| evaluated: "weighted_reach score w s \<Longrightarrow> weighted_on_evaluation h w s = Ok (w', s') \<Longrightarrow> weighted_reach score w' s'"
| drawn: "weighted_reach score w s \<Longrightarrow> length (st_ids s) < 2 ^ 64 \<Longrightarrow> weighted_next score w s = Ok (k, w', s') \<Longrightarrow>
    weighted_reach score w' s'"
| other: "weighted_reach score w s \<Longrightarrow> wf_corpus (st_corpus s') \<Longrightarrow> st_ids s' = st_ids s \<Longrightarrow> m_weighted s' = m_weighted s \<Longrightarrow>
    (marked_dirty s \<longrightarrow> marked_dirty s') \<Longrightarrow> weighted_reach score w s'"

inductive_cases weighted_reachE: "weighted_reach score w s"

text \<open>The part of the invariant that does not bound the number of testcases.\<close>

definition weighted_inv0 :: "weighted_scheduler \<Rightarrow> fuzz_state \<Rightarrow> bool" where
  "weighted_inv0 w s = (wf_corpus (st_corpus s) \<and> m_weighted s \<noteq> None \<and> (table_invalidated w \<or> marked_dirty s \<or> table_ok s))"

lemma modify_other:
  assumes "corpus_modify k f s = Ok s'"
  shows "m_weighted s' = m_weighted s" "wf_corpus (st_corpus s) \<Longrightarrow> wf_corpus (st_corpus s')"
proof -
  show "m_weighted s' = m_weighted s" by (subst corpus_modify_lookup(2) [OF assms]) simp
qed (rule corpus_modify_lookup(3) [OF assms])

lemma weighted_reach_inv: "weighted_reach score w s \<Longrightarrow> weighted_inv0 w s"
proof (induction rule: weighted_reach.induct)
  case (create s strat w s')
  then show ?case by (auto simp: with_schedule_def Let_def weighted_inv0_def split: if_splits)
next
  case (added w s tc c k w' s')
  have "wf_corpus c"
    using added.IH insert_inner_ok [of "storage (st_corpus s)" tc False] added.hyps(2) by (auto simp: weighted_inv0_def corpus_add_def)
  moreover obtain f where "corpus_modify k f (s\<lparr>st_corpus := c\<rparr>) = Ok s'" "table_invalidated w'"
    using added.hyps(3) by (auto simp: weighted_on_add_def on_add_metadata_default_def Let_def bindR_Ok_iff)
  ultimately show ?case using modify_other [of k f "s\<lparr>st_corpus := c\<rparr>" s'] added.IH by (simp add: weighted_inv0_def)
next
  case (removed w s k c r)
  then show ?case using corpus_remove_wf by (auto simp: weighted_inv0_def weighted_on_remove_def)
next
  case (replaced w s k tc c r)
  then show ?case using corpus_replace_wf by (auto simp: weighted_inv0_def weighted_on_replace_def)
next
  case (evaluated w s h w' s')
  then show ?case
    by (auto simp: weighted_inv0_def weighted_on_evaluation_def on_evaluation_metadata_default_def Let_def bindR_Ok_iff
        table_ok_def st_ids_def marked_dirty_def split: option.splits if_splits)
next
  case (drawn w s k w' s')
  then have "weighted_inv w s" by (simp add: weighted_inv_def weighted_inv0_def)
  then show ?case using weighted_next_effect [OF _ drawn.hyps(3)] by (auto simp: weighted_inv_def weighted_inv0_def)
next
  case (other w s s')
  then show ?case by (auto simp: weighted_inv0_def table_ok_def)
qed (auto simp: weighted_inv0_def cycling_scheduler_def)

section \<open>Queues\<close>

lemma links_next:
  "links L p ks None \<Longrightarrow> i < length ks \<Longrightarrow>
     map_option item_next (L (ks ! i)) = Some (if Suc i < length ks then Some (ks ! Suc i) else None)"
proof (induction ks arbitrary: p i)
  case (Cons k ks)
  show ?case
  proof (cases i)
    case 0
    then show ?thesis using Cons.prems(1) by (cases ks) (auto split: option.splits)
  next
    case (Suc j)
    have "links L (Some k) ks None" using Cons.prems(1) by (auto split: option.splits)
    then show ?thesis using Cons.IH [of "Some k" j] Cons.prems(2) Suc by auto
  qed
qed simp

lemma corpus_next_nth:
  assumes "wf_corpus (st_corpus s)" "i < length (st_ids s)"
  shows "corpus_next (st_corpus s) (st_ids s ! i) = (if Suc i < length (st_ids s) then Some (st_ids s ! Suc i) else None)"
proof -
  let ?m = "enabled (storage (st_corpus s))"
  have "links (Mapping.lookup (smap ?m)) None (st_ids s) None"
    using wf_corpus_maps(1) [OF assms(1)] by (simp add: wf_map_def st_ids_def)
  from links_next [OF this assms(2)] show ?thesis by (auto simp: corpus_next_def map_next_def split: option.splits)
qed

lemma corpus_first_hd: "wf_corpus (st_corpus s) \<Longrightarrow> st_ids s \<noteq> [] \<Longrightarrow> corpus_first (st_corpus s) = Some (st_ids s ! 0)"
  using wf_corpus_maps(1) [of "st_corpus s"] by (simp add: corpus_first_def wf_map_def st_ids_def hd_conv_nth)

lemma corpus_next_in:
  assumes "wf_corpus (st_corpus s)" "corpus_next (st_corpus s) c = Some k"
  shows "k \<in> set (st_ids s)"
proof -
  have "c \<in> set (st_ids s)"
    using assms wf_map_lookup_iff [OF wf_corpus_maps(1) [OF assms(1)], of c]
    by (auto simp: corpus_next_def map_next_def st_ids_def split: option.splits)
  then obtain i where "i < length (st_ids s)" "c = st_ids s ! i" by (metis in_set_conv_nth)
  then show ?thesis using corpus_next_nth [OF assms(1)] assms(2) by (auto split: if_splits)
qed

lemma queue_next_effect:
  assumes "wf_corpus (st_corpus s)" "queue_next q s = Ok (k, q', s')"
  shows "k \<in> set (st_ids s) \<and> current (st_corpus s') = Some k \<and> same_pool s s' \<and> wf_corpus (st_corpus s')"
proof -
  have "st_ids s \<noteq> []" using assms by (auto simp: queue_next_def Let_def wf_ids)
  then have "corpus_first (st_corpus s) = Some (st_ids s ! 0)" "st_ids s ! 0 \<in> set (st_ids s)"
    using corpus_first_hd [OF assms(1)] by simp_all
  then show ?thesis using assms corpus_next_in [OF assms(1)] same_pool_set_current [of s "Some k"]
    by (auto simp: queue_next_def Let_def set_current_def bind_eq_Some_conv split: if_splits option.splits)
qed

lemma power_queue_next_effect:
  assumes "wf_corpus (st_corpus s)" "power_queue_next q s = Ok (k, q', s')"
  shows "k \<in> set (st_ids s) \<and> current (st_corpus s') = Some k \<and> same_pool s s' \<and> wf_corpus (st_corpus s')"
proof -
  have ne: "st_ids s \<noteq> []" using assms by (auto simp: power_queue_next_def Let_def wf_ids)
  have f: "corpus_first (st_corpus s) = Some (st_ids s ! 0)" "st_ids s ! 0 \<in> set (st_ids s)"
    using corpus_first_hd [OF assms(1) ne] ne by simp_all
  obtain s1 where k: "k \<in> set (st_ids s)" and c: "set_current_scheduled (Some k) s1 = Ok s'" and s1: "s1 = s \<or> (\<exists>y. s1 = s\<lparr>m_sched := y\<rparr>)"
    using assms(2) f corpus_next_in [OF assms(1)]
    by (auto simp: power_queue_next_def Let_def bindR_Ok_iff split: if_splits option.splits)
  have "same_pool s s1" using s1 by (auto intro: same_pool_corpus)
  then have "same_pool s s'" by (rule same_pool_trans [OF _ set_current_scheduled_ok(1) [OF c]])
  then show ?thesis using k set_current_scheduled_ok(2) [OF c] assms(1) by (simp add: same_pool_def)
qed

interpretation queue: base_scheduler queue_next "\<lambda>_ s. wf_corpus (st_corpus s)"
  by unfold_locales (rule queue_next_effect, simp_all)

interpretation power_queue: base_scheduler power_queue_next "\<lambda>_ s. wf_corpus (st_corpus s)"
  by unfold_locales (rule power_queue_next_effect, simp_all)

lemma corpus_scores_total:
  assumes "wf_corpus (st_corpus s)" "\<forall>k tc. corpus_lookup s k = Ok tc \<longrightarrow> (\<exists>w. score s tc = Ok w)"
  shows "\<exists>kws. corpus_scores score s = Ok kws"
proof -
  have "\<exists>kws. map_result (\<lambda>k. bindR (corpus_lookup s k) (\<lambda>tc. bindR (score s tc) (\<lambda>w. Ok (k, w)))) ks = Ok kws"
    if "set ks \<subseteq> set (st_ids s)" for ks
    using that
  proof (induction ks)
    case (Cons k ks)
    obtain tc where tc: "corpus_lookup s k = Ok tc" using Cons.prems corpus_lookup_iff [OF assms(1), of k] by (auto simp: st_ids_def)
    moreover obtain w where "score s tc = Ok w" using assms(2) tc by blast
    ultimately show ?case using Cons by auto
  qed simp
  then show ?thesis using assms(1) by (simp add: corpus_scores_def wf_ids)
qed

text \<open>C13. In every reachable state the weighted scheduler returns an enabled testcase of the corpus, makes it the
  current one and keeps the corpus; it succeeds, without a panic on its tables, whenever the corpus is
  not empty, the scores can be computed, the current testcase has its scheduler
  metadata and the state its scheduler metadata, with a strategy if the schedules are cycled.\<close>

theorem weighted_next_safe:
  assumes "weighted_reach score w s" "length (st_ids s) < 2 ^ 64"
  shows "(\<forall>k w' s'. weighted_next score w s = Ok (k, w', s') \<longrightarrow>
      k \<in> set (st_ids s) \<and> current (st_corpus s') = Some k \<and> st_ids s' = st_ids s) \<and>
    (st_ids s \<noteq> [] \<and> sched_ready s \<and> (\<forall>d. \<exists>kws. corpus_scores score (s\<lparr>m_dirty := d\<rparr>) = Ok kws) \<and>
       (\<exists>ps. m_sched s = Some ps \<and> (cycle_schedules w \<longrightarrow> sm_strat ps \<noteq> None)) \<longrightarrow>
     (\<exists>k w' s'. weighted_next score w s = Ok (k, w', s')))"
proof -
  have inv: "weighted_inv w s"
    using weighted_reach_inv [OF assms(1)] assms(2) by (simp add: weighted_inv_def weighted_inv0_def)
  then show ?thesis using weighted.next_ok [OF inv] weighted_next_total [OF inv] by (auto simp: same_pool_def)
qed

theorem weighted_next_safe_witness:
  "\<exists>k w' s'. weighted_next (\<lambda>_ _. Ok (Fin 1)) (fst (with_schedule None example_corpus_state))
     (snd (with_schedule None example_corpus_state)) = Ok (k, w', s') \<and> k \<in> set (st_ids example_corpus_state)"
proof -
  obtain w s where ws: "with_schedule None example_corpus_state = (w, s)" by fastforce
  have c: "st_corpus s = st_corpus example_corpus_state" "\<exists>ps. m_sched s = Some ps" "\<not> cycle_schedules w"
    using ws by (auto simp: with_schedule_def Let_def example_corpus_state_def state_new_def split: if_splits)
  have ids: "st_ids s = st_ids example_corpus_state" using c(1) by (simp add: st_ids_def)
  have r: "weighted_reach (\<lambda>_ _. Ok (Fin 1)) w s" by (rule weighted_reach.create [OF example_corpus_wf ws])
  have n: "st_ids example_corpus_state = [0]" "current (st_corpus example_corpus_state) = None" by code_simp+
  have "\<exists>kws. corpus_scores (\<lambda>_ _. Ok (Fin 1)) (s\<lparr>m_dirty := d\<rparr>) = Ok kws" for d
    by (rule corpus_scores_total) (use c(1) example_corpus_wf in simp_all)
  then show ?thesis using weighted_next_safe [OF r] ws c n ids by (auto simp: sched_ready_def)
qed

text \<open>C16. Over exact numbers the alias table realises the weights: for non-negative weights with a positive sum
  the construction ends without a panic, its probabilities lie in the unit interval, and a uniform slot
  with a uniform threshold selects every testcase with probability proportional to its weight.\<close>

theorem alias_method_exact:
  fixes weight :: "corpus_id \<Rightarrow> rat"
  assumes "distinct ks" "\<forall>k \<in> set ks. 0 \<le> weight k" "0 < (\<Sum>k \<in> set ks. weight k)"
  shows "\<exists>prob tab. alias_tables (\<lambda>x. x < 1) (\<lambda>g a. g + (a - 1)) 1 (rev ks)
      (Mapping.tabulate ks (\<lambda>k. weight k * of_nat (length ks) / (\<Sum>k \<in> set ks. weight k))) = Ok (prob, tab) \<and>
    (\<forall>k \<in> set ks. 0 \<le> the (Mapping.lookup prob k) \<and> the (Mapping.lookup prob k) \<le> 1 \<and>
       pick_share ks prob tab k = weight k / (\<Sum>k \<in> set ks. weight k))"
proof -
  let ?W = "\<Sum>k \<in> set ks. weight k"
  let ?p = "Mapping.tabulate ks (\<lambda>k. weight k * of_nat (length ks) / ?W)"
  have l: "the (Mapping.lookup ?p k) = weight k * of_nat (length ks) / ?W" if "k \<in> set ks" for k
    using that assms(1) by (simp add: lookup_tabulate)
  have "(\<Sum>k \<in> set ks. the (Mapping.lookup ?p k)) = (\<Sum>k \<in> set ks. weight k * (of_nat (length ks) / ?W))"
    using l by (intro sum.cong) auto
  also have "\<dots> = ?W * (of_nat (length ks) / ?W)" by (rule sum_distrib_right [symmetric])
  also have "\<dots> = of_nat (length ks)" using assms(3) by simp
  finally have s: "(\<Sum>k \<in> set ks. the (Mapping.lookup ?p k)) = of_nat (length ks)" .
  have nn: "\<forall>k \<in> set ks. 0 \<le> the (Mapping.lookup ?p k)" using l assms(2,3) by simp
  have ne: "ks \<noteq> []" using assms(3) by auto
  have "the (Mapping.lookup ?p k) / of_nat (length ks) = weight k / ?W" if "k \<in> set ks" for k
    using l [OF that] ne by simp
  then show ?thesis using alias_tables_exact [OF assms(1) _ nn s] by auto
qed

theorem alias_method_exact_witness:
  "\<exists>prob tab. alias_tables (\<lambda>x. x < 1) (\<lambda>g a. g + (a - 1)) 1 [2, 1, 0]
      (Mapping.tabulate [0, 1, 2] (\<lambda>k. (of_nat (k + 1) :: rat) * 3 / 6)) = Ok (prob, tab) \<and> pick_share [0, 1, 2] prob tab 2 = 1 / 2"
  using alias_method_exact [of "[0, 1, 2]" "\<lambda>k. of_nat (k + 1)"] by auto

text \<open>Repeated calls of a scheduler: the testcases of \<open>n\<close> calls in a row, with the state behind them.\<close>

fun draws :: "('q \<Rightarrow> fuzz_state \<Rightarrow> error + (corpus_id \<times> 'q \<times> fuzz_state)) \<Rightarrow> nat \<Rightarrow> 'q \<Rightarrow> fuzz_state \<Rightarrow>
    error + (corpus_id list \<times> 'q \<times> fuzz_state)" where
  "draws nxt 0 q s = Ok ([], q, s)"
| "draws nxt (Suc n) q s = bindR (nxt q s) (\<lambda>(k, q1, s1). bindR (draws nxt n q1 s1) (\<lambda>(ks, q2, s2). Ok (k # ks, q2, s2)))"

definition rotation :: "corpus_id list \<Rightarrow> nat \<Rightarrow> nat \<Rightarrow> corpus_id list" where
  "rotation ks i n = map (\<lambda>j. ks ! ((i + 1 + j) mod length ks)) [0..<n]"

definition all_scheduled :: "fuzz_state \<Rightarrow> bool" where
  "all_scheduled s = (\<forall>k \<in> set (st_ids s). \<exists>tc m. corpus_lookup s k = Ok tc \<and> tc_sched tc = Some m)"

lemma rotation_Suc:
  assumes "i < length ks"
  shows "rotation ks i (Suc n) = ks ! (Suc i mod length ks) # rotation ks (Suc i mod length ks) n"
proof -
  have "(Suc i mod length ks + 1 + j) mod length ks = (i + 1 + Suc j) mod length ks" for j
    by (metis add.assoc add_Suc_shift mod_add_left_eq plus_1_eq_Suc)
  then show ?thesis by (simp add: rotation_def upt_conv_Cons map_Suc_upt [symmetric] comp_def del: upt_Suc)
qed

lemma queue_position:
  assumes "wf_corpus (st_corpus s)" "i < length (st_ids s)"
  shows "count (st_corpus s) = length (st_ids s)" "corpus_first (st_corpus s) = Some (st_ids s ! 0)"
    "corpus_next (st_corpus s) (st_ids s ! i) = (if Suc i < length (st_ids s) then Some (st_ids s ! Suc i) else None)"
    "\<not> Suc i < length (st_ids s) \<longleftrightarrow> Suc i = length (st_ids s)"
proof -
  have "st_ids s \<noteq> []" using assms(2) by auto
  then show "corpus_first (st_corpus s) = Some (st_ids s ! 0)" by (rule corpus_first_hd [OF assms(1)])
qed (use corpus_next_nth [OF assms] assms(2) wf_ids [OF assms(1)] in auto)

lemma queue_step:
  assumes "wf_corpus (st_corpus s)" "i < length (st_ids s)" "current (st_corpus s) = Some (st_ids s ! i)"
    "length (st_ids s) < 2 ^ 64" "r + 1 < 2 ^ 64"
  shows "queue_next \<lparr>q_queue_cycles = c, q_runs = of_nat r\<rparr> s = Ok (st_ids s ! (Suc i mod length (st_ids s)),
    \<lparr>q_queue_cycles = (if length (st_ids s) \<le> r + 1 then c + 1 else c), q_runs = of_nat (r + 1)\<rparr>,
    set_current (Some (st_ids s ! (Suc i mod length (st_ids s)))) s)"
proof -
  note p = queue_position [OF assms(1,2)]
  have "(of_nat (length (st_ids s)) :: u64) \<le> of_nat (r + 1) \<longleftrightarrow> length (st_ids s) \<le> r + 1"
    using assms(4,5) by (simp add: word_le_nat_alt unat_of_nat take_bit_nat_eq_self del: of_nat_add of_nat_Suc)
  then show ?thesis using p assms(2,3) by (auto simp: queue_next_def Let_def add.commute)
qed

lemma queue_draws:
  assumes "wf_corpus (st_corpus s)" "i < length (st_ids s)" "current (st_corpus s) = Some (st_ids s ! i)"
    "length (st_ids s) < 2 ^ 64" "r + n < 2 ^ 64"
  defines "l \<equiv> length (st_ids s)"
  shows "draws queue_next n \<lparr>q_queue_cycles = c, q_runs = of_nat r\<rparr> s = Ok (rotation (st_ids s) i n,
    \<lparr>q_queue_cycles = c + of_nat ((r + n + 1 - l) - (r + 1 - l)), q_runs = of_nat (r + n)\<rparr>, set_current (Some (st_ids s ! ((i + n) mod l))) s)"
  using assms(1-5) unfolding l_def
proof (induction n arbitrary: i s r c)
  case 0
  then show ?case by (simp add: rotation_def set_current_def)
next
  case (Suc n)
  let ?l = "length (st_ids s)"
  let ?j = "Suc i mod ?l"
  let ?s = "set_current (Some (st_ids s ! ?j)) s"
  let ?c = "if ?l \<le> r + 1 then c + 1 else c"
  have e: "wf_corpus (st_corpus ?s)" "st_ids ?s = st_ids s" "current (st_corpus ?s) = Some (st_ids s ! ?j)" "?j < ?l"
    using Suc.prems(1,2) by (simp_all add: set_current_def st_ids_def mod_less_divisor [OF le_less_trans [OF le0]])
  have ij: "(?j + n) mod ?l = (i + Suc n) mod ?l" by (metis add_Suc_shift mod_add_left_eq)
  have cy: "?c + of_nat ((Suc r + n + 1 - ?l) - (Suc r + 1 - ?l)) = c + of_nat ((r + Suc n + 1 - ?l) - (r + 1 - ?l))"
    by (auto simp: Suc_diff_le)
  have "draws queue_next n \<lparr>q_queue_cycles = ?c, q_runs = of_nat (Suc r)\<rparr> ?s = Ok (rotation (st_ids s) ?j n,
      \<lparr>q_queue_cycles = c + of_nat ((r + Suc n + 1 - ?l) - (r + 1 - ?l)), q_runs = of_nat (r + Suc n)\<rparr>, set_current (Some (st_ids s ! ((i + Suc n) mod ?l))) s)"
    using Suc.IH [of ?s ?j "Suc r" ?c] Suc.prems(4,5) e unfolding cy e(2) ij by (simp add: set_current_def)
  then show ?case using queue_step [OF Suc.prems(1-4), of r c] Suc.prems(2,5) by (simp add: rotation_Suc)
qed

lemma set_current_scheduled_keeps:
  assumes "set_current_scheduled k s = Ok s'"
  shows "m_sched s' = m_sched s" "all_scheduled s \<Longrightarrow> all_scheduled s'"
proof -
  obtain s1 where s1: "on_next_metadata_default s = Ok s1" "s' = set_current k s1"
    using assms by (auto simp: set_current_scheduled_def bindR_Ok_iff)
  have l: "st_ids s' = st_ids s1" "corpus_lookup s' j = corpus_lookup s1 j" "m_sched s' = m_sched s1" for j
    by (simp_all add: s1(2) set_current_def st_ids_def corpus_lookup_def corpus_get_def)
  have "m_sched s1 = m_sched s \<and> (all_scheduled s \<longrightarrow> all_scheduled s1)"
  proof (cases "current (st_corpus s)")
    case None
    then show ?thesis using s1(1) by (simp add: on_next_metadata_default_def)
  next
    case (Some cur)
    then obtain m where m: "corpus_modify cur (\<lambda>tc. tc\<lparr>tc_sched := Some (next_handicap m)\<rparr>) s = Ok s1"
      using s1(1) by (auto simp: on_next_metadata_default_def bindR_Ok_iff)
    note c = corpus_modify_lookup [OF m]
    have "m_sched s1 = m_sched s" by (subst c(2)) simp
    moreover have "\<exists>tc m. corpus_lookup s1 j = Ok tc \<and> tc_sched tc = Some m" if "corpus_lookup s j = Ok tc" "tc_sched tc = Some x" for j tc x
      using c(1) [of j] that by (cases "j = cur") auto
    ultimately show ?thesis using modify_ids [OF m] by (fastforce simp: all_scheduled_def)
  qed
  then show "m_sched s' = m_sched s" "all_scheduled s \<Longrightarrow> all_scheduled s'" unfolding all_scheduled_def l by simp_all
qed

lemma power_queue_step:
  fixes p :: power_queue
  assumes "wf_corpus (st_corpus s)" "i < length (st_ids s)" "current (st_corpus s) = Some (st_ids s ! i)" "all_scheduled s" "m_sched s = Some ps"
  defines "l \<equiv> length (st_ids s)" and "c \<equiv> (if Suc i = length (st_ids s) then pq_queue_cycles p + 1 else pq_queue_cycles p)"
  shows "\<exists>s'. power_queue_next p s = Ok (st_ids s ! (Suc i mod l), p\<lparr>pq_queue_cycles := c\<rparr>, s') \<and> same_pool s s' \<and>
    current (st_corpus s') = Some (st_ids s ! (Suc i mod l)) \<and> all_scheduled s' \<and>
    m_sched s' = Some (if Suc i = l then ps\<lparr>sm_queue_cycles := c\<rparr> else ps)"
proof -
  note q = queue_position [OF assms(1,2)]
  let ?k = "st_ids s ! (Suc i mod l)"
  let ?s1 = "s\<lparr>m_sched := Some (if Suc i = l then ps\<lparr>sm_queue_cycles := c\<rparr> else ps)\<rparr>"
  have "st_ids s ! i \<in> set (st_ids s)" using assms(2) by simp
  then have "\<exists>tc m. corpus_lookup ?s1 (st_ids s ! i) = Ok tc \<and> tc_sched tc = Some m"
    using assms(4) by (auto simp: all_scheduled_def corpus_lookup_def)
  then obtain s2 where s2: "set_current_scheduled (Some ?k) ?s1 = Ok s2"
    using set_current_scheduled_total [of ?s1 "Some ?k"] assms(3) by auto
  have "power_queue_next p s = Ok (?k, p\<lparr>pq_queue_cycles := c\<rparr>, s2)"
  proof (cases "Suc i < l")
    case True
    have "s\<lparr>m_sched := Some ps\<rparr> = s" using assms(5) by simp
    then have e: "?s1 = s" using True by simp
    have s3: "set_current_scheduled (Some ?k) s = Ok s2" using s2 unfolding e .
    have "Suc i mod l = Suc i" "c = pq_queue_cycles p" using True by (simp_all add: l_def c_def)
    then show ?thesis using True s3 q assms(2,3) by (auto simp: power_queue_next_def Let_def l_def)
  next
    case False
    then have i: "Suc i = l" "Suc i mod l = 0" "c = pq_queue_cycles p + 1" using q(4) by (simp_all add: l_def c_def)
    then show ?thesis using s2 q assms(2,3,5) by (auto simp: power_queue_next_def Let_def l_def scheduler_meta_def)
  qed
  moreover have "same_pool s s2"
    by (rule same_pool_trans [OF same_pool_corpus set_current_scheduled_ok(1) [OF s2]]) simp_all
  moreover have "all_scheduled ?s1" using assms(4) by (simp add: all_scheduled_def st_ids_def corpus_lookup_def)
  ultimately show ?thesis using set_current_scheduled_ok(2) [OF s2] set_current_scheduled_keeps [OF s2] by auto
qed

lemma wrap_count:
  assumes "(i :: nat) < l"
  shows "(if Suc i = l then 1 else 0) + (Suc i mod l + n) div l = (i + Suc n) div l"
proof (cases "Suc i = l")
  case True
  then have e: "i + Suc n = l + n" and l: "0 < l" by auto
  have "(l + n) div l = Suc (n div l)" using l by (simp add: div_add_self1)
  then show ?thesis unfolding e using True by simp
next
  case False
  then have "Suc i mod l = Suc i" using assms by simp
  then show ?thesis using False by simp
qed

lemma power_queue_draws:
  assumes "wf_corpus (st_corpus s)" "i < length (st_ids s)" "current (st_corpus s) = Some (st_ids s ! i)" "all_scheduled s" "m_sched s = Some ps"
  defines "l \<equiv> length (st_ids s)"
  shows "\<exists>s'. draws power_queue_next n p s = Ok (rotation (st_ids s) i n, p\<lparr>pq_queue_cycles := pq_queue_cycles p + of_nat ((i + n) div l)\<rparr>, s') \<and>
    same_pool s s' \<and> current (st_corpus s') = Some (st_ids s ! ((i + n) mod l)) \<and>
    m_sched s' = Some (if i + n < l then ps else ps\<lparr>sm_queue_cycles := pq_queue_cycles p + of_nat ((i + n) div l)\<rparr>)"
  using assms(1-5) unfolding l_def
proof (induction n arbitrary: i s p ps)
  case 0
  then show ?case by (auto simp: rotation_def intro: same_pool_corpus)
next
  case (Suc n)
  let ?l = "length (st_ids s)"
  let ?j = "Suc i mod ?l"
  let ?c = "if Suc i = ?l then pq_queue_cycles p + 1 else pq_queue_cycles p"
  let ?ps = "if Suc i = ?l then ps\<lparr>sm_queue_cycles := ?c\<rparr> else ps"
  from power_queue_step [OF Suc.prems, of p] obtain s1 where s1:
    "power_queue_next p s = Ok (st_ids s ! ?j, p\<lparr>pq_queue_cycles := ?c\<rparr>, s1)" "same_pool s s1"
    "current (st_corpus s1) = Some (st_ids s ! ?j)" "all_scheduled s1" "m_sched s1 = Some ?ps" by blast
  have ids: "st_ids s1 = st_ids s" "wf_corpus (st_corpus s1)" using s1(2) Suc.prems(1) by (simp_all add: same_pool_def)
  have j: "?j < ?l" using Suc.prems(2) by (intro mod_less_divisor) linarith
  have ij: "(?j + n) mod ?l = (i + Suc n) mod ?l" by (metis add_Suc_shift mod_add_left_eq)
  have w: "?c + of_nat ((?j + n) div ?l) = pq_queue_cycles p + of_nat ((i + Suc n) div ?l)"
    using wrap_count [OF Suc.prems(2), of n] by (auto simp: of_nat_Suc [symmetric] add.assoc simp del: of_nat_Suc)
  have z: "(if ?j + n < ?l then ?ps else ?ps\<lparr>sm_queue_cycles := x\<rparr>) = (if i + Suc n < ?l then ps else ps\<lparr>sm_queue_cycles := x\<rparr>)"
    if "?j + n < ?l \<Longrightarrow> Suc i = ?l \<Longrightarrow> x = ?c" for x
    using that Suc.prems(2) by (cases "Suc i = ?l") auto
  from Suc.IH [of s1 ?j ?ps "p\<lparr>pq_queue_cycles := ?c\<rparr>"] s1(3-5) j ids obtain s2 where s2:
    "draws power_queue_next n (p\<lparr>pq_queue_cycles := ?c\<rparr>) s1 = Ok (rotation (st_ids s) ?j n,
      p\<lparr>pq_queue_cycles := pq_queue_cycles p + of_nat ((i + Suc n) div ?l)\<rparr>, s2)" "same_pool s1 s2"
    "current (st_corpus s2) = Some (st_ids s ! ((i + Suc n) mod ?l))"
    "m_sched s2 = Some (if ?j + n < ?l then ?ps else ?ps\<lparr>sm_queue_cycles := ?c + of_nat ((?j + n) div ?l)\<rparr>)"
    unfolding w [symmetric] ij [symmetric] by auto
  have "m_sched s2 = Some (if i + Suc n < ?l then ps else ps\<lparr>sm_queue_cycles := ?c + of_nat ((?j + n) div ?l)\<rparr>)"
    unfolding s2(4) by (subst z) simp_all
  then show ?case unfolding w using s1(1) s2(1,3) same_pool_trans [OF s1(2) s2(2)] Suc.prems(2) by (simp add: rotation_Suc)
qed

definition example_queue_state :: fuzz_state where
  "example_queue_state = (state_new (std_rand_with_seed 0))\<lparr>st_corpus :=
     (case corpus_add corpus_new example_entry of None \<Rightarrow> corpus_new
      | Some (c, _) \<Rightarrow> (case corpus_add c example_entry of None \<Rightarrow> corpus_new | Some (c2, _) \<Rightarrow> c2\<lparr>current := Some 0\<rparr>)),
     m_sched := Some example_sched\<rparr>"

lemma corpus_add_keeps: "wf_corpus c \<Longrightarrow> \<exists>c' i. corpus_add c tc = Some (c', i) \<and> wf_corpus c'"
  using insert_inner_ok [of "storage c" tc False] by (auto simp: corpus_add_def)

lemma example_queue_facts:
  "wf_corpus (st_corpus example_queue_state)" "st_ids example_queue_state = [0, 1]"
  "current (st_corpus example_queue_state) = Some 0" "all_scheduled example_queue_state"
proof -
  obtain c i where c: "corpus_add corpus_new example_entry = Some (c, i)" "wf_corpus c"
    using corpus_add_keeps [OF wf_corpus_new, of example_entry] by blast
  moreover obtain c2 j where "corpus_add c example_entry = Some (c2, j)" "wf_corpus c2"
    using corpus_add_keeps [OF c(2), of example_entry] by blast
  ultimately show "wf_corpus (st_corpus example_queue_state)" by (simp add: example_queue_state_def)
  show ids: "st_ids example_queue_state = [0, 1]" by code_simp
  show "current (st_corpus example_queue_state) = Some 0" by code_simp
  have "corpus_lookup example_queue_state 0 = Ok example_entry" "corpus_lookup example_queue_state 1 = Ok example_entry" by code_simp+
  then show "all_scheduled example_queue_state" by (simp add: all_scheduled_def ids example_entry_def)
qed

text \<open>C23. Both queues are round robin: on a corpus without additions and removals, whose testcases all have
  their scheduling metadata, \<open>n\<close> calls from the testcase at position \<open>i\<close> succeed and return the testcases at
  the positions \<open>i + 1\<close>, \<open>i + 2\<close>, \<dots>, modulo the number of testcases, and the last of them is current. The
  plain queue changes nothing else of the state, the power queue only scheduling metadata of testcases and
  its number of cycles. The power queue counts a cycle exactly when it passes from the last testcase to the
  first, \<open>(i + n) div l\<close> of them; a new plain queue counts one in every call from the first full round on,
  \<open>n + 1 - l\<close> of them, since it never resets its number of runs.\<close>

theorem queues_round_robin:
  assumes "wf_corpus (st_corpus s)" "i < length (st_ids s)" "current (st_corpus s) = Some (st_ids s ! i)"
    "all_scheduled s" "m_sched s = Some ps"
  defines "l \<equiv> length (st_ids s)"
  shows "(n < 2 ^ 64 \<and> l < 2 ^ 64 \<longrightarrow> draws queue_next n queue_new s = Ok (rotation (st_ids s) i n,
      \<lparr>q_queue_cycles = of_nat (n + 1 - l), q_runs = of_nat n\<rparr>, set_current (Some (st_ids s ! ((i + n) mod l))) s)) \<and>
    (\<exists>s'. draws power_queue_next n p s = Ok (rotation (st_ids s) i n, p\<lparr>pq_queue_cycles := pq_queue_cycles p + of_nat ((i + n) div l)\<rparr>, s') \<and>
      same_pool s s' \<and> current (st_corpus s') = Some (st_ids s ! ((i + n) mod l)) \<and>
      m_sched s' = Some (if i + n < l then ps else ps\<lparr>sm_queue_cycles := pq_queue_cycles p + of_nat ((i + n) div l)\<rparr>))"
proof (intro conjI impI)
  assume b: "n < 2 ^ 64 \<and> l < 2 ^ 64"
  have "n + 1 - l - (1 - l) = n + 1 - l" using assms(2) by (simp add: l_def)
  then show "draws queue_next n queue_new s = Ok (rotation (st_ids s) i n,
      \<lparr>q_queue_cycles = of_nat (n + 1 - l), q_runs = of_nat n\<rparr>, set_current (Some (st_ids s ! ((i + n) mod l))) s)"
    using queue_draws [OF assms(1-3), of 0 n 0] b by (simp add: queue_new_def l_def)
qed (unfold l_def, rule power_queue_draws [OF assms(1-5)])

theorem queues_round_robin_witness:
  "(\<exists>q s'. draws queue_next 3 queue_new example_queue_state = Ok ([1, 0, 1], q, s') \<and> q_queue_cycles q = 2) \<and>
   (\<exists>p s'. draws power_queue_next 3 (fst (power_queue_new (power_schedule_new FAST) example_queue_state)) example_queue_state
      = Ok ([1, 0, 1], p, s') \<and> pq_queue_cycles p = 1)"
proof -
  have "m_sched example_queue_state = Some example_sched" by (simp add: example_queue_state_def)
  moreover have "rotation [0, 1] 0 3 = [1, 0, 1]" by code_simp
  ultimately show ?thesis
    using queues_round_robin [OF example_queue_facts(1), where i = 0 and ps = example_sched and n = 3 and
        p = "fst (power_queue_new (power_schedule_new FAST) example_queue_state)"]
    by (auto simp: example_queue_facts power_queue_new_def numeral_2_eq_2 [symmetric])
qed

end
