(* ===== verification/Minimizer.thy ===== *)
theory Minimizer
  imports Schedulers
begin

text \<open>
  The minimizer scheduler (\<open>libafl/src/schedulers/minimizer.rs\<close>), which wraps a base scheduler and favours a
  subset of the corpus that covers every map index: the top rated testcase of each index with its
  reference counts, the hooks that maintain them, culling and the probabilistic skipping of testcases
  that are not favoured. The score (generic parameter \<open>F\<close>), which may also update the testcase, the
  base scheduler and the iteration order of hash maps are arguments. Shown: the reference counts and
  top rated entries stay consistent over additions, removals and replacements that keep the rated
  indexes, the hooks never fail on them, and after culling every rated map index is covered by a favoured testcase.
\<close>

section \<open>Model\<close>

type_synonym mscore = "testcase \<Rightarrow> error + (f64 \<times> testcase)"

record 'c minimizer =
  mz_base :: 'c
  skip_non_favored_prob :: f64
  remove_metadata :: bool

definition minimizer_new :: "'c \<Rightarrow> 'c minimizer" where
  "minimizer_new b = \<lparr>mz_base = b, skip_non_favored_prob = f_lit 0.95, remove_metadata = True\<rparr>"

definition non_metadata_removing :: "'c \<Rightarrow> 'c minimizer" where
  "non_metadata_removing b = \<lparr>mz_base = b, skip_non_favored_prob = f_lit 0.95, remove_metadata = False\<rparr>"

definition with_skip_prob :: "'c \<Rightarrow> f64 \<Rightarrow> 'c minimizer" where
  "with_skip_prob b p = \<lparr>mz_base = b, skip_non_favored_prob = p, remove_metadata = True\<rparr>"

text \<open>\<open>F::compute\<close> on a testcase of the corpus, borrowed mutably.\<close>

definition score_at :: "mscore \<Rightarrow> corpus_id \<Rightarrow> fuzz_state \<Rightarrow> error + (f64 \<times> fuzz_state)" where
  "score_at score k s = bindR (corpus_lookup s k) (\<lambda>tc. bindR (score tc) (\<lambda>(f, tc1).
     bindR (corpus_modify k (\<lambda>_. tc1) s) (\<lambda>s1. Ok (f, s1))))"

definition index_meta :: "fuzz_state \<Rightarrow> corpus_id \<Rightarrow> error + map_indexes" where
  "index_meta s k = bindR (corpus_lookup s k) (\<lambda>tc. case tc_map_indexes tc of Some m \<Rightarrow> Ok m
     | None \<Rightarrow> Err (KeyNotFoundE (NoMetadata ''Metadata needed for MinimizerScheduler not found in testcase'')))"

definition set_index_meta :: "corpus_id \<Rightarrow> map_indexes option \<Rightarrow> fuzz_state \<Rightarrow> error + fuzz_state" where
  "set_index_meta k m s = corpus_modify k (\<lambda>tc. tc\<lparr>tc_map_indexes := m\<rparr>) s"

text \<open>One reference less; the metadata is dropped with the last one.\<close>

definition release :: "bool \<Rightarrow> corpus_id \<Rightarrow> fuzz_state \<Rightarrow> error + fuzz_state" where
  "release rm k s = bindR (index_meta s k) (\<lambda>m.
     let m1 = m\<lparr>tcref := tcref m - 1\<rparr> in
     set_index_meta k (if tcref m1 \<le> 0 \<and> rm then None else Some m1) s)"

fun update_elems :: "mscore \<Rightarrow> bool \<Rightarrow> corpus_id \<Rightarrow> f64 \<Rightarrow> (nat, corpus_id) mapping \<Rightarrow> nat list \<Rightarrow> nat list \<Rightarrow> fuzz_state \<Rightarrow>
    error + (nat list \<times> fuzz_state)" where
  "update_elems score rm k factor tops favs [] s = Ok (favs, s)"
| "update_elems score rm k factor tops favs (e # es) s = (case Mapping.lookup tops e of
     None \<Rightarrow> update_elems score rm k factor tops (favs @ [e]) es s
   | Some old \<Rightarrow>
       if old = k then update_elems score rm k factor tops (favs @ [e]) es s
       else bindR (score_at score old s) (\<lambda>(fo, s1).
         if flt fo factor then update_elems score rm k factor tops favs es s1
         else bindR (release rm old s1) (\<lambda>s2. update_elems score rm k factor tops (favs @ [e]) es s2)))"

definition insert_tops :: "corpus_id \<Rightarrow> nat list \<Rightarrow> (nat, corpus_id) mapping \<Rightarrow> (nat, corpus_id) mapping" where
  "insert_tops k favs tops = foldl (\<lambda>m e. Mapping.update e k m) tops favs"

definition update_score :: "mscore \<Rightarrow> bool \<Rightarrow> corpus_id \<Rightarrow> fuzz_state \<Rightarrow> error + fuzz_state" where
  "update_score score rm k s =
     (let tops = (case m_top_rateds s of Some t \<Rightarrow> t | None \<Rightarrow> Mapping.empty);
          s0 = s\<lparr>m_top_rateds := Some tops\<rparr>
      in bindR (score_at score k s0) (\<lambda>(factor, s1).
         bindR (index_meta s1 k) (\<lambda>m.
         bindR (update_elems score rm k factor tops [] (mi_list m) s1) (\<lambda>(favs, s2).
         bindR (set_index_meta k (if favs = [] \<and> rm then None else Some (m\<lparr>tcref := int (length favs)\<rparr>)) s2) (\<lambda>s3.
           if favs = [] \<and> rm then Ok s3
           else Ok (s3\<lparr>m_top_rateds := Some (insert_tops k favs tops)\<rparr>))))))"

text \<open>The entries of a hash map in the order of its iterator: a permutation \<open>ord\<close> of the keys.\<close>

definition entries_in :: "(nat list \<Rightarrow> nat list) \<Rightarrow> (nat, 'v) mapping \<Rightarrow> (nat \<times> 'v) list" where
  "entries_in ord m = map (\<lambda>e. (e, the (Mapping.lookup m e))) (ord (Mapping.ordered_keys m))"

fun cull_loop :: "(nat \<times> corpus_id) list \<Rightarrow> nat list \<Rightarrow> fuzz_state \<Rightarrow> error + fuzz_state" where
  "cull_loop [] acc s = Ok s"
| "cull_loop ((e, k) # es) acc s =
     (if e \<in> set acc then cull_loop es acc s
      else bindR (index_meta s k) (\<lambda>m.
           bindR (corpus_modify k (\<lambda>tc. tc\<lparr>tc_favored := True\<rparr>) s) (\<lambda>s1. cull_loop es (mi_list m @ acc) s1)))"

definition cull :: "(nat list \<Rightarrow> nat list) \<Rightarrow> fuzz_state \<Rightarrow> error + fuzz_state" where
  "cull ord s = (case m_top_rateds s of None \<Rightarrow> Ok s | Some tops \<Rightarrow> cull_loop (entries_in ord tops) [] s)"

subsection \<open>Hooks\<close>

definition minimizer_on_add ::
  "('c \<Rightarrow> corpus_id \<Rightarrow> fuzz_state \<Rightarrow> error + ('c \<times> fuzz_state)) \<Rightarrow> mscore \<Rightarrow> 'c minimizer \<Rightarrow> corpus_id \<Rightarrow> fuzz_state \<Rightarrow>
     error + ('c minimizer \<times> fuzz_state)" where
  "minimizer_on_add base_on_add score z k s =
     bindR (base_on_add (mz_base z) k s) (\<lambda>(b, s1).
     bindR (update_score score (remove_metadata z) k s1) (\<lambda>s2. Ok (z\<lparr>mz_base := b\<rparr>, s2)))"

definition minimizer_on_replace ::
  "('c \<Rightarrow> corpus_id \<Rightarrow> fuzz_state \<Rightarrow> error + ('c \<times> fuzz_state)) \<Rightarrow> mscore \<Rightarrow> 'c minimizer \<Rightarrow> corpus_id \<Rightarrow> fuzz_state \<Rightarrow>
     error + ('c minimizer \<times> fuzz_state)" where
  "minimizer_on_replace base_on_replace score z k s =
     bindR (base_on_replace (mz_base z) k s) (\<lambda>(b, s1).
     bindR (update_score score (remove_metadata z) k s1) (\<lambda>s2. Ok (z\<lparr>mz_base := b\<rparr>, s2)))"

text \<open>The intersection of two sorted lists.\<close>

fun intersect :: "nat list \<Rightarrow> nat list \<Rightarrow> nat list" where
  "intersect [] ms = []"
| "intersect es [] = []"
| "intersect (e # es) (m # ms) =
     (if e < m then intersect es (m # ms) else if e = m then e # intersect es ms else intersect (e # es) ms)"

definition better :: "f64 \<Rightarrow> corpus_id \<Rightarrow> nat \<Rightarrow> (nat, f64 \<times> corpus_id) mapping \<Rightarrow> (nat, f64 \<times> corpus_id) mapping" where
  "better factor k e best = (case Mapping.lookup best e of
     None \<Rightarrow> Mapping.update e (factor, k) best
   | Some (f, _) \<Rightarrow> if flt factor f then Mapping.update e (factor, k) best else best)"

text \<open>The best remaining testcase of every orphaned index.\<close>

fun reassign :: "mscore \<Rightarrow> nat list \<Rightarrow> corpus_id list \<Rightarrow> (nat, f64 \<times> corpus_id) mapping \<Rightarrow> fuzz_state \<Rightarrow>
    error + ((nat, f64 \<times> corpus_id) mapping \<times> fuzz_state)" where
  "reassign score entries [] best s = Ok (best, s)"
| "reassign score entries (k # ks) best s =
     bindR (score_at score k s) (\<lambda>(factor, s1).
     bindR (corpus_lookup s1 k) (\<lambda>tc.
       let best1 = (case tc_map_indexes tc of None \<Rightarrow> best
             | Some m \<Rightarrow> foldl (\<lambda>b e. better factor k e b) best (intersect entries (mi_list m)))
       in reassign score entries ks best1 s1))"

fun adopt :: "(nat \<times> f64 \<times> corpus_id) list \<Rightarrow> (nat, corpus_id) mapping \<Rightarrow> fuzz_state \<Rightarrow>
    error + ((nat, corpus_id) mapping \<times> fuzz_state)" where
  "adopt [] tops s = Ok (tops, s)"
| "adopt ((e, _, k) # es) tops s =
     bindR (index_meta s k) (\<lambda>m.
     bindR (set_index_meta k (Some (m\<lparr>tcref := tcref m + 1\<rparr>)) s) (\<lambda>s1. adopt es (Mapping.update e k tops) s1))"

definition orphans :: "corpus_id \<Rightarrow> (nat, corpus_id) mapping \<Rightarrow> nat list" where
  "orphans k tops = filter (\<lambda>e. Mapping.lookup tops e = Some k) (Mapping.ordered_keys tops)"

definition minimizer_on_remove ::
  "('c \<Rightarrow> 'c) \<Rightarrow> (nat list \<Rightarrow> nat list) \<Rightarrow> mscore \<Rightarrow> 'c minimizer \<Rightarrow> corpus_id \<Rightarrow> fuzz_state \<Rightarrow>
     error + ('c minimizer \<times> fuzz_state)" where
  "minimizer_on_remove base_on_remove ord score z k s =
     (let z1 = z\<lparr>mz_base := base_on_remove (mz_base z)\<rparr> in
      case m_top_rateds s of None \<Rightarrow> Ok (z1, s)
      | Some tops \<Rightarrow>
        let entries = orphans k tops;
            tops1 = foldl (\<lambda>m e. Mapping.delete e m) tops entries
        in bindR (corpus_ids s) (\<lambda>ks.
           bindR (reassign score entries ks Mapping.empty (s\<lparr>m_top_rateds := Some tops1\<rparr>)) (\<lambda>(best, s1).
           bindR (adopt (entries_in ord best) tops1 s1) (\<lambda>(tops2, s2). Ok (z1, s2\<lparr>m_top_rateds := Some tops2\<rparr>)))))"

subsection \<open>Choosing a testcase\<close>

partial_function (option) skip_loop ::
  "('c \<Rightarrow> fuzz_state \<Rightarrow> error + (corpus_id \<times> 'c \<times> fuzz_state)) \<Rightarrow> f64 \<Rightarrow> corpus_id \<Rightarrow> 'c \<Rightarrow> fuzz_state \<Rightarrow>
     (error + (corpus_id \<times> 'c \<times> fuzz_state)) option" where
  "skip_loop nxt p k b s = (case corpus_lookup s k of
     Inl e \<Rightarrow> Some (Inl e)
   | Inr tc \<Rightarrow>
       if tc_favored tc then Some (Inr (k, b, s))
       else let (flip, r) = coinflip std_rand_next (st_rand s) p; s1 = s\<lparr>st_rand := r\<rparr> in
         if \<not> flip then Some (Inr (k, b, s1))
         else (case nxt b s1 of Inl e \<Rightarrow> Some (Inl e) | Inr (k1, b1, s2) \<Rightarrow> skip_loop nxt p k1 b1 s2))"

definition minimizer_next ::
  "('c \<Rightarrow> fuzz_state \<Rightarrow> error + (corpus_id \<times> 'c \<times> fuzz_state)) \<Rightarrow> (nat list \<Rightarrow> nat list) \<Rightarrow> 'c minimizer \<Rightarrow> fuzz_state \<Rightarrow>
     (error + (corpus_id \<times> 'c minimizer \<times> fuzz_state)) option" where
  "minimizer_next nxt ord z s = (case cull ord s of
     Inl e \<Rightarrow> Some (Inl e)
   | Inr s1 \<Rightarrow> (case nxt (mz_base z) s1 of
       Inl e \<Rightarrow> Some (Inl e)
     | Inr (k, b, s2) \<Rightarrow> map_option (map_sum id (\<lambda>(k1, b1, s3). (k1, z\<lparr>mz_base := b1\<rparr>, s3)))
         (skip_loop nxt (skip_non_favored_prob z) k b s2)))"

section \<open>Views of the state\<close>

definition idx :: "fuzz_state \<Rightarrow> corpus_id \<Rightarrow> map_indexes option" where
  "idx s k = (case corpus_lookup s k of Inr tc \<Rightarrow> tc_map_indexes tc | Inl _ \<Rightarrow> None)"

definition fav :: "fuzz_state \<Rightarrow> corpus_id \<Rightarrow> bool" where
  "fav s k = (case corpus_lookup s k of Inr tc \<Rightarrow> tc_favored tc | Inl _ \<Rightarrow> False)"

definition mframe :: "fuzz_state \<Rightarrow> fuzz_state \<Rightarrow> bool" where
  "mframe s s' = (wf_corpus (st_corpus s') \<and> st_ids s' = st_ids s \<and> m_top_rateds s' = m_top_rateds s \<and> m_weighted s' = m_weighted s)"

lemma mframe_trans: "mframe a b \<Longrightarrow> mframe b c \<Longrightarrow> mframe a c"
  by (simp add: mframe_def)

text \<open>A score touches neither the map indexes nor the favoured mark of a testcase, and never fails.\<close>

definition score_ok :: "mscore \<Rightarrow> bool" where
  "score_ok score = (\<forall>tc. \<exists>f tc'. score tc = Ok (f, tc') \<and> tc_map_indexes tc' = tc_map_indexes tc \<and> tc_favored tc' = tc_favored tc)"

lemma in_ids_lookup: "wf_corpus (st_corpus s) \<Longrightarrow> k \<in> set (st_ids s) \<longleftrightarrow> (\<exists>tc. corpus_lookup s k = Ok tc)"
  using corpus_lookup_iff [of s k] by (simp add: st_ids_def)

lemma idx_in_ids: "wf_corpus (st_corpus s) \<Longrightarrow> idx s k = Some m \<Longrightarrow> k \<in> set (st_ids s)"
  by (auto simp: idx_def in_ids_lookup split: sum.splits)

lemma modify_view:
  assumes "corpus_modify k f s = Ok s'" "wf_corpus (st_corpus s)"
  shows "mframe s s'" "corpus_lookup s k = Ok tc \<Longrightarrow> corpus_lookup s' k = Ok (f tc)"
    "j \<noteq> k \<Longrightarrow> corpus_lookup s' j = corpus_lookup s j" "st_rand s' = st_rand s" "m_weighted s' = m_weighted s"
    "m_dirty s' = m_dirty s" "current (st_corpus s') = current (st_corpus s)"
proof -
  note m = corpus_modify_lookup [OF assms(1)]
  show "corpus_lookup s k = Ok tc \<Longrightarrow> corpus_lookup s' k = Ok (f tc)"
    "j \<noteq> k \<Longrightarrow> corpus_lookup s' j = corpus_lookup s j" using m(1) by simp_all
  have "m_top_rateds s' = m_top_rateds s" "m_weighted s' = m_weighted s" by (subst m(2), simp)+
  then show "mframe s s'" using m(3) [OF assms(2)] modify_ids [OF assms(1)] by (simp add: mframe_def)
  show "st_rand s' = st_rand s" "m_weighted s' = m_weighted s" "m_dirty s' = m_dirty s" by (subst m(2), simp)+
  show "current (st_corpus s') = current (st_corpus s)"
    using assms(1) by (auto simp: corpus_modify_def bindR_Ok_iff update_testcase_def split: option.splits)
qed

lemma modify_views:
  assumes "corpus_modify k f s = Ok s'" "wf_corpus (st_corpus s)" "corpus_lookup s k = Ok tc"
  shows "idx s' = (idx s)(k := tc_map_indexes (f tc))" "fav s' = (fav s)(k := tc_favored (f tc))"
proof -
  note m = modify_view [OF assms(1,2)]
  show "idx s' = (idx s)(k := tc_map_indexes (f tc))" using m(2) [OF assms(3)] m(3) by (intro ext) (simp add: idx_def)
  show "fav s' = (fav s)(k := tc_favored (f tc))" using m(2) [OF assms(3)] m(3) by (intro ext) (simp add: fav_def)
qed

lemma score_at_ok:
  assumes "score_ok score" "wf_corpus (st_corpus s)" "k \<in> set (st_ids s)"
  shows "\<exists>f s'. score_at score k s = Ok (f, s') \<and> mframe s s' \<and> idx s' = idx s \<and> fav s' = fav s"
proof -
  obtain tc where tc: "corpus_lookup s k = Ok tc" using assms(2,3) by (auto simp: in_ids_lookup)
  obtain f tc' where f: "score tc = Ok (f, tc')" "tc_map_indexes tc' = tc_map_indexes tc" "tc_favored tc' = tc_favored tc"
    using assms(1) unfolding score_ok_def by blast
  obtain s' where s': "corpus_modify k (\<lambda>_. tc') s = Ok s'" using corpus_modify_total [OF tc] by blast
  note v = modify_views [OF s' assms(2) tc]
  have "idx s' = idx s" "fav s' = fav s" using v f tc by (auto simp: fun_eq_iff idx_def fav_def)
  then show ?thesis using tc f s' modify_view(1) [OF s' assms(2)] by (auto simp: score_at_def)
qed

lemma index_meta_idx: "index_meta s k = Ok m \<longleftrightarrow> idx s k = Some m"
  by (auto simp: index_meta_def idx_def bindR_def split: sum.splits option.splits)

lemma set_index_meta_ok:
  assumes "wf_corpus (st_corpus s)" "k \<in> set (st_ids s)"
  shows "\<exists>s'. set_index_meta k m s = Ok s' \<and> mframe s s' \<and> idx s' = (idx s)(k := m) \<and> fav s' = fav s"
proof -
  obtain tc where tc: "corpus_lookup s k = Ok tc" using assms by (auto simp: in_ids_lookup)
  then obtain s' where s': "corpus_modify k (\<lambda>tc. tc\<lparr>tc_map_indexes := m\<rparr>) s = Ok s'" using corpus_modify_total by blast
  note v = modify_views [OF s' assms(1) tc]
  have "fav s' = fav s" using v(2) tc by (auto simp: fun_eq_iff fav_def)
  then show ?thesis using s' v(1) modify_view(1) [OF s' assms(1)] by (auto simp: set_index_meta_def)
qed

section \<open>Consistency\<close>

text \<open>The rating \<open>f\<close> is consistent at a testcase when each index it is rated for is in its list, and its
  reference count is the number of these indexes.\<close>

definition ok_at :: "(corpus_id \<Rightarrow> map_indexes option) \<Rightarrow> (nat \<Rightarrow> corpus_id option) \<Rightarrow> corpus_id \<Rightarrow> bool" where
  "ok_at ix f j = ((\<forall>e. f e = Some j \<longrightarrow> (\<exists>m. ix j = Some m \<and> e \<in> set (mi_list m))) \<and>
     (\<forall>m. ix j = Some m \<longrightarrow> tcref m = int (card {e. f e = Some j})))"

definition rating :: "fuzz_state \<Rightarrow> nat \<Rightarrow> corpus_id option" where
  "rating s = (case m_top_rateds s of Some t \<Rightarrow> Mapping.lookup t | None \<Rightarrow> (\<lambda>_. None))"

definition lists_ok :: "fuzz_state \<Rightarrow> bool" where
  "lists_ok s = (\<forall>k m. idx s k = Some m \<longrightarrow> sorted_wrt (<) (mi_list m))"

definition min_inv :: "fuzz_state \<Rightarrow> bool" where
  "min_inv s = (wf_corpus (st_corpus s) \<and> lists_ok s \<and> finite (dom (rating s)) \<and> (\<forall>k. ok_at (idx s) (rating s) k))"

lemma release_ok:
  assumes "wf_corpus (st_corpus s)" "f e = Some j" "ok_at (idx s) f j" "finite (dom f)" "j \<noteq> k"
  shows "\<exists>s' x. release rm j s = Ok s' \<and> mframe s s' \<and> idx s' = (idx s)(j := x) \<and> fav s' = fav s \<and>
    ok_at (idx s') (f(e := Some k)) j \<and> (\<forall>m'. x = Some m' \<longrightarrow> (\<exists>m. idx s j = Some m \<and> mi_list m' = mi_list m))"
proof -
  obtain m where m: "idx s j = Some m" "e \<in> set (mi_list m)" using assms(2,3) by (auto simp: ok_at_def)
  let ?m1 = "m\<lparr>tcref := tcref m - 1\<rparr>"
  let ?x = "if tcref ?m1 \<le> 0 \<and> rm then None else Some ?m1"
  obtain s' where s': "set_index_meta j ?x s = Ok s'" "mframe s s'" "idx s' = (idx s)(j := ?x)" "fav s' = fav s"
    using set_index_meta_ok [OF assms(1) idx_in_ids [OF assms(1) m(1)]] by blast
  have fin: "finite {e. f e = Some j}" by (rule finite_subset [OF _ assms(4)]) auto
  have set: "{e'. (f(e := Some k)) e' = Some j} = {e. f e = Some j} - {e}" using assms(5) by auto
  have card: "int (card {e'. (f(e := Some k)) e' = Some j}) = tcref m - 1"
    unfolding set using assms(2,3) m(1) fin card_gt_0_iff [of "{e. f e = Some j}"] by (auto simp: ok_at_def of_nat_diff)
  have "ok_at (idx s') (f(e := Some k)) j"
  proof (cases "tcref ?m1 \<le> 0 \<and> rm")
    case True
    then have "card {e'. (f(e := Some k)) e' = Some j} = 0" using card by simp
    then have "{e'. (f(e := Some k)) e' = Some j} = {}" using fin set by (simp add: card_eq_0_iff)
    then show ?thesis using True s'(3) by (auto simp: ok_at_def)
  next
    case False
    have "(f(e := Some k)) e' = Some j \<Longrightarrow> e' \<in> set (mi_list m)" for e'
      using assms(2,3,5) m(1) by (auto simp: ok_at_def split: if_splits)
    then show ?thesis using False s'(3) card by (auto simp: ok_at_def)
  qed
  moreover have "release rm j s = Ok s'" using m(1) s'(1) by (simp add: release_def index_meta_idx [THEN iffD2, OF m(1)] Let_def)
  ultimately show ?thesis using s' m(1) by (intro exI [of _ s'] exI [of _ ?x]) auto
qed

text \<open>The rating once the indexes \<open>favs\<close> are given to \<open>k\<close>.\<close>

definition given :: "corpus_id \<Rightarrow> nat list \<Rightarrow> (nat \<Rightarrow> corpus_id option) \<Rightarrow> nat \<Rightarrow> corpus_id option" where
  "given k favs f e = (if e \<in> set favs then Some k else f e)"

lemma given_snoc: "given k (favs @ [e]) f = (given k favs f)(e := Some k)"
  by (auto simp: given_def fun_eq_iff)

lemma given_dom: "finite (dom f) \<Longrightarrow> finite (dom (given k favs f))"
  by (rule finite_subset [of _ "dom f \<union> set favs"]) (auto simp: given_def)

lemma ok_at_cong: "(\<And>e. f e = Some j \<longleftrightarrow> g e = Some j) \<Longrightarrow> ix j = iy j \<Longrightarrow> ok_at ix f j = ok_at iy g j"
  by (simp add: ok_at_def)

lemma update_elems_ok:
  assumes "score_ok score" "wf_corpus (st_corpus s)" "finite (dom f)" "f = Mapping.lookup tops"
    "\<forall>j. j \<noteq> k \<longrightarrow> ok_at (idx s) (given k favs f) j" "distinct (favs @ es)" "lists_ok s"
  shows "\<exists>favs' s'. update_elems score rm k factor tops favs es s = Ok (favs', s') \<and> mframe s s' \<and> idx s' k = idx s k \<and>
    fav s' = fav s \<and> lists_ok s' \<and> (\<forall>j. j \<noteq> k \<longrightarrow> ok_at (idx s') (given k favs' f) j) \<and>
    set favs' \<subseteq> set favs \<union> set es \<and> distinct favs' \<and> set favs \<subseteq> set favs' \<and> (\<forall>e \<in> set es. f e = None \<or> f e = Some k \<longrightarrow> e \<in> set favs')"
  using assms(2,5-7)
proof (induction es arbitrary: favs s)
  case Nil
  then show ?case by (auto simp: mframe_def)
next
  case (Cons e es)
  have e: "e \<notin> set favs" "distinct ((favs @ [e]) @ es)" "distinct (favs @ es)" using Cons.prems(3) by auto
  show ?case
  proof (cases "f e = None \<or> f e = Some k")
    case True
    have "ok_at (idx s) (given k (favs @ [e]) f) j = ok_at (idx s) (given k favs f) j" if "j \<noteq> k" for j
      by (rule ok_at_cong) (use True that in \<open>auto simp: given_def\<close>)
    then have "\<forall>j. j \<noteq> k \<longrightarrow> ok_at (idx s) (given k (favs @ [e]) f) j" using Cons.prems(2) by blast
    from Cons.IH [OF Cons.prems(1) this e(2) Cons.prems(4)] True show ?thesis
      unfolding assms(4) by (auto split: option.splits)
  next
    case False
    then obtain old where old: "f e = Some old" "old \<noteq> k" by auto
    have g: "given k favs f e = Some old" using e(1) old(1) by (simp add: given_def)
    have "old \<in> set (st_ids s)" using Cons.prems(1,2) g old(2) idx_in_ids by (fastforce simp: ok_at_def)
    then obtain fo s1 where s1: "score_at score old s = Ok (fo, s1)" "mframe s s1" "idx s1 = idx s" "fav s1 = fav s"
      using score_at_ok [OF assms(1) Cons.prems(1)] by blast
    have wf1: "wf_corpus (st_corpus s1)" and l1: "lists_ok s1" using s1 Cons.prems(4) by (simp_all add: mframe_def lists_ok_def)
    show ?thesis
    proof (cases "flt fo factor")
      case True
      have "\<forall>j. j \<noteq> k \<longrightarrow> ok_at (idx s1) (given k favs f) j" using Cons.prems(2) s1(3) by simp
      from Cons.IH [OF wf1 this e(3) l1] show ?thesis
        using old s1 True mframe_trans [OF s1(2)] unfolding assms(4) by fastforce
    next
      case False
      obtain s2 x where s2: "release rm old s1 = Ok s2" "mframe s1 s2" "idx s2 = (idx s1)(old := x)" "fav s2 = fav s1"
          "ok_at (idx s2) ((given k favs f)(e := Some k)) old"
          "\<forall>m'. x = Some m' \<longrightarrow> (\<exists>m. idx s1 old = Some m \<and> mi_list m' = mi_list m)"
        using release_ok [of s1 "given k favs f" e old k rm] wf1 g Cons.prems(2) s1(3) old(2) given_dom [OF assms(3)] by auto
      have "ok_at (idx s2) (given k (favs @ [e]) f) j" if "j \<noteq> k" for j
      proof (cases "j = old")
        case True
        then show ?thesis using s2(5) by (simp add: given_snoc)
      next
        case False
        have "ok_at (idx s2) (given k (favs @ [e]) f) j = ok_at (idx s1) (given k favs f) j"
          by (rule ok_at_cong) (use False that g s2(3) in \<open>auto simp: given_snoc\<close>)
        then show ?thesis using Cons.prems(2) s1(3) that by simp
      qed
      then have ok2: "\<forall>j. j \<noteq> k \<longrightarrow> ok_at (idx s2) (given k (favs @ [e]) f) j" by blast
      have wf2: "wf_corpus (st_corpus s2)" using s2(2) by (simp add: mframe_def)
      have l2: "lists_ok s2" using l1 s2(3,6) by (auto simp: lists_ok_def)
      from Cons.IH [OF wf2 ok2 e(2) l2] show ?thesis
        using old s1 s2 False mframe_trans [OF mframe_trans [OF s1(2) s2(2)]] unfolding assms(4) by fastforce
    qed
  qed
qed

lemma lookup_insert_tops: "Mapping.lookup (insert_tops k favs tops) = given k favs (Mapping.lookup tops)"
  unfolding insert_tops_def by (rule ext) (induction favs arbitrary: tops, auto simp: given_def lookup_update_fun)

lemma view_tops [simp]:
  "idx (s\<lparr>m_top_rateds := t\<rparr>) = idx s" "fav (s\<lparr>m_top_rateds := t\<rparr>) = fav s" "st_ids (s\<lparr>m_top_rateds := t\<rparr>) = st_ids s"
  by (simp_all add: fun_eq_iff idx_def fav_def corpus_lookup_def st_ids_def)

lemma rating_tops [simp]: "rating (s\<lparr>m_top_rateds := Some t\<rparr>) = Mapping.lookup t"
  by (simp add: rating_def)

lemma lists_ok_tops [simp]: "lists_ok (s\<lparr>m_top_rateds := t\<rparr>) = lists_ok s"
  by (simp add: lists_ok_def)

text \<open>The score of a testcase \<open>k\<close> is updated: it gets the indexes \<open>favs\<close> of its list, and the other testcases
  stay consistent. Nothing is asked of the old rating at \<open>k\<close> itself.\<close>

definition score_updated :: "corpus_id \<Rightarrow> map_indexes \<Rightarrow> nat list \<Rightarrow> fuzz_state \<Rightarrow> fuzz_state \<Rightarrow> bool" where
  "score_updated k m favs s s' = (wf_corpus (st_corpus s') \<and> lists_ok s' \<and> st_ids s' = st_ids s \<and> fav s' = fav s \<and>
     m_weighted s' = m_weighted s \<and> rating s' = given k favs (rating s) \<and> set favs \<subseteq> set (mi_list m) \<and> distinct favs \<and>
     (\<forall>e \<in> set (mi_list m). rating s e = None \<or> rating s e = Some k \<longrightarrow> e \<in> set favs) \<and>
     (\<forall>j. j \<noteq> k \<longrightarrow> ok_at (idx s') (rating s') j) \<and>
     (idx s' k = None \<and> favs = [] \<or> idx s' k = Some (m\<lparr>tcref := int (length favs)\<rparr>)))"

lemma update_score_effect:
  assumes "score_ok score" "wf_corpus (st_corpus s)" "lists_ok s" "finite (dom (rating s))"
    "\<forall>j. j \<noteq> k \<longrightarrow> ok_at (idx s) (rating s) j" "idx s k = Some m"
  shows "\<exists>favs s'. update_score score rm k s = Ok s' \<and> score_updated k m favs s s'"
proof -
  define tops where "tops = (case m_top_rateds s of Some t \<Rightarrow> t | None \<Rightarrow> Mapping.empty)"
  let ?f = "Mapping.lookup tops"
  have r: "rating s = ?f" by (auto simp: rating_def tops_def lookup_empty split: option.splits)
  have f: "finite (dom ?f)" "\<forall>j. j \<noteq> k \<longrightarrow> ok_at (idx s) ?f j" using assms(4,5) r by simp_all
  let ?s0 = "s\<lparr>m_top_rateds := Some tops\<rparr>"
  obtain factor s1 where s1: "score_at score k ?s0 = Ok (factor, s1)" "mframe ?s0 s1" "idx s1 = idx s" "fav s1 = fav s"
    using score_at_ok [OF assms(1), of ?s0 k] assms(2) idx_in_ids [OF assms(2,6)] by auto
  have wf1: "wf_corpus (st_corpus s1)" "lists_ok s1" "idx s1 k = Some m"
    using s1 assms(3,6) by (simp_all add: mframe_def lists_ok_def)
  have "given k [] ?f = ?f" by (simp add: given_def fun_eq_iff)
  moreover have "distinct (mi_list m)" using assms(3,6) sorted_distinct by (auto simp: lists_ok_def)
  ultimately obtain favs s2 where u: "update_elems score rm k factor tops [] (mi_list m) s1 = Ok (favs, s2)" "mframe s1 s2"
      "idx s2 k = idx s1 k" "fav s2 = fav s1" "lists_ok s2" "\<forall>j. j \<noteq> k \<longrightarrow> ok_at (idx s2) (given k favs ?f) j"
      "set favs \<subseteq> set (mi_list m)" "distinct favs" "\<forall>e \<in> set (mi_list m). ?f e = None \<or> ?f e = Some k \<longrightarrow> e \<in> set favs"
    using update_elems_ok [OF assms(1) wf1(1) f(1) refl, of k "[]" "mi_list m" rm factor] wf1(2) f(2) s1(3) by auto
  let ?m = "if favs = [] \<and> rm then None else Some (m\<lparr>tcref := int (length favs)\<rparr>)"
  have k2: "wf_corpus (st_corpus s2)" "k \<in> set (st_ids s2)"
    using u(2,3) wf1(3) idx_in_ids [of s2 k m] by (simp_all add: mframe_def)
  then obtain s3 where s3: "set_index_meta k ?m s2 = Ok s3" "mframe s2 s3" "idx s3 = (idx s2)(k := ?m)" "fav s3 = fav s2"
    using set_index_meta_ok by blast
  let ?s' = "if favs = [] \<and> rm then s3 else s3\<lparr>m_top_rateds := Some (insert_tops k favs tops)\<rparr>"
  have st: "update_score score rm k s = Ok ?s'"
    using s1(1) u(1) s3(1) index_meta_idx [of s1 k m] wf1(3) unfolding update_score_def tops_def [symmetric] by (simp add: Let_def)
  have ids: "wf_corpus (st_corpus s3)" "st_ids s3 = st_ids s" "m_top_rateds s3 = Some tops" "m_weighted s3 = m_weighted s"
    using s1(2) u(2) s3(2) by (simp_all add: mframe_def)
  have rt: "rating ?s' = given k favs ?f" using ids(3) by (auto simp: rating_def lookup_insert_tops given_def fun_eq_iff)
  have l3: "lists_ok s3" using u(5,3) s3(3) wf1(3) by (auto simp: lists_ok_def split: if_splits)
  have ix: "idx ?s' = idx s3" by simp
  have "ok_at (idx s3) (given k favs ?f) j" if "j \<noteq> k" for j using u(6) that s3(3) by (simp add: ok_at_def)
  then have ok: "\<forall>j. j \<noteq> k \<longrightarrow> ok_at (idx ?s') (rating ?s') j" unfolding rt ix by blast
  have "idx ?s' k = None \<and> favs = [] \<or> idx ?s' k = Some (m\<lparr>tcref := int (length favs)\<rparr>)" unfolding ix using s3(3) by simp
  moreover have "wf_corpus (st_corpus ?s') \<and> lists_ok ?s' \<and> st_ids ?s' = st_ids s \<and> fav ?s' = fav s \<and> m_weighted ?s' = m_weighted s"
    using ids l3 s3(4) u(4) s1(4) by simp
  ultimately have "score_updated k m favs s ?s'" using ok rt u(7-9) unfolding score_updated_def r by blast
  with st show ?thesis by blast
qed

lemma score_updated_inv:
  assumes "score_updated k m favs s s'" "finite (dom (rating s))" "\<forall>e. rating s e = Some k \<longrightarrow> e \<in> set (mi_list m)"
  shows "min_inv s'"
proof -
  note u = assms(1) [unfolded score_updated_def]
  have s: "{e. rating s' e = Some k} = set favs" using u assms(3) by (auto simp: given_def)
  then have "card {e. rating s' e = Some k} = length favs" using u by (simp add: distinct_card)
  moreover have "\<exists>m. idx s' k = Some m \<and> e \<in> set (mi_list m)" if "rating s' e = Some k" for e
  proof -
    have "e \<in> set favs" using s that by blast
    then show ?thesis using u by fastforce
  qed
  ultimately have "ok_at (idx s') (rating s') k" using u by (auto simp: ok_at_def)
  then have "ok_at (idx s') (rating s') j" for j using u by (cases "j = k") auto
  then show ?thesis using u given_dom [OF assms(2)] by (simp add: min_inv_def)
qed

lemma score_updated_dom:
  assumes "score_updated k m favs s s'"
  shows "dom (rating s) \<union> set (mi_list m) \<subseteq> dom (rating s')"
proof
  fix e
  assume "e \<in> dom (rating s) \<union> set (mi_list m)"
  then show "e \<in> dom (rating s')" using assms by (cases "rating s e") (auto simp: score_updated_def given_def)
qed

lemma update_score_ok:
  assumes "score_ok score" "min_inv s" "idx s k = Some m"
  shows "\<exists>s'. update_score score rm k s = Ok s' \<and> min_inv s' \<and> st_ids s' = st_ids s \<and> fav s' = fav s \<and>
    m_weighted s' = m_weighted s \<and> dom (rating s) \<subseteq> dom (rating s') \<and> (\<forall>e \<in> set (mi_list m). e \<in> dom (rating s'))"
proof -
  have inv: "wf_corpus (st_corpus s)" "lists_ok s" "finite (dom (rating s))" "\<forall>j. j \<noteq> k \<longrightarrow> ok_at (idx s) (rating s) j"
    using assms(2) by (simp_all add: min_inv_def)
  obtain favs s' where s': "update_score score rm k s = Ok s'" "score_updated k m favs s s'"
    using update_score_effect [OF assms(1) inv assms(3)] by blast
  have "\<forall>e. rating s e = Some k \<longrightarrow> e \<in> set (mi_list m)" using assms(2,3) by (fastforce simp: min_inv_def ok_at_def)
  from score_updated_inv [OF s'(2) inv(3) this] score_updated_dom [OF s'(2)] s' show ?thesis
    by (auto simp: score_updated_def)
qed

section \<open>Culling\<close>

text \<open>The iteration order of a hash map is some permutation of its keys.\<close>

definition order_ok :: "(nat list \<Rightarrow> nat list) \<Rightarrow> bool" where
  "order_ok ord = (\<forall>xs. set (ord xs) = set xs \<and> (distinct xs \<longrightarrow> distinct (ord xs)))"

lemma set_ordered_keys: "finite (dom (Mapping.lookup m)) \<Longrightarrow> set (Mapping.ordered_keys m) = dom (Mapping.lookup m)"
  "distinct (Mapping.ordered_keys m)" "sorted_wrt (<) (Mapping.ordered_keys m)" for m :: "(nat, 'v) mapping"
  by (simp_all add: Mapping.ordered_keys_def keys_dom_lookup strict_sorted_list_of_set)

lemma entries_in_facts:
  assumes "order_ok ord" "finite (dom (Mapping.lookup m))"
  shows "fst ` set (entries_in ord m) = dom (Mapping.lookup m)" "(e, x) \<in> set (entries_in ord m) \<Longrightarrow> Mapping.lookup m e = Some x"
    "distinct (map fst (entries_in ord m))"
  using assms set_ordered_keys [of m] by (auto simp: entries_in_def order_ok_def image_image comp_def)

definition covered_by_fav :: "fuzz_state \<Rightarrow> nat \<Rightarrow> bool" where
  "covered_by_fav s e = (\<exists>j m. fav s j \<and> idx s j = Some m \<and> e \<in> set (mi_list m))"

lemma cull_loop_ok:
  assumes "wf_corpus (st_corpus s)" "\<forall>(e, k) \<in> set es. \<exists>m. idx s k = Some m \<and> e \<in> set (mi_list m)"
    "\<forall>e \<in> set acc. covered_by_fav s e"
  shows "\<exists>s'. cull_loop es acc s = Ok s' \<and> mframe s s' \<and> idx s' = idx s \<and> (\<forall>j. fav s j \<longrightarrow> fav s' j) \<and>
    (\<forall>e \<in> fst ` set es. covered_by_fav s' e) \<and> (\<forall>e \<in> set acc. covered_by_fav s' e) \<and> st_rand s' = st_rand s \<and>
    m_weighted s' = m_weighted s \<and> m_dirty s' = m_dirty s"
  using assms
proof (induction es acc s rule: cull_loop.induct)
  case (2 e k es acc s)
  show ?case
  proof (cases "e \<in> set acc")
    case True
    then obtain s' where "cull_loop es acc s = Ok s'" "mframe s s' \<and> idx s' = idx s \<and> (\<forall>j. fav s j \<longrightarrow> fav s' j) \<and>
        (\<forall>e \<in> fst ` set es. covered_by_fav s' e) \<and> (\<forall>e \<in> set acc. covered_by_fav s' e) \<and> st_rand s' = st_rand s \<and>
        m_weighted s' = m_weighted s \<and> m_dirty s' = m_dirty s"
      using "2.IH"(1) "2.prems" by auto
    then show ?thesis using True by auto
  next
    case False
    obtain m where m: "idx s k = Some m" "e \<in> set (mi_list m)" using "2.prems"(2) by auto
    obtain tc where tc: "corpus_lookup s k = Ok tc" using idx_in_ids [OF "2.prems"(1) m(1)] "2.prems"(1) by (auto simp: in_ids_lookup)
    then obtain s1 where s1: "corpus_modify k (\<lambda>tc. tc\<lparr>tc_favored := True\<rparr>) s = Ok s1" using corpus_modify_total by blast
    note v = modify_views [OF s1 "2.prems"(1) tc] and fr = modify_view [OF s1 "2.prems"(1)]
    have ix: "idx s1 = idx s" using v(1) tc by (auto simp: fun_eq_iff idx_def)
    have fv: "fav s j \<Longrightarrow> fav s1 j" "fav s1 k" for j using v(2) by simp_all
    have cov: "covered_by_fav s e' \<Longrightarrow> covered_by_fav s1 e'" "e' \<in> set (mi_list m) \<Longrightarrow> covered_by_fav s1 e'" for e'
      using fv ix m(1) by (auto simp: covered_by_fav_def)
    have im: "index_meta s k = Inr m" using index_meta_idx m(1) by blast
    obtain s' where s': "cull_loop es (mi_list m @ acc) s1 = Ok s'" "mframe s1 s'" "idx s' = idx s1" "\<forall>j. fav s1 j \<longrightarrow> fav s' j"
        "\<forall>e \<in> fst ` set es. covered_by_fav s' e" "\<forall>e \<in> set (mi_list m @ acc). covered_by_fav s' e" "st_rand s' = st_rand s1"
        "m_weighted s' = m_weighted s1" "m_dirty s' = m_dirty s1"
      using "2.IH"(2) [OF False, of s1 m] fr(1) ix cov "2.prems"(2,3) by (auto simp: mframe_def)
    then show ?thesis using False im s1 ix fv mframe_trans [OF fr(1)] m(2) fr(4-6) by auto
  qed
qed (auto simp: mframe_def)

lemma cull_ok:
  assumes "order_ok ord" "min_inv s"
  shows "\<exists>s'. cull ord s = Ok s' \<and> mframe s s' \<and> idx s' = idx s \<and> (\<forall>j. fav s j \<longrightarrow> fav s' j) \<and>
    (\<forall>e \<in> dom (rating s). covered_by_fav s' e) \<and> st_rand s' = st_rand s \<and> m_weighted s' = m_weighted s \<and> m_dirty s' = m_dirty s"
proof (cases "m_top_rateds s")
  case None
  then show ?thesis using assms(2) by (simp add: cull_def rating_def mframe_def min_inv_def)
next
  case (Some tops)
  have r: "rating s = Mapping.lookup tops" using Some by (simp add: rating_def)
  have fin: "finite (dom (Mapping.lookup tops))" using assms(2) r by (simp add: min_inv_def)
  note en = entries_in_facts [OF assms(1) fin]
  have "\<forall>(e, k) \<in> set (entries_in ord tops). \<exists>m. idx s k = Some m \<and> e \<in> set (mi_list m)"
    using en(2) assms(2) r by (auto simp: min_inv_def ok_at_def)
  then show ?thesis using cull_loop_ok [of s "entries_in ord tops" "[]"] assms(2) Some en(1) r by (simp add: cull_def min_inv_def)
qed

section \<open>Removal\<close>

lemma intersect_set:
  "sorted_wrt (<) es \<Longrightarrow> sorted_wrt (<) ms \<Longrightarrow> set (intersect es ms) = set es \<inter> set ms"
  by (induction es ms rule: intersect.induct) auto

lemma lookup_better:
  "Mapping.lookup (better factor k e b) e' =
     (if e' = e then (case Mapping.lookup b e of None \<Rightarrow> Some (factor, k)
        | Some (f, j) \<Rightarrow> if flt factor f then Some (factor, k) else Some (f, j)) else Mapping.lookup b e')"
  by (auto simp: better_def lookup_update_fun split: option.splits prod.splits)

lemma lookup_betters:
  assumes "Mapping.lookup (foldl (\<lambda>b e. better factor k e b) b xs) e = Some x"
  shows "Mapping.lookup b e = Some x \<or> e \<in> set xs \<and> x = (factor, k)"
  using assms
proof (induction xs arbitrary: b)
  case (Cons y xs)
  then have "Mapping.lookup (better factor k y b) e = Some x \<or> e \<in> set xs \<and> x = (factor, k)" by simp
  then show ?case by (auto simp: lookup_better split: if_splits option.splits)
qed simp

lemma dom_betters:
  "dom (Mapping.lookup (foldl (\<lambda>b e. better factor k e b) b xs)) = dom (Mapping.lookup b) \<union> set xs"
proof (induction xs arbitrary: b)
  case (Cons y xs)
  have "dom (Mapping.lookup (better factor k y b)) = insert y (dom (Mapping.lookup b))"
    by (auto simp: lookup_better split: if_splits option.splits)
  then show ?case using Cons by auto
qed simp

text \<open>Every candidate of an orphaned index has the index in its list.\<close>

definition candidates_ok :: "fuzz_state \<Rightarrow> nat list \<Rightarrow> (nat, f64 \<times> corpus_id) mapping \<Rightarrow> bool" where
  "candidates_ok s entries best = (\<forall>e x. Mapping.lookup best e = Some x \<longrightarrow>
     e \<in> set entries \<and> (\<exists>m. idx s (snd x) = Some m \<and> e \<in> set (mi_list m)))"

lemma reassign_ok:
  assumes "score_ok score" "wf_corpus (st_corpus s)" "set ks \<subseteq> set (st_ids s)" "lists_ok s" "sorted_wrt (<) entries"
    "candidates_ok s entries best" "finite (dom (Mapping.lookup best))"
  shows "\<exists>best' s'. reassign score entries ks best s = Ok (best', s') \<and> mframe s s' \<and> idx s' = idx s \<and> fav s' = fav s \<and>
    candidates_ok s entries best' \<and> finite (dom (Mapping.lookup best')) \<and> dom (Mapping.lookup best) \<subseteq> dom (Mapping.lookup best') \<and>
    (\<forall>k \<in> set ks. \<forall>m. idx s k = Some m \<longrightarrow> set entries \<inter> set (mi_list m) \<subseteq> dom (Mapping.lookup best'))"
  using assms(2-4,6,7)
proof (induction ks arbitrary: best s)
  case Nil
  then show ?case by (auto simp: mframe_def)
next
  case (Cons k ks)
  obtain factor s1 where s1: "score_at score k s = Ok (factor, s1)" "mframe s s1" "idx s1 = idx s" "fav s1 = fav s"
    using score_at_ok [OF assms(1) Cons.prems(1), of k] Cons.prems(2) by auto
  have wf1: "wf_corpus (st_corpus s1)" "st_ids s1 = st_ids s" using s1(2) by (simp_all add: mframe_def)
  obtain tc where tc: "corpus_lookup s1 k = Ok tc" using Cons.prems(2) wf1 in_ids_lookup [OF wf1(1), of k] by auto
  define xs where "xs = (case tc_map_indexes tc of None \<Rightarrow> [] | Some m \<Rightarrow> intersect entries (mi_list m))"
  define best1 where "best1 = foldl (\<lambda>b e. better factor k e b) best xs"
  have ik: "idx s k = tc_map_indexes tc" using tc s1(3) [THEN fun_cong, of k] by (simp add: idx_def [of s1])
  have eq: "reassign score entries (k # ks) best s = reassign score entries ks best1 s1"
    using s1(1) tc by (simp add: best1_def xs_def Let_def split: option.splits)
  have xs: "idx s k = Some m \<Longrightarrow> set xs = set entries \<inter> set (mi_list m)" for m
    using ik intersect_set [OF assms(5)] Cons.prems(3) by (auto simp: xs_def lists_ok_def)
  have xs0: "idx s k = None \<Longrightarrow> xs = []" using ik by (simp add: xs_def)
  have l1: "lists_ok s1" using Cons.prems(3) s1(3) by (simp add: lists_ok_def)
  have c1: "candidates_ok s1 entries best1"
    using lookup_betters [of factor k best xs] xs xs0 Cons.prems(4) s1(3)
    by (cases "idx s k") (fastforce simp: candidates_ok_def best1_def)+
  have d1: "dom (Mapping.lookup best1) = dom (Mapping.lookup best) \<union> set xs" unfolding best1_def by (rule dom_betters)
  then have f1: "finite (dom (Mapping.lookup best1))" using Cons.prems(5) by simp
  have sub: "set ks \<subseteq> set (st_ids s1)" using Cons.prems(2) wf1(2) by simp
  obtain best' s' where r: "reassign score entries ks best1 s1 = Ok (best', s')" "mframe s1 s'" "idx s' = idx s1" "fav s' = fav s1"
      "candidates_ok s1 entries best'" "finite (dom (Mapping.lookup best'))" "dom (Mapping.lookup best1) \<subseteq> dom (Mapping.lookup best')"
      "\<forall>k \<in> set ks. \<forall>m. idx s1 k = Some m \<longrightarrow> set entries \<inter> set (mi_list m) \<subseteq> dom (Mapping.lookup best')"
    using Cons.IH [OF wf1(1) sub l1 c1 f1] by blast
  have "candidates_ok s entries best'" using r(5) s1(3) by (simp add: candidates_ok_def)
  moreover have "set entries \<inter> set (mi_list m) \<subseteq> dom (Mapping.lookup best')" if "j \<in> set (k # ks)" "idx s j = Some m" for j m
  proof (cases "j = k")
    case True
    then show ?thesis using xs [of m] that(2) d1 r(7) by blast
  next
    case False
    then show ?thesis using r(8) that s1(3) by auto
  qed
  ultimately show ?case unfolding eq using r(1-4,6,7) s1(3,4) d1 mframe_trans [OF s1(2) r(2)] by auto
qed

text \<open>The rating after the entries \<open>es\<close> were adopted.\<close>

lemma adopt_ok:
  assumes "wf_corpus (st_corpus s)" "lists_ok s" "finite (dom (Mapping.lookup tops))" "\<And>j. ok_at (idx s) (Mapping.lookup tops) j"
    "distinct (map fst es)"
    "\<forall>(e, x, k) \<in> set es. Mapping.lookup tops e = None \<and> (\<exists>m. idx s k = Some m \<and> e \<in> set (mi_list m))"
  shows "\<exists>tops' s'. adopt es tops s = Ok (tops', s') \<and> mframe s s' \<and> lists_ok s' \<and> fav s' = fav s \<and>
    finite (dom (Mapping.lookup tops')) \<and> (\<forall>j. ok_at (idx s') (Mapping.lookup tops') j) \<and>
    dom (Mapping.lookup tops') = dom (Mapping.lookup tops) \<union> fst ` set es"
  using assms
proof (induction es tops s rule: adopt.induct)
  case (1 tops s)
  then show ?case by (auto simp: mframe_def)
next
  case (2 e x k es tops s)
  let ?f = "Mapping.lookup tops"
  obtain m where m: "idx s k = Some m" "e \<in> set (mi_list m)" "?f e = None" using "2.prems"(6) by auto
  let ?m = "m\<lparr>tcref := tcref m + 1\<rparr>"
  obtain s1 where s1: "set_index_meta k (Some ?m) s = Ok s1" "mframe s s1" "idx s1 = (idx s)(k := Some ?m)" "fav s1 = fav s"
    using set_index_meta_ok [OF "2.prems"(1) idx_in_ids [OF "2.prems"(1) m(1)]] by blast
  let ?tops = "Mapping.update e k tops"
  have fin: "finite {e. ?f e = Some k}" by (rule finite_subset [OF _ "2.prems"(3)]) auto
  have "{e'. Mapping.lookup ?tops e' = Some k} = insert e {e. ?f e = Some k}" by (auto simp: lookup_update_fun)
  then have "ok_at (idx s1) (Mapping.lookup ?tops) k"
    using "2.prems"(4) [of k] m fin s1(3) by (auto simp: ok_at_def lookup_update_fun)
  moreover have "ok_at (idx s1) (Mapping.lookup ?tops) j = ok_at (idx s) ?f j" if "j \<noteq> k" for j
    by (rule ok_at_cong) (use that m(3) s1(3) in \<open>auto simp: lookup_update_fun\<close>)
  ultimately have ok: "ok_at (idx s1) (Mapping.lookup ?tops) j" for j using "2.prems"(4) by (cases "j = k") auto
  have wf1: "wf_corpus (st_corpus s1)" and l1: "lists_ok s1"
    using s1(2,3) m(1) "2.prems"(2) by (auto simp: mframe_def lists_ok_def)
  have es: "\<forall>(e', y, j) \<in> set es. Mapping.lookup ?tops e' = None \<and> (\<exists>m. idx s1 j = Some m \<and> e' \<in> set (mi_list m))"
  proof clarify
    fix e' y j
    assume a: "(e', y, j) \<in> set es"
    then have "e' \<noteq> e" using "2.prems"(5) by force
    moreover obtain m' where "?f e' = None" "idx s j = Some m'" "e' \<in> set (mi_list m')" using "2.prems"(6) a by auto
    ultimately show "Mapping.lookup ?tops e' = None \<and> (\<exists>m. idx s1 j = Some m \<and> e' \<in> set (mi_list m))"
      using s1(3) m(1) by (cases "j = k") (auto simp: lookup_update_fun)
  qed
  have "finite (dom (Mapping.lookup ?tops))" using "2.prems"(3) by (simp add: lookup_update_fun)
  then obtain tops' s' where r: "adopt es ?tops s1 = Ok (tops', s')" "mframe s1 s'" "lists_ok s'" "fav s' = fav s1"
      "finite (dom (Mapping.lookup tops'))" "\<forall>j. ok_at (idx s') (Mapping.lookup tops') j"
      "dom (Mapping.lookup tops') = dom (Mapping.lookup ?tops) \<union> fst ` set es"
    using "2.IH" [of s1] wf1 l1 ok es "2.prems"(5) by auto
  have "adopt ((e, x, k) # es) tops s = Ok (tops', s')" using r(1) s1(1) index_meta_idx [of s k m] m(1) by simp
  then show ?case using r s1(4) mframe_trans [OF s1(2) r(2)] by (auto simp: lookup_update_fun)
qed

lemma lookup_deletes:
  "Mapping.lookup (foldl (\<lambda>m e. Mapping.delete e m) m xs) = (\<lambda>e. if e \<in> set xs then None else Mapping.lookup m e)"
  by (induction xs arbitrary: m) (auto simp: fun_eq_iff lookup_delete_fun)

text \<open>The state after the testcase itself was taken from the corpus: consistent except at that testcase.\<close>

definition removed_inv :: "corpus_id \<Rightarrow> fuzz_state \<Rightarrow> bool" where
  "removed_inv k s = (wf_corpus (st_corpus s) \<and> lists_ok s \<and> finite (dom (rating s)) \<and> k \<notin> set (st_ids s) \<and>
     (\<forall>j. j \<noteq> k \<longrightarrow> ok_at (idx s) (rating s) j))"

lemma on_remove_ok:
  assumes "score_ok score" "order_ok ord" "removed_inv k s"
  shows "\<exists>z' s'. minimizer_on_remove bor ord score z k s = Ok (z', s') \<and> min_inv s' \<and> st_ids s' = st_ids s \<and> fav s' = fav s \<and>
    mz_base z' = bor (mz_base z) \<and> m_weighted s' = m_weighted s \<and>
    (\<forall>j m e. idx s j = Some m \<and> e \<in> set (mi_list m) \<and> e \<in> dom (rating s) \<longrightarrow> e \<in> dom (rating s'))"
proof -
  have wf: "wf_corpus (st_corpus s)" "lists_ok s" "finite (dom (rating s))" "k \<notin> set (st_ids s)"
      "\<And>j. j \<noteq> k \<Longrightarrow> ok_at (idx s) (rating s) j" using assms(3) by (simp_all add: removed_inv_def)
  have ik: "idx s k = None" using wf(1,4) idx_in_ids [of s k] by (cases "idx s k") auto
  show ?thesis
  proof (cases "m_top_rateds s")
    case None
    then have "rating s = (\<lambda>_. None)" by (simp add: rating_def)
    moreover have "ok_at (idx s) (\<lambda>_. None) j" for j
      using ik wf(5) [of j] calculation by (cases "j = k") (simp_all add: ok_at_def)
    ultimately have "min_inv s" using wf by (simp add: min_inv_def)
    then show ?thesis using None \<open>rating s = (\<lambda>_. None)\<close> by (simp add: minimizer_on_remove_def Let_def)
  next
    case (Some tops)
    let ?f = "Mapping.lookup tops"
    have r: "rating s = ?f" using Some by (simp add: rating_def)
    define entries where "entries = orphans k tops"
    define tops1 where "tops1 = foldl (\<lambda>m e. Mapping.delete e m) tops entries"
    have en: "set entries = {e. ?f e = Some k}" "sorted_wrt (<) entries"
      using set_ordered_keys [of tops] wf(3) r by (auto simp: entries_def orphans_def sorted_wrt_filter)
    have l1: "Mapping.lookup tops1 = (\<lambda>e. if ?f e = Some k then None else ?f e)"
      using en(1) by (simp add: tops1_def lookup_deletes fun_eq_iff)
    have f1: "finite (dom (Mapping.lookup tops1))"
      by (rule finite_subset [OF _ wf(3)]) (auto simp: l1 r split: if_splits)
    have "ok_at (idx s) (Mapping.lookup tops1) j = ok_at (idx s) ?f j" if "j \<noteq> k" for j
      by (rule ok_at_cong) (use that in \<open>auto simp: l1\<close>)
    moreover have "ok_at (idx s) (Mapping.lookup tops1) k" using ik by (simp add: ok_at_def l1)
    ultimately have ok1: "ok_at (idx s) (Mapping.lookup tops1) j" for j using wf(5) r by (cases "j = k") auto
    let ?s0 = "s\<lparr>m_top_rateds := Some tops1\<rparr>"
    have c0: "candidates_ok ?s0 entries Mapping.empty" "finite (dom (Mapping.lookup (Mapping.empty :: (nat, f64 \<times> corpus_id) mapping)))"
      by (simp_all add: candidates_ok_def lookup_empty dom_def)
    obtain best s1 where b: "reassign score entries (st_ids s) Mapping.empty ?s0 = Ok (best, s1)" "mframe ?s0 s1" "idx s1 = idx ?s0"
        "fav s1 = fav ?s0" "candidates_ok ?s0 entries best" "finite (dom (Mapping.lookup best))"
        "\<forall>j \<in> set (st_ids s). \<forall>m. idx ?s0 j = Some m \<longrightarrow> set entries \<inter> set (mi_list m) \<subseteq> dom (Mapping.lookup best)"
      using reassign_ok [OF assms(1) _ _ _ en(2) c0, of "st_ids s"] wf(1,2) by auto
    note bi = entries_in_facts [OF assms(2) b(6)]
    have es: "\<forall>(e, x, j) \<in> set (entries_in ord best). Mapping.lookup tops1 e = None \<and> (\<exists>m. idx s1 j = Some m \<and> e \<in> set (mi_list m))"
      using bi(2) b(3,5) en(1) by (fastforce simp: candidates_ok_def l1)
    have wf1: "wf_corpus (st_corpus s1)" "lists_ok s1" "st_ids s1 = st_ids s"
      using b(2,3) wf(2) by (simp_all add: mframe_def lists_ok_def)
    have "\<And>j. ok_at (idx s1) (Mapping.lookup tops1) j" using ok1 b(3) by simp
    then obtain tops2 s2 where a: "adopt (entries_in ord best) tops1 s1 = Ok (tops2, s2)" "mframe s1 s2" "lists_ok s2" "fav s2 = fav s1"
        "finite (dom (Mapping.lookup tops2))" "\<forall>j. ok_at (idx s2) (Mapping.lookup tops2) j"
        "dom (Mapping.lookup tops2) = dom (Mapping.lookup tops1) \<union> dom (Mapping.lookup best)"
      using adopt_ok [OF wf1(1,2) f1 _ bi(3) es] bi(1) by auto
    let ?s' = "s2\<lparr>m_top_rateds := Some tops2\<rparr>"
    have "min_inv ?s'" using a wf1 by (auto simp: min_inv_def mframe_def)
    moreover have "e \<in> dom (Mapping.lookup tops2)" if "idx s j = Some m" "e \<in> set (mi_list m)" "e \<in> dom ?f" for j m e
      using that b(7) idx_in_ids [OF wf(1) that(1)] a(7) en(1) by (cases "?f e = Some k") (auto simp: l1)
    then have "\<forall>j m e. idx s j = Some m \<and> e \<in> set (mi_list m) \<and> e \<in> dom (rating s) \<longrightarrow> e \<in> dom (rating ?s')"
      unfolding r rating_tops by blast
    moreover have "minimizer_on_remove bor ord score z k s = Ok (z\<lparr>mz_base := bor (mz_base z)\<rparr>, ?s')"
      using Some wf(1) b(1) a(1) by (simp add: minimizer_on_remove_def Let_def entries_def tops1_def wf_ids)
    moreover have "st_ids ?s' = st_ids s" "fav ?s' = fav s" "m_weighted ?s' = m_weighted s"
      using a(2,4) b(2,4) wf1(3) by (simp_all add: mframe_def)
    ultimately show ?thesis by (intro exI [of _ "z\<lparr>mz_base := bor (mz_base z)\<rparr>"] exI [of _ ?s'] conjI) simp_all
  qed
qed

section \<open>Choosing over any base scheduler\<close>

lemma same_pool_views:
  assumes "same_pool s s'" "wf_corpus (st_corpus s)"
  shows "idx s' = idx s" "fav s' = fav s" "wf_corpus (st_corpus s')" "st_ids s' = st_ids s" "m_top_rateds s' = m_top_rateds s"
proof -
  have m: "wf_corpus (st_corpus s')" "st_ids s' = st_ids s" "m_top_rateds s' = m_top_rateds s"
    using assms by (simp_all add: same_pool_def)
  have "idx s' k = idx s k \<and> fav s' k = fav s k" for k
  proof (cases "corpus_lookup s k")
    case (Inr tc)
    then obtain x where "corpus_lookup s' k = Ok (tc\<lparr>tc_sched := x\<rparr>)" using assms(1) by (auto simp: same_pool_def)
    then show ?thesis using Inr by (simp add: idx_def fav_def)
  next
    case (Inl e)
    then have "k \<notin> set (st_ids s')" using m in_ids_lookup [OF assms(2), of k] by simp
    then obtain e' where "corpus_lookup s' k = Inl e'"
      using m in_ids_lookup [of s' k] by (cases "corpus_lookup s' k") auto
    then show ?thesis using Inl by (simp add: idx_def fav_def)
  qed
  then show "idx s' = idx s" "fav s' = fav s" by auto
qed (use assms in \<open>simp_all add: same_pool_def\<close>)

context base_scheduler
begin

text \<open>Whatever the loop returns is a testcase of the pool, favoured or kept by a failed coin flip.\<close>

lemma skip_loop_pool:
  assumes "skip_loop nxt p k b s = Some (Inr (k', b', s'))" "wf_corpus (st_corpus s)" "inv b s" "k \<in> set (st_ids s)"
  shows "k' \<in> set (st_ids s) \<and> same_pool s s' \<and> inv b' s' \<and> (fav s' k' \<or> (\<exists>r. coinflip std_rand_next r p = (False, st_rand s')))"
proof -
  define P where "P nx q k b s y \<longleftrightarrow> (nx = nxt \<and> wf_corpus (st_corpus s) \<and> inv b s \<and> k \<in> set (st_ids s) \<longrightarrow>
      (\<forall>k' b' s'. y = Inr (k', b', s') \<longrightarrow> k' \<in> set (st_ids s) \<and> same_pool s s' \<and> inv b' s' \<and>
        (fav s' k' \<or> (\<exists>r. coinflip std_rand_next r q = (False, st_rand s')))))"
    for nx q k b s and y :: "error + (corpus_id \<times> 'c \<times> fuzz_state)"
  have "P nxt p k b s (Inr (k', b', s'))"
  proof (rule skip_loop.raw_induct [of P, OF _ assms(1)])
    fix loop nx q k b s y
    assume IH: "\<And>nx q k b s y. loop nx q k b s = Some y \<Longrightarrow> P nx q k b s y"
      and body: "(case corpus_lookup s k of
         Inl e \<Rightarrow> Some (Inl e)
       | Inr tc \<Rightarrow>
           if tc_favored tc then Some (Inr (k, b, s))
           else let (flip, r) = coinflip std_rand_next (st_rand s) q; s1 = s\<lparr>st_rand := r\<rparr> in
             if \<not> flip then Some (Inr (k, b, s1))
             else (case nx b s1 of Inl e \<Rightarrow> Some (Inl e) | Inr (k1, b1, s2) \<Rightarrow> loop nx q k1 b1 s2)) = Some y"
    show "P nx q k b s y"
      unfolding P_def
    proof (intro impI allI)
      fix k' b' s'
      assume h: "nx = nxt \<and> wf_corpus (st_corpus s) \<and> inv b s \<and> k \<in> set (st_ids s)" and y: "y = Inr (k', b', s')"
      obtain tc where tc: "corpus_lookup s k = Ok tc" using h in_ids_lookup by blast
      obtain flip r where c: "coinflip std_rand_next (st_rand s) q = (flip, r)" by fastforce
      let ?s1 = "s\<lparr>st_rand := r\<rparr>"
      have s1: "same_pool s ?s1" "inv b ?s1" "wf_corpus (st_corpus ?s1)"
        using h inv_rand by (auto intro: same_pool_corpus)
      consider "tc_favored tc" | "\<not> tc_favored tc" "\<not> flip" | "\<not> tc_favored tc" flip by blast
      then show "k' \<in> set (st_ids s) \<and> same_pool s s' \<and> inv b' s' \<and> (fav s' k' \<or> (\<exists>r. coinflip std_rand_next r q = (False, st_rand s')))"
      proof cases
        case 1
        then show ?thesis using body tc y h by (auto simp: fav_def)
      next
        case 2
        have "k' = k" "b' = b" "s' = ?s1" using 2 body tc y c by auto
        moreover have "coinflip std_rand_next (st_rand s) q = (False, st_rand ?s1)" using c 2 by simp
        ultimately show ?thesis using h s1 by blast
      next
        case 3
        then obtain k1 b1 s2 where n: "nxt b ?s1 = Inr (k1, b1, s2)" "loop nx q k1 b1 s2 = Some y"
          using body tc c y h by (auto split: sum.splits)
        note o = next_ok [OF s1(2) n(1)]
        have "wf_corpus (st_corpus s2)" "k1 \<in> set (st_ids s2)" using o s1(3) by (auto simp: same_pool_def)
        then have "k' \<in> set (st_ids s2) \<and> same_pool s2 s' \<and> inv b' s' \<and> (fav s' k' \<or> (\<exists>r. coinflip std_rand_next r q = (False, st_rand s')))"
          using IH [OF n(2)] h o y unfolding P_def by blast
        moreover have "same_pool s s2" using same_pool_trans [OF s1(1)] o by blast
        ultimately show ?thesis using same_pool_trans [of s s2 s'] by (auto simp: same_pool_def)
      qed
    qed
  qed
  then show ?thesis using assms(2-4) by (simp add: P_def)
qed

text \<open>The loop ends at once on a favoured testcase, and on any testcase when nothing is ever skipped.\<close>

lemma skip_loop_stops:
  assumes "corpus_lookup s k = Ok tc" "tc_favored tc \<or> \<not> fst (coinflip std_rand_next (st_rand s) p)"
  shows "\<exists>s'. skip_loop nxt p k b s = Some (Inr (k, b, s'))"
  using assms by (cases "coinflip std_rand_next (st_rand s) p") (subst skip_loop.simps, auto)

end

lemma corpus_add_view:
  assumes "wf_corpus (st_corpus s)" "corpus_add (st_corpus s) tc = Some (c, k)"
  shows "wf_corpus c" "st_ids (s\<lparr>st_corpus := c\<rparr>) = st_ids s @ [k]" "k \<notin> set (st_ids s)"
    "corpus_lookup (s\<lparr>st_corpus := c\<rparr>) k = Ok tc" "j \<noteq> k \<Longrightarrow> corpus_lookup (s\<lparr>st_corpus := c\<rparr>) j = corpus_lookup s j"
proof -
  obtain t where t: "insert_inner (storage (st_corpus s)) tc False = Some (t, k)" "c = (st_corpus s)\<lparr>storage := t\<rparr>"
    using assms(2) by (auto simp: corpus_add_def)
  note i = insert_inner_ok [OF assms(1), of tc False, unfolded t(1), simplified]
  show "wf_corpus c" "st_ids (s\<lparr>st_corpus := c\<rparr>) = st_ids s @ [k]" using i t(2) by (simp_all add: st_ids_def)
  show "k \<notin> set (st_ids s)" using i assms(1) by (auto simp: wf_storage_def st_ids_def)
  show "corpus_lookup (s\<lparr>st_corpus := c\<rparr>) k = Ok tc" "j \<noteq> k \<Longrightarrow> corpus_lookup (s\<lparr>st_corpus := c\<rparr>) j = corpus_lookup s j"
    using i t(2) by (simp_all add: corpus_lookup_def corpus_get_def)
qed

lemma corpus_remove_view:
  assumes "wf_corpus (st_corpus s)" "k \<in> set (st_ids s)" "corpus_remove (st_corpus s) k = Some (c, r)"
  shows "wf_corpus c" "st_ids (s\<lparr>st_corpus := c\<rparr>) = remove1 k (st_ids s)" "k \<notin> set (st_ids (s\<lparr>st_corpus := c\<rparr>))"
    "j \<noteq> k \<Longrightarrow> corpus_lookup (s\<lparr>st_corpus := c\<rparr>) j = corpus_lookup s j"
proof -
  let ?e = "enabled (storage (st_corpus s))"
  obtain m' tc where m: "map_remove ?e k = Some (m', Some tc)" "\<forall>j. j \<noteq> k \<longrightarrow> map_get m' j = map_get ?e j" "skeys m' = remove1 k (skeys ?e)"
    using map_remove_ok [OF wf_corpus_maps(1) [OF assms(1)], of k] assms(2) by (auto simp: st_ids_def)
  have c: "enabled (storage c) = m'" using assms(3) m(1) by (auto simp: corpus_remove_def)
  show "wf_corpus c" by (rule corpus_remove_wf [OF assms(1,3)])
  show ids: "st_ids (s\<lparr>st_corpus := c\<rparr>) = remove1 k (st_ids s)" using c m(3) by (simp add: st_ids_def)
  show "k \<notin> set (st_ids (s\<lparr>st_corpus := c\<rparr>))" unfolding ids using st_ids_distinct [OF assms(1)] by simp
  show "j \<noteq> k \<Longrightarrow> corpus_lookup (s\<lparr>st_corpus := c\<rparr>) j = corpus_lookup s j" using c m(2) by (simp add: corpus_lookup_def corpus_get_def)
qed

lemma corpus_replace_view:
  assumes "wf_corpus (st_corpus s)" "k \<in> set (st_ids s)" "corpus_replace (st_corpus s) k tc = (c, r)"
  shows "wf_corpus c" "st_ids (s\<lparr>st_corpus := c\<rparr>) = st_ids s" "corpus_lookup (s\<lparr>st_corpus := c\<rparr>) k = Ok tc"
    "j \<noteq> k \<Longrightarrow> corpus_lookup (s\<lparr>st_corpus := c\<rparr>) j = corpus_lookup s j"
proof -
  let ?e = "enabled (storage (st_corpus s))"
  obtain it where it: "Mapping.lookup (smap ?e) k = Some it"
    using wf_map_lookup_iff [OF wf_corpus_maps(1) [OF assms(1)]] assms(2) by (auto simp: st_ids_def)
  show "wf_corpus c" by (rule corpus_replace_wf [OF assms(1,3)])
  show "st_ids (s\<lparr>st_corpus := c\<rparr>) = st_ids s" "corpus_lookup (s\<lparr>st_corpus := c\<rparr>) k = Ok tc"
    "j \<noteq> k \<Longrightarrow> corpus_lookup (s\<lparr>st_corpus := c\<rparr>) j = corpus_lookup s j"
    using it assms(3) by (auto simp: corpus_replace_def map_replace_def st_ids_def corpus_lookup_def corpus_get_def map_get_def lookup_update_fun)
qed

section \<open>The minimizer over the weighted scheduler\<close>

text \<open>
  The fuzzer starts with an empty corpus; testcases with fresh, increasing map indexes are added, enabled
  testcases are removed or replaced with the matching hook, testcases are chosen, and the rest of the
  fuzzer may change everything but the map indexes and their rating. A replacement keeps the map indexes
  that the old testcase is rated for; what happens to one that does not is part of the theorem below.
\<close>

inductive min_reach :: "(fuzz_state \<Rightarrow> testcase \<Rightarrow> error + f64) \<Rightarrow> mscore \<Rightarrow> (nat list \<Rightarrow> nat list) \<Rightarrow>
    weighted_scheduler minimizer \<Rightarrow> fuzz_state \<Rightarrow> bool" for wscore score ord where
  start: "st_corpus s = corpus_new \<Longrightarrow> m_top_rateds s = None \<Longrightarrow> with_schedule strat s = (w, s') \<Longrightarrow>
    min_reach wscore score ord (minimizer_new w) s'"
| added: "min_reach wscore score ord z s \<Longrightarrow> corpus_add (st_corpus s) tc = Some (c, k) \<Longrightarrow>
    tc_map_indexes tc = Some \<lparr>mi_list = l, tcref = 0\<rparr> \<Longrightarrow> sorted_wrt (<) l \<Longrightarrow>
    minimizer_on_add weighted_on_add score z k (s\<lparr>st_corpus := c\<rparr>) = Ok (z', s') \<Longrightarrow> min_reach wscore score ord z' s'"
| removed: "min_reach wscore score ord z s \<Longrightarrow> k \<in> set (st_ids s) \<Longrightarrow> corpus_remove (st_corpus s) k = Some (c, r) \<Longrightarrow>
    minimizer_on_remove weighted_on_remove ord score z k (s\<lparr>st_corpus := c\<rparr>) = Ok (z', s') \<Longrightarrow> min_reach wscore score ord z' s'"
| replaced: "min_reach wscore score ord z s \<Longrightarrow> k \<in> set (st_ids s) \<Longrightarrow> corpus_replace (st_corpus s) k tc = (c, r) \<Longrightarrow>
    tc_map_indexes tc = Some m \<Longrightarrow> sorted_wrt (<) (mi_list m) \<Longrightarrow> (\<forall>e. rating s e = Some k \<longrightarrow> e \<in> set (mi_list m)) \<Longrightarrow>
    minimizer_on_replace (\<lambda>w _ s. Ok (weighted_on_replace w, s)) score z k (s\<lparr>st_corpus := c\<rparr>) = Ok (z', s') \<Longrightarrow>
    min_reach wscore score ord z' s'"
| chosen: "min_reach wscore score ord z s \<Longrightarrow> length (st_ids s) < 2 ^ 64 \<Longrightarrow>
    minimizer_next (weighted_next wscore) ord z s = Some (Inr (k, z', s')) \<Longrightarrow> min_reach wscore score ord z' s'"
| other: "min_reach wscore score ord z s \<Longrightarrow> mframe s s' \<Longrightarrow> idx s' = idx s \<Longrightarrow> m_weighted s' = m_weighted s \<Longrightarrow>
    (marked_dirty s \<longrightarrow> marked_dirty s') \<Longrightarrow> min_reach wscore score ord z s'"

lemma min_inv_pool:
  "min_inv s \<Longrightarrow> wf_corpus (st_corpus s') \<Longrightarrow> m_top_rateds s' = m_top_rateds s \<Longrightarrow> idx s' = idx s \<Longrightarrow> min_inv s'"
  by (simp add: min_inv_def lists_ok_def rating_def)

lemma min_inv_frame: "min_inv s \<Longrightarrow> mframe s s' \<Longrightarrow> idx s' = idx s \<Longrightarrow> min_inv s'"
  by (rule min_inv_pool) (simp_all add: mframe_def)

lemma added_inv:
  assumes "min_inv s" "corpus_add (st_corpus s) tc = Some (c, k)" "tc_map_indexes tc = Some \<lparr>mi_list = l, tcref = 0\<rparr>" "sorted_wrt (<) l"
  shows "min_inv (s\<lparr>st_corpus := c\<rparr>)" "idx (s\<lparr>st_corpus := c\<rparr>) k = Some \<lparr>mi_list = l, tcref = 0\<rparr>"
proof -
  let ?s = "s\<lparr>st_corpus := c\<rparr>"
  have wf: "wf_corpus (st_corpus s)" using assms(1) by (simp add: min_inv_def)
  note v = corpus_add_view [OF wf assms(2)]
  show ik: "idx ?s k = Some \<lparr>mi_list = l, tcref = 0\<rparr>" using v(4) assms(3) by (simp add: idx_def)
  have ij: "j \<noteq> k \<Longrightarrow> idx ?s j = idx s j" for j using v(5) by (simp add: idx_def)
  have r: "rating ?s = rating s" by (simp add: rating_def)
  have n: "rating s e \<noteq> Some k" for e
    using assms(1) v(3) idx_in_ids [OF wf, of k] by (fastforce simp: min_inv_def ok_at_def)
  have "ok_at (idx ?s) (rating s) k" using ik n by (auto simp: ok_at_def)
  moreover have "ok_at (idx ?s) (rating s) j" if "j \<noteq> k" for j
    using assms(1) ij [OF that] by (simp add: min_inv_def ok_at_def)
  ultimately have "ok_at (idx ?s) (rating ?s) j" for j using r by (cases "j = k") auto
  moreover have "lists_ok ?s" unfolding lists_ok_def
  proof (intro allI impI)
    fix j m
    assume "idx ?s j = Some m"
    then show "sorted_wrt (<) (mi_list m)" using ij [of j] ik assms(1,4) by (cases "j = k") (auto simp: min_inv_def lists_ok_def)
  qed
  ultimately show "min_inv ?s" using v(1) r assms(1) by (simp add: min_inv_def)
qed

lemma weighted_on_add_view:
  assumes "weighted_on_add w k s = Ok (w', s')" "wf_corpus (st_corpus s)" "k \<in> set (st_ids s)"
  shows "mframe s s'" "idx s' = idx s" "fav s' = fav s" "m_weighted s' = m_weighted s" "table_invalidated w'"
proof -
  obtain x y where m: "corpus_modify k (\<lambda>tc. tc\<lparr>tc_sched := x, parent_id := y\<rparr>) s = Ok s'" and w: "table_invalidated w'"
    using assms(1) by (auto simp: weighted_on_add_def on_add_metadata_default_def Let_def bindR_Ok_iff)
  obtain tc where tc: "corpus_lookup s k = Ok tc" using assms(2,3) in_ids_lookup by blast
  note v = modify_views [OF m assms(2) tc]
  show "mframe s s'" "m_weighted s' = m_weighted s" using modify_view [OF m assms(2)] by blast+
  show "idx s' = idx s" "fav s' = fav s" using v tc by (auto simp: fun_eq_iff idx_def fav_def)
qed (use assms(1) in \<open>auto simp: weighted_on_add_def bindR_Ok_iff\<close>)

lemma on_add_ok:
  assumes "score_ok score" "min_inv s" "corpus_add (st_corpus s) tc = Some (c, k)"
    "tc_map_indexes tc = Some \<lparr>mi_list = l, tcref = 0\<rparr>" "sorted_wrt (<) l"
    "weighted_on_add (mz_base z) k (s\<lparr>st_corpus := c\<rparr>) = Ok (w', s1)"
  shows "\<exists>s'. minimizer_on_add weighted_on_add score z k (s\<lparr>st_corpus := c\<rparr>) = Ok (z\<lparr>mz_base := w'\<rparr>, s') \<and>
    min_inv s' \<and> st_ids s' = st_ids s @ [k] \<and> dom (rating s) \<union> set l \<subseteq> dom (rating s') \<and> m_weighted s' = m_weighted s \<and>
    table_invalidated w'"
proof -
  let ?s = "s\<lparr>st_corpus := c\<rparr>"
  note a = added_inv [OF assms(2-5)]
  have wf: "wf_corpus (st_corpus s)" using assms(2) by (simp add: min_inv_def)
  note v = corpus_add_view [OF wf assms(3)]
  have "wf_corpus (st_corpus ?s)" "k \<in> set (st_ids ?s)" using v by simp_all
  note b = weighted_on_add_view [OF assms(6) this]
  have i1: "min_inv s1" "idx s1 k = Some \<lparr>mi_list = l, tcref = 0\<rparr>" using min_inv_frame [OF a(1) b(1,2)] a(2) b(2) by simp_all
  have r1: "rating s1 = rating s" using b(1) by (simp add: mframe_def rating_def)
  obtain s' where s': "update_score score (remove_metadata z) k s1 = Ok s'" "min_inv s'" "st_ids s' = st_ids s1"
      "dom (rating s1) \<subseteq> dom (rating s')" "m_weighted s' = m_weighted s1" "\<forall>e \<in> set l. e \<in> dom (rating s')"
    using update_score_ok [OF assms(1) i1, of "remove_metadata z"] by auto
  have "minimizer_on_add weighted_on_add score z k ?s = Ok (z\<lparr>mz_base := w'\<rparr>, s')"
    using assms(6) s'(1) by (simp add: minimizer_on_add_def)
  moreover have "st_ids s' = st_ids s @ [k]" using s'(3) b(1) v(2) by (simp add: mframe_def)
  ultimately show ?thesis using s' r1 b(4,5) by auto
qed

lemma removed_state_inv:
  assumes "min_inv s" "k \<in> set (st_ids s)" "corpus_remove (st_corpus s) k = Some (c, r)"
  shows "removed_inv k (s\<lparr>st_corpus := c\<rparr>)" "idx (s\<lparr>st_corpus := c\<rparr>) = (idx s)(k := None)"
proof -
  let ?s = "s\<lparr>st_corpus := c\<rparr>"
  have wf: "wf_corpus (st_corpus s)" using assms(1) by (simp add: min_inv_def)
  note v = corpus_remove_view [OF wf assms(2,3)]
  have "idx ?s k = None" using v(1,3) idx_in_ids [of ?s k] by (cases "idx ?s k") auto
  then show ix: "idx ?s = (idx s)(k := None)" using v(4) by (auto simp: fun_eq_iff idx_def)
  have "ok_at (idx ?s) (rating s) j" if "j \<noteq> k" for j using assms(1) ix that by (simp add: min_inv_def ok_at_def)
  moreover have "rating ?s = rating s" by (simp add: rating_def)
  moreover have "lists_ok ?s" using assms(1) ix by (simp add: min_inv_def lists_ok_def)
  ultimately show "removed_inv k ?s" using v(1,3) assms(1) by (simp add: removed_inv_def min_inv_def)
qed

text \<open>A replacement succeeds on every consistent state.\<close>

lemma on_replace_effect:
  assumes "score_ok score" "min_inv s" "k \<in> set (st_ids s)" "corpus_replace (st_corpus s) k tc = (c, r)"
    "tc_map_indexes tc = Some m" "sorted_wrt (<) (mi_list m)"
  shows "\<exists>favs s'. minimizer_on_replace (\<lambda>w _ s. Ok (weighted_on_replace w, s)) score z k (s\<lparr>st_corpus := c\<rparr>) =
      Ok (z\<lparr>mz_base := weighted_on_replace (mz_base z)\<rparr>, s') \<and> score_updated k m favs (s\<lparr>st_corpus := c\<rparr>) s' \<and>
      st_ids s' = st_ids s"
proof -
  let ?s = "s\<lparr>st_corpus := c\<rparr>"
  have wf: "wf_corpus (st_corpus s)" using assms(2) by (simp add: min_inv_def)
  note v = corpus_replace_view [OF wf assms(3,4)]
  have ik: "idx ?s k = Some m" using v(3) assms(5) by (simp add: idx_def)
  have ij: "j \<noteq> k \<Longrightarrow> idx ?s j = idx s j" for j using v(4) by (simp add: idx_def)
  have "sorted_wrt (<) (mi_list m')" if "idx ?s j = Some m'" for j m'
    using that ij [of j] ik assms(2,6) by (cases "j = k") (auto simp: min_inv_def lists_ok_def)
  then have l: "lists_ok ?s" by (simp add: lists_ok_def)
  have rt: "rating ?s = rating s" by (simp add: rating_def)
  have "finite (dom (rating ?s))" "\<forall>j. j \<noteq> k \<longrightarrow> ok_at (idx ?s) (rating ?s) j"
    unfolding rt using assms(2) ij by (simp_all add: min_inv_def ok_at_def)
  then obtain favs s' where "update_score score (remove_metadata z) k ?s = Ok s'" "score_updated k m favs ?s s'"
    using update_score_effect [OF assms(1) _ l _ _ ik, of "remove_metadata z"] v(1) by auto
  moreover have "st_ids s' = st_ids s" using calculation(2) v(2) by (simp add: score_updated_def)
  ultimately show ?thesis by (intro exI [of _ favs] exI [of _ s']) (simp add: minimizer_on_replace_def)
qed

lemma minimizer_next_effect:
  assumes "order_ok ord" "min_inv s" "weighted_inv (mz_base z) s"
    "minimizer_next (weighted_next wscore) ord z s = Some (Inr (k, z', s'))"
  shows "k \<in> set (st_ids s) \<and> min_inv s' \<and> weighted_inv (mz_base z') s' \<and> st_ids s' = st_ids s \<and>
    (\<forall>e \<in> dom (rating s). covered_by_fav s' e) \<and>
    (fav s' k \<or> (\<exists>r. coinflip std_rand_next r (skip_non_favored_prob z) = (False, st_rand s')))"
proof -
  obtain s1 where c: "cull ord s = Ok s1" "mframe s s1" "idx s1 = idx s" "\<forall>e \<in> dom (rating s). covered_by_fav s1 e"
      "m_weighted s1 = m_weighted s" "m_dirty s1 = m_dirty s"
    using cull_ok [OF assms(1,2)] by blast
  have wf1: "wf_corpus (st_corpus s1)" "st_ids s1 = st_ids s" using c(2) by (simp_all add: mframe_def)
  have inv1: "weighted_inv (mz_base z) s1"
    using assms(3) wf1 c(5,6) by (simp add: weighted_inv_def marked_dirty_def table_ok_def)
  obtain k0 b s2 b1 where n: "weighted_next wscore (mz_base z) s1 = Ok (k0, b, s2)"
      "skip_loop (weighted_next wscore) (skip_non_favored_prob z) k0 b s2 = Some (Inr (k, b1, s'))" "z' = z\<lparr>mz_base := b1\<rparr>"
    using assms(4) c(1) by (auto simp: minimizer_next_def map_sum_def split: sum.splits)
  note o = weighted.next_ok [OF inv1 n(1)]
  then have s2: "wf_corpus (st_corpus s2)" "k0 \<in> set (st_ids s2)" "weighted_inv b s2" "same_pool s1 s2"
    using wf1 by (auto simp: same_pool_def)
  note l = weighted.skip_loop_pool [OF n(2) s2(1,3,2)]
  then have sp: "same_pool s1 s'" using same_pool_trans [OF s2(4)] by blast
  note v = same_pool_views [OF sp wf1(1)]
  have "min_inv s1" by (rule min_inv_frame [OF assms(2) c(2,3)])
  then have "min_inv s'" by (rule min_inv_pool [OF _ v(3,5,1)])
  moreover have "\<forall>e \<in> dom (rating s). covered_by_fav s' e" using c(4) v(1,2) by (simp add: covered_by_fav_def)
  ultimately show ?thesis using l n(3) v(4) wf1(2) s2(4) by (auto simp: same_pool_def)
qed

lemma min_reach_inv:
  assumes "score_ok score" "order_ok ord" "min_reach wscore score ord z s"
  shows "min_inv s \<and> weighted_inv0 (mz_base z) s"
  using assms(3)
proof (induction rule: min_reach.induct)
  case (start s strat w s')
  have c: "st_corpus s' = corpus_new" "m_top_rateds s' = None" using start by (auto simp: with_schedule_def Let_def split: if_splits)
  have ix: "idx s' k = None" for k
    using c(1) by (simp add: idx_def corpus_lookup_def corpus_get_def corpus_new_def storage_new_def storage_map_new_def map_get_def)
  have "weighted_reach wscore w s'" using start by (intro weighted_reach.create [of s strat]) simp_all
  then have "weighted_inv0 w s'" by (rule weighted_reach_inv)
  then show ?case using c ix by (simp add: min_inv_def lists_ok_def ok_at_def rating_def minimizer_new_def)
next
  case (added z s tc c k l z' s')
  obtain w1 s1 where b: "weighted_on_add (mz_base z) k (s\<lparr>st_corpus := c\<rparr>) = Ok (w1, s1)"
    using added.hyps(5) by (auto simp: minimizer_on_add_def bindR_Ok_iff)
  have "min_inv s" using added.IH by blast
  from on_add_ok [OF assms(1) this added.hyps(2-4) b] added.hyps(5) added.IH
  show ?case by (auto simp: weighted_inv0_def min_inv_def)
next
  case (removed z s k c r z' s')
  have "min_inv s" using removed.IH by blast
  from on_remove_ok [OF assms(1,2) removed_state_inv(1) [OF this removed.hyps(2,3)], of weighted_on_remove z] removed.hyps(4) removed.IH
  show ?case by (auto simp: weighted_inv0_def min_inv_def weighted_on_remove_def)
next
  case (replaced z s k tc c r m z' s')
  have i: "min_inv s" using replaced.IH by blast
  have rt: "rating (s\<lparr>st_corpus := c\<rparr>) = rating s" by (simp add: rating_def)
  obtain favs where f: "score_updated k m favs (s\<lparr>st_corpus := c\<rparr>) s'" "z' = z\<lparr>mz_base := weighted_on_replace (mz_base z)\<rparr>"
    using on_replace_effect [OF assms(1) i replaced.hyps(2-5), of z] replaced.hyps(7) by auto
  have "min_inv s'" by (rule score_updated_inv [OF f(1)]) (use i replaced.hyps(6) rt in \<open>simp_all add: min_inv_def\<close>)
  moreover have "m_weighted s' = m_weighted s" using f(1) by (simp add: score_updated_def)
  ultimately show ?case using f(2) replaced.IH by (simp add: weighted_inv0_def min_inv_def weighted_on_replace_def)
next
  case (chosen z s k z' s')
  then have "weighted_inv (mz_base z) s" by (simp add: weighted_inv_def weighted_inv0_def)
  from minimizer_next_effect [OF assms(2) _ this chosen.hyps(3)] chosen.IH show ?case by (simp add: weighted_inv_def weighted_inv0_def)
next
  case (other z s s')
  then show ?case using min_inv_frame by (auto simp: weighted_inv0_def table_ok_def mframe_def)
qed

text \<open>C14. In every state reached by additions, removals, choices and by replacements that keep the map indexes
  the old testcase is rated for, the ratings are consistent: a testcase rated for a map index is in the
  corpus and lists the index, and its reference count is the number of indexes it is rated for. Culling
  then succeeds, in any iteration order of the rating, and leaves every rated map index covered by a
  favoured testcase. The replacement hook succeeds for every replacement and rates all indexes of the new
  testcase, but never withdraws a rating: an index that the new testcase no longer lists stays rated for
  it, so such a replacement breaks the consistency.\<close>

theorem minimizer_consistent:
  assumes "score_ok score" "order_ok ord" "min_reach wscore score ord z s"
  shows "(\<forall>e k. rating s e = Some k \<longrightarrow> k \<in> set (st_ids s) \<and> (\<exists>m. idx s k = Some m \<and> e \<in> set (mi_list m))) \<and>
    (\<forall>k m. idx s k = Some m \<longrightarrow> tcref m = int (card {e. rating s e = Some k})) \<and>
    (\<exists>s'. cull ord s = Ok s' \<and> idx s' = idx s \<and> (\<forall>e \<in> dom (rating s). covered_by_fav s' e)) \<and>
    (\<forall>k tc c r m. k \<in> set (st_ids s) \<and> corpus_replace (st_corpus s) k tc = (c, r) \<and> tc_map_indexes tc = Some m \<and>
      sorted_wrt (<) (mi_list m) \<longrightarrow>
      (\<exists>z' s'. minimizer_on_replace (\<lambda>w _ s. Ok (weighted_on_replace w, s)) score z k (s\<lparr>st_corpus := c\<rparr>) = Ok (z', s') \<and>
        dom (rating s) \<union> set (mi_list m) \<subseteq> dom (rating s') \<and>
        (\<forall>e. rating s e = Some k \<and> e \<notin> set (mi_list m) \<longrightarrow>
          rating s' e = Some k \<and> (\<forall>m'. idx s' k = Some m' \<longrightarrow> e \<notin> set (mi_list m')))))"
proof -
  have inv: "min_inv s" using min_reach_inv [OF assms] by blast
  then have "rating s e = Some k \<Longrightarrow> k \<in> set (st_ids s) \<and> (\<exists>m. idx s k = Some m \<and> e \<in> set (mi_list m))" for e k
    using idx_in_ids [of s k] by (fastforce simp: min_inv_def ok_at_def)
  moreover have "\<exists>z' s'. minimizer_on_replace (\<lambda>w _ s. Ok (weighted_on_replace w, s)) score z k (s\<lparr>st_corpus := c\<rparr>) = Ok (z', s') \<and>
      dom (rating s) \<union> set (mi_list m) \<subseteq> dom (rating s') \<and> (\<forall>e. rating s e = Some k \<and> e \<notin> set (mi_list m) \<longrightarrow>
        rating s' e = Some k \<and> (\<forall>m'. idx s' k = Some m' \<longrightarrow> e \<notin> set (mi_list m')))"
    if h: "k \<in> set (st_ids s)" "corpus_replace (st_corpus s) k tc = (c, r)" "tc_map_indexes tc = Some m" "sorted_wrt (<) (mi_list m)"
    for k tc c r m
  proof -
    obtain favs z' s' where u: "minimizer_on_replace (\<lambda>w _ s. Ok (weighted_on_replace w, s)) score z k (s\<lparr>st_corpus := c\<rparr>) = Ok (z', s')"
        "score_updated k m favs (s\<lparr>st_corpus := c\<rparr>) s'"
      using on_replace_effect [OF assms(1) inv h, of z] by blast
    have rt: "rating (s\<lparr>st_corpus := c\<rparr>) = rating s" by (simp add: rating_def)
    have "dom (rating s) \<union> set (mi_list m) \<subseteq> dom (rating s')" using score_updated_dom [OF u(2)] rt by simp
    moreover have "\<forall>e. rating s e = Some k \<and> e \<notin> set (mi_list m) \<longrightarrow>
        rating s' e = Some k \<and> (\<forall>m'. idx s' k = Some m' \<longrightarrow> e \<notin> set (mi_list m'))"
      using u(2) rt by (auto simp: score_updated_def given_def)
    ultimately show ?thesis using u(1) by blast
  qed
  ultimately show ?thesis using inv cull_ok [OF assms(2) inv] by (auto simp: min_inv_def ok_at_def)
qed

text \<open>On reachable states the hooks never fail by themselves. Adding a testcase whose base hook succeeds keeps
  all rated indexes and rates all indexes of the new testcase; removing an enabled testcase rates every
  index of another testcase that still lists it, so only indexes that no remaining list contains are lost.\<close>

theorem minimizer_hooks_total:
  assumes "score_ok score" "order_ok ord" "min_reach wscore score ord z s"
  shows "(corpus_add (st_corpus s) tc = Some (c, k) \<and> tc_map_indexes tc = Some \<lparr>mi_list = l, tcref = 0\<rparr> \<and> sorted_wrt (<) l \<and>
      is_Ok (weighted_on_add (mz_base z) k (s\<lparr>st_corpus := c\<rparr>)) \<longrightarrow>
      (\<exists>z' s'. minimizer_on_add weighted_on_add score z k (s\<lparr>st_corpus := c\<rparr>) = Ok (z', s') \<and>
        dom (rating s) \<union> set l \<subseteq> dom (rating s'))) \<and>
    (corpus_remove (st_corpus s) j = Some (c', r) \<and> j \<in> set (st_ids s) \<longrightarrow>
      (\<exists>z' s'. minimizer_on_remove weighted_on_remove ord score z j (s\<lparr>st_corpus := c'\<rparr>) = Ok (z', s') \<and>
        (\<forall>i m e. i \<noteq> j \<and> idx s i = Some m \<and> e \<in> set (mi_list m) \<and> e \<in> dom (rating s) \<longrightarrow> e \<in> dom (rating s'))))"
proof -
  have inv: "min_inv s" using min_reach_inv [OF assms] by blast
  have "\<exists>z' s'. minimizer_on_add weighted_on_add score z k (s\<lparr>st_corpus := c\<rparr>) = Ok (z', s') \<and> dom (rating s) \<union> set l \<subseteq> dom (rating s')"
    if a: "corpus_add (st_corpus s) tc = Some (c, k)" "tc_map_indexes tc = Some \<lparr>mi_list = l, tcref = 0\<rparr>" "sorted_wrt (<) l"
      and b: "is_Ok (weighted_on_add (mz_base z) k (s\<lparr>st_corpus := c\<rparr>))"
  proof -
    obtain w1 s1 where "weighted_on_add (mz_base z) k (s\<lparr>st_corpus := c\<rparr>) = Ok (w1, s1)"
      using b by (cases "weighted_on_add (mz_base z) k (s\<lparr>st_corpus := c\<rparr>)") auto
    from on_add_ok [OF assms(1) inv a this] show ?thesis by blast
  qed
  moreover have "\<exists>z' s'. minimizer_on_remove weighted_on_remove ord score z j (s\<lparr>st_corpus := c'\<rparr>) = Ok (z', s') \<and>
        (\<forall>i m e. i \<noteq> j \<and> idx s i = Some m \<and> e \<in> set (mi_list m) \<and> e \<in> dom (rating s) \<longrightarrow> e \<in> dom (rating s'))"
    if "corpus_remove (st_corpus s) j = Some (c', r)" "j \<in> set (st_ids s)"
  proof -
    note ri = removed_state_inv [OF inv that(2,1)]
    have "rating (s\<lparr>st_corpus := c'\<rparr>) = rating s" by (simp add: rating_def)
    with on_remove_ok [OF assms(1,2) ri(1), of weighted_on_remove z] ri(2) show ?thesis by fastforce
  qed
  ultimately show ?thesis by blast
qed

text \<open>C15. What the minimizer returns is an enabled testcase that is favoured unless a coin flip with the skip
  probability kept it, and at that moment every rated map index is covered by a favoured testcase. The
  call returns after the first draw whenever that draw is favoured.\<close>

theorem minimizer_next_safe:
  assumes "score_ok score" "order_ok ord" "min_reach wscore score ord z s" "length (st_ids s) < 2 ^ 64"
  shows "(minimizer_next (weighted_next wscore) ord z s = Some (Inr (k, z', s')) \<longrightarrow>
      k \<in> set (st_ids s) \<and> st_ids s' = st_ids s \<and> (\<forall>e \<in> dom (rating s). covered_by_fav s' e) \<and>
      (fav s' k \<or> (\<exists>r. coinflip std_rand_next r (skip_non_favored_prob z) = (False, st_rand s')))) \<and>
    (\<forall>s1 k1 b s2. cull ord s = Ok s1 \<and> weighted_next wscore (mz_base z) s1 = Ok (k1, b, s2) \<and> fav s2 k1 \<longrightarrow>
      (\<exists>s3. minimizer_next (weighted_next wscore) ord z s = Some (Inr (k1, z\<lparr>mz_base := b\<rparr>, s3))))"
proof -
  have inv: "min_inv s" "weighted_inv (mz_base z) s"
    using min_reach_inv [OF assms(1-3)] assms(4) by (auto simp: weighted_inv_def weighted_inv0_def)
  have "\<exists>s3. minimizer_next (weighted_next wscore) ord z s = Some (Inr (k1, z\<lparr>mz_base := b\<rparr>, s3))"
    if h: "cull ord s = Ok s1" "weighted_next wscore (mz_base z) s1 = Ok (k1, b, s2)" "fav s2 k1" for s1 k1 b s2
  proof -
    obtain tc where "corpus_lookup s2 k1 = Ok tc" "tc_favored tc" using h(3) by (auto simp: fav_def split: sum.splits)
    then obtain s3 where "skip_loop (weighted_next wscore) (skip_non_favored_prob z) k1 b s2 = Some (Inr (k1, b, s3))"
      using weighted.skip_loop_stops by blast
    then show ?thesis using h(1,2) by (simp add: minimizer_next_def)
  qed
  then show ?thesis using minimizer_next_effect [OF assms(2) inv, of wscore k z' s'] by blast
qed

section \<open>A reachable example\<close>

text \<open>The hooks and culling leave the current testcase and the scheduler metadata alone.\<close>

definition keeps :: "fuzz_state \<Rightarrow> fuzz_state \<Rightarrow> bool" where
  "keeps s s' = (current (st_corpus s') = current (st_corpus s) \<and> m_sched s' = m_sched s)"

lemma modify_keeps: "corpus_modify k f s = Ok s' \<Longrightarrow> keeps s s'"
  by (auto simp: keeps_def corpus_modify_def bindR_Ok_iff update_testcase_def split: option.splits)

lemma keeps_trans: "keeps s s1 \<Longrightarrow> keeps s1 s' \<Longrightarrow> keeps s s'" by (simp add: keeps_def)

lemma cull_keeps: "cull ord s = Ok s' \<Longrightarrow> keeps s s'"
proof -
  have "cull_loop es acc s = Ok s' \<Longrightarrow> keeps s s'" for es acc
  proof (induction es acc s rule: cull_loop.induct)
    case (2 e k es acc s)
    then show ?case by (auto simp: bindR_Ok_iff split: if_splits dest!: modify_keeps intro: keeps_trans)
  qed (simp add: keeps_def)
  then show "cull ord s = Ok s' \<Longrightarrow> keeps s s'" by (auto simp: cull_def keeps_def split: option.splits)
qed

lemma score_at_keeps: "score_at score k s = Ok (f, s') \<Longrightarrow> keeps s s'"
  by (auto simp: score_at_def bindR_Ok_iff dest: modify_keeps)

lemma release_keeps: "release rm k s = Ok s' \<Longrightarrow> keeps s s'"
  by (auto simp: release_def bindR_Ok_iff Let_def set_index_meta_def dest: modify_keeps)

lemma update_elems_keeps: "update_elems score rm k factor tops favs es s = Ok (favs', s') \<Longrightarrow> keeps s s'"
proof (induction es arbitrary: favs s)
  case (Cons e es)
  then show ?case
    by (auto simp: bindR_Ok_iff split: option.splits if_splits
          dest!: score_at_keeps release_keeps intro: keeps_trans)
qed (simp add: keeps_def)

lemma update_score_keeps:
  assumes "update_score score rm k s = Ok s'"
  shows "keeps s s'"
proof -
  define tops where "tops = (case m_top_rateds s of Some t \<Rightarrow> t | None \<Rightarrow> Mapping.empty)"
  note u = assms [unfolded update_score_def Let_def tops_def [symmetric]]
  obtain f s1 where 1: "score_at score k (s\<lparr>m_top_rateds := Some tops\<rparr>) = Ok (f, s1)"
    using u by (cases "score_at score k (s\<lparr>m_top_rateds := Some tops\<rparr>)") auto
  note u = u [unfolded 1 bindR_simps prod.case]
  obtain m where 2: "index_meta s1 k = Ok m" using u by (cases "index_meta s1 k") auto
  note u = u [unfolded 2 bindR_simps]
  obtain favs s2 where 3: "update_elems score rm k f tops [] (mi_list m) s1 = Ok (favs, s2)"
    using u by (cases "update_elems score rm k f tops [] (mi_list m) s1") auto
  note u = u [unfolded 3 bindR_simps prod.case]
  define x where "x = (if favs = [] \<and> rm then None else Some (m\<lparr>tcref := int (length favs)\<rparr>))"
  obtain s3 where 4: "set_index_meta k x s2 = Ok s3" using u [folded x_def] by (cases "set_index_meta k x s2") auto
  have "s' = s3 \<or> s' = s3\<lparr>m_top_rateds := Some (insert_tops k favs tops)\<rparr>"
    using u [folded x_def, unfolded 4 bindR_simps] by (simp split: if_splits)
  then show ?thesis
    using score_at_keeps [OF 1] update_elems_keeps [OF 3] modify_keeps [OF 4 [unfolded set_index_meta_def]]
    by (elim disjE) (simp_all add: keeps_def)
qed

lemma on_add_keeps:
  assumes "minimizer_on_add weighted_on_add score z k s = Ok (z', s')"
  shows "keeps s s'"
proof -
  obtain w s1 where h: "weighted_on_add (mz_base z) k s = Ok (w, s1)" "update_score score (remove_metadata z) k s1 = Ok s'"
    using assms by (auto simp: minimizer_on_add_def bindR_Ok_iff)
  have "keeps s s1" using h(1) by (auto simp: weighted_on_add_def on_add_metadata_default_def Let_def bindR_Ok_iff dest: modify_keeps)
  then show ?thesis using update_score_keeps [OF h(2)] by (rule keeps_trans)
qed

definition example_rated :: testcase where
  "example_rated = (testcase_new [1, 2])\<lparr>tc_map_indexes := Some \<lparr>mi_list = [3, 7], tcref = 0\<rparr>\<rparr>"

text \<open>A replacement for it that no longer hits the index 3.\<close>

definition example_shrunk :: testcase where
  "example_shrunk = (testcase_new [1])\<lparr>tc_map_indexes := Some \<lparr>mi_list = [7], tcref = 0\<rparr>\<rparr>"

definition unit_score :: mscore where
  "unit_score tc = Ok (Fin 1, tc)"

lemma unit_score_ok: "score_ok unit_score" by (simp add: score_ok_def unit_score_def)

lemma id_order_ok: "order_ok (\<lambda>xs. xs)" by (simp add: order_ok_def)

lemma on_add_example:
  assumes "wf_corpus (st_corpus s)" "k \<in> set (st_ids s)" "current (st_corpus s) = None"
  shows "\<exists>w' s'. weighted_on_add w k s = Ok (w', s')"
proof -
  obtain tc where "corpus_lookup s k = Ok tc" using in_ids_lookup [OF assms(1)] assms(2) by blast
  then obtain s' where "corpus_modify k (\<lambda>tc. tc\<lparr>tc_sched := Some (with_n_fuzz_entry (0 + 1) (wd_last_hash w)), parent_id := None\<rparr>) s = Ok s'"
    using corpus_modify_total by blast
  then show ?thesis using assms(3) by (simp add: weighted_on_add_def on_add_metadata_default_def Let_def)
qed

lemma example_min_start:
  "\<exists>z s. min_reach wscore unit_score (\<lambda>xs. xs) z s \<and> st_corpus s = corpus_new \<and> (\<exists>ps. m_sched s = Some ps) \<and>
     \<not> cycle_schedules (mz_base z)"
proof -
  let ?s = "state_new (std_rand_with_seed 0)"
  obtain w s where ws: "with_schedule None ?s = (w, s)" by fastforce
  have "st_corpus ?s = corpus_new" "m_top_rateds ?s = None" by (simp_all add: state_new_def)
  then have "min_reach wscore unit_score (\<lambda>xs. xs) (minimizer_new w) s" using ws by (rule min_reach.start)
  moreover have "st_corpus s = corpus_new" "\<exists>ps. m_sched s = Some ps" "\<not> cycle_schedules w"
    using ws by (auto simp: with_schedule_def Let_def state_new_def split: if_splits)
  ultimately show ?thesis by (intro exI [of _ "minimizer_new w"] exI [of _ s]) (simp add: minimizer_new_def)
qed

lemma example_min_added:
  "\<exists>z s. min_reach wscore unit_score (\<lambda>xs. xs) z s \<and> st_ids s = [0] \<and> 3 \<in> dom (rating s) \<and> current (st_corpus s) = None \<and>
     (\<exists>ps. m_sched s = Some ps) \<and> \<not> cycle_schedules (mz_base z)"
proof -
  obtain z s where zs: "min_reach wscore unit_score (\<lambda>xs. xs) z s" "st_corpus s = corpus_new" "\<exists>ps. m_sched s = Some ps"
      "\<not> cycle_schedules (mz_base z)" using example_min_start by blast
  have inv: "min_inv s" using min_reach_inv [OF unit_score_ok id_order_ok zs(1)] by blast
  then have wf: "wf_corpus (st_corpus s)" by (simp add: min_inv_def)
  have "map_option snd (corpus_add corpus_new example_rated) = Some 0" by code_simp
  then obtain c where "corpus_add corpus_new example_rated = Some (c, 0)" by auto
  then have c: "corpus_add (st_corpus s) example_rated = Some (c, 0)" using zs(2) by simp
  note v = corpus_add_view [OF wf c]
  have "st_ids s = []" using zs(2) by (simp add: st_ids_def) code_simp
  have cur: "current c = None" using c zs(2) by (auto simp: corpus_add_def corpus_new_def split: option.splits)
  let ?s = "s\<lparr>st_corpus := c\<rparr>"
  have "\<exists>w' s'. weighted_on_add (mz_base z) 0 ?s = Ok (w', s')" by (rule on_add_example) (use v cur in simp_all)
  then obtain w' s1 where b: "weighted_on_add (mz_base z) 0 ?s = Ok (w', s1)" by blast
  have l: "tc_map_indexes example_rated = Some \<lparr>mi_list = [3, 7], tcref = 0\<rparr>" "sorted_wrt (<) [3, 7 :: nat]"
    by (simp_all add: example_rated_def)
  obtain s' where s': "minimizer_on_add weighted_on_add unit_score z 0 ?s = Ok (z\<lparr>mz_base := w'\<rparr>, s')" "st_ids s' = st_ids s @ [0]"
      "set [3, 7] \<subseteq> dom (rating s')"
    using on_add_ok [OF unit_score_ok inv c l b] by auto
  have "min_reach wscore unit_score (\<lambda>xs. xs) (z\<lparr>mz_base := w'\<rparr>) s'" using min_reach.added [OF zs(1) c l s'(1)] .
  moreover have "\<not> cycle_schedules w'" using b zs(4) by (auto simp: weighted_on_add_def)
  ultimately show ?thesis using s' \<open>st_ids s = []\<close> on_add_keeps [OF s'(1)] cur zs(3)
    by (intro exI [of _ "z\<lparr>mz_base := w'\<rparr>"] exI [of _ s']) (simp add: keeps_def)
qed

theorem minimizer_consistent_witness:
  "\<exists>z s s' c r z1 s1. min_reach (\<lambda>_ _. Ok (Fin 1)) unit_score (\<lambda>xs. xs) z s \<and> rating s 3 = Some 0 \<and>
     cull (\<lambda>xs. xs) s = Ok s' \<and> covered_by_fav s' 3 \<and> corpus_replace (st_corpus s) 0 example_shrunk = (c, r) \<and>
     minimizer_on_replace (\<lambda>w _ s. Ok (weighted_on_replace w, s)) unit_score z 0 (s\<lparr>st_corpus := c\<rparr>) = Ok (z1, s1) \<and>
     rating s1 3 = Some 0 \<and> \<not> (\<exists>m. idx s1 0 = Some m \<and> 3 \<in> set (mi_list m))"
proof -
  obtain z s where zs: "min_reach (\<lambda>_ _. Ok (Fin 1)) unit_score (\<lambda>xs. xs) z s" "st_ids s = [0]" "3 \<in> dom (rating s)"
    using example_min_added [of "\<lambda>_ _. Ok (Fin 1)"] by blast
  note t = minimizer_consistent [OF unit_score_ok id_order_ok zs(1)]
  obtain k where k: "rating s 3 = Some k" using zs(3) by blast
  with t zs(2) have "k = 0" by fastforce
  obtain s' where s': "cull (\<lambda>xs. xs) s = Ok s'" "covered_by_fav s' 3" using t zs(3) by blast
  obtain c r where c: "corpus_replace (st_corpus s) 0 example_shrunk = (c, r)" by fastforce
  have "0 \<in> set (st_ids s) \<and> corpus_replace (st_corpus s) 0 example_shrunk = (c, r) \<and>
      tc_map_indexes example_shrunk = Some \<lparr>mi_list = [7], tcref = 0\<rparr> \<and> sorted_wrt (<) (mi_list \<lparr>mi_list = [7], tcref = 0\<rparr>)"
    using c zs(2) by (simp add: example_shrunk_def)
  from t [THEN conjunct2, THEN conjunct2, THEN conjunct2, rule_format, OF this] obtain z1 s1 where
    "minimizer_on_replace (\<lambda>w _ s. Ok (weighted_on_replace w, s)) unit_score z 0 (s\<lparr>st_corpus := c\<rparr>) = Ok (z1, s1)"
    "rating s1 3 = Some 0" "\<not> (\<exists>m. idx s1 0 = Some m \<and> 3 \<in> set (mi_list m))"
    using k \<open>k = 0\<close> by auto
  then show ?thesis using zs(1) k \<open>k = 0\<close> s' c by blast
qed

theorem minimizer_hooks_total_witness:
  "\<exists>z s c c' k r z1 s1 z2 s2. min_reach (\<lambda>_ _. Ok (Fin 1)) unit_score (\<lambda>xs. xs) z s \<and>
     corpus_add (st_corpus s) example_rated = Some (c, k) \<and> corpus_remove (st_corpus s) 0 = Some (c', r) \<and>
     minimizer_on_add weighted_on_add unit_score z k (s\<lparr>st_corpus := c\<rparr>) = Ok (z1, s1) \<and> 7 \<in> dom (rating s1) \<and>
     minimizer_on_remove weighted_on_remove (\<lambda>xs. xs) unit_score z 0 (s\<lparr>st_corpus := c'\<rparr>) = Ok (z2, s2)"
proof -
  obtain z s where zs: "min_reach (\<lambda>_ _. Ok (Fin 1)) unit_score (\<lambda>xs. xs) z s" "st_ids s = [0]" "current (st_corpus s) = None"
    using example_min_added [of "\<lambda>_ _. Ok (Fin 1)"] by blast
  have wf: "wf_corpus (st_corpus s)" using min_reach_inv [OF unit_score_ok id_order_ok zs(1)] by (simp add: min_inv_def)
  obtain c k where c: "corpus_add (st_corpus s) example_rated = Some (c, k)" "current c = None"
    using insert_inner_ok [OF wf, of example_rated False] zs(3) by (auto simp: corpus_add_def)
  obtain c' r where r: "corpus_remove (st_corpus s) 0 = Some (c', r)"
    using corpus_remove_enabled [OF wf, of 0] zs(2) by (auto simp: st_ids_def)
  note v = corpus_add_view [OF wf c(1)]
  have "\<exists>w' s'. weighted_on_add (mz_base z) k (s\<lparr>st_corpus := c\<rparr>) = Ok (w', s')"
    by (rule on_add_example) (use v c(2) in simp_all)
  then have ok: "is_Ok (weighted_on_add (mz_base z) k (s\<lparr>st_corpus := c\<rparr>))" by auto
  have l: "tc_map_indexes example_rated = Some \<lparr>mi_list = [3, 7], tcref = 0\<rparr>" "sorted_wrt (<) [3, 7 :: nat]"
    by (simp_all add: example_rated_def)
  note t = minimizer_hooks_total [OF unit_score_ok id_order_ok zs(1), of example_rated c k "[3, 7]" 0 c' r]
  obtain z1 s1 where 1: "minimizer_on_add weighted_on_add unit_score z k (s\<lparr>st_corpus := c\<rparr>) = Ok (z1, s1)" "7 \<in> dom (rating s1)"
    using t c(1) l ok by auto
  obtain z2 s2 where "minimizer_on_remove weighted_on_remove (\<lambda>xs. xs) unit_score z 0 (s\<lparr>st_corpus := c'\<rparr>) = Ok (z2, s2)"
    using t r zs(2) by auto
  then show ?thesis using zs(1) c(1) r 1 by blast
qed

theorem minimizer_next_safe_witness:
  "\<exists>z s z' s'. min_reach (\<lambda>_ _. Ok (Fin 1)) unit_score (\<lambda>xs. xs) z s \<and>
     minimizer_next (weighted_next (\<lambda>_ _. Ok (Fin 1))) (\<lambda>xs. xs) z s = Some (Inr (0, z', s')) \<and> covered_by_fav s' 3"
proof -
  let ?ws = "\<lambda>_ _. Ok (Fin 1)"
  obtain z s ps where zs: "min_reach ?ws unit_score (\<lambda>xs. xs) z s" "st_ids s = [0]" "3 \<in> dom (rating s)" "current (st_corpus s) = None"
      "m_sched s = Some ps" "\<not> cycle_schedules (mz_base z)"
    using example_min_added [of ?ws] by blast
  note inv = min_reach_inv [OF unit_score_ok id_order_ok zs(1)]
  obtain s1 where c: "cull (\<lambda>xs. xs) s = Ok s1" "mframe s s1" "idx s1 = idx s" "covered_by_fav s1 3"
      "m_weighted s1 = m_weighted s" "m_dirty s1 = m_dirty s"
    using cull_ok [OF id_order_ok] inv zs(3) by blast
  have wf: "wf_corpus (st_corpus s1)" "st_ids s1 = [0]" using c(2) zs(2) by (simp_all add: mframe_def)
  have winv: "weighted_inv (mz_base z) s1"
    using inv wf zs(2) c(5,6) by (simp add: weighted_inv_def weighted_inv0_def marked_dirty_def table_ok_def)
  have kp: "current (st_corpus s1) = None" "m_sched s1 = Some ps" using cull_keeps [OF c(1)] zs(4,5) by (simp_all add: keeps_def)
  have "\<exists>kws. corpus_scores ?ws (s1\<lparr>m_dirty := d\<rparr>) = Ok kws" for d by (rule corpus_scores_total) (use wf in simp_all)
  then obtain k1 b s2 where n: "weighted_next ?ws (mz_base z) s1 = Ok (k1, b, s2)"
    using weighted_next_total [OF winv, of ?ws ps] wf kp zs(6) by (auto simp: sched_ready_def)
  note o = weighted.next_ok [OF winv n]
  then have k1: "k1 = 0" using wf by (simp add: same_pool_def)
  obtain j m where j: "fav s1 j" "idx s1 j = Some m" using c(4) by (auto simp: covered_by_fav_def)
  then have "fav s2 k1" using same_pool_views(2) [of s1 s2] o wf k1 idx_in_ids [OF wf(1) j(2)] by simp
  then have f: "cull (\<lambda>xs. xs) s = Ok s1 \<and> weighted_next ?ws (mz_base z) s1 = Ok (k1, b, s2) \<and> fav s2 k1" using c(1) n by simp
  have "length (st_ids s) < 2 ^ 64" using zs(2) by simp
  note t = minimizer_next_safe [OF unit_score_ok id_order_ok zs(1) this]
  obtain s3 where s3: "minimizer_next (weighted_next ?ws) (\<lambda>xs. xs) z s = Some (Inr (0, z\<lparr>mz_base := b\<rparr>, s3))"
    using t [THEN conjunct2, rule_format, OF f] k1 by blast
  then have "covered_by_fav s3 3" using t zs(3) by blast
  then show ?thesis using zs(1) s3 by blast
qed

end
