(* ===== verification/Startup.thy ===== *)
theory Startup
  imports Tpe_Stage
begin

text \<open>
  The start of the fuzzer (\<open>bofuzz/src/lib.rs\<close>): the resolution of the mask option, the
  initialisation of the mask state of a fresh or a resumed run, loading the control-flow graph of the
  coverage sites, and the order of the start-up steps of \<open>fuzz\<close> up to the configuration of the stages.
  File contents, the path of the executable, the clock and the number of coverage sites are a
  parameter (\<open>startup_env\<close>); \<open>process::exit\<close> is the result \<open>Exit\<close>. Shown: what a fresh start
  establishes, when it stops, that a run resumes under the options it was started with and under no
  others, and that exactly the well-formed graphs are loaded.
\<close>

section \<open>Model\<close>

record bofuzz_args =
  ba_factor_params :: factor_params
  ba_feat_mode :: u8
  ba_explore_time_secs :: u64
  ba_tpe_period_secs :: u64
  ba_weight_compute_mode :: weight_compute_mode
  ba_tpe_samples :: nat
  ba_tpe_gamma :: f64
  ba_tpe_bw :: f64
  ba_trials_threshold :: nat
  ba_re_tpe_threshold_secs :: u64
  ba_sancov_acfg_path :: "path option"

record vec_mask_config =
  vc_mode :: vec_mask_mode
  vc_explicit_mask :: "bool list option"
  vc_credit_top_k :: nat

subsection \<open>The mask option\<close>

fun vec_mask_mode_label :: "vec_mask_mode \<Rightarrow> string" where
  "vec_mask_mode_label Full = ''full''"
| "vec_mask_mode_label Explicit = ''explicit''"
| "vec_mask_mode_label AutoCredit = ''auto-credit''"

definition resolve_vec_mask_config :: "string option \<Rightarrow> nat \<Rightarrow> nat \<Rightarrow> mask_msg + vec_mask_config" where
  "resolve_vec_mask_config raw_mask top_k schema_dim = (case raw_mask of
     Some msk \<Rightarrow>
       if trim msk = ''auto-credit''
       then if top_k = 0 \<or> schema_dim < top_k then Err (CliTopKRange schema_dim)
         else Ok \<lparr>vc_mode = AutoCredit, vc_explicit_mask = None, vc_credit_top_k = top_k\<rparr>
       else bindR (parse_vec_mask msk schema_dim) (\<lambda>m.
         Ok \<lparr>vc_mode = Explicit, vc_explicit_mask = Some m, vc_credit_top_k = top_k\<rparr>)
   | None \<Rightarrow> Ok \<lparr>vc_mode = Full, vc_explicit_mask = None, vc_credit_top_k = top_k\<rparr>)"

definition parse_weight_compute_mode :: "string \<Rightarrow> string + weight_compute_mode" where
  "parse_weight_compute_mode raw =
     (if raw = ''frontier'' then Ok Frontier else if raw = ''path'' then Ok Path else Err raw)"

subsection \<open>The mask state\<close>

definition initial_mask :: "feature_schema_file \<Rightarrow> vec_mask_config \<Rightarrow> error + bool list" where
  "initial_mask schema config = (case vc_mode config of
     Full \<Rightarrow> Ok (replicate (length (fsf_features schema)) True)
   | Explicit \<Rightarrow> (case vc_explicit_mask config of
       Some m \<Rightarrow> Ok m | None \<Rightarrow> Err (IllegalArgument (ResumeMsg ExplicitConfigMissing)))
   | AutoCredit \<Rightarrow> Ok (replicate (length (fsf_features schema)) True))"

definition initialize_fresh ::
  "fuzz_state \<Rightarrow> feature_schema_file \<Rightarrow> vec_mask_config \<Rightarrow> error + (fuzz_state \<times> feature_spec list)" where
  "initialize_fresh s schema config = bindR (initial_mask schema config) (\<lambda>m.
     let active = compute_active_features schema m;
         s1 = set_schema_info (fsf_version schema) (fsf_features schema) m active s;
         rt = vec_mask_runtime_default\<lparr>vm_mode := vc_mode config, credit_top_k := vc_credit_top_k config,
           requested_explicit_mask := vc_explicit_mask config, mask_committed := vc_mode config \<noteq> AutoCredit,
           tpe_init_committed := False, effective_mask := m, selected_feature_names := map fs_name active,
           selected_schema_indices := true_indices m\<rparr>;
         rt1 = (if vc_mode config = Full then rt\<lparr>requested_explicit_mask := None\<rparr> else rt)
     in Ok (set_vec_mask_runtime_meta rt1 s1, active))"

definition check_resumed :: "vec_mask_runtime \<Rightarrow> vec_mask_config \<Rightarrow> bool list \<Rightarrow> error + unit" where
  "check_resumed rt config full_mask =
     (if vm_mode rt \<noteq> vc_mode config then Err (IllegalState (ResumeMsg ResumeMode))
      else case vc_mode config of
        Full \<Rightarrow> if effective_mask rt \<noteq> full_mask then Err (IllegalState (ResumeMsg ResumeFullMask)) else Ok ()
      | Explicit \<Rightarrow> (case vc_explicit_mask config of
          None \<Rightarrow> Err (IllegalState (ResumeMsg ResumeNoCliMask))
        | Some requested \<Rightarrow>
            if requested_explicit_mask rt \<noteq> Some requested \<or> effective_mask rt \<noteq> requested
            then Err (IllegalState (ResumeMsg ResumeExplicitMask)) else Ok ())
      | AutoCredit \<Rightarrow>
          if credit_top_k rt \<noteq> vc_credit_top_k config then Err (IllegalState (ResumeMsg ResumeTopK))
          else if \<not> mask_committed rt \<and> effective_mask rt \<noteq> full_mask
          then Err (IllegalState (ResumeMsg ResumePendingNotFull)) else Ok ())"

definition initialize_resumed ::
  "fuzz_state \<Rightarrow> feature_schema_file \<Rightarrow> vec_mask_config \<Rightarrow> error + (fuzz_state \<times> feature_spec list)" where
  "initialize_resumed s schema config = (case m_vec_mask s of
     None \<Rightarrow> Err (IllegalState (ResumeMsg ResumeNoRuntimeMeta))
   | Some rt \<Rightarrow> bindR (check_resumed rt config (replicate (length (fsf_features schema)) True)) (\<lambda>_.
       let active = compute_active_features schema (effective_mask rt);
           rt1 = rt\<lparr>selected_feature_names := map fs_name active,
             selected_schema_indices := true_indices (effective_mask rt)\<rparr>;
           s1 = set_schema_info (fsf_version schema) (fsf_features schema) (effective_mask rt) active s;
           s2 = set_vec_mask_runtime_meta rt1 s1
       in bindR (if tpe_init_committed rt1 then validate_committed_vector_dimensions s2 else Ok ()) (\<lambda>_.
            Ok (s2, active))))"

definition initialize_vec_mask_state ::
  "fuzz_state \<Rightarrow> feature_schema_file \<Rightarrow> vec_mask_config \<Rightarrow> bool \<Rightarrow> error + (fuzz_state \<times> feature_spec list)" where
  "initialize_vec_mask_state s schema config is_resumed =
     (if is_resumed then initialize_resumed s schema config else initialize_fresh s schema config)"

subsection \<open>The control-flow graph of the coverage sites\<close>

record sancov_acfg_file =
  af_schema_version :: u64
  af_kind :: string
  af_n_sancov_sites :: nat
  af_successors :: "nat list list"
  af_predecessors :: "nat list list"

fun check_node_list :: "string \<Rightarrow> nat \<Rightarrow> nat \<Rightarrow> nat list \<Rightarrow> acfg_msg + unit" where
  "check_node_list kind n i [] = Ok ()"
| "check_node_list kind n i (x # xs) = (if n \<le> x then Err (AcfgNode kind i x) else check_node_list kind n i xs)"

fun check_nodes :: "string \<Rightarrow> nat \<Rightarrow> nat \<Rightarrow> nat list list \<Rightarrow> acfg_msg + unit" where
  "check_nodes kind n i [] = Ok ()"
| "check_nodes kind n i (xs # xss) = bindR (check_node_list kind n i xs) (\<lambda>_. check_nodes kind n (Suc i) xss)"

definition load_sancov_acfg :: "sancov_acfg_file file_result \<Rightarrow> nat \<Rightarrow> acfg_msg + sancov_acfg" where
  "load_sancov_acfg file sancov_sites = (case file of
     NoFile \<Rightarrow> Err AcfgOpen | OpenError \<Rightarrow> Err AcfgOpen | ReadError \<Rightarrow> Err AcfgRead | JsonError \<Rightarrow> Err AcfgBadJson
   | Parsed f \<Rightarrow>
       let n = af_n_sancov_sites f in
       if af_schema_version f \<noteq> 1 \<or> af_kind f \<noteq> ''bofuzz-sancov-acfg-v1'' then Err AcfgKind
       else if n \<noteq> sancov_sites then Err (AcfgSites n sancov_sites)
       else if length (af_successors f) \<noteq> n then Err AcfgSuccLength
       else if length (af_predecessors f) \<noteq> n then Err AcfgPredLength
       else bindR (check_nodes ''successors'' n 0 (af_successors f)) (\<lambda>_.
            bindR (check_nodes ''predecessors'' n 0 (af_predecessors f)) (\<lambda>_.
            Ok \<lparr>ac_iteration = 0, n_sancov_sites = n, successors = af_successors f, predecessors = af_predecessors f\<rparr>)))"

subsection \<open>Start-up\<close>

text \<open>The environment of the process and the two ways in which the start can stop.\<close>

record startup_env =
  se_exe :: "path option"
  se_maps :: "path \<Rightarrow> (string \<times> json) list file_result"
  se_candidates :: "path \<Rightarrow> f64 list list file_result"
  se_acfgs :: "path \<Rightarrow> sancov_acfg_file file_result"
  se_now :: u64
  se_sites :: nat

datatype startup_stop = Fail error | Exit message

text \<open>\<open>Path::display\<close>.\<close>

fun component_text :: "path_component \<Rightarrow> string" where
  "component_text RootDir = []"
| "component_text CurDir = ''.''"
| "component_text ParentDir = ''..''"
| "component_text (Normal n) = n"

fun path_display :: "path \<Rightarrow> string" where
  "path_display [] = []"
| "path_display [c] = (if c = RootDir then ''/'' else component_text c)"
| "path_display (c # cs) = component_text c @ ''/'' @ path_display cs"

definition beside_exe :: "startup_env \<Rightarrow> string \<Rightarrow> path option" where
  "beside_exe env suffix = Option.bind (se_exe env) (\<lambda>exe.
     let dir = (case path_parent exe of Some d \<Rightarrow> d | None \<Rightarrow> [CurDir]) in
     map_option (\<lambda>stem. dir @ [Normal (stem @ suffix)]) (path_file_stem exe))"

definition default_features_path :: "startup_env \<Rightarrow> path option" where
  "default_features_path env = beside_exe env ''_features_map.json''"

definition default_sancov_acfg_path_from_current_exe :: "startup_env \<Rightarrow> path option" where
  "default_sancov_acfg_path_from_current_exe env = beside_exe env ''_sancov_acfg.json''"

definition chosen_features_path :: "startup_env \<Rightarrow> path option \<Rightarrow> path option" where
  "chosen_features_path env cli =
     Option.bind (case cli of Some p \<Rightarrow> Some p | None \<Rightarrow> default_features_path env) (\<lambda>p.
       if se_maps env p \<noteq> NoFile then Some p else None)"

text \<open>What the loaded candidate file changes in the runtime mask metadata.\<close>

definition record_candidate_status :: "bool \<Rightarrow> candidate_file_status \<Rightarrow> vec_mask_runtime \<Rightarrow> vec_mask_runtime" where
  "record_candidate_status is_resumed st rt =
     (if \<not> is_resumed \<or> \<not> tpe_init_committed rt
      then
        let rt1 = (if \<not> is_resumed \<or> cs_loaded st \<or> candidate_file_path rt = None
                   then rt\<lparr>candidate_file_path := map_option path_display (cs_path st)\<rparr> else rt)
        in if vm_mode rt1 = AutoCredit then rt1\<lparr>candidate_file_loaded := False\<rparr>
           else if \<not> is_resumed \<or> cs_loaded st then rt1\<lparr>candidate_file_loaded := cs_loaded st\<rparr> else rt1
      else rt)"

definition load_features ::
  "startup_env \<Rightarrow> path option \<Rightarrow> feature_schema_file \<Rightarrow> bool \<Rightarrow> feature_spec list \<Rightarrow> fuzz_state \<Rightarrow>
     startup_stop + (fuzz_state \<times> feature_map_load_result option)" where
  "load_features env cli schema is_resumed active s = (case chosen_features_path env cli of
     None \<Rightarrow> Ok (s, None)
   | Some p \<Rightarrow>
       bindR (map_err (\<lambda>e. Exit (MapMsg e)) (load_and_validate_feature_map (se_maps env p) schema (se_sites env))) (\<lambda>canonical.
         let policy = (if vm_mode (vec_mask_runtime_meta s) = AutoCredit then IgnoreExternalFile else AllowExternalFile);
             restored = (if is_resumed then get_current_weight_vec s else [])
         in bindR (map_err (\<lambda>e. Exit (VectorMsg e)) (load_and_align_features_map (se_candidates env) s canonical
              (se_sites env) (length active) (map fs_name active) p policy)) (\<lambda>(s1, lr).
            let s2 = (case m_vec_mask s1 of None \<Rightarrow> s1
                  | Some rt \<Rightarrow> s1\<lparr>m_vec_mask := Some (record_candidate_status is_resumed (lr_status lr) rt)\<rparr>);
                s3 = (if is_resumed \<and> restored \<noteq> [] then set_current_weight_vec restored s2 else s2)
            in Ok (s3, Some lr))))"

definition install_features :: "startup_env \<Rightarrow> feature_map_load_result option \<Rightarrow> fuzz_state \<Rightarrow> fuzz_state" where
  "install_features env pending s = (case pending of
     None \<Rightarrow> s
   | Some lr \<Rightarrow> s\<lparr>m_feats := Some (lr_feats lr),
       m_matrix := Some \<lparr>fm_matrix = lr_matrix lr, fm_sites = se_sites env\<rparr>\<rparr>)"

text \<open>The start time, the pending features and the options are installed.\<close>

definition finish_start :: "startup_env \<Rightarrow> bofuzz_args \<Rightarrow> bool \<Rightarrow> feature_map_load_result option \<Rightarrow> fuzz_state \<Rightarrow> fuzz_state" where
  "finish_start env args is_resumed pending s4 =
     (let s5 = (if \<not> is_resumed \<or> get_fuzz_start s4 = 0 then set_fuzz_start (se_now env) s4 else s4);
          s6 = set_feat_exists (pending \<noteq> None) (install_features env pending s5);
          s7 = s6\<lparr>m_weight_mode := Some (ba_weight_compute_mode args)\<rparr>
      in if m_tpe_iter s7 = None then s7\<lparr>m_tpe_iter := Some tpe_iteration_default\<rparr> else s7)"

definition load_acfg_if_needed ::
  "startup_env \<Rightarrow> bofuzz_args \<Rightarrow> bool \<Rightarrow> fuzz_state \<Rightarrow> startup_stop + fuzz_state" where
  "load_acfg_if_needed env args has_feats s =
     (if has_feats \<and> ba_feat_mode args \<noteq> 0 \<and> ba_weight_compute_mode args = Frontier
      then case (case ba_sancov_acfg_path args of Some p \<Rightarrow> Some p | None \<Rightarrow> default_sancov_acfg_path_from_current_exe env) of
          None \<Rightarrow> Err (Fail (IllegalArgument (AcfgMsg AcfgNoPath)))
        | Some p \<Rightarrow> bindR (map_err (\<lambda>e. Exit (AcfgMsg e)) (load_sancov_acfg (se_acfgs env p) (se_sites env))) (\<lambda>meta.
            Ok (s\<lparr>m_acfg := Some meta\<rparr>))
      else Ok s)"

definition startup ::
  "startup_env \<Rightarrow> path option \<Rightarrow> bofuzz_args \<Rightarrow> feature_schema_file \<Rightarrow> vec_mask_config \<Rightarrow> string \<Rightarrow> bool \<Rightarrow> fuzz_state \<Rightarrow>
     startup_stop + fuzz_state" where
  "startup env cli args schema config out is_resumed s =
     bindR (map_err Fail (initialize_vec_mask_state s schema config is_resumed)) (\<lambda>(s1, active).
       let s2 = s1\<lparr>m_export := Some \<lparr>output_path = out, last_export_ms = 0\<rparr>\<rparr>;
           s3 = set_factor_params (ba_factor_params args) (set_alpha_init (fp_alpha (ba_factor_params args)) s2)
       in bindR (load_features env cli schema is_resumed active s3) (\<lambda>(s4, pending).
         bindR (load_acfg_if_needed env args (pending \<noteq> None) (finish_start env args is_resumed pending s4)) (\<lambda>s9.
              Ok (set_tpe_period (ba_tpe_period_secs args) (set_explore_time (ba_explore_time_secs args)
                    (set_feat_mode (ba_feat_mode args) s9))))))"

text \<open>The parameters of the optimizer stage, built from the options and the stored period.\<close>

definition tpe_params_of :: "bofuzz_args \<Rightarrow> fuzz_state \<Rightarrow> tpe_params" where
  "tpe_params_of args s = \<lparr>tp_gamma = ba_tpe_gamma args, tp_samples = ba_tpe_samples args, tp_bw = ba_tpe_bw args,
     tp_period = unat (get_tpe_period s) * 10 ^ 9, tp_trials_threshold = ba_trials_threshold args,
     tp_re_tpe_threshold = unat (ba_re_tpe_threshold_secs args) * 10 ^ 9\<rparr>"

section \<open>Lemmas\<close>

text \<open>A graph whose edge lists stay inside its sites.\<close>

definition acfg_in_range :: "nat \<Rightarrow> nat list list \<Rightarrow> bool" where
  "acfg_in_range n xss = (length xss = n \<and> (\<forall>xs \<in> set xss. \<forall>x \<in> set xs. x < n))"

lemma check_node_list_Ok_iff: "check_node_list kind n i xs = Ok u \<longleftrightarrow> (\<forall>x \<in> set xs. x < n)"
  by (induction xs) auto

lemma check_nodes_Ok_iff: "check_nodes kind n i xss = Ok u \<longleftrightarrow> (\<forall>xs \<in> set xss. \<forall>x \<in> set xs. x < n)"
  by (induction xss arbitrary: i) (auto simp: bindR_Ok_iff check_node_list_Ok_iff)

lemma load_acfg_Ok_iff:
  "load_sancov_acfg r sites = Ok a \<longleftrightarrow> (\<exists>f. r = Parsed f \<and> af_schema_version f = 1 \<and> af_kind f = ''bofuzz-sancov-acfg-v1'' \<and>
     af_n_sancov_sites f = sites \<and> acfg_in_range sites (af_successors f) \<and> acfg_in_range sites (af_predecessors f) \<and>
     a = \<lparr>ac_iteration = 0, n_sancov_sites = sites, successors = af_successors f, predecessors = af_predecessors f\<rparr>)"
  by (cases r) (auto simp: load_sancov_acfg_def Let_def bindR_Ok_iff check_nodes_Ok_iff acfg_in_range_def)

lemma resolve_Ok_cases:
  assumes "resolve_vec_mask_config raw k d = Ok config"
  shows "(vc_mode config = Full \<and> raw = None \<and> vc_explicit_mask config = None) \<or>
    (\<exists>m. vc_mode config = Explicit \<and> vc_explicit_mask config = Some m \<and> length m = d \<and> True \<in> set m) \<or>
    (vc_mode config = AutoCredit \<and> vc_explicit_mask config = None \<and> 0 < k \<and> k \<le> d)"
  using assms parse_vec_mask_Ok
  by (auto simp: resolve_vec_mask_config_def bindR_Ok_iff split: option.splits if_splits)

lemma resolve_top_k: "resolve_vec_mask_config raw k d = Ok config \<Longrightarrow> vc_credit_top_k config = k"
  by (auto simp: resolve_vec_mask_config_def bindR_Ok_iff split: option.splits if_splits)

lemma initial_mask_resolved:
  assumes "resolve_vec_mask_config raw k (length (fsf_features schema)) = Ok config" "fsf_features schema \<noteq> []"
  shows "\<exists>m. initial_mask schema config = Ok m \<and> length m = length (fsf_features schema) \<and> True \<in> set m \<and>
    (vc_mode config = Explicit \<longrightarrow> vc_explicit_mask config = Some m) \<and>
    (vc_mode config \<noteq> Explicit \<longrightarrow> m = replicate (length (fsf_features schema)) True)"
  using resolve_Ok_cases [OF assms(1)] assms(2) by (auto simp: initial_mask_def set_replicate_conv_if)

lemma fresh_init:
  assumes "resolve_vec_mask_config raw k (length (fsf_features schema)) = Ok config" "fsf_features schema \<noteq> []"
  obtains m s1 rt where "initial_mask schema config = Ok m" "length m = length (fsf_features schema)" "True \<in> set m"
    "initialize_fresh s schema config = Ok (s1, masked (fsf_features schema) m)"
    "s1 = set_vec_mask_runtime_meta rt (set_schema_info (fsf_version schema) (fsf_features schema) m
       (masked (fsf_features schema) m) s)"
    "vm_mode rt = vc_mode config" "effective_mask rt = m" "mask_committed rt \<longleftrightarrow> vc_mode config \<noteq> AutoCredit"
    "\<not> tpe_init_committed rt" "requested_explicit_mask rt = vc_explicit_mask config" "credit_top_k rt = k"
    "selected_feature_names rt = map fs_name (masked (fsf_features schema) m)" "selected_schema_indices rt = true_indices m"
proof -
  obtain m where m: "initial_mask schema config = Ok m" "length m = length (fsf_features schema)" "True \<in> set m"
    using initial_mask_resolved [OF assms] by blast
  show ?thesis
    by (rule that [OF m])
      (use m resolve_top_k [OF assms(1)] resolve_Ok_cases [OF assms(1)] in
        \<open>auto simp: initialize_fresh_def Let_def compute_active_features_def\<close>)
qed

lemma startup_frame [simp]:
  "globals (s\<lparr>m_weight_mode := wm\<rparr>) = globals s" "globals (s\<lparr>m_acfg := a\<rparr>) = globals s"
  "globals (set_feat_mode fm s) = globals s" "m_vec_mask (set_feat_mode fm s) = m_vec_mask s"
  "m_history (set_feat_mode fm s) = m_history s" "m_matrix (set_feat_mode fm s) = m_matrix s"
  "m_feats (set_feat_mode fm s) = m_feats s" "m_acfg (set_feat_mode fm s) = m_acfg s"
  by (simp_all add: globals_def set_feat_mode_def)

lemma record_status_keeps [simp]:
  "vm_mode (record_candidate_status res st rt) = vm_mode rt" "effective_mask (record_candidate_status res st rt) = effective_mask rt"
  "mask_committed (record_candidate_status res st rt) = mask_committed rt"
  "tpe_init_committed (record_candidate_status res st rt) = tpe_init_committed rt"
  by (simp_all add: record_candidate_status_def Let_def)

text \<open>Aligning the feature map of a fresh run: the candidates of the file, if any, have the active dimension.\<close>

lemma align_effect:
  assumes "load_and_align_features_map fs s canonical sites d names p policy = Ok (s', lr)" "get_v_candidates s = []"
  shows "\<exists>cs. globals s' = (globals s)\<lparr>v_candidates := cs, tpe_satisfied := 0 < d, current_v := []\<rparr> \<and>
      (\<forall>c \<in> set cs. length c = d)" "m_vec_mask s' = m_vec_mask s" "m_history s' = m_history s"
    "lr_matrix lr = filter_active_features canonical names"
    "\<exists>v0. lr_feats lr = resize sites (Fin 0) (combine_feature_matrix_to_weights (filter_active_features canonical names) v0 names)"
proof -
  obtain s1 st where e: "ensure_v_candidates_for fs s p d policy = Ok (s1, st)"
    and s': "s' = set_current_weight_vec [] (set_tpe_satisfied (0 < d) s1)"
    and lr: "lr = \<lparr>lr_feats = resize sites (Fin 0) (combine_feature_matrix_to_weights (filter_active_features canonical names)
        (case get_v_candidates s1 of c # _ \<Rightarrow> c | [] \<Rightarrow> equal_simplex d) names),
      lr_matrix = filter_active_features canonical names, lr_status = st\<rparr>"
    using assms(1) by (auto simp: load_and_align_features_map_def bindR_Ok_iff Let_def)
  have s1: "\<exists>cs. globals s1 = (globals s)\<lparr>v_candidates := cs\<rparr> \<and> m_vec_mask s1 = m_vec_mask s \<and> m_history s1 = m_history s"
    using e assms(2) by (auto simp: ensure_v_candidates_for_def Let_def bindR_Ok_iff replace_v_candidates_def getter_defs
        split: if_splits option.splits intro: exI [of _ "[]"])
  then obtain cs where cs: "globals s1 = (globals s)\<lparr>v_candidates := cs\<rparr>" by blast
  have "\<forall>c \<in> set cs. length c = d"
    using ensure_candidates_Ok(1,4) [OF e] assms(2) cs
    by (cases "cs_loaded st") (auto simp: getter_defs candidates_ok_def list_all_iff)
  then show "\<exists>cs. globals s' = (globals s)\<lparr>v_candidates := cs, tpe_satisfied := 0 < d, current_v := []\<rparr> \<and>
      (\<forall>c \<in> set cs. length c = d)"
    using cs s' by (intro exI [of _ cs]) (simp add: setter_defs)
  show "m_vec_mask s' = m_vec_mask s" "m_history s' = m_history s" using s1 s' by (auto simp: setter_defs)
  show "lr_matrix lr = filter_active_features canonical names" using lr by simp
  show "\<exists>v0. lr_feats lr = resize sites (Fin 0) (combine_feature_matrix_to_weights (filter_active_features canonical names) v0 names)"
    using lr by auto
qed

text \<open>The pending feature data of a start: the matrix has the active columns and the weights one entry per site.\<close>

definition features_installed :: "nat \<Rightarrow> string list \<Rightarrow> (string, f64 list) mapping \<Rightarrow> f64 list \<Rightarrow> bool" where
  "features_installed sites names matrix feats \<longleftrightarrow> Mapping.keys matrix = set names \<and>
     (\<forall>n arr. Mapping.lookup matrix n = Some arr \<longrightarrow> length arr = sites \<and> feature_values_ok arr) \<and>
     length feats = sites \<and> (\<forall>x \<in> set feats. is_finite x \<and> fle (Fin 0) x)"

lemma features_installedI:
  assumes "valid_feature_map schema sites canonical" "set active \<subseteq> set (fsf_features schema)"
    "matrix = filter_active_features canonical (map fs_name active)"
    "\<exists>v0. feats = resize sites (Fin 0) (combine_feature_matrix_to_weights (filter_active_features canonical (map fs_name active)) v0
       (map fs_name active))"
  shows "features_installed sites (map fs_name active) matrix feats"
proof -
  have k: "Mapping.lookup canonical n \<noteq> None \<longleftrightarrow> n \<in> fs_name ` set (fsf_features schema)" for n
    using assms(1) by (auto simp: valid_feature_map_def keys_is_none_rep Option.is_none_def)
  have "Mapping.keys matrix = set (map fs_name active)"
  proof -
    have "n \<in> Mapping.keys matrix \<longleftrightarrow> n \<in> fs_name ` set active" for n
      using k [of n] assms(2) unfolding assms(3) keys_is_none_rep Option.is_none_def lookup_filter_active by auto
    then show ?thesis by auto
  qed
  moreover have "length arr = sites \<and> feature_values_ok arr" if "Mapping.lookup matrix n = Some arr" for n arr
    using that assms(1-3) by (auto simp: lookup_filter_active valid_feature_map_def keys_is_none_rep Option.is_none_def split: if_splits)
  moreover have "length feats = sites \<and> (\<forall>x \<in> set feats. is_finite x \<and> fle (Fin 0) x)"
    using assms(4) set_resize combine_entries by fastforce
  ultimately show ?thesis unfolding features_installed_def by blast
qed

lemma load_features_effect:
  assumes "load_features env cli schema False active s = Ok (s', pending)" "valid_schema schema" "get_v_candidates s = []"
    "set active \<subseteq> set (fsf_features schema)"
  shows "pending \<noteq> None \<longleftrightarrow> chosen_features_path env cli \<noteq> None"
    "\<exists>cs ts v. globals s' = (globals s)\<lparr>v_candidates := cs, tpe_satisfied := ts, current_v := v\<rparr> \<and>
       (v = [] \<or> v = current_v (globals s)) \<and> (\<forall>c \<in> set cs. length c = length active)"
    "\<exists>res st. m_vec_mask s' = m_vec_mask s \<or> m_vec_mask s' = map_option (record_candidate_status res st) (m_vec_mask s)"
    "m_history s' = m_history s"
    "pending = Some lr \<Longrightarrow> features_installed (se_sites env) (map fs_name active) (lr_matrix lr) (lr_feats lr)"
proof -
  note L = assms(1) [unfolded load_features_def Let_def]
  have "(pending \<noteq> None \<longleftrightarrow> chosen_features_path env cli \<noteq> None) \<and>
    (\<exists>cs ts v. globals s' = (globals s)\<lparr>v_candidates := cs, tpe_satisfied := ts, current_v := v\<rparr> \<and>
       (v = [] \<or> v = current_v (globals s)) \<and> (\<forall>c \<in> set cs. length c = length active)) \<and>
    (\<exists>res st. m_vec_mask s' = m_vec_mask s \<or> m_vec_mask s' = map_option (record_candidate_status res st) (m_vec_mask s)) \<and>
    m_history s' = m_history s \<and>
    (pending = Some lr \<longrightarrow> features_installed (se_sites env) (map fs_name active) (lr_matrix lr) (lr_feats lr))"
  proof (cases "chosen_features_path env cli")
    case None
    then have "s' = s" "pending = None" using L by simp_all
    moreover have "v_candidates (globals s) = []" using assms(3) by (simp add: getter_defs)
    ultimately show ?thesis using None
      by (auto intro!: exI [of _ "[]"] exI [of _ "tpe_satisfied (globals s)"] exI [of _ "current_v (globals s)"])
  next
    case (Some p)
    let ?pol = "if vm_mode (vec_mask_runtime_meta s) = AutoCredit then IgnoreExternalFile else AllowExternalFile"
    let ?names = "map fs_name active"
    obtain canonical s1 lr' where c: "load_and_validate_feature_map (se_maps env p) schema (se_sites env) = Ok canonical"
      and a: "load_and_align_features_map (se_candidates env) s canonical (se_sites env) (length active) ?names p ?pol = Ok (s1, lr')"
      and p: "pending = Some lr'"
      and s': "s' = (case m_vec_mask s1 of None \<Rightarrow> s1 | Some rt \<Rightarrow> s1\<lparr>m_vec_mask := Some (record_candidate_status False (lr_status lr') rt)\<rparr>)"
      using L Some by (auto simp: bindR_Ok_iff map_err_Ok_iff)
    note e = align_effect [OF a assms(3)]
    have v: "valid_feature_map schema (se_sites env) canonical" by (rule load_feature_map_Ok [OF c assms(2)])
    have "features_installed (se_sites env) ?names (lr_matrix lr') (lr_feats lr')" by (rule features_installedI [OF v assms(4) e(4,5)])
    moreover have "m_vec_mask s' = map_option (record_candidate_status False (lr_status lr')) (m_vec_mask s)" "globals s' = globals s1"
      "m_history s' = m_history s1"
      using s' e(2) by (auto split: option.splits)
    ultimately show ?thesis using p Some e(1,3) by auto
  qed
  then show "pending \<noteq> None \<longleftrightarrow> chosen_features_path env cli \<noteq> None"
    "\<exists>cs ts v. globals s' = (globals s)\<lparr>v_candidates := cs, tpe_satisfied := ts, current_v := v\<rparr> \<and>
       (v = [] \<or> v = current_v (globals s)) \<and> (\<forall>c \<in> set cs. length c = length active)"
    "\<exists>res st. m_vec_mask s' = m_vec_mask s \<or> m_vec_mask s' = map_option (record_candidate_status res st) (m_vec_mask s)"
    "m_history s' = m_history s"
    "pending = Some lr \<Longrightarrow> features_installed (se_sites env) (map fs_name active) (lr_matrix lr) (lr_feats lr)"
    by blast+
qed

lemma acfg_if_needed_effect:
  assumes "load_acfg_if_needed env args has s = Ok s'"
  shows "s' = s \<or> (\<exists>a. s' = s\<lparr>m_acfg := Some a\<rparr>)"
    "has \<and> ba_feat_mode args \<noteq> 0 \<and> ba_weight_compute_mode args = Frontier \<Longrightarrow> \<exists>a. m_acfg s' = Some a \<and>
      n_sancov_sites a = se_sites env \<and> acfg_in_range (se_sites env) (successors a) \<and> acfg_in_range (se_sites env) (predecessors a)"
  using assms
  by (auto simp: load_acfg_if_needed_def bindR_Ok_iff map_err_Ok_iff load_acfg_Ok_iff split: if_splits option.splits)

lemma finish_start_effect:
  fixes env args is_resumed pending s4
  defines "s8 \<equiv> finish_start env args is_resumed pending s4"
  shows "\<exists>t. globals s8 = (globals s4)\<lparr>fuzz_start_epoch_ms := t, feat_exists := pending \<noteq> None\<rparr>" "m_vec_mask s8 = m_vec_mask s4"
    "m_history s8 = m_history s4"
    "pending = Some lr \<Longrightarrow> m_feats s8 = Some (lr_feats lr) \<and> m_matrix s8 = Some \<lparr>fm_matrix = lr_matrix lr, fm_sites = se_sites env\<rparr>"
  by (auto simp: s8_def finish_start_def Let_def install_features_def setter_defs split: option.splits
      intro: exI [of _ "fuzz_start_epoch_ms (globals s4)"])

lemma startup_Ok:
  assumes "startup env cli args schema config out is_resumed s = Ok s'"
  obtains s1 active s4 pending s9 where "initialize_vec_mask_state s schema config is_resumed = Ok (s1, active)"
    "load_features env cli schema is_resumed active (set_factor_params (ba_factor_params args)
       (set_alpha_init (fp_alpha (ba_factor_params args)) (s1\<lparr>m_export := Some \<lparr>output_path = out, last_export_ms = 0\<rparr>\<rparr>))) = Ok (s4, pending)"
    "load_acfg_if_needed env args (pending \<noteq> None) (finish_start env args is_resumed pending s4) = Ok s9"
    "s' = set_tpe_period (ba_tpe_period_secs args) (set_explore_time (ba_explore_time_secs args) (set_feat_mode (ba_feat_mode args) s9))"
  using assms by (auto simp: startup_def Let_def bindR_Ok_iff map_err_Ok_iff split: prod.splits)

text \<open>The candidate file of a feature map is absent, ignored or valid.\<close>

definition candidates_loadable :: "startup_env \<Rightarrow> vec_mask_mode \<Rightarrow> nat \<Rightarrow> path \<Rightarrow> bool" where
  "candidates_loadable env mode d p = (mode = AutoCredit \<or> (case candidate_path_for p of None \<Rightarrow> True
     | Some q \<Rightarrow> se_candidates env q = NoFile \<or> is_Ok (load_candidates_from (se_candidates env q) d)))"

lemma is_Ok_bind: "is_Ok (bindR r f) \<longleftrightarrow> (\<exists>x. r = Ok x \<and> is_Ok (f x))"
  by (cases r) auto

lemma is_Ok_map_err [simp]: "is_Ok (map_err f r) \<longleftrightarrow> is_Ok r"
  by (cases r) auto

lemma is_Ok_ex: "is_Ok r \<longleftrightarrow> (\<exists>x. r = Ok x)"
  by (cases r) auto

lemma load_features_Ok_iff:
  assumes "get_v_candidates s = []" "m_vec_mask s = Some rt"
  shows "is_Ok (load_features env cli schema False active s) \<longleftrightarrow> (case chosen_features_path env cli of None \<Rightarrow> True
    | Some p \<Rightarrow> is_Ok (load_and_validate_feature_map (se_maps env p) schema (se_sites env)) \<and>
        candidates_loadable env (vm_mode rt) (length active) p)"
proof (cases "chosen_features_path env cli")
  case (Some p)
  let ?pol = "if vm_mode rt = AutoCredit then IgnoreExternalFile else AllowExternalFile"
  have "is_Ok (ensure_v_candidates_for (se_candidates env) s p (length active) ?pol) \<longleftrightarrow>
      candidates_loadable env (vm_mode rt) (length active) p"
    using assms(1) by (auto simp: ensure_v_candidates_for_def candidates_loadable_def Let_def is_Ok_bind is_Ok_ex [of "load_candidates_from _ _"]
        map_err_Ok_iff split: option.splits)
  then have "is_Ok (load_and_align_features_map (se_candidates env) s c (se_sites env) (length active) (map fs_name active) p ?pol) \<longleftrightarrow>
      candidates_loadable env (vm_mode rt) (length active) p" for c
    unfolding load_and_align_features_map_def by (auto simp: is_Ok_bind is_Ok_ex Let_def)
  then show ?thesis
    using Some assms(2)
    by (auto simp: load_features_def Let_def is_Ok_bind is_Ok_ex [of "load_and_validate_feature_map _ _ _"] map_err_Ok_iff
        is_Ok_ex [of "load_and_align_features_map _ _ _ _ _ _ _ _"] vec_mask_runtime_meta_def)
qed (simp add: load_features_def)

lemma load_acfg_if_needed_Ok_iff:
  "is_Ok (load_acfg_if_needed env args has s) \<longleftrightarrow> (has \<and> ba_feat_mode args \<noteq> 0 \<and> ba_weight_compute_mode args = Frontier \<longrightarrow>
     (\<exists>p. (case ba_sancov_acfg_path args of Some p \<Rightarrow> Some p | None \<Rightarrow> default_sancov_acfg_path_from_current_exe env) = Some p \<and>
        is_Ok (load_sancov_acfg (se_acfgs env p) (se_sites env))))"
  by (auto simp: load_acfg_if_needed_def is_Ok_bind is_Ok_ex [of "load_sancov_acfg _ _"] map_err_Ok_iff split: option.splits)

lemma set_schema_info_twice: "set_schema_info v fs m act (set_vec_mask_runtime_meta rt (set_schema_info v fs m act s)) =
    set_vec_mask_runtime_meta rt (set_schema_info v fs m act s)"
  by (simp add: set_schema_info_def upd_globals_def set_vec_mask_runtime_meta_def globals_def)

lemma set_runtime_meta_twice: "set_vec_mask_runtime_meta rt (set_vec_mask_runtime_meta rt s) = set_vec_mask_runtime_meta rt s"
  by (simp add: set_vec_mask_runtime_meta_def)

lemma check_resumed_Ok_iff:
  "check_resumed rt config full_mask = Ok u \<longleftrightarrow> vm_mode rt = vc_mode config \<and>
     (vc_mode config = Full \<longrightarrow> effective_mask rt = full_mask) \<and>
     (vc_mode config = Explicit \<longrightarrow> (\<exists>m. vc_explicit_mask config = Some m \<and> requested_explicit_mask rt = Some m \<and> effective_mask rt = m)) \<and>
     (vc_mode config = AutoCredit \<longrightarrow> credit_top_k rt = vc_credit_top_k config \<and> (mask_committed rt \<or> effective_mask rt = full_mask))"
  by (auto simp: check_resumed_def split: vec_mask_mode.splits option.splits)

lemma initialize_resumed_Ok_iff:
  "initialize_resumed s schema config = Ok (s2, active) \<longleftrightarrow> (\<exists>rt. m_vec_mask s = Some rt \<and>
     check_resumed rt config (replicate (length (fsf_features schema)) True) = Ok () \<and>
     active = masked (fsf_features schema) (effective_mask rt) \<and>
     s2 = set_vec_mask_runtime_meta (rt\<lparr>selected_feature_names := map fs_name active, selected_schema_indices := true_indices (effective_mask rt)\<rparr>)
       (set_schema_info (fsf_version schema) (fsf_features schema) (effective_mask rt) active s) \<and>
     (tpe_init_committed rt \<longrightarrow> dims_ok s2))"
  by (auto simp: initialize_resumed_def Let_def bindR_Ok_iff compute_active_features_def validate_ok_iff split: option.splits)

lemma resume_same:
  assumes "resolve_vec_mask_config raw k (length (fsf_features schema)) = Ok config" "fsf_features schema \<noteq> []"
    "initialize_fresh s schema config = Ok (s1, active)"
  shows "initialize_resumed s1 schema config = Ok (s1, active)"
    "resolve_vec_mask_config raw' k' (length (fsf_features schema)) = Ok config' \<Longrightarrow>
     initialize_resumed s1 schema config' = Ok (s2, active2) \<Longrightarrow>
     vc_mode config' = vc_mode config \<and> vc_explicit_mask config' = vc_explicit_mask config \<and>
     (vc_mode config = AutoCredit \<longrightarrow> vc_credit_top_k config' = vc_credit_top_k config)"
proof -
  let ?fs = "fsf_features schema"
  obtain m rt where i: "initial_mask schema config = Ok m" "active = masked ?fs m"
      "s1 = set_vec_mask_runtime_meta rt (set_schema_info (fsf_version schema) ?fs m active s)"
      "vm_mode rt = vc_mode config" "effective_mask rt = m" "\<not> tpe_init_committed rt"
      "requested_explicit_mask rt = vc_explicit_mask config" "credit_top_k rt = k"
      "selected_feature_names rt = map fs_name active" "selected_schema_indices rt = true_indices m"
    using fresh_init [OF assms(1,2), of s] assms(3) by (metis Pair_inject sum.inject(2))
  have rt: "m_vec_mask s1 = Some rt" using i(3) by (simp add: set_vec_mask_runtime_meta_def)
  note m = initial_mask_resolved [OF assms(1,2), unfolded i(1), simplified]
  have "check_resumed rt config (replicate (length ?fs) True) = Ok ()"
    using m i(4-8) resolve_top_k [OF assms(1)] by (auto simp: check_resumed_Ok_iff)
  moreover have "rt\<lparr>selected_feature_names := map fs_name active, selected_schema_indices := true_indices (effective_mask rt)\<rparr> = rt"
    using i(5,9,10) by (cases rt) simp
  ultimately show "initialize_resumed s1 schema config = Ok (s1, active)"
    using rt i(2,5,6) unfolding initialize_resumed_Ok_iff by (auto simp: i(3) set_schema_info_twice set_runtime_meta_twice)
  show "vc_mode config' = vc_mode config \<and> vc_explicit_mask config' = vc_explicit_mask config \<and>
     (vc_mode config = AutoCredit \<longrightarrow> vc_credit_top_k config' = vc_credit_top_k config)"
    if r: "resolve_vec_mask_config raw' k' (length ?fs) = Ok config'" and "initialize_resumed s1 schema config' = Ok (s2, active2)"
  proof -
    have "check_resumed rt config' (replicate (length ?fs) True) = Ok ()" using that(2) rt unfolding initialize_resumed_Ok_iff by auto
    then show ?thesis
      using i(4,7,8) resolve_Ok_cases [OF r] resolve_Ok_cases [OF assms(1)] resolve_top_k [OF assms(1)] by (auto simp: check_resumed_Ok_iff)
  qed
qed

lemma startup_fresh_Ok_iff:
  assumes "valid_schema schema" "resolve_vec_mask_config raw k (length (fsf_features schema)) = Ok config"
    "initial_mask schema config = Ok m"
  shows "is_Ok (startup env cli args schema config out False (state_new r)) \<longleftrightarrow> (case chosen_features_path env cli of
     None \<Rightarrow> True
   | Some p \<Rightarrow> is_Ok (load_and_validate_feature_map (se_maps env p) schema (se_sites env)) \<and>
       candidates_loadable env (vc_mode config) (length (true_indices m)) p \<and>
       (ba_feat_mode args \<noteq> 0 \<and> ba_weight_compute_mode args = Frontier \<longrightarrow>
         (\<exists>q. (case ba_sancov_acfg_path args of Some q \<Rightarrow> Some q | None \<Rightarrow> default_sancov_acfg_path_from_current_exe env) = Some q \<and>
           is_Ok (load_sancov_acfg (se_acfgs env q) (se_sites env)))))"
proof -
  let ?s0 = "state_new r" and ?fs = "fsf_features schema"
  have ne: "?fs \<noteq> []" using assms(1) by (simp add: valid_schema_def)
  obtain s1 rt where i: "initialize_fresh ?s0 schema config = Ok (s1, masked ?fs m)"
      "s1 = set_vec_mask_runtime_meta rt (set_schema_info (fsf_version schema) ?fs m (masked ?fs m) ?s0)" "vm_mode rt = vc_mode config"
      "length m = length ?fs"
    using fresh_init [OF assms(2) ne, of ?s0] assms(3) by (metis sum.inject(2))
  let ?s3 = "set_factor_params (ba_factor_params args) (set_alpha_init (fp_alpha (ba_factor_params args))
       (s1\<lparr>m_export := Some \<lparr>output_path = out, last_export_ms = 0\<rparr>\<rparr>))"
  have g3: "get_v_candidates ?s3 = []" "m_vec_mask ?s3 = Some rt"
    using i(2) by (simp_all add: setter_defs getter_defs set_vec_mask_runtime_meta_def globals_def state_new_def upd_globals_def
        feature_globals_default_def)
  have len: "length (masked ?fs m) = length (true_indices m)" using masked_eq_nth [of ?fs m] i(4) by simp
  have st: "is_Ok (startup env cli args schema config out False ?s0) \<longleftrightarrow> (\<exists>s4 pending.
      load_features env cli schema False (masked ?fs m) ?s3 = Ok (s4, pending) \<and>
      is_Ok (load_acfg_if_needed env args (pending \<noteq> None) (finish_start env args False pending s4)))"
    using i(1) by (auto simp: startup_def initialize_vec_mask_state_def Let_def is_Ok_bind is_Ok_ex [of "load_acfg_if_needed _ _ _ _"])
  have pend: "pending \<noteq> None \<longleftrightarrow> chosen_features_path env cli \<noteq> None"
    if "load_features env cli schema False (masked ?fs m) ?s3 = Ok (s4, pending)" for s4 pending
    using load_features_effect(1) [OF that assms(1) g3(1) set_masked] .
  show ?thesis
    using load_features_Ok_iff [OF g3, of env cli schema "masked ?fs m"] pend i(3) len
    unfolding st by (cases "chosen_features_path env cli") (auto simp: is_Ok_ex [of "load_features _ _ _ _ _ _"] load_acfg_if_needed_Ok_iff)
qed

lemma fresh_config:
  fixes fp al ex
  assumes "valid_schema schema" "resolve_vec_mask_config raw k (length (fsf_features schema)) = Ok config"
    "initialize_vec_mask_state (state_new r) schema config False = Ok (s1, active)"
  defines "s3 \<equiv> set_factor_params fp (set_alpha_init al (s1\<lparr>m_export := ex\<rparr>))"
  obtains m rt where "length m = length (fsf_features schema)" "True \<in> set m" "active = masked (fsf_features schema) m"
    "vm_mode rt = vc_mode config" "effective_mask rt = m" "mask_committed rt \<longleftrightarrow> vc_mode config \<noteq> AutoCredit" "\<not> tpe_init_committed rt"
    "v_candidates (globals s3) = []" "current_v (globals s3) = []" "vec_mask (globals s3) = m" "feature_dim (globals s3) = length active"
    "active_feature_names (globals s3) = map fs_name active" "m_vec_mask s3 = Some rt" "m_history s3 = None"
proof -
  let ?s0 = "state_new r" and ?fs = "fsf_features schema"
  have ne: "?fs \<noteq> []" using assms(1) by (simp add: valid_schema_def)
  obtain m rt where i: "length m = length ?fs" "True \<in> set m" "active = masked ?fs m"
      "s1 = set_vec_mask_runtime_meta rt (set_schema_info (fsf_version schema) ?fs m (masked ?fs m) ?s0)"
      "vm_mode rt = vc_mode config" "effective_mask rt = m" "mask_committed rt \<longleftrightarrow> vc_mode config \<noteq> AutoCredit" "\<not> tpe_init_committed rt"
    using fresh_init [OF assms(2) ne, of ?s0] assms(3) unfolding initialize_vec_mask_state_def by (metis Pair_inject sum.inject(2))
  show thesis
    by (rule that [OF i(1-3) i(5-8)]) (use i(3,4) in \<open>simp_all add: s3_def setter_defs set_vec_mask_runtime_meta_def globals_def
        state_new_def upd_globals_def feature_globals_default_def\<close>)
qed

section \<open>Properties\<close>

text \<open>C8. A fresh start under resolved options, when it goes through, leaves a consistent configuration: the mask has
  the length of the schema and selects a feature, the active names and dimension are those it selects,
  the runtime metadata agrees with it and is committed exactly outside the automatic mode, all stored
  vectors have the active dimension, features exist exactly when a feature map was found, then with one
  column per active feature and one finite non-negative weight per coverage site, and the frontier mode
  has a control-flow graph whose edges stay inside the coverage sites.\<close>

theorem startup_fresh_correct:
  assumes "valid_schema schema" "resolve_vec_mask_config raw k (length (fsf_features schema)) = Ok config"
    "startup env cli args schema config out False (state_new r) = Ok s"
  shows "(length (get_vec_mask s) = length (fsf_features schema) \<and> True \<in> set (get_vec_mask s) \<and>
      get_active_feature_names s = map fs_name (masked (fsf_features schema) (get_vec_mask s)) \<and>
      get_active_dim s = length (get_active_feature_names s)) \<and>
    (\<exists>rt. m_vec_mask s = Some rt \<and> vm_mode rt = vc_mode config \<and> effective_mask rt = get_vec_mask s \<and>
      (mask_committed rt \<longleftrightarrow> vc_mode config \<noteq> AutoCredit) \<and> \<not> tpe_init_committed rt) \<and>
    dims_ok s \<and> (get_feat_exists s \<longleftrightarrow> chosen_features_path env cli \<noteq> None) \<and>
    (get_feat_exists s \<longrightarrow> (\<exists>mm feats. m_matrix s = Some mm \<and> m_feats s = Some feats \<and> fm_sites mm = se_sites env \<and>
      features_installed (se_sites env) (get_active_feature_names s) (fm_matrix mm) feats)) \<and>
    (get_feat_exists s \<and> ba_feat_mode args \<noteq> 0 \<and> ba_weight_compute_mode args = Frontier \<longrightarrow> (\<exists>a. m_acfg s = Some a \<and>
      n_sancov_sites a = se_sites env \<and> acfg_in_range (se_sites env) (successors a) \<and> acfg_in_range (se_sites env) (predecessors a)))"
proof -
  let ?s0 = "state_new r" and ?fs = "fsf_features schema"
  obtain s1 active s4 pending s9 where st: "initialize_vec_mask_state ?s0 schema config False = Ok (s1, active)"
      "load_features env cli schema False active (set_factor_params (ba_factor_params args)
       (set_alpha_init (fp_alpha (ba_factor_params args)) (s1\<lparr>m_export := Some \<lparr>output_path = out, last_export_ms = 0\<rparr>\<rparr>))) = Ok (s4, pending)"
      (is "load_features _ _ _ _ _ ?s3 = _")
      "load_acfg_if_needed env args (pending \<noteq> None) (finish_start env args False pending s4) = Ok s9"
      "s = set_tpe_period (ba_tpe_period_secs args) (set_explore_time (ba_explore_time_secs args) (set_feat_mode (ba_feat_mode args) s9))"
    by (rule startup_Ok [OF assms(3)])
  obtain m rt where i: "length m = length ?fs" "True \<in> set m" "active = masked ?fs m" "vm_mode rt = vc_mode config" "effective_mask rt = m"
      "mask_committed rt \<longleftrightarrow> vc_mode config \<noteq> AutoCredit" "\<not> tpe_init_committed rt"
    and g3: "v_candidates (globals ?s3) = []" "current_v (globals ?s3) = []" "vec_mask (globals ?s3) = m" "feature_dim (globals ?s3) = length active"
      "active_feature_names (globals ?s3) = map fs_name active" "m_vec_mask ?s3 = Some rt" "m_history ?s3 = None"
    by (rule fresh_config [OF assms(1,2) st(1)])
  have "set active \<subseteq> set ?fs" unfolding i(3) by (rule set_masked)
  note e = load_features_effect [OF st(2) assms(1) _ this] and f = finish_start_effect [where env = env and args = args and is_resumed = False and pending = pending and ?s4.0 = s4]
    and a = acfg_if_needed_effect [OF st(3)]
  have c3: "get_v_candidates ?s3 = []" using g3(1) by (simp add: getter_defs)
  obtain cs ts v where g4: "globals s4 = (globals ?s3)\<lparr>v_candidates := cs, tpe_satisfied := ts, current_v := v\<rparr>" "v = []"
      "\<forall>c \<in> set cs. length c = length active"
    using e(2) [OF c3] g3(2) by auto
  obtain t where "globals (finish_start env args False pending s4) = (globals s4)\<lparr>fuzz_start_epoch_ms := t, feat_exists := pending \<noteq> None\<rparr>"
    using f(1) by blast
  moreover have s9: "globals s9 = globals (finish_start env args False pending s4)" "m_matrix s9 = m_matrix (finish_start env args False pending s4)"
      "m_feats s9 = m_feats (finish_start env args False pending s4)"
    using a(1) by auto
  ultimately have g: "vec_mask (globals s9) = m" "feature_dim (globals s9) = length active" "feat_exists (globals s9) = (pending \<noteq> None)"
      "active_feature_names (globals s9) = map fs_name active" "current_v (globals s9) = []" "v_candidates (globals s9) = cs"
    using g4 g3(3-5) by simp_all
  obtain rt' where rt: "m_vec_mask s9 = Some rt'" "vm_mode rt' = vc_mode config" "effective_mask rt' = m"
      "mask_committed rt' \<longleftrightarrow> vc_mode config \<noteq> AutoCredit" "\<not> tpe_init_committed rt'"
    using e(3) [OF c3] f(2) a(1) g3(6) i(4-7) by auto
  have h: "m_history s9 = None" using e(4) [OF c3] f(3) a(1) g3(7) by auto
  have p: "\<exists>mm feats. m_matrix s9 = Some mm \<and> m_feats s9 = Some feats \<and> fm_sites mm = se_sites env \<and>
      features_installed (se_sites env) (map fs_name active) (fm_matrix mm) feats" if "pending \<noteq> None"
    using that e(5) [OF c3] f(4) s9(2,3) by fastforce
  have s9s: "globals s = (globals s9)\<lparr>explore_time_secs := ba_explore_time_secs args, tpe_period_secs := ba_tpe_period_secs args\<rparr>"
      "m_vec_mask s = m_vec_mask s9" "m_history s = m_history s9" "m_matrix s = m_matrix s9" "m_feats s = m_feats s9" "m_acfg s = m_acfg s9"
    using st(4) by (simp_all add: setter_defs)
  have d: "dims_ok s" using g s9s rt(1,5) h g4(3) by (simp add: dims_ok_def getter_defs)
  show ?thesis
  proof (intro conjI)
    show "dims_ok s" by (rule d)
    show "get_feat_exists s = (chosen_features_path env cli \<noteq> None)" using g(3) s9s(1) e(1) [OF c3] by (simp add: getter_defs)
    show "get_feat_exists s \<longrightarrow> (\<exists>mm feats. m_matrix s = Some mm \<and> m_feats s = Some feats \<and> fm_sites mm = se_sites env \<and>
        features_installed (se_sites env) (get_active_feature_names s) (fm_matrix mm) feats)"
      using p g(3,4) s9s(1,4,5) by (simp add: getter_defs)
    show "get_feat_exists s \<and> ba_feat_mode args \<noteq> 0 \<and> ba_weight_compute_mode args = Frontier \<longrightarrow> (\<exists>a. m_acfg s = Some a \<and>
        n_sancov_sites a = se_sites env \<and> acfg_in_range (se_sites env) (successors a) \<and> acfg_in_range (se_sites env) (predecessors a))"
      using a(2) g(3) s9s(1,6) by (simp add: getter_defs)
    show "\<exists>rt. m_vec_mask s = Some rt \<and> vm_mode rt = vc_mode config \<and> effective_mask rt = get_vec_mask s \<and>
        (mask_committed rt \<longleftrightarrow> vc_mode config \<noteq> AutoCredit) \<and> \<not> tpe_init_committed rt"
      using rt g(1) s9s(1,2) by (simp add: getter_defs)
  qed (use i g s9s(1) in \<open>simp_all add: getter_defs\<close>)
qed

text \<open>A fresh start goes through exactly when no feature map is found, or the map is valid, its candidate file
  is absent, ignored (automatic mode) or valid, and, in frontier mode with feature scheduling on, a
  valid control-flow graph is found. When it does not, the process exits with a message, except that an
  underivable graph path is reported as an error.\<close>

theorem startup_fresh_iff:
  assumes "valid_schema schema" "resolve_vec_mask_config raw k (length (fsf_features schema)) = Ok config"
    "initial_mask schema config = Ok m"
  shows "(is_Ok (startup env cli args schema config out False (state_new r)) \<longleftrightarrow> (case chosen_features_path env cli of
     None \<Rightarrow> True
   | Some p \<Rightarrow> is_Ok (load_and_validate_feature_map (se_maps env p) schema (se_sites env)) \<and>
       candidates_loadable env (vc_mode config) (length (true_indices m)) p \<and>
       (ba_feat_mode args \<noteq> 0 \<and> ba_weight_compute_mode args = Frontier \<longrightarrow>
         (\<exists>q. (case ba_sancov_acfg_path args of Some q \<Rightarrow> Some q | None \<Rightarrow> default_sancov_acfg_path_from_current_exe env) = Some q \<and>
           is_Ok (load_sancov_acfg (se_acfgs env q) (se_sites env)))))) \<and>
    (\<forall>e. startup env cli args schema config out False (state_new r) = Err e \<longrightarrow>
       (\<exists>msg. e = Exit msg) \<or> e = Fail (IllegalArgument (AcfgMsg AcfgNoPath)))"
proof -
  have "fsf_features schema \<noteq> []" using assms(1) by (simp add: valid_schema_def)
  then obtain s1 active where "initialize_vec_mask_state (state_new r) schema config False = Ok (s1, active)"
    using fresh_init [OF assms(2), of "state_new r"] unfolding initialize_vec_mask_state_def by metis
  then have "(\<exists>msg. e = Exit msg) \<or> e = Fail (IllegalArgument (AcfgMsg AcfgNoPath))"
    if "startup env cli args schema config out False (state_new r) = Err e" for e
    using that by (auto simp: startup_def Let_def bindR_def map_err_def load_features_def load_acfg_if_needed_def
        split: sum.splits option.splits if_splits prod.splits)
  then show ?thesis using startup_fresh_Ok_iff [OF assms, of env cli args out r] by blast
qed

text \<open>C9. A run resumes under the options it was started with, in exactly the state it was started in, and under no
  other mode, explicit mask or, in automatic mode, number of selected features. In general a successful
  resumption keeps the stored effective mask, makes its features the active ones, and finds every
  stored vector at the active dimension once the optimizer was initialised.\<close>

theorem resume_roundtrip:
  assumes "valid_schema schema" "resolve_vec_mask_config raw k (length (fsf_features schema)) = Ok config"
  shows "(initialize_vec_mask_state s schema config False = Ok (s1, active) \<longrightarrow>
      initialize_vec_mask_state s1 schema config True = Ok (s1, active) \<and>
      (\<forall>raw' k' config' x. resolve_vec_mask_config raw' k' (length (fsf_features schema)) = Ok config' \<and>
        initialize_vec_mask_state s1 schema config' True = Ok x \<longrightarrow> vc_mode config' = vc_mode config \<and>
        vc_explicit_mask config' = vc_explicit_mask config \<and>
        (vc_mode config = AutoCredit \<longrightarrow> vc_credit_top_k config' = vc_credit_top_k config))) \<and>
    (initialize_vec_mask_state s schema config True = Ok (s2, active2) \<longrightarrow> (\<exists>rt rt'. m_vec_mask s = Some rt \<and>
      m_vec_mask s2 = Some rt' \<and> effective_mask rt' = effective_mask rt \<and> get_vec_mask s2 = effective_mask rt \<and>
      active2 = masked (fsf_features schema) (effective_mask rt) \<and> get_active_feature_names s2 = map fs_name active2 \<and>
      (tpe_init_committed rt \<longrightarrow> dims_ok s2)))"
proof -
  have ne: "fsf_features schema \<noteq> []" using assms(1) by (simp add: valid_schema_def)
  have "initialize_resumed s schema config = Ok (s2, active2) \<Longrightarrow> \<exists>rt rt'. m_vec_mask s = Some rt \<and>
      m_vec_mask s2 = Some rt' \<and> effective_mask rt' = effective_mask rt \<and> get_vec_mask s2 = effective_mask rt \<and>
      active2 = masked (fsf_features schema) (effective_mask rt) \<and> get_active_feature_names s2 = map fs_name active2 \<and>
      (tpe_init_committed rt \<longrightarrow> dims_ok s2)"
    unfolding initialize_resumed_Ok_iff by (auto simp: set_vec_mask_runtime_meta_def setter_defs getter_defs)
  then show ?thesis using resume_same [OF assms(2) ne] unfolding initialize_vec_mask_state_def by (auto simp del: not_None_eq)
qed

section \<open>Witnesses\<close>

definition example_map_file :: "(string \<times> json) list file_result" where
  "example_map_file = Parsed [(''depth2'', JArray [JNumber (Fin 1)]), (''betweenness'', JArray [JNumber (Fin (1/2))])]"

definition example_startup_env :: startup_env where
  "example_startup_env = \<lparr>se_exe = Some [RootDir, Normal ''target''],
     se_maps = (\<lambda>p. if p = [RootDir, Normal ''target_features_map.json''] then example_map_file else NoFile),
     se_candidates = (\<lambda>_. NoFile),
     se_acfgs = (\<lambda>_. Parsed \<lparr>af_schema_version = 1, af_kind = ''bofuzz-sancov-acfg-v1'', af_n_sancov_sites = 1,
       af_successors = [[0]], af_predecessors = [[0]]\<rparr>),
     se_now = 7, se_sites = 1\<rparr>"

definition example_args :: bofuzz_args where
  "example_args = \<lparr>ba_factor_params = factor_params_default, ba_feat_mode = 1, ba_explore_time_secs = 43200, ba_tpe_period_secs = 600,
     ba_weight_compute_mode = Frontier, ba_tpe_samples = 16, ba_tpe_gamma = f_lit 0.15, ba_tpe_bw = f_lit 0.05,
     ba_trials_threshold = 5, ba_re_tpe_threshold_secs = 3600, ba_sancov_acfg_path = None\<rparr>"

definition example_config :: vec_mask_config where
  "example_config = \<lparr>vc_mode = Explicit, vc_explicit_mask = Some [True, False], vc_credit_top_k = 8\<rparr>"

lemma example_startup_facts:
  "valid_schema example_schema" "resolve_vec_mask_config (Some ''10'') 8 (length (fsf_features example_schema)) = Ok example_config"
  "initial_mask example_schema example_config = Ok [True, False]"
  "chosen_features_path example_startup_env None = Some [RootDir, Normal ''target_features_map.json'']"
  "is_Ok (load_and_validate_feature_map example_map_file example_schema 1)"
proof -
  show "valid_schema example_schema" by (simp add: valid_schema_def example_schema_def)
  show "resolve_vec_mask_config (Some ''10'') 8 (length (fsf_features example_schema)) = Ok example_config"
    "initial_mask example_schema example_config = Ok [True, False]"
    "chosen_features_path example_startup_env None = Some [RootDir, Normal ''target_features_map.json'']"
    "is_Ok (load_and_validate_feature_map example_map_file example_schema 1)"
    by code_simp+
qed

lemma example_acfg_found:
  "\<exists>q. (case ba_sancov_acfg_path example_args of Some q \<Rightarrow> Some q | None \<Rightarrow> default_sancov_acfg_path_from_current_exe example_startup_env) = Some q \<and>
     is_Ok (load_sancov_acfg (se_acfgs example_startup_env q) (se_sites example_startup_env))"
  "candidates_loadable example_startup_env mode d p" "se_sites example_startup_env = 1"
  "se_maps example_startup_env [RootDir, Normal ''target_features_map.json''] = example_map_file"
  by (auto simp: example_startup_env_def example_args_def candidates_loadable_def load_acfg_Ok_iff acfg_in_range_def is_Ok_ex [of "load_sancov_acfg _ _"]
      default_sancov_acfg_path_from_current_exe_def beside_exe_def path_parent_def path_file_stem_def path_file_name_def
      split: option.splits)

lemma example_starts:
  "is_Ok (startup example_startup_env None example_args example_schema example_config ''out'' False (state_new (std_rand_with_seed 0)))"
  by (subst startup_fresh_Ok_iff [OF example_startup_facts(1-3)])
    (use example_startup_facts(4,5) example_acfg_found in simp)

theorem startup_fresh_iff_witness:
  "is_Ok (startup example_startup_env None example_args example_schema example_config ''out'' False (state_new (std_rand_with_seed 0)))"
  using startup_fresh_iff [OF example_startup_facts(1-3), of example_startup_env None example_args "''out''" "std_rand_with_seed 0"]
    example_startup_facts(4,5) example_acfg_found by simp

theorem resume_roundtrip_witness:
  "\<exists>s1 active. initialize_vec_mask_state (state_new (std_rand_with_seed 0)) example_schema example_config False = Ok (s1, active) \<and>
     initialize_vec_mask_state s1 example_schema example_config True = Ok (s1, active)"
proof -
  have "is_Ok (initialize_vec_mask_state (state_new (std_rand_with_seed 0)) example_schema example_config False)"
    using example_startup_facts(3) by (simp add: initialize_vec_mask_state_def initialize_fresh_def Let_def)
  then obtain s1 active where "initialize_vec_mask_state (state_new (std_rand_with_seed 0)) example_schema example_config False = Ok (s1, active)"
    by (auto simp: is_Ok_ex)
  then show ?thesis using resume_roundtrip [OF example_startup_facts(1,2)] by blast
qed

theorem startup_fresh_correct_witness:
  "\<exists>s. startup example_startup_env None example_args example_schema example_config ''out'' False (state_new (std_rand_with_seed 0)) = Ok s \<and>
     get_feat_exists s \<and> dims_ok s \<and> length (get_vec_mask s) = 2"
proof -
  have "is_Ok (startup example_startup_env None example_args example_schema example_config ''out'' False (state_new (std_rand_with_seed 0)))"
    by (rule example_starts)
  then obtain s where s: "startup example_startup_env None example_args example_schema example_config ''out'' False (state_new (std_rand_with_seed 0)) = Ok s"
    by (auto simp: is_Ok_ex)
  have "length (fsf_features example_schema) = 2" by (simp add: example_schema_def)
  then show ?thesis using startup_fresh_correct [OF example_startup_facts(1,2) s] s example_startup_facts(4) by (intro exI [of _ s]) simp
qed

end
