(* ===== verification/Mutations.thy ===== *)
theory Mutations
  imports Metadata
begin

text \<open>
  The byte mutations (\<open>libafl/src/mutators/mutations.rs\<close>), the havoc list (\<open>havoc_mutations.rs\<close>) and the
  scheduled mutator that stacks them (\<open>scheduled.rs\<close>, \<open>mod.rs\<close>). A mutator is a function of the state,
  whose generator and corpus it uses, and of the bytes of an input; the maximal input size is an
  argument. The unsafe memory moves are modelled with the bounds their debug assertions state, a
  violated bound being \<open>Panic\<close>, so a mutator that never fails is memory safe. Native byte order is
  little endian. Shown: every havoc mutator, and every stack of them, is total, keeps the input inside
  the maximal size and changes nothing but the generator; what each group of mutators does to the
  bytes; that swapping two ranges is exact in one order of their lengths and loses bytes in the other;
  and that dictionary decoding inverts escaping.
\<close>

unbundle bit_operations_syntax

section \<open>Model\<close>

datatype mutation_result = Mutated | Skipped

type_synonym mutator = "fuzz_state \<Rightarrow> u8 list \<Rightarrow> error + (mutation_result \<times> fuzz_state \<times> u8 list)"

text \<open>A draw from the generator of the state.\<close>

definition rand_mut :: "(std_rand \<Rightarrow> 'a \<times> std_rand) \<Rightarrow> fuzz_state \<Rightarrow> 'a \<times> fuzz_state" where
  "rand_mut f s = (let (x, r) = f (st_rand s) in (x, s\<lparr>st_rand := r\<rparr>))"

definition draw_below :: "nat \<Rightarrow> fuzz_state \<Rightarrow> nat \<times> fuzz_state" where
  "draw_below n = rand_mut (\<lambda>r. below std_rand_next r n)"

definition draw_choice :: "'a list \<Rightarrow> fuzz_state \<Rightarrow> 'a option \<times> fuzz_state" where
  "draw_choice xs = rand_mut (\<lambda>r. rand_choose std_rand_next r xs)"

definition draw_u8 :: "fuzz_state \<Rightarrow> u8 \<times> fuzz_state" where
  "draw_u8 s = (let (x, s1) = rand_mut std_rand_next s in (ucast x, s1))"

subsection \<open>Memory moves\<close>

definition write_at :: "nat \<Rightarrow> 'a list \<Rightarrow> 'a list \<Rightarrow> 'a list" where
  "write_at i ys xs = take i xs @ ys @ drop (i + length ys) xs"

definition buffer_self_copy :: "'a list \<Rightarrow> nat \<Rightarrow> nat \<Rightarrow> nat \<Rightarrow> error + 'a list" where
  "buffer_self_copy data from to len =
     (if data = [] \<or> length data < from + len \<or> length data < to + len then Err Panic
      else if len \<noteq> 0 \<and> from \<noteq> to then Ok (write_at to (take len (drop from data)) data) else Ok data)"

definition buffer_copy :: "'a list \<Rightarrow> 'a list \<Rightarrow> nat \<Rightarrow> nat \<Rightarrow> nat \<Rightarrow> error + 'a list" where
  "buffer_copy dst src from to len =
     (if dst = [] \<or> src = [] \<or> length src < from + len \<or> length dst < to + len then Err Panic
      else if len \<noteq> 0 then Ok (write_at to (take len (drop from src)) dst) else Ok dst)"

definition buffer_set :: "'a list \<Rightarrow> nat \<Rightarrow> nat \<Rightarrow> 'a \<Rightarrow> error + 'a list" where
  "buffer_set data from len vl =
     (if length data < from + len then Err Panic else Ok (write_at from (replicate len vl) data))"

definition rand_range :: "nat \<Rightarrow> nat \<Rightarrow> fuzz_state \<Rightarrow> (nat \<times> nat) \<times> fuzz_state" where
  "rand_range upper max_len s =
     (let (l, s1) = draw_below max_len s; len = 1 + l;
          (o2, s2) = rand_mut (\<lambda>r. zero_upto std_rand_next r (upper + len - 1)) s1;
          offset2 = 1 + o2; offset1 = offset2 - len
      in ((offset1, if upper < offset2 then upper else offset2), s2))"

definition range_len :: "nat \<times> nat \<Rightarrow> nat" where
  "range_len rg = snd rg - fst rg"

definition ARITH_MAX :: nat where "ARITH_MAX = 35"

definition INTERESTING_8 :: "int list" where
  "INTERESTING_8 = [-128, -1, 0, 1, 16, 32, 64, 100, 127]"

definition INTERESTING_16 :: "int list" where
  "INTERESTING_16 = [-128, -1, 0, 1, 16, 32, 64, 100, 127, -32768, -129, 128, 255, 256, 512, 1000, 1024, 4096, 32767]"

definition INTERESTING_32 :: "int list" where
  "INTERESTING_32 = [-128, -1, 0, 1, 16, 32, 64, 100, 127, -32768, -129, 128, 255, 256, 512, 1000, 1024, 4096, 32767,
     -2147483648, -100663046, -32769, 32768, 65535, 65536, 100663045, 2147483647]"

subsection \<open>Single bytes\<close>

text \<open>\<open>choose(input.mutator_bytes_mut())\<close>: the position of the chosen byte.\<close>

definition choose_byte :: "u8 list \<Rightarrow> fuzz_state \<Rightarrow> nat option \<times> fuzz_state" where
  "choose_byte bs = draw_choice [0..<length bs]"

definition change_byte :: "(u8 \<Rightarrow> u8) \<Rightarrow> mutator" where
  "change_byte f s bs = (case choose_byte bs s of
     (None, _) \<Rightarrow> Err Panic
   | (Some i, s1) \<Rightarrow> Ok (Mutated, s1, bs[i := f (bs ! i)]))"

definition bit_flip :: mutator where
  "bit_flip s bs = (if bs = [] then Ok (Skipped, s, bs)
     else case draw_choice [0..<8] s of
       (None, _) \<Rightarrow> Err Panic
     | (Some b, s1) \<Rightarrow> change_byte (\<lambda>x. x XOR push_bit b 1) s1 bs)"

definition byte_flip :: mutator where
  "byte_flip s bs = (if bs = [] then Ok (Skipped, s, bs) else change_byte (\<lambda>x. x XOR 0xff) s bs)"

definition byte_inc :: mutator where
  "byte_inc s bs = (if bs = [] then Ok (Skipped, s, bs) else change_byte (\<lambda>x. x + 1) s bs)"

definition byte_dec :: mutator where
  "byte_dec s bs = (if bs = [] then Ok (Skipped, s, bs) else change_byte (\<lambda>x. x - 1) s bs)"

definition byte_neg :: mutator where
  "byte_neg s bs = (if bs = [] then Ok (Skipped, s, bs) else change_byte (\<lambda>x. NOT x + 1) s bs)"

definition byte_rand :: mutator where
  "byte_rand s bs = (if bs = [] then Ok (Skipped, s, bs)
     else case choose_byte bs s of
       (None, _) \<Rightarrow> Err Panic
     | (Some i, s1) \<Rightarrow> let (x, s2) = draw_below 254 s1 in Ok (Mutated, s2, bs[i := bs ! i XOR (1 + of_nat x)]))"

subsection \<open>Integers of \<open>n\<close> bytes\<close>

definition le_val :: "u8 list \<Rightarrow> nat" where
  "le_val bs = foldr (\<lambda>b acc. unat b + 256 * acc) bs 0"

primrec to_le :: "nat \<Rightarrow> nat \<Rightarrow> u8 list" where
  "to_le 0 v = []"
| "to_le (Suc n) v = of_nat (v mod 256) # to_le n (v div 256)"

definition wrapping_add :: "nat \<Rightarrow> nat \<Rightarrow> nat \<Rightarrow> nat" where
  "wrapping_add n v d = (v + d) mod 256 ^ n"

definition wrapping_sub :: "nat \<Rightarrow> nat \<Rightarrow> nat \<Rightarrow> nat" where
  "wrapping_sub n v d = (v + 256 ^ n - d mod 256 ^ n) mod 256 ^ n"

definition swap_bytes :: "nat \<Rightarrow> nat \<Rightarrow> nat" where
  "swap_bytes n v = le_val (rev (to_le n v))"

definition int_add :: "nat \<Rightarrow> mutator" where
  "int_add n s bs =
     (if length bs < n then Ok (Skipped, s, bs)
      else case draw_choice [0..<length bs + 1 - n] s of
        (None, _) \<Rightarrow> Err Panic
      | (Some i, s1) \<Rightarrow>
          let vl = le_val (take n (drop i bs));
              (d, s2) = draw_below ARITH_MAX s1; num = 1 + d;
              (op, s3) = draw_below 4 s2;
              new_val = (if op = 0 then wrapping_add n vl num
                else if op = 1 then wrapping_sub n vl num
                else if op = 2 then swap_bytes n (wrapping_add n (swap_bytes n vl) num)
                else swap_bytes n (wrapping_sub n (swap_bytes n vl) num))
          in Ok (Mutated, s3, write_at i (to_le n new_val) bs))"

definition int_interesting :: "nat \<Rightarrow> int list \<Rightarrow> mutator" where
  "int_interesting n vals s bs =
     (if length bs < n then Ok (Skipped, s, bs)
      else
        let (i, s1) = draw_below (length bs + 1 - n) s in
        case draw_choice vals s1 of
          (None, _) \<Rightarrow> Err Panic
        | (Some v, s2) \<Rightarrow>
            let vl = nat (v mod 256 ^ n) in
            case draw_choice [0, 1 :: nat] s2 of
              (None, _) \<Rightarrow> Err Panic
            | (Some order, s3) \<Rightarrow>
                let new_bytes = (if order = 0 then rev (to_le n vl) else to_le n vl)
                in if length bs < i + n then Err Panic else Ok (Mutated, s3, write_at i new_bytes bs))"

subsection \<open>Ranges of bytes\<close>

definition bytes_delete :: mutator where
  "bytes_delete s bs = (let sz = length bs in
     if sz \<le> 2 then Ok (Skipped, s, bs)
     else let (rg, s1) = rand_range sz (sz - 1) s in
       if snd rg < fst rg \<or> sz < snd rg then Err Panic
       else Ok (Mutated, s1, take (fst rg) bs @ drop (snd rg) bs))"

definition bytes_expand :: "nat \<Rightarrow> mutator" where
  "bytes_expand max_size s bs = (let sz = length bs in
     if sz = 0 \<or> max_size \<le> sz then Ok (Skipped, s, bs)
     else let (rg, s1) = rand_range sz (min 16 (max_size - sz)) s; n = range_len rg in
       bindR (buffer_self_copy (resize (sz + n) 0 bs) (fst rg) (fst rg + n) (sz - fst rg)) (\<lambda>bs1.
         Ok (Mutated, s1, bs1)))"

text \<open>The amount of an insertion, cut to what fits.\<close>

definition fit_amount :: "nat \<Rightarrow> nat \<Rightarrow> nat \<Rightarrow> nat option" where
  "fit_amount max_size sz amount =
     (if max_size < sz + amount then if sz < max_size then Some (max_size - sz) else None else Some amount)"

definition insert_value :: "nat \<Rightarrow> nat \<Rightarrow> u8 \<Rightarrow> u8 list \<Rightarrow> error + u8 list" where
  "insert_value amount offset v bs =
     bindR (buffer_self_copy (resize (length bs + amount) 0 bs) offset (offset + amount) (length bs - offset)) (\<lambda>bs1.
       buffer_set bs1 offset amount v)"

definition bytes_insert :: "nat \<Rightarrow> mutator" where
  "bytes_insert max_size s bs = (let sz = length bs in
     if sz = 0 \<or> max_size \<le> sz then Ok (Skipped, s, bs)
     else let (a, s1) = draw_below 16 s; (offset, s2) = draw_below (sz + 1) s1 in
       case fit_amount max_size sz (1 + a) of
         None \<Rightarrow> Ok (Skipped, s2, bs)
       | Some amount \<Rightarrow> let (i, s3) = draw_below sz s2 in
           if sz \<le> i then Err Panic
           else bindR (insert_value amount offset (bs ! i) bs) (\<lambda>bs1. Ok (Mutated, s3, bs1)))"

definition bytes_rand_insert :: "nat \<Rightarrow> mutator" where
  "bytes_rand_insert max_size s bs = (let sz = length bs in
     if max_size \<le> sz then Ok (Skipped, s, bs)
     else let (a, s1) = draw_below 16 s; (offset, s2) = draw_below (sz + 1) s1 in
       case fit_amount max_size sz (1 + a) of
         None \<Rightarrow> Ok (Skipped, s2, bs)
       | Some amount \<Rightarrow> let (v, s3) = draw_u8 s2 in
           bindR (insert_value amount offset v bs) (\<lambda>bs1. Ok (Mutated, s3, bs1)))"

definition bytes_set :: mutator where
  "bytes_set s bs = (let sz = length bs in
     if sz = 0 then Ok (Skipped, s, bs)
     else let (rg, s1) = rand_range sz (min sz 16) s in
       case draw_choice bs s1 of
         (None, _) \<Rightarrow> Err Panic
       | (Some v, s2) \<Rightarrow> bindR (buffer_set bs (fst rg) (range_len rg) v) (\<lambda>bs1. Ok (Mutated, s2, bs1)))"

definition bytes_rand_set :: mutator where
  "bytes_rand_set s bs = (let sz = length bs in
     if sz = 0 then Ok (Skipped, s, bs)
     else let (rg, s1) = rand_range sz (min sz 16) s; (v, s2) = draw_u8 s1 in
       bindR (buffer_set bs (fst rg) (range_len rg) v) (\<lambda>bs1. Ok (Mutated, s2, bs1)))"

definition bytes_copy :: mutator where
  "bytes_copy s bs = (let sz = length bs in
     if sz \<le> 1 then Ok (Skipped, s, bs)
     else let (target, s1) = draw_below sz s; (rg, s2) = rand_range sz (sz - target) s1 in
       bindR (buffer_self_copy bs (fst rg) target (range_len rg)) (\<lambda>bs1. Ok (Mutated, s2, bs1)))"

text \<open>The scratch buffers of the following mutators are overwritten completely before they are read.\<close>

definition bytes_insert_copy :: "nat \<Rightarrow> mutator" where
  "bytes_insert_copy max_size s bs = (let sz = length bs in
     if sz \<le> 1 \<or> max_size \<le> sz then Ok (Skipped, s, bs)
     else
       let (target, s1) = draw_below sz s;
           max_insert_len = min 16 (min (sz - target) (max_size - sz));
           (rg, s2) = rand_range sz max_insert_len s1;
           n = range_len rg; bs1 = resize (sz + n) 0 bs
       in bindR (buffer_copy (replicate n 0) bs1 (fst rg) 0 n) (\<lambda>tmp.
          bindR (buffer_self_copy bs1 target (target + n) (sz - target)) (\<lambda>bs2.
          bindR (buffer_copy bs2 tmp 0 target n) (\<lambda>bs3. Ok (Mutated, s2, bs3)))))"

text \<open>The body of the swap: the saved range is the one of the pair that is written back last. The
  other range and the bytes between them are moved inside the buffer.\<close>

definition swap_before :: "nat \<times> nat \<Rightarrow> nat \<times> nat \<Rightarrow> u8 list \<Rightarrow> error + u8 list" where
  "swap_before first second bs =
     bindR (buffer_copy (replicate (range_len first) 0) bs (fst first) 0 (range_len first)) (\<lambda>tmp.
       if range_len second \<le> range_len first
       then let diff = range_len first - range_len second in
         bindR (buffer_self_copy bs (snd second) (snd second + diff) (fst first - snd second)) (\<lambda>bs1.
         bindR (buffer_self_copy bs1 (fst second) (fst first + diff) (range_len second)) (\<lambda>bs2.
         buffer_copy bs2 tmp 0 (fst second) (range_len first)))
       else let diff = range_len second - range_len first in
         bindR (buffer_self_copy bs (snd second) (snd second - diff) (fst first - snd second)) (\<lambda>bs1.
         bindR (buffer_self_copy bs1 (fst second) (fst first - diff) (range_len second)) (\<lambda>bs2.
         buffer_copy bs2 tmp 0 (fst second) (range_len first))))"

definition swap_after :: "nat \<times> nat \<Rightarrow> nat \<times> nat \<Rightarrow> u8 list \<Rightarrow> error + u8 list" where
  "swap_after first second bs =
     bindR (buffer_copy (replicate (range_len second) 0) bs (fst second) 0 (range_len second)) (\<lambda>tmp.
       if range_len first \<le> range_len second
       then let diff = range_len second - range_len first in
         bindR (buffer_self_copy bs (snd first) (snd first + diff) (fst second - snd first)) (\<lambda>bs1.
         bindR (buffer_self_copy bs1 (fst first) (fst second + diff) (range_len first)) (\<lambda>bs2.
         buffer_copy bs2 tmp 0 (fst first) (range_len second)))
       else let diff = range_len first - range_len second in
         bindR (buffer_self_copy bs (snd first) (snd first - diff) (fst second - snd first)) (\<lambda>bs1.
         bindR (buffer_self_copy bs1 (fst first) (fst second - diff) (range_len first)) (\<lambda>bs2.
         buffer_copy bs2 tmp 0 (fst first) (range_len second))))"

definition bytes_swap :: mutator where
  "bytes_swap s bs = (let sz = length bs in
     if sz \<le> 1 then Ok (Skipped, s, bs)
     else
       let (first, s1) = rand_range sz sz s; (x, s2) = rand_mut std_rand_next s1 in
       if x AND 1 = 0 \<and> fst first \<noteq> 0
       then let (second, s3) = rand_range (fst first) (fst first) s2 in
         bindR (swap_before first second bs) (\<lambda>bs1. Ok (Mutated, s3, bs1))
       else if snd first \<noteq> sz
       then let (sec, s3) = rand_range (sz - snd first) (sz - snd first) s2;
                second = (fst sec + snd first, snd sec + snd first) in
         bindR (swap_after first second bs) (\<lambda>bs1. Ok (Mutated, s3, bs1))
       else Ok (Skipped, s2, bs))"

subsection \<open>Crossover and splicing\<close>

definition random_corpus_id_with_disabled :: "fuzz_state \<Rightarrow> error + (corpus_id \<times> fuzz_state)" where
  "random_corpus_id_with_disabled s =
     (if count_all (st_corpus s) = 0 then Err Panic
      else let (n, s1) = draw_below (count_all (st_corpus s)) s in
        case nth_from_all (st_corpus s) n of None \<Rightarrow> Err Panic | Some k \<Rightarrow> Ok (k, s1))"

text \<open>\<open>Testcase::load_input\<close> on an in-memory corpus, whose inputs are never evicted.\<close>

definition load_input_of :: "fuzz_state \<Rightarrow> corpus_id \<Rightarrow> error + u8 list" where
  "load_input_of s k = bindR (map_err CorpusE (corpus_get_from_all (st_corpus s) k)) (\<lambda>tc.
     case tc_input tc of Some inp \<Rightarrow> Ok inp | None \<Rightarrow> Err Panic)"

definition crossover_insert :: "nat \<Rightarrow> nat \<times> nat \<Rightarrow> u8 list \<Rightarrow> u8 list \<Rightarrow> error + u8 list" where
  "crossover_insert target rg other bs = (let n = range_len rg in
     bindR (buffer_self_copy (resize (length bs + n) 0 bs) target (target + n) (length bs - target)) (\<lambda>bs1.
       buffer_copy bs1 other (fst rg) target n))"

definition crossover_replace :: "nat \<Rightarrow> nat \<times> nat \<Rightarrow> u8 list \<Rightarrow> u8 list \<Rightarrow> error + u8 list" where
  "crossover_replace target rg other bs = buffer_copy bs other (fst rg) target (range_len rg)"

definition crossover_insert_mutator :: "nat \<Rightarrow> mutator" where
  "crossover_insert_mutator max_size s bs = (let sz = length bs in
     if sz = 0 \<or> max_size \<le> sz then Ok (Skipped, s, bs)
     else bindR (random_corpus_id_with_disabled s) (\<lambda>(k, s1).
       if current (st_corpus s1) = Some k then Ok (Skipped, s1, bs)
       else bindR (load_input_of s1 k) (\<lambda>other.
         if length other < 2 then Ok (Skipped, s1, bs)
         else
           let (rg, s2) = rand_range (length other) (min (length other) (max_size - sz)) s1;
               (target, s3) = draw_below sz s2
           in bindR (crossover_insert target rg other bs) (\<lambda>bs1. Ok (Mutated, s3, bs1)))))"

definition crossover_replace_mutator :: mutator where
  "crossover_replace_mutator s bs = (let sz = length bs in
     if sz = 0 then Ok (Skipped, s, bs)
     else bindR (random_corpus_id_with_disabled s) (\<lambda>(k, s1).
       if current (st_corpus s1) = Some k then Ok (Skipped, s1, bs)
       else bindR (load_input_of s1 k) (\<lambda>other.
         if length other < 2 then Ok (Skipped, s1, bs)
         else
           let (target, s2) = draw_below sz s1;
               (rg, s3) = rand_range (length other) (min (length other) (sz - target)) s2
           in bindR (crossover_replace target rg other bs) (\<lambda>bs1. Ok (Mutated, s3, bs1)))))"

text \<open>First and last differing position over the common length; -1 without a difference.\<close>

fun locate_diffs_from :: "nat \<Rightarrow> int \<times> int \<Rightarrow> u8 list \<Rightarrow> u8 list \<Rightarrow> int \<times> int" where
  "locate_diffs_from i (f, l) (x # xs) (y # ys) =
     locate_diffs_from (Suc i) (if x \<noteq> y then (if f < 0 then int i else f, int i) else (f, l)) xs ys"
| "locate_diffs_from i fl _ _ = fl"

definition locate_diffs :: "u8 list \<Rightarrow> u8 list \<Rightarrow> int \<times> int" where
  "locate_diffs this other = locate_diffs_from 0 (-1, -1) this other"

definition splice_mutator :: mutator where
  "splice_mutator s bs = bindR (random_corpus_id_with_disabled s) (\<lambda>(k, s1).
     if current (st_corpus s1) = Some k then Ok (Skipped, s1, bs)
     else bindR (load_input_of s1 k) (\<lambda>other.
       let (f, l) = locate_diffs bs other in
       if f \<noteq> l \<and> 0 \<le> f \<and> 2 \<le> l
       then let (split_at, s2) = rand_mut (\<lambda>r. between std_rand_next r (nat f) (nat l)) s1 in
         if length bs < split_at \<or> length other < split_at then Err Panic
         else Ok (Mutated, s2, take split_at bs @ drop split_at other)
       else Ok (Skipped, s1, bs)))"

subsection \<open>Dictionary tokens\<close>

definition from_hex :: "u8 \<Rightarrow> error + u8" where
  "from_hex h = (if 48 \<le> h \<and> h \<le> 57 then Ok (h - 48) else if 65 \<le> h \<and> h \<le> 70 then Ok (h - 55)
     else if 97 \<le> h \<and> h \<le> 102 then Ok (h - 87) else Err (IllegalArgument (Text ''Invalid hex character'')))"

text \<open>The decoder state: whether the last character was a backslash, the number of the next hex digit
  (0 outside an escape), and the high nibble read so far.\<close>

fun str_decode_from :: "bool \<Rightarrow> nat \<Rightarrow> u8 \<Rightarrow> u8 list \<Rightarrow> u8 list \<Rightarrow> error + u8 list" where
  "str_decode_from take_next two decoded token [] = Ok token"
| "str_decode_from take_next two decoded token (c # cs) =
     (if two = 1 then bindR (from_hex c) (\<lambda>h. str_decode_from take_next 2 (push_bit 4 h) token cs)
      else if two = 2 then bindR (from_hex c) (\<lambda>h. str_decode_from take_next 0 (decoded + h) (token @ [decoded + h]) cs)
      else if c \<noteq> 92 \<or> take_next
      then if take_next \<and> (c = 120 \<or> c = 88) then str_decode_from False 1 decoded token cs
           else str_decode_from False two decoded (token @ [c]) cs
      else str_decode_from True two decoded token cs)"

definition str_decode :: "u8 list \<Rightarrow> error + u8 list" where
  "str_decode item = str_decode_from False 0 0 [] item"

subsection \<open>The havoc list and the scheduled mutator\<close>

definition havoc_mutations_no_crossover :: "nat \<Rightarrow> mutator list" where
  "havoc_mutations_no_crossover ms = [bit_flip, byte_flip, byte_inc, byte_dec, byte_neg, byte_rand,
     int_add 1, int_add 2, int_add 4, int_add 8,
     int_interesting 1 INTERESTING_8, int_interesting 2 INTERESTING_16, int_interesting 4 INTERESTING_32,
     bytes_delete, bytes_delete, bytes_delete, bytes_delete, bytes_expand ms, bytes_insert ms, bytes_rand_insert ms,
     bytes_set, bytes_rand_set, bytes_copy, bytes_insert_copy ms, bytes_swap]"

definition havoc_crossover :: "nat \<Rightarrow> mutator list" where
  "havoc_crossover ms = [crossover_insert_mutator ms, crossover_replace_mutator]"

definition havoc_mutations :: "nat \<Rightarrow> mutator list" where
  "havoc_mutations ms = havoc_mutations_no_crossover ms @ havoc_crossover ms"

fun get_and_mutate :: "mutator list \<Rightarrow> nat \<Rightarrow> mutator" where
  "get_and_mutate [] i s bs = Ok (Skipped, s, bs)"
| "get_and_mutate (m # muts) i s bs = (if i = 0 then m s bs else get_and_mutate muts (i - 1) s bs)"

definition iterations :: "nat \<Rightarrow> fuzz_state \<Rightarrow> nat \<times> fuzz_state" where
  "iterations max_stack_pow s = (let (x, s1) = rand_mut (\<lambda>r. zero_upto std_rand_next r max_stack_pow) s in (2 ^ (1 + x), s1))"

fun stack_mutations :: "mutator list \<Rightarrow> nat \<Rightarrow> mutation_result \<Rightarrow> mutator" where
  "stack_mutations muts 0 r s bs = Ok (r, s, bs)"
| "stack_mutations muts (Suc n) r s bs =
     (if muts = [] then Err Panic
      else let (i, s1) = draw_below (length muts) s in
        bindR (get_and_mutate muts i s1 bs) (\<lambda>(outcome, s2, bs2).
          stack_mutations muts n (if outcome = Mutated then Mutated else r) s2 bs2))"

definition scheduled_mutate :: "mutator list \<Rightarrow> nat \<Rightarrow> mutator" where
  "scheduled_mutate muts max_stack_pow s bs =
     (let (num, s1) = iterations max_stack_pow s in stack_mutations muts num Skipped s1 bs)"

section \<open>Draws and memory moves\<close>

definition only_rand :: "fuzz_state \<Rightarrow> fuzz_state \<Rightarrow> bool" where
  "only_rand s s' = (\<exists>r. s' = s\<lparr>st_rand := r\<rparr>)"

lemma only_rand_refl [simp]: "only_rand s s"
  unfolding only_rand_def by (rule exI [of _ "st_rand s"]) simp

lemma only_rand_trans: "only_rand s s1 \<Longrightarrow> only_rand s1 s2 \<Longrightarrow> only_rand s s2"
  by (auto simp: only_rand_def)

lemma only_rand_corpus: "only_rand s s' \<Longrightarrow> st_corpus s' = st_corpus s"
  by (auto simp: only_rand_def)

lemma rand_mut_only: "rand_mut f s = (x, s') \<Longrightarrow> only_rand s s'"
  by (auto simp: rand_mut_def only_rand_def split: prod.splits)

lemma draw_below_ok: "draw_below n s = (x, s') \<Longrightarrow> only_rand s s' \<and> (0 < n \<and> n < 2 ^ 64 \<longrightarrow> x < n)"
  using rand_mut_only by (auto simp: draw_below_def rand_mut_def below_less only_rand_def split: prod.splits)

lemma draw_choice_ok: "draw_choice xs s = (x, s') \<Longrightarrow> only_rand s s' \<and> (xs \<noteq> [] \<and> length xs < 2 ^ 64 \<longrightarrow> (\<exists>y \<in> set xs. x = Some y))"
  using rand_choose_mem [of xs std_rand_next "st_rand s"] by (auto simp: draw_choice_def rand_mut_def only_rand_def split: prod.splits)

lemma draw_u8_only: "draw_u8 s = (x, s') \<Longrightarrow> only_rand s s'"
  by (auto simp: draw_u8_def dest: rand_mut_only split: prod.splits)

lemma zero_upto_less: "0 < n \<Longrightarrow> n < 2 ^ 64 \<Longrightarrow> zero_upto nxt r n = (i, r') \<Longrightarrow> i < n"
  using fast_bound_less [of n "fst (nxt r)"]
  by (auto simp: zero_upto_def fast_bound_usize_def fast_bound_def Let_def split: prod.splits)

lemma rand_range_ok:
  assumes "rand_range upper max_len s = (rg, s')" "0 < upper" "0 < max_len" "upper + max_len < 2 ^ 64"
  shows "only_rand s s'" "fst rg < snd rg" "snd rg \<le> upper" "range_len rg \<le> max_len"
proof -
  obtain l s1 o2 where d: "draw_below max_len s = (l, s1)" "rand_mut (\<lambda>r. zero_upto std_rand_next r (upper + (1 + l) - 1)) s1 = (o2, s')"
      "rg = (1 + o2 - (1 + l), if upper < 1 + o2 then upper else 1 + o2)"
    using assms(1) by (auto simp: rand_range_def Let_def split: prod.splits)
  have l: "l < max_len" "only_rand s s1" using draw_below_ok [OF d(1)] assms(3,4) by simp_all
  have "only_rand s1 s'" using rand_mut_only [OF d(2)] .
  then show "only_rand s s'" using l(2) only_rand_trans by blast
  have "o2 < upper + l"
    using d(2) assms(2,4) l(1) zero_upto_less [of "upper + l" std_rand_next "st_rand s1"]
    by (auto simp: rand_mut_def split: prod.splits)
  then show "fst rg < snd rg" "snd rg \<le> upper" "range_len rg \<le> max_len"
    using d(3) l(1) assms(2) by (auto simp: range_len_def)
qed

lemma length_write_at [simp]: "i + length ys \<le> length xs \<Longrightarrow> length (write_at i ys xs) = length xs"
  by (simp add: write_at_def)

lemma nth_write_at:
  "i + length ys \<le> length xs \<Longrightarrow> j < length xs \<Longrightarrow>
     write_at i ys xs ! j = (if i \<le> j \<and> j < i + length ys then ys ! (j - i) else xs ! j)"
  by (auto simp: write_at_def nth_append min_def)

lemma write_at_Nil [simp]: "write_at i [] xs = xs"
  by (simp add: write_at_def)

lemma write_at_same: "i + n \<le> length xs \<Longrightarrow> write_at i (take n (drop i xs)) xs = xs"
  by (rule nth_equalityI) (auto simp: nth_write_at)

lemma buffer_self_copy_Ok:
  assumes "data \<noteq> []" "from + len \<le> length data" "to + len \<le> length data"
  shows "buffer_self_copy data from to len = Ok (write_at to (take len (drop from data)) data)"
  using assms write_at_same [of "from" len data] by (auto simp: buffer_self_copy_def)

lemma buffer_copy_Ok:
  assumes "dst \<noteq> []" "src \<noteq> []" "from + len \<le> length src" "to + len \<le> length dst"
  shows "buffer_copy dst src from to len = Ok (write_at to (take len (drop from src)) dst)"
  using assms by (auto simp: buffer_copy_def)

lemma buffer_set_Ok: "from + len \<le> length data \<Longrightarrow> buffer_set data from len v = Ok (write_at from (replicate len v) data)"
  by (simp add: buffer_set_def)

section \<open>The contract of a mutator\<close>

text \<open>What the mutators rely on: a well-formed corpus that is not empty, with its inputs in memory, a
  dictionary without empty tokens, logged comparisons with sides of equal length, and sizes that fit into
  machine words.\<close>

definition tokens_ok :: "tokens \<Rightarrow> bool" where
  "tokens_ok t \<longleftrightarrow> length (tokens_vec t) < 2 ^ 64 \<and> (\<forall>w \<in> set (tokens_vec t). w \<noteq> [] \<and> length w < 2 ^ 62)"

text \<open>The two sides of a byte comparison have the same length, within their buffers.\<close>

definition cmp_ok :: "cmp_values \<Rightarrow> bool" where
  "cmp_ok v = (case v of CmpBytes a b \<Rightarrow> cb_len a = cb_len b \<and> unat (cb_len a) \<le> length (cb_buf a) \<and> unat (cb_len b) \<le> length (cb_buf b)
     | _ \<Rightarrow> True)"

definition mut_pre :: "nat \<Rightarrow> fuzz_state \<Rightarrow> bool" where
  "mut_pre ms s \<longleftrightarrow> wf_corpus (st_corpus s) \<and> 0 < count_all (st_corpus s) \<and> count_all (st_corpus s) < 2 ^ 64 \<and>
     (\<forall>k tc. corpus_get_from_all (st_corpus s) k = Ok tc \<longrightarrow> (\<exists>inp. tc_input tc = Some inp \<and> length inp < 2 ^ 62)) \<and> ms < 2 ^ 62 \<and>
     (\<forall>t. m_tokens s = Some t \<longrightarrow> tokens_ok t) \<and>
     (\<forall>cs. m_cmps s = Some cs \<longrightarrow> length cs < 2 ^ 64 \<and> list_all cmp_ok cs)"

definition mut_post :: "nat \<Rightarrow> fuzz_state \<Rightarrow> u8 list \<Rightarrow> error + (mutation_result \<times> fuzz_state \<times> u8 list) \<Rightarrow> bool" where
  "mut_post ms s bs r \<longleftrightarrow> (\<exists>res s' bs'. r = Ok (res, s', bs') \<and> only_rand s s' \<and> length bs' \<le> ms \<and>
     (res = Skipped \<longrightarrow> bs' = bs) \<and> (bs \<noteq> [] \<longrightarrow> bs' \<noteq> []))"

definition mutator_ok :: "nat \<Rightarrow> mutator \<Rightarrow> bool" where
  "mutator_ok ms m \<longleftrightarrow> (\<forall>s bs. mut_pre ms s \<longrightarrow> length bs \<le> ms \<longrightarrow> mut_post ms s bs (m s bs))"

lemma mut_postI:
  "r = Ok (res, s', bs') \<Longrightarrow> only_rand s s' \<Longrightarrow> length bs' \<le> ms \<Longrightarrow> (res = Skipped \<Longrightarrow> bs' = bs) \<Longrightarrow> (bs \<noteq> [] \<Longrightarrow> bs' \<noteq> []) \<Longrightarrow>
     mut_post ms s bs r"
  unfolding mut_post_def by blast

lemma mut_post_skip: "length bs \<le> ms \<Longrightarrow> only_rand s s' \<Longrightarrow> mut_post ms s bs (Ok (Skipped, s', bs))"
  unfolding mut_post_def by blast

lemma mut_pre_only_rand: "mut_pre ms s \<Longrightarrow> only_rand s s' \<Longrightarrow> mut_pre ms s'"
  by (auto simp: mut_pre_def only_rand_def)

lemma choose_byte_ok:
  assumes "choose_byte bs s = (p, s')" "bs \<noteq> []" "length bs < 2 ^ 64"
  shows "only_rand s s'" "\<exists>i. p = Some i \<and> i < length bs"
  using draw_choice_ok [OF assms(1) [unfolded choose_byte_def]] assms(2,3) by auto

text \<open>The single-byte mutators change one position and nothing else.\<close>

lemma change_byte_ok:
  assumes "bs \<noteq> []" "length bs < 2 ^ 64"
  shows "\<exists>s' i. change_byte f s bs = Ok (Mutated, s', bs[i := f (bs ! i)]) \<and> only_rand s s' \<and> i < length bs"
proof -
  obtain p s' where c: "choose_byte bs s = (p, s')" by fastforce
  from choose_byte_ok [OF c assms] c show ?thesis by (auto simp: change_byte_def)
qed

lemma bit_flip_effect:
  assumes "bs \<noteq> []" "length bs < 2 ^ 64"
  shows "\<exists>s' i b. bit_flip s bs = Ok (Mutated, s', bs[i := bs ! i XOR push_bit b 1]) \<and> only_rand s s' \<and> i < length bs \<and> b < 8"
proof -
  obtain p s1 where d: "draw_choice [0..<8] s = (p, s1)" by fastforce
  from draw_choice_ok [OF d] obtain b where b: "p = Some b" "b < 8" "only_rand s s1" by auto
  from change_byte_ok [OF assms, of "\<lambda>x. x XOR push_bit b 1" s1] b d assms(1) only_rand_trans [OF b(3)]
  show ?thesis unfolding bit_flip_def by fastforce
qed

lemma byte_rand_effect:
  assumes "bs \<noteq> []" "length bs < 2 ^ 64"
  shows "\<exists>s' i x. byte_rand s bs = Ok (Mutated, s', bs[i := bs ! i XOR (1 + of_nat x)]) \<and> only_rand s s' \<and> i < length bs \<and> x < 254"
proof -
  obtain p s1 where c: "choose_byte bs s = (p, s1)" by fastforce
  from choose_byte_ok [OF c assms] obtain i where i: "p = Some i" "i < length bs" "only_rand s s1" by blast
  obtain x s2 where x: "draw_below 254 s1 = (x, s2)" by fastforce
  then have "x < 254" "only_rand s s2" using draw_below_ok [OF x] only_rand_trans [OF i(3)] by auto
  then show ?thesis using c i x assms(1) by (auto simp: byte_rand_def)
qed

lemma point_ok:
  assumes "\<And>s bs. bs = [] \<Longrightarrow> m s bs = Ok (Skipped, s, bs)"
    "\<And>s bs. bs \<noteq> [] \<Longrightarrow> length bs < 2 ^ 64 \<Longrightarrow> \<exists>s' i v. m s bs = Ok (Mutated, s', bs[i := v]) \<and> only_rand s s'"
  shows "mutator_ok ms m"
  unfolding mutator_ok_def
proof (intro allI impI)
  fix s and bs :: "u8 list"
  assume pre: "mut_pre ms s" and len: "length bs \<le> ms"
  show "mut_post ms s bs (m s bs)"
  proof (cases "bs = []")
    case False
    have "length bs < 2 ^ 64" using pre len by (simp add: mut_pre_def)
    from assms(2) [OF False this, of s] len False show ?thesis by (auto simp: mut_post_def)
  qed (simp add: assms(1) mut_post_def len)
qed

lemma point_mutators_ok:
  "mutator_ok ms bit_flip" "mutator_ok ms byte_flip" "mutator_ok ms byte_inc" "mutator_ok ms byte_dec" "mutator_ok ms byte_neg"
  "mutator_ok ms byte_rand"
proof -
  show "mutator_ok ms bit_flip" by (rule point_ok) (use bit_flip_effect in \<open>fastforce simp: bit_flip_def\<close>)+
  show "mutator_ok ms byte_rand" by (rule point_ok) (use byte_rand_effect in \<open>fastforce simp: byte_rand_def\<close>)+
  show "mutator_ok ms byte_flip" by (rule point_ok) (use change_byte_ok in \<open>fastforce simp: byte_flip_def\<close>)+
  show "mutator_ok ms byte_inc" by (rule point_ok) (use change_byte_ok in \<open>fastforce simp: byte_inc_def\<close>)+
  show "mutator_ok ms byte_dec" by (rule point_ok) (use change_byte_ok in \<open>fastforce simp: byte_dec_def\<close>)+
  show "mutator_ok ms byte_neg" by (rule point_ok) (use change_byte_ok in \<open>fastforce simp: byte_neg_def\<close>)+
qed

subsection \<open>Integers\<close>

lemma length_to_le [simp]: "length (to_le n v) = n"
  by (induction n arbitrary: v) simp_all

lemma le_val_simps [simp]: "le_val [] = 0" "le_val (b # bs) = unat b + 256 * le_val bs"
  by (simp_all add: le_val_def)

lemma unat_byte: "unat (of_nat v :: u8) = v mod 256"
  by (simp add: unsigned_of_nat take_bit_eq_mod)

lemma le_val_to_le: "le_val (to_le n v) = v mod 256 ^ n"
proof (induction n arbitrary: v)
  case (Suc n)
  have "v mod (256 * 256 ^ n) = 256 * (v div 256 mod 256 ^ n) + v mod 256" by (simp only: mod_mult2_eq)
  then show ?case using Suc by (simp add: unat_byte)
qed simp

lemma to_le_le_val: "to_le (length bs) (le_val bs) = bs"
proof (induction bs)
  case (Cons b bs)
  have b: "unat b < 256" using unsigned_less [of b] by simp
  then have "(unat b + 256 * le_val bs) mod 256 = unat b" "(unat b + 256 * le_val bs) div 256 = le_val bs" by simp_all
  then show ?case using Cons by simp
qed simp

lemma le_val_less: "le_val bs < 256 ^ length bs"
  using le_val_to_le [of "length bs" "le_val bs"] by (simp add: to_le_le_val mod_eq_self_iff_div_eq_0 [symmetric] del: mod_less)
    (metis mod_less_divisor zero_less_numeral zero_less_power)

lemma rev_to_le_swap: "rev (to_le n (swap_bytes n v)) = to_le n v"
  using to_le_le_val [of "rev (to_le n v)"] by (simp add: swap_bytes_def)

lemma swap_bytes_le_val: "length w = n \<Longrightarrow> swap_bytes n (le_val w) = le_val (rev w)"
  using to_le_le_val [of w] by (auto simp: swap_bytes_def)

text \<open>The new window, read in one of the two byte orders, is the old one plus or minus the drawn amount.\<close>

definition shifted_by :: "nat \<Rightarrow> u8 list \<Rightarrow> u8 list \<Rightarrow> nat \<Rightarrow> bool" where
  "shifted_by n w w' d \<longleftrightarrow> le_val w' = (le_val w + d) mod 256 ^ n \<or> (le_val w' + d) mod 256 ^ n = le_val w \<or>
     le_val (rev w') = (le_val (rev w) + d) mod 256 ^ n \<or> (le_val (rev w') + d) mod 256 ^ n = le_val (rev w)"

lemma wrapping_sub_add: "v < 256 ^ n \<Longrightarrow> (wrapping_sub n v d + d) mod 256 ^ n = v"
proof -
  assume v: "v < 256 ^ n"
  have "(wrapping_sub n v d + d) mod 256 ^ n = (v + 256 ^ n - d mod 256 ^ n + d mod 256 ^ n) mod 256 ^ n"
    unfolding wrapping_sub_def by (simp only: mod_add_left_eq mod_add_right_eq)
  also have "v + 256 ^ n - d mod 256 ^ n + d mod 256 ^ n = v + 256 ^ n"
    by (rule le_add_diff_inverse2) (simp add: order_less_imp_le trans_le_add2)
  finally show ?thesis using v by simp
qed

lemma wrapping_less: "wrapping_add n v d < 256 ^ n" "wrapping_sub n v d < 256 ^ n"
  by (simp_all add: wrapping_add_def wrapping_sub_def)

lemma wrapping_to_le:
  "le_val (to_le n (wrapping_add n v d)) = wrapping_add n v d" "le_val (to_le n (wrapping_sub n v d)) = wrapping_sub n v d"
  by (simp_all add: le_val_to_le wrapping_less)

lemma int_add_effect:
  assumes "n \<le> length bs" "length bs < 2 ^ 63"
  shows "\<exists>s' i d w. int_add n s bs = Ok (Mutated, s', write_at i w bs) \<and> only_rand s s' \<and> i + n \<le> length bs \<and>
    length w = n \<and> 1 \<le> d \<and> d \<le> 35 \<and> shifted_by n (take n (drop i bs)) w d"
proof -
  obtain p s1 where p: "draw_choice [0..<length bs + 1 - n] s = (p, s1)" by fastforce
  from draw_choice_ok [OF p] assms obtain i where i: "p = Some i" "i < length bs + 1 - n" "only_rand s s1" by auto
  obtain d s2 where d: "draw_below ARITH_MAX s1 = (d, s2)" by fastforce
  obtain q s3 where q: "draw_below 4 s2 = (q, s3)" by fastforce
  have d35: "d < 35" "only_rand s1 s2" using draw_below_ok [OF d] by (simp_all add: ARITH_MAX_def)
  have s3: "only_rand s s3" using i(3) d35(2) draw_below_ok [OF q] only_rand_trans by blast
  let ?w = "take n (drop i bs)"
  let ?v = "le_val ?w"
  have lw: "length ?w = n" using i(2) assms(1) by simp
  define nv where "nv = (if q = 0 then wrapping_add n ?v (1 + d) else if q = 1 then wrapping_sub n ?v (1 + d)
      else if q = 2 then swap_bytes n (wrapping_add n (swap_bytes n ?v) (1 + d)) else swap_bytes n (wrapping_sub n (swap_bytes n ?v) (1 + d)))"
  have e: "int_add n s bs = Ok (Mutated, s3, write_at i (to_le n nv) bs)"
    using assms(1) p i(1) d q by (simp add: int_add_def Let_def nv_def)
  have vl: "?v < 256 ^ n" "le_val (rev ?w) < 256 ^ n" using le_val_less [of ?w] le_val_less [of "rev ?w"] lw by simp_all
  have "shifted_by n ?w (to_le n nv) (1 + d)"
    unfolding shifted_by_def using vl(1) vl(2) wrapping_to_le [of n] wrapping_sub_add [OF vl(1), of "1 + d"] wrapping_sub_add [OF vl(2), of "1 + d"]
    by (simp only: nv_def rev_to_le_swap swap_bytes_le_val [OF lw] split: if_split) (auto simp only: wrapping_to_le wrapping_add_def)
  then show ?thesis using e s3 i(2) assms(1) d35(1) by (intro exI [of _ s3] exI [of _ i] exI [of _ "1 + d"] exI [of _ "to_le n nv"]) auto
qed

lemma int_interesting_effect:
  assumes "n \<le> length bs" "length bs < 2 ^ 63" "vals \<noteq> []" "length vals < 2 ^ 64"
  shows "\<exists>s' i v w. int_interesting n vals s bs = Ok (Mutated, s', write_at i w bs) \<and> only_rand s s' \<and> i + n \<le> length bs \<and>
    length w = n \<and> v \<in> set vals \<and> (int (le_val w) = v mod 256 ^ n \<or> int (le_val (rev w)) = v mod 256 ^ n)"
proof -
  obtain i s1 where i: "draw_below (length bs + 1 - n) s = (i, s1)" by fastforce
  have i': "i < length bs + 1 - n" "only_rand s s1" using draw_below_ok [OF i] assms(1,2) by auto
  obtain p s2 where p: "draw_choice vals s1 = (p, s2)" by fastforce
  from draw_choice_ok [OF p] assms(3,4) obtain v where v: "p = Some v" "v \<in> set vals" "only_rand s1 s2" by auto
  obtain q s3 where q: "draw_choice [0, 1 :: nat] s2 = (q, s3)" by fastforce
  from draw_choice_ok [OF q] obtain r where r: "q = Some r" "only_rand s2 s3" by auto
  have s3: "only_rand s s3" using i'(2) v(3) r(2) only_rand_trans by blast
  define w where "w = (if r = 0 then rev (to_le n (nat (v mod 256 ^ n))) else to_le n (nat (v mod 256 ^ n)))"
  have "int (nat (v mod 256 ^ n) mod 256 ^ n) = v mod 256 ^ n" by (simp add: nat_mod_distrib)
  then have "int (le_val w) = v mod 256 ^ n \<or> int (le_val (rev w)) = v mod 256 ^ n" by (auto simp: le_val_to_le w_def)
  moreover have "int_interesting n vals s bs = Ok (Mutated, s3, write_at i w bs)"
    using i p v(1) q r(1) i'(1) assms(1) by (simp add: int_interesting_def Let_def w_def)
  moreover have "length w = n" "i + n \<le> length bs" using i'(1) assms(1) by (simp_all add: w_def)
  ultimately show ?thesis using s3 v(2) by blast
qed

lemma write_ok:
  assumes "length bs \<le> ms" "only_rand s s'" "i + length w \<le> length bs"
  shows "mut_post ms s bs (Ok (Mutated, s', write_at i w bs))"
proof (rule mut_postI [OF refl assms(2)])
  show "length (write_at i w bs) \<le> ms" using assms(1,3) by simp
  show "write_at i w bs \<noteq> []" if "bs \<noteq> []"
  proof
    assume "write_at i w bs = []"
    with length_write_at [OF assms(3)] have "length bs = 0" by (metis list.size(3))
    with that show False by simp
  qed
qed simp

lemma int_add_ok: "mutator_ok ms (int_add n)"
  unfolding mutator_ok_def
proof (intro allI impI)
  fix s and bs :: "u8 list"
  assume pre: "mut_pre ms s" and len: "length bs \<le> ms"
  have l: "length bs < 2 ^ 63" using pre len by (simp add: mut_pre_def)
  show "mut_post ms s bs (int_add n s bs)"
    using int_add_effect [OF _ l, of n s] write_ok [OF len] mut_post_skip [OF len only_rand_refl]
    by (cases "n \<le> length bs") (fastforce, simp add: int_add_def)
qed

lemma int_interesting_ok:
  assumes v: "vals \<noteq> []" "length vals < 2 ^ 64"
  shows "mutator_ok ms (int_interesting n vals)"
  unfolding mutator_ok_def
proof (intro allI impI)
  fix s and bs :: "u8 list"
  assume pre: "mut_pre ms s" and len: "length bs \<le> ms"
  have l: "length bs < 2 ^ 63" using pre len by (simp add: mut_pre_def)
  show "mut_post ms s bs (int_interesting n vals s bs)"
    using int_interesting_effect [OF _ l v, of n s] write_ok [OF len] mut_post_skip [OF len only_rand_refl]
    by (cases "n \<le> length bs") (fastforce, simp add: int_interesting_def)
qed

subsection \<open>Ranges\<close>

lemma bytes_delete_effect:
  assumes "2 < length bs" "length bs < 2 ^ 63"
  shows "\<exists>s' a b. bytes_delete s bs = Ok (Mutated, s', take a bs @ drop b bs) \<and> only_rand s s' \<and> a < b \<and> b \<le> length bs \<and>
    b - a < length bs"
proof -
  obtain rg s1 where r: "rand_range (length bs) (length bs - 1) s = (rg, s1)" by fastforce
  have "0 < length bs" "0 < length bs - 1" "length bs + (length bs - 1) < 2 ^ 64" using assms by auto
  note k = rand_range_ok [OF r this]
  have e: "bytes_delete s bs = Ok (Mutated, s1, take (fst rg) bs @ drop (snd rg) bs)"
    using assms r k by (simp add: bytes_delete_def Let_def)
  show ?thesis using k assms e by (intro exI [of _ s1] exI [of _ "fst rg"] exI [of _ "snd rg"]) (auto simp: range_len_def)
qed

text \<open>Moving the tail to the right opens a gap; filling it inserts.\<close>

lemma open_gap:
  assumes "off \<le> length bs" "bs \<noteq> [] \<or> 0 < n"
  shows "buffer_self_copy (resize (length bs + n) 0 bs) off (off + n) (length bs - off) =
    Ok (take (off + n) (resize (length bs + n) 0 bs) @ drop off bs)"
proof -
  let ?d = "resize (length bs + n) 0 bs"
  have "length ?d > 0" using assms(2) by auto
  then have "?d \<noteq> []" by (metis length_greater_0_conv)
  then have "buffer_self_copy ?d off (off + n) (length bs - off) = Ok (write_at (off + n) (take (length bs - off) (drop off ?d)) ?d)"
    using assms(1) by (intro buffer_self_copy_Ok) auto
  moreover have "take (length bs - off) (drop off ?d) = drop off bs" using assms(1) by (simp add: resize_def)
  ultimately show ?thesis using assms(1) by (simp add: write_at_def)
qed

lemma fill_gap:
  assumes "off \<le> length bs" "length ys = n"
  shows "write_at off ys (take (off + n) (resize (length bs + n) 0 bs) @ drop off bs) = take off bs @ ys @ drop off bs"
  using assms by (auto simp: write_at_def resize_def)

lemma bytes_expand_effect:
  assumes "bs \<noteq> []" "length bs < max_size" "max_size < 2 ^ 62"
  shows "\<exists>s' a b. bytes_expand max_size s bs = Ok (Mutated, s', take b bs @ drop a bs) \<and> only_rand s s' \<and> a < b \<and> b \<le> length bs \<and>
    b - a \<le> 16 \<and> length bs + (b - a) \<le> max_size"
proof -
  let ?n = "length bs"
  obtain rg s1 where r: "rand_range ?n (min 16 (max_size - ?n)) s = (rg, s1)" by fastforce
  have "0 < ?n" "0 < min 16 (max_size - ?n)" "?n + min 16 (max_size - ?n) < 2 ^ 64" using assms by auto
  note k = rand_range_ok [OF r this]
  have g: "fst rg + range_len rg = snd rg" using k(2) by (simp add: range_len_def)
  have "take (fst rg + range_len rg) (resize (?n + range_len rg) 0 bs) = take (snd rg) bs" using g k(3) by (simp add: resize_def)
  then have e: "bytes_expand max_size s bs = Ok (Mutated, s1, take (snd rg) bs @ drop (fst rg) bs)"
    using assms r k open_gap [of "fst rg" bs "range_len rg"] by (simp add: bytes_expand_def Let_def)
  show ?thesis using k assms e by (intro exI [of _ s1] exI [of _ "fst rg"] exI [of _ "snd rg"]) (auto simp: range_len_def)
qed

lemma insert_value_Ok:
  assumes "offset \<le> length bs" "0 < amount"
  shows "insert_value amount offset v bs = Ok (take offset bs @ replicate amount v @ drop offset bs)"
proof -
  let ?g = "take (offset + amount) (resize (length bs + amount) 0 bs) @ drop offset bs"
  have "length ?g = length bs + amount" using assms(1) by simp
  then have "buffer_set ?g offset amount v = Ok (write_at offset (replicate amount v) ?g)" using assms(1) by (intro buffer_set_Ok) simp
  then show ?thesis using assms open_gap [of offset bs amount] by (simp add: insert_value_def fill_gap)
qed

lemma fit_amount_ok: "sz < max_size \<Longrightarrow> 0 < a \<Longrightarrow> \<exists>n. fit_amount max_size sz a = Some n \<and> 0 < n \<and> n \<le> a \<and> sz + n \<le> max_size"
  by (auto simp: fit_amount_def)

lemma bytes_rand_insert_effect:
  assumes "length bs < max_size" "max_size < 2 ^ 62"
  shows "\<exists>s' off n v. bytes_rand_insert max_size s bs = Ok (Mutated, s', take off bs @ replicate n v @ drop off bs) \<and> only_rand s s' \<and>
    0 < n \<and> n \<le> 16 \<and> length bs + n \<le> max_size"
proof -
  obtain a s1 where a: "draw_below 16 s = (a, s1)" by fastforce
  obtain off s2 where o: "draw_below (length bs + 1) s1 = (off, s2)" by fastforce
  obtain v s3 where v: "draw_u8 s2 = (v, s3)" by fastforce
  have a': "a < 16" "only_rand s s1" using draw_below_ok [OF a] by simp_all
  have o': "off \<le> length bs" "only_rand s1 s2" using draw_below_ok [OF o] assms by auto
  obtain n where n: "fit_amount max_size (length bs) (1 + a) = Some n" "0 < n" "n \<le> 1 + a" "length bs + n \<le> max_size"
    using fit_amount_ok [OF assms(1), of "1 + a"] by auto
  have "bytes_rand_insert max_size s bs = Ok (Mutated, s3, take off bs @ replicate n v @ drop off bs)"
    using assms(1) a o v n(1) insert_value_Ok [OF o'(1) n(2)] by (simp add: bytes_rand_insert_def Let_def)
  moreover have "only_rand s s3" using a'(2) o'(2) draw_u8_only [OF v] only_rand_trans by blast
  ultimately show ?thesis using n a'(1) by (intro exI [of _ s3] exI [of _ off] exI [of _ n] exI [of _ v]) auto
qed

lemma bytes_insert_effect:
  assumes "bs \<noteq> []" "length bs < max_size" "max_size < 2 ^ 62"
  shows "\<exists>s' off n v. bytes_insert max_size s bs = Ok (Mutated, s', take off bs @ replicate n v @ drop off bs) \<and> only_rand s s' \<and>
    0 < n \<and> n \<le> 16 \<and> length bs + n \<le> max_size \<and> v \<in> set bs"
proof -
  obtain a s1 where a: "draw_below 16 s = (a, s1)" by fastforce
  obtain off s2 where o: "draw_below (length bs + 1) s1 = (off, s2)" by fastforce
  obtain i s3 where v: "draw_below (length bs) s2 = (i, s3)" by fastforce
  have a': "a < 16" "only_rand s s1" using draw_below_ok [OF a] by simp_all
  have o': "off \<le> length bs" "only_rand s1 s2" using draw_below_ok [OF o] assms by auto
  have i: "i < length bs" "only_rand s2 s3" using draw_below_ok [OF v] assms by auto
  obtain n where n: "fit_amount max_size (length bs) (1 + a) = Some n" "0 < n" "n \<le> 1 + a" "length bs + n \<le> max_size"
    using fit_amount_ok [OF assms(2), of "1 + a"] by auto
  have "bytes_insert max_size s bs = Ok (Mutated, s3, take off bs @ replicate n (bs ! i) @ drop off bs)"
    using assms(1,2) a o v i(1) n(1) insert_value_Ok [OF o'(1) n(2)] by (simp add: bytes_insert_def Let_def)
  moreover have "only_rand s s3" using a'(2) o'(2) i(2) only_rand_trans by blast
  ultimately show ?thesis using n a'(1) i(1) by (intro exI [of _ s3] exI [of _ off] exI [of _ n] exI [of _ "bs ! i"]) auto
qed

lemma bytes_set_effects:
  assumes "bs \<noteq> []" "length bs < 2 ^ 62"
  shows "\<exists>s' a n v. bytes_set s bs = Ok (Mutated, s', write_at a (replicate n v) bs) \<and> only_rand s s' \<and> a + n \<le> length bs \<and> 0 < n \<and> n \<le> 16 \<and> v \<in> set bs"
    "\<exists>s' a n v. bytes_rand_set s bs = Ok (Mutated, s', write_at a (replicate n v) bs) \<and> only_rand s s' \<and> a + n \<le> length bs \<and> 0 < n \<and> n \<le> 16"
proof -
  obtain rg s1 where r: "rand_range (length bs) (min (length bs) 16) s = (rg, s1)" by fastforce
  have "0 < length bs" "0 < min (length bs) 16" "length bs + min (length bs) 16 < 2 ^ 64" using assms by auto
  note k = rand_range_ok [OF r this]
  have n: "fst rg + range_len rg \<le> length bs" "0 < range_len rg" "range_len rg \<le> 16" using k by (auto simp: range_len_def)
  obtain p s2 where p: "draw_choice bs s1 = (p, s2)" by fastforce
  from draw_choice_ok [OF p] assms obtain v where v: "p = Some v" "v \<in> set bs" "only_rand s1 s2" by auto
  have "bytes_set s bs = Ok (Mutated, s2, write_at (fst rg) (replicate (range_len rg) v) bs)"
    using assms r p v(1) n by (simp add: bytes_set_def Let_def buffer_set_Ok)
  then show "\<exists>s' a n v. bytes_set s bs = Ok (Mutated, s', write_at a (replicate n v) bs) \<and> only_rand s s' \<and> a + n \<le> length bs \<and> 0 < n \<and> n \<le> 16 \<and> v \<in> set bs"
    using n v only_rand_trans [OF k(1) v(3)] by blast
  obtain w s3 where w: "draw_u8 s1 = (w, s3)" by fastforce
  have "bytes_rand_set s bs = Ok (Mutated, s3, write_at (fst rg) (replicate (range_len rg) w) bs)"
    using assms r w n by (simp add: bytes_rand_set_def Let_def buffer_set_Ok)
  then show "\<exists>s' a n v. bytes_rand_set s bs = Ok (Mutated, s', write_at a (replicate n v) bs) \<and> only_rand s s' \<and> a + n \<le> length bs \<and> 0 < n \<and> n \<le> 16"
    using n only_rand_trans [OF k(1) draw_u8_only [OF w]] by blast
qed

lemma bytes_copy_effect:
  assumes "1 < length bs" "length bs < 2 ^ 62"
  shows "\<exists>s' a n t. bytes_copy s bs = Ok (Mutated, s', write_at t (take n (drop a bs)) bs) \<and> only_rand s s' \<and> a + n \<le> length bs \<and>
    t + n \<le> length bs \<and> 0 < n"
proof -
  obtain t s1 where t: "draw_below (length bs) s = (t, s1)" by fastforce
  have t': "t < length bs" "only_rand s s1" using draw_below_ok [OF t] assms by auto
  obtain rg s2 where r: "rand_range (length bs) (length bs - t) s1 = (rg, s2)" by fastforce
  have "0 < length bs" "0 < length bs - t" "length bs + (length bs - t) < 2 ^ 64" using assms t' by auto
  note k = rand_range_ok [OF r this]
  have n: "fst rg + range_len rg \<le> length bs" "t + range_len rg \<le> length bs" "0 < range_len rg"
    using k t'(1) by (auto simp: range_len_def)
  have "bs \<noteq> []" using assms(1) by auto
  then have "bytes_copy s bs = Ok (Mutated, s2, write_at t (take (range_len rg) (drop (fst rg) bs)) bs)"
    using assms t r buffer_self_copy_Ok [of bs "fst rg" "range_len rg" t] n by (auto simp: bytes_copy_def Let_def)
  then show ?thesis using n only_rand_trans [OF t'(2) k(1)] by blast
qed

lemma bytes_insert_copy_effect:
  assumes "1 < length bs" "length bs < max_size" "max_size < 2 ^ 62"
  shows "\<exists>s' a n t. bytes_insert_copy max_size s bs = Ok (Mutated, s', take t bs @ take n (drop a bs) @ drop t bs) \<and> only_rand s s' \<and>
    a + n \<le> length bs \<and> 0 < n \<and> n \<le> 16 \<and> length bs + n \<le> max_size"
proof -
  obtain t s1 where t: "draw_below (length bs) s = (t, s1)" by fastforce
  have t': "t < length bs" "only_rand s s1" using draw_below_ok [OF t] assms by auto
  let ?m = "min 16 (min (length bs - t) (max_size - length bs))"
  obtain rg s2 where r: "rand_range (length bs) ?m s1 = (rg, s2)" by fastforce
  have "0 < length bs" "0 < ?m" "length bs + ?m < 2 ^ 64" using assms t' by auto
  note k = rand_range_ok [OF r this]
  define n where "n = range_len rg"
  have n: "fst rg + n \<le> length bs" "0 < n" "n \<le> 16" "length bs + n \<le> max_size" using k assms by (auto simp: range_len_def n_def)
  let ?b = "resize (length bs + n) 0 bs" and ?ys = "take n (drop (fst rg) bs)"
  have ys: "take n (drop (fst rg) ?b) = ?ys" "length ?ys = n" using n by (simp_all add: resize_def)
  have b: "?b \<noteq> []" using n(2) by (metis add_gr_0 length_greater_0_conv length_resize)
  have "buffer_copy (replicate n 0) ?b (fst rg) 0 n = Ok (write_at 0 (take n (drop (fst rg) ?b)) (replicate n 0))"
    using n b by (intro buffer_copy_Ok) auto
  also have "write_at 0 (take n (drop (fst rg) ?b)) (replicate n 0) = ?ys" using ys by (simp add: write_at_def)
  finally have 1: "buffer_copy (replicate n 0) ?b (fst rg) 0 n = Ok ?ys" .
  let ?g = "take (t + n) ?b @ drop t bs"
  have 2: "buffer_self_copy ?b t (t + n) (length bs - t) = Ok ?g" using open_gap [of t bs n] t' n(2) by simp
  have "length ?g = length bs + n" "?g \<noteq> []" "?ys \<noteq> []" using t'(1) n by auto
  then have 3: "buffer_copy ?g ?ys 0 t n = Ok (take t bs @ ?ys @ drop t bs)"
    using buffer_copy_Ok [of ?g ?ys 0 n t] fill_gap [of t bs ?ys n] t'(1) ys(2) by simp
  have "bytes_insert_copy max_size s bs = Ok (Mutated, s2, take t bs @ ?ys @ drop t bs)"
    using assms t r 1 2 3 by (simp add: bytes_insert_copy_def Let_def n_def [symmetric])
  then show ?thesis using n only_rand_trans [OF t'(2) k(1)] by blast
qed

text \<open>Swapping two disjoint ranges: exact when the earlier one is not longer or the two are adjacent;
  otherwise the bytes between them overwrite the beginning of the earlier range's tail.\<close>

lemma write_at_append: "length B = length Y \<Longrightarrow> write_at (length A) Y (A @ B @ C) = A @ Y @ C"
  by (simp add: write_at_def)

lemma swap_after_before: "swap_after first second bs = swap_before second first bs"
  by (simp add: swap_after_def swap_before_def)

lemma save_range:
  assumes "X \<noteq> []"
  shows "buffer_copy (replicate (length X) 0) (A @ X @ B) (length A) 0 (length X) = Ok X"
  using assms buffer_copy_Ok [of "replicate (length X) 0" "A @ X @ B" "length A" "length X" 0] by (simp add: write_at_def)

lemma restore_range:
  assumes "X \<noteq> []" "length B = length X"
  shows "buffer_copy (A @ B @ C) X 0 (length A) (length X) = Ok (A @ X @ C)"
proof -
  have "B \<noteq> []" using assms by auto
  then show ?thesis using assms buffer_copy_Ok [of "A @ B @ C" X 0 "length X" "length A"] by (simp add: write_at_append)
qed

lemma move_range:
  assumes "data = A @ X @ B" "data = C @ Y @ D" "length Y = length X" "data \<noteq> []"
  shows "buffer_self_copy data (length A) (length C) (length X) = Ok (C @ X @ D)"
proof -
  have "buffer_self_copy data (length A) (length C) (length X) = Ok (write_at (length C) (take (length X) (drop (length A) data)) data)"
  proof (rule buffer_self_copy_Ok [OF assms(4)])
    show "length A + length X \<le> length data" by (simp add: assms(1))
    show "length C + length X \<le> length data" using assms(3) by (simp add: assms(2))
  qed
  moreover have "take (length X) (drop (length A) data) = X" by (simp add: assms(1))
  moreover have "write_at (length C) X data = C @ X @ D" using assms(3) by (simp add: assms(2) write_at_append)
  ultimately show ?thesis by simp
qed

lemma swap_exact:
  fixes P S M F Q :: "u8 list"
  assumes "S \<noteq> []" "F \<noteq> []" "length S \<le> length F"
  defines "p \<equiv> length P" and "b \<equiv> length P + length S" and "c \<equiv> length P + length S + length M"
  shows "swap_before (c, c + length F) (p, b) (P @ S @ M @ F @ Q) = Ok (P @ F @ M @ S @ Q)"
proof -
  define k where "k = length F - length S"
  define X Y D where "X = take k (M @ F)" and "Y = take (length M) (drop k (M @ F))" and "D = drop k F"
  let ?bs = "P @ S @ M @ F @ Q"
  have tmp: "buffer_copy (replicate (length F) 0) ?bs c 0 (length F) = Ok F"
    using save_range [OF assms(2), of "P @ S @ M" Q] by (simp add: c_def add.assoc)
  have "drop (length M) (drop k (M @ F)) = D" unfolding drop_drop by (simp add: D_def)
  then have "Y @ D = drop k (M @ F)" using append_take_drop_id [of "length M" "drop k (M @ F)"] by (simp only: Y_def)
  then have mf: "M @ F = X @ Y @ D" using append_take_drop_id [of k "M @ F"] by (simp only: X_def)
  have len: "length X = k" "length Y = length M" "length D = length S" "length S + k = length F"
    using assms(3) by (simp_all add: X_def Y_def D_def k_def)
  have d1: "?bs = (P @ S @ X) @ Y @ D @ Q" using arg_cong [OF mf, of "\<lambda>x. P @ S @ x @ Q"] by simp
  have ne: "?bs \<noteq> []" "(P @ S @ X) @ M @ D @ Q \<noteq> []" using assms(1) by simp_all
  have at: "b = length (P @ S)" "b + k = length (P @ S @ X)" "c + k = length (P @ S @ X @ M)" using len(1) by (simp_all add: b_def c_def)
  have 1: "buffer_self_copy ?bs b (b + k) (length M) = Ok ((P @ S @ X) @ M @ D @ Q)"
    unfolding at(2) unfolding at(1) by (rule move_range [OF _ d1 len(2) ne(1)]) simp
  have 2: "buffer_self_copy ((P @ S @ X) @ M @ D @ Q) p (c + k) (length S) = Ok ((P @ S @ X @ M) @ S @ Q)"
    unfolding at(3) p_def by (rule move_range [OF _ _ len(3) ne(2)]) simp_all
  have 3: "buffer_copy ((P @ S @ X @ M) @ S @ Q) F 0 p (length F) = Ok (P @ F @ M @ S @ Q)"
    using restore_range [OF assms(2), of "S @ X" P "M @ S @ Q"] len by (simp add: p_def)
  show ?thesis
    using tmp 1 2 3 assms(3) by (simp add: swap_before_def range_len_def Let_def p_def b_def c_def k_def)
qed

lemma swap_lossy:
  fixes P S1 S2 M F Q :: "u8 list"
  assumes "F \<noteq> []" "S2 \<noteq> []" "length S1 = length F"
  defines "p \<equiv> length P" and "b \<equiv> length P + length (S1 @ S2)" and "c \<equiv> length P + length (S1 @ S2) + length M"
  shows "swap_before (c, c + length F) (p, b) (P @ (S1 @ S2) @ M @ F @ Q) =
    Ok (P @ F @ M @ (S1 @ take (length S2) M @ drop (length M) S2) @ Q)"
proof -
  define k where "k = length S2"
  define Y R where "Y = take (length M) (S2 @ M)" and "R = drop (length M) (S2 @ M)"
  define T V where "T = S1 @ take k (M @ R)" and "V = drop k (M @ R) @ F @ Q"
  let ?bs = "P @ (S1 @ S2) @ M @ F @ Q" and ?b1 = "(P @ S1) @ M @ R @ F @ Q"
  have tmp: "buffer_copy (replicate (length F) 0) ?bs c 0 (length F) = Ok F"
    using save_range [OF assms(1), of "P @ S1 @ S2 @ M" Q] by (simp add: c_def add.assoc)
  have sm: "S2 @ M = Y @ R" unfolding Y_def R_def by (rule append_take_drop_id [symmetric])
  have len: "length Y = length M" "length R = k" "length (take k (M @ R)) = k" by (simp_all add: Y_def R_def k_def)
  have d1: "?bs = (P @ S1) @ Y @ R @ F @ Q" using arg_cong [OF sm, of "\<lambda>x. P @ S1 @ x @ F @ Q"] by simp
  have ne: "?bs \<noteq> []" "?b1 \<noteq> []" using assms(1) by simp_all
  have at: "b = length (P @ S1 @ S2)" "b - k = length (P @ S1)" "c - k = length (P @ S1 @ M)" by (simp_all add: b_def c_def k_def)
  have 1: "buffer_self_copy ?bs b (b - k) (length M) = Ok ?b1"
    unfolding at(2) unfolding at(1) by (rule move_range [OF _ d1 len(1) ne(1)]) simp
  have mr: "M @ R = take k (M @ R) @ drop k (M @ R)" by (rule append_take_drop_id [symmetric])
  have d2: "?b1 = P @ T @ V" using arg_cong [OF mr, of "\<lambda>x. P @ S1 @ x @ F @ Q"] by (simp only: T_def V_def append_assoc)
  have lT: "length T = length (R @ F)" using len(2,3) assms(3) by (simp add: T_def)
  have d3: "?b1 = (P @ S1 @ M) @ (R @ F) @ Q" by simp
  have lS: "length T = length (S1 @ S2)" using len(3) by (simp add: T_def k_def)
  have 2: "buffer_self_copy ?b1 p (c - k) (length (S1 @ S2)) = Ok ((P @ S1 @ M) @ T @ Q)"
    unfolding at(3) p_def lS [symmetric] by (rule move_range [OF d2 d3 lT [symmetric] ne(2)])
  have 3: "buffer_copy ((P @ S1 @ M) @ T @ Q) F 0 p (length F) = Ok (P @ F @ M @ T @ Q)"
    using restore_range [OF assms(1), of S1 P "M @ T @ Q"] assms(3) by (simp add: p_def)
  have "take k (M @ R) = take k M @ drop (length M) S2" by (cases "k \<le> length M") (simp_all add: R_def k_def)
  then have T: "T = S1 @ take (length S2) M @ drop (length M) S2" by (simp add: T_def k_def)
  have "swap_before (c, c + length F) (p, b) ?bs = Ok (P @ F @ M @ T @ Q)"
    using tmp 1 2 3 assms(2,3) by (simp add: swap_before_def range_len_def Let_def p_def b_def c_def k_def)
  then show ?thesis by (simp add: T)
qed

definition swapped :: "u8 list \<Rightarrow> u8 list \<Rightarrow> u8 list \<Rightarrow> u8 list \<Rightarrow> u8 list \<Rightarrow> u8 list" where
  "swapped P A M B Q =
     (if length A \<le> length B then P @ B @ M @ A @ Q
      else let (A1, A2) = (take (length B) A, drop (length B) A) in
        P @ B @ M @ (A1 @ take (length A2) M @ drop (length M) A2) @ Q)"

lemma swapped_eq: "swapped P A M B Q = (if length A \<le> length B then P @ B @ M @ A @ Q
    else P @ B @ M @ take (length B) A @ take (length A - length B) M @ drop (length M) (drop (length B) A) @ Q)"
  by (simp add: swapped_def)

lemma length_swapped: "length (swapped P A M B Q) = length (P @ A @ M @ B @ Q)"
  by (auto simp: swapped_def Let_def min_def)

lemma swap_before_effect:
  assumes "a < b" "b \<le> c" "c < d" "d \<le> length bs"
  shows "\<exists>P A M B Q. bs = P @ A @ M @ B @ Q \<and> A \<noteq> [] \<and> B \<noteq> [] \<and> swap_before (c, d) (a, b) bs = Ok (swapped P A M B Q)"
proof -
  let ?P = "take a bs" and ?A = "take (b - a) (drop a bs)" and ?M = "take (c - b) (drop b bs)" and ?B = "take (d - c) (drop c bs)" and ?Q = "drop d bs"
  have cut: "take (j - i) (drop i bs) @ drop j bs = drop i bs" if "i \<le> j" for i j
    using append_take_drop_id [of "j - i" "drop i bs"] that by simp
  have bs: "bs = ?P @ ?A @ ?M @ ?B @ ?Q" using assms(1-3) by (simp only: cut order_less_imp_le append_take_drop_id)
  have len: "length ?P = a" "length ?A = b - a" "length ?M = c - b" "length ?B = d - c" using assms by auto
  have ne: "?A \<noteq> []" "?B \<noteq> []" using len assms by (auto simp flip: length_greater_0_conv)
  have at: "length ?P + length ?A = b" "length ?P + length ?A + length ?M = c" "length ?P + length ?A + length ?M + length ?B = d"
    using len assms by linarith+
  have "swap_before (c, d) (a, b) (?P @ ?A @ ?M @ ?B @ ?Q) = Ok (swapped ?P ?A ?M ?B ?Q)"
  proof (cases "length ?A \<le> length ?B")
    case True
    from swap_exact [OF ne this, of ?P ?M ?Q, unfolded at(3), unfolded at(2), unfolded at(1), unfolded len(1)] True show ?thesis by (simp only: swapped_def if_True)
  next
    case False
    let ?A1 = "take (length ?B) ?A" and ?A2 = "drop (length ?B) ?A"
    have s: "length ?A1 = length ?B" "?A2 \<noteq> []" using False by auto
    have j: "?A1 @ ?A2 = ?A" by (rule append_take_drop_id)
    from swap_lossy [OF ne(2) s(2,1), of ?P ?M ?Q, unfolded j, unfolded at(3), unfolded at(2), unfolded at(1), unfolded len(1)] False
    show ?thesis by (simp only: swapped_def if_False Let_def prod.case)
  qed
  then show ?thesis using bs ne by (metis (no_types))
qed

lemma bytes_swap_effect:
  assumes "length bs < 2 ^ 62"
  shows "\<exists>s'. only_rand s s' \<and> (bytes_swap s bs = Ok (Skipped, s', bs) \<or>
    (\<exists>P A M B Q. bs = P @ A @ M @ B @ Q \<and> A \<noteq> [] \<and> B \<noteq> [] \<and> bytes_swap s bs = Ok (Mutated, s', swapped P A M B Q)))"
proof (cases "length bs \<le> 1")
  case False
  let ?n = "length bs"
  obtain f s1 where r: "rand_range ?n ?n s = (f, s1)" by fastforce
  have "0 < ?n" "?n + ?n < 2 ^ 64" using False assms by auto
  note f = rand_range_ok [OF r this(1,1,2)]
  obtain x s2 where x: "rand_mut std_rand_next s1 = (x, s2)" by fastforce
  have s2: "only_rand s s2" using only_rand_trans [OF f(1) rand_mut_only [OF x]] .
  consider "x AND 1 = 0 \<and> fst f \<noteq> 0" | "\<not> (x AND 1 = 0 \<and> fst f \<noteq> 0)" "snd f \<noteq> ?n" | "\<not> (x AND 1 = 0 \<and> fst f \<noteq> 0)" "snd f = ?n" by blast
  then show ?thesis
  proof cases
    case 1
    obtain g s3 where g: "rand_range (fst f) (fst f) s2 = (g, s3)" by fastforce
    have "0 < fst f" "fst f + fst f < 2 ^ 64" using 1 f assms by auto
    note k = rand_range_ok [OF g this(1,1,2)]
    from swap_before_effect [OF k(2,3) f(2,3), unfolded prod.collapse] obtain P A M B Q where e: "bs = P @ A @ M @ B @ Q" "A \<noteq> []" "B \<noteq> []"
        "swap_before f g bs = Ok (swapped P A M B Q)" by blast
    have "bytes_swap s bs = Ok (Mutated, s3, swapped P A M B Q)" using False r x 1 g e(4) by (simp add: bytes_swap_def Let_def)
    then show ?thesis using e only_rand_trans [OF s2 k(1)] by blast
  next
    case 2
    obtain g s3 where g: "rand_range (?n - snd f) (?n - snd f) s2 = (g, s3)" by fastforce
    have "0 < ?n - snd f" "(?n - snd f) + (?n - snd f) < 2 ^ 64" using 2 f assms by auto
    note k = rand_range_ok [OF g this(1,1,2)]
    let ?g = "(fst g + snd f, snd g + snd f)"
    have b: "snd f \<le> fst g + snd f" "fst g + snd f < snd g + snd f" "snd g + snd f \<le> ?n" using k f(3) 2 by auto
    from swap_before_effect [OF f(2) b, unfolded prod.collapse] obtain P A M B Q where e: "bs = P @ A @ M @ B @ Q" "A \<noteq> []" "B \<noteq> []"
        "swap_after f ?g bs = Ok (swapped P A M B Q)" unfolding swap_after_before by blast
    have "bytes_swap s bs = Ok (Mutated, s3, swapped P A M B Q)"
      unfolding bytes_swap_def using False r x 2 g e(4) by (auto simp: Let_def)
    then show ?thesis using e only_rand_trans [OF s2 k(1)] by blast
  next
    case 3
    then have "bytes_swap s bs = Ok (Skipped, s2, bs)" unfolding bytes_swap_def using False r x by (auto simp: Let_def)
    then show ?thesis using s2 by blast
  qed
qed (auto simp: bytes_swap_def intro: exI [of _ s])

subsection \<open>Crossover\<close>

lemma count_disabled_ok: "wf_corpus c \<Longrightarrow> count_disabled c = length (skeys (disabled_map (storage c)))"
  by (auto simp: count_disabled_def Mapping.size_def wf_storage_def wf_map_def distinct_card [symmetric] sorted_distinct)

lemma random_id_ok:
  assumes "mut_pre ms s"
  shows "\<exists>k s1 inp. random_corpus_id_with_disabled s = Ok (k, s1) \<and> only_rand s s1 \<and> load_input_of s1 k = Ok inp \<and> length inp < 2 ^ 62"
proof -
  let ?c = "st_corpus s"
  have wf: "wf_corpus ?c" and cnt: "0 < count_all ?c" "count_all ?c < 2 ^ 64" using assms by (simp_all add: mut_pre_def)
  obtain n s1 where n: "draw_below (count_all ?c) s = (n, s1)" by fastforce
  have n': "n < count_all ?c" "only_rand s s1" using draw_below_ok [OF n] cnt by simp_all
  let ?e = "enabled (storage ?c)" and ?d = "disabled_map (storage ?c)"
  have len: "count ?c = length (skeys ?e)" "count_disabled ?c = length (skeys ?d)" using wf count_ok count_disabled_ok by auto
  obtain k where k: "nth_from_all ?c n = Some k" "k \<in> set (skeys ?e) \<or> k \<in> set (skeys ?d)"
  proof (cases "count ?c \<le> n")
    case True
    then have "n - count ?c < length (skeys ?d)" using n'(1) len by (simp add: count_all_def)
    then show ?thesis using that [of "skeys ?d ! (n - count ?c)"] True by (simp add: nth_from_all_def get_opt_def)
  next
    case False
    then have "n < length (skeys ?e)" using len by simp
    then show ?thesis using that [of "skeys ?e ! n"] False by (simp add: nth_from_all_def get_opt_def)
  qed
  have "(\<exists>tc. map_get ?e k = Some tc) \<or> (\<exists>tc. map_get ?d k = Some tc)"
    using k(2) map_get_iff [OF wf_corpus_maps(1) [OF wf]] map_get_iff [OF wf_corpus_maps(2) [OF wf]] by blast
  then obtain tc where "corpus_get_from_all ?c k = Ok tc"
    by (cases "map_get ?e k") (auto simp: corpus_get_from_all_def)
  then obtain inp where "load_input_of s1 k = Ok inp" "length inp < 2 ^ 62"
    using assms only_rand_corpus [OF n'(2)] by (fastforce simp: load_input_of_def mut_pre_def)
  moreover have "random_corpus_id_with_disabled s = Ok (k, s1)" using cnt n k(1) by (simp add: random_corpus_id_with_disabled_def)
  ultimately show ?thesis using n'(2) by blast
qed

lemma crossover_insert_Ok:
  assumes "target \<le> length bs" "a < b" "b \<le> length other"
  shows "crossover_insert target (a, b) other bs = Ok (take target bs @ take (b - a) (drop a other) @ drop target bs)"
proof -
  let ?n = "b - a"
  let ?g = "take (target + ?n) (resize (length bs + ?n) 0 bs) @ drop target bs" and ?ys = "take ?n (drop a other)"
  have ne: "?g \<noteq> []" "other \<noteq> []" using assms by (auto simp flip: length_greater_0_conv)
  have "length ?g = length bs + ?n" using assms(1) by simp
  then have "buffer_copy ?g other a target ?n = Ok (write_at target ?ys ?g)" using ne assms by (intro buffer_copy_Ok) auto
  moreover have "length ?ys = ?n" using assms by simp
  ultimately show ?thesis using open_gap [of target bs ?n] fill_gap [OF assms(1), of ?ys ?n] assms by (simp add: crossover_insert_def range_len_def Let_def)
qed

lemma crossover_insert_effect:
  assumes "mut_pre ms s" "bs \<noteq> []" "length bs < ms"
  shows "\<exists>s'. only_rand s s' \<and> (crossover_insert_mutator ms s bs = Ok (Skipped, s', bs) \<or>
    (\<exists>k other a b t. load_input_of s k = Ok other \<and> a < b \<and> b \<le> length other \<and> t < length bs \<and> length bs + (b - a) \<le> ms \<and>
      crossover_insert_mutator ms s bs = Ok (Mutated, s', take t bs @ take (b - a) (drop a other) @ drop t bs)))"
proof -
  obtain k s1 other where k: "random_corpus_id_with_disabled s = Ok (k, s1)" "only_rand s s1" "load_input_of s1 k = Ok other" "length other < 2 ^ 62"
    using random_id_ok [OF assms(1)] by blast
  show ?thesis
  proof (cases "current (st_corpus s1) = Some k \<or> length other < 2")
    case True
    then have "crossover_insert_mutator ms s bs = Ok (Skipped, s1, bs)" using assms k by (auto simp: crossover_insert_mutator_def Let_def)
    then show ?thesis using k(2) by blast
  next
    case False
    let ?m = "min (length other) (ms - length bs)"
    obtain rg s2 where r: "rand_range (length other) ?m s1 = (rg, s2)" by fastforce
    obtain t s3 where t: "draw_below (length bs) s2 = (t, s3)" by fastforce
    have "0 < length other" "0 < ?m" "length other + ?m < 2 ^ 64" using False assms k(4) by auto
    note g = rand_range_ok [OF r this]
    have ms: "ms < 2 ^ 62" using assms(1) by (simp add: mut_pre_def)
    then have t': "t < length bs" "only_rand s2 s3" using draw_below_ok [OF t] assms(2,3) by auto
    have "crossover_insert t rg other bs = Ok (take t bs @ take (snd rg - fst rg) (drop (fst rg) other) @ drop t bs)"
      using crossover_insert_Ok [OF less_imp_le [OF t'(1)] g(2,3)] by simp
    then have "crossover_insert_mutator ms s bs = Ok (Mutated, s3, take t bs @ take (snd rg - fst rg) (drop (fst rg) other) @ drop t bs)"
      using assms(2,3) k(1,3) False r t by (auto simp: crossover_insert_mutator_def Let_def)
    moreover have "load_input_of s k = Ok other" using k(3) only_rand_corpus [OF k(2)] by (simp add: load_input_of_def)
    moreover have "length bs + (snd rg - fst rg) \<le> ms" using g assms(3) by (auto simp: range_len_def)
    moreover have "only_rand s s3" using k(2) g(1) t'(2) only_rand_trans by blast
    ultimately show ?thesis using g(2,3) t'(1) by blast
  qed
qed

lemma crossover_replace_effect:
  assumes "mut_pre ms s" "bs \<noteq> []" "length bs \<le> ms"
  shows "\<exists>s'. only_rand s s' \<and> (crossover_replace_mutator s bs = Ok (Skipped, s', bs) \<or>
    (\<exists>k other a b t. load_input_of s k = Ok other \<and> a < b \<and> b \<le> length other \<and> t + (b - a) \<le> length bs \<and>
      crossover_replace_mutator s bs = Ok (Mutated, s', write_at t (take (b - a) (drop a other)) bs)))"
proof -
  obtain k s1 other where k: "random_corpus_id_with_disabled s = Ok (k, s1)" "only_rand s s1" "load_input_of s1 k = Ok other" "length other < 2 ^ 62"
    using random_id_ok [OF assms(1)] by blast
  show ?thesis
  proof (cases "current (st_corpus s1) = Some k \<or> length other < 2")
    case True
    then have "crossover_replace_mutator s bs = Ok (Skipped, s1, bs)" using assms k by (auto simp: crossover_replace_mutator_def Let_def)
    then show ?thesis using k(2) by blast
  next
    case False
    have ms: "ms < 2 ^ 62" using assms(1) by (simp add: mut_pre_def)
    obtain t s2 where t: "draw_below (length bs) s1 = (t, s2)" by fastforce
    have t': "t < length bs" "only_rand s1 s2" using draw_below_ok [OF t] assms(2,3) ms by auto
    let ?m = "min (length other) (length bs - t)"
    obtain rg s3 where r: "rand_range (length other) ?m s2 = (rg, s3)" by fastforce
    have "0 < length other" "0 < ?m" "length other + ?m < 2 ^ 64" using False k(4) t'(1) by auto
    note g = rand_range_ok [OF r this]
    have b: "t + range_len rg \<le> length bs" "other \<noteq> []" "fst rg + range_len rg \<le> length other" using g t'(1) False by (auto simp: range_len_def)
    have "crossover_replace_mutator s bs = Ok (Mutated, s3, write_at t (take (range_len rg) (drop (fst rg) other)) bs)"
      using assms(2) k(1,3) False r t b buffer_copy_Ok [OF assms(2) b(2,3,1)] by (auto simp: crossover_replace_mutator_def crossover_replace_def Let_def)
    moreover have "load_input_of s k = Ok other" using k(3) only_rand_corpus [OF k(2)] by (simp add: load_input_of_def)
    moreover have "only_rand s s3" using k(2) g(1) t'(2) only_rand_trans by blast
    ultimately show ?thesis using g(2,3) b(1) unfolding range_len_def by blast
  qed
qed

subsection \<open>Every mutator of the list keeps the contract\<close>

lemma mutator_okI:
  assumes "\<And>s bs. mut_pre ms s \<Longrightarrow> length bs \<le> ms \<Longrightarrow> length bs < 2 ^ 62 \<Longrightarrow> ms < 2 ^ 62 \<Longrightarrow> mut_post ms s bs (m s bs)"
  shows "mutator_ok ms m"
  unfolding mutator_ok_def using assms by (auto simp: mut_pre_def)

lemma insert_ok:
  assumes "only_rand s s'" "length bs + length w \<le> ms"
  shows "mut_post ms s bs (Ok (Mutated, s', take t bs @ w @ drop t bs))"
  by (rule mut_postI [OF refl assms(1)]) (use assms(2) in auto)

lemma bytes_delete_ok: "mutator_ok ms bytes_delete"
proof (rule mutator_okI)
  fix s bs assume a: "length (bs :: u8 list) \<le> ms" "length bs < 2 ^ 62"
  show "mut_post ms s bs (bytes_delete s bs)"
  proof (cases "2 < length bs")
    case True
    then obtain s' a b where e: "bytes_delete s bs = Ok (Mutated, s', take a bs @ drop b bs)" "only_rand s s'" "a < b" "b \<le> length bs" "b - a < length bs"
      using bytes_delete_effect [of bs s] a by auto
    show ?thesis
    proof (rule mut_postI [OF e(1,2)])
      show "take a bs @ drop b bs \<noteq> []" using e(3-5) by (cases "a = 0") auto
    qed (use a e in auto)
  qed (use a in \<open>simp add: bytes_delete_def mut_post_def\<close>)
qed

lemma growing_ok:
  "mutator_ok ms (bytes_insert ms)" "mutator_ok ms (bytes_rand_insert ms)" "mutator_ok ms (bytes_insert_copy ms)"
proof -
  show "mutator_ok ms (bytes_insert ms)"
  proof (rule mutator_okI)
    fix s bs assume a: "length (bs :: u8 list) \<le> ms" "length bs < 2 ^ 62" "ms < 2 ^ 62"
    show "mut_post ms s bs (bytes_insert ms s bs)"
      using bytes_insert_effect [of bs ms s] a insert_ok [of s _ bs "replicate _ _"]
      by (cases "bs = [] \<or> ms \<le> length bs") (auto simp: bytes_insert_def mut_post_def)
  qed
  show "mutator_ok ms (bytes_rand_insert ms)"
  proof (rule mutator_okI)
    fix s bs assume a: "length (bs :: u8 list) \<le> ms" "length bs < 2 ^ 62" "ms < 2 ^ 62"
    show "mut_post ms s bs (bytes_rand_insert ms s bs)"
      using bytes_rand_insert_effect [of bs ms s] a insert_ok [of s _ bs "replicate _ _"]
      by (cases "ms \<le> length bs") (auto simp: bytes_rand_insert_def mut_post_def)
  qed
  show "mutator_ok ms (bytes_insert_copy ms)"
  proof (rule mutator_okI)
    fix s bs assume a: "length (bs :: u8 list) \<le> ms" "length bs < 2 ^ 62" "ms < 2 ^ 62"
    show "mut_post ms s bs (bytes_insert_copy ms s bs)"
      using bytes_insert_copy_effect [of bs ms s] a insert_ok [of s _ bs "take _ (drop _ bs)"]
      by (cases "length bs \<le> 1 \<or> ms \<le> length bs") (auto simp: bytes_insert_copy_def mut_post_def)
  qed
qed

lemma bytes_expand_ok: "mutator_ok ms (bytes_expand ms)"
proof (rule mutator_okI)
  fix s bs assume a: "length (bs :: u8 list) \<le> ms" "length bs < 2 ^ 62" "ms < 2 ^ 62"
  show "mut_post ms s bs (bytes_expand ms s bs)"
    using bytes_expand_effect [of bs ms s] a
    by (cases "bs = [] \<or> ms \<le> length bs") (fastforce simp: bytes_expand_def mut_post_def)+
qed

lemma overwriting_ok: "mutator_ok ms bytes_set" "mutator_ok ms bytes_rand_set" "mutator_ok ms bytes_copy"
proof -
  show "mutator_ok ms bytes_set"
  proof (rule mutator_okI)
    fix s bs assume a: "length (bs :: u8 list) \<le> ms" "length bs < 2 ^ 62"
    show "mut_post ms s bs (bytes_set s bs)"
      using bytes_set_effects(1) [of bs s] a write_ok [OF a(1), of s _ _ "replicate _ _"]
      by (cases "bs = []") (fastforce simp: bytes_set_def mut_post_skip)+
  qed
  show "mutator_ok ms bytes_rand_set"
  proof (rule mutator_okI)
    fix s bs assume a: "length (bs :: u8 list) \<le> ms" "length bs < 2 ^ 62"
    show "mut_post ms s bs (bytes_rand_set s bs)"
      using bytes_set_effects(2) [of bs s] a write_ok [OF a(1), of s _ _ "replicate _ _"]
      by (cases "bs = []") (fastforce simp: bytes_rand_set_def mut_post_skip)+
  qed
  show "mutator_ok ms bytes_copy"
  proof (rule mutator_okI)
    fix s bs assume a: "length (bs :: u8 list) \<le> ms" "length bs < 2 ^ 62"
    show "mut_post ms s bs (bytes_copy s bs)"
      using bytes_copy_effect [of bs s] a write_ok [OF a(1), of s _ _ "take _ (drop _ bs)"]
      by (cases "length bs \<le> 1") (fastforce simp: bytes_copy_def mut_post_skip)+
  qed
qed

lemma bytes_swap_ok: "mutator_ok ms bytes_swap"
proof (rule mutator_okI)
  fix s bs assume a: "length (bs :: u8 list) \<le> ms" "length bs < 2 ^ 62"
  from bytes_swap_effect [OF a(2), of s] obtain s' where o: "only_rand s s'"
    and c: "bytes_swap s bs = Ok (Skipped, s', bs) \<or> (\<exists>P A M B Q. bs = P @ A @ M @ B @ Q \<and> A \<noteq> [] \<and> bytes_swap s bs = Ok (Mutated, s', swapped P A M B Q))"
    by blast
  from c show "mut_post ms s bs (bytes_swap s bs)"
  proof
    assume "bytes_swap s bs = Ok (Skipped, s', bs)"
    then show ?thesis using mut_post_skip [OF a(1) o] by simp
  next
    assume "\<exists>P A M B Q. bs = P @ A @ M @ B @ Q \<and> A \<noteq> [] \<and> bytes_swap s bs = Ok (Mutated, s', swapped P A M B Q)"
    then obtain P A M B Q where e: "bs = P @ A @ M @ B @ Q" "A \<noteq> []" "bytes_swap s bs = Ok (Mutated, s', swapped P A M B Q)" by blast
    have l: "length (swapped P A M B Q) = length bs" using length_swapped e(1) by simp
    show ?thesis
    proof (rule mut_postI [OF e(3) o])
      show "swapped P A M B Q \<noteq> []" if "bs \<noteq> []" using l that by fastforce
    qed (use l a in auto)
  qed
qed

lemma crossover_insert_ok: "mutator_ok ms (crossover_insert_mutator ms)"
proof (rule mutator_okI)
  fix s and bs :: "u8 list" assume p: "mut_pre ms s" and a: "length bs \<le> ms"
  show "mut_post ms s bs (crossover_insert_mutator ms s bs)"
  proof (cases "bs = [] \<or> ms \<le> length bs")
    case True
    then show ?thesis using mut_post_skip [OF a only_rand_refl] by (simp add: crossover_insert_mutator_def)
  next
    case False
    then obtain s' where o: "only_rand s s'" and c: "crossover_insert_mutator ms s bs = Ok (Skipped, s', bs) \<or>
        (\<exists>other x n t. length bs + n \<le> ms \<and> crossover_insert_mutator ms s bs = Ok (Mutated, s', take t bs @ take n (drop x other) @ drop t bs))"
      using crossover_insert_effect [OF p, of bs] by (metis not_le)
    from c show ?thesis
    proof (elim disjE exE conjE)
      assume "crossover_insert_mutator ms s bs = Ok (Skipped, s', bs)"
      then show ?thesis using mut_post_skip [OF a o] by simp
    next
      fix other :: "u8 list" and x n t
      assume "length bs + n \<le> ms" "crossover_insert_mutator ms s bs = Ok (Mutated, s', take t bs @ take n (drop x other) @ drop t bs)"
      then show ?thesis using insert_ok [OF o, of bs "take n (drop x other)" ms t] by simp
    qed
  qed
qed

lemma crossover_replace_ok: "mutator_ok ms crossover_replace_mutator"
proof (rule mutator_okI)
  fix s and bs :: "u8 list" assume p: "mut_pre ms s" and a: "length bs \<le> ms"
  show "mut_post ms s bs (crossover_replace_mutator s bs)"
  proof (cases "bs = []")
    case True
    then show ?thesis using mut_post_skip [OF a only_rand_refl] by (simp add: crossover_replace_mutator_def)
  next
    case False
    then obtain s' where o: "only_rand s s'" and c: "crossover_replace_mutator s bs = Ok (Skipped, s', bs) \<or>
        (\<exists>other x n t. t + n \<le> length bs \<and> crossover_replace_mutator s bs = Ok (Mutated, s', write_at t (take n (drop x other)) bs))"
      using crossover_replace_effect [OF p _ a] by metis
    from c show ?thesis
    proof (elim disjE exE conjE)
      assume "crossover_replace_mutator s bs = Ok (Skipped, s', bs)"
      then show ?thesis using mut_post_skip [OF a o] by simp
    next
      fix other :: "u8 list" and x n t
      assume "t + n \<le> length bs" "crossover_replace_mutator s bs = Ok (Mutated, s', write_at t (take n (drop x other)) bs)"
      then show ?thesis using write_ok [OF a o, of t "take n (drop x other)"] by simp
    qed
  qed
qed

lemma interesting_nonempty: "INTERESTING_8 \<noteq> []" "INTERESTING_16 \<noteq> []" "INTERESTING_32 \<noteq> []"
  "length INTERESTING_8 < 2 ^ 64" "length INTERESTING_16 < 2 ^ 64" "length INTERESTING_32 < 2 ^ 64"
  by (simp_all add: INTERESTING_8_def INTERESTING_16_def INTERESTING_32_def)

lemmas interesting_ok = int_interesting_ok [OF interesting_nonempty(1,4)] int_interesting_ok [OF interesting_nonempty(2,5)]
  int_interesting_ok [OF interesting_nonempty(3,6)]

lemma havoc_mutations_ok: "m \<in> set (havoc_mutations ms) \<Longrightarrow> mutator_ok ms m"
  by (auto simp: havoc_mutations_def havoc_mutations_no_crossover_def havoc_crossover_def point_mutators_ok int_add_ok interesting_ok
    bytes_delete_ok growing_ok bytes_expand_ok overwriting_ok bytes_swap_ok crossover_insert_ok crossover_replace_ok)

section \<open>The scheduled mutator over a set of mutators\<close>

lemma get_and_mutate_nth: "i < length muts \<Longrightarrow> get_and_mutate muts i s bs = (muts ! i) s bs"
  by (induction muts arbitrary: i) (auto simp: less_Suc_eq_0_disj)

text \<open>The contract between the scheduled mutator and the tuple of mutators it draws from.\<close>

locale mutator_set =
  fixes muts :: "mutator list" and ms :: nat
  assumes each_ok: "m \<in> set muts \<Longrightarrow> mutator_ok ms m"
    and nonempty: "muts \<noteq> []"
    and few: "length muts < 2 ^ 64"
begin

lemma draw_one:
  assumes "mut_pre ms s" "length bs \<le> ms" "draw_below (length muts) s = (i, s1)"
  shows "only_rand s s1 \<and> mut_post ms s1 bs (get_and_mutate muts i s1 bs)"
proof -
  have "i < length muts" "only_rand s s1" using draw_below_ok [OF assms(3)] nonempty few by auto
  then show ?thesis using each_ok [of "muts ! i"] mut_pre_only_rand [OF assms(1)] assms(2)
    by (simp add: get_and_mutate_nth mutator_ok_def)
qed

lemma stack_ok:
  assumes "mut_pre ms s" "length bs \<le> ms"
  shows "\<exists>r' s' bs'. stack_mutations muts n r s bs = Ok (r', s', bs') \<and> only_rand s s' \<and> length bs' \<le> ms \<and>
    (r' = Skipped \<longrightarrow> r = Skipped \<and> bs' = bs) \<and> (bs \<noteq> [] \<longrightarrow> bs' \<noteq> [])"
  using assms
proof (induction n arbitrary: r s bs)
  case (Suc n)
  obtain i s1 where d: "draw_below (length muts) s = (i, s1)" by fastforce
  from draw_one [OF Suc.prems d] obtain o2 s2 bs2 where o: "only_rand s s1" "get_and_mutate muts i s1 bs = Ok (o2, s2, bs2)" "only_rand s1 s2"
    "length bs2 \<le> ms" "o2 = Skipped \<longrightarrow> bs2 = bs" "bs \<noteq> [] \<longrightarrow> bs2 \<noteq> []" unfolding mut_post_def by blast
  have o': "only_rand s s2" using only_rand_trans [OF o(1,3)] .
  let ?r = "if o2 = Mutated then Mutated else r"
  from Suc.IH [OF mut_pre_only_rand [OF Suc.prems(1) o'] o(4), of ?r]
  obtain r' s' bs' where e: "stack_mutations muts n ?r s2 bs2 = Ok (r', s', bs')" "only_rand s2 s'" "length bs' \<le> ms"
    "r' = Skipped \<longrightarrow> ?r = Skipped \<and> bs' = bs2" "bs2 \<noteq> [] \<longrightarrow> bs' \<noteq> []" by blast
  have "stack_mutations muts (Suc n) r s bs = Ok (r', s', bs')" using nonempty d o(2) e(1) by simp
  moreover have "r' = Skipped \<longrightarrow> r = Skipped \<and> bs' = bs" using e(4) o(5) by (cases o2) auto
  ultimately show ?case using only_rand_trans [OF o' e(2)] e(3,5) o(6) by blast
qed simp

lemma scheduled_ok: "mut_pre ms s \<Longrightarrow> length bs \<le> ms \<Longrightarrow> mut_post ms s bs (scheduled_mutate muts pow s bs)"
proof -
  assume a: "mut_pre ms s" "length bs \<le> ms"
  obtain num s1 where i: "iterations pow s = (num, s1)" by fastforce
  then have o: "only_rand s s1" by (auto simp: iterations_def Let_def rand_mut_only split: prod.splits)
  from stack_ok [OF mut_pre_only_rand [OF a(1) o] a(2), of num Skipped] i only_rand_trans [OF o]
  show ?thesis by (fastforce simp: scheduled_mutate_def mut_post_def)
qed

end

interpretation havoc: mutator_set "havoc_mutations ms" ms for ms
  by unfold_locales (simp_all add: havoc_mutations_ok, simp_all add: havoc_mutations_def havoc_mutations_no_crossover_def havoc_crossover_def)

section \<open>Splicing and tokens\<close>

definition diffs :: "u8 list \<Rightarrow> u8 list \<Rightarrow> nat list" where
  "diffs xs ys = filter (\<lambda>j. xs ! j \<noteq> ys ! j) [0..<min (length xs) (length ys)]"

lemma diffs_Cons: "diffs (x # xs) (y # ys) = (if x \<noteq> y then [0] else []) @ map Suc (diffs xs ys)"
proof -
  have "[0..<min (length (x # xs)) (length (y # ys))] = 0 # map Suc [0..<min (length xs) (length ys)]"
    by (simp add: map_Suc_upt upt_conv_Cons del: upt_Suc)
  then show ?thesis by (simp add: diffs_def filter_map o_def)
qed

lemma locate_diffs_from_eq:
  "locate_diffs_from i (f, l) xs ys =
     (if diffs xs ys = [] then (f, l) else (if f < 0 then int (i + hd (diffs xs ys)) else f, int (i + last (diffs xs ys))))"
proof (induction i "(f, l)" xs ys arbitrary: f l rule: locate_diffs_from.induct)
  case (1 i f l x xs y ys)
  show ?case
  proof (cases "x = y")
    case True
    with 1 [of f l] show ?thesis by (auto simp: diffs_Cons hd_map last_map)
  next
    case False
    with 1 [of "if f < 0 then int i else f" "int i"] show ?thesis by (auto simp: diffs_Cons last_map)
  qed
qed (auto simp: diffs_def)

lemma diffs_iff: "j \<in> set (diffs xs ys) \<longleftrightarrow> j < length xs \<and> j < length ys \<and> xs ! j \<noteq> ys ! j"
  by (auto simp: diffs_def)

lemma locate_diffs_eq:
  "locate_diffs xs ys = (if diffs xs ys = [] then (-1, -1) else (int (hd (diffs xs ys)), int (last (diffs xs ys))))"
  by (simp add: locate_diffs_def locate_diffs_from_eq)

lemma sorted_diffs: "sorted (diffs xs ys)"
  unfolding diffs_def by (rule sorted_wrt_filter) simp

lemma hd_le_last: "sorted xs \<Longrightarrow> xs \<noteq> [] \<Longrightarrow> hd xs \<le> last xs"
  by (cases xs) auto

lemma splice_effect:
  assumes "mut_pre ms s"
  shows "\<exists>s'. only_rand s s' \<and> (splice_mutator s bs = Ok (Skipped, s', bs) \<or>
    (\<exists>k other sp. load_input_of s k = Ok other \<and> diffs bs other \<noteq> [] \<and> hd (diffs bs other) \<le> sp \<and> sp \<le> last (diffs bs other) \<and>
      splice_mutator s bs = Ok (Mutated, s', take sp bs @ drop sp other)))"
proof -
  obtain k s1 other where k: "random_corpus_id_with_disabled s = Ok (k, s1)" "only_rand s s1" "load_input_of s1 k = Ok other" "length other < 2 ^ 62"
    using random_id_ok [OF assms] by blast
  obtain f l where fl: "locate_diffs bs other = (f, l)" by fastforce
  show ?thesis
  proof (cases "current (st_corpus s1) = Some k \<or> \<not> (f \<noteq> l \<and> 0 \<le> f \<and> 2 \<le> l)")
    case True
    then have "splice_mutator s bs = Ok (Skipped, s1, bs)" using k fl by (auto simp: splice_mutator_def)
    then show ?thesis using k(2) by blast
  next
    case False
    let ?D = "diffs bs other"
    have D: "?D \<noteq> []" "f = int (hd ?D)" "l = int (last ?D)" using fl False by (auto simp: locate_diffs_eq split: if_splits)
    have lt: "last ?D < length bs" "last ?D < length other" using D(1) last_in_set [of ?D] by (auto simp: diffs_iff)
    have le: "nat f \<le> nat l" using hd_le_last [OF sorted_diffs D(1)] D by simp
    obtain sp s2 where b: "rand_mut (\<lambda>r. between std_rand_next r (nat f) (nat l)) s1 = (sp, s2)" by fastforce
    have "nat f \<le> sp \<and> sp \<le> nat l" using b le lt k(4) D below_less [of "nat l - nat f + 1" std_rand_next "st_rand s1"]
      by (fastforce simp: rand_mut_def between_def Let_def split: prod.splits)
    then have sp: "hd ?D \<le> sp" "sp \<le> last ?D" using D by auto
    have "splice_mutator s bs = Ok (Mutated, s2, take sp bs @ drop sp other)" using k(1,3) fl False b sp lt by (auto simp: splice_mutator_def)
    moreover have "load_input_of s k = Ok other" using k(3) only_rand_corpus [OF k(2)] by (simp add: load_input_of_def)
    moreover have "only_rand s s2" using only_rand_trans [OF k(2) rand_mut_only [OF b]] .
    ultimately show ?thesis using D(1) sp by blast
  qed
qed

lemma splice_between:
  assumes "mut_pre ms s"
  shows "\<exists>s'. only_rand s s' \<and> (splice_mutator s bs = Ok (Skipped, s', bs) \<or>
    (\<exists>k other sp i j. load_input_of s k = Ok other \<and> i \<le> sp \<and> sp \<le> j \<and> j < length bs \<and> j < length other \<and>
      bs ! i \<noteq> other ! i \<and> bs ! j \<noteq> other ! j \<and> take i bs = take i other \<and>
      splice_mutator s bs = Ok (Mutated, s', take sp bs @ drop sp other)))"
proof -
  have t: "take (hd (diffs bs other)) bs = take (hd (diffs bs other)) other" if d: "diffs bs other \<noteq> []" for other
  proof (rule nth_take_lemma)
    note h = list.set_sel(1) [OF d]
    show "hd (diffs bs other) \<le> length bs" "hd (diffs bs other) \<le> length other" using h by (auto simp: diffs_iff)
    show "i < hd (diffs bs other) \<longrightarrow> bs ! i = other ! i" for i
    proof (rule impI, rule ccontr)
      assume i: "i < hd (diffs bs other)" and "bs ! i \<noteq> other ! i"
      then have "i \<in> set (diffs bs other)" using i h by (auto simp: diffs_iff)
      then show False using i sorted_diffs [of bs other] d by (cases "diffs bs other") auto
    qed
  qed
  have ends: "hd (diffs bs other) \<in> set (diffs bs other)" "last (diffs bs other) \<in> set (diffs bs other)" if "diffs bs other \<noteq> []" for other
    using that by auto
  from splice_effect [OF assms, of bs] show ?thesis
  proof (elim exE conjE disjE)
    fix s' k other sp
    assume o: "only_rand s s'" "load_input_of s k = Ok other" "diffs bs other \<noteq> []" "hd (diffs bs other) \<le> sp" "sp \<le> last (diffs bs other)"
      "splice_mutator s bs = Ok (Mutated, s', take sp bs @ drop sp other)"
    then show ?thesis using t [OF o(3)] ends [OF o(3)] unfolding diffs_iff by blast
  qed blast
qed

text \<open>What one byte of a token may look like, and what may be left over at the end of the text.\<close>

definition escapes :: "u8 \<Rightarrow> u8 list \<Rightarrow> bool" where
  "escapes b cs \<longleftrightarrow> cs = [b] \<and> b \<noteq> 92 \<or> cs = [92, b] \<and> b \<noteq> 120 \<and> b \<noteq> 88 \<or>
     (\<exists>x h l h' l'. cs = [92, x, h, l] \<and> (x = 120 \<or> x = 88) \<and> from_hex h = Ok h' \<and> from_hex l = Ok l' \<and> b = push_bit 4 h' + l')"

definition unfinished :: "u8 list \<Rightarrow> bool" where
  "unfinished cs \<longleftrightarrow> cs = [] \<or> cs = [92] \<or> (\<exists>x. (x = 120 \<or> x = 88) \<and> (cs = [92, x] \<or> (\<exists>h h'. cs = [92, x, h] \<and> from_hex h = Ok h')))"

lemma decode_escape:
  assumes "escapes b cs"
  shows "\<exists>d'. str_decode_from False 0 d token (cs @ rest) = str_decode_from False 0 d' (token @ [b]) rest"
  using assms unfolding escapes_def by auto

lemma decode_unfinished: "unfinished cs \<Longrightarrow> str_decode_from False 0 d token cs = Ok token"
  by (auto simp: unfinished_def)

lemma decode_escapes:
  assumes "list_all2 escapes bs css" "unfinished rest"
  shows "str_decode_from False 0 d token (concat css @ rest) = Ok (token @ bs)"
  using assms
proof (induction arbitrary: d token rule: list_all2_induct)
  case (Cons b bs cs css)
  from decode_escape [OF Cons(1), of d token "concat css @ rest"] Cons show ?case by auto
qed (simp add: decode_unfinished)

lemma decode_hex_digits:
  assumes "str_decode_from False 1 d token cs = Ok out" "x = 120 \<or> x = 88"
  shows "unfinished (92 # x # cs) \<and> out = token \<or>
    (\<exists>b pre rest d'. 92 # x # cs = pre @ rest \<and> escapes b pre \<and> str_decode_from False 0 d' (token @ [b]) rest = Ok out)"
proof (cases cs)
  case (Cons h r)
  with assms(1) obtain h' where h: "from_hex h = Ok h'" "str_decode_from False 2 (push_bit 4 h') token r = Ok out" by auto
  show ?thesis
  proof (cases r)
    case r: (Cons l r2)
    with h(2) obtain l' where l: "from_hex l = Ok l'" "str_decode_from False 0 (push_bit 4 h' + l') (token @ [push_bit 4 h' + l']) r2 = Ok out" by auto
    have "escapes (push_bit 4 h' + l') [92, x, h, l]" using h(1) l(1) assms(2) by (auto simp: escapes_def)
    then show ?thesis using l(2) Cons r by (intro disjI2 exI [of _ "push_bit 4 h' + l'"] exI [of _ "[92, x, h, l]"] exI [of _ r2] exI) auto
  qed (use h assms(2) Cons in \<open>auto simp: unfinished_def\<close>)
qed (use assms in \<open>auto simp: unfinished_def\<close>)

lemma decode_step:
  assumes "str_decode_from False 0 d token cs = Ok out"
  shows "unfinished cs \<and> out = token \<or>
    (\<exists>b pre rest d'. cs = pre @ rest \<and> escapes b pre \<and> str_decode_from False 0 d' (token @ [b]) rest = Ok out)"
proof (cases cs)
  case (Cons c r)
  show ?thesis
  proof (cases "c = 92")
    case False
    then have "escapes c [c]" "str_decode_from False 0 d (token @ [c]) r = Ok out" using assms Cons by (simp_all add: escapes_def)
    then show ?thesis using Cons by (metis append_Cons append_Nil)
  next
    case c: True
    show ?thesis
    proof (cases r)
      case Nil
      then show ?thesis using assms Cons c by (simp add: unfinished_def)
    next
      case r: (Cons x r2)
      show ?thesis
      proof (cases "x = 120 \<or> x = 88")
        case False
        then have "escapes x [92, x]" "str_decode_from False 0 d (token @ [x]) r2 = Ok out" using assms Cons c r by (auto simp: escapes_def)
        then show ?thesis using Cons c r by (metis append_Cons append_Nil)
      next
        case x: True
        then have e: "str_decode_from False 1 d token r2 = Ok out" using assms Cons c r by auto
        then show ?thesis using decode_hex_digits [OF e x] Cons c r by simp
      qed
    qed
  qed
qed (use assms in \<open>simp add: unfinished_def\<close>)

lemma decode_complete:
  "str_decode_from False 0 d token cs = Ok out \<Longrightarrow>
     \<exists>bs css rest. list_all2 escapes bs css \<and> unfinished rest \<and> cs = concat css @ rest \<and> out = token @ bs"
proof (induction cs arbitrary: d token rule: length_induct)
  case (1 cs)
  from decode_step [OF 1(2)] show ?case
  proof (elim disjE exE conjE)
    assume "unfinished cs" "out = token"
    then show ?thesis by (intro exI [of _ "[]"] exI [of _ cs]) simp
  next
    fix b pre rest d'
    assume a: "cs = pre @ rest" "escapes b pre" "str_decode_from False 0 d' (token @ [b]) rest = Ok out"
    have "length rest < length cs" using a(1,2) by (auto simp: escapes_def)
    with 1(1) a(3) obtain bs css rest' where "list_all2 escapes bs css" "unfinished rest'" "rest = concat css @ rest'" "out = (token @ [b]) @ bs"
      by blast
    then show ?thesis using a(1,2) by (intro exI [of _ "b # bs"] exI [of _ "pre # css"] exI [of _ rest']) simp
  qed
qed

section \<open>Properties\<close>

lemma xor_differs: "x < 254 \<Longrightarrow> b XOR (1 + of_nat x) \<noteq> (b :: u8)"
proof
  assume x: "x < 254" and e: "b XOR (1 + of_nat x) = b"
  then have "b XOR (b XOR (1 + of_nat x)) = b XOR b" by simp
  then have "(of_nat (Suc x) :: u8) = 0" by (simp add: xor.assoc [symmetric])
  then have "256 dvd Suc x" by (simp only: of_nat_eq_0_iff word_of_nat_eq_0_iff) simp
  then show False using x by (auto dest: dvd_imp_le)
qed

definition example_mut_state :: fuzz_state where
  "example_mut_state = (state_new (std_rand_with_seed 0))\<lparr>st_corpus :=
     (case corpus_add corpus_new (testcase_new [1, 2, 3]) of Some (c, _) \<Rightarrow> c | None \<Rightarrow> corpus_new)\<rparr>"

lemma example_corpus_eq:
  "corpus_get_from_all (st_corpus example_mut_state) k = Ok tc \<Longrightarrow> tc = testcase_new [1, 2, 3]"
  by (auto simp: example_mut_state_def corpus_add_def corpus_new_def insert_inner_def storage_new_def map_insert_last_def storage_map_new_def
    insert_key_def binary_search_def Let_def corpus_get_from_all_def map_get_def lookup_update' split: option.splits if_splits)

lemma example_mut_pre: "mut_pre 64 example_mut_state"
proof -
  have "insert_inner storage_new (testcase_new [1, 2, 3]) False \<noteq> None \<and> wf_storage (fst (the (insert_inner storage_new (testcase_new [1, 2, 3]) False)))"
    using insert_inner_ok [OF wf_storage_new, of "testcase_new [1, 2, 3]" False] by auto
  then have "wf_corpus (st_corpus example_mut_state)" by (auto simp: example_mut_state_def corpus_add_def corpus_new_def)
  moreover have "count_all (st_corpus example_mut_state) = 1" by code_simp
  moreover have "m_tokens example_mut_state = None" "m_cmps example_mut_state = None" by (simp_all add: example_mut_state_def state_new_def)
  ultimately show ?thesis by (auto simp: mut_pre_def testcase_new_def dest!: example_corpus_eq)
qed

text \<open>C28. One call of the scheduled mutator with the havoc list always returns, on every state with a
  non-empty well-formed corpus: no index, range or memory move of the 27 mutators leaves its buffer, the
  input stays within the maximum size and never becomes empty, a skipped mutation leaves the input as it
  was, and nothing of the state changes but the random generator. The number of stacked mutations is a
  power of two, at least two and at most \<open>2 ^ max_stack_pow\<close>.\<close>

theorem havoc_mutate_safe:
  assumes "mut_pre ms s" "length bs \<le> ms" "0 < pow" "pow < 64"
  shows "(\<exists>res s' bs'. scheduled_mutate (havoc_mutations ms) pow s bs = Ok (res, s', bs') \<and> (\<exists>r. s' = s\<lparr>st_rand := r\<rparr>) \<and>
      length bs' \<le> ms \<and> (res = Skipped \<longrightarrow> bs' = bs) \<and> (bs \<noteq> [] \<longrightarrow> bs' \<noteq> [])) \<and>
    (\<exists>k. fst (iterations pow s) = 2 ^ k \<and> 1 \<le> k \<and> k \<le> pow)"
proof
  show "\<exists>res s' bs'. scheduled_mutate (havoc_mutations ms) pow s bs = Ok (res, s', bs') \<and> (\<exists>r. s' = s\<lparr>st_rand := r\<rparr>) \<and>
      length bs' \<le> ms \<and> (res = Skipped \<longrightarrow> bs' = bs) \<and> (bs \<noteq> [] \<longrightarrow> bs' \<noteq> [])"
    using havoc.scheduled_ok [OF assms(1,2), of pow] by (auto simp: mut_post_def only_rand_def)
  obtain x r where z: "zero_upto std_rand_next (st_rand s) pow = (x, r)" by fastforce
  with zero_upto_less [OF assms(3) _ z] assms(4) have "x < pow" by simp
  then show "\<exists>k. fst (iterations pow s) = 2 ^ k \<and> 1 \<le> k \<and> k \<le> pow"
    using z by (intro exI [of _ "1 + x"]) (simp add: iterations_def rand_mut_def)
qed

theorem havoc_mutate_safe_witness:
  "\<exists>res s' bs'. scheduled_mutate (havoc_mutations 64) 7 example_mut_state [1, 2, 3] = Ok (res, s', bs') \<and> length bs' \<le> 64 \<and> bs' \<noteq> []"
  using havoc_mutate_safe [OF example_mut_pre, of "[1, 2, 3]" 7] by auto

text \<open>The single-position mutators change exactly one place: a bit flip xors one bit of one byte,
  the byte mutators apply their operation to one byte, the random byte mutator never leaves the byte as
  it was, and the integer mutators add or subtract 1 to 35 to one little-endian or big-endian integer
  with wrap-around at its width.\<close>

theorem point_mutators_exact:
  assumes "bs \<noteq> []" "length bs < 2 ^ 62"
  shows "(\<exists>s' i b. bit_flip s bs = Ok (Mutated, s', bs[i := bs ! i XOR push_bit b 1]) \<and> i < length bs \<and> b < 8) \<and>
    (\<exists>s' i. byte_flip s bs = Ok (Mutated, s', bs[i := bs ! i XOR 0xff]) \<and> i < length bs) \<and>
    (\<exists>s' i. byte_inc s bs = Ok (Mutated, s', bs[i := bs ! i + 1]) \<and> i < length bs) \<and>
    (\<exists>s' i. byte_dec s bs = Ok (Mutated, s', bs[i := bs ! i - 1]) \<and> i < length bs) \<and>
    (\<exists>s' i. byte_neg s bs = Ok (Mutated, s', bs[i := - (bs ! i)]) \<and> i < length bs) \<and>
    (\<exists>s' i v. byte_rand s bs = Ok (Mutated, s', bs[i := v]) \<and> i < length bs \<and> v \<noteq> bs ! i) \<and>
    (\<forall>n \<le> length bs. \<exists>s' i d w. int_add n s bs = Ok (Mutated, s', write_at i w bs) \<and> i + n \<le> length bs \<and> length w = n \<and>
      1 \<le> d \<and> d \<le> 35 \<and> shifted_by n (take n (drop i bs)) w d)"
proof (intro conjI allI impI)
  have l: "length bs < 2 ^ 64" "length bs < 2 ^ 63" using assms(2) by auto
  show "\<exists>s' i b. bit_flip s bs = Ok (Mutated, s', bs[i := bs ! i XOR push_bit b 1]) \<and> i < length bs \<and> b < 8"
    using bit_flip_effect [OF assms(1) l(1)] by blast
  show "\<exists>s' i. byte_flip s bs = Ok (Mutated, s', bs[i := bs ! i XOR 0xff]) \<and> i < length bs"
    using change_byte_ok [OF assms(1) l(1), of "\<lambda>x. x XOR 0xff" s] assms(1) unfolding byte_flip_def by auto
  show "\<exists>s' i. byte_inc s bs = Ok (Mutated, s', bs[i := bs ! i + 1]) \<and> i < length bs"
    using change_byte_ok [OF assms(1) l(1), of "\<lambda>x. x + 1" s] assms(1) unfolding byte_inc_def by auto
  show "\<exists>s' i. byte_dec s bs = Ok (Mutated, s', bs[i := bs ! i - 1]) \<and> i < length bs"
    using change_byte_ok [OF assms(1) l(1), of "\<lambda>x. x - 1" s] assms(1) unfolding byte_dec_def by auto
  have n: "NOT x + 1 = - x" for x :: u8 by (simp add: minus_eq_not_plus_1)
  show "\<exists>s' i. byte_neg s bs = Ok (Mutated, s', bs[i := - (bs ! i)]) \<and> i < length bs"
    using change_byte_ok [OF assms(1) l(1), of "\<lambda>x. - x" s] assms(1) unfolding byte_neg_def n by auto
  show "\<exists>s' i v. byte_rand s bs = Ok (Mutated, s', bs[i := v]) \<and> i < length bs \<and> v \<noteq> bs ! i"
    using byte_rand_effect [OF assms(1) l(1), of s] xor_differs by blast
  show "\<exists>s' i d w. int_add n s bs = Ok (Mutated, s', write_at i w bs) \<and> i + n \<le> length bs \<and> length w = n \<and>
      1 \<le> d \<and> d \<le> 35 \<and> shifted_by n (take n (drop i bs)) w d" if "n \<le> length bs" for n
    using int_add_effect [OF that l(2), of s] by blast
qed

theorem point_mutators_exact_witness:
  "(\<exists>s' i b. bit_flip example_mut_state [7] = Ok (Mutated, s', [7][i := [7] ! i XOR push_bit b 1]) \<and> i < length [7 :: u8] \<and> b < 8)"
  using point_mutators_exact [of "[7]" example_mut_state] by simp

text \<open>C29. The swap mutator picks two ranges \<open>A\<close> (the earlier) and \<open>B\<close> with \<open>M\<close> between them. When
  \<open>A\<close> is not longer than \<open>B\<close> it exchanges them exactly, and also when nothing lies between them. When
  \<open>A\<close> is longer and \<open>M\<close> is not empty, the bytes of \<open>M\<close> are moved to the left over the end of \<open>A\<close> before that end is copied: part of \<open>A\<close> is lost and replaced by a second
  copy of the first bytes of \<open>M\<close>, as in the example, where the exchange would be \<open>4, 9, 1, 2, 3\<close>.\<close>

theorem bytes_swap_correct:
  assumes "length bs < 2 ^ 62"
  shows "(\<exists>s'. (\<exists>r. s' = s\<lparr>st_rand := r\<rparr>) \<and> (bytes_swap s bs = Ok (Skipped, s', bs) \<or>
      (\<exists>P A M B Q. bs = P @ A @ M @ B @ Q \<and> A \<noteq> [] \<and> B \<noteq> [] \<and> bytes_swap s bs = Ok (Mutated, s',
        if length A \<le> length B then P @ B @ M @ A @ Q
        else P @ B @ M @ take (length B) A @ take (length A - length B) M @ drop (length M) (drop (length B) A) @ Q)))) \<and>
    swap_after (0, 3) (4, 5) [1, 2, 3, 9, 4] = Ok [4, 9, 1, 9, 3]"
proof
  show "swap_after (0, 3) (4, 5) [1, 2, 3, 9, 4] = Ok [4, 9, 1, 9, 3]" by code_simp
qed (use bytes_swap_effect [OF assms, of s] in \<open>unfold only_rand_def swapped_eq\<close>)

theorem bytes_swap_correct_witness:
  "\<exists>s'. bytes_swap example_mut_state [5] = Ok (Skipped, s', [5]) \<or>
      (\<exists>P A M B Q. [5] = P @ A @ M @ B @ Q \<and> A \<noteq> [] \<and> B \<noteq> [] \<and> bytes_swap example_mut_state [5] = Ok (Mutated, s',
        if length A \<le> length B then P @ B @ M @ A @ Q
        else P @ B @ M @ take (length B) A @ take (length A - length B) M @ drop (length M) (drop (length B) A) @ Q))"
proof -
  have "length [5 :: u8] < 2 ^ 62" by simp
  from bytes_swap_correct [OF this, of example_mut_state] show ?thesis by (elim conjE exE) (rule exI)
qed

text \<open>The dictionary decoder accepts exactly the texts that are a sequence of escapes, one for each
  byte of the token, with at most one unfinished escape at the end, which is dropped: a byte other than
  the backslash stands for itself, a backslash makes the next byte literal, and \<open>x\<close> or \<open>X\<close> after a
  backslash starts two hexadecimal digits. Every token has such a text, so encoding and decoding is a
  round trip.\<close>

theorem str_decode_iff:
  "(str_decode item = Ok bs \<longleftrightarrow> (\<exists>css rest. item = concat css @ rest \<and> list_all2 escapes bs css \<and> unfinished rest)) \<and>
    (\<exists>css. list_all2 escapes bs css \<and> str_decode (concat css) = Ok bs)"
proof
  show "str_decode item = Ok bs \<longleftrightarrow> (\<exists>css rest. item = concat css @ rest \<and> list_all2 escapes bs css \<and> unfinished rest)"
    using decode_complete [of 0 "[]" item bs] decode_escapes [of bs _ _ 0 "[]"] unfolding str_decode_def by auto
  have "\<exists>cs. escapes b cs" for b by (cases "b = 92") (auto simp: escapes_def)
  then have "list_all2 escapes bs (map (\<lambda>b. SOME cs. escapes b cs) bs)" by (simp add: list_all2_conv_all_nth some_eq_ex)
  then show "\<exists>css. list_all2 escapes bs css \<and> str_decode (concat css) = Ok bs"
    using decode_escapes [of bs _ "[]" 0 "[]"] unfolding str_decode_def unfinished_def by auto
qed

text \<open>Crossover and splicing combine the input with another one of the corpus: crossover insertion
  puts a non-empty piece of the other input in at a position of this one within the maximum size,
  crossover replacement writes such a piece over part of this one, and splicing joins the head of this
  input with the tail of the other at a position between their first and last difference. None of them
  fails or touches the state beyond the generator.\<close>

theorem crossover_splice_correct:
  assumes "mut_pre ms s" "bs \<noteq> []" "length bs < ms"
  shows "(\<exists>s'. only_rand s s' \<and> (crossover_insert_mutator ms s bs = Ok (Skipped, s', bs) \<or>
      (\<exists>k other a b t. load_input_of s k = Ok other \<and> a < b \<and> b \<le> length other \<and> t < length bs \<and> length bs + (b - a) \<le> ms \<and>
        crossover_insert_mutator ms s bs = Ok (Mutated, s', take t bs @ take (b - a) (drop a other) @ drop t bs)))) \<and>
    (\<exists>s'. only_rand s s' \<and> (crossover_replace_mutator s bs = Ok (Skipped, s', bs) \<or>
      (\<exists>k other a b t. load_input_of s k = Ok other \<and> a < b \<and> b \<le> length other \<and> t + (b - a) \<le> length bs \<and>
        crossover_replace_mutator s bs = Ok (Mutated, s', write_at t (take (b - a) (drop a other)) bs)))) \<and>
    (\<exists>s'. only_rand s s' \<and> (splice_mutator s bs = Ok (Skipped, s', bs) \<or>
      (\<exists>k other sp i j. load_input_of s k = Ok other \<and> i \<le> sp \<and> sp \<le> j \<and> j < length bs \<and> j < length other \<and>
        bs ! i \<noteq> other ! i \<and> bs ! j \<noteq> other ! j \<and> take i bs = take i other \<and>
        splice_mutator s bs = Ok (Mutated, s', take sp bs @ drop sp other))))"
  using crossover_insert_effect [OF assms] crossover_replace_effect [OF assms(1,2)] assms(3) splice_between [OF assms(1), of bs]
  by (intro conjI) simp_all

theorem crossover_splice_correct_witness:
  "\<exists>s' r bs'. crossover_replace_mutator example_mut_state [1, 2] = Ok (r, s', bs')"
  using crossover_splice_correct [OF example_mut_pre, of "[1, 2]"] by auto

end
