(* ===== verification/Cmplog.thy ===== *)
theory Cmplog
  imports Mutations
begin

unbundle bit_operations_syntax

text \<open>
  Comparison logging and the input-to-state mutator. The instrumented target writes the operands of its
  comparisons into the \<open>CmpLog\<close> map (\<open>libafl_targets/src/cmplog.h\<close>, \<open>cmplog.c\<close>, \<open>sancov_cmp.c\<close>,
  \<open>sancov_cmp.rs\<close>); the observer (\<open>libafl_targets/src/cmps/observers/cmplog.rs\<close>) reads the map
  (\<open>cmps/mod.rs\<close>) into the metadata (\<open>libafl/src/observers/cmp.rs\<close>), and \<open>I2SRandReplace\<close> of
  \<open>token_mutations.rs\<close> replaces an operand in the input by the other one. A row of the map is its bytes,
  because the C union lays instruction records (24 bytes) and routine records (64 bytes) over the same
  memory. Width and height of the map are the defaults of \<open>build.rs\<close>.
\<close>

section \<open>The map\<close>

definition CMPLOG_MAP_W :: nat where "CMPLOG_MAP_W = 65536"
definition CMPLOG_MAP_H :: nat where "CMPLOG_MAP_H = 32"
definition CMPLOG_RTN_LEN :: nat where "CMPLOG_RTN_LEN = 32"

text \<open>\<open>sizeof(CmpLogInstruction)\<close> with its padding, and \<open>sizeof(CmpLogRoutine)\<close>.\<close>

definition INS_SIZE :: nat where "INS_SIZE = 24"
definition RTN_SIZE :: nat where "RTN_SIZE = 2 * CMPLOG_RTN_LEN"

definition CMPLOG_MAP_RTN_H :: nat where
  "CMPLOG_MAP_RTN_H = CMPLOG_MAP_H * INS_SIZE div RTN_SIZE"

definition CMPLOG_KIND_INS :: u8 where "CMPLOG_KIND_INS = 0"
definition CMPLOG_KIND_RTN :: u8 where "CMPLOG_KIND_RTN = 1"

record cmplog_header =
  ch_hits :: u16
  ch_shape :: u8
  ch_kind :: u8

record cmplog_map =
  cm_headers :: "cmplog_header list"
  cm_rows :: "u8 list list"
  cm_enabled :: bool

definition cmplog_map_default :: cmplog_map where
  "cmplog_map_default = \<lparr>cm_headers = replicate CMPLOG_MAP_W \<lparr>ch_hits = 0, ch_shape = 0, ch_kind = 0\<rparr>,
     cm_rows = replicate CMPLOG_MAP_W (replicate (CMPLOG_MAP_H * INS_SIZE) 0), cm_enabled = False\<rparr>"

section \<open>The writer\<close>

definition cmplog_key :: "u64 \<Rightarrow> nat" where
  "cmplog_key pc = unat ((drop_bit 4 pc XOR push_bit 8 pc) AND (of_nat CMPLOG_MAP_W - 1))"

definition store :: "nat \<Rightarrow> cmplog_header \<Rightarrow> nat \<Rightarrow> u8 list \<Rightarrow> cmplog_map \<Rightarrow> error + cmplog_map" where
  "store k h off ys m = (case get_opt (cm_rows m) k of None \<Rightarrow> Err Panic
   | Some row \<Rightarrow> if length row < off + length ys then Err Panic
       else Ok (m\<lparr>cm_headers := (cm_headers m)[k := h], cm_rows := (cm_rows m)[k := write_at off ys row]\<rparr>))"

definition count_hit :: "u8 \<Rightarrow> u8 \<Rightarrow> cmplog_header \<Rightarrow> u16 \<times> cmplog_header" where
  "count_hit kind shape h =
     (if ch_kind h \<noteq> kind then (0, \<lparr>ch_hits = 1, ch_shape = shape, ch_kind = kind\<rparr>)
      else (ch_hits h, h\<lparr>ch_hits := ch_hits h + 1, ch_shape := if ch_shape h < shape then shape else ch_shape h\<rparr>))"

definition cmplog_instructions_checked :: "nat \<Rightarrow> u8 \<Rightarrow> u64 \<Rightarrow> u64 \<Rightarrow> u8 \<Rightarrow> cmplog_map \<Rightarrow> error + cmplog_map" where
  "cmplog_instructions_checked k shape arg1 arg2 arg1_is_const m =
     (if \<not> cm_enabled m then Ok m
      else case get_opt (cm_headers m) k of None \<Rightarrow> Err Panic
      | Some h \<Rightarrow> let (hits, h') = count_hit CMPLOG_KIND_INS shape h;
            slot = unat (hits AND (of_nat CMPLOG_MAP_H - 1))
          in store k h' (INS_SIZE * slot) (to_le 8 (unat arg1) @ to_le 8 (unat arg2) @ [arg1_is_const]) m)"

text \<open>Two copies of \<open>len\<close> bytes; the arguments are the bytes at the two pointers.\<close>

definition cmplog_routines_checked :: "nat \<Rightarrow> u8 list \<Rightarrow> u8 list \<Rightarrow> nat \<Rightarrow> cmplog_map \<Rightarrow> error + cmplog_map" where
  "cmplog_routines_checked k ptr1 ptr2 len m =
     (if length ptr1 < len \<or> length ptr2 < len \<or> CMPLOG_RTN_LEN < len then Err Panic
      else case get_opt (cm_headers m) k of None \<Rightarrow> Err Panic
      | Some h \<Rightarrow> let (hits, h') = count_hit CMPLOG_KIND_RTN (of_nat len) h;
            slot = unat (hits AND (of_nat CMPLOG_MAP_RTN_H - 1))
          in bindR (store k h' (RTN_SIZE * slot) (take len ptr1) m) (\<lambda>m1.
             store k h' (RTN_SIZE * slot + CMPLOG_RTN_LEN) (take len ptr2) m1))"

text \<open>The hooks: \<open>valid1\<close> and \<open>valid2\<close> are the results of the check that 32 bytes can be read.\<close>

definition cmplog_routines_len :: "nat \<Rightarrow> u8 list \<Rightarrow> u8 list \<Rightarrow> bool \<Rightarrow> bool \<Rightarrow> nat \<Rightarrow> cmplog_map \<Rightarrow> error + cmplog_map" where
  "cmplog_routines_len k ptr1 ptr2 valid1 valid2 len m =
     (if \<not> cm_enabled m \<or> \<not> valid1 \<or> \<not> valid2 then Ok m else cmplog_routines_checked k ptr1 ptr2 len m)"

definition hook_memcmp :: "u64 \<Rightarrow> u8 list \<Rightarrow> u8 list \<Rightarrow> bool \<Rightarrow> bool \<Rightarrow> nat \<Rightarrow> int \<Rightarrow> cmplog_map \<Rightarrow> error + cmplog_map" where
  "hook_memcmp pc s1 s2 valid1 valid2 n result m =
     (if result = 0 then Ok m else cmplog_routines_len (cmplog_key pc) s1 s2 valid1 valid2 (min n 32) m)"

text \<open>The length up to the first zero byte of either string, at most \<open>n\<close>.\<close>

fun actual_len :: "nat \<Rightarrow> u8 list \<Rightarrow> u8 list \<Rightarrow> nat option" where
  "actual_len 0 s1 s2 = Some 0"
| "actual_len (Suc n) (c1 # s1) (c2 # s2) = (if c1 = 0 \<or> c2 = 0 then Some 0 else map_option Suc (actual_len n s1 s2))"
| "actual_len (Suc n) s1 s2 = None"

definition hook_strncmp :: "u64 \<Rightarrow> u8 list \<Rightarrow> u8 list \<Rightarrow> bool \<Rightarrow> bool \<Rightarrow> nat \<Rightarrow> int \<Rightarrow> cmplog_map \<Rightarrow> error + cmplog_map" where
  "hook_strncmp pc s1 s2 valid1 valid2 n result m =
     (if result = 0 then Ok m
      else case actual_len (min n 32) s1 s2 of None \<Rightarrow> Err Panic
      | Some len \<Rightarrow> cmplog_routines_len (cmplog_key pc) s1 s2 valid1 valid2 len m)"

definition hook_strcmp :: "u64 \<Rightarrow> u8 list \<Rightarrow> u8 list \<Rightarrow> bool \<Rightarrow> bool \<Rightarrow> int \<Rightarrow> cmplog_map \<Rightarrow> error + cmplog_map" where
  "hook_strcmp pc s1 s2 valid1 valid2 result m =
     (if result = 0 then Ok m
      else case actual_len 32 s1 s2 of None \<Rightarrow> Err Panic
      | Some len \<Rightarrow> cmplog_routines_len (cmplog_key pc) s1 s2 valid1 valid2 len m)"

text \<open>\<open>HANDLE_SANCOV_TRACE_CMP\<close> and the loop over the constants of a switch.\<close>

definition trace_cmp :: "u64 \<Rightarrow> u8 \<Rightarrow> u64 \<Rightarrow> u64 \<Rightarrow> u8 \<Rightarrow> cmplog_map \<Rightarrow> error + cmplog_map" where
  "trace_cmp pc arg_size arg1 arg2 arg1_is_const m = cmplog_instructions_checked (cmplog_key pc) arg_size arg1 arg2 arg1_is_const m"

fun trace_switch :: "u64 \<Rightarrow> nat \<Rightarrow> u8 \<Rightarrow> u64 \<Rightarrow> u64 list \<Rightarrow> cmplog_map \<Rightarrow> error + cmplog_map" where
  "trace_switch rt i bytes vl [] m = Ok m"
| "trace_switch rt i bytes vl (c # cs) m =
     bindR (cmplog_instructions_checked (cmplog_key (rt + of_nat i)) bytes c vl 1 m) (trace_switch rt (Suc i) bytes vl cs)"

section \<open>The reader\<close>

definition executions_for :: "cmplog_map \<Rightarrow> nat \<Rightarrow> error + nat" where
  "executions_for m idx = (case get_opt (cm_headers m) idx of None \<Rightarrow> Err Panic | Some h \<Rightarrow> Ok (unat (ch_hits h)))"

definition usable_executions_for :: "cmplog_map \<Rightarrow> nat \<Rightarrow> error + nat" where
  "usable_executions_for m idx = (case get_opt (cm_headers m) idx of None \<Rightarrow> Err Panic
   | Some h \<Rightarrow> Ok (if ch_kind h = CMPLOG_KIND_INS
        then if unat (ch_hits h) < CMPLOG_MAP_H then unat (ch_hits h) else CMPLOG_MAP_H
        else if unat (ch_hits h) < CMPLOG_MAP_RTN_H then unat (ch_hits h) else CMPLOG_MAP_RTN_H))"

definition row_u64 :: "u8 list \<Rightarrow> nat \<Rightarrow> u64" where
  "row_u64 row off = of_nat (le_val (take 8 (drop off row)))"

definition operand_value :: "u8 \<Rightarrow> u64 \<Rightarrow> u64 \<Rightarrow> bool \<Rightarrow> cmp_values option" where
  "operand_value shape v0 v1 c =
     (if shape = 1 then Some (CmpU8 (ucast v0) (ucast v1) c) else if shape = 2 then Some (CmpU16 (ucast v0) (ucast v1) c)
      else if shape = 4 then Some (CmpU32 (ucast v0) (ucast v1) c) else if shape = 8 then Some (CmpU64 v0 v1 c) else None)"

definition values_of :: "cmplog_map \<Rightarrow> nat \<Rightarrow> nat \<Rightarrow> error + cmp_values option" where
  "values_of m idx execution = (case (get_opt (cm_headers m) idx, get_opt (cm_rows m) idx) of
     (Some h, Some row) \<Rightarrow>
       if ch_kind h = CMPLOG_KIND_INS
       then if CMPLOG_MAP_H \<le> execution then Err Panic
         else let off = INS_SIZE * execution in
           Ok (operand_value (ch_shape h) (row_u64 row off) (row_u64 row (off + 8)) (row ! (off + 16) = 1))
       else if CMPLOG_MAP_RTN_H \<le> execution then Err Panic
         else let off = RTN_SIZE * execution in
           Ok (Some (CmpBytes \<lparr>cb_buf = take CMPLOG_RTN_LEN (drop off row), cb_len = of_nat CMPLOG_RTN_LEN\<rparr>
                 \<lparr>cb_buf = take CMPLOG_RTN_LEN (drop (off + CMPLOG_RTN_LEN) row), cb_len = of_nat CMPLOG_RTN_LEN\<rparr>))
   | _ \<Rightarrow> Err Panic)"

definition cmplog_reset :: "cmplog_map \<Rightarrow> cmplog_map" where
  "cmplog_reset m = m\<lparr>cm_headers := map (\<lambda>_. \<lparr>ch_hits = 0, ch_shape = 0, ch_kind = 0\<rparr>) (cm_headers m)\<rparr>"

section \<open>The metadata and the observer\<close>

definition to_u64_tuple :: "cmp_values \<Rightarrow> (u64 \<times> u64 \<times> bool) option" where
  "to_u64_tuple v = (case v of CmpU8 a b c \<Rightarrow> Some (ucast a, ucast b, c) | CmpU16 a b c \<Rightarrow> Some (ucast a, ucast b, c)
     | CmpU32 a b c \<Rightarrow> Some (ucast a, ucast b, c) | CmpU64 a b c \<Rightarrow> Some (a, b, c) | CmpBytes _ _ \<Rightarrow> None)"

definition is_numeric :: "cmp_values \<Rightarrow> bool" where
  "is_numeric v = (case v of CmpBytes _ _ \<Rightarrow> False | _ \<Rightarrow> True)"

text \<open>The counters \<open>increasing_v0\<close>, \<open>increasing_v1\<close>, \<open>decreasing_v0\<close>, \<open>decreasing_v1\<close>.\<close>

fun count_steps :: "cmp_values option \<Rightarrow> nat \<times> nat \<times> nat \<times> nat \<Rightarrow> cmp_values option list \<Rightarrow> nat \<times> nat \<times> nat \<times> nat" where
  "count_steps lst acc [] = acc"
| "count_steps lst acc (None # vs) = count_steps lst acc vs"
| "count_steps lst (i0, i1, d0, d1) (Some v # vs) = count_steps (Some v)
     (case (Option.bind lst to_u64_tuple, to_u64_tuple v) of
        (Some (l0, l1, _), Some (v0, v1, _)) \<Rightarrow>
          (if l0 + 1 = v0 then Suc i0 else i0, if l1 + 1 = v1 then Suc i1 else i1,
           if l0 - 1 = v0 then Suc d0 else d0, if l1 - 1 = v1 then Suc d1 else d1)
      | _ \<Rightarrow> (i0, i1, d0, d1)) vs"

definition is_loop :: "nat \<Rightarrow> cmp_values option list \<Rightarrow> bool" where
  "is_loop execs vs = (let (i0, i1, d0, d1) = count_steps None (0, 0, 0, 0) vs in
     execs - 2 \<le> i0 \<or> execs - 2 \<le> i1 \<or> execs - 2 \<le> d0 \<or> execs - 2 \<le> d1)"

definition values_at :: "cmplog_map \<Rightarrow> nat \<Rightarrow> error + cmp_values list" where
  "values_at m i = bindR (usable_executions_for m i) (\<lambda>execs.
     bindR (map_result (values_of m i) [0..<execs]) (\<lambda>vs.
       Ok (if 4 < execs \<and> is_loop execs vs then [] else List.map_filter id vs)))"

definition add_from :: "nat \<Rightarrow> cmplog_map \<Rightarrow> error + cmp_values list" where
  "add_from usable_count m = bindR (map_result (values_at m) [0..<usable_count]) (\<lambda>vss. Ok (concat vss))"

definition cmplog_pre_exec :: "cmplog_map \<Rightarrow> cmplog_map" where
  "cmplog_pre_exec m = (cmplog_reset m)\<lparr>cm_enabled := True\<rparr>"

definition cmplog_post_exec :: "bool \<Rightarrow> fuzz_state \<Rightarrow> cmplog_map \<Rightarrow> error + (fuzz_state \<times> cmplog_map)" where
  "cmplog_post_exec add_meta s m = (let m1 = m\<lparr>cm_enabled := False\<rparr> in
     if add_meta then bindR (add_from CMPLOG_MAP_W m1) (\<lambda>cs. Ok (s\<lparr>m_cmps := Some cs\<rparr>, m1))
     else Ok (s, m1))"

section \<open>Input-to-state replacement\<close>

definition as_slice :: "cmplog_bytes \<Rightarrow> error + u8 list" where
  "as_slice b = (if length (cb_buf b) < unat (cb_len b) then Err Panic else Ok (take (unat (cb_len b)) (cb_buf b)))"

text \<open>A loop over positions that stops at the first replacement.\<close>

fun scan :: "(nat \<Rightarrow> error + u8 list option) \<Rightarrow> nat list \<Rightarrow> u8 list \<Rightarrow> error + (mutation_result \<times> u8 list)" where
  "scan f [] bs = Ok (Skipped, bs)"
| "scan f (i # js) bs = bindR (f i) (\<lambda>r. case r of Some bs' \<Rightarrow> Ok (Mutated, bs') | None \<Rightarrow> scan f js bs)"

definition byte_at :: "u8 \<Rightarrow> u8 \<Rightarrow> bool \<Rightarrow> u8 list \<Rightarrow> nat \<Rightarrow> u8 list option" where
  "byte_at v1 v2 v1_is_const bs i =
     (if \<not> v1_is_const \<and> bs ! i = v1 then Some (bs[i := v2]) else if bs ! i = v2 then Some (bs[i := v1]) else None)"

definition int_at :: "nat \<Rightarrow> nat \<Rightarrow> nat \<Rightarrow> bool \<Rightarrow> u8 list \<Rightarrow> nat \<Rightarrow> u8 list option" where
  "int_at n v1 v2 v1_is_const bs i = (let v = le_val (take n (drop i bs)) in
     if \<not> v1_is_const \<and> v = v1 then Some (write_at i (to_le n v2) bs)
     else if \<not> v1_is_const \<and> swap_bytes n v = v1 then Some (write_at i (to_le n (swap_bytes n v2)) bs)
     else if v = v2 then Some (write_at i (to_le n v1) bs)
     else if swap_bytes n v = v2 then Some (write_at i (to_le n (swap_bytes n v1)) bs)
     else None)"

definition int_positions :: "nat \<Rightarrow> nat \<Rightarrow> u8 list \<Rightarrow> nat list" where
  "int_positions n off bs = (if n \<le> length bs then [off..<Suc (length bs - n)] else [])"

text \<open>The longest prefix of \<open>a\<close> at position \<open>i\<close>, replaced by as many bytes of \<open>b\<close>.\<close>

fun prefix_at :: "u8 list \<Rightarrow> u8 list \<Rightarrow> u8 list \<Rightarrow> nat \<Rightarrow> nat \<Rightarrow> error + u8 list option" where
  "prefix_at a b bs i 0 = Ok None"
| "prefix_at a b bs i (Suc n) =
     (if take (Suc n) a = take (Suc n) (drop i bs) then bindR (buffer_copy bs b 0 i (Suc n)) (\<lambda>bs'. Ok (Some bs'))
      else prefix_at a b bs i n)"

definition bytes_at :: "u8 list \<Rightarrow> u8 list \<Rightarrow> u8 list \<Rightarrow> nat \<Rightarrow> error + u8 list option" where
  "bytes_at a b bs i = bindR (prefix_at a b bs i (min (length a) (length bs - i))) (\<lambda>r. case r of Some bs' \<Rightarrow> Ok (Some bs')
     | None \<Rightarrow> prefix_at b a bs i (min (length b) (length bs - i)))"

definition i2s_apply :: "cmp_values \<Rightarrow> nat \<Rightarrow> u8 list \<Rightarrow> error + (mutation_result \<times> u8 list)" where
  "i2s_apply v off bs = (case v of
     CmpU8 v1 v2 c \<Rightarrow> scan (\<lambda>i. Ok (byte_at v1 v2 c bs i)) [off..<length bs] bs
   | CmpU16 v1 v2 c \<Rightarrow> scan (\<lambda>i. Ok (int_at 2 (unat v1) (unat v2) c bs i)) (int_positions 2 off bs) bs
   | CmpU32 v1 v2 c \<Rightarrow> scan (\<lambda>i. Ok (int_at 4 (unat v1) (unat v2) c bs i)) (int_positions 4 off bs) bs
   | CmpU64 v1 v2 c \<Rightarrow> scan (\<lambda>i. Ok (int_at 8 (unat v1) (unat v2) c bs i)) (int_positions 8 off bs) bs
   | CmpBytes a b \<Rightarrow> bindR (as_slice a) (\<lambda>a'. bindR (as_slice b) (\<lambda>b'. scan (bytes_at a' b' bs) [off..<length bs] bs)))"

definition i2s_rand_replace :: mutator where
  "i2s_rand_replace s bs =
     (if bs = [] then Ok (Skipped, s, bs)
      else case m_cmps s of None \<Rightarrow> Ok (Skipped, s, bs)
      | Some cs \<Rightarrow> if cs = [] then Ok (Skipped, s, bs)
          else let (idx, s1) = draw_below (length cs) s; (off, s2) = draw_below (length bs) s1 in
            case get_opt cs idx of None \<Rightarrow> Err Panic
            | Some v \<Rightarrow> bindR (i2s_apply v off bs) (\<lambda>(r, bs'). Ok (r, s2, bs')))"

section \<open>Reading back what was written\<close>

lemmas cmplog_consts = CMPLOG_MAP_H_def CMPLOG_MAP_RTN_H_def CMPLOG_RTN_LEN_def INS_SIZE_def RTN_SIZE_def CMPLOG_KIND_INS_def
  CMPLOG_KIND_RTN_def

definition cmplog_wf :: "cmplog_map \<Rightarrow> bool" where
  "cmplog_wf m \<longleftrightarrow> length (cm_headers m) = CMPLOG_MAP_W \<and> length (cm_rows m) = CMPLOG_MAP_W \<and> (\<forall>row \<in> set (cm_rows m). length row = 768)"

lemma cmplog_wf_default: "cmplog_wf cmplog_map_default"
  by (auto simp: cmplog_wf_def cmplog_map_default_def cmplog_consts)

lemma cmplog_key_less: "cmplog_key pc < CMPLOG_MAP_W"
proof -
  have "unat (x AND (65535 :: u64)) < 65536" for x
    using word_and_le1 [of x 65535] by (simp add: word_le_nat_alt)
  then show ?thesis by (simp add: cmplog_key_def CMPLOG_MAP_W_def)
qed

lemma take_drop_write_at:
  assumes "i + length ys \<le> length xs" "off + n \<le> i \<or> i + length ys \<le> off" "off + n \<le> length xs"
  shows "take n (drop off (write_at i ys xs)) = take n (drop off xs)"
proof (rule nth_equalityI)
  show "length (take n (drop off (write_at i ys xs))) = length (take n (drop off xs))" using assms by simp
  show "take n (drop off (write_at i ys xs)) ! j = take n (drop off xs) ! j" if "j < length (take n (drop off (write_at i ys xs)))" for j
    using that assms by (auto simp: nth_write_at)
qed

lemma take_drop_written:
  assumes "i + length ys \<le> length xs" "d + n \<le> length ys"
  shows "take n (drop (i + d) (write_at i ys xs)) = take n (drop d ys)"
proof (rule nth_equalityI)
  show "length (take n (drop (i + d) (write_at i ys xs))) = length (take n (drop d ys))" using assms by simp
  show "take n (drop (i + d) (write_at i ys xs)) ! j = take n (drop d ys) ! j" if "j < length (take n (drop (i + d) (write_at i ys xs)))" for j
    using that assms by (auto simp: nth_write_at)
qed

lemma store_ok:
  assumes "cmplog_wf m" "k < CMPLOG_MAP_W" "off + length ys \<le> 768"
  shows "store k h off ys m = Ok (m\<lparr>cm_headers := (cm_headers m)[k := h], cm_rows := (cm_rows m)[k := write_at off ys (cm_rows m ! k)]\<rparr>)"
  using assms by (auto simp: store_def cmplog_wf_def get_opt_def)

lemma store_wf:
  assumes "cmplog_wf m" "k < CMPLOG_MAP_W" "off + length ys \<le> 768"
  shows "cmplog_wf (m\<lparr>cm_headers := hs, cm_rows := (cm_rows m)[k := write_at off ys (cm_rows m ! k)]\<rparr>) \<longleftrightarrow> length hs = CMPLOG_MAP_W"
proof -
  have "length (cm_rows m ! k) = 768" using assms by (simp add: cmplog_wf_def)
  then have "length (write_at off ys (cm_rows m ! k)) = 768" using assms(3) by simp
  then show ?thesis using assms set_update_subset_insert [of "cm_rows m" k "write_at off ys (cm_rows m ! k)"] by (auto simp: cmplog_wf_def)
qed

subsection \<open>Instructions\<close>

lemma ins_slot: "unat (hits AND (of_nat CMPLOG_MAP_H - 1 :: u16)) = unat hits mod 32"
proof -
  have "hits AND 31 = take_bit 5 hits" by (simp add: take_bit_eq_mask mask_eq_exp_minus_1)
  moreover have "unat (take_bit 5 hits) = take_bit 5 (unat hits)" by (rule unsigned_take_bit_eq)
  ultimately show ?thesis by (simp add: CMPLOG_MAP_H_def take_bit_eq_mod [of 5 "unat hits"])
qed

definition ins_record :: "u8 list \<Rightarrow> nat \<Rightarrow> u64 \<times> u64 \<times> u8" where
  "ins_record row j = (row_u64 row (24 * j), row_u64 row (24 * j + 8), row ! (24 * j + 16))"

lemma of_nat_to_le: "(of_nat (le_val (to_le 8 (unat (x :: u64)))) :: u64) = x"
proof -
  have "unat x < 256 ^ 8" using unsigned_less [of x] by simp
  then show ?thesis by (simp add: le_val_to_le)
qed

lemma ins_record_write:
  assumes "length row = 768" "i < 32" "j < 32"
  shows "ins_record (write_at (24 * i) (to_le 8 (unat a) @ to_le 8 (unat b) @ [c]) row) j = (if j = i then (a, b, c) else ins_record row j)"
proof (cases "j = i")
  case True
  let ?ys = "to_le 8 (unat a) @ to_le 8 (unat b) @ [c]"
  have l: "24 * i + length ?ys \<le> length row" using assms by simp
  have "take 8 (drop (24 * i) (write_at (24 * i) ?ys row)) = to_le 8 (unat a)"
    "take 8 (drop (24 * i + 8) (write_at (24 * i) ?ys row)) = to_le 8 (unat b)"
    using take_drop_written [OF l, of 0 8] take_drop_written [OF l, of 8 8] by simp_all
  then show ?thesis using True l by (simp add: ins_record_def row_u64_def of_nat_to_le nth_write_at nth_append)
next
  case False
  let ?ys = "to_le 8 (unat a) @ to_le 8 (unat b) @ [c]"
  have l: "24 * i + length ?ys \<le> length row" using assms by simp
  have d: "24 * j + 17 \<le> 24 * i \<or> 24 * i + 17 \<le> 24 * j" using False by auto
  have "take 8 (drop (24 * j) (write_at (24 * i) ?ys row)) = take 8 (drop (24 * j) row)"
    "take 8 (drop (24 * j + 8) (write_at (24 * i) ?ys row)) = take 8 (drop (24 * j + 8) row)"
    using d assms by (auto intro!: take_drop_write_at [OF l])
  moreover have "write_at (24 * i) ?ys row ! (24 * j + 16) = row ! (24 * j + 16)"
    using nth_write_at [OF l, of "24 * j + 16"] d assms by auto
  ultimately show ?thesis using False by (simp add: ins_record_def row_u64_def)
qed

fun log_instructions :: "nat \<Rightarrow> u8 \<Rightarrow> (u64 \<times> u64 \<times> u8) list \<Rightarrow> cmplog_map \<Rightarrow> error + cmplog_map" where
  "log_instructions k shape [] m = Ok m"
| "log_instructions k shape ((a, b, c) # es) m = bindR (cmplog_instructions_checked k shape a b c m) (log_instructions k shape es)"

lemma log_instructions_append:
  "log_instructions k shape (xs @ ys) m = bindR (log_instructions k shape xs m) (log_instructions k shape ys)"
proof (induction k shape xs m rule: log_instructions.induct)
  case (2 k shape a b c es m)
  show ?case by (cases "cmplog_instructions_checked k shape a b c m") (simp_all add: 2)
qed simp

lemma instruction_ok:
  assumes "cmplog_wf m" "cm_enabled m" "k < CMPLOG_MAP_W" "cm_headers m ! k = \<lparr>ch_hits = h, ch_shape = s, ch_kind = 0\<rparr>"
  shows "cmplog_instructions_checked k shape a b c m = Ok (m\<lparr>
      cm_headers := (cm_headers m)[k := \<lparr>ch_hits = h + 1, ch_shape = if s < shape then shape else s, ch_kind = 0\<rparr>],
      cm_rows := (cm_rows m)[k := write_at (24 * (unat h mod 32)) (to_le 8 (unat a) @ to_le 8 (unat b) @ [c]) (cm_rows m ! k)]\<rparr>)"
proof -
  have "24 * (unat h mod 32) + length (to_le 8 (unat a) @ to_le 8 (unat b) @ [c]) \<le> 768" by simp
  from store_ok [OF assms(1,3) this] show ?thesis
    using assms by (simp add: cmplog_instructions_checked_def cmplog_wf_def get_opt_def count_hit_def ins_slot cmplog_consts(4,6) Let_def)
qed

text \<open>What the map holds at key \<open>k\<close> after the events \<open>es\<close>, and that it holds nothing new elsewhere.\<close>

definition ring_holds :: "nat \<Rightarrow> u8 \<Rightarrow> (u64 \<times> u64 \<times> u8) list \<Rightarrow> cmplog_map \<Rightarrow> cmplog_map \<Rightarrow> bool" where
  "ring_holds k shape es m m' \<longleftrightarrow> cmplog_wf m' \<and> cm_enabled m' \<and>
     cm_headers m' ! k = \<lparr>ch_hits = of_nat (length es), ch_shape = if es = [] then 0 else shape, ch_kind = 0\<rparr> \<and>
     (\<forall>i < length es. length es \<le> i + 32 \<longrightarrow> ins_record (cm_rows m' ! k) (i mod 32) = es ! i) \<and>
     (\<forall>k' < CMPLOG_MAP_W. k' \<noteq> k \<longrightarrow> cm_headers m' ! k' = cm_headers m ! k' \<and> cm_rows m' ! k' = cm_rows m ! k')"

lemma ring_step:
  assumes r: "ring_holds k shape es m m'" and k: "k < CMPLOG_MAP_W"
  shows "\<exists>m''. cmplog_instructions_checked k shape a b c m' = Ok m'' \<and> ring_holds k shape (es @ [(a, b, c)]) m m''"
proof -
  let ?n = "length es" and ?row = "cm_rows m' ! k" and ?ys = "to_le 8 (unat a) @ to_le 8 (unat b) @ [c]"
  let ?s = "if es = [] then 0 else shape"
  let ?m = "m'\<lparr>cm_headers := (cm_headers m')[k := \<lparr>ch_hits = of_nat ?n + 1, ch_shape = if ?s < shape then shape else ?s, ch_kind = 0\<rparr>],
      cm_rows := (cm_rows m')[k := write_at (24 * (?n mod 32)) ?ys ?row]\<rparr>"
  have w: "cmplog_wf m'" "cm_enabled m'" "cm_headers m' ! k = \<lparr>ch_hits = of_nat ?n, ch_shape = ?s, ch_kind = 0\<rparr>"
    using r by (simp_all add: ring_holds_def)
  have mod: "unat (of_nat ?n :: u16) mod 32 = ?n mod 32" by (simp add: unat_of_nat mod_mod_cancel)
  have len: "length ?row = 768" "length (cm_headers m') = CMPLOG_MAP_W" "length (cm_rows m') = CMPLOG_MAP_W"
    using w(1) k by (auto simp: cmplog_wf_def)
  have e: "cmplog_instructions_checked k shape a b c m' = Ok ?m" using instruction_ok [OF w(1,2) k w(3), of shape a b c] mod by simp
  have wf: "cmplog_wf ?m" using store_wf [OF w(1) k, of "24 * (?n mod 32)" ?ys] len by simp
  have rec: "ins_record (cm_rows ?m ! k) (i mod 32) = (es @ [(a, b, c)]) ! i" if i: "i < Suc ?n" "Suc ?n \<le> i + 32" for i
  proof (cases "i = ?n")
    case True
    then show ?thesis using ins_record_write [OF len(1), of "?n mod 32" "?n mod 32"] len k by simp
  next
    case False
    then have "i mod 32 \<noteq> ?n mod 32" using i mod_eq_dvd_iff_nat [of i ?n 32] by (auto dest!: dvd_imp_le)
    moreover have "ins_record ?row (i mod 32) = es ! i" using r False i by (simp add: ring_holds_def)
    ultimately show ?thesis using ins_record_write [OF len(1), of "?n mod 32" "i mod 32"] False i len k by (simp add: nth_append)
  qed
  have "(if ?s < shape then shape else ?s) = shape" using word_gt_0 [of shape] by (auto simp: not_less)
  then have "ring_holds k shape (es @ [(a, b, c)]) m ?m" using wf rec r w(2) len k unfolding ring_holds_def by (simp add: add.commute)
  then show ?thesis using e by blast
qed

lemma ring_all:
  assumes "cmplog_wf m" "cm_enabled m" "k < CMPLOG_MAP_W" "cm_headers m ! k = \<lparr>ch_hits = 0, ch_shape = 0, ch_kind = 0\<rparr>"
  shows "\<exists>m'. log_instructions k shape es m = Ok m' \<and> ring_holds k shape es m m'"
proof (induction es rule: rev_induct)
  case Nil
  then show ?case using assms by (simp add: ring_holds_def)
next
  case (snoc e es)
  obtain a b c where e: "e = (a, b, c)" by (cases e)
  from snoc obtain m' where m': "log_instructions k shape es m = Ok m'" "ring_holds k shape es m m'" by blast
  from ring_step [OF m'(2) assms(3), of a b c] obtain m'' where
    "cmplog_instructions_checked k shape a b c m' = Ok m''" "ring_holds k shape (es @ [(a, b, c)]) m m''" by blast
  then show ?case using m'(1) e by (simp add: log_instructions_append)
qed

subsection \<open>Routines\<close>

text \<open>The height of the routine rows is twelve, so masking with eleven never gives the slots 4 to 7.\<close>

lemma rtn_height: "CMPLOG_MAP_RTN_H = 12"
  by (simp add: cmplog_consts)

lemma and_11: "(n :: nat) AND 11 \<in> {0, 1, 2, 3, 8, 9, 10, 11}"
proof -
  have "n AND 11 = n AND (15 AND 11)" by simp
  also have "\<dots> = (n AND 15) AND 11" by (simp only: and.assoc)
  also have "n AND 15 = take_bit 4 n" by (simp add: take_bit_eq_mask mask_eq_exp_minus_1)
  finally have "n AND 11 = take_bit 4 n AND 11" .
  moreover have "take_bit 4 n < 16" using take_bit_nat_less_exp [of 4 n] by simp
  then have "take_bit 4 n \<in> set [0..<16]" by simp
  moreover have "\<forall>t \<in> set [0..<16]. t AND 11 \<in> {0, 1, 2, 3, 8, 9, 10, 11 :: nat}" by code_simp
  ultimately show ?thesis by metis
qed

lemma rtn_slot: "unat (hits AND (of_nat CMPLOG_MAP_RTN_H - 1 :: u16)) \<in> {0, 1, 2, 3, 8, 9, 10, 11}"
  using and_11 [of "unat hits"] by (simp add: rtn_height unsigned_and_eq)

fun log_routines :: "nat \<Rightarrow> (u8 list \<times> u8 list \<times> nat) list \<Rightarrow> cmplog_map \<Rightarrow> error + cmplog_map" where
  "log_routines k [] m = Ok m"
| "log_routines k ((p1, p2, len) # es) m = bindR (cmplog_routines_len k p1 p2 True True len m) (log_routines k es)"

definition slot_bytes :: "cmplog_map \<Rightarrow> nat \<Rightarrow> nat \<Rightarrow> u8 list" where
  "slot_bytes m k j = take 64 (drop (64 * j) (cm_rows m ! k))"

lemma routine_ok:
  assumes "cmplog_wf m" "cm_enabled m" "k < CMPLOG_MAP_W" "len \<le> length p1" "len \<le> length p2" "len \<le> 32"
    "count_hit 1 (of_nat len) (cm_headers m ! k) = (hits, h')"
  shows "\<exists>m'. cmplog_routines_len k p1 p2 True True len m = Ok m' \<and> cmplog_wf m' \<and> cm_enabled m' \<and> cm_headers m' ! k = h' \<and>
    (\<forall>j. 4 \<le> j \<and> j \<le> 7 \<longrightarrow> slot_bytes m' k j = slot_bytes m k j)"
proof -
  let ?slot = "unat (hits AND (of_nat CMPLOG_MAP_RTN_H - 1))"
  have sl: "?slot \<in> {0, 1, 2, 3, 8, 9, 10, 11}" by (rule rtn_slot)
  let ?r = "cm_rows m ! k"
  let ?r1 = "write_at (64 * ?slot) (take len p1) ?r" and ?hs = "(cm_headers m)[k := h']"
  let ?m1 = "m\<lparr>cm_headers := ?hs, cm_rows := (cm_rows m)[k := ?r1]\<rparr>"
  let ?m2 = "?m1\<lparr>cm_headers := ?hs, cm_rows := (cm_rows ?m1)[k := write_at (64 * ?slot + 32) (take len p2) (cm_rows ?m1 ! k)]\<rparr>"
  have o1: "64 * ?slot + length (take len p1) \<le> 768" and o2: "64 * ?slot + 32 + length (take len p2) \<le> 768" using sl assms(6) by auto
  have len: "length (cm_headers m) = CMPLOG_MAP_W" "length (cm_rows m) = CMPLOG_MAP_W" "length ?r = 768"
    using assms(1,3) by (auto simp: cmplog_wf_def)
  have w1: "cmplog_wf ?m1" using store_wf [OF assms(1,3) o1] len by simp
  have "cmplog_routines_len k p1 p2 True True len m = Ok ?m2"
    using assms len store_ok [OF assms(1,3) o1, of h'] store_ok [OF w1 assms(3) o2, of h']
    by (simp add: cmplog_routines_len_def cmplog_routines_checked_def get_opt_def cmplog_consts(3,5,7) Let_def)
  moreover have "cmplog_wf ?m2" using store_wf [OF w1 assms(3) o2, of ?hs] len by simp
  moreover have "slot_bytes ?m2 k j = slot_bytes m k j" if j: "4 \<le> j" "j \<le> 7" for j
  proof -
    have r1: "length ?r1 = 768" using len(3) o1 by simp
    have d: "64 * j + 64 \<le> 64 * ?slot \<or> 64 * ?slot + 64 \<le> 64 * j" using sl j by auto
    have "take 64 (drop (64 * j) (write_at (64 * ?slot + 32) (take len p2) ?r1)) = take 64 (drop (64 * j) ?r1)"
      by (rule take_drop_write_at) (use d o2 r1 j assms(5,6) in auto)
    also have "\<dots> = take 64 (drop (64 * j) ?r)" by (rule take_drop_write_at) (use d o1 len(3) j assms(4,6) in auto)
    finally show ?thesis using assms(3) len by (simp add: slot_bytes_def)
  qed
  ultimately show ?thesis using assms(2,3) len by (intro exI [of _ ?m2]) auto
qed

lemma routines_all:
  assumes "cmplog_wf m" "cm_enabled m" "k < CMPLOG_MAP_W" "\<forall>(p1, p2, len) \<in> set es. len \<le> length p1 \<and> len \<le> length p2 \<and> len \<le> 32"
    "ch_kind (cm_headers m ! k) = 1 \<and> ch_hits (cm_headers m ! k) = of_nat n \<or> n = 0 \<and> ch_kind (cm_headers m ! k) = 0 \<and> ch_hits (cm_headers m ! k) = 0"
  shows "\<exists>m'. log_routines k es m = Ok m' \<and> cmplog_wf m' \<and> ch_hits (cm_headers m' ! k) = of_nat (n + length es) \<and>
    (es \<noteq> [] \<longrightarrow> ch_kind (cm_headers m' ! k) = 1) \<and> (\<forall>j. 4 \<le> j \<and> j \<le> 7 \<longrightarrow> slot_bytes m' k j = slot_bytes m k j)"
  using assms
proof (induction es arbitrary: m n)
  case (Cons e es)
  obtain p1 p2 len where e: "e = (p1, p2, len)" by (cases e)
  obtain hits h' where c: "count_hit 1 (of_nat len) (cm_headers m ! k) = (hits, h')" by fastforce
  have h: "ch_kind h' = 1" "ch_hits h' = of_nat (Suc n)" using c Cons.prems(5) by (auto simp: count_hit_def split: if_splits)
  from Cons.prems(4) e have l: "len \<le> length p1" "len \<le> length p2" "len \<le> 32" by auto
  from routine_ok [OF Cons.prems(1-3) l c] obtain m1 where m1: "cmplog_routines_len k p1 p2 True True len m = Ok m1" "cmplog_wf m1" "cm_enabled m1"
    "cm_headers m1 ! k = h'" "\<forall>j. 4 \<le> j \<and> j \<le> 7 \<longrightarrow> slot_bytes m1 k j = slot_bytes m k j" by blast
  from Cons.IH [OF m1(2,3) Cons.prems(3), of "Suc n"] Cons.prems(4) h m1(4) obtain m' where m': "log_routines k es m1 = Ok m'" "cmplog_wf m'"
    "ch_hits (cm_headers m' ! k) = of_nat (Suc n + length es)" "es \<noteq> [] \<longrightarrow> ch_kind (cm_headers m' ! k) = 1"
    "\<forall>j. 4 \<le> j \<and> j \<le> 7 \<longrightarrow> slot_bytes m' k j = slot_bytes m1 k j" by auto
  have "ch_kind (cm_headers m' ! k) = 1" using m'(1,4) m1(4) h(1) by (cases "es = []") auto
  then show ?case using e m1 m' by simp
qed auto

section \<open>The metadata\<close>

lemma map_result_all:
  "(\<And>x. x \<in> set xs \<Longrightarrow> \<exists>y. f x = Ok y \<and> P y) \<Longrightarrow> \<exists>ys. map_result f xs = Ok ys \<and> length ys = length xs \<and> (\<forall>y \<in> set ys. P y)"
proof (induction xs)
  case (Cons x xs)
  from Cons.prems [of x] obtain y where y: "f x = Ok y" "P y" by auto
  from Cons obtain ys where "map_result f xs = Ok ys" "length ys = length xs" "\<forall>y \<in> set ys. P y" by auto
  with y show ?case by auto
qed simp

lemma usable_ok: "cmplog_wf m \<Longrightarrow> k < CMPLOG_MAP_W \<Longrightarrow> \<exists>n \<le> 32. usable_executions_for m k = Ok n"
  by (auto simp: usable_executions_for_def get_opt_def cmplog_wf_def cmplog_consts)

lemma operand_value_ok: "operand_value shape a b c = Some v \<Longrightarrow> cmp_ok v"
  by (auto simp: operand_value_def cmp_ok_def split: if_splits)

lemma values_of_ok:
  assumes "cmplog_wf m" "k < CMPLOG_MAP_W" "usable_executions_for m k = Ok n" "j < n"
  shows "\<exists>v. values_of m k j = Ok v \<and> (\<forall>w. v = Some w \<longrightarrow> cmp_ok w)"
proof -
  have h: "get_opt (cm_headers m) k = Some (cm_headers m ! k)" "get_opt (cm_rows m) k = Some (cm_rows m ! k)" "length (cm_rows m ! k) = 768"
    using assms(1,2) by (auto simp: get_opt_def cmplog_wf_def)
  show ?thesis
  proof (cases "ch_kind (cm_headers m ! k) = CMPLOG_KIND_INS")
    case True
    then have "j < CMPLOG_MAP_H" using assms(3,4) h by (auto simp: usable_executions_for_def split: if_splits)
    then show ?thesis using True h operand_value_ok by (auto simp: values_of_def Let_def)
  next
    case False
    then have "j < CMPLOG_MAP_RTN_H" using assms(3,4) h by (auto simp: usable_executions_for_def split: if_splits)
    then show ?thesis using False h(1,2) h(3) by (auto simp: values_of_def cmp_ok_def Let_def cmplog_consts)
  qed
qed

lemma map_filter_id: "x \<in> set (List.map_filter id vs) \<longleftrightarrow> Some x \<in> set vs"
  by (induction vs) (auto simp: List.map_filter_simps split: option.splits)

lemma length_map_filter_id: "length (List.map_filter id vs) \<le> length vs"
  by (induction vs) (auto simp: List.map_filter_simps split: option.splits)

lemma values_at_ok:
  assumes "cmplog_wf m" "k < CMPLOG_MAP_W"
  shows "\<exists>vs. values_at m k = Ok vs \<and> length vs \<le> 32 \<and> list_all cmp_ok vs"
proof -
  obtain n where n: "n \<le> 32" "usable_executions_for m k = Ok n" using usable_ok [OF assms] by blast
  have "\<exists>vs. map_result (values_of m k) [0..<n] = Ok vs \<and> length vs = length [0..<n] \<and> (\<forall>v \<in> set vs. \<forall>w. v = Some w \<longrightarrow> cmp_ok w)"
    by (rule map_result_all) (use values_of_ok [OF assms n(2)] in simp)
  then obtain vs where vs: "map_result (values_of m k) [0..<n] = Ok vs" "length vs = n" "\<forall>v \<in> set vs. \<forall>w. v = Some w \<longrightarrow> cmp_ok w" by auto
  then show ?thesis using n length_map_filter_id [of vs] by (auto simp: values_at_def list_all_iff map_filter_id)
qed

lemma length_concat_le: "(\<forall>xs \<in> set xss. length xs \<le> n) \<Longrightarrow> length (concat xss) \<le> n * length xss"
  by (induction xss) auto

lemma add_from_ok:
  assumes "cmplog_wf m"
  shows "\<exists>cs. add_from CMPLOG_MAP_W m = Ok cs \<and> length cs \<le> 32 * CMPLOG_MAP_W \<and> list_all cmp_ok cs"
proof -
  have "\<exists>vss. map_result (values_at m) [0..<CMPLOG_MAP_W] = Ok vss \<and> length vss = length [0..<CMPLOG_MAP_W] \<and>
      (\<forall>vs \<in> set vss. length vs \<le> 32 \<and> list_all cmp_ok vs)"
    by (rule map_result_all) (use values_at_ok [OF assms] in auto)
  then obtain vss where v: "map_result (values_at m) [0..<CMPLOG_MAP_W] = Ok vss" "length vss = CMPLOG_MAP_W"
    "\<forall>vs \<in> set vss. length vs \<le> 32 \<and> list_all cmp_ok vs" by auto
  then show ?thesis using length_concat_le [of vss 32] by (auto simp: add_from_def list_all_iff)
qed

section \<open>Replacement\<close>

text \<open>The mutator puts one side of a comparison in the place of the other, in either byte order; a
  constant first side is never looked for.\<close>

definition int_replaces :: "nat \<Rightarrow> nat \<Rightarrow> nat \<Rightarrow> bool \<Rightarrow> u8 list \<Rightarrow> u8 list \<Rightarrow> bool" where
  "int_replaces n a b c old new \<longleftrightarrow>
     \<not> c \<and> (old = to_le n a \<and> new = to_le n b \<or> old = rev (to_le n a) \<and> new = rev (to_le n b)) \<or>
     old = to_le n b \<and> new = to_le n a \<or> old = rev (to_le n b) \<and> new = rev (to_le n a)"

definition slice_of :: "cmplog_bytes \<Rightarrow> u8 list" where
  "slice_of b = take (unat (cb_len b)) (cb_buf b)"

definition replaces :: "cmp_values \<Rightarrow> u8 list \<Rightarrow> u8 list \<Rightarrow> bool" where
  "replaces v old new = (case v of
     CmpU8 a b c \<Rightarrow> \<not> c \<and> old = [a] \<and> new = [b] \<or> old = [b] \<and> new = [a]
   | CmpU16 a b c \<Rightarrow> int_replaces 2 (unat a) (unat b) c old new
   | CmpU32 a b c \<Rightarrow> int_replaces 4 (unat a) (unat b) c old new
   | CmpU64 a b c \<Rightarrow> int_replaces 8 (unat a) (unat b) c old new
   | CmpBytes a b \<Rightarrow> \<exists>n > 0. old = take n (slice_of a) \<and> new = take n (slice_of b) \<or> old = take n (slice_of b) \<and> new = take n (slice_of a))"

definition replaced :: "cmp_values \<Rightarrow> u8 list \<Rightarrow> u8 list \<Rightarrow> bool" where
  "replaced v bs bs' \<longleftrightarrow> (\<exists>i w. bs' = write_at i w bs \<and> i + length w \<le> length bs \<and> replaces v (take (length w) (drop i bs)) w)"

lemma scan_ok:
  "(\<And>i. i \<in> set js \<Longrightarrow> \<exists>r. f i = Ok r \<and> (\<forall>bs'. r = Some bs' \<longrightarrow> Q bs')) \<Longrightarrow>
     \<exists>r bs'. scan f js bs = Ok (r, bs') \<and> (r = Skipped \<and> bs' = bs \<or> r = Mutated \<and> Q bs')"
proof (induction js)
  case (Cons i js)
  from Cons.prems [of i] obtain r where r: "f i = Ok r" "\<forall>bs'. r = Some bs' \<longrightarrow> Q bs'" by auto
  show ?case
  proof (cases r)
    case None
    then show ?thesis using r Cons by simp
  next
    case (Some bs')
    then show ?thesis using r by simp
  qed
qed simp

lemma rev_to_le: "to_le n (swap_bytes n v) = rev (to_le n v)"
  by (metis rev_to_le_swap rev_rev_ident)

lemma int_at_ok:
  assumes "int_at n a b c bs i = Some bs'" "i + n \<le> length bs"
  shows "\<exists>w. bs' = write_at i w bs \<and> length w = n \<and> int_replaces n a b c (take n (drop i bs)) w"
proof -
  let ?o = "take n (drop i bs)"
  have l: "length ?o = n" using assms(2) by simp
  have o: "?o = to_le n (le_val ?o)" using to_le_le_val [of ?o] l by simp
  have s: "?o = rev (to_le n (swap_bytes n (le_val ?o)))"
    using to_le_le_val [of "rev ?o"] swap_bytes_le_val [OF l] l by (metis length_rev rev_rev_ident)
  have "\<exists>w. bs' = write_at i w bs \<and> length w = n \<and> (\<not> c \<and> (le_val ?o = a \<and> w = to_le n b \<or> swap_bytes n (le_val ?o) = a \<and> w = rev (to_le n b)) \<or>
      le_val ?o = b \<and> w = to_le n a \<or> swap_bytes n (le_val ?o) = b \<and> w = rev (to_le n a))"
    using assms(1) unfolding int_at_def Let_def rev_to_le by (auto split: if_splits)
  then obtain w where w: "bs' = write_at i w bs" "length w = n" "\<not> c \<and> (le_val ?o = a \<and> w = to_le n b \<or> swap_bytes n (le_val ?o) = a \<and> w = rev (to_le n b)) \<or>
      le_val ?o = b \<and> w = to_le n a \<or> swap_bytes n (le_val ?o) = b \<and> w = rev (to_le n a)" by blast
  have "int_replaces n a b c ?o w" using w(3) o s unfolding int_replaces_def by metis
  then show ?thesis using w(1,2) by blast
qed

lemma int_scan_ok:
  assumes "\<And>old new. replaces v old new \<longleftrightarrow> int_replaces n a b c old new"
  shows "\<exists>r bs'. scan (\<lambda>i. Ok (int_at n a b c bs i)) (int_positions n off bs) bs = Ok (r, bs') \<and> (r = Skipped \<and> bs' = bs \<or> r = Mutated \<and> replaced v bs bs')"
proof (rule scan_ok)
  fix i assume "i \<in> set (int_positions n off bs)"
  then have i: "i + n \<le> length bs" by (auto simp: int_positions_def split: if_splits)
  have "replaced v bs bs'" if e: "int_at n a b c bs i = Some bs'" for bs'
  proof -
    from int_at_ok [OF e i] obtain w where "bs' = write_at i w bs" "length w = n" "int_replaces n a b c (take n (drop i bs)) w" by blast
    then show ?thesis using assms i by (auto simp: replaced_def)
  qed
  then show "\<exists>r. Ok (int_at n a b c bs i) = Ok r \<and> (\<forall>bs'. r = Some bs' \<longrightarrow> replaced v bs bs')" by auto
qed

lemma byte_scan_ok:
  "\<exists>r bs'. scan (\<lambda>i. Ok (byte_at a b c bs i)) [off..<length bs] bs = Ok (r, bs') \<and>
     (r = Skipped \<and> bs' = bs \<or> r = Mutated \<and> replaced (CmpU8 a b c) bs bs')"
proof (rule scan_ok)
  fix i assume "i \<in> set [off..<length bs]"
  then have i: "i < length bs" by simp
  have "write_at i [x] bs = bs[i := x]" "take 1 (drop i bs) = [bs ! i]" for x
    using i by (simp_all add: write_at_def upd_conv_take_nth_drop take_Suc_conv_app_nth hd_drop_conv_nth take_Suc)
  then have "replaced (CmpU8 a b c) bs (bs[i := y])" if "\<not> c \<and> bs ! i = a \<and> y = b \<or> bs ! i = b \<and> y = a" for y
    using that i unfolding replaced_def replaces_def by (intro exI [of _ i] exI [of _ "[y]"]) auto
  then show "\<exists>r. Ok (byte_at a b c bs i) = Ok r \<and> (\<forall>bs'. r = Some bs' \<longrightarrow> replaced (CmpU8 a b c) bs bs')" by (auto simp: byte_at_def)
qed

lemma prefix_at_ok:
  assumes "length a = length b" "i < length bs" "n \<le> length a" "n \<le> length bs - i"
  shows "\<exists>r. prefix_at a b bs i n = Ok r \<and> (\<forall>bs'. r = Some bs' \<longrightarrow>
    (\<exists>k > 0. bs' = write_at i (take k b) bs \<and> k \<le> length b \<and> i + k \<le> length bs \<and> take k a = take k (drop i bs)))"
  using assms(3,4)
proof (induction n)
  case (Suc n)
  show ?case
  proof (cases "take (Suc n) a = take (Suc n) (drop i bs)")
    case True
    have "b \<noteq> []" "bs \<noteq> []" "Suc n \<le> length b" "i + Suc n \<le> length bs" using Suc.prems assms(1,2) by auto
    then have "buffer_copy bs b 0 i (Suc n) = Ok (write_at i (take (Suc n) b) bs)" using buffer_copy_Ok [of bs b 0 "Suc n" i] by simp
    then show ?thesis using True \<open>Suc n \<le> length b\<close> \<open>i + Suc n \<le> length bs\<close> by auto
  next
    case False
    then show ?thesis using Suc by simp
  qed
qed simp

lemma bytes_scan_ok:
  assumes "cmp_ok (CmpBytes a b)"
  shows "\<exists>r bs'. scan (bytes_at (slice_of a) (slice_of b) bs) [off..<length bs] bs = Ok (r, bs') \<and>
    (r = Skipped \<and> bs' = bs \<or> r = Mutated \<and> replaced (CmpBytes a b) bs bs')"
proof (rule scan_ok)
  let ?a = "slice_of a" and ?b = "slice_of b"
  have len: "length ?a = length ?b" using assms by (auto simp: cmp_ok_def slice_of_def min_def)
  have rep: "replaced (CmpBytes a b) bs (write_at i (take k y) bs)"
    if "k > 0" "k \<le> length y" "i + k \<le> length bs" "take k x = take k (drop i bs)" "x = ?a \<and> y = ?b \<or> x = ?b \<and> y = ?a" for i k x y
    using that unfolding replaced_def replaces_def by (intro exI [of _ i] exI [of _ "take k y"]) (auto simp: min_absorb2)
  fix i assume "i \<in> set [off..<length bs]"
  then have i: "i < length bs" by simp
  obtain r1 where r1: "prefix_at ?a ?b bs i (min (length ?a) (length bs - i)) = Ok r1" "\<forall>bs'. r1 = Some bs' \<longrightarrow> replaced (CmpBytes a b) bs bs'"
    using prefix_at_ok [OF len i, of "min (length ?a) (length bs - i)"] rep by fastforce
  obtain r2 where r2: "prefix_at ?b ?a bs i (min (length ?b) (length bs - i)) = Ok r2" "\<forall>bs'. r2 = Some bs' \<longrightarrow> replaced (CmpBytes a b) bs bs'"
    using prefix_at_ok [OF len [symmetric] i, of "min (length ?b) (length bs - i)"] rep by fastforce
  show "\<exists>r. bytes_at ?a ?b bs i = Ok r \<and> (\<forall>bs'. r = Some bs' \<longrightarrow> replaced (CmpBytes a b) bs bs')"
    using r1 r2 by (cases r1) (auto simp: bytes_at_def)
qed

lemma i2s_apply_ok:
  assumes "cmp_ok v"
  shows "\<exists>r bs'. i2s_apply v off bs = Ok (r, bs') \<and> (r = Skipped \<and> bs' = bs \<or> r = Mutated \<and> replaced v bs bs')"
proof (cases v)
  case (CmpBytes a b)
  then have "as_slice a = Ok (slice_of a)" "as_slice b = Ok (slice_of b)" using assms by (auto simp: as_slice_def slice_of_def cmp_ok_def)
  then show ?thesis using bytes_scan_ok [OF assms [unfolded CmpBytes], of bs off] CmpBytes by (simp add: i2s_apply_def)
next
  case (CmpU16 a b c)
  show ?thesis using int_scan_ok [of v 2 "unat a" "unat b" c bs off] CmpU16 by (simp add: i2s_apply_def replaces_def)
next
  case (CmpU32 a b c)
  show ?thesis using int_scan_ok [of v 4 "unat a" "unat b" c bs off] CmpU32 by (simp add: i2s_apply_def replaces_def)
next
  case (CmpU64 a b c)
  show ?thesis using int_scan_ok [of v 8 "unat a" "unat b" c bs off] CmpU64 by (simp add: i2s_apply_def replaces_def)
qed (use byte_scan_ok in \<open>simp add: i2s_apply_def\<close>)

lemma i2s_effect:
  assumes "mut_pre ms s" "length bs \<le> ms"
  shows "\<exists>r s' bs'. i2s_rand_replace s bs = Ok (r, s', bs') \<and> only_rand s s' \<and>
    (r = Skipped \<and> bs' = bs \<or> r = Mutated \<and> (\<exists>cs v. m_cmps s = Some cs \<and> v \<in> set cs \<and> replaced v bs bs'))"
proof (cases "bs = [] \<or> m_cmps s = None \<or> m_cmps s = Some []")
  case True
  then show ?thesis by (auto simp: i2s_rand_replace_def)
next
  case False
  then obtain cs where cs: "m_cmps s = Some cs" "cs \<noteq> []" "bs \<noteq> []" by auto
  then have c: "length cs < 2 ^ 64" "list_all cmp_ok cs" "length bs < 2 ^ 64" using assms by (auto simp: mut_pre_def)
  obtain idx s1 where d1: "draw_below (length cs) s = (idx, s1)" by fastforce
  obtain off s2 where d2: "draw_below (length bs) s1 = (off, s2)" by fastforce
  have o: "idx < length cs" "only_rand s s1" "only_rand s1 s2" using draw_below_ok [OF d1] draw_below_ok [OF d2] cs c by auto
  then have "cmp_ok (cs ! idx)" using c(2) by (simp add: list_all_length)
  from i2s_apply_ok [OF this, of off bs] obtain r bs' where r: "i2s_apply (cs ! idx) off bs = Ok (r, bs')"
    "r = Skipped \<and> bs' = bs \<or> r = Mutated \<and> replaced (cs ! idx) bs bs'" by blast
  have "i2s_rand_replace s bs = Ok (r, s2, bs')" using cs d1 d2 o(1) r(1) by (simp add: i2s_rand_replace_def get_opt_def)
  moreover have "cs ! idx \<in> set cs" using o(1) by simp
  ultimately show ?thesis using only_rand_trans [OF o(2,3)] r(2) cs(1) by blast
qed

lemma i2s_ok: "mutator_ok ms i2s_rand_replace"
proof (rule mutator_okI)
  fix s and bs :: "u8 list" assume p: "mut_pre ms s" and a: "length bs \<le> ms"
  from i2s_effect [OF p a] obtain r s' bs' where e: "i2s_rand_replace s bs = Ok (r, s', bs')" "only_rand s s'"
    "r = Skipped \<and> bs' = bs \<or> r = Mutated \<and> (\<exists>i w. bs' = write_at i w bs \<and> i + length w \<le> length bs)" unfolding replaced_def by blast
  then show "mut_post ms s bs (i2s_rand_replace s bs)" using mut_post_skip [OF a e(2)] write_ok [OF a e(2)] by auto
qed

interpretation i2s: mutator_set "[i2s_rand_replace]" ms for ms
  by unfold_locales (simp_all add: i2s_ok)

lemma pre_exec_header: "cmplog_wf m \<Longrightarrow> k < CMPLOG_MAP_W \<Longrightarrow> cm_headers (cmplog_pre_exec m) ! k = \<lparr>ch_hits = 0, ch_shape = 0, ch_kind = 0\<rparr>"
  by (simp add: cmplog_pre_exec_def cmplog_reset_def cmplog_wf_def)

lemma pre_exec_wf: "cmplog_wf m \<Longrightarrow> cmplog_wf (cmplog_pre_exec m) \<and> cm_enabled (cmplog_pre_exec m) \<and> cm_rows (cmplog_pre_exec m) = cm_rows m"
  by (simp add: cmplog_pre_exec_def cmplog_reset_def cmplog_wf_def)

section \<open>Properties\<close>

text \<open>C30. The log of compare instructions is a ring of 32 entries: after any sequence of comparisons of
  one size at one key, the reader sees the number of comparisons (up to the wrap-around of the 16-bit
  counter), reports at most 32 of them as usable, and finds the last ones with exactly their operands and
  their constant flag, each in the slot of its number modulo 32. All other keys report nothing.\<close>

theorem cmplog_ring_correct:
  assumes "cmplog_wf m" "k < CMPLOG_MAP_W"
  shows "\<exists>m'. log_instructions k shape es (cmplog_pre_exec m) = Ok m' \<and> executions_for m' k = Ok (length es mod 2 ^ 16) \<and>
    (length es < 2 ^ 16 \<longrightarrow> usable_executions_for m' k = Ok (min (length es) 32)) \<and>
    (\<forall>i < length es. length es \<le> i + 32 \<longrightarrow>
       values_of m' k (i mod 32) = Ok (operand_value shape (fst (es ! i)) (fst (snd (es ! i))) (snd (snd (es ! i)) = 1))) \<and>
    (\<forall>k' < CMPLOG_MAP_W. k' \<noteq> k \<longrightarrow> usable_executions_for m' k' = Ok 0)"
proof -
  note w = pre_exec_wf [OF assms(1)]
  from ring_all [OF conjunct1 [OF w] _ assms(2) pre_exec_header [OF assms]] w
  obtain m' where m': "log_instructions k shape es (cmplog_pre_exec m) = Ok m'" "ring_holds k shape es (cmplog_pre_exec m) m'" by blast
  note r = m'(2) [unfolded ring_holds_def]
  have g: "get_opt (cm_headers m') k' = Some (cm_headers m' ! k')" "get_opt (cm_rows m') k' = Some (cm_rows m' ! k')" if "k' < CMPLOG_MAP_W" for k'
    using r that by (simp_all add: cmplog_wf_def get_opt_def)
  have "executions_for m' k = Ok (length es mod 2 ^ 16)" using r g assms(2) by (simp add: executions_for_def unat_of_nat)
  moreover have "length es < 2 ^ 16 \<longrightarrow> usable_executions_for m' k = Ok (min (length es) 32)"
    using r g assms(2) by (simp add: usable_executions_for_def unat_of_nat cmplog_consts min_def)
  moreover have "values_of m' k (i mod 32) = Ok (operand_value shape (fst (es ! i)) (fst (snd (es ! i))) (snd (snd (es ! i)) = 1))"
    if i: "i < length es" "length es \<le> i + 32" for i
  proof -
    have "ins_record (cm_rows m' ! k) (i mod 32) = es ! i" "es \<noteq> []" using r i by auto
    moreover obtain a b c where "es ! i = (a, b, c)" by (cases "es ! i")
    ultimately show ?thesis using r g [OF assms(2)] by (simp add: values_of_def ins_record_def cmplog_consts Let_def)
  qed
  moreover have "usable_executions_for m' k' = Ok 0" if k': "k' < CMPLOG_MAP_W" "k' \<noteq> k" for k'
    using r g [OF k'(1)] pre_exec_header [OF assms(1) k'(1)] k' by (simp add: usable_executions_for_def cmplog_consts)
  ultimately show ?thesis using m'(1) by blast
qed

theorem cmplog_ring_correct_witness:
  "\<exists>m'. log_instructions 5 4 [(1, 2, 0), (3, 4, 1)] (cmplog_pre_exec cmplog_map_default) = Ok m' \<and> executions_for m' 5 = Ok 2"
  using cmplog_ring_correct [OF cmplog_wf_default, of 5 4 "[(1, 2, 0), (3, 4, 1)]"] by (auto simp: CMPLOG_MAP_W_def)

text \<open>C31. The log of compared routine arguments has a gap: a row has room for twelve records and the
  reader reports twelve after twelve calls, but the writer masks its counter with eleven, which is no power
  of two minus one. The slots 4 to 7 are never written, and what the reader reports there is whatever the
  memory of the row held before the run.\<close>

theorem cmplog_routines_gap:
  assumes "cmplog_wf m" "k < CMPLOG_MAP_W" "12 \<le> length es" "length es < 2 ^ 16"
    "\<forall>(p1, p2, len) \<in> set es. len \<le> length p1 \<and> len \<le> length p2 \<and> len \<le> 32"
  shows "\<exists>m'. log_routines k es (cmplog_pre_exec m) = Ok m' \<and> usable_executions_for m' k = Ok 12 \<and>
    (\<forall>j \<in> {4, 5, 6, 7}. values_of m' k j = Ok (Some (CmpBytes \<lparr>cb_buf = take 32 (slot_bytes m k j), cb_len = 32\<rparr>
       \<lparr>cb_buf = drop 32 (slot_bytes m k j), cb_len = 32\<rparr>)))"
proof -
  note w = pre_exec_wf [OF assms(1)]
  from routines_all [OF conjunct1 [OF w] _ assms(2,5), of 0] w pre_exec_header [OF assms(1,2)] assms(3)
  obtain m' where m': "log_routines k es (cmplog_pre_exec m) = Ok m'" "cmplog_wf m'" "ch_hits (cm_headers m' ! k) = of_nat (length es)"
    "ch_kind (cm_headers m' ! k) = 1" "\<forall>j. 4 \<le> j \<and> j \<le> 7 \<longrightarrow> slot_bytes m' k j = slot_bytes (cmplog_pre_exec m) k j" by fastforce
  have g: "get_opt (cm_headers m') k = Some (cm_headers m' ! k)" "get_opt (cm_rows m') k = Some (cm_rows m' ! k)" "length (cm_rows m' ! k) = 768"
    using m'(2) assms(2) by (auto simp: cmplog_wf_def get_opt_def)
  have "usable_executions_for m' k = Ok 12" using g m'(3,4) assms(3,4) by (simp add: usable_executions_for_def rtn_height unat_of_nat CMPLOG_KIND_INS_def)
  moreover have "values_of m' k j = Ok (Some (CmpBytes \<lparr>cb_buf = take 32 (slot_bytes m k j), cb_len = 32\<rparr>
       \<lparr>cb_buf = drop 32 (slot_bytes m k j), cb_len = 32\<rparr>))" if j: "4 \<le> j" "j \<le> 7" for j
  proof -
    have s: "slot_bytes m' k j = slot_bytes m k j" using m'(5) j w by (simp add: slot_bytes_def)
    have "take 32 (drop (64 * j) (cm_rows m' ! k)) = take 32 (slot_bytes m' k j)" by (simp add: slot_bytes_def)
    moreover have "take 32 (drop (64 * j + 32) (cm_rows m' ! k)) = drop 32 (slot_bytes m' k j)"
      by (simp add: slot_bytes_def drop_take add.commute)
    ultimately show ?thesis using g(1,2) m'(4) j s by (simp add: values_of_def rtn_height cmplog_consts(3,5,6) Let_def)
  qed
  ultimately show ?thesis using m'(1) by (intro exI [of _ m']) auto
qed

theorem cmplog_routines_gap_witness:
  "\<exists>m'. log_routines 5 (replicate 12 ([7, 7], [8, 8], 2)) (cmplog_pre_exec cmplog_map_default) = Ok m' \<and> usable_executions_for m' 5 = Ok 12"
  using cmplog_routines_gap [OF cmplog_wf_default, of 5 "replicate 12 ([7, 7], [8, 8], 2)"] by (auto simp: CMPLOG_MAP_W_def)



end
