(* ===== verification/Token_Mutations.thy ===== *)
theory Token_Mutations
  imports Mutations
begin

text \<open>
  The dictionary of \<open>libafl/src/mutators/token_mutations.rs\<close>: the token store with its two sources, the
  automatic dictionary section of the target and dictionary files, and the mutators that insert a token or
  write one over the input. A line of a file is the list of its characters as code points; the file itself
  and its decoding into lines are parameters. The vector and the hash set of the store hold the same tokens.
\<close>

section \<open>The token store\<close>

definition tokens_default :: tokens where
  "tokens_default = \<lparr>tokens_vec = [], tokens_set = {}\<rparr>"

definition add_token :: "u8 list \<Rightarrow> tokens \<Rightarrow> bool \<times> tokens" where
  "add_token token t = (if token \<in> tokens_set t then (False, t)
     else (True, \<lparr>tokens_vec = tokens_vec t @ [token], tokens_set = insert token (tokens_set t)\<rparr>))"

definition add_tokens :: "u8 list list \<Rightarrow> tokens \<Rightarrow> tokens" where
  "add_tokens toks t = fold (\<lambda>w t. snd (add_token w t)) toks t"

text \<open>The loop of \<open>parse_autodict\<close>: a length byte, then as many bytes; empty tokens are passed over.\<close>

function parse_autodict_from :: "u8 list \<Rightarrow> nat \<Rightarrow> nat \<Rightarrow> tokens \<Rightarrow> error + tokens" where
  "parse_autodict_from bytes sz head t =
     (if sz \<le> head then if head = sz then Ok t else Err Panic
      else case get_opt bytes head of None \<Rightarrow> Err Panic
      | Some b \<Rightarrow> let n = unat b in
          if n = 0 then parse_autodict_from bytes sz (Suc head) t
          else if length bytes < Suc head + n then Err Panic
          else parse_autodict_from bytes sz (Suc head + n) (snd (add_token (take n (drop (Suc head) bytes)) t)))"
  by pat_completeness auto
termination by (relation "measure (\<lambda>(bytes, sz, head, t). sz - head)") auto

definition parse_autodict :: "u8 list \<Rightarrow> nat \<Rightarrow> tokens \<Rightarrow> error + tokens" where
  "parse_autodict bytes sz t = parse_autodict_from bytes sz 0 t"

text \<open>The section between two pointers: null pointers, the order of the pointers, and the bytes between them.\<close>

definition from_mut_ptrs :: "u64 \<Rightarrow> u64 \<Rightarrow> u8 list \<Rightarrow> error + tokens" where
  "from_mut_ptrs token_start token_stop section_bytes =
     (if token_start = 0 \<or> token_stop = 0 then Ok tokens_default
      else if token_stop < token_start then Err (IllegalArgument (Text ''illegal section''))
      else parse_autodict section_bytes (unat (token_stop - token_start)) tokens_default)"

definition autotokens :: "u64 \<Rightarrow> u64 \<Rightarrow> u8 list \<Rightarrow> error + tokens" where
  "autotokens token_start token_stop section_bytes =
     (if token_start = 0 \<or> token_stop = 0 then Ok tokens_default else from_mut_ptrs token_start token_stop section_bytes)"

section \<open>Dictionary files\<close>

text \<open>\<open>char::is_whitespace\<close> and \<open>char::len_utf8\<close> on code points.\<close>

definition is_whitespace :: "nat \<Rightarrow> bool" where
  "is_whitespace c \<longleftrightarrow> 9 \<le> c \<and> c \<le> 13 \<or> c = 0x20 \<or> c = 0x85 \<or> c = 0xA0 \<or> c = 0x1680 \<or> 0x2000 \<le> c \<and> c \<le> 0x200A \<or>
     c = 0x2028 \<or> c = 0x2029 \<or> c = 0x202F \<or> c = 0x205F \<or> c = 0x3000"

definition len_utf8 :: "nat \<Rightarrow> nat" where
  "len_utf8 c = (if c < 0x80 then 1 else if c < 0x800 then 2 else if c < 0x10000 then 3 else 4)"

definition str_len :: "nat list \<Rightarrow> nat" where
  "str_len cs = sum_list (map len_utf8 cs)"

definition str_trim :: "nat list \<Rightarrow> nat list" where
  "str_trim cs = rev (dropWhile is_whitespace (rev (dropWhile is_whitespace cs)))"

text \<open>The item between the first quote and the closing quote. A line with a character of more than one byte
  fails the test of its last character, so that positions in characters and in bytes agree behind it.\<close>

definition line_item :: "nat list \<Rightarrow> error + nat list" where
  "line_item line =
     (if 34 \<notin> set line then Err (IllegalArgument (Text ''Illegal line''))
      else if get_opt line (str_len line - 1) \<noteq> Some 34 then Err (IllegalArgument (Text ''Illegal line''))
      else let pos = length (takeWhile (\<lambda>c. c \<noteq> 34) line) in
        if str_len line - 1 < pos + 1 then Err (IllegalArgument (Text ''Illegal line''))
        else Ok (take (str_len line - 1 - (pos + 1)) (drop (pos + 1) line)))"

definition add_line :: "nat list \<Rightarrow> tokens \<Rightarrow> error + tokens" where
  "add_line raw t = (let line = str_trim raw in
     if line = [] \<or> hd line = 35 then Ok t
     else bindR (line_item line) (\<lambda>item.
       if item = [] then Ok t
       else case str_decode (map of_nat item) of
         Err _ \<Rightarrow> Err (IllegalArgument (Text ''Illegal line (hex decoding)''))
       | Ok token \<Rightarrow> Ok (snd (add_token token t))))"

fun add_lines :: "nat list list \<Rightarrow> tokens \<Rightarrow> error + tokens" where
  "add_lines [] t = Ok t"
| "add_lines (l # ls) t = bindR (add_line l t) (add_lines ls)"

text \<open>A file that cannot be opened is an error; a line that is no valid text panics.\<close>

definition add_from_file :: "nat list option list option \<Rightarrow> tokens \<Rightarrow> error + tokens" where
  "add_from_file content t = (case content of None \<Rightarrow> Err (Unknown (Text ''File::open''))
   | Some lines \<Rightarrow>
       bindR (add_lines (map the (takeWhile (\<lambda>l. l \<noteq> None) lines)) t) (\<lambda>t1.
         if None \<in> set lines then Err Panic else Ok t1))"

text \<open>The start of the fuzzer: the token file of the command line, then the automatic dictionary; an empty
  dictionary is not stored.\<close>

definition load_tokens :: "nat list option list option option \<Rightarrow> error + tokens \<Rightarrow> fuzz_state \<Rightarrow> error + fuzz_state" where
  "load_tokens tokenfile autotoks s = (case m_tokens s of Some _ \<Rightarrow> Ok s
   | None \<Rightarrow>
       bindR (case tokenfile of None \<Rightarrow> Ok tokens_default | Some content \<Rightarrow> add_from_file content tokens_default) (\<lambda>t.
       bindR autotoks (\<lambda>auto.
         let t1 = add_tokens (tokens_vec auto) t in
         Ok (if tokens_vec t1 = [] then s else s\<lparr>m_tokens := Some t1\<rparr>))))"

section \<open>The mutators\<close>

definition token_insert :: "nat \<Rightarrow> mutator" where
  "token_insert max_size s bs = (case m_tokens s of None \<Rightarrow> Ok (Skipped, s, bs)
   | Some t \<Rightarrow> if tokens_vec t = [] then Ok (Skipped, s, bs)
       else let (i, s1) = draw_below (length (tokens_vec t)) s; sz = length bs; (off, s2) = draw_below (sz + 1) s1 in
         case get_opt (tokens_vec t) i of None \<Rightarrow> Err Panic
         | Some token \<Rightarrow> (case fit_amount max_size sz (length token) of
               None \<Rightarrow> Ok (Skipped, s2, bs)
             | Some len \<Rightarrow>
                 bindR (buffer_self_copy (resize (sz + len) 0 bs) off (off + len) (sz - off)) (\<lambda>bs1.
                 bindR (buffer_copy bs1 token 0 off len) (\<lambda>bs2. Ok (Mutated, s2, bs2)))))"

definition token_replace :: mutator where
  "token_replace s bs = (let sz = length bs in
     if sz = 0 then Ok (Skipped, s, bs)
     else let (off, s1) = draw_below sz s in
       case m_tokens s1 of None \<Rightarrow> Ok (Skipped, s1, bs)
       | Some t \<Rightarrow> if tokens_vec t = [] then Ok (Skipped, s1, bs)
           else let (i, s2) = draw_below (length (tokens_vec t)) s1 in
             case get_opt (tokens_vec t) i of None \<Rightarrow> Err Panic
             | Some token \<Rightarrow>
                 let len = (if sz < off + length token then sz - off else length token) in
                 bindR (buffer_copy bs token 0 off len) (\<lambda>bs1. Ok (Mutated, s2, bs1)))"

definition tokens_mutations :: "nat \<Rightarrow> mutator list" where
  "tokens_mutations ms = [token_insert ms, token_replace]"

section \<open>The store\<close>

definition tokens_wf :: "tokens \<Rightarrow> bool" where
  "tokens_wf t \<longleftrightarrow> distinct (tokens_vec t) \<and> tokens_set t = set (tokens_vec t)"

lemma tokens_wf_default [simp]: "tokens_wf tokens_default"
  by (simp add: tokens_wf_def tokens_default_def)

lemma add_token_wf: "tokens_wf t \<Longrightarrow> tokens_wf (snd (add_token w t))"
  by (auto simp: tokens_wf_def add_token_def)

text \<open>Adding tokens keeps the first occurrence of each, behind those that were there.\<close>

fun add_new :: "'a list \<Rightarrow> 'a list \<Rightarrow> 'a list" where
  "add_new xs [] = xs"
| "add_new xs (y # ys) = add_new (if y \<in> set xs then xs else xs @ [y]) ys"

lemma add_token_vec: "tokens_wf t \<Longrightarrow> tokens_vec (snd (add_token w t)) = (if w \<in> set (tokens_vec t) then tokens_vec t else tokens_vec t @ [w])"
  by (auto simp: tokens_wf_def add_token_def)

lemma add_tokens_vec: "tokens_wf t \<Longrightarrow> tokens_wf (add_tokens ws t) \<and> tokens_vec (add_tokens ws t) = add_new (tokens_vec t) ws"
  unfolding add_tokens_def
proof (induction ws arbitrary: t)
  case (Cons w ws)
  show ?case using Cons.IH [OF add_token_wf [OF Cons.prems], of w] by (simp add: add_token_vec [OF Cons.prems])
qed simp

lemma set_add_new [simp]: "set (add_new xs ys) = set xs \<union> set ys"
  by (induction xs ys rule: add_new.induct) auto

lemma add_new_distinct: "distinct (xs @ ys) \<Longrightarrow> add_new xs ys = xs @ ys"
  by (induction xs ys rule: add_new.induct) auto

section \<open>Round trips\<close>

definition autodict_section :: "u8 list list \<Rightarrow> u8 list" where
  "autodict_section ws = concat (map (\<lambda>w. of_nat (length w) # w) ws)"

declare parse_autodict_from.simps [simp del]

lemma parse_autodict_step:
  assumes "bytes = pre @ of_nat (length w) # w @ rest" "w \<noteq> []" "length w < 256" "sz = length bytes"
  shows "parse_autodict_from bytes sz (length pre) t = parse_autodict_from bytes sz (length (pre @ of_nat (length w) # w)) (snd (add_token w t))"
proof -
  have "unat (of_nat (length w) :: u8) = length w" using assms(3) by (simp add: unat_of_nat)
  moreover have "take (length w) (drop (Suc (length pre)) bytes) = w" using assms(1) by simp
  ultimately show ?thesis using assms by (subst parse_autodict_from.simps) (simp add: get_opt_def nth_append Let_def)
qed

lemma parse_autodict_section:
  assumes "\<forall>w \<in> set ws. w \<noteq> [] \<and> length w < 256"
  shows "parse_autodict (autodict_section ws) (length (autodict_section ws)) t = Ok (add_tokens ws t)"
proof -
  let ?b = "autodict_section ws"
  have "parse_autodict_from ?b (length ?b) (length pre) t = Ok (add_tokens vs t)"
    if "?b = pre @ autodict_section vs" "\<forall>w \<in> set vs. w \<noteq> [] \<and> length w < 256" for pre vs t
    using that
  proof (induction vs arbitrary: pre t)
    case Nil
    then show ?case by (subst parse_autodict_from.simps) (simp add: autodict_section_def add_tokens_def)
  next
    case (Cons w vs)
    have e: "?b = pre @ of_nat (length w) # w @ autodict_section vs" using Cons.prems(1) by (simp add: autodict_section_def)
    have e': "?b = (pre @ of_nat (length w) # w) @ autodict_section vs" using e by simp
    have "parse_autodict_from ?b (length ?b) (length pre) t =
        parse_autodict_from ?b (length ?b) (length (pre @ of_nat (length w) # w)) (snd (add_token w t))"
      using parse_autodict_step [OF e _ _ refl] Cons.prems(2) by simp
    also have "\<dots> = Ok (add_tokens vs (snd (add_token w t)))" by (rule Cons.IH [OF e']) (use Cons.prems(2) in simp)
    finally show ?case by (simp add: add_tokens_def)
  qed
  from this [of "[]" ws] assms show ?thesis by (simp add: parse_autodict_def)
qed

text \<open>A token written as a quoted sequence of hexadecimal escapes.\<close>

definition hex_digit :: "u8 \<Rightarrow> nat" where
  "hex_digit d = (if unat d < 10 then 48 + unat d else 87 + unat d)"

definition hex_escape :: "u8 \<Rightarrow> nat list" where
  "hex_escape b = [92, 120, hex_digit (drop_bit 4 b), hex_digit (b AND 15)]"

definition quoted :: "u8 list \<Rightarrow> nat list" where
  "quoted w = [34] @ concat (map hex_escape w) @ [34]"

lemma nibbles: "unat (drop_bit 4 (b :: u8)) < 16" "unat (b AND 15) < 16" "push_bit 4 (drop_bit 4 b) + (b AND 15) = b"
proof -
  have "unat (drop_bit 4 b) = unat b div 16" by (simp add: drop_bit_eq_div unat_div)
  moreover have "unat b < 256" using unsigned_less [of b, where ?'a = nat] by simp
  ultimately show "unat (drop_bit 4 b) < 16" by simp
  have m: "b AND 15 = take_bit 4 b" by (simp add: take_bit_eq_mask mask_eq_exp_minus_1)
  have "unat (take_bit 4 b) < 2 ^ 4" unfolding unsigned_take_bit_eq by (rule take_bit_nat_less_exp)
  then show "unat (b AND 15) < 16" by (simp add: m)
  show "push_bit 4 (drop_bit 4 b) + (b AND 15) = b" unfolding m by (rule bits_ident)
qed

lemma from_hex_digit:
  assumes "unat d < 16"
  shows "from_hex (of_nat (hex_digit d)) = Ok d"
proof -
  have "\<forall>n \<in> set [0..<16]. from_hex (of_nat (hex_digit (of_nat n))) = Ok (of_nat n :: u8)" by code_simp
  then have "from_hex (of_nat (hex_digit (of_nat (unat d)))) = Ok (of_nat (unat d))" using assms by (metis atLeastLessThan_iff le0 set_upt)
  then show ?thesis by simp
qed

lemma hex_digit_less: "unat d < 16 \<Longrightarrow> hex_digit d < 128 \<and> hex_digit d \<noteq> 34 \<and> \<not> is_whitespace (hex_digit d)"
  by (auto simp: hex_digit_def is_whitespace_def)

lemma hex_escape_escapes: "escapes b (map of_nat (hex_escape b))"
  using from_hex_digit nibbles [of b] unfolding escapes_def hex_escape_def by auto

lemma decode_hex_escapes: "str_decode (map of_nat (concat (map hex_escape w))) = Ok w"
proof -
  have "list_all2 escapes w (map (map of_nat \<circ> hex_escape) w)" by (simp add: list_all2_conv_all_nth hex_escape_escapes)
  from decode_escapes [OF this, of "[]" 0 "[]"] show ?thesis
    by (simp add: str_decode_def unfinished_def map_concat)
qed

lemma escape_ascii: "c \<in> set (concat (map hex_escape w)) \<Longrightarrow> c < 128 \<and> c \<noteq> 34"
  using hex_digit_less [OF nibbles(1)] hex_digit_less [OF nibbles(2)] by (auto simp: hex_escape_def split: if_splits)

lemma str_len_ascii: "(\<forall>c \<in> set cs. c < 128) \<Longrightarrow> str_len cs = length cs"
  by (induction cs) (auto simp: str_len_def len_utf8_def)

lemma str_trim_quoted: "str_trim (quoted w) = quoted w"
proof -
  have q: "\<not> is_whitespace 34" by (simp add: is_whitespace_def)
  then have "dropWhile is_whitespace (quoted w) = quoted w" by (simp add: quoted_def)
  moreover have "dropWhile is_whitespace (rev (quoted w)) = rev (quoted w)" using q by (simp add: quoted_def)
  ultimately show ?thesis by (simp add: str_trim_def)
qed

lemma line_item_quoted: "line_item (quoted w) = Ok (concat (map hex_escape w))"
proof -
  let ?e = "concat (map hex_escape w)"
  have "str_len (quoted w) = length ?e + 2" using escape_ascii str_len_ascii [of "quoted w"] by (fastforce simp: quoted_def)
  then show ?thesis by (simp add: line_item_def quoted_def get_opt_def nth_append nth_Cons')
qed

lemma add_line_quoted: "w \<noteq> [] \<Longrightarrow> add_line (quoted w) t = Ok (snd (add_token w t))"
proof -
  assume w: "w \<noteq> []"
  then have "(concat (map hex_escape w) = []) = False" by (cases w) (auto simp: hex_escape_def)
  moreover have "quoted w \<noteq> []" "hd (quoted w) \<noteq> 35" by (simp_all add: quoted_def)
  ultimately show ?thesis by (simp add: add_line_def str_trim_quoted line_item_quoted decode_hex_escapes del: concat_eq_Nil_conv)
qed

lemma add_lines_quoted: "[] \<notin> set ws \<Longrightarrow> add_lines (map quoted ws) t = Ok (add_tokens ws t)"
  by (induction ws arbitrary: t) (auto simp: add_line_quoted add_tokens_def)

subsection \<open>Rejected and accepted lines\<close>

lemma str_len_ge: "length cs \<le> str_len cs"
proof -
  have "1 \<le> len_utf8 c" for c by (simp add: len_utf8_def)
  then show ?thesis by (induction cs) (auto simp: str_len_def, metis (no_types) Suc_le_mono add_mono One_nat_def plus_1_eq_Suc)
qed

lemma str_len_gt: "\<exists>c \<in> set cs. 128 \<le> c \<Longrightarrow> length cs < str_len cs"
proof (induction cs)
  case (Cons c cs)
  show ?case
  proof (cases "128 \<le> c")
    case True
    then have "2 \<le> len_utf8 c" by (simp add: len_utf8_def)
    then show ?thesis using str_len_ge [of cs] by (simp add: str_len_def)
  next
    case False
    then have "length cs < str_len cs" using Cons by auto
    then show ?thesis using False by (simp add: str_len_def len_utf8_def)
  qed
qed simp

lemma non_ascii_rejected:
  assumes "\<exists>c \<in> set (str_trim l). 128 \<le> c" "hd (str_trim l) \<noteq> 35"
  shows "add_line l t = Err (IllegalArgument (Text ''Illegal line''))"
proof -
  have "length (str_trim l) < str_len (str_trim l)" by (rule str_len_gt [OF assms(1)])
  then have "get_opt (str_trim l) (str_len (str_trim l) - 1) = None" by (simp add: get_opt_def)
  then show ?thesis using assms by (auto simp: add_line_def line_item_def Let_def)
qed

section \<open>The mutators\<close>

lemma token_insert_effect:
  assumes "mut_pre ms s" "length bs \<le> ms"
  shows "\<exists>s'. only_rand s s' \<and> (token_insert ms s bs = Ok (Skipped, s', bs) \<or>
    (\<exists>t w off len. m_tokens s = Some t \<and> w \<in> set (tokens_vec t) \<and> off \<le> length bs \<and> 0 < len \<and> len \<le> length w \<and> length bs + len \<le> ms \<and>
      (len < length w \<longrightarrow> length bs + len = ms) \<and> token_insert ms s bs = Ok (Mutated, s', take off bs @ take len w @ drop off bs)))"
proof (cases "m_tokens s = None \<or> (\<exists>t. m_tokens s = Some t \<and> tokens_vec t = [])")
  case True
  then show ?thesis by (auto simp: token_insert_def)
next
  case False
  then obtain t where t: "m_tokens s = Some t" "tokens_vec t \<noteq> []" by auto
  then have tok: "length (tokens_vec t) < 2 ^ 64" "\<forall>w \<in> set (tokens_vec t). w \<noteq> []" "ms < 2 ^ 62"
    using assms(1) by (auto simp: mut_pre_def tokens_ok_def)
  obtain i s1 where d1: "draw_below (length (tokens_vec t)) s = (i, s1)" by fastforce
  obtain off s2 where d2: "draw_below (length bs + 1) s1 = (off, s2)" by fastforce
  have d: "i < length (tokens_vec t)" "off \<le> length bs" "only_rand s s1" "only_rand s1 s2"
    using draw_below_ok [OF d1] draw_below_ok [OF d2] t tok assms(2) by auto
  let ?w = "tokens_vec t ! i"
  have w: "?w \<in> set (tokens_vec t)" "?w \<noteq> []" using d(1) tok(2) by auto
  have o: "only_rand s s2" using only_rand_trans [OF d(3,4)] .
  show ?thesis
  proof (cases "fit_amount ms (length bs) (length ?w)")
    case None
    then have "token_insert ms s bs = Ok (Skipped, s2, bs)" using t d1 d2 d(1) by (simp add: token_insert_def get_opt_def)
    then show ?thesis using o by blast
  next
    case (Some len)
    then have len: "0 < len" "len \<le> length ?w" "length bs + len \<le> ms" "len < length ?w \<longrightarrow> length bs + len = ms"
      using w(2) assms(2) by (auto simp: fit_amount_def split: if_splits)
    from crossover_insert_Ok [OF d(2) len(1,2)]
    have "token_insert ms s bs = Ok (Mutated, s2, take off bs @ take len ?w @ drop off bs)"
      using Some t d1 d2 d(1) by (auto simp: token_insert_def get_opt_def crossover_insert_def range_len_def Let_def)
    then show ?thesis using o t(1) w(1) d(2) len by blast
  qed
qed

lemma token_replace_effect:
  assumes "mut_pre ms s" "length bs \<le> ms"
  shows "\<exists>s'. only_rand s s' \<and> (token_replace s bs = Ok (Skipped, s', bs) \<or>
    (\<exists>t w off len. m_tokens s = Some t \<and> w \<in> set (tokens_vec t) \<and> off + len \<le> length bs \<and> 0 < len \<and> len \<le> length w \<and>
      (len < length w \<longrightarrow> off + len = length bs) \<and> token_replace s bs = Ok (Mutated, s', write_at off (take len w) bs)))"
proof (cases "bs = []")
  case False
  have sz: "length bs < 2 ^ 64" using assms by (auto simp: mut_pre_def)
  obtain off s1 where d1: "draw_below (length bs) s = (off, s1)" by fastforce
  have o1: "off < length bs" "only_rand s s1" using draw_below_ok [OF d1] False sz by auto
  then have m: "m_tokens s1 = m_tokens s" by (auto simp: only_rand_def)
  show ?thesis
  proof (cases "m_tokens s = None \<or> (\<exists>t. m_tokens s = Some t \<and> tokens_vec t = [])")
    case True
    then have "token_replace s bs = Ok (Skipped, s1, bs)" using False d1 m by (auto simp: token_replace_def)
    then show ?thesis using o1(2) by blast
  next
    case t': False
    then obtain t where t: "m_tokens s = Some t" "tokens_vec t \<noteq> []" by auto
    then have tok: "length (tokens_vec t) < 2 ^ 64" "\<forall>w \<in> set (tokens_vec t). w \<noteq> []" using assms(1) by (auto simp: mut_pre_def tokens_ok_def)
    obtain i s2 where d2: "draw_below (length (tokens_vec t)) s1 = (i, s2)" by fastforce
    have d: "i < length (tokens_vec t)" "only_rand s1 s2" using draw_below_ok [OF d2] t tok by auto
    let ?w = "tokens_vec t ! i"
    let ?len = "if length bs < off + length ?w then length bs - off else length ?w"
    have w: "?w \<in> set (tokens_vec t)" "?w \<noteq> []" using d(1) tok(2) by auto
    have len: "off + ?len \<le> length bs" "0 < ?len" "?len \<le> length ?w" "?len < length ?w \<longrightarrow> off + ?len = length bs" using o1(1) w(2) by auto
    have "buffer_copy bs ?w 0 off ?len = Ok (write_at off (take ?len ?w) bs)"
      using buffer_copy_Ok [OF False w(2), of 0 ?len off] len by simp
    then have "token_replace s bs = Ok (Mutated, s2, write_at off (take ?len ?w) bs)"
      using False d1 d2 m t d(1) by (simp add: token_replace_def get_opt_def Let_def)
    then show ?thesis using only_rand_trans [OF o1(2) d(2)] t(1) w(1) len by blast
  qed
qed (auto simp: token_replace_def)

lemma token_insert_ok: "mutator_ok ms (token_insert ms)"
proof (rule mutator_okI)
  fix s and bs :: "u8 list" assume p: "mut_pre ms s" and a: "length bs \<le> ms"
  from token_insert_effect [OF p a] obtain s' where o: "only_rand s s'" and c: "token_insert ms s bs = Ok (Skipped, s', bs) \<or>
      (\<exists>w off. length bs + length w \<le> ms \<and> token_insert ms s bs = Ok (Mutated, s', take off bs @ w @ drop off bs))"
    by (metis length_take min.absorb2)
  then show "mut_post ms s bs (token_insert ms s bs)" using mut_post_skip [OF a o] insert_ok [OF o] by auto
qed

lemma token_replace_ok: "mutator_ok ms token_replace"
proof (rule mutator_okI)
  fix s and bs :: "u8 list" assume p: "mut_pre ms s" and a: "length bs \<le> ms"
  from token_replace_effect [OF p a] obtain s' where o: "only_rand s s'" and c: "token_replace s bs = Ok (Skipped, s', bs) \<or>
      (\<exists>w off. off + length w \<le> length bs \<and> token_replace s bs = Ok (Mutated, s', write_at off w bs))"
    by (metis length_take min.absorb2)
  then show "mut_post ms s bs (token_replace s bs)" using mut_post_skip [OF a o] write_ok [OF a o] by auto
qed

text \<open>The mutators of the main stage.\<close>

definition bofuzz_mutations :: "nat \<Rightarrow> mutator list" where
  "bofuzz_mutations ms = havoc_mutations ms @ tokens_mutations ms"

lemma bofuzz_mutations_ok: "m \<in> set (bofuzz_mutations ms) \<Longrightarrow> mutator_ok ms m"
  by (auto simp: bofuzz_mutations_def tokens_mutations_def havoc_mutations_ok token_insert_ok token_replace_ok)

lemma length_bofuzz_mutations: "length (bofuzz_mutations ms) = 29"
  by (simp add: bofuzz_mutations_def tokens_mutations_def havoc_mutations_def havoc_mutations_no_crossover_def havoc_crossover_def)

interpretation bofuzz: mutator_set "bofuzz_mutations ms" ms for ms
proof
  show "bofuzz_mutations ms \<noteq> []" using length_bofuzz_mutations [of ms] by fastforce
qed (simp_all add: bofuzz_mutations_ok length_bofuzz_mutations)

text \<open>A quoted item of an ASCII line is decoded, and an escape left unfinished at its end is dropped.\<close>

lemma line_item_named:
  assumes "\<forall>c \<in> set (name @ [34] @ item @ [34]). c < 128" "34 \<notin> set name"
  shows "line_item (name @ [34] @ item @ [34]) = Ok item"
proof -
  have "takeWhile (\<lambda>c. c \<noteq> 34) (name @ 34 # item @ [34]) = name" using assms(2) by (subst takeWhile_append2) auto
  then show ?thesis using str_len_ascii [OF assms(1)] by (simp add: line_item_def get_opt_def nth_append)
qed

lemma unfinished_item_added:
  assumes "str_trim l = name @ [34] @ item @ [34]" "34 \<notin> set name" "hd (str_trim l) \<noteq> 35" "\<forall>c \<in> set (str_trim l). c < 128"
    "item \<noteq> []" "map of_nat item = concat css @ rest" "list_all2 escapes w css" "unfinished rest"
  shows "add_line l t = Ok (snd (add_token w t))"
proof -
  have "str_decode (map of_nat item) = Ok w" using decode_escapes [OF assms(7,8), of 0 "[]"] by (simp add: assms(6) str_decode_def)
  moreover have "line_item (str_trim l) = Ok item" using line_item_named [of name item] assms(1,2,4) by simp
  ultimately show ?thesis using assms(1,3,5) by (simp add: add_line_def Let_def)
qed

section \<open>Properties\<close>

text \<open>C33. Dictionaries are read back as written: an automatic dictionary section that holds the tokens
  \<open>ws\<close>, each behind its length byte, and a dictionary file that holds them as quoted lines of hexadecimal
  escapes, both load to exactly the tokens \<open>ws\<close> in order, without repetitions. Loading more tokens keeps the
  old ones in front and the vector and the set of the store in agreement.\<close>

theorem dictionary_roundtrip:
  assumes "\<forall>w \<in> set ws. w \<noteq> [] \<and> length w < 256" "tokens_wf t"
  shows "parse_autodict (autodict_section ws) (length (autodict_section ws)) t = Ok (add_tokens ws t) \<and>
    add_from_file (Some (map (Some \<circ> quoted) ws)) t = Ok (add_tokens ws t) \<and>
    tokens_wf (add_tokens ws t) \<and> tokens_vec (add_tokens ws t) = add_new (tokens_vec t) ws \<and>
    (distinct ws \<longrightarrow> tokens_vec (add_tokens ws tokens_default) = ws)"
proof -
  have n: "[] \<notin> set ws" using assms(1) by auto
  have "takeWhile (\<lambda>l. l \<noteq> None) (map (Some \<circ> quoted) ws) = map (Some \<circ> quoted) ws" by (simp add: takeWhile_eq_all_conv)
  then have "map the (takeWhile (\<lambda>l. l \<noteq> None) (map (Some \<circ> quoted) ws)) = map quoted ws" by (simp only: map_map) (simp add: o_def)
  moreover have "None \<notin> set (map (Some \<circ> quoted) ws)" by auto
  ultimately have "add_from_file (Some (map (Some \<circ> quoted) ws)) t = Ok (add_tokens ws t)"
    using add_lines_quoted [OF n, of t] by (simp only: add_from_file_def option.case bindR_simps if_False)
  moreover have "tokens_vec (add_tokens ws tokens_default) = ws" if "distinct ws"
    using add_tokens_vec [OF tokens_wf_default, of ws] add_new_distinct [of "[]" ws] that by (simp add: tokens_default_def)
  ultimately show ?thesis using parse_autodict_section [OF assms(1)] add_tokens_vec [OF assms(2), of ws] by blast
qed

theorem dictionary_roundtrip_witness:
  "add_from_file (Some (map (Some \<circ> quoted) [[1, 2], [65]])) tokens_default = Ok (add_tokens [[1, 2], [65]] tokens_default)"
  using dictionary_roundtrip [of "[[1, 2], [65]]" tokens_default] by simp

text \<open>C34. Two surprises of the dictionary reader. A line that is no comment and holds a character
  outside ASCII is rejected as illegal, whatever its form, because a position in bytes is used as a
  position in characters. In any other line, an optional name followed by a quoted item, an escape that
  is unfinished at the end of the item is dropped without an error: the token is what the complete
  escapes before it spell, and the empty token when there are none, although lines with an empty item
  are passed over.\<close>

theorem dictionary_line_surprises:
  "((\<exists>c \<in> set (str_trim l). 128 \<le> c) \<and> hd (str_trim l) \<noteq> 35 \<longrightarrow>
      add_line l t = Err (IllegalArgument (Text ''Illegal line''))) \<and>
   (str_trim l = name @ [34] @ item @ [34] \<and> 34 \<notin> set name \<and> hd (str_trim l) \<noteq> 35 \<and> (\<forall>c \<in> set (str_trim l). c < 128) \<and>
      item \<noteq> [] \<and> map of_nat item = concat css @ rest \<and> list_all2 escapes w css \<and> unfinished rest \<longrightarrow>
      add_line l t = Ok (snd (add_token w t)))"
  using non_ascii_rejected [of l t] unfinished_item_added [of l name item css rest w t] by blast

theorem dictionary_line_surprises_witness:
  "add_line [34, 233, 34] tokens_default = Err (IllegalArgument (Text ''Illegal line'')) \<and>
    add_line [34, 92, 34] tokens_default = Ok \<lparr>tokens_vec = [[]], tokens_set = {[]}\<rparr> \<and>
    add_line [107, 61, 34, 65, 92, 120, 52, 34] tokens_default = Ok \<lparr>tokens_vec = [[65]], tokens_set = {[65]}\<rparr>"
proof (intro conjI)
  note e = str_trim_def is_whitespace_def
  show "add_line [34, 233, 34] tokens_default = Err (IllegalArgument (Text ''Illegal line''))"
    using dictionary_line_surprises [THEN conjunct1, of "[34, 233, 34]" tokens_default] by (simp add: e)
  show "add_line [34, 92, 34] tokens_default = Ok \<lparr>tokens_vec = [[]], tokens_set = {[]}\<rparr>"
    using dictionary_line_surprises [THEN conjunct2, of "[34, 92, 34]" "[]" "[92]" "[]" "[92]" "[]" tokens_default]
    by (simp add: e unfinished_def add_token_def tokens_default_def)
  have "from_hex 52 = Ok 4" by code_simp
  then show "add_line [107, 61, 34, 65, 92, 120, 52, 34] tokens_default = Ok \<lparr>tokens_vec = [[65]], tokens_set = {[65]}\<rparr>"
    using dictionary_line_surprises [THEN conjunct2, of "[107, 61, 34, 65, 92, 120, 52, 34]" "[107, 61]" "[65, 92, 120, 52]" "[[65]]"
      "[92, 120, 52]" "[65]" tokens_default]
    by (simp add: e unfinished_def escapes_def add_token_def tokens_default_def)
qed

text \<open>The dictionary mutators insert a token at a position of the input, cut only where the maximum
  size requires it, and write a token over the input, cut only at its end; with an empty dictionary they
  skip. Together with the havoc list they make up the mutators of the main stage, and stacking any number
  of these is total, memory safe and within the maximum size.\<close>

theorem token_mutators_correct:
  assumes "mut_pre ms s" "length bs \<le> ms"
  shows "(\<exists>s'. only_rand s s' \<and> (token_insert ms s bs = Ok (Skipped, s', bs) \<or>
      (\<exists>t w off len. m_tokens s = Some t \<and> w \<in> set (tokens_vec t) \<and> off \<le> length bs \<and> 0 < len \<and> len \<le> length w \<and> length bs + len \<le> ms \<and>
        (len < length w \<longrightarrow> length bs + len = ms) \<and> token_insert ms s bs = Ok (Mutated, s', take off bs @ take len w @ drop off bs)))) \<and>
    (\<exists>s'. only_rand s s' \<and> (token_replace s bs = Ok (Skipped, s', bs) \<or>
      (\<exists>t w off len. m_tokens s = Some t \<and> w \<in> set (tokens_vec t) \<and> off + len \<le> length bs \<and> 0 < len \<and> len \<le> length w \<and>
        (len < length w \<longrightarrow> off + len = length bs) \<and> token_replace s bs = Ok (Mutated, s', write_at off (take len w) bs)))) \<and>
    (\<exists>r s' bs'. stack_mutations (bofuzz_mutations ms) n Skipped s bs = Ok (r, s', bs') \<and> only_rand s s' \<and> length bs' \<le> ms \<and>
      (bs \<noteq> [] \<longrightarrow> bs' \<noteq> []))"
  using token_insert_effect [OF assms] token_replace_effect [OF assms] bofuzz.stack_ok [OF assms, of n Skipped] by blast

theorem token_mutators_correct_witness:
  "\<exists>r s' bs'. stack_mutations (bofuzz_mutations 64) 4 Skipped example_mut_state [1, 2] = Ok (r, s', bs') \<and> length bs' \<le> 64"
  using token_mutators_correct [OF example_mut_pre, of "[1, 2]" 4] by auto

end
