(* ===== verification/Mopt.thy ===== *)
theory Mopt
  imports Float_Error Token_Mutations
begin

text \<open>
  The MOpt mutation scheduler (\<open>libafl/src/mutators/mopt_mutator.rs\<close>), which the fuzzer runs over
  the havoc and the token mutators: a particle swarm optimiser whose positions are probabilities of
  the mutators. Positions, velocities and probabilities are floats with their roundings; the finding
  and cycle counters are 64 bit words that wrap. Shown: the rounding errors of the normalised
  probabilities stay far inside the tolerance the code checks, so that neither the construction, nor
  an update, nor the choice of a mutator ever returns its error; the choice is the inverse of the
  cumulated probabilities; a whole mutation and the bookkeeping after an execution keep the
  invariant.
\<close>

section \<open>Particles\<close>

definition PERIOD_PILOT_COEF :: f64 where
  "PERIOD_PILOT_COEF = Fin 5000"

definition V_MAX :: f64 where
  "V_MAX = Fin 1"

definition V_MIN :: f64 where
  "V_MIN = f_lit (5 / 100)"

definition mopt_w :: "mopt \<Rightarrow> f64" where
  "mopt_w m = fadd (fdiv (fmul (fsub (w_init m) (w_end m)) (fsub (g_max m) (g_now m))) (g_max m)) (w_end m)"

fun draw_positions :: "nat \<Rightarrow> std_rand \<Rightarrow> f64 list \<times> std_rand" where
  "draw_positions 0 r = ([], r)"
| "draw_positions (Suc n) r =
     (let (f, r1) = next_float std_rand_next r; (xs, r2) = draw_positions n r1
      in (fadd (fmul (f_lit (7 / 10)) f) (f_lit (1 / 10)) # xs, r2))"

text \<open>\<open>x.clamp(V_MIN, V_MAX)\<close>; the bounds are ordered, so it does not panic.\<close>

definition clamp_position :: "f64 \<Rightarrow> f64" where
  "clamp_position x = (case fclamp x V_MIN V_MAX of Some y \<Rightarrow> y | None \<Rightarrow> x)"

text \<open>One move of the particles of a swarm: position, velocity, local and global best of each.\<close>

fun move_particles :: "f64 \<Rightarrow> (f64 \<times> f64 \<times> f64 \<times> f64) list \<Rightarrow> std_rand \<Rightarrow> (f64 \<times> f64) list \<times> std_rand" where
  "move_particles w [] r = ([], r)"
| "move_particles w ((x, v, l, g) # ps) r =
     (let (f1, r1) = next_float std_rand_next r;
          (f2, r2) = next_float std_rand_next r1;
          v' = fadd (fadd (fmul w v) (fmul f1 (fsub l x))) (fmul f2 (fsub g x));
          x' = clamp_position (fadd x v');
          (rest, r3) = move_particles w ps r2
      in ((x', v') # rest, r3))"

fun cumulate :: "f64 \<Rightarrow> f64 list \<Rightarrow> f64 list" where
  "cumulate p [] = []"
| "cumulate p (x # xs) = (let q = fadd p x in q # cumulate q xs)"

fun probabilities :: "f64 list \<Rightarrow> f64 list" where
  "probabilities [] = []"
| "probabilities (x # xs) = x # cumulate x xs"

definition normalise :: "f64 list \<Rightarrow> f64 list" where
  "normalise xs = (let x_sum = foldl fadd (Fin 0) xs in map (\<lambda>x. fdiv x x_sum) xs)"

text \<open>
  The part of a swarm's step that the initialisation and the update share: move, normalise, cumulate
  and check the last probability, whose index underflows when there is no operator.
\<close>

definition swarm_step :: "f64 \<Rightarrow> f64 list \<Rightarrow> f64 list \<Rightarrow> f64 list \<Rightarrow> f64 list \<Rightarrow> std_rand \<Rightarrow>
    error + (f64 list \<times> f64 list \<times> f64 list \<times> std_rand)" where
  "swarm_step w xs vs ls gs r =
     (let (ps, r') = move_particles w (zip xs (zip vs (zip ls gs))) r;
          ys = normalise (map fst ps);
          qs = probabilities ys
      in if qs = [] then Err Panic
         else if flt (last qs) (f_lit (99 / 100)) \<or> flt (f_lit (101 / 100)) (last qs)
         then Err (IllegalState (Text ''MOpt: Error in pso_update''))
         else Ok (ys, map snd ps, qs, r'))"

section \<open>The optimiser\<close>

text \<open>
  The vectors are allocated together, one row per swarm and one column per operator. An index out of
  range panics; the shape is checked here once for all the vectors an operation indexes.
\<close>

definition matrix :: "mopt \<Rightarrow> 'a list list \<Rightarrow> bool" where
  "matrix m xss = (length xss = swarm_num m \<and> list_all (\<lambda>xs. length xs = operator_num m) xss)"

definition mopt_shape :: "mopt \<Rightarrow> bool" where
  "mopt_shape m =
     (list_all (matrix m) [x_now m, l_best m, eff_best m, v_now m, probability_now m] \<and>
      list_all (matrix m) [pilot_operator_finds m, pilot_operator_finds_v2 m, pilot_operator_cycles m,
        pilot_operator_cycles_v2 m, pilot_operator_cycles_v3 m] \<and>
      length (g_best m) = operator_num m \<and> length (swarm_fitness m) = swarm_num m \<and>
      list_all (\<lambda>xs. length xs = operator_num m) [operator_finds_puppet m, core_operator_finds m, core_operator_finds_v2 m,
        core_operator_cycles m, core_operator_cycles_v2 m, core_operator_cycles_v3 m])"

fun init_swarms :: "nat list \<Rightarrow> mopt \<Rightarrow> error + mopt" where
  "init_swarms [] m = Ok m"
| "init_swarms (k # ks) m =
     (let n = operator_num m;
          (xs, r1) = draw_positions n (mo_rand m);
          ls = replicate n (f_lit (1 / 2))
      in bindR (swarm_step (w_now m) (normalise xs) (replicate n (f_lit (1 / 10))) ls ls r1) (\<lambda>(ys, vs, qs, r2).
           init_swarms ks (m\<lparr>mo_rand := r2, x_now := (x_now m)[k := ys], v_now := (v_now m)[k := vs],
             l_best := (l_best m)[k := ls], g_best := ls, probability_now := (probability_now m)[k := qs]\<rparr>)))"

definition pso_initialize :: "mopt \<Rightarrow> error + mopt" where
  "pso_initialize m =
     (if \<not> mopt_shape m then Err Panic
      else let m1 = (if flt (g_max m) (g_now m) then m\<lparr>g_now := Fin 0\<rparr> else m);
               m2 = m1\<lparr>w_now := mopt_w m1\<rparr>
           in init_swarms [0..<swarm_num m2] m2)"

definition mopt_empty :: "nat \<Rightarrow> nat \<Rightarrow> u64 \<Rightarrow> mopt" where
  "mopt_empty n k rand_seed =
     (let fmat = replicate k (replicate n (Fin 0)); umat = replicate k (replicate n 0); uvec = replicate n 0 in
      \<lparr>mo_rand = std_rand_with_seed rand_seed, total_finds = 0, finds_until_last_swarm = 0,
       w_init = f_lit (9 / 10), w_end = f_lit (3 / 10), w_now = Fin 0, g_now = Fin 0, g_max = Fin 5000,
       operator_num = n, swarm_num = k, period_pilot = 50000, period_core = 500000,
       pilot_time = 0, core_time = 0, swarm_now = 0,
       x_now = fmat, l_best = fmat, eff_best = fmat, g_best = replicate n (Fin 0), v_now = fmat,
       probability_now = fmat, swarm_fitness = replicate k (Fin 0),
       pilot_operator_finds = umat, pilot_operator_finds_v2 = umat, pilot_operator_cycles = umat,
       pilot_operator_cycles_v2 = umat, pilot_operator_cycles_v3 = umat,
       operator_finds_puppet = uvec, core_operator_finds = uvec, core_operator_finds_v2 = uvec,
       core_operator_cycles = uvec, core_operator_cycles_v2 = uvec, core_operator_cycles_v3 = uvec\<rparr>)"

definition mopt_new :: "nat \<Rightarrow> nat \<Rightarrow> u64 \<Rightarrow> error + mopt" where
  "mopt_new n k rand_seed = pso_initialize (mopt_empty n k rand_seed)"

definition puppet_finds :: "mopt \<Rightarrow> u64 list" where
  "puppet_finds m = map (\<lambda>i. foldl (\<lambda>a row. a + row ! i) (core_operator_finds m ! i) (pilot_operator_finds m))
     [0..<operator_num m]"

fun update_swarms :: "nat list \<Rightarrow> mopt \<Rightarrow> error + mopt" where
  "update_swarms [] m = Ok m"
| "update_swarms (k # ks) m =
     bindR (swarm_step (w_now m) (x_now m ! k) (v_now m ! k) (l_best m ! k) (g_best m) (mo_rand m)) (\<lambda>(ys, vs, qs, r).
       update_swarms ks (m\<lparr>mo_rand := r, x_now := (x_now m)[k := ys], v_now := (v_now m)[k := vs],
         probability_now := (probability_now m)[k := qs]\<rparr>))"

definition pso_update :: "mopt \<Rightarrow> error + mopt" where
  "pso_update m =
     (if \<not> mopt_shape m then Err Panic
      else let g = fadd (g_now m) (Fin 1);
               m1 = m\<lparr>g_now := (if flt (g_max m) g then Fin 0 else g)\<rparr>;
               m2 = m1\<lparr>w_now := mopt_w m1, operator_finds_puppet := puppet_finds m1\<rparr>;
               operator_finds_sum = foldl (+) 0 (operator_finds_puppet m2);
               m3 = m2\<lparr>g_best := map (\<lambda>(p, b). if 0 < p then fdiv (f_of_u64 p) (f_of_u64 operator_finds_sum) else b)
                          (zip (operator_finds_puppet m2) (g_best m2))\<rparr>
           in bindR (update_swarms [0..<swarm_num m3] m3) (\<lambda>m4. Ok (m4\<lparr>swarm_now := 0\<rparr>)))"

fun first_above :: "f64 \<Rightarrow> nat \<Rightarrow> f64 list \<Rightarrow> nat option" where
  "first_above p i [] = None"
| "first_above p i (q # qs) = (if flt p q then Some i else first_above p (Suc i) qs)"

definition select_algorithm :: "mopt \<Rightarrow> error + (nat \<times> mopt)" where
  "select_algorithm m =
     (if \<not> mopt_shape m \<or> swarm_num m \<le> swarm_now m \<or> operator_num m = 0 then Err Panic
      else let qs = probability_now m ! swarm_now m; n = operator_num m;
               (f, r) = next_float std_rand_next (mo_rand m);
               p = fmul (qs ! (n - 1)) f;
               found = first_above p 0 qs;
               res = (case found of Some i \<Rightarrow> i | None \<Rightarrow> 0);
               sentry = (found \<noteq> None \<and> res \<noteq> 0)
           in if (sentry \<and> flt p (qs ! (res - 1))) \<or> (res + 1 < n \<and> flt (qs ! (res + 1)) p)
              then Err (IllegalState (Text ''MOpt: Error in select_algorithm''))
              else Ok (res, m\<lparr>mo_rand := r\<rparr>))"

section \<open>The mutator\<close>

record std_mopt =
  mp_mode :: mopt_mode
  mp_finds_before :: nat
  mp_max_stack_pow :: nat

definition std_mopt_new :: "mutator list \<Rightarrow> nat \<Rightarrow> nat \<Rightarrow> fuzz_state \<Rightarrow> error + (std_mopt \<times> fuzz_state)" where
  "std_mopt_new muts max_stack_pow k s =
     bindR (case m_mopt s of
         Some _ \<Rightarrow> Ok s
       | None \<Rightarrow> let (rand_seed, s1) = rand_mut std_rand_next s in
           bindR (mopt_new (length muts) k rand_seed) (\<lambda>m. Ok (s1\<lparr>m_mopt := Some m\<rparr>)))
       (\<lambda>s'. Ok (\<lparr>mp_mode = Pilotfuzzing, mp_finds_before = 0, mp_max_stack_pow = max_stack_pow\<rparr>, s'))"

definition mopt_schedule :: "fuzz_state \<Rightarrow> error + (nat \<times> fuzz_state)" where
  "mopt_schedule s = (case m_mopt s of None \<Rightarrow> Err Panic | Some m \<Rightarrow>
     (case select_algorithm m of Err _ \<Rightarrow> Err Panic | Ok (idx, m') \<Rightarrow> Ok (idx, s\<lparr>m_mopt := Some m'\<rparr>)))"

definition count_core :: "nat \<Rightarrow> mopt \<Rightarrow> error + mopt" where
  "count_core idx m = (case get_opt (core_operator_cycles_v2 m) idx of None \<Rightarrow> Err Panic
     | Some c \<Rightarrow> Ok (m\<lparr>core_operator_cycles_v2 := (core_operator_cycles_v2 m)[idx := c + 1]\<rparr>))"

definition count_pilot :: "nat \<Rightarrow> nat \<Rightarrow> mopt \<Rightarrow> error + mopt" where
  "count_pilot k idx m = (case get_opt (pilot_operator_cycles_v2 m) k of None \<Rightarrow> Err Panic
     | Some row \<Rightarrow> (case get_opt row idx of None \<Rightarrow> Err Panic
     | Some c \<Rightarrow> Ok (m\<lparr>pilot_operator_cycles_v2 := (pilot_operator_cycles_v2 m)[k := row[idx := c + 1]]\<rparr>)))"

text \<open>The loop of \<open>core_mutate\<close> and \<open>pilot_mutate\<close>; they differ in the counter they increment.\<close>

fun mopt_stack :: "(nat \<Rightarrow> mopt \<Rightarrow> error + mopt) \<Rightarrow> mutator list \<Rightarrow> nat \<Rightarrow> mutation_result \<Rightarrow> mutator" where
  "mopt_stack cnt muts 0 r s bs = Ok (r, s, bs)"
| "mopt_stack cnt muts (Suc n) r s bs =
     bindR (mopt_schedule s) (\<lambda>(idx, s1).
     bindR (get_and_mutate muts idx s1 bs) (\<lambda>(outcome, s2, bs2).
       case m_mopt s2 of None \<Rightarrow> Err Panic | Some m \<Rightarrow>
         bindR (cnt idx m) (\<lambda>m'.
           mopt_stack cnt muts n (if outcome = Mutated then Mutated else r) (s2\<lparr>m_mopt := Some m'\<rparr>) bs2)))"

definition core_mutate :: "mutator list \<Rightarrow> nat \<Rightarrow> mutator" where
  "core_mutate muts max_stack_pow s bs = (case m_mopt s of None \<Rightarrow> Err Panic | Some m \<Rightarrow>
     if \<not> mopt_shape m then Err Panic
     else let s1 = s\<lparr>m_mopt := Some (m\<lparr>core_operator_cycles_v3 := core_operator_cycles_v2 m\<rparr>)\<rparr>;
              (num, s2) = iterations max_stack_pow s1
          in mopt_stack count_core muts num Skipped s2 bs)"

definition pilot_mutate :: "mutator list \<Rightarrow> nat \<Rightarrow> mutator" where
  "pilot_mutate muts max_stack_pow s bs = (case m_mopt s of None \<Rightarrow> Err Panic | Some m \<Rightarrow>
     if \<not> mopt_shape m \<or> swarm_num m \<le> swarm_now m then Err Panic
     else let k = swarm_now m;
              s1 = s\<lparr>m_mopt := Some (m\<lparr>pilot_operator_cycles_v3 :=
                     (pilot_operator_cycles_v3 m)[k := pilot_operator_cycles_v2 m ! k]\<rparr>)\<rparr>;
              (num, s2) = iterations max_stack_pow s1
          in mopt_stack (count_pilot k) muts num Skipped s2 bs)"

definition finds_now :: "fuzz_state \<Rightarrow> nat" where
  "finds_now s = count (st_corpus s) + count (st_solutions s)"

definition mopt_mutate :: "mutator list \<Rightarrow> std_mopt \<Rightarrow> fuzz_state \<Rightarrow> u8 list \<Rightarrow>
    error + (mutation_result \<times> std_mopt \<times> fuzz_state \<times> u8 list)" where
  "mopt_mutate muts mp s bs =
     (let mp1 = mp\<lparr>mp_finds_before := finds_now s\<rparr> in
      bindR (case mp_mode mp1 of
           Corefuzzing \<Rightarrow> core_mutate muts (mp_max_stack_pow mp1) s bs
         | Pilotfuzzing \<Rightarrow> pilot_mutate muts (mp_max_stack_pow mp1) s bs)
        (\<lambda>(r, s', bs'). Ok (r, mp1, s', bs')))"

text \<open>Finds are credited to the operators applied since the last mutation started.\<close>

definition credit_finds :: "nat \<Rightarrow> u64 list \<Rightarrow> u64 list \<Rightarrow> u64 list \<Rightarrow> u64 list" where
  "credit_finds diff v2 v3 finds =
     map (\<lambda>(c2, c3, f). if c3 < c2 then f + of_nat diff else f) (zip v2 (zip v3 finds))"

definition core_post_exec :: "nat \<Rightarrow> mopt \<Rightarrow> error + (mopt_mode \<times> mopt)" where
  "core_post_exec diff m =
     (let m1 = m\<lparr>core_time := core_time m + 1\<rparr>;
          m2 = (if 0 < diff then m1\<lparr>total_finds := total_finds m1 + diff,
                  core_operator_finds_v2 := credit_finds diff (core_operator_cycles_v2 m1) (core_operator_cycles_v3 m1)
                    (core_operator_finds_v2 m1)\<rparr> else m1)
      in if period_core m2 < core_time m2
         then bindR (pso_update (m2\<lparr>core_time := 0, finds_until_last_swarm := total_finds m2,
              core_operator_finds := core_operator_finds_v2 m2, core_operator_cycles := core_operator_cycles_v2 m2\<rparr>))
           (\<lambda>m3. Ok (Pilotfuzzing, m3))
         else Ok (Corefuzzing, m2))"

definition operator_eff :: "u64 \<Rightarrow> u64 \<Rightarrow> u64 \<Rightarrow> u64 \<Rightarrow> f64" where
  "operator_eff finds_v2 finds cycles_v2 cycles =
     (if cycles < cycles_v2 then fdiv (f_of_u64 (finds_v2 - finds)) (f_of_u64 (cycles_v2 - cycles)) else Fin 0)"

fun best_swarm :: "f64 \<Rightarrow> nat \<Rightarrow> nat \<Rightarrow> f64 list \<Rightarrow> nat" where
  "best_swarm eff best i [] = best"
| "best_swarm eff best i (f # fs) = (if flt eff f then best_swarm f i (Suc i) fs else best_swarm eff best (Suc i) fs)"

definition end_pilot_period :: "mopt \<Rightarrow> mopt" where
  "end_pilot_period m =
     (let k = swarm_now m;
          new_finds = total_finds m - finds_until_last_swarm m;
          f = fdiv (f_of_nat new_finds) (fdiv (f_of_nat (pilot_time m)) PERIOD_PILOT_COEF);
          effs = map (\<lambda>i. operator_eff (pilot_operator_finds_v2 m ! k ! i) (pilot_operator_finds m ! k ! i)
                            (pilot_operator_cycles_v2 m ! k ! i) (pilot_operator_cycles m ! k ! i)) [0..<operator_num m]
      in m\<lparr>swarm_fitness := (swarm_fitness m)[k := f], pilot_time := 0, finds_until_last_swarm := total_finds m,
           eff_best := (eff_best m)[k := map (\<lambda>(b, e). if flt b e then e else b) (zip (eff_best m ! k) effs)],
           l_best := (l_best m)[k := map (\<lambda>(b, e, l, x). if flt b e then x else l)
             (zip (eff_best m ! k) (zip effs (zip (l_best m ! k) (x_now m ! k))))],
           pilot_operator_finds := (pilot_operator_finds m)[k := pilot_operator_finds_v2 m ! k],
           pilot_operator_cycles := (pilot_operator_cycles m)[k := pilot_operator_cycles_v2 m ! k],
           swarm_now := k + 1\<rparr>)"

definition enter_core :: "mopt \<Rightarrow> mopt" where
  "enter_core m = m\<lparr>core_operator_cycles_v2 := core_operator_cycles m, core_operator_cycles_v3 := core_operator_cycles m,
     core_operator_finds_v2 := core_operator_finds m, swarm_now := best_swarm (Fin 0) 0 0 (swarm_fitness m)\<rparr>"

definition pilot_post_exec :: "nat \<Rightarrow> mopt \<Rightarrow> error + (mopt_mode \<times> mopt)" where
  "pilot_post_exec diff m =
     (let k = swarm_now m; m1 = m\<lparr>pilot_time := pilot_time m + 1\<rparr>;
          m2 = (if 0 < diff then m1\<lparr>total_finds := total_finds m1 + diff,
                  pilot_operator_finds_v2 := (pilot_operator_finds_v2 m1)[k :=
                    credit_finds diff (pilot_operator_cycles_v2 m1 ! k) (pilot_operator_cycles_v3 m1 ! k)
                      (pilot_operator_finds_v2 m1 ! k)]\<rparr> else m1)
      in if 0 < diff \<and> 0 < operator_num m \<and> swarm_num m \<le> k then Err Panic
         else if \<not> period_pilot m2 < pilot_time m2 then Ok (Pilotfuzzing, m2)
         else if total_finds m2 < finds_until_last_swarm m2 \<or> swarm_num m \<le> k then Err Panic
         else let m3 = end_pilot_period m2 in
           if swarm_num m3 = 1 then bindR (pso_update m3) (\<lambda>m4. Ok (Pilotfuzzing, m4))
           else if swarm_now m3 = swarm_num m3 then Ok (Corefuzzing, enter_core m3)
           else Ok (Pilotfuzzing, m3))"

definition mopt_post_exec :: "std_mopt \<Rightarrow> fuzz_state \<Rightarrow> error + (std_mopt \<times> fuzz_state)" where
  "mopt_post_exec mp s = (case m_mopt s of None \<Rightarrow> Err Panic | Some m \<Rightarrow>
     if \<not> mopt_shape m then Err Panic
     else bindR ((case mp_mode mp of Corefuzzing \<Rightarrow> core_post_exec | Pilotfuzzing \<Rightarrow> pilot_post_exec)
         (finds_now s - mp_finds_before mp) m)
       (\<lambda>(md, m'). Ok (mp\<lparr>mp_mode := md\<rparr>, s\<lparr>m_mopt := Some m'\<rparr>)))"

section \<open>Ranges of the particles\<close>

lemma grids: "grid 0" "grid 1" "grid 60" "grid 61" "grid 62" "grid 64" "grid (-62)" "grid (-61)" "grid 5000" "grid 3047"
  "grid (5 / 8)" "grid (15 / 16)" "grid (39 / 64)" "grid 65" "grid (-64)" "grid (-1)" "grid 5001" "grid (23 / 32)" "grid (1 / 32)"
  by code_simp+

lemma literals: "float_in (1 / 32) 1 V_MIN" "wf64 V_MIN" "wf64 V_MAX" "float_in (1 / 32) 1 V_MAX" "fle V_MIN V_MAX"
  "float_in 0 (5 / 16) (f_lit (3 / 10))" "float_in 0 (39 / 64) (fsub (f_lit (9 / 10)) (f_lit (3 / 10)))"
  "float_in 0 1 (f_lit (1 / 2))" "float_in 0 1 (f_lit (1 / 10))" "float_in (1 / 32) (13 / 128) (f_lit (1 / 10))"
  "float_in 0 (23 / 32) (f_lit (7 / 10))"
  "float_in (98 / 100) (999 / 1000) (f_lit (99 / 100))" "float_in (1001 / 1000) 2 (f_lit (101 / 100))"
  by code_simp+

lemma next_float_in: "float_in 0 1 (fst (next_float nxt r))"
  "val (fst (next_float nxt r)) \<le> 1 - eps" "0 \<le> val (fst (next_float nxt r))"
proof -
  define n where "n = unat (fst (nxt r)) mod 2 ^ 53"
  have f: "fst (next_float nxt r) = Fin (of_nat n / 2 ^ 53)" by (simp only: next_float_exact n_def)
  have "n < 2 ^ 53" unfolding n_def by (rule mod_less_divisor) simp
  then have "n \<le> 2 ^ 53 - 1" by linarith
  then have "(of_nat n :: rat) \<le> of_nat (2 ^ 53 - 1)" by (simp only: of_nat_le_iff)
  then have n: "(of_nat n :: rat) \<le> 2 ^ 53 - 1" by simp
  then have "(of_nat n :: rat) / 2 ^ 53 \<le> (2 ^ 53 - 1) / 2 ^ 53" by (intro divide_right_mono) simp_all
  also have "\<dots> = 1 - eps" by (simp add: eps_def)
  finally have le: "(of_nat n :: rat) / 2 ^ 53 \<le> 1 - eps" .
  moreover have "1 - eps \<le> 1" by simp
  ultimately have "(of_nat n :: rat) / 2 ^ 53 \<le> 1" by linarith
  with le show "val (fst (next_float nxt r)) \<le> 1 - eps" "0 \<le> val (fst (next_float nxt r))"
    "float_in 0 1 (fst (next_float nxt r))"
    unfolding f float_in_def by simp_all
qed

lemma clamp_position_in:
  assumes "is_finite x" "wf64 x"
  shows "wf64 (clamp_position x)" "float_in (1 / 32) 1 (clamp_position x)"
proof -
  obtain y where y: "fclamp x V_MIN V_MAX = Some y" using fclamp_some_iff literals(5) by blast
  have e: "y = (let x1 = (if flt x V_MIN then V_MIN else x) in if flt V_MAX x1 then V_MAX else x1)"
    using y literals(5) by (simp add: fclamp_def)
  have f: "is_finite y" "wf64 y"
    using assms literals(1-4) by (auto simp: e Let_def float_in_def)
  have "fle V_MIN y" "fle y V_MAX" using fclamp_range [OF y] finite_not_nan [OF assms(1)] by simp_all
  then show "wf64 (clamp_position x)" "float_in (1 / 32) 1 (clamp_position x)"
    using f literals(1,4) by (auto simp: clamp_position_def y fle_finite float_in_def)
qed

definition particle_ok :: "f64 \<times> f64 \<times> f64 \<times> f64 \<Rightarrow> bool" where
  "particle_ok p = (case p of (x, v, l, g) \<Rightarrow> float_in 0 1 x \<and> float_in (- 64) 64 v \<and> float_in 0 1 l \<and> float_in 0 1 g)"

lemma velocity_in:
  assumes "float_in 0 (15 / 16) w" "particle_ok (x, v, l, g)" "float_in 0 1 f1" "float_in 0 1 f2"
  shows "float_in (- 62) 62 (fadd (fadd (fmul w v) (fmul f1 (fsub l x))) (fmul f2 (fsub g x)))"
proof -
  have p: "float_in 0 1 x" "float_in (- 64) 64 v" "float_in 0 1 l" "float_in 0 1 g"
    using assms(2) by (simp_all add: particle_ok_def)
  have f: "float_in (- 1) 1 f1" "float_in (- 1) 1 f2" "float_in (- (15 / 16)) (15 / 16) w"
    using assms by (auto intro: float_in_widen)
  have d: "float_in (- 1) 1 (fsub l x)" "float_in (- 1) 1 (fsub g x)"
    using fsub_in [OF p(3,1)] fsub_in [OF p(4,1)] grids by simp_all
  have m: "float_in (- 60) 60 (fmul w v)" using fmul_in_abs [OF f(3) p(2)] grids by simp
  have q: "float_in (- 1) 1 (fmul f1 (fsub l x))" "float_in (- 1) 1 (fmul f2 (fsub g x))"
    using fmul_in_abs [OF f(1) d(1)] fmul_in_abs [OF f(2) d(2)] grids by simp_all
  have "float_in (- 61) 61 (fadd (fmul w v) (fmul f1 (fsub l x)))" using fadd_in [OF m q(1)] grids by simp
  from fadd_in [OF this q(2)] grids show ?thesis by simp
qed

lemma move_particles_in:
  assumes "float_in 0 (15 / 16) w" "list_all particle_ok ps" "move_particles w ps r = (qs, r')"
  shows "length qs = length ps \<and> (\<forall>(x, v) \<in> set qs. wf64 x \<and> float_in (1 / 32) 1 x \<and> float_in (- 64) 64 v)"
  using assms(2,3)
proof (induction ps arbitrary: r qs r')
  case (Cons p ps)
  obtain x v l g where p: "p = (x, v, l, g)" by (cases p) auto
  obtain f1 r1 where f1: "next_float std_rand_next r = (f1, r1)" by fastforce
  obtain f2 r2 where f2: "next_float std_rand_next r1 = (f2, r2)" by fastforce
  obtain rest r3 where rest: "move_particles w ps r2 = (rest, r3)" by fastforce
  define v' where "v' = fadd (fadd (fmul w v) (fmul f1 (fsub l x))) (fmul f2 (fsub g x))"
  have qs: "qs = (clamp_position (fadd x v'), v') # rest"
    using Cons.prems(2) by (simp add: p f1 f2 rest v'_def Let_def)
  have v: "float_in (- 62) 62 v'" unfolding v'_def
    using velocity_in [OF assms(1)] Cons.prems(1) next_float_in(1) [of std_rand_next r] next_float_in(1) [of std_rand_next r1] f1 f2
    by (simp add: p)
  have x: "float_in 0 1 x" using Cons.prems(1) by (simp add: p particle_ok_def)
  have "float_in (- 64) 64 (fadd x v')" using fadd_in [OF x v] grids by simp
  then have "is_finite (fadd x v')" by (simp add: float_in_def)
  then show ?case using clamp_position_in [of "fadd x v'"] Cons.IH [OF _ rest] Cons.prems(1) v
    by (auto simp: qs intro: float_in_widen)
qed simp

lemma length_cumulate [simp]: "length (cumulate p xs) = length xs"
  by (induction xs arbitrary: p) (simp_all add: Let_def)

lemma length_probabilities [simp]: "length (probabilities xs) = length xs"
  by (cases xs) simp_all

lemma length_normalise [simp]: "length (normalise xs) = length xs"
  by (simp add: normalise_def Let_def)

lemma row_eq_Nil [simp]: "probabilities xs = [] \<longleftrightarrow> xs = []" "normalise xs = [] \<longleftrightarrow> xs = []"
  by (cases xs; simp) (simp add: normalise_def Let_def)

lemma last_cumulate: "last (p # cumulate p xs) = foldl fadd p xs"
  by (induction xs arbitrary: p) (simp_all add: Let_def)

lemma last_probabilities: "xs \<noteq> [] \<Longrightarrow> last (probabilities xs) = foldl fadd (hd xs) (tl xs)"
  using last_cumulate by (cases xs) simp_all

text \<open>Cumulated probabilities are finite and never decrease.\<close>

lemma cumulate_sorted:
  assumes "wf64 p" "is_finite p" "0 \<le> val p" "val p \<le> of_nat k" "k + length xs < 2 ^ 53" "\<forall>x \<in> set xs. in_unit x \<and> wf64 x"
  shows "sorted_wrt fle (p # cumulate p xs) \<and> (\<forall>q \<in> set (cumulate p xs). is_finite q \<and> wf64 q)"
  using assms
proof (induction xs arbitrary: p k)
  case (Cons x xs)
  let ?q = "fadd p x"
  have q: "is_finite ?q \<and> 0 \<le> val ?q \<and> val ?q \<le> of_nat (k + 1)"
    using foldl_fadd_val [of p k "[x]"] Cons.prems by simp
  have le: "fle p ?q" using fadd_ge_both(1) [of p x] Cons.prems by (simp add: fle_finite)
  have IH: "sorted_wrt fle (?q # cumulate ?q xs) \<and> (\<forall>q \<in> set (cumulate ?q xs). is_finite q \<and> wf64 q)"
    using Cons.IH [of ?q "k + 1"] Cons.prems q by simp
  then show ?case using le q by (auto simp: Let_def intro: fle_trans [OF le])
qed simp

section \<open>A step of a swarm\<close>

definition unit_row :: "nat \<Rightarrow> f64 list \<Rightarrow> bool" where
  "unit_row n xs = (length xs = n \<and> list_all (float_in 0 1) xs)"

definition velocity_row :: "nat \<Rightarrow> f64 list \<Rightarrow> bool" where
  "velocity_row n vs = (length vs = n \<and> list_all (float_in (- 64) 64) vs)"

definition probability_row :: "nat \<Rightarrow> f64 list \<Rightarrow> bool" where
  "probability_row n qs = (length qs = n \<and> sorted_wrt fle qs \<and> list_all (\<lambda>q. is_finite q \<and> wf64 q) qs \<and>
     float_in (999 / 1000) (1001 / 1000) (last qs))"

lemma unit_row_replicate: "float_in 0 1 x \<Longrightarrow> unit_row n (replicate n x)"
  by (simp add: unit_row_def list_all_length)

lemma particles_ok:
  assumes "unit_row n xs" "velocity_row n vs" "unit_row n ls" "unit_row n gs"
  shows "list_all particle_ok (zip xs (zip vs (zip ls gs)))"
  using assms by (auto simp: unit_row_def velocity_row_def particle_ok_def list_all_length)

lemma normalise_row:
  assumes "normalisable xs"
  shows "unit_row (length xs) (normalise xs)" "\<forall>y \<in> set (normalise xs). in_unit y \<and> wf64 y"
    "probability_row (length xs) (probabilities (normalise xs))"
proof -
  have e: "normalise xs = map (\<lambda>x. fdiv x (foldl fadd (Fin 0) xs)) xs" by (simp add: normalise_def)
  have len: "length xs \<le> 2 ^ 20" "xs \<noteq> []" using assms by (simp_all add: normalisable_def)
  show u: "\<forall>y \<in> set (normalise xs). in_unit y \<and> wf64 y"
    using quotient_val(1) [OF assms] by (auto simp: e)
  then show "unit_row (length xs) (normalise xs)" by (simp add: unit_row_def list_all_iff float_in_def)
  obtain y ys where y: "normalise xs = y # ys" using len(2) by (cases "normalise xs") (auto simp: e)
  have "length ys < length xs" using arg_cong [OF y, of length] by simp
  then have c: "sorted_wrt fle (y # cumulate y ys) \<and> (\<forall>q \<in> set (cumulate y ys). is_finite q \<and> wf64 q)"
    using cumulate_sorted [of y 1 ys] u y len(1) by simp
  have l: "last (probabilities (normalise xs)) = foldl fadd (hd (normalise xs)) (tl (normalise xs))"
    by (rule last_probabilities) (simp add: y)
  have "float_in (999 / 1000) (1001 / 1000) (last (probabilities (normalise xs)))"
    unfolding float_in_def l using normalised_total [OF assms] by (simp add: e)
  moreover have "length (probabilities (normalise xs)) = length xs" by simp
  ultimately show "probability_row (length xs) (probabilities (normalise xs))"
    unfolding probability_row_def using c u by (simp add: y list_all_iff)
qed

lemma probability_row_check:
  "probability_row n qs \<Longrightarrow> \<not> flt (last qs) (f_lit (99 / 100)) \<and> \<not> flt (f_lit (101 / 100)) (last qs)"
  using literals(12,13) by (auto simp: probability_row_def float_in_def flt_finite)

lemma swarm_step_ok:
  assumes "float_in 0 (15 / 16) w" "unit_row n xs" "velocity_row n vs" "unit_row n ls" "unit_row n gs" "0 < n" "n \<le> 2 ^ 20"
  shows "\<exists>ys vs' qs r'. swarm_step w xs vs ls gs r = Ok (ys, vs', qs, r') \<and>
    unit_row n ys \<and> velocity_row n vs' \<and> probability_row n qs"
proof -
  obtain ps r' where m: "move_particles w (zip xs (zip vs (zip ls gs))) r = (ps, r')" by fastforce
  have len: "length (zip xs (zip vs (zip ls gs))) = n" using assms by (simp add: unit_row_def velocity_row_def)
  have ps: "length ps = n" "\<forall>(x, v) \<in> set ps. wf64 x \<and> float_in (1 / 32) 1 x \<and> float_in (- 64) 64 v"
    using move_particles_in [OF assms(1) particles_ok [OF assms(2-5)] m] len by auto
  have n: "normalisable (map fst ps)"
    using ps assms(6,7) unfolding normalisable_def float_in_def by fastforce
  note row = normalise_row [OF n]
  have "velocity_row n (map snd ps)" using ps by (fastforce simp: velocity_row_def list_all_iff)
  moreover have "probabilities (normalise (map fst ps)) \<noteq> []"
    using ps(1) assms(6) by auto
  ultimately show ?thesis using row(1,3) probability_row_check [OF row(3)] ps(1)
    by (auto simp: swarm_step_def m Let_def)
qed

lemma draw_positions_ok:
  "draw_positions n r = (xs, r') \<Longrightarrow> length xs = n \<and> (\<forall>x \<in> set xs. wf64 x \<and> float_in (1 / 32) 1 x)"
proof (induction n arbitrary: r xs r')
  case (Suc n)
  obtain f r1 where f: "next_float std_rand_next r = (f, r1)" by fastforce
  obtain ys r2 where ys: "draw_positions n r1 = (ys, r2)" by fastforce
  have xs: "xs = fadd (fmul (f_lit (7 / 10)) f) (f_lit (1 / 10)) # ys" using Suc.prems by (simp add: f ys)
  have "float_in 0 1 f" using next_float_in(1) [of std_rand_next r] by (simp add: f)
  from fmul_in_pos [OF literals(11) this, of "23 / 32"] grids have "float_in 0 (23 / 32) (fmul (f_lit (7 / 10)) f)" by simp
  from fadd_in [OF this literals(10), of "1 / 32" 1] have "float_in (1 / 32) 1 (fadd (fmul (f_lit (7 / 10)) f) (f_lit (1 / 10)))"
    using grids by simp
  then show ?case using Suc.IH [OF ys] by (simp add: xs)
qed simp

section \<open>The invariant of the optimiser\<close>

definition swarm_ok :: "mopt \<Rightarrow> nat \<Rightarrow> bool" where
  "swarm_ok m k = (unit_row (operator_num m) (x_now m ! k) \<and> unit_row (operator_num m) (l_best m ! k) \<and>
     velocity_row (operator_num m) (v_now m ! k) \<and> probability_row (operator_num m) (probability_now m ! k))"

definition finds_bounded :: "mopt \<Rightarrow> bool" where
  "finds_bounded m = (finds_until_last_swarm m \<le> total_finds m \<and>
     list_all (\<lambda>f. unat f \<le> total_finds m) (core_operator_finds m @ core_operator_finds_v2 m) \<and>
     list_all (list_all (\<lambda>f. unat f \<le> total_finds m)) (pilot_operator_finds m @ pilot_operator_finds_v2 m))"

definition mopt_coeffs :: "mopt \<Rightarrow> bool" where
  "mopt_coeffs m = (w_init m = f_lit (9 / 10) \<and> w_end m = f_lit (3 / 10) \<and> g_max m = Fin 5000 \<and> float_in 0 5000 (g_now m))"

definition mopt_clock :: "mopt \<Rightarrow> bool" where
  "mopt_clock m = (period_pilot m = 50000 \<and> period_core m = 500000 \<and> pilot_time m \<le> 50000 \<and> core_time m \<le> 500000 \<and>
     list_all fnonneg (swarm_fitness m))"

definition mopt_inv :: "mopt \<Rightarrow> bool" where
  "mopt_inv m = (mopt_shape m \<and> 0 < operator_num m \<and> operator_num m \<le> 2 ^ 20 \<and> 0 < swarm_num m \<and>
     mopt_coeffs m \<and> mopt_clock m \<and> (\<forall>k < swarm_num m. swarm_ok m k) \<and> unit_row (operator_num m) (g_best m) \<and> finds_bounded m)"

definition mopt_wf :: "mopt \<Rightarrow> bool" where
  "mopt_wf m = (mopt_inv m \<and> swarm_now m < swarm_num m)"

text \<open>The number of finds for which no sum of counters wraps.\<close>

definition finds_small :: "mopt \<Rightarrow> bool" where
  "finds_small m = (total_finds m * (operator_num m * (swarm_num m + 1)) < 2 ^ 64)"

lemma mopt_w_in: "mopt_coeffs m \<Longrightarrow> float_in 0 (15 / 16) (mopt_w m)"
proof -
  assume c: "mopt_coeffs m"
  then have g: "float_in 0 5000 (g_now m)" "g_max m = Fin 5000" by (simp_all add: mopt_coeffs_def)
  have k: "float_in 5000 5000 (Fin 5000)" by (simp add: float_in_def)
  have a: "float_in 0 5000 (fsub (g_max m) (g_now m))" using fsub_in [OF k g(1)] grids by (simp add: g(2))
  have b: "float_in 0 (39 / 64) (fsub (w_init m) (w_end m))" using c literals(7) by (simp add: mopt_coeffs_def)
  have "float_in 0 3047 (fmul (fsub (w_init m) (w_end m)) (fsub (g_max m) (g_now m)))"
    using fmul_in_pos [OF b a] grids by simp
  from fdiv_in_pos [OF this k] have "float_in 0 (5 / 8) (fdiv (fmul (fsub (w_init m) (w_end m)) (fsub (g_max m) (g_now m))) (g_max m))"
    using grids by (simp add: g(2))
  moreover have "float_in 0 (5 / 16) (w_end m)" using c literals(6) by (simp add: mopt_coeffs_def)
  ultimately show ?thesis unfolding mopt_w_def using fadd_in [of 0 "5 / 8" _ 0 "5 / 16"] grids by simp
qed

lemma matrix_simps:
  "matrix m xss \<Longrightarrow> length xss = swarm_num m"
  "matrix m xss \<Longrightarrow> k < swarm_num m \<Longrightarrow> length (xss ! k) = operator_num m"
  "matrix m xss \<Longrightarrow> length xs = operator_num m \<Longrightarrow> matrix m (xss[k := xs])"
  by (auto simp: matrix_def list_all_iff dest: set_update_subset_insert [THEN subsetD])

text \<open>What the loops over the swarms may change.\<close>

definition moved :: "mopt \<Rightarrow> mopt \<Rightarrow> bool" where
  "moved m m' = (\<exists>r X V L G P.
     m' = m\<lparr>mo_rand := r, x_now := X, v_now := V, l_best := L, g_best := G, probability_now := P\<rparr>)"

lemma moved_refl: "moved m m"
  unfolding moved_def
  by (intro exI [of _ "mo_rand m"] exI [of _ "x_now m"] exI [of _ "v_now m"] exI [of _ "l_best m"] exI [of _ "g_best m"]
      exI [of _ "probability_now m"]) simp

lemma moved_trans: "moved m m1 \<Longrightarrow> moved m1 m2 \<Longrightarrow> moved m m2"
  unfolding moved_def by fastforce

lemma moved_fields:
  assumes "moved m m'"
  shows "operator_num m' = operator_num m" "swarm_num m' = swarm_num m" "w_now m' = w_now m" "mopt_coeffs m' = mopt_coeffs m"
    "swarm_now m' = swarm_now m" "finds_bounded m' = finds_bounded m" "total_finds m' = total_finds m"
    "period_pilot m' = period_pilot m" "period_core m' = period_core m" "pilot_time m' = pilot_time m" "core_time m' = core_time m"
    "finds_until_last_swarm m' = finds_until_last_swarm m" "pilot_operator_cycles_v2 m' = pilot_operator_cycles_v2 m"
    "core_operator_cycles_v2 m' = core_operator_cycles_v2 m" "mopt_clock m' = mopt_clock m" "swarm_fitness m' = swarm_fitness m"
  using assms by (auto simp: moved_def mopt_coeffs_def finds_bounded_def mopt_clock_def)

lemma swarm_moved:
  assumes "mopt_shape m" "unit_row (operator_num m) ys" "velocity_row (operator_num m) vs" "probability_row (operator_num m) qs"
    "unit_row (operator_num m) ls" "length gs = operator_num m" "k < swarm_num m"
    and m1_def: "m1 = m\<lparr>mo_rand := r, x_now := (x_now m)[k := ys], v_now := (v_now m)[k := vs],
    l_best := (l_best m)[k := ls], g_best := gs, probability_now := (probability_now m)[k := qs]\<rparr>"
  shows "mopt_shape m1" "moved m m1" "\<And>j. j < swarm_num m \<Longrightarrow> j = k \<or> swarm_ok m j \<Longrightarrow> swarm_ok m1 j"
proof -
  have lens: "length ys = operator_num m" "length vs = operator_num m" "length qs = operator_num m" "length ls = operator_num m"
    using assms(2-5) by (simp_all add: unit_row_def velocity_row_def probability_row_def)
  have mx: "matrix m1 X = matrix m X" "matrix m1 U = matrix m U" for X :: "f64 list list" and U :: "u64 list list"
    by (simp_all add: matrix_def m1_def)
  show "mopt_shape m1" using assms(1,6) lens
    by (simp add: mopt_shape_def mx) (simp add: m1_def matrix_simps(3))
  show "moved m m1" unfolding moved_def m1_def by blast
  have "length (x_now m) = swarm_num m" "length (v_now m) = swarm_num m" "length (l_best m) = swarm_num m"
    "length (probability_now m) = swarm_num m" using assms(1) by (simp_all add: mopt_shape_def matrix_def)
  then show "swarm_ok m1 j" if "j < swarm_num m" "j = k \<or> swarm_ok m j" for j
    using that assms(2-5,7) by (auto simp: swarm_ok_def m1_def nth_list_update)
qed

text \<open>The loop over the swarms at the start.\<close>

lemma init_swarms_ok:
  assumes "float_in 0 (15 / 16) (w_now m)" "0 < operator_num m" "operator_num m \<le> 2 ^ 20" "mopt_shape m"
    "set ks \<subseteq> {..<swarm_num m}" "\<forall>k < swarm_num m. k \<in> set ks \<or> swarm_ok m k"
    "ks = [] \<longrightarrow> unit_row (operator_num m) (g_best m)"
  shows "\<exists>m'. init_swarms ks m = Ok m' \<and> moved m m' \<and> mopt_shape m' \<and> (\<forall>k < swarm_num m. swarm_ok m' k) \<and>
    unit_row (operator_num m) (g_best m')"
  using assms
proof (induction ks arbitrary: m)
  case (Cons k ks)
  let ?n = "operator_num m"
  let ?ls = "replicate ?n (f_lit (1 / 2))"
  let ?vs = "replicate ?n (f_lit (1 / 10))"
  obtain xs r1 where xs: "draw_positions ?n (mo_rand m) = (xs, r1)" by fastforce
  have l: "unit_row ?n ?ls" "velocity_row ?n ?vs"
    using literals(8,9) by (auto simp: unit_row_def velocity_row_def list_all_length intro: float_in_widen)
  have nx: "normalisable xs"
    using draw_positions_ok [OF xs] Cons.prems(2,3) unfolding normalisable_def float_in_def by fastforce
  then have u: "unit_row ?n (normalise xs)" using normalise_row(1) [of xs] draw_positions_ok [OF xs] by simp
  obtain ys vs qs r2 where st: "swarm_step (w_now m) (normalise xs) ?vs ?ls ?ls r1 = Ok (ys, vs, qs, r2)"
    and ok: "unit_row ?n ys" "velocity_row ?n vs" "probability_row ?n qs"
    using swarm_step_ok [OF Cons.prems(1) u l(2) l(1) l(1) Cons.prems(2,3)] by blast
  define m1 where "m1 = m\<lparr>mo_rand := r2, x_now := (x_now m)[k := ys], v_now := (v_now m)[k := vs],
    l_best := (l_best m)[k := ?ls], g_best := ?ls, probability_now := (probability_now m)[k := qs]\<rparr>"
  have e: "init_swarms (k # ks) m = init_swarms ks m1" by (simp add: xs Let_def st m1_def)
  have k: "k < swarm_num m" "length ?ls = ?n" using Cons.prems(5) by simp_all
  note mv = swarm_moved [OF Cons.prems(4) ok l(1) k(2,1) m1_def]
  note f = moved_fields [OF mv(2)]
  have "\<forall>j < swarm_num m. j \<in> set ks \<or> swarm_ok m1 j" using mv(3) Cons.prems(6) by auto
  moreover have "g_best m1 = ?ls" by (simp add: m1_def)
  ultimately have "\<exists>m'. init_swarms ks m1 = Ok m' \<and> moved m1 m' \<and> mopt_shape m' \<and> (\<forall>k < swarm_num m. swarm_ok m' k) \<and>
    unit_row ?n (g_best m')"
    using Cons.IH [of m1] mv(1) Cons.prems(1-3,5) l(1) by (simp add: f)
  then show ?case unfolding e using moved_trans [OF mv(2)] by blast
qed (simp add: moved_refl)


lemma mopt_new_ok:
  assumes "0 < n" "n \<le> 2 ^ 20" "0 < k"
  shows "\<exists>m. mopt_new n k seed = Ok m \<and> mopt_wf m \<and> operator_num m = n \<and> swarm_num m = k \<and> total_finds m = 0 \<and>
    period_pilot m = 50000 \<and> period_core m = 500000 \<and> pilot_time m = 0 \<and> core_time m = 0 \<and> swarm_now m = 0"
proof -
  define m where "m = mopt_empty n k seed"
  have new: "mopt_new n k seed = pso_initialize m" by (simp add: mopt_new_def m_def)
  have m: "mopt_shape m" "operator_num m = n" "swarm_num m = k"
    "mopt_coeffs m" "total_finds m = 0" "period_pilot m = 50000" "period_core m = 500000" "pilot_time m = 0" "core_time m = 0"
    "swarm_now m = 0" "finds_bounded m" "g_now m = Fin 0" "mopt_clock m"
    by (simp_all add: m_def mopt_clock_def mopt_empty_def Let_def mopt_shape_def matrix_def list_all_iff mopt_coeffs_def finds_bounded_def float_in_def)
  define m2 where "m2 = m\<lparr>w_now := mopt_w m\<rparr>"
  have w: "float_in 0 (15 / 16) (w_now m2)" using mopt_w_in [OF m(4)] by (simp add: m2_def)
  have sh: "mopt_shape m2" using m(1) by (simp add: m2_def mopt_shape_def matrix_def)
  have fm: "mopt_coeffs m2" "finds_bounded m2" "mopt_clock m2" using m by (simp_all add: m2_def mopt_coeffs_def finds_bounded_def mopt_clock_def)
  have "g_max m = Fin 5000" using m(4) by (simp add: mopt_coeffs_def)
  then have e: "pso_initialize m = init_swarms [0..<k] m2"
    using m by (simp add: pso_initialize_def m2_def)
  have sub: "set [0..<k] \<subseteq> {..<k}" by auto
  from init_swarms_ok [OF w _ _ sh, of "[0..<k]"] assms m sub
  obtain m' where r: "init_swarms [0..<k] m2 = Ok m'" "moved m2 m'" "mopt_shape m'" "\<forall>j < k. swarm_ok m' j" "unit_row n (g_best m')"
    by (auto simp: m2_def)
  note f = moved_fields [OF r(2)]
  have "mopt_wf m'" using assms m(2,3,10) r(3-5) fm by (simp add: mopt_wf_def mopt_inv_def f) (simp add: m2_def)
  then show ?thesis using r(1) new e m by (simp add: f) (simp add: m2_def)
qed

section \<open>Updates\<close>

lemma update_swarms_ok:
  assumes "float_in 0 (15 / 16) (w_now m)" "0 < operator_num m" "operator_num m \<le> 2 ^ 20" "mopt_shape m"
    "set ks \<subseteq> {..<swarm_num m}" "\<forall>k < swarm_num m. swarm_ok m k" "unit_row (operator_num m) (g_best m)"
  shows "\<exists>m'. update_swarms ks m = Ok m' \<and> moved m m' \<and> mopt_shape m' \<and> (\<forall>k < swarm_num m. swarm_ok m' k) \<and>
    g_best m' = g_best m \<and> l_best m' = l_best m"
  using assms
proof (induction ks arbitrary: m)
  case (Cons k ks)
  let ?n = "operator_num m"
  have k: "k < swarm_num m" "length (g_best m) = ?n" using Cons.prems by (simp_all add: unit_row_def)
  have sk: "unit_row ?n (x_now m ! k)" "unit_row ?n (l_best m ! k)" "velocity_row ?n (v_now m ! k)"
    using Cons.prems(6) k by (simp_all add: swarm_ok_def)
  obtain ys vs qs r where st: "swarm_step (w_now m) (x_now m ! k) (v_now m ! k) (l_best m ! k) (g_best m) (mo_rand m) = Ok (ys, vs, qs, r)"
    and ok: "unit_row ?n ys" "velocity_row ?n vs" "probability_row ?n qs"
    using swarm_step_ok [OF Cons.prems(1) sk(1,3,2) Cons.prems(7,2,3)] by blast
  define m1 where "m1 = m\<lparr>mo_rand := r, x_now := (x_now m)[k := ys], v_now := (v_now m)[k := vs], probability_now := (probability_now m)[k := qs]\<rparr>"
  have m1': "m1 = m\<lparr>mo_rand := r, x_now := (x_now m)[k := ys], v_now := (v_now m)[k := vs],
    l_best := (l_best m)[k := l_best m ! k], g_best := g_best m, probability_now := (probability_now m)[k := qs]\<rparr>"
    by (simp add: m1_def)
  have e: "update_swarms (k # ks) m = update_swarms ks m1" by (simp add: st m1_def)
  note mv = swarm_moved [OF Cons.prems(4) ok sk(2) k(2,1) m1']
  note f = moved_fields [OF mv(2)]
  have "\<forall>j < swarm_num m. swarm_ok m1 j" using mv(3) Cons.prems(6) by auto
  moreover have g: "g_best m1 = g_best m" "l_best m1 = l_best m" by (simp_all add: m1_def)
  ultimately have "\<exists>m'. update_swarms ks m1 = Ok m' \<and> moved m1 m' \<and> mopt_shape m' \<and> (\<forall>k < swarm_num m. swarm_ok m' k) \<and>
    g_best m' = g_best m \<and> l_best m' = l_best m"
    using Cons.IH [of m1] mv(1) Cons.prems(1-3,5,7) by (simp add: f g)
  then show ?case unfolding e using moved_trans [OF mv(2)] by blast
qed (simp add: moved_refl)

text \<open>Sums of counters that do not wrap.\<close>

lemma unat_foldl_add:
  "unat a + sum_list (map unat xs) < 2 ^ 64 \<Longrightarrow> unat (foldl (+) (a :: u64) xs) = unat a + sum_list (map unat xs)"
proof (induction xs arbitrary: a)
  case (Cons x xs)
  then have "unat (a + x) = unat a + unat x" by (simp add: unat_plus_if')
  then show ?case using Cons by simp
qed simp

lemma puppet_le:
  assumes "mopt_shape m" "finds_bounded m" "finds_small m" "i < operator_num m"
  shows "unat (puppet_finds m ! i) \<le> total_finds m * (swarm_num m + 1)"
proof -
  let ?T = "total_finds m"
  let ?xs = "map (\<lambda>row. row ! i) (pilot_operator_finds m)"
  have sh: "length (pilot_operator_finds m) = swarm_num m" "\<forall>row \<in> set (pilot_operator_finds m). length row = operator_num m"
    "length (core_operator_finds m) = operator_num m"
    using assms(1) by (auto simp: mopt_shape_def matrix_def list_all_iff)
  have c: "unat (core_operator_finds m ! i) \<le> ?T" using assms(2,4) sh(3) by (simp add: finds_bounded_def list_all_iff)
  have "unat (row ! i) \<le> ?T" if "row \<in> set (pilot_operator_finds m)" for row
  proof -
    have "row ! i \<in> set row" using assms(4) sh(2) that by simp
    then show ?thesis using assms(2) that unfolding finds_bounded_def list_all_iff set_append by blast
  qed
  then have "sum_list (map (\<lambda>row. unat (row ! i)) (pilot_operator_finds m)) \<le> sum_list (map (\<lambda>_. ?T) (pilot_operator_finds m))"
    by (intro sum_list_mono) simp
  then have "sum_list (map unat ?xs) \<le> sum_list (map (\<lambda>_. ?T) (pilot_operator_finds m))" by (simp add: comp_def)
  also have "\<dots> = swarm_num m * ?T" using sh(1) by (simp add: sum_list_triv)
  finally have le: "unat (core_operator_finds m ! i) + sum_list (map unat ?xs) \<le> ?T * (swarm_num m + 1)" using c by (simp add: algebra_simps)
  have "?T * (swarm_num m + 1) \<le> ?T * (operator_num m * (swarm_num m + 1))"
    using assms(4) mult_le_mono [of 1 "operator_num m" "swarm_num m + 1" "swarm_num m + 1"] by (intro mult_le_mono2) simp
  then have lt: "unat (core_operator_finds m ! i) + sum_list (map unat ?xs) < 2 ^ 64"
    using le assms(3) unfolding finds_small_def by linarith
  have "puppet_finds m ! i = foldl (+) (core_operator_finds m ! i) ?xs"
    using assms(4) by (simp add: puppet_finds_def foldl_map)
  then show ?thesis using unat_foldl_add [OF lt] le by simp
qed

lemma puppet_sum:
  assumes "mopt_shape m" "finds_bounded m" "finds_small m" "p \<in> set (puppet_finds m)"
  shows "p \<le> foldl (+) 0 (puppet_finds m)"
proof -
  let ?ps = "puppet_finds m"
  have "\<forall>x \<in> set ?ps. unat x \<le> total_finds m * (swarm_num m + 1)"
    using puppet_le [OF assms(1-3)] by (auto simp: in_set_conv_nth) (simp add: puppet_finds_def)
  then have "sum_list (map unat ?ps) \<le> sum_list (map (\<lambda>_. total_finds m * (swarm_num m + 1)) ?ps)" by (intro sum_list_mono) simp
  also have "\<dots> = total_finds m * (operator_num m * (swarm_num m + 1))"
    by (simp add: sum_list_triv) (simp add: puppet_finds_def algebra_simps)
  finally have "unat (0 :: u64) + sum_list (map unat ?ps) < 2 ^ 64" using assms(3) by (simp add: finds_small_def)
  from unat_foldl_add [OF this] have "unat (foldl (+) 0 ?ps) = sum_list (map unat ?ps)" by simp
  moreover have "unat p \<le> sum_list (map unat ?ps)" using assms(4) by (intro member_le_sum_list) auto
  ultimately show ?thesis by (simp add: word_le_nat_alt)
qed

lemma find_share_in:
  assumes "mopt_shape m" "finds_bounded m" "finds_small m" "p \<in> set (puppet_finds m)" "0 < p"
  shows "float_in 0 1 (fdiv (f_of_u64 p) (f_of_u64 (foldl (+) 0 (puppet_finds m))))"
proof -
  define T where "T = foldl (+) 0 (puppet_finds m)"
  have le: "fle (f_of_u64 p) (f_of_u64 T)" unfolding T_def by (rule f_of_u64_mono [OF puppet_sum [OF assms(1-4)]])
  have "1 \<le> unat p" using assms(5) by (simp add: Suc_le_eq unat_gt_0 word_neq_0_conv)
  then have "fle (Fin 1) (f_of_u64 p)" unfolding f_of_u64_def by (rule f_of_nat_ge_1)
  with le have pos: "1 \<le> val (f_of_u64 p)" "val (f_of_u64 p) \<le> val (f_of_u64 T)" by (simp_all add: fle_finite)
  have "float_in 0 (val (f_of_u64 T)) (f_of_u64 p)" "float_in (val (f_of_u64 T)) (val (f_of_u64 T)) (f_of_u64 T)"
    using pos by (simp_all add: float_in_def)
  from fdiv_in_pos [OF this, of 1] show ?thesis using pos grids by (simp add: T_def)
qed

lemma global_best_in:
  assumes "mopt_shape m" "unit_row (operator_num m) (g_best m)" "finds_bounded m" "finds_small m"
  shows "unit_row (operator_num m) (map (\<lambda>(p, b). if 0 < p
    then fdiv (f_of_u64 p) (f_of_u64 (foldl (+) 0 (puppet_finds m))) else b) (zip (puppet_finds m) (g_best m)))"
proof -
  have "length (puppet_finds m) = operator_num m" by (simp add: puppet_finds_def)
  then show ?thesis using assms(2) find_share_in [OF assms(1,3,4) nth_mem]
    by (simp add: unit_row_def list_all_length)
qed

lemma pso_update_ok:
  assumes "mopt_inv m" "finds_small m"
  shows "\<exists>m'. pso_update m = Ok m' \<and> mopt_wf m' \<and> operator_num m' = operator_num m \<and> swarm_num m' = swarm_num m \<and>
    total_finds m' = total_finds m \<and> swarm_now m' = 0 \<and> pilot_time m' = pilot_time m \<and> core_time m' = core_time m \<and>
    period_pilot m' = period_pilot m \<and> period_core m' = period_core m \<and> swarm_fitness m' = swarm_fitness m \<and>
    finds_until_last_swarm m' = finds_until_last_swarm m"
proof -
  note inv = assms(1) [unfolded mopt_inv_def]
  have as: "mopt_shape m" "0 < operator_num m" "operator_num m \<le> 2 ^ 20" "0 < swarm_num m" "mopt_coeffs m"
    "\<forall>k < swarm_num m. swarm_ok m k" "unit_row (operator_num m) (g_best m)" "finds_bounded m" "finds_small m" "mopt_clock m"
    using inv assms(2) by blast+
  define g where "g = fadd (g_now m) (Fin 1)"
  define m1 where "m1 = m\<lparr>g_now := (if flt (g_max m) g then Fin 0 else g)\<rparr>"
  define m2 where "m2 = m1\<lparr>w_now := mopt_w m1, operator_finds_puppet := puppet_finds m1\<rparr>"
  define T where "T = foldl (+) 0 (puppet_finds m)"
  define G where "G = map (\<lambda>(p, b). if 0 < p then fdiv (f_of_u64 p) (f_of_u64 T) else b) (zip (puppet_finds m) (g_best m))"
  define m3 where "m3 = m2\<lparr>g_best := G\<rparr>"
  have pf: "puppet_finds m1 = puppet_finds m" by (simp add: puppet_finds_def m1_def)
  have pu: "pso_update m = bindR (update_swarms [0..<swarm_num m] m3) (\<lambda>m4. Ok (m4\<lparr>swarm_now := 0\<rparr>))"
    using as(1) unfolding pso_update_def Let_def m3_def m2_def m1_def g_def G_def T_def
    by (simp add: puppet_finds_def)
  have "float_in 0 5001 g" unfolding g_def
    using fadd_in [of 0 5000 "g_now m" 1 1 "Fin 1" 0 5001] as(5) grids by (simp add: mopt_coeffs_def float_in_def)
  then have "float_in 0 5000 (g_now m1)" using as(5)
    by (auto simp: m1_def mopt_coeffs_def float_in_def flt_finite)
  then have c1: "mopt_coeffs m1" using as(5) by (simp add: m1_def mopt_coeffs_def)
  have w: "float_in 0 (15 / 16) (w_now m3)" using mopt_w_in [OF c1] by (simp add: m3_def m2_def)
  have c3: "mopt_coeffs m3" using c1 by (simp add: m3_def m2_def mopt_coeffs_def)
  have b3: "finds_bounded m3" "mopt_clock m3" using as(8,10) by (simp_all add: m3_def m2_def m1_def finds_bounded_def mopt_clock_def)
  have lG: "length G = operator_num m" using as(7) by (simp add: G_def puppet_finds_def unit_row_def)
  have lp: "length (puppet_finds m) = operator_num m" by (simp add: puppet_finds_def)
  have sh: "mopt_shape m3" using as(1) lG lp by (simp add: mopt_shape_def matrix_def m3_def m2_def pf) (simp add: m1_def)
  have gb: "unit_row (operator_num m) G" unfolding G_def T_def by (rule global_best_in [OF as(1,7-9)])
  have sw: "\<forall>k < swarm_num m3. swarm_ok m3 k" using as(6) by (simp add: swarm_ok_def m3_def m2_def m1_def)
  have n3: "operator_num m3 = operator_num m" "swarm_num m3 = swarm_num m" "g_best m3 = G" by (simp_all add: m3_def m2_def m1_def)
  have sub: "set [0..<swarm_num m3] \<subseteq> {..<swarm_num m3}" by auto
  obtain m4 where u: "update_swarms [0..<swarm_num m3] m3 = Ok m4" "moved m3 m4" "mopt_shape m4"
    "\<forall>k < swarm_num m3. swarm_ok m4 k" "g_best m4 = G"
    using update_swarms_ok [OF w _ _ sh sub sw] as(2,3) gb by (auto simp: n3)
  note f = moved_fields [OF u(2)]
  have "mopt_wf (m4\<lparr>swarm_now := 0\<rparr>)"
  proof -
    have "mopt_shape (m4\<lparr>swarm_now := 0\<rparr>)" "mopt_coeffs (m4\<lparr>swarm_now := 0\<rparr>)" "finds_bounded (m4\<lparr>swarm_now := 0\<rparr>)" "mopt_clock (m4\<lparr>swarm_now := 0\<rparr>)"
      "\<forall>k < swarm_num m. swarm_ok (m4\<lparr>swarm_now := 0\<rparr>) k"
      using u(3,4) c3 b3 f(4,6,15) by (simp_all add: mopt_clock_def mopt_shape_def matrix_def mopt_coeffs_def finds_bounded_def swarm_ok_def n3)
    then show ?thesis using as(2-4) gb u(5) by (simp add: mopt_wf_def mopt_inv_def f n3)
  qed
  moreover have "total_finds m4 = total_finds m" "pilot_time m4 = pilot_time m" "core_time m4 = core_time m"
    "period_pilot m4 = period_pilot m" "period_core m4 = period_core m" "swarm_fitness m4 = swarm_fitness m"
    "finds_until_last_swarm m4 = finds_until_last_swarm m" by (simp_all add: f m3_def m2_def m1_def)
  ultimately show ?thesis unfolding pu using u(1) by (simp add: n3 f)
qed

section \<open>Choosing a mutator\<close>

lemma first_above_Some:
  "first_above p j qs = Some i \<Longrightarrow> j \<le> i \<and> i < j + length qs \<and> flt p (qs ! (i - j)) \<and> (\<forall>k < i - j. \<not> flt p (qs ! k))"
proof (induction qs arbitrary: j)
  case (Cons q qs)
  show ?case
  proof (cases "flt p q")
    case False
    then have "first_above p (Suc j) qs = Some i" using Cons.prems by simp
    from Cons.IH [OF this] have *: "Suc j \<le> i" "i < Suc j + length qs" "flt p (qs ! (i - Suc j))" "\<forall>k < i - Suc j. \<not> flt p (qs ! k)"
      by simp_all
    then have "i - j = Suc (i - Suc j)" by simp
    then show ?thesis using * False by (auto simp: less_Suc_eq_0_disj)
  qed (use Cons.prems in auto)
qed simp

lemma first_above_None: "first_above p j qs = None \<longleftrightarrow> (\<forall>q \<in> set qs. \<not> flt p q)"
  by (induction qs arbitrary: j) simp_all

lemma select_draw_below:
  assumes "probability_row n qs" "0 < n"
  shows "flt (fmul (qs ! (n - 1)) (fst (next_float nxt r))) (qs ! (n - 1))" "is_finite (fmul (qs ! (n - 1)) (fst (next_float nxt r)))"
proof -
  let ?f = "fst (next_float nxt r)"
  have len: "length qs = n" using assms(1) by (simp add: probability_row_def)
  then have l: "qs ! (n - 1) = last qs" using assms(2) last_conv_nth [of qs] by auto
  have p: "float_in (999 / 1000) (1001 / 1000) (last qs)" using assms(1) by (simp add: probability_row_def)
  have "last qs \<in> set qs" using len assms(2) by (intro last_in_set) auto
  then have wf: "wf64 (last qs)" using assms(1) by (simp add: probability_row_def list_all_iff)
  have rp: "rnd (val (last qs)) = val (last qs)" using wf_repr [OF wf] p rnd_repr_fix by (simp add: float_in_def)
  have "pow2 (- 1021) \<le> pow2 (- 1)" by (rule pow2_mono) simp
  also have "\<dots> \<le> val (last qs)" using p pow2_diff [of 0 1] pow2_of_nat [of 1] by (simp add: float_in_def)
  finally have big: "pow2 (- 1021) \<le> val (last qs)" .
  have f: "is_finite ?f" using next_float_in(1) [of nxt r] by (simp add: float_in_def)
  have lt: "rnd (val (last qs) * val ?f) < val (last qs)" by (rule rnd_mult_less [OF big rp next_float_in(3,2)])
  have "0 \<le> rnd (val (last qs) * val ?f)" using p next_float_in(3) [of nxt r] by (simp add: rnd_nonneg float_in_def)
  moreover have "(2 :: rat) \<le> maxf" using nat_le_maxf [of 2] by simp
  ultimately have "\<bar>rnd (val (last qs) * val ?f)\<bar> \<le> maxf" using lt p by (simp add: float_in_def)
  note v = val_fmul [OF _ f this]
  show "is_finite (fmul (qs ! (n - 1)) ?f)" "flt (fmul (qs ! (n - 1)) ?f) (qs ! (n - 1))"
    unfolding l using v lt p by (simp_all add: float_in_def flt_finite)
qed

lemma select_algorithm_ok:
  assumes "mopt_wf m"
  defines "qs \<equiv> probability_now m ! swarm_now m" and "f \<equiv> next_float std_rand_next (mo_rand m)"
  shows "\<exists>i. select_algorithm m = Ok (i, m\<lparr>mo_rand := snd f\<rparr>) \<and> i < operator_num m \<and>
    flt (fmul (last qs) (fst f)) (qs ! i) \<and> (\<forall>j < i. fle (qs ! j) (fmul (last qs) (fst f)))"
proof -
  let ?n = "operator_num m"
  let ?p = "fmul (qs ! (?n - 1)) (fst f)"
  have w: "mopt_shape m" "0 < ?n" "swarm_now m < swarm_num m" using assms(1) by (simp_all add: mopt_wf_def mopt_inv_def)
  have row: "probability_row ?n qs" using assms(1) unfolding mopt_wf_def mopt_inv_def swarm_ok_def qs_def by blast
  then have len: "length qs = ?n" by (simp add: probability_row_def)
  then have "qs \<noteq> []" using w(2) by auto
  then have l: "qs ! (?n - 1) = last qs" using len last_conv_nth [of qs] by simp
  have lt: "flt ?p (qs ! (?n - 1))" and fin: "is_finite ?p" using select_draw_below [OF row w(2)] by (simp_all add: f_def)
  then have "first_above ?p 0 qs \<noteq> None" using len w(2) nth_mem [of "?n - 1" qs] unfolding first_above_None by auto
  then obtain i where i: "first_above ?p 0 qs = Some i" by blast
  from first_above_Some [OF i] len have b: "i < ?n" "flt ?p (qs ! i)" "\<forall>k < i. \<not> flt ?p (qs ! k)" by simp_all
  have qf: "is_finite (qs ! k)" if "k < ?n" for k using row that by (simp add: probability_row_def list_all_length)
  have below: "fle (qs ! k) ?p" if "k < i" for k
    using b(1,3) that qf [of k] fin not_flt_fle [of ?p "qs ! k"] finite_not_nan by simp
  have "\<not> flt (qs ! (i + 1)) ?p" if "i + 1 < ?n"
  proof -
    have "fle (qs ! i) (qs ! (i + 1))" using row that len by (simp add: probability_row_def sorted_wrt_iff_nth_less)
    then show ?thesis using b qf that fin by (simp add: flt_finite fle_finite)
  qed
  then have "select_algorithm m = Ok (i, m\<lparr>mo_rand := snd f\<rparr>)"
    using w b(3) i unfolding select_algorithm_def qs_def [symmetric] f_def [symmetric]
    by (auto simp: Let_def case_prod_beta)
  then show ?thesis using b(1,2) below unfolding l by blast
qed

section \<open>A whole mutation\<close>

text \<open>What scheduling a mutation may change of the optimiser.\<close>

definition uncounted :: "mopt \<Rightarrow> mopt" where
  "uncounted m = m\<lparr>mo_rand := std_rand_with_seed 0, core_operator_cycles_v2 := [], core_operator_cycles_v3 := [],
     pilot_operator_cycles_v2 := [], pilot_operator_cycles_v3 := []\<rparr>"

definition counted :: "mopt \<Rightarrow> mopt \<Rightarrow> bool" where
  "counted m m' = (uncounted m' = uncounted m \<and>
     length (core_operator_cycles_v2 m') = length (core_operator_cycles_v2 m) \<and>
     length (core_operator_cycles_v3 m') = length (core_operator_cycles_v3 m) \<and>
     map length (pilot_operator_cycles_v2 m') = map length (pilot_operator_cycles_v2 m) \<and>
     map length (pilot_operator_cycles_v3 m') = map length (pilot_operator_cycles_v3 m))"

lemma counted_refl: "counted m m"
  by (simp add: counted_def)

lemma counted_trans: "counted m m1 \<Longrightarrow> counted m1 m2 \<Longrightarrow> counted m m2"
  by (simp add: counted_def)

lemma uncounted_fields:
  "mopt_coeffs (uncounted m) = mopt_coeffs m" "mopt_clock (uncounted m) = mopt_clock m"
  "finds_bounded (uncounted m) = finds_bounded m" "swarm_ok (uncounted m) k = swarm_ok m k"
  "operator_num (uncounted m) = operator_num m" "swarm_num (uncounted m) = swarm_num m" "swarm_now (uncounted m) = swarm_now m"
  "total_finds (uncounted m) = total_finds m" "g_best (uncounted m) = g_best m"
  by (simp_all add: uncounted_def mopt_coeffs_def mopt_clock_def finds_bounded_def swarm_ok_def)

lemma matrix_shape: "matrix m xss \<longleftrightarrow> map length xss = replicate (swarm_num m) (operator_num m)"
proof
  assume "matrix m xss"
  then show "map length xss = replicate (swarm_num m) (operator_num m)"
    by (intro replicate_eqI) (auto simp: matrix_def list_all_iff)
next
  assume e: "map length xss = replicate (swarm_num m) (operator_num m)"
  have "length xs = operator_num m" if "xs \<in> set xss" for xs
  proof -
    have "length xs \<in> set (map length xss)" using that by simp
    then show ?thesis unfolding e by simp
  qed
  then show "matrix m xss" using arg_cong [OF e, of length] by (simp add: matrix_def list_all_iff)
qed

definition fixed_shape :: "mopt \<Rightarrow> bool" where
  "fixed_shape m =
     (list_all (matrix m) [x_now m, l_best m, eff_best m, v_now m, probability_now m] \<and>
      list_all (matrix m) [pilot_operator_finds m, pilot_operator_finds_v2 m, pilot_operator_cycles m] \<and>
      length (g_best m) = operator_num m \<and> length (swarm_fitness m) = swarm_num m \<and>
      list_all (\<lambda>xs. length xs = operator_num m) [operator_finds_puppet m, core_operator_finds m, core_operator_finds_v2 m,
        core_operator_cycles m])"

lemma mopt_shape_split:
  "mopt_shape m \<longleftrightarrow> fixed_shape m \<and> matrix m (pilot_operator_cycles_v2 m) \<and> matrix m (pilot_operator_cycles_v3 m) \<and>
     length (core_operator_cycles_v2 m) = operator_num m \<and> length (core_operator_cycles_v3 m) = operator_num m"
  by (auto simp: mopt_shape_def fixed_shape_def)

lemma fixed_shape_uncounted: "fixed_shape (uncounted m) = fixed_shape m"
  by (simp add: fixed_shape_def uncounted_def matrix_def)

lemma counted_fields:
  assumes "counted m m'"
  shows "operator_num m' = operator_num m" "swarm_num m' = swarm_num m" "swarm_now m' = swarm_now m" "total_finds m' = total_finds m"
    "mopt_wf m' = mopt_wf m"
proof -
  have u: "uncounted m' = uncounted m" using assms by (simp add: counted_def)
  show f: "operator_num m' = operator_num m" "swarm_num m' = swarm_num m" "swarm_now m' = swarm_now m" "total_finds m' = total_finds m"
    using u by (metis uncounted_fields)+
  have "fixed_shape m' = fixed_shape m" "g_best m' = g_best m" "mopt_coeffs m' = mopt_coeffs m" "mopt_clock m' = mopt_clock m"
    "finds_bounded m' = finds_bounded m" "\<And>k. swarm_ok m' k = swarm_ok m k"
    using u by (metis uncounted_fields fixed_shape_uncounted)+
  moreover have "mopt_shape m' = mopt_shape m"
    using assms calculation(1) by (simp add: mopt_shape_split matrix_shape counted_def f)
  ultimately show "mopt_wf m' = mopt_wf m" by (simp add: mopt_wf_def mopt_inv_def f)
qed

lemma count_core_ok:
  "mopt_wf m \<Longrightarrow> idx < operator_num m \<Longrightarrow> \<exists>m'. count_core idx m = Ok m' \<and> counted m m'"
proof -
  assume "mopt_wf m" "idx < operator_num m"
  then have "idx < length (core_operator_cycles_v2 m)" by (simp add: mopt_wf_def mopt_inv_def mopt_shape_def)
  then show ?thesis by (simp add: count_core_def get_opt_def counted_def uncounted_def)
qed

lemma count_pilot_ok:
  assumes "mopt_wf m" "idx < operator_num m" "k < swarm_num m"
  shows "\<exists>m'. count_pilot k idx m = Ok m' \<and> counted m m'"
proof -
  let ?p = "pilot_operator_cycles_v2 m"
  have "matrix m ?p" using assms(1) by (simp add: mopt_wf_def mopt_inv_def mopt_shape_def)
  then have "k < length ?p" "idx < length (?p ! k)" using assms(2,3) by (simp_all add: matrix_simps)
  then show ?thesis by (simp add: count_pilot_def get_opt_def counted_def uncounted_def map_update list_update_same_conv)
qed

lemma counted_rand: "counted m (m\<lparr>mo_rand := r\<rparr>)"
  by (simp add: counted_def uncounted_def)

definition mopt_frame :: "fuzz_state \<Rightarrow> fuzz_state \<Rightarrow> bool" where
  "mopt_frame s s' = (\<exists>r x. s' = s\<lparr>st_rand := r, m_mopt := x\<rparr>)"

lemma mopt_frame_trans: "mopt_frame s s1 \<Longrightarrow> mopt_frame s1 s2 \<Longrightarrow> mopt_frame s s2"
  by (auto simp: mopt_frame_def) (rule exI, rule exI, rule refl)

lemma mopt_frame_basic: "mopt_frame s (s\<lparr>m_mopt := x\<rparr>)" "only_rand s s' \<Longrightarrow> mopt_frame s s'"
  unfolding mopt_frame_def only_rand_def
  by (rule exI [of _ "st_rand s"], rule exI [of _ x], simp)
    (elim exE, rule exI, rule exI [of _ "m_mopt s"], simp)

lemma mopt_frame_refl: "mopt_frame s s"
  by (rule mopt_frame_basic(2)) simp

lemma mut_pre_frame: "mopt_frame s s' \<Longrightarrow> mut_pre ms s \<Longrightarrow> mut_pre ms s'"
  by (auto simp: mopt_frame_def mut_pre_def)

lemma only_rand_mopt: "only_rand s s' \<Longrightarrow> m_mopt s' = m_mopt s"
  by (auto simp: only_rand_def)

lemma get_and_mutate_beyond: "length muts \<le> i \<Longrightarrow> get_and_mutate muts i s bs = Ok (Skipped, s, bs)"
  by (induction muts arbitrary: i) auto

context mutator_set
begin

lemma pick_ok: "mut_pre ms s \<Longrightarrow> length bs \<le> ms \<Longrightarrow> mut_post ms s bs (get_and_mutate muts i s bs)"
  using each_ok [of "muts ! i"] mut_post_skip [of bs ms s s]
  by (cases "i < length muts") (simp_all add: get_and_mutate_nth mutator_ok_def get_and_mutate_beyond)

lemma mopt_stack_ok:
  assumes m: "m_mopt s = Some m" "counted m0 m" "mopt_wf m0" and pre: "mut_pre ms s" "length bs \<le> ms"
    and cnt: "\<And>m idx. counted m0 m \<Longrightarrow> idx < operator_num m0 \<Longrightarrow> \<exists>m'. cnt idx m = Ok m' \<and> counted m m'"
  shows "\<exists>r' s' bs' m'. mopt_stack cnt muts n r s bs = Ok (r', s', bs') \<and> mopt_frame s s' \<and> m_mopt s' = Some m' \<and> counted m0 m' \<and>
    length bs' \<le> ms \<and> (r' = Skipped \<longrightarrow> r = Skipped \<and> bs' = bs) \<and> (bs \<noteq> [] \<longrightarrow> bs' \<noteq> [])"
  using m pre
proof (induction n arbitrary: r s bs m)
  case 0
  then show ?case using mopt_frame_refl by simp
next
  case (Suc n)
  have wf: "mopt_wf m" "operator_num m = operator_num m0" using counted_fields [OF Suc.prems(2)] Suc.prems(3) by simp_all
  obtain idx rnd where sel: "select_algorithm m = Ok (idx, m\<lparr>mo_rand := rnd\<rparr>)" "idx < operator_num m0"
    using select_algorithm_ok [OF wf(1)] wf(2) by auto
  define m1 where "m1 = m\<lparr>mo_rand := rnd\<rparr>"
  define s1 where "s1 = s\<lparr>m_mopt := Some m1\<rparr>"
  have sch: "mopt_schedule s = Ok (idx, s1)" using sel Suc.prems(1) by (simp add: mopt_schedule_def s1_def m1_def)
  have c1: "counted m0 m1" using counted_trans [OF Suc.prems(2) counted_rand] by (simp add: m1_def)
  have f1: "mopt_frame s s1" by (simp add: s1_def mopt_frame_basic)
  from pick_ok [OF mut_pre_frame [OF f1 Suc.prems(4)] Suc.prems(5), of idx]
  obtain o2 s2 bs2 where o: "get_and_mutate muts idx s1 bs = Ok (o2, s2, bs2)" "only_rand s1 s2"
    "length bs2 \<le> ms" "o2 = Skipped \<longrightarrow> bs2 = bs" "bs \<noteq> [] \<longrightarrow> bs2 \<noteq> []" unfolding mut_post_def by blast
  have m2: "m_mopt s2 = Some m1" using only_rand_mopt [OF o(2)] by (simp add: s1_def)
  obtain m3 where m3: "cnt idx m1 = Ok m3" "counted m1 m3" using cnt [OF c1 sel(2)] by blast
  define s3 where "s3 = s2\<lparr>m_mopt := Some m3\<rparr>"
  have f3: "mopt_frame s s3"
    unfolding s3_def by (rule mopt_frame_trans [OF mopt_frame_trans [OF f1 mopt_frame_basic(2) [OF o(2)]] mopt_frame_basic(1)])
  let ?r = "if o2 = Mutated then Mutated else r"
  have s3: "m_mopt s3 = Some m3" "counted m0 m3" using counted_trans [OF c1 m3(2)] by (simp_all add: s3_def)
  from Suc.IH [OF s3 Suc.prems(3) mut_pre_frame [OF f3 Suc.prems(4)] o(3), of ?r]
  obtain r' s' bs' m' where e: "mopt_stack cnt muts n ?r s3 bs2 = Ok (r', s', bs')" "mopt_frame s3 s'" "m_mopt s' = Some m'"
    "counted m0 m'" "length bs' \<le> ms" "r' = Skipped \<longrightarrow> ?r = Skipped \<and> bs' = bs2" "bs2 \<noteq> [] \<longrightarrow> bs' \<noteq> []" by blast
  have "mopt_stack cnt muts (Suc n) r s bs = Ok (r', s', bs')" using sch o(1) m2 m3(1) e(1) by (simp add: s3_def)
  moreover have "r' = Skipped \<longrightarrow> r = Skipped \<and> bs' = bs" using e(6) o(4) by (cases o2) auto
  ultimately show ?case using mopt_frame_trans [OF f3 e(2)] e(3,4,5,7) o(5) by blast
qed

lemma mopt_loop_ok:
  assumes m: "mopt_wf m" "counted m m1" and pre: "mut_pre ms s" "length bs \<le> ms"
    and cnt: "\<And>m' idx. counted m m' \<Longrightarrow> idx < operator_num m \<Longrightarrow> \<exists>m''. cnt idx m' = Ok m'' \<and> counted m' m''"
  shows "\<exists>r s' bs' m'. (let (num, s2) = iterations pow (s\<lparr>m_mopt := Some m1\<rparr>) in mopt_stack cnt muts num Skipped s2 bs) = Ok (r, s', bs') \<and>
    mopt_frame s s' \<and> m_mopt s' = Some m' \<and> counted m m' \<and> length bs' \<le> ms \<and> (r = Skipped \<longrightarrow> bs' = bs) \<and> (bs \<noteq> [] \<longrightarrow> bs' \<noteq> [])"
proof -
  obtain num s2 where i: "iterations pow (s\<lparr>m_mopt := Some m1\<rparr>) = (num, s2)" by fastforce
  then have o: "only_rand (s\<lparr>m_mopt := Some m1\<rparr>) s2" by (auto simp: iterations_def Let_def rand_mut_only split: prod.splits)
  have f: "mopt_frame s s2" by (rule mopt_frame_trans [OF mopt_frame_basic(1) mopt_frame_basic(2) [OF o]])
  have m2: "m_mopt s2 = Some m1" using only_rand_mopt [OF o] by simp
  from mopt_stack_ok [OF m2 m(2,1) mut_pre_frame [OF f pre(1)] pre(2), of cnt num Skipped] cnt mopt_frame_trans [OF f]
  show ?thesis unfolding i prod.case Let_def by blast
qed

lemma mopt_mutate_ok:
  assumes m: "m_mopt s = Some m" "mopt_wf m" and pre: "mut_pre ms s" "length bs \<le> ms"
  shows "\<exists>r s' bs' m'. mopt_mutate muts mp s bs = Ok (r, mp\<lparr>mp_finds_before := finds_now s\<rparr>, s', bs') \<and> mopt_frame s s' \<and>
    m_mopt s' = Some m' \<and> counted m m' \<and> length bs' \<le> ms \<and> (r = Skipped \<longrightarrow> bs' = bs) \<and> (bs \<noteq> [] \<longrightarrow> bs' \<noteq> [])"
proof -
  have sh: "mopt_shape m" "swarm_now m < swarm_num m" using m(2) by (simp_all add: mopt_wf_def mopt_inv_def)
  show ?thesis
  proof (cases "mp_mode mp")
    case Corefuzzing
    have "counted m (m\<lparr>core_operator_cycles_v3 := core_operator_cycles_v2 m\<rparr>)"
      using sh by (simp add: counted_def uncounted_def mopt_shape_def)
    from mopt_loop_ok [OF m(2) this pre, of count_core "mp_max_stack_pow mp"] count_core_ok counted_fields m(2)
    show ?thesis using m(1) sh Corefuzzing unfolding mopt_mutate_def core_mutate_def by (fastforce simp: Let_def)
  next
    case Pilotfuzzing
    let ?p = "(pilot_operator_cycles_v3 m)[swarm_now m := pilot_operator_cycles_v2 m ! swarm_now m]"
    have "map length ?p = map length (pilot_operator_cycles_v3 m)"
    proof -
      have "matrix m (pilot_operator_cycles_v2 m)" "matrix m (pilot_operator_cycles_v3 m)" using sh(1) by (simp_all add: mopt_shape_def)
      note mx = this [THEN matrix_simps(1)] this [THEN matrix_simps(2), OF sh(2)]
      then show ?thesis using sh(2) by (simp add: map_update list_update_same_conv)
    qed
    then have "counted m (m\<lparr>pilot_operator_cycles_v3 := ?p\<rparr>)" by (simp add: counted_def uncounted_def)
    from mopt_loop_ok [OF m(2) this pre, of "count_pilot (swarm_now m)" "mp_max_stack_pow mp"] count_pilot_ok counted_fields m(2) sh(2)
    show ?thesis using m(1) sh Pilotfuzzing unfolding mopt_mutate_def pilot_mutate_def by (fastforce simp: Let_def)
  qed
qed

end

section \<open>After an execution\<close>

lemma credit_finds_bounded:
  assumes "list_all (\<lambda>f. unat f \<le> T) finds" "length v2 = length finds" "length v3 = length finds" "T + diff < 2 ^ 64"
  shows "list_all (\<lambda>f. unat f \<le> T + diff) (credit_finds diff v2 v3 finds)" "length (credit_finds diff v2 v3 finds) = length finds"
proof -
  have "unat (f + of_nat diff :: u64) \<le> T + diff" if "unat f \<le> T" for f
  proof -
    have d: "unat (of_nat diff :: u64) = diff" using assms(4) by (simp add: unat_of_nat)
    then have "unat f + unat (of_nat diff :: u64) < 2 ^ 64" using that assms(4) by simp
    then show ?thesis using d that by (simp add: unat_plus_if')
  qed
  then show "list_all (\<lambda>f. unat f \<le> T + diff) (credit_finds diff v2 v3 finds)"
    using assms(1-3) by (fastforce simp: credit_finds_def list_all_length)
  show "length (credit_finds diff v2 v3 finds) = length finds" using assms(2,3) by (simp add: credit_finds_def)
qed

text \<open>The swarm chosen for core fuzzing has the best fitness.\<close>

lemma best_swarm_fitness:
  assumes "list_all fnonneg (pre @ fs)" "best < length pre" "pre ! best = eff" "\<forall>f \<in> set pre. fle f eff"
  shows "best_swarm eff best (length pre) fs < length (pre @ fs) \<and>
    (\<forall>f \<in> set (pre @ fs). fle f ((pre @ fs) ! best_swarm eff best (length pre) fs))"
  using assms
proof (induction fs arbitrary: eff best pre)
  case (Cons f fs)
  let ?pre = "pre @ [f]"
  have nn: "\<not> is_nan f" "\<not> is_nan eff" using Cons.prems fle_not_nan by (auto simp: list_all_iff) (metis fle_not_nan nth_mem)+
  have a: "(pre @ f # fs) = ?pre @ fs" "Suc (length pre) = length ?pre" by simp_all
  show ?case
  proof (cases "flt eff f")
    case True
    have "\<forall>g \<in> set ?pre. fle g f" using Cons.prems(4) True flt_imp_fle fle_trans fle_refl [OF nn(1)] by fastforce
    then show ?thesis using Cons.IH [of ?pre "length pre" f] Cons.prems(1) True by (simp add: nth_append)
  next
    case False
    then have "fle f eff" using not_flt_fle nn by blast
    then show ?thesis using Cons.IH [of ?pre best eff] Cons.prems False by (simp add: nth_append)
  qed
qed simp

lemma best_swarm_cong: "(\<And>x. flt e x = flt e' x) \<Longrightarrow> best_swarm e b i fs = best_swarm e' b i fs"
  by (induction fs arbitrary: i) simp_all

lemma best_swarm_ok:
  assumes "list_all fnonneg fs" "fs \<noteq> []"
  shows "best_swarm (Fin 0) 0 0 fs < length fs \<and> (\<forall>f \<in> set fs. fle f (fs ! best_swarm (Fin 0) 0 0 fs))"
proof -
  obtain f fs' where fs: "fs = f # fs'" using assms(2) by (cases fs) auto
  have nn: "\<not> is_nan f" using assms(1) fle_not_nan by (auto simp: fs)
  show ?thesis
  proof (cases "flt (Fin 0) f")
    case True
    then show ?thesis using best_swarm_fitness [of "[f]" fs' 0 f] assms(1) fle_refl [OF nn] by (simp add: fs)
  next
    case False
    have "f = Fin 0 \<or> f = NZero" using False assms(1) by (cases f) (auto simp: fs fle_def flt_def)
    then have "flt (Fin 0) x = flt f x" for x by (cases x) (auto simp: flt_def)
    from best_swarm_cong [OF this] show ?thesis
      using best_swarm_fitness [of "[f]" fs' 0 f] assms(1) fle_refl [OF nn] False by (simp add: fs)
  qed
qed

lemma finds_small_lt: "0 < n \<Longrightarrow> T * (n * (k + 1)) < 2 ^ 64 \<Longrightarrow> T < (2 :: nat) ^ 64"
proof -
  assume "0 < n" "T * (n * (k + 1)) < 2 ^ 64"
  moreover have "T * 1 \<le> T * (n * (k + 1))" using \<open>0 < n\<close> by (intro mult_le_mono2) (simp add: Suc_le_eq)
  ultimately show ?thesis by linarith
qed

lemma list_all_grow: "list_all (\<lambda>f. unat f \<le> T) xs \<Longrightarrow> list_all (\<lambda>f. unat f \<le> T + d) xs"
  by (auto simp: list_all_iff)

lemma list_all_grow2: "list_all (list_all (\<lambda>f. unat f \<le> T)) xss \<Longrightarrow> list_all (list_all (\<lambda>f. unat f \<le> T + d)) xss"
  by (auto simp: list_all_iff trans_le_add1)

lemma core_post_exec_ok:
  assumes "mopt_wf m" "(total_finds m + diff) * (operator_num m * (swarm_num m + 1)) < 2 ^ 64"
  shows "\<exists>m'. core_post_exec diff m = Ok (if core_time m < 500000 then Corefuzzing else Pilotfuzzing, m') \<and>
    mopt_wf m' \<and> total_finds m' = total_finds m + diff \<and> operator_num m' = operator_num m \<and> swarm_num m' = swarm_num m \<and>
    swarm_now m' = (if core_time m < 500000 then swarm_now m else 0) \<and> pilot_time m' = pilot_time m \<and>
    core_time m' = (if core_time m < 500000 then core_time m + 1 else 0) \<and> swarm_fitness m' = swarm_fitness m \<and>
    finds_until_last_swarm m' = (if core_time m < 500000 then finds_until_last_swarm m else total_finds m + diff)"
proof -
  let ?T = "total_finds m + diff"
  define F where "F = (if 0 < diff then credit_finds diff (core_operator_cycles_v2 m) (core_operator_cycles_v3 m) (core_operator_finds_v2 m)
    else core_operator_finds_v2 m)"
  define m2 where "m2 = m\<lparr>core_time := core_time m + 1, total_finds := ?T, core_operator_finds_v2 := F\<rparr>"
  note wf = assms(1) [unfolded mopt_wf_def mopt_inv_def]
  have sh: "mopt_shape m" "finds_bounded m" "mopt_clock m" using wf by simp_all
  have n0: "0 < operator_num m" using wf by simp
  have lens: "length (core_operator_cycles_v2 m) = operator_num m" "length (core_operator_cycles_v3 m) = operator_num m"
    "length (core_operator_finds_v2 m) = operator_num m" using sh(1) by (simp_all add: mopt_shape_def)
  have b: "list_all (\<lambda>f. unat f \<le> total_finds m) (core_operator_finds_v2 m)" using sh(2) by (simp add: finds_bounded_def)
  have F: "list_all (\<lambda>f. unat f \<le> ?T) F" "length F = operator_num m"
    using credit_finds_bounded [OF b, of "core_operator_cycles_v2 m" "core_operator_cycles_v3 m" diff] lens
      finds_small_lt [OF n0 assms(2)] b by (simp_all add: F_def)
  have e: "core_post_exec diff m = (if 500000 < core_time m2
      then bindR (pso_update (m2\<lparr>core_time := 0, finds_until_last_swarm := ?T, core_operator_finds := F,
        core_operator_cycles := core_operator_cycles_v2 m\<rparr>)) (\<lambda>m3. Ok (Pilotfuzzing, m3)) else Ok (Corefuzzing, m2))"
    using sh(3) by (simp add: core_post_exec_def Let_def m2_def F_def mopt_clock_def)
  have ct: "core_time m2 = core_time m + 1" by (simp add: m2_def)
  show ?thesis
  proof (cases "core_time m < 500000")
    case True
    have "mopt_wf m2" using wf True F lens
      by (simp add: mopt_wf_def mopt_inv_def m2_def mopt_shape_def matrix_shape mopt_coeffs_def mopt_clock_def swarm_ok_def finds_bounded_def
          list_all_grow list_all_grow2)
    then show ?thesis using True by (simp add: e ct) (simp add: m2_def)
  next
    case False
    define m3 where "m3 = m2\<lparr>core_time := 0, finds_until_last_swarm := ?T, core_operator_finds := F, core_operator_cycles := core_operator_cycles_v2 m\<rparr>"
    have p: "mopt_inv m3" "finds_small m3"
      using wf F lens assms(2)
      by (simp_all add: mopt_inv_def m3_def m2_def mopt_shape_def matrix_shape mopt_coeffs_def mopt_clock_def swarm_ok_def finds_bounded_def
          list_all_grow list_all_grow2 finds_small_def)
    have t: "total_finds m3 = ?T" "operator_num m3 = operator_num m" "swarm_num m3 = swarm_num m" "pilot_time m3 = pilot_time m"
      "core_time m3 = 0" "swarm_fitness m3 = swarm_fitness m" "finds_until_last_swarm m3 = ?T" by (simp_all add: m3_def m2_def)
    from pso_update_ok [OF p] show ?thesis using False by (auto simp: e ct t m3_def [symmetric])
  qed
qed

lemma fitness_nonneg:
  assumes "x < 2 ^ 64" "0 < t" "t < 2 ^ 64"
  shows "fnonneg (fdiv (f_of_nat x) (fdiv (f_of_nat t) PERIOD_PILOT_COEF))"
proof -
  have "1 \<le> val (f_of_nat t)" using f_of_nat_ge_1 [of t] f_of_nat_finite [OF assms(3)] assms(2) by (simp add: fle_finite)
  then have "pow2 (- 20) \<le> val (f_of_nat t) / 5000" using pow2_diff [of 0 20] pow2_of_nat [of 20] by simp
  moreover have "pow2 (- 20) \<le> maxf" using pow2_mono [of "-20" 0] one_le_maxf by (simp add: order_trans [of "pow2 (- 20)" 1 maxf])
  ultimately have "fle (Fin (pow2 (- 20))) (fdiv (f_of_nat t) PERIOD_PILOT_COEF)"
    using f_of_nat_finite [OF assms(3)] mk64_ge [of "pow2 (- 20)" "val (f_of_nat t) / 5000"]
      rnd_repr_fix [OF repr_pow2, of "- 20"]
    by (auto simp: fdiv_def Let_def is_zero_def PERIOD_PILOT_COEF_def is_inf_def)
  moreover have "flt (Fin 0) (Fin (pow2 (- 20)))" by (simp add: flt_finite)
  ultimately have "flt (Fin 0) (fdiv (f_of_nat t) PERIOD_PILOT_COEF)" using flt_fle_trans by blast
  then show ?thesis using f_of_nat_finite [OF assms(1)] by (intro fdiv_nonneg) simp_all
qed

lemma unit_row_choice:
  assumes "unit_row n ls" "unit_row n xs" "length bs = n" "length es = n"
  shows "unit_row n (map (\<lambda>(b, e, l, x). if flt b e then x else l) (zip bs (zip es (zip ls xs))))"
  using assms by (simp add: unit_row_def list_all_length)

lemma list_all_update: "list_all P xs \<Longrightarrow> P x \<Longrightarrow> list_all P (xs[k := x])"
  by (auto simp: list_all_iff dest: set_update_subset_insert [THEN subsetD])

lemma end_pilot_period_ok:
  assumes "mopt_shape m" "0 < operator_num m" "operator_num m \<le> 2 ^ 20" "mopt_coeffs m" "\<forall>k < swarm_num m. swarm_ok m k"
    "unit_row (operator_num m) (g_best m)" "finds_bounded m" "swarm_now m < swarm_num m" "total_finds m < 2 ^ 64"
    "period_pilot m = 50000" "period_core m = 500000" "pilot_time m = 50001" "core_time m \<le> 500000" "list_all fnonneg (swarm_fitness m)"
  shows "mopt_inv (end_pilot_period m)"
proof -
  define k where "k = swarm_now m"
  define m' where "m' = end_pilot_period m"
  note d = end_pilot_period_def Let_def k_def [symmetric]
  have n: "operator_num m' = operator_num m" "swarm_num m' = swarm_num m" by (simp_all add: m'_def d)
  have mx: "matrix m' X = matrix m X" "matrix m' U = matrix m U" for X :: "f64 list list" and U :: "u64 list list"
    by (simp_all add: matrix_def n)
  have k: "k < swarm_num m" using assms(8) by (simp add: k_def)
  note sh = assms(1) [unfolded mopt_shape_def, simplified]
  have rl: "length (eff_best m ! k) = operator_num m" "length (l_best m ! k) = operator_num m" "length (x_now m ! k) = operator_num m"
    "length (pilot_operator_finds_v2 m ! k) = operator_num m" "length (pilot_operator_cycles_v2 m ! k) = operator_num m"
    using sh k by (simp_all add: matrix_simps(2))
  have "mopt_shape m'" unfolding mopt_shape_def mx n using sh rl by (simp add: m'_def d matrix_simps(3))
  moreover have "swarm_ok m' j" if "j < swarm_num m" for j
  proof -
    have "length (l_best m) = swarm_num m" using sh by (simp add: matrix_simps(1))
    moreover have "swarm_ok m j" "swarm_ok m k" using assms(5) that k by simp_all
    ultimately show ?thesis using k rl(1) unfolding swarm_ok_def n
      by (auto simp: m'_def d nth_list_update unit_row_choice)
  qed
  moreover have "finds_bounded m'"
  proof -
    have v2: "list_all (list_all (\<lambda>f. unat f \<le> total_finds m)) (pilot_operator_finds_v2 m)" using assms(7) by (simp add: finds_bounded_def)
    have "length (pilot_operator_finds_v2 m) = swarm_num m" using sh by (simp add: matrix_simps(1))
    then have "list_all (\<lambda>f. unat f \<le> total_finds m) (pilot_operator_finds_v2 m ! k)" using v2 k by (simp add: list_all_length)
    then show ?thesis using assms(7) by (simp add: finds_bounded_def m'_def d list_all_update)
  qed
  moreover have "mopt_clock m'"
    using assms(9-14) fitness_nonneg [of "total_finds m - finds_until_last_swarm m" 50001]
    by (simp add: mopt_clock_def m'_def d list_all_update)
  moreover have "mopt_coeffs m'" "g_best m' = g_best m" using assms(4) by (simp_all add: mopt_coeffs_def m'_def d)
  ultimately show ?thesis using assms(2,3,6,8) unfolding m'_def [symmetric] mopt_inv_def n by simp
qed

text \<open>The fitness of the swarm whose pilot period ends: the finds since the end of the period before, over the length of
  the period in units of five thousand executions.\<close>

definition pilot_fitness :: "nat \<Rightarrow> mopt \<Rightarrow> f64" where
  "pilot_fitness diff m = fdiv (f_of_nat (total_finds m + diff - finds_until_last_swarm m)) (fdiv (f_of_nat 50001) (Fin 5000))"

definition pilot_next_mode :: "mopt \<Rightarrow> mopt_mode" where
  "pilot_next_mode m = (if pilot_time m < 50000 \<or> swarm_num m = 1 \<or> swarm_now m + 1 < swarm_num m then Pilotfuzzing else Corefuzzing)"

lemma enter_core_ok:
  assumes "mopt_inv m"
  shows "mopt_wf (enter_core m)" "\<forall>f \<in> set (swarm_fitness m). fle f (swarm_fitness m ! swarm_now (enter_core m))"
proof -
  note inv = assms [unfolded mopt_inv_def]
  have fit: "list_all fnonneg (swarm_fitness m)" "length (swarm_fitness m) = swarm_num m" "0 < swarm_num m"
    using inv by (simp_all add: mopt_clock_def mopt_shape_def)
  then have b: "best_swarm (Fin 0) 0 0 (swarm_fitness m) < swarm_num m"
    "\<forall>f \<in> set (swarm_fitness m). fle f (swarm_fitness m ! best_swarm (Fin 0) 0 0 (swarm_fitness m))"
    using best_swarm_ok [of "swarm_fitness m"] by (cases "swarm_fitness m = []", simp, simp)+
  then show "\<forall>f \<in> set (swarm_fitness m). fle f (swarm_fitness m ! swarm_now (enter_core m))" by (simp add: enter_core_def)
  show "mopt_wf (enter_core m)" using inv b(1)
    by (simp add: mopt_wf_def mopt_inv_def enter_core_def mopt_shape_def matrix_shape mopt_coeffs_def mopt_clock_def swarm_ok_def finds_bounded_def)
qed

lemma pilot_post_exec_ok:
  assumes "mopt_wf m" "(total_finds m + diff) * (operator_num m * (swarm_num m + 1)) < 2 ^ 64"
  shows "\<exists>m'. pilot_post_exec diff m = Ok (pilot_next_mode m, m') \<and> mopt_wf m' \<and> total_finds m' = total_finds m + diff \<and>
    operator_num m' = operator_num m \<and> swarm_num m' = swarm_num m \<and>
    (pilot_next_mode m = Pilotfuzzing \<longrightarrow> swarm_now m' =
       (if pilot_time m < 50000 then swarm_now m else if swarm_num m = 1 then 0 else swarm_now m + 1)) \<and>
    core_time m' = core_time m \<and> pilot_time m' = (if pilot_time m < 50000 then pilot_time m + 1 else 0) \<and>
    swarm_fitness m' = (if pilot_time m < 50000 then swarm_fitness m else (swarm_fitness m)[swarm_now m := pilot_fitness diff m]) \<and>
    finds_until_last_swarm m' = (if pilot_time m < 50000 then finds_until_last_swarm m else total_finds m + diff) \<and>
    (pilot_next_mode m = Corefuzzing \<longrightarrow> (\<forall>f \<in> set (swarm_fitness m'). fle f (swarm_fitness m' ! swarm_now m')))"
proof -
  let ?T = "total_finds m + diff"
  define k where "k = swarm_now m"
  define F where "F = (if 0 < diff then (pilot_operator_finds_v2 m)[k := credit_finds diff (pilot_operator_cycles_v2 m ! k)
    (pilot_operator_cycles_v3 m ! k) (pilot_operator_finds_v2 m ! k)] else pilot_operator_finds_v2 m)"
  define m2 where "m2 = m\<lparr>pilot_time := pilot_time m + 1, total_finds := ?T, pilot_operator_finds_v2 := F\<rparr>"
  note wf = assms(1) [unfolded mopt_wf_def mopt_inv_def]
  have sh: "mopt_shape m" "finds_bounded m" "mopt_clock m" and k: "k < swarm_num m" and n0: "0 < operator_num m"
    using wf by (simp_all add: k_def)
  have mx: "matrix m (pilot_operator_finds_v2 m)" "matrix m (pilot_operator_cycles_v2 m)" "matrix m (pilot_operator_cycles_v3 m)"
    using sh(1) by (simp_all add: mopt_shape_def)
  note lens = mx [THEN matrix_simps(2), OF k]
  have fb: "list_all (list_all (\<lambda>f. unat f \<le> total_finds m)) (pilot_operator_finds_v2 m)" using sh(2) by (simp add: finds_bounded_def)
  then have b: "list_all (\<lambda>f. unat f \<le> total_finds m) (pilot_operator_finds_v2 m ! k)"
    using matrix_simps(1) [OF mx(1)] k by (simp add: list_all_length)
  have T: "?T < 2 ^ 64" by (rule finds_small_lt [OF n0 assms(2)])
  have F: "list_all (list_all (\<lambda>f. unat f \<le> ?T)) F" "matrix m F"
    using credit_finds_bounded [OF b _ _ T, of "pilot_operator_cycles_v2 m ! k" "pilot_operator_cycles_v3 m ! k"] lens fb mx(1)
    by (simp_all add: F_def list_all_grow2 list_all_update matrix_simps(3))
  have e: "pilot_post_exec diff m = (if pilot_time m < 50000 then Ok (Pilotfuzzing, m2)
      else let m3 = end_pilot_period m2 in
        if swarm_num m = 1 then bindR (pso_update m3) (\<lambda>m4. Ok (Pilotfuzzing, m4))
        else if k + 1 = swarm_num m then Ok (Corefuzzing, enter_core m3) else Ok (Pilotfuzzing, m3))"
    using sh(2,3) k by (simp add: pilot_post_exec_def Let_def m2_def F_def mopt_clock_def k_def finds_bounded_def end_pilot_period_def)
  have m2: "mopt_shape m2" "mopt_coeffs m2" "finds_bounded m2" "\<forall>k < swarm_num m2. swarm_ok m2 k" "unit_row (operator_num m2) (g_best m2)"
    using wf F by (simp_all add: m2_def mopt_shape_def matrix_def mopt_coeffs_def finds_bounded_def list_all_grow list_all_grow2 swarm_ok_def)
  have m2n: "operator_num m2 = operator_num m" "swarm_num m2 = swarm_num m" "swarm_now m2 = k" "total_finds m2 = ?T" "pilot_time m2 = pilot_time m + 1"
    "core_time m2 = core_time m" "swarm_fitness m2 = swarm_fitness m" "finds_until_last_swarm m2 = finds_until_last_swarm m"
    by (simp_all add: m2_def k_def)
  show ?thesis
  proof (cases "pilot_time m < 50000")
    case True
    have "mopt_clock m2" using sh(3) True by (simp add: mopt_clock_def m2_def)
    then have "mopt_wf m2" using m2 wf k by (simp add: mopt_wf_def mopt_inv_def m2n)
    then show ?thesis using True by (simp add: e pilot_next_mode_def m2n k_def)
  next
    case False
    define m3 where "m3 = end_pilot_period m2"
    have inv: "mopt_inv m3" unfolding m3_def using m2 wf False T sh(3) k
      by (intro end_pilot_period_ok) (simp_all add: mopt_clock_def m2_def k_def)
    have n3: "operator_num m3 = operator_num m" "swarm_num m3 = swarm_num m" "total_finds m3 = ?T" "swarm_now m3 = k + 1"
      "core_time m3 = core_time m" "pilot_time m3 = 0" "finds_until_last_swarm m3 = ?T"
      by (simp_all add: m3_def end_pilot_period_def Let_def m2n)
    have "pilot_time m = 50000" using False sh(3) by (simp add: mopt_clock_def)
    then have f3: "swarm_fitness m3 = (swarm_fitness m)[swarm_now m := pilot_fitness diff m]"
      by (simp add: m3_def end_pilot_period_def Let_def m2n k_def pilot_fitness_def PERIOD_PILOT_COEF_def)
    have sm: "finds_small m3" using assms(2) by (simp add: finds_small_def n3)
    consider "swarm_num m = 1" | "swarm_num m \<noteq> 1" "k + 1 = swarm_num m" | "swarm_num m \<noteq> 1" "k + 1 < swarm_num m" using k by linarith
    then show ?thesis
    proof cases
      case 1
      from pso_update_ok [OF inv sm] show ?thesis using 1 False by (auto simp: e pilot_next_mode_def m3_def [symmetric] n3 f3)
    next
      case 2
      have "operator_num (enter_core m3) = operator_num m" "swarm_num (enter_core m3) = swarm_num m"
        "total_finds (enter_core m3) = ?T" "swarm_fitness (enter_core m3) = swarm_fitness m3"
        "core_time (enter_core m3) = core_time m" "pilot_time (enter_core m3) = 0" "finds_until_last_swarm (enter_core m3) = ?T"
        by (simp_all add: enter_core_def n3)
      then show ?thesis using 2 False enter_core_ok [OF inv] by (simp add: e pilot_next_mode_def m3_def [symmetric] k_def f3)
    next
      case 3
      then have "mopt_wf m3" using inv by (simp add: mopt_wf_def n3)
      then show ?thesis using 3 False by (simp add: e pilot_next_mode_def m3_def [symmetric] k_def n3 f3)
    qed
  qed
qed

lemma mopt_post_exec_ok:
  assumes "m_mopt s = Some m" "mopt_wf m"
    "(total_finds m + (finds_now s - mp_finds_before mp)) * (operator_num m * (swarm_num m + 1)) < 2 ^ 64"
  shows "\<exists>md m'. mopt_post_exec mp s = Ok (mp\<lparr>mp_mode := md\<rparr>, s\<lparr>m_mopt := Some m'\<rparr>) \<and> mopt_wf m' \<and>
    total_finds m' = total_finds m + (finds_now s - mp_finds_before mp) \<and> operator_num m' = operator_num m \<and> swarm_num m' = swarm_num m \<and>
    md = (case mp_mode mp of Corefuzzing \<Rightarrow> (if core_time m < 500000 then Corefuzzing else Pilotfuzzing) | Pilotfuzzing \<Rightarrow> pilot_next_mode m) \<and>
    (mp_mode mp = Pilotfuzzing \<and> md = Corefuzzing \<longrightarrow> (\<forall>f \<in> set (swarm_fitness m'). fle f (swarm_fitness m' ! swarm_now m'))) \<and>
    (mp_mode mp = Corefuzzing \<and> md = Pilotfuzzing \<longrightarrow> swarm_now m' = 0)"
proof (cases "mp_mode mp")
  case Corefuzzing
  have "mopt_shape m" using assms(2) by (simp add: mopt_wf_def mopt_inv_def)
  with core_post_exec_ok [OF assms(2,3)] show ?thesis
    unfolding mopt_post_exec_def by (auto simp: assms(1) Corefuzzing split: if_splits)
next
  case Pilotfuzzing
  have "mopt_shape m" using assms(2) by (simp add: mopt_wf_def mopt_inv_def)
  with pilot_post_exec_ok [OF assms(2,3)] show ?thesis
    unfolding mopt_post_exec_def by (auto simp: assms(1) Pilotfuzzing)
qed

section \<open>The life of an optimiser\<close>

text \<open>
  The optimisers a run of the fuzzer can hold, with the mode of the mutator: constructed for \<open>n\<close>
  operators and \<open>k\<close> swarms, taken over by a restarted mutator, or the result of a step: the start of a
  mutation, the choice of an operator, its count, and the bookkeeping after an execution with \<open>diff\<close>
  new finds, as long as the finds do not overflow the counters.
\<close>

inductive mopt_reach :: "nat \<Rightarrow> nat \<Rightarrow> mopt_mode \<Rightarrow> mopt \<Rightarrow> bool" for n k where
  constructed: "mopt_new n k seed = Ok m \<Longrightarrow> mopt_reach n k Pilotfuzzing m"
| restarted: "mopt_reach n k md m \<Longrightarrow> mopt_reach n k Pilotfuzzing m"
| core_started: "mopt_reach n k Corefuzzing m \<Longrightarrow>
    mopt_reach n k Corefuzzing (m\<lparr>core_operator_cycles_v3 := core_operator_cycles_v2 m\<rparr>)"
| pilot_started: "mopt_reach n k Pilotfuzzing m \<Longrightarrow>
    mopt_reach n k Pilotfuzzing (m\<lparr>pilot_operator_cycles_v3 :=
      (pilot_operator_cycles_v3 m)[swarm_now m := pilot_operator_cycles_v2 m ! swarm_now m]\<rparr>)"
| chosen: "mopt_reach n k md m \<Longrightarrow> select_algorithm m = Ok (i, m') \<Longrightarrow> mopt_reach n k md m'"
| core_counted: "mopt_reach n k Corefuzzing m \<Longrightarrow> i < n \<Longrightarrow> count_core i m = Ok m' \<Longrightarrow> mopt_reach n k Corefuzzing m'"
| pilot_counted: "mopt_reach n k Pilotfuzzing m \<Longrightarrow> i < n \<Longrightarrow> count_pilot (swarm_now m) i m = Ok m' \<Longrightarrow>
    mopt_reach n k Pilotfuzzing m'"
| core_executed: "mopt_reach n k Corefuzzing m \<Longrightarrow> (total_finds m + diff) * (n * (k + 1)) < 2 ^ 64 \<Longrightarrow>
    core_post_exec diff m = Ok (md, m') \<Longrightarrow> mopt_reach n k md m'"
| pilot_executed: "mopt_reach n k Pilotfuzzing m \<Longrightarrow> (total_finds m + diff) * (n * (k + 1)) < 2 ^ 64 \<Longrightarrow>
    pilot_post_exec diff m = Ok (md, m') \<Longrightarrow> mopt_reach n k md m'"

lemma counted_core_start: "mopt_wf m \<Longrightarrow> counted m (m\<lparr>core_operator_cycles_v3 := core_operator_cycles_v2 m\<rparr>)"
  by (simp add: counted_def uncounted_def mopt_wf_def mopt_inv_def mopt_shape_def)

lemma counted_pilot_start:
  assumes "mopt_wf m"
  shows "counted m (m\<lparr>pilot_operator_cycles_v3 := (pilot_operator_cycles_v3 m)[swarm_now m := pilot_operator_cycles_v2 m ! swarm_now m]\<rparr>)"
proof -
  have mx: "matrix m (pilot_operator_cycles_v2 m)" "matrix m (pilot_operator_cycles_v3 m)" "swarm_now m < swarm_num m"
    using assms by (simp_all add: mopt_wf_def mopt_inv_def mopt_shape_def)
  then show ?thesis
    by (simp add: counted_def uncounted_def map_update list_update_same_conv matrix_simps)
qed

lemma mopt_reach_wf:
  assumes "mopt_reach n k md m" "0 < n" "n \<le> 2 ^ 20" "0 < k"
  shows "mopt_wf m \<and> operator_num m = n \<and> swarm_num m = k \<and> finds_small m"
  using assms
proof induction
  case (constructed seed m)
  then show ?case using mopt_new_ok [of n k seed] by (auto simp: finds_small_def)
next
  case (core_started m)
  then show ?case using counted_fields [OF counted_core_start [of m]] by (auto simp: finds_small_def)
next
  case (pilot_started m)
  then show ?case using counted_fields [OF counted_pilot_start [of m]] by (auto simp: finds_small_def)
next
  case (chosen md m i m')
  then obtain r where "m' = m\<lparr>mo_rand := r\<rparr>" using select_algorithm_ok [of m] by auto
  then show ?case using chosen counted_fields [OF counted_rand [of m r]] by (auto simp: finds_small_def)
next
  case (core_counted m i m')
  then have "counted m m'" using count_core_ok [of m i] by auto
  then show ?case using core_counted by (auto simp: counted_fields finds_small_def)
next
  case (pilot_counted m i m')
  then have "counted m m'" using count_pilot_ok [of m i "swarm_now m"] by (auto simp: mopt_wf_def)
  then show ?case using pilot_counted by (auto simp: counted_fields finds_small_def)
next
  case (core_executed m diff md m')
  then show ?case using core_post_exec_ok [of m diff] by (auto simp: finds_small_def)
next
  case (pilot_executed m diff md m')
  then show ?case using pilot_post_exec_ok [of m diff] by (auto simp: finds_small_def)
qed simp

text \<open>
  The clock of the modes: the mode, the current swarm and the two times, for \<open>k\<close> swarms of which \<open>best\<close>
  is the one core fuzzing starts with.
\<close>

fun mode_step :: "nat \<Rightarrow> nat \<Rightarrow> mopt_mode \<times> nat \<times> nat \<times> nat \<Rightarrow> mopt_mode \<times> nat \<times> nat \<times> nat" where
  "mode_step k best (Pilotfuzzing, sw, pt, ct) =
     (if pt < 50000 then (Pilotfuzzing, sw, pt + 1, ct)
      else if k = 1 then (Pilotfuzzing, 0, 0, ct)
      else if sw + 1 < k then (Pilotfuzzing, sw + 1, 0, ct)
      else (Corefuzzing, best, 0, ct))"
| "mode_step k best (Corefuzzing, sw, pt, ct) =
     (if ct < 500000 then (Corefuzzing, sw, pt, ct + 1) else (Pilotfuzzing, 0, pt, 0))"

definition mode_view :: "mopt_mode \<Rightarrow> mopt \<Rightarrow> mopt_mode \<times> nat \<times> nat \<times> nat" where
  "mode_view md m = (md, swarm_now m, pilot_time m, core_time m)"

section \<open>Properties\<close>

text \<open>C24. Well-formedness of the optimiser: the shape of its vectors, the ranges of positions,
  velocities and weights, the order and the total of the probabilities, and the bounds of its
  counters hold from the construction on for every number of operators up to a million, and every
  operation succeeds and keeps them: the choice of a mutator, the swarm update, and the bookkeeping
  after an execution in both modes, as long as the finds do not overflow the counters.\<close>

theorem mopt_well_formed:
  "(0 < n \<and> n \<le> 2 ^ 20 \<and> 0 < k \<longrightarrow>
      (\<exists>m. mopt_new n k seed = Ok m \<and> mopt_wf m \<and> operator_num m = n \<and> swarm_num m = k \<and> total_finds m = 0)) \<and>
   (mopt_wf m \<longrightarrow>
      (\<exists>i m'. select_algorithm m = Ok (i, m') \<and> mopt_wf m' \<and> i < operator_num m) \<and>
      (finds_small m \<longrightarrow> (\<exists>m'. pso_update m = Ok m' \<and> mopt_wf m')) \<and>
      (m_mopt s = Some m \<and> (total_finds m + (finds_now s - mp_finds_before mp)) * (operator_num m * (swarm_num m + 1)) < 2 ^ 64 \<longrightarrow>
        (\<exists>mp' s' m'. mopt_post_exec mp s = Ok (mp', s') \<and> m_mopt s' = Some m' \<and> mopt_wf m')))"
proof (intro conjI impI)
  show "\<exists>m. mopt_new n k seed = Ok m \<and> mopt_wf m \<and> operator_num m = n \<and> swarm_num m = k \<and> total_finds m = 0"
    if "0 < n \<and> n \<le> 2 ^ 20 \<and> 0 < k" using mopt_new_ok that by blast
  assume wf: "mopt_wf m"
  show "\<exists>i m'. select_algorithm m = Ok (i, m') \<and> mopt_wf m' \<and> i < operator_num m"
    using wf select_algorithm_ok counted_fields(5) [OF counted_rand] by blast
  show "\<exists>m'. pso_update m = Ok m' \<and> mopt_wf m'" if "finds_small m"
    using wf that pso_update_ok by (meson mopt_wf_def)
  show "\<exists>mp' s' m'. mopt_post_exec mp s = Ok (mp', s') \<and> m_mopt s' = Some m' \<and> mopt_wf m'"
    if "m_mopt s = Some m \<and> (total_finds m + (finds_now s - mp_finds_before mp)) * (operator_num m * (swarm_num m + 1)) < 2 ^ 64"
    using mopt_post_exec_ok [of s m mp] wf that by fastforce
qed

lemma finds_now_new: "finds_now ((state_new r)\<lparr>m_mopt := x\<rparr>) = 0"
proof -
  have "count (corpus_new :: testcase corpus) = 0" by code_simp
  then show ?thesis by (simp add: finds_now_def state_new_def)
qed

theorem mopt_well_formed_witness:
  "\<exists>m. mopt_new 29 5 42 = Ok m \<and> (\<exists>i m'. select_algorithm m = Ok (i, m') \<and> i < 29) \<and> (\<exists>m'. pso_update m = Ok m' \<and> mopt_wf m') \<and>
    (\<exists>mp' s'. mopt_post_exec \<lparr>mp_mode = Pilotfuzzing, mp_finds_before = 0, mp_max_stack_pow = 7\<rparr>
       ((state_new (std_rand_with_seed 1))\<lparr>m_mopt := Some m\<rparr>) = Ok (mp', s'))"
proof -
  obtain m where m: "mopt_new 29 5 42 = Ok m" "mopt_wf m" "operator_num m = 29" "swarm_num m = 5" "total_finds m = 0"
    using mopt_well_formed [of 29 5 42, THEN conjunct1] by auto
  let ?mp = "\<lparr>mp_mode = Pilotfuzzing, mp_finds_before = 0, mp_max_stack_pow = 7\<rparr>"
  let ?s = "(state_new (std_rand_with_seed 1))\<lparr>m_mopt := Some m\<rparr>"
  have "finds_small m" by (simp add: finds_small_def m)
  moreover have "finds_now ?s = 0" by (rule finds_now_new)
  ultimately show ?thesis using m mopt_well_formed [of 1 1 0 m ?s ?mp, THEN conjunct2] by auto
qed

text \<open>C25. Choosing a mutator: in every optimiser that a run can hold, up to a million operators, the
  probabilities of every swarm never decrease and their last entry differs from one by at most a
  thousandth, in spite of the roundings, so that neither the construction nor the update ever returns
  the error of its tolerance check. The draw scaled by the last entry stays strictly below it, and the
  chosen mutator is the one whose half open interval of the cumulated probabilities holds it, so that
  the choice never returns its error either.\<close>

theorem mopt_select_correct:
  assumes "0 < n" "n \<le> 2 ^ 20" "0 < k" "mopt_reach n k md m"
  defines "qs \<equiv> probability_now m ! swarm_now m"
  defines "d \<equiv> fmul (last qs) (fst (next_float std_rand_next (mo_rand m)))"
  shows "is_Ok (mopt_new n k seed) \<and> is_Ok (pso_update m) \<and> length (probability_now m) = k \<and>
    (\<forall>ps \<in> set (probability_now m). length ps = n \<and> sorted_wrt fle ps \<and> float_in (999 / 1000) (1001 / 1000) (last ps)) \<and>
    swarm_now m < k \<and> flt d (last qs) \<and>
    (\<exists>i m'. select_algorithm m = Ok (i, m') \<and> i < n \<and> flt d (qs ! i) \<and> (\<forall>j < i. fle (qs ! j) d))"
proof -
  have w: "mopt_wf m" "operator_num m = n" "swarm_num m = k" "finds_small m"
    using mopt_reach_wf [OF assms(4,1-3)] by simp_all
  then have pl: "length (probability_now m) = k" "swarm_now m < k"
    by (simp_all add: mopt_wf_def mopt_inv_def mopt_shape_def matrix_def)
  have rows: "probability_row n ps" if ps: "ps \<in> set (probability_now m)" for ps
  proof -
    obtain j where "ps = probability_now m ! j" "j < k" using ps pl(1) by (metis in_set_conv_nth)
    then show ?thesis using w by (simp add: mopt_wf_def mopt_inv_def swarm_ok_def)
  qed
  then have row: "probability_row n qs" using pl unfolding qs_def by simp
  then have len: "length qs = n" by (simp add: probability_row_def)
  then have l: "qs ! (n - 1) = last qs" using assms(1) last_conv_nth [of qs] by (cases qs) auto
  have "flt d (last qs)" using select_draw_below(1) [OF row assms(1), of std_rand_next "mo_rand m"] unfolding l d_def .
  moreover have "is_Ok (mopt_new n k seed)" using mopt_new_ok [OF assms(1-3), of seed] by (auto simp: is_Ok_def)
  moreover have "is_Ok (pso_update m)" using pso_update_ok [of m] w by (auto simp: is_Ok_def mopt_wf_def)
  ultimately show ?thesis using rows pl select_algorithm_ok [OF w(1)]
    unfolding probability_row_def d_def qs_def w(2) by blast
qed

theorem mopt_select_correct_witness:
  "\<exists>m i m'. mopt_new 29 5 42 = Ok m \<and> is_Ok (pso_update m) \<and> select_algorithm m = Ok (i, m') \<and> i < 29 \<and>
    (\<exists>j m''. select_algorithm m' = Ok (j, m'') \<and> j < 29)"
proof -
  obtain m where m: "mopt_new 29 5 42 = Ok m" using mopt_new_ok [of 29 5 42] by auto
  then have r: "mopt_reach 29 5 Pilotfuzzing m" by (rule constructed)
  have s: "is_Ok (pso_update m) \<and> (\<exists>i m'. select_algorithm m = Ok (i, m') \<and> i < 29)"
    if "mopt_reach 29 5 Pilotfuzzing m" for m
  proof -
    note c = mopt_select_correct [of 29 5, OF _ _ _ that, of 42]
    have p: "0 < (29 :: nat)" "(29 :: nat) \<le> 2 ^ 20" "0 < (5 :: nat)" by simp_all
    show ?thesis using c [OF p] by blast
  qed
  from s [OF r] obtain i m' where c: "is_Ok (pso_update m)" "select_algorithm m = Ok (i, m')" "i < 29" by auto
  from s [OF chosen [OF r c(2)]] show ?thesis using m c by blast
qed

text \<open>C26. The mutator of the fuzzer, on a state whose corpus is not empty and well-formed with all its
  inputs loaded, whose dictionary has no empty token, whose logged comparisons have sides of equal
  length, and whose sizes stay below half the address space: installing it over the havoc and token mutators succeeds and leaves a well-formed optimiser; in either mode a whole mutation then succeeds, respects the size
  limit, leaves a skipped input alone and a non-empty one non-empty, and changes nothing of the state
  but the generator and the optimiser, which stays well-formed.\<close>

theorem mopt_mutation_safe:
  assumes "mut_pre ms s" "length bs \<le> ms"
  shows "(m_mopt s = None \<longrightarrow> (\<exists>mp s' m. std_mopt_new (bofuzz_mutations ms) 7 5 s = Ok (mp, s') \<and> mopt_frame s s' \<and>
      mp_mode mp = Pilotfuzzing \<and> m_mopt s' = Some m \<and> mopt_wf m \<and> operator_num m = 29 \<and> swarm_num m = 5)) \<and>
    (\<forall>m. m_mopt s = Some m \<and> mopt_wf m \<longrightarrow>
      (\<exists>r s' bs' m'. mopt_mutate (bofuzz_mutations ms) mp s bs = Ok (r, mp\<lparr>mp_finds_before := finds_now s\<rparr>, s', bs') \<and>
        length bs' \<le> ms \<and> (r = Skipped \<longrightarrow> bs' = bs) \<and> (bs \<noteq> [] \<longrightarrow> bs' \<noteq> []) \<and>
        mopt_frame s s' \<and> m_mopt s' = Some m' \<and> mopt_wf m' \<and> total_finds m' = total_finds m))"
proof (intro conjI impI allI)
  assume none: "m_mopt s = None"
  obtain seed s1 where r: "rand_mut std_rand_next s = (seed, s1)" by fastforce
  then have o: "only_rand s s1" by (auto simp: rand_mut_def only_rand_def split: prod.splits)
  obtain m where m: "mopt_new 29 5 seed = Ok m" "mopt_wf m" "operator_num m = 29" "swarm_num m = 5"
    using mopt_new_ok [of 29 5 seed] by auto
  have "std_mopt_new (bofuzz_mutations ms) 7 5 s =
      Ok (\<lparr>mp_mode = Pilotfuzzing, mp_finds_before = 0, mp_max_stack_pow = 7\<rparr>, s1\<lparr>m_mopt := Some m\<rparr>)"
    using m(1) by (simp add: std_mopt_new_def none r length_bofuzz_mutations)
  moreover have "mopt_frame s (s1\<lparr>m_mopt := Some m\<rparr>)" by (rule mopt_frame_trans [OF mopt_frame_basic(2) [OF o] mopt_frame_basic(1)])
  ultimately show "\<exists>mp s' m. std_mopt_new (bofuzz_mutations ms) 7 5 s = Ok (mp, s') \<and> mopt_frame s s' \<and>
      mp_mode mp = Pilotfuzzing \<and> m_mopt s' = Some m \<and> mopt_wf m \<and> operator_num m = 29 \<and> swarm_num m = 5"
    using m by auto
next
  fix m assume "m_mopt s = Some m \<and> mopt_wf m"
  then have m: "m_mopt s = Some m" "mopt_wf m" by simp_all
  from bofuzz.mopt_mutate_ok [OF m assms, of mp] obtain r s' bs' m' where
    "mopt_mutate (bofuzz_mutations ms) mp s bs = Ok (r, mp\<lparr>mp_finds_before := finds_now s\<rparr>, s', bs')" "mopt_frame s s'"
    "m_mopt s' = Some m'" "counted m m'" "length bs' \<le> ms" "r = Skipped \<longrightarrow> bs' = bs" "bs \<noteq> [] \<longrightarrow> bs' \<noteq> []" by blast
  moreover have "mopt_wf m'" "total_finds m' = total_finds m" using counted_fields(4,5) [OF \<open>counted m m'\<close>] m(2) by simp_all
  ultimately show "\<exists>r s' bs' m'. mopt_mutate (bofuzz_mutations ms) mp s bs = Ok (r, mp\<lparr>mp_finds_before := finds_now s\<rparr>, s', bs') \<and>
        length bs' \<le> ms \<and> (r = Skipped \<longrightarrow> bs' = bs) \<and> (bs \<noteq> [] \<longrightarrow> bs' \<noteq> []) \<and>
        mopt_frame s s' \<and> m_mopt s' = Some m' \<and> mopt_wf m' \<and> total_finds m' = total_finds m" by blast
qed

theorem mopt_mutation_safe_witness:
  "\<exists>mp s'. std_mopt_new (bofuzz_mutations 64) 7 5 example_mut_state = Ok (mp, s') \<and>
    (\<exists>r mp' s'' bs'. mopt_mutate (bofuzz_mutations 64) mp s' [1] = Ok (r, mp', s'', bs') \<and> bs' \<noteq> [])"
proof -
  have none: "m_mopt example_mut_state = None" by (simp add: example_mut_state_def state_new_def)
  from mopt_mutation_safe [OF example_mut_pre, of "[1]", THEN conjunct1] none
  obtain mp s' m where s: "std_mopt_new (bofuzz_mutations 64) 7 5 example_mut_state = Ok (mp, s')" "mopt_frame example_mut_state s'"
    "m_mopt s' = Some m" "mopt_wf m" by auto
  from mopt_mutation_safe [OF mut_pre_frame [OF s(2) example_mut_pre], of "[1]" mp, THEN conjunct2] s(1,3,4)
  show ?thesis by fastforce
qed

text \<open>C27. The modes: after an execution the optimiser's mode, current swarm and times are those of the
  clock above. Core fuzzing lasts for its period and then pilot fuzzing restarts with the first swarm;
  pilot fuzzing passes to the next swarm after each period and from the last of several swarms to core
  fuzzing, with a swarm of the best fitness; a single swarm is updated and starts again. The fitness of
  a swarm is set when its period ends, to the finds of the period over its length, and only then. The
  finds since the last mutation are added to the total. The finds must not overflow the counters.\<close>

theorem mopt_mode_machine:
  fixes s :: fuzz_state and mp :: std_mopt
  assumes "m_mopt s = Some m" "mopt_wf m"
  defines "diff \<equiv> finds_now s - mp_finds_before mp"
  assumes "(total_finds m + diff) * (operator_num m * (swarm_num m + 1)) < 2 ^ 64"
  shows "\<exists>md m'. mopt_post_exec mp s = Ok (mp\<lparr>mp_mode := md\<rparr>, s\<lparr>m_mopt := Some m'\<rparr>) \<and> mopt_wf m' \<and>
    mode_view md m' = mode_step (swarm_num m) (swarm_now m') (mode_view (mp_mode mp) m) \<and>
    (mp_mode mp = Pilotfuzzing \<and> md = Corefuzzing \<longrightarrow> (\<forall>f \<in> set (swarm_fitness m'). fle f (swarm_fitness m' ! swarm_now m'))) \<and>
    swarm_fitness m' = (if mp_mode mp = Pilotfuzzing \<and> pilot_time m = 50000
      then (swarm_fitness m)[swarm_now m := pilot_fitness diff m] else swarm_fitness m) \<and>
    total_finds m' = total_finds m + diff"
proof -
  have sh: "mopt_shape m" "pilot_time m \<le> 50000" "core_time m \<le> 500000" "swarm_now m < swarm_num m"
    using assms(2) by (simp_all add: mopt_wf_def mopt_inv_def mopt_clock_def)
  show ?thesis
  proof (cases "mp_mode mp")
    case Corefuzzing
    from core_post_exec_ok [OF assms(2,4)] obtain m' where
      p: "core_post_exec diff m = Ok (if core_time m < 500000 then Corefuzzing else Pilotfuzzing, m')" "mopt_wf m'"
      "total_finds m' = total_finds m + diff" "swarm_now m' = (if core_time m < 500000 then swarm_now m else 0)" "pilot_time m' = pilot_time m"
      "core_time m' = (if core_time m < 500000 then core_time m + 1 else 0)" "swarm_fitness m' = swarm_fitness m" by blast
    then show ?thesis
      by (intro exI [of _ "if core_time m < 500000 then Corefuzzing else Pilotfuzzing"] exI [of _ m'])
        (simp add: mopt_post_exec_def assms(1) sh(1) Corefuzzing diff_def [symmetric] mode_view_def)
  next
    case Pilotfuzzing
    have "mopt_post_exec mp s = bindR (pilot_post_exec diff m) (\<lambda>(md, m'). Ok (mp\<lparr>mp_mode := md\<rparr>, s\<lparr>m_mopt := Some m'\<rparr>))"
      by (simp add: mopt_post_exec_def assms(1) sh(1) Pilotfuzzing diff_def)
    moreover from pilot_post_exec_ok [OF assms(2,4)] obtain m' where p: "pilot_post_exec diff m = Ok (pilot_next_mode m, m')" "mopt_wf m'"
      "total_finds m' = total_finds m + diff" "pilot_next_mode m = Pilotfuzzing \<longrightarrow> swarm_now m' =
        (if pilot_time m < 50000 then swarm_now m else if swarm_num m = 1 then 0 else swarm_now m + 1)"
      "core_time m' = core_time m" "pilot_time m' = (if pilot_time m < 50000 then pilot_time m + 1 else 0)"
      "swarm_fitness m' = (if pilot_time m < 50000 then swarm_fitness m else (swarm_fitness m)[swarm_now m := pilot_fitness diff m])"
      "pilot_next_mode m = Corefuzzing \<longrightarrow> (\<forall>f \<in> set (swarm_fitness m'). fle f (swarm_fitness m' ! swarm_now m'))" by blast
    moreover have "mode_view (pilot_next_mode m) m' = mode_step (swarm_num m) (swarm_now m') (mode_view Pilotfuzzing m)"
      using p(4-6) sh by (auto simp: mode_view_def pilot_next_mode_def)
    moreover have "pilot_time m < 50000 \<longleftrightarrow> pilot_time m \<noteq> 50000" using sh(2) by auto
    ultimately show ?thesis unfolding Pilotfuzzing by (intro exI [of _ "pilot_next_mode m"] exI [of _ m']) auto
  qed
qed

theorem mopt_mode_machine_witness:
  "\<exists>m mp s1 m1 mp2 s2 m2. mopt_new 29 5 42 = Ok m \<and>
    mopt_post_exec \<lparr>mp_mode = Pilotfuzzing, mp_finds_before = 0, mp_max_stack_pow = 7\<rparr>
      ((state_new (std_rand_with_seed 1))\<lparr>m_mopt := Some (m\<lparr>pilot_time := 50000, swarm_now := 3\<rparr>)\<rparr>) = Ok (mp, s1) \<and>
    m_mopt s1 = Some m1 \<and> mode_view (mp_mode mp) m1 = (Pilotfuzzing, 4, 0, 0) \<and>
    mopt_post_exec \<lparr>mp_mode = Pilotfuzzing, mp_finds_before = 0, mp_max_stack_pow = 7\<rparr>
      ((state_new (std_rand_with_seed 1))\<lparr>m_mopt := Some (m\<lparr>pilot_time := 50000, swarm_now := 4\<rparr>)\<rparr>) = Ok (mp2, s2) \<and>
    m_mopt s2 = Some m2 \<and> mp_mode mp2 = Corefuzzing"
proof -
  obtain m where m: "mopt_new 29 5 42 = Ok m" "mopt_wf m" "operator_num m = 29" "swarm_num m = 5" "total_finds m = 0" "core_time m = 0"
    using mopt_new_ok [of 29 5 42] by auto
  let ?mp = "\<lparr>mp_mode = Pilotfuzzing, mp_finds_before = 0, mp_max_stack_pow = 7\<rparr>"
  let ?m = "\<lambda>k. m\<lparr>pilot_time := 50000, swarm_now := k\<rparr>"
  let ?s = "\<lambda>k. (state_new (std_rand_with_seed 1))\<lparr>m_mopt := Some (?m k)\<rparr>"
  have f: "finds_now (?s k) = 0" for k by (rule finds_now_new)
  have wf: "mopt_wf (?m k)" if "k < 5" for k
    using m(2,4) that by (simp add: mopt_wf_def mopt_inv_def mopt_shape_def matrix_def mopt_coeffs_def mopt_clock_def swarm_ok_def finds_bounded_def)
  from mopt_mode_machine [of "?s 3" "?m 3" ?mp] mopt_mode_machine [of "?s 4" "?m 4" ?mp] wf [of 3] wf [of 4] f m(3-6)
  show ?thesis using m(1) by (auto simp: mode_view_def)
qed

end
