(* ===== verification/Map_Feedback.thy ===== *)
theory Map_Feedback
  imports Metadata
begin

text \<open>
  Coverage maps: the standard map observer (\<open>libafl/src/observers/map/mod.rs\<close>), the AFL hit count
  classes (\<open>observers/map/hitcount_map.rs\<close>) and the map feedback (\<open>feedbacks/map.rs\<close>) with its
  reducers, novelty tests, both implementations of the interest test and the update of the history
  map. Entries are bytes, as in every map of the fuzzer. Shown: which maps the pairwise
  classification treats correctly and what it does to the others, the equality of the vectorised and
  the plain interest test, and that the history map accumulates the observations with a correct
  count of covered entries.
\<close>

unbundle bit_operations_syntax

section \<open>Observers\<close>

record std_map_observer =
  mo_map :: "u8 list"
  mo_initial :: u8

definition obs_get :: "std_map_observer \<Rightarrow> nat \<Rightarrow> error + u8" where
  "obs_get ob pos = (case get_opt (mo_map ob) pos of None \<Rightarrow> Err Panic | Some x \<Rightarrow> Ok x)"

definition obs_set :: "std_map_observer \<Rightarrow> nat \<Rightarrow> u8 \<Rightarrow> error + std_map_observer" where
  "obs_set ob pos x = (if pos < length (mo_map ob) then Ok (ob\<lparr>mo_map := (mo_map ob)[pos := x]\<rparr>) else Err Panic)"

definition usable_count :: "std_map_observer \<Rightarrow> nat" where
  "usable_count ob = length (mo_map ob)"

definition count_bytes :: "std_map_observer \<Rightarrow> nat" where
  "count_bytes ob = length (filter (\<lambda>x. x \<noteq> mo_initial ob) (take (usable_count ob) (mo_map ob)))"

definition reset_map :: "std_map_observer \<Rightarrow> std_map_observer" where
  "reset_map ob = ob\<lparr>mo_map := replicate (usable_count ob) (mo_initial ob) @ drop (usable_count ob) (mo_map ob)\<rparr>"

definition how_many_set :: "std_map_observer \<Rightarrow> nat list \<Rightarrow> nat" where
  "how_many_set ob indexes = length (filter (\<lambda>i. i < usable_count ob \<and> mo_map ob ! i \<noteq> mo_initial ob) indexes)"

section \<open>Hit counts\<close>

definition COUNT_CLASS_LOOKUP :: "u8 list" where
  "COUNT_CLASS_LOOKUP = [0, 1, 2, 4] @ replicate 4 8 @ replicate 8 16 @ replicate 16 32 @ replicate 96 64 @ replicate 128 128"

definition count_class :: "u8 \<Rightarrow> u8" where
  "count_class b = COUNT_CLASS_LOOKUP ! unat b"

definition init_count_class_16 :: "u16 list" where
  "init_count_class_16 = concat (map (\<lambda>i. map (\<lambda>j.
     push_bit 8 (ucast (COUNT_CLASS_LOOKUP ! i)) OR ucast (COUNT_CLASS_LOOKUP ! j)) [0..<256]) [0..<256])"

text \<open>
  The bytes of the map read as little endian 16 bit items. \<open>misaligned\<close> says that the map starts at
  an odd address, so that \<open>align_offset\<close> is one.
\<close>

fun classify_16 :: "nat \<Rightarrow> u8 list \<Rightarrow> u8 list" where
  "classify_16 (Suc n) (a # b # bs) =
     (let w = init_count_class_16 ! unat (ucast a OR push_bit 8 (ucast b) :: u16)
      in ucast w # ucast (drop_bit 8 w) # classify_16 n bs)"
| "classify_16 n bs = bs"

definition hitcounts_post_exec :: "bool \<Rightarrow> u8 list \<Rightarrow> u8 list" where
  "hitcounts_post_exec misaligned m =
     (let skip = (1 < length m \<and> misaligned);
          m1 = (if skip then m[0 := count_class (m ! 0)] else m);
          len = (if skip then length m - 1 else length m);
          m2 = (if odd len then m1[len - 1 := count_class (m1 ! (len - 1))] else m1);
          off = (if misaligned then 1 else 0)
      in take off m2 @ classify_16 (len div 2) (drop off m2))"

definition hitcounts_iter_post_exec :: "u8 list \<Rightarrow> u8 list" where
  "hitcounts_iter_post_exec m = map count_class m"

section \<open>Reducers and novelty\<close>

definition or_reduce :: "u8 \<Rightarrow> u8 \<Rightarrow> u8" where
  "or_reduce history x = history OR x"

definition and_reduce :: "u8 \<Rightarrow> u8 \<Rightarrow> u8" where
  "and_reduce history x = history AND x"

definition nop_reduce :: "u8 \<Rightarrow> u8 \<Rightarrow> u8" where
  "nop_reduce history x = x"

definition max_reduce :: "u8 \<Rightarrow> u8 \<Rightarrow> u8" where
  "max_reduce x y = (if y < x then x else y)"

definition min_reduce :: "u8 \<Rightarrow> u8 \<Rightarrow> u8" where
  "min_reduce x y = (if x < y then x else y)"

definition all_is_novel :: "u8 \<Rightarrow> u8 \<Rightarrow> bool" where
  "all_is_novel old x = True"

definition different_is_novel :: "u8 \<Rightarrow> u8 \<Rightarrow> bool" where
  "different_is_novel old x = (old \<noteq> x)"

definition leading_zeros :: "u8 \<Rightarrow> nat" where
  "leading_zeros w = length (takeWhile (\<lambda>i. \<not> bit w i) (rev [0..<8]))"

definition saturating_succ :: "u8 \<Rightarrow> u8" where
  "saturating_succ n = (if n = 255 then 255 else n + 1)"

definition saturating_next_power_of_two :: "u8 \<Rightarrow> u8" where
  "saturating_next_power_of_two n = (if n \<le> 1 then 1 else saturating_succ (drop_bit (leading_zeros (n - 1)) 255))"

definition next_pow2_is_novel :: "u8 \<Rightarrow> u8 \<Rightarrow> bool" where
  "next_pow2_is_novel old x = (if x \<le> old then False else saturating_next_power_of_two (saturating_succ old) \<le> x)"

definition one_or_filled_is_novel :: "u8 \<Rightarrow> u8 \<Rightarrow> bool" where
  "one_or_filled_is_novel old x = ((x = 1 \<or> x = 255) \<and> old < x)"

section \<open>The history map\<close>

definition metadata_new :: "nat \<Rightarrow> map_feedback_metadata" where
  "metadata_new map_size = \<lparr>history_map = replicate map_size 0, num_covered_map_indexes = 0\<rparr>"

definition filled :: "u8 \<Rightarrow> u8 list \<Rightarrow> nat" where
  "filled initial h = length (filter (\<lambda>x. x \<noteq> initial) h)"

definition with_history_map :: "u8 list \<Rightarrow> u8 \<Rightarrow> map_feedback_metadata" where
  "with_history_map h initial = \<lparr>history_map = h, num_covered_map_indexes = filled initial h\<rparr>"

definition metadata_reset_with_value :: "u8 \<Rightarrow> map_feedback_metadata \<Rightarrow> map_feedback_metadata" where
  "metadata_reset_with_value x md = \<lparr>history_map = replicate (length (history_map md)) x, num_covered_map_indexes = 0\<rparr>"

definition metadata_reset :: "map_feedback_metadata \<Rightarrow> map_feedback_metadata" where
  "metadata_reset = metadata_reset_with_value 0"

text \<open>The part of a map feedback that changes: the novelties of the last observation, if tracked.\<close>

type_synonym map_feedback = "nat list option"

definition resize_history :: "nat \<Rightarrow> u8 \<Rightarrow> map_feedback_metadata \<Rightarrow> map_feedback_metadata" where
  "resize_history len x md = md\<lparr>history_map := history_map md @ replicate (len - length (history_map md)) x\<rparr>"

definition set_entries :: "std_map_observer \<Rightarrow> (nat \<times> u8) list" where
  "set_entries ob = filter (\<lambda>(_, x). x \<noteq> mo_initial ob) (enumerate 0 (mo_map ob))"

definition is_interesting_default :: "(u8 \<Rightarrow> u8 \<Rightarrow> u8) \<Rightarrow> (u8 \<Rightarrow> u8 \<Rightarrow> bool) \<Rightarrow> std_map_observer \<Rightarrow>
    map_feedback \<Rightarrow> map_feedback_metadata \<Rightarrow> bool \<times> map_feedback \<times> map_feedback_metadata" where
  "is_interesting_default reduce is_novel ob mf md =
     (let md1 = resize_history (length (mo_map ob)) (mo_initial ob) md;
          novel = (\<lambda>(i, item). is_novel (history_map md1 ! i) (reduce (history_map md1 ! i) item))
      in case mf of
           Some _ \<Rightarrow> let hits = filter novel (set_entries ob) in (hits \<noteq> [], Some (map fst hits), md1)
         | None \<Rightarrow> (list_ex novel (set_entries ob), None, md1))"

text \<open>The interest test of the maximising byte map in steps of sixteen entries.\<close>

definition block_grows :: "u8 list \<Rightarrow> u8 list \<Rightarrow> nat \<Rightarrow> bool" where
  "block_grows m h step = (let items = take 16 (drop (step * 16) m); history = take 16 (drop (step * 16) h)
     in map2 max items history \<noteq> history)"

definition is_interesting_u8_simd_optimized :: "std_map_observer \<Rightarrow> map_feedback \<Rightarrow> map_feedback_metadata \<Rightarrow>
    bool \<times> map_feedback \<times> map_feedback_metadata" where
  "is_interesting_u8_simd_optimized ob mf md =
     (let sz = usable_count ob;
          md1 = resize_history (length (mo_map ob)) 0 md;
          m = mo_map ob; h = history_map md1;
          steps = sz div 16; left = sz mod 16;
          grows = (\<lambda>j. h ! j < m ! j)
      in case mf of
           Some _ \<Rightarrow>
             let hits = filter (block_grows m h) [0..<steps];
                 rest = filter grows [sz - left..<sz]
             in (hits \<noteq> [] \<or> rest \<noteq> [],
                 Some (concat (map (\<lambda>step. filter grows [step * 16..<step * 16 + 16]) hits) @ rest), md1)
         | None \<Rightarrow> (list_ex (block_grows m h) [0..<steps] \<or> list_ex grows [sz - left..<sz], None, md1))"

fun cover :: "(u8 \<Rightarrow> u8 \<Rightarrow> u8) \<Rightarrow> u8 \<Rightarrow> (nat \<times> u8) list \<Rightarrow> map_feedback_metadata \<Rightarrow> map_feedback_metadata" where
  "cover reduce initial [] md = md"
| "cover reduce initial ((i, x) # es) md =
     (let old = history_map md ! i; new = reduce old x
      in cover reduce initial es
        (md\<lparr>history_map := (history_map md)[i := new],
            num_covered_map_indexes := num_covered_map_indexes md + (if old = initial \<and> new \<noteq> initial then 1 else 0)\<rparr>))"

definition map_append_metadata :: "(u8 \<Rightarrow> u8 \<Rightarrow> u8) \<Rightarrow> bool \<Rightarrow> error + unit \<Rightarrow> std_map_observer \<Rightarrow>
    map_feedback \<Rightarrow> map_feedback_metadata \<Rightarrow> testcase \<Rightarrow> error + (map_feedback \<times> map_feedback_metadata \<times> testcase)" where
  "map_append_metadata reduce indices fired ob mf md tc =
     (let (mf1, tc1) = (case mf of Some ns \<Rightarrow> (Some [], tc\<lparr>tc_novelties := Some ns\<rparr>) | None \<Rightarrow> (None, tc));
          initial = mo_initial ob;
          md1 = resize_history (length (mo_map ob)) initial md;
          md2 = cover reduce initial (set_entries ob) md1;
          tc2 = (if indices then tc1\<lparr>tc_map_indexes := Some \<lparr>mi_list = map fst (set_entries ob), tcref = 0\<rparr>\<rparr> else tc1)
      in if filled initial (history_map md2) \<noteq> num_covered_map_indexes md2 then Err Panic
         else bindR fired (\<lambda>_. Ok (mf1, md2, tc2)))"

section \<open>Classification of hit counts\<close>

text \<open>The class of a count is the AFL bucket: 0, 1, 2, 3, 4-7, 8-15, 16-31, 32-127, 128-255.\<close>

lemma count_class_bucket:
  "unat (count_class b) = (let n = unat b in if n \<le> 2 then n else if n = 3 then 4 else if n < 8 then 8 else if n < 16 then 16
     else if n < 32 then 32 else if n < 128 then 64 else 128)"
proof -
  have "\<forall>n \<in> set [0..<256]. unat (COUNT_CLASS_LOOKUP ! n) = (if n \<le> 2 then n else if n = 3 then 4 else if n < 8 then 8 else if n < 16 then 16
     else if n < 32 then 32 else if n < 128 then 64 else 128)" by code_simp
  moreover have "unat b \<in> set [0..<256]" using unsigned_less [of b, where ?'a = nat] by simp
  ultimately show ?thesis unfolding count_class_def Let_def by blast
qed

lemma concat_nth_uniform:
  "\<forall>xs \<in> set xss. length xs = n \<Longrightarrow> i < length xss \<Longrightarrow> j < n \<Longrightarrow> concat xss ! (i * n + j) = xss ! i ! j"
proof (induction xss arbitrary: i)
  case (Cons xs xss)
  then show ?case by (cases i) (simp_all add: nth_append add.assoc)
qed simp

lemma u8_bit_high: "8 \<le> n \<Longrightarrow> \<not> bit (x :: u8) n"
  using bit_imp_le_length [of x n] by auto

lemma item_index: "unat (ucast a OR push_bit 8 (ucast b) :: u16) = unat b * 256 + unat (a :: u8)" for b :: u8
proof -
  have "ucast a AND push_bit 8 (ucast b) = (0 :: u16)" by (rule bit_word_eqI) (auto simp: bit_simps u8_bit_high)
  then have "(ucast a OR push_bit 8 (ucast b) :: u16) = ucast a + push_bit 8 (ucast b)" by (simp add: disjunctive_add_eq_or)
  moreover have "unat (push_bit 8 (ucast b) :: u16) = unat b * 256"
    using unsigned_less [of b, where ?'a = nat] by (simp add: push_bit_eq_mult unat_mult_lem [THEN iffD1] unsigned_ucast_eq take_bit_nat_eq_self)
  moreover have "unat (ucast a :: u16) = unat a" using unsigned_less [of a, where ?'a = nat] by (simp add: unsigned_ucast_eq take_bit_nat_eq_self)
  ultimately show ?thesis using unsigned_less [of a, where ?'a = nat] unsigned_less [of b, where ?'a = nat]
    by (simp add: unat_plus_if')
qed

lemma classify_pair:
  defines "w a b \<equiv> init_count_class_16 ! unat (ucast a OR push_bit 8 (ucast b) :: u16)"
  shows "ucast (w a b) = count_class a" "ucast (drop_bit 8 (w a b)) = count_class b"
proof -
  have "unat a < 256" "unat b < 256" using unsigned_less [of a, where ?'a = nat] unsigned_less [of b, where ?'a = nat] by simp_all
  then have "w a b = push_bit 8 (ucast (count_class b)) OR ucast (count_class a)"
    unfolding w_def item_index init_count_class_16_def count_class_def by (subst concat_nth_uniform) simp_all
  then show "ucast (w a b) = count_class a" "ucast (drop_bit 8 (w a b)) = count_class b"
    by (auto intro!: bit_word_eqI simp: bit_simps u8_bit_high)
qed

lemma classify_16_map: "2 * n \<le> length bs \<Longrightarrow> classify_16 n bs = map count_class (take (2 * n) bs) @ drop (2 * n) bs"
proof (induction n arbitrary: bs)
  case (Suc n)
  then obtain a b rest where "bs = a # b # rest" by (cases bs rule: list.exhaust) (auto, metis One_nat_def Suc_le_length_iff)
  then show ?case using Suc by (simp add: classify_pair Let_def)
qed simp

lemma hitcounts_aligned: "hitcounts_post_exec False m = map count_class m"
proof (cases "odd (length m)")
  case True
  then obtain n where n: "length m = 2 * n + 1" by (elim oddE)
  then have m: "m = take (2 * n) m @ [m ! (2 * n)]" using take_Suc_conv_app_nth [of "2 * n" m] by simp
  have "hitcounts_post_exec False m = map count_class (take (2 * n) m) @ [count_class (m ! (2 * n))]"
    using n by (simp add: hitcounts_post_exec_def classify_16_map) (simp add: list_eq_iff_nth_eq nth_append)
  also have "\<dots> = map count_class (take (2 * n) m @ [m ! (2 * n)])" by simp
  finally show ?thesis using m by simp
next
  case False
  then have "even (length m)" by simp
  then obtain n where n: "length m = 2 * n" by (elim evenE)
  then show ?thesis by (simp add: hitcounts_post_exec_def classify_16_map)
qed

lemma hitcounts_misaligned_odd: "odd (length m) \<Longrightarrow> hitcounts_post_exec True m = map count_class m"
proof -
  assume "odd (length m)"
  then obtain n where n: "length m = 2 * n + 1" by (elim oddE)
  then obtain x xs where m: "m = x # xs" by (cases m) auto
  show ?thesis using n by (cases "xs = []") (simp_all add: m hitcounts_post_exec_def classify_16_map Let_def)
qed

lemma length_2: "length ys = 2 \<Longrightarrow> \<exists>p q. ys = [p, q]"
  by (auto simp: length_Suc_conv numeral_2_eq_2)

lemma hitcounts_misaligned_even:
  assumes "length m = 2 * n + 2"
  shows "hitcounts_post_exec True m =
    map count_class (take (2 * n) m) @ [count_class (count_class (m ! (2 * n))), m ! (2 * n + 1)]"
proof -
  obtain x xs where m: "m = x # xs" and xs: "length xs = 2 * n + 1" using assms by (cases m) auto
  show ?thesis
  proof (cases n)
    case 0
    then obtain y where "xs = [y]" using xs by (auto simp: length_Suc_conv)
    then show ?thesis using 0 by (simp add: m hitcounts_post_exec_def)
  next
    case (Suc k)
    have "length (drop (2 * k + 1) xs) = 2" using xs Suc by simp
    then obtain p q where d: "drop (2 * k + 1) xs = [p, q]" using length_2 by blast
    define ys where "ys = take (2 * k + 1) xs"
    have ys: "xs = ys @ [p, q]" "length ys = 2 * k + 1"
      using append_take_drop_id [of "2 * k + 1" xs] xs Suc unfolding d by (simp_all add: ys_def)
    show ?thesis using Suc ys(2) by (simp add: m ys(1) hitcounts_post_exec_def classify_16_map Let_def nth_append list_update_append)
  qed
qed

section \<open>The interest test\<close>

lemma enumerate_map: "enumerate 0 xs = map (\<lambda>i. (i, xs ! i)) [0..<length xs]"
  by (rule nth_equalityI) (simp_all add: nth_enumerate_eq)

lemma set_entries_map:
  "set_entries ob = map (\<lambda>i. (i, mo_map ob ! i)) (filter (\<lambda>i. mo_map ob ! i \<noteq> mo_initial ob) [0..<length (mo_map ob)])"
  by (simp add: set_entries_def enumerate_map filter_map comp_def)

lemma resize_length [simp]: "length (history_map (resize_history n x md)) = max n (length (history_map md))"
  by (simp add: resize_history_def)

lemma resize_nth: "i < n \<Longrightarrow> history_map (resize_history n x md) ! i = (if i < length (history_map md) then history_map md ! i else x)"
  by (auto simp: resize_history_def nth_append)

lemma resize_twice [simp]: "resize_history n x (resize_history n x md) = resize_history n x md"
  by (simp add: resize_history_def)

lemma resize_history_id: "n \<le> length (history_map md) \<Longrightarrow> resize_history n x md = md"
  by (simp add: resize_history_def)

text \<open>The history of an entry, zero before the history map has grown to it, and the indices at
  which an observation exceeds it.\<close>

definition history_at :: "map_feedback_metadata \<Rightarrow> nat \<Rightarrow> u8" where
  "history_at md i = (if i < length (history_map md) then history_map md ! i else 0)"

definition growing :: "std_map_observer \<Rightarrow> map_feedback_metadata \<Rightarrow> nat list" where
  "growing ob md = filter (\<lambda>i. history_at md i < mo_map ob ! i) [0..<length (mo_map ob)]"

lemma list_ex_filter: "list_ex P xs \<longleftrightarrow> filter P xs \<noteq> []"
  by (induction xs) simp_all

lemma interesting_default_max:
  assumes "mo_initial ob = 0"
  shows "is_interesting_default max_reduce different_is_novel ob mf md =
    (growing ob md \<noteq> [], map_option (\<lambda>_. growing ob md) mf, resize_history (length (mo_map ob)) 0 md)"
proof -
  let ?md = "resize_history (length (mo_map ob)) 0 md"
  have nov: "different_is_novel h (max_reduce h x) \<longleftrightarrow> h < x" for h x by (auto simp: different_is_novel_def max_reduce_def)
  have g: "growing ob md = filter (\<lambda>i. history_map ?md ! i < mo_map ob ! i) [0..<length (mo_map ob)]"
    unfolding growing_def by (rule filter_cong) (simp_all add: resize_nth history_at_def)
  also have "\<dots> = filter (\<lambda>i. history_map ?md ! i < mo_map ob ! i) (filter (\<lambda>i. mo_map ob ! i \<noteq> 0) [0..<length (mo_map ob)])"
    unfolding filter_filter by (rule filter_cong) auto
  finally have e: "map fst (filter (\<lambda>(i, x). history_map ?md ! i < x) (set_entries ob)) = growing ob md"
    by (simp add: set_entries_map assms filter_map comp_def)
  have ne: "filter (\<lambda>(i, x). history_map ?md ! i < x) (set_entries ob) \<noteq> [] \<longleftrightarrow> growing ob md \<noteq> []"
    using arg_cong [OF e, of "\<lambda>xs. xs = []"] by simp
  then have ex: "list_ex (\<lambda>(i, x). history_map ?md ! i < x) (set_entries ob) \<longleftrightarrow> growing ob md \<noteq> []"
    unfolding list_ex_filter .
  show ?thesis unfolding is_interesting_default_def assms nov Let_def
    by (cases mf) (simp_all only: ex ne e option.case option.map)
qed

lemma block_grows_iff:
  assumes "step * 16 + 16 \<le> length m" "step * 16 + 16 \<le> length h"
  shows "block_grows m h step \<longleftrightarrow> filter (\<lambda>j. h ! j < m ! j) [step * 16..<step * 16 + 16] \<noteq> []"
proof -
  let ?a = "take 16 (drop (step * 16) m)"
  let ?b = "take 16 (drop (step * 16) h)"
  have "block_grows m h step \<longleftrightarrow> (\<exists>k < 16. max (?a ! k) (?b ! k) \<noteq> ?b ! k)"
    using assms by (simp add: block_grows_def Let_def list_eq_iff_nth_eq)
  also have "\<dots> \<longleftrightarrow> (\<exists>k < 16. h ! (step * 16 + k) < m ! (step * 16 + k))"
  proof -
    have "max (?a ! k) (?b ! k) \<noteq> ?b ! k \<longleftrightarrow> h ! (step * 16 + k) < m ! (step * 16 + k)" if "k < 16" for k
      using that assms by (auto simp: max_def)
    then show ?thesis by blast
  qed
  also have "\<dots> \<longleftrightarrow> (\<exists>j \<in> {step * 16..<step * 16 + 16}. h ! j < m ! j)"
  proof
    assume "\<exists>k < 16. h ! (step * 16 + k) < m ! (step * 16 + k)"
    then obtain k where "k < 16" "h ! (step * 16 + k) < m ! (step * 16 + k)" by blast
    then show "\<exists>j \<in> {step * 16..<step * 16 + 16}. h ! j < m ! j" by (intro bexI [of _ "step * 16 + k"]) auto
  next
    assume "\<exists>j \<in> {step * 16..<step * 16 + 16}. h ! j < m ! j"
    then obtain j where "step * 16 \<le> j" "j < step * 16 + 16" "h ! j < m ! j" by auto
    then show "\<exists>k < 16. h ! (step * 16 + k) < m ! (step * 16 + k)" by (intro exI [of _ "j - step * 16"]) auto
  qed
  finally show ?thesis by (simp add: filter_empty_conv Bex_def)
qed

lemma concat_blocks: "concat (map (\<lambda>s. [s * k..<s * k + k]) [0..<n]) = [0..<n * k]"
proof (induction n)
  case (Suc n)
  have "[0..<n * k] @ [n * k..<n * k + k] = [0..<n * k + k]" using upt_add_eq_append [of 0 "n * k" k] by simp
  then show ?case using Suc by (simp add: add.commute)
qed simp

lemma concat_filter_blocks:
  "(\<And>s. s \<in> set xs \<Longrightarrow> b s \<longleftrightarrow> f s \<noteq> []) \<Longrightarrow> concat (map f (filter b xs)) = concat (map f xs) \<and> (filter b xs \<noteq> [] \<longleftrightarrow> concat (map f xs) \<noteq> [])"
  by (induction xs) auto

lemma interesting_simd:
  "is_interesting_u8_simd_optimized ob mf md =
    (growing ob md \<noteq> [], map_option (\<lambda>_. growing ob md) mf, resize_history (length (mo_map ob)) 0 md)"
proof -
  define m where "m = mo_map ob"
  define n where "n = length m"
  define h where "h = history_map (resize_history n 0 md)"
  let ?g = "\<lambda>j. h ! j < m ! j"
  let ?f = "\<lambda>step. filter ?g [step * 16..<step * 16 + 16]"
  have lh: "n \<le> length h" by (simp add: h_def)
  have "s * 16 + 16 \<le> n" if "s < n div 16" for s using that by linarith
  then have bl: "block_grows m h s \<longleftrightarrow> ?f s \<noteq> []" if "s \<in> set [0..<n div 16]" for s
    using that lh by (intro block_grows_iff) (auto simp: n_def [symmetric] intro: order_trans)
  have "concat (map ?f [0..<n div 16]) = filter ?g (concat (map (\<lambda>s. [s * 16..<s * 16 + 16]) [0..<n div 16]))"
    by (simp add: filter_concat comp_def)
  then have c: "concat (map ?f [0..<n div 16]) = filter ?g [0..<n div 16 * 16]" by (simp only: concat_blocks)
  have nl: "n - n mod 16 = n div 16 * 16" by (simp add: minus_mod_eq_div_mult)
  have split: "filter ?g [0..<n div 16 * 16] @ filter ?g [n - n mod 16..<n] = growing ob md"
  proof -
    have "[0..<n div 16 * 16] @ [n div 16 * 16..<n] = [0..<n]"
      using upt_add_eq_append [of 0 "n div 16 * 16" "n mod 16"] by simp
    then have "filter ?g [0..<n div 16 * 16] @ filter ?g [n - n mod 16..<n] = filter ?g [0..<n]"
      by (simp only: nl filter_append [symmetric])
    also have "\<dots> = growing ob md" unfolding growing_def m_def [symmetric] n_def [symmetric] h_def
      by (rule filter_cong) (simp_all add: resize_nth history_at_def)
    finally show ?thesis .
  qed
  have "concat (map ?f (filter (block_grows m h) [0..<n div 16])) = concat (map ?f [0..<n div 16]) \<and>
      (filter (block_grows m h) [0..<n div 16] \<noteq> [] \<longleftrightarrow> concat (map ?f [0..<n div 16]) \<noteq> [])"
    by (rule concat_filter_blocks) (rule bl)
  note cf = this [unfolded c]
  have ex: "list_ex (block_grows m h) [0..<n div 16] \<or> list_ex ?g [n - n mod 16..<n] \<longleftrightarrow> growing ob md \<noteq> []"
    unfolding list_ex_filter split [symmetric] using cf by simp
  show ?thesis
    unfolding is_interesting_u8_simd_optimized_def usable_count_def Let_def m_def [symmetric] n_def [symmetric] h_def [symmetric]
    using cf ex by (cases mf) (auto simp: split [symmetric] c)
qed

section \<open>The history map\<close>

lemma filled_update:
  "i < length h \<Longrightarrow> filled c (h[i := y]) + (if h ! i \<noteq> c then 1 else 0) = filled c h + (if y \<noteq> c then 1 else 0)"
proof (induction h arbitrary: i)
  case (Cons x h)
  show ?case
  proof (cases i)
    case (Suc j)
    then show ?thesis using Cons.IH [of j] Cons.prems by (auto simp: filled_def)
  qed (auto simp: filled_def)
qed simp

lemma filled_replicate [simp]: "filled c (h @ replicate n c) = filled c h"
  by (simp add: filled_def)

definition history_ok :: "u8 \<Rightarrow> map_feedback_metadata \<Rightarrow> bool" where
  "history_ok c md = (filled c (history_map md) = num_covered_map_indexes md)"

lemma history_ok_resize: "history_ok c md \<Longrightarrow> history_ok c (resize_history n c md)"
  by (simp add: history_ok_def resize_history_def)

lemma history_ok_new: "history_ok 0 (metadata_new n)" "history_ok c (with_history_map h c)"
  by (simp_all add: history_ok_def metadata_new_def with_history_map_def filled_def)

lemma cover_history:
  assumes "distinct (map fst es)" "\<forall>(i, x) \<in> set es. i < length (history_map md)"
  shows "length (history_map (cover r c es md)) = length (history_map md) \<and>
    (\<forall>i < length (history_map md). history_map (cover r c es md) ! i =
       (case map_of es i of Some x \<Rightarrow> r (history_map md ! i) x | None \<Rightarrow> history_map md ! i))"
  using assms
proof (induction es arbitrary: md)
  case (Cons e es)
  obtain j x where e: "e = (j, x)" by (cases e)
  define md1 where "md1 = md\<lparr>history_map := (history_map md)[j := r (history_map md ! j) x],
    num_covered_map_indexes := num_covered_map_indexes md + (if history_map md ! j = c \<and> r (history_map md ! j) x \<noteq> c then 1 else 0)\<rparr>"
  have c: "cover r c (e # es) md = cover r c es md1" by (simp add: e md1_def Let_def)
  have IH: "length (history_map (cover r c es md1)) = length (history_map md1) \<and>
    (\<forall>i < length (history_map md1). history_map (cover r c es md1) ! i =
       (case map_of es i of Some x \<Rightarrow> r (history_map md1 ! i) x | None \<Rightarrow> history_map md1 ! i))"
    using Cons.prems by (intro Cons.IH) (auto simp: e md1_def)
  have "map_of es j = None" using Cons.prems(1) by (simp add: e map_of_eq_None_iff)
  then show ?case using IH Cons.prems(2) unfolding c
    by (auto simp: e md1_def nth_list_update split: option.split)
qed simp

text \<open>What the history needs of a reducer: a covered entry stays covered, and reducing twice by the
  same value is reducing once.\<close>

locale history_reducer =
  fixes reduce :: "u8 \<Rightarrow> u8 \<Rightarrow> u8" and initial :: u8
  assumes keeps: "h \<noteq> initial \<Longrightarrow> x \<noteq> initial \<Longrightarrow> reduce h x \<noteq> initial"
    and absorbs: "reduce (reduce h x) x = reduce h x"
begin

lemma cover_ok:
  "history_ok initial md \<Longrightarrow> \<forall>(i, x) \<in> set es. i < length (history_map md) \<and> x \<noteq> initial \<Longrightarrow> history_ok initial (cover reduce initial es md)"
proof (induction es arbitrary: md)
  case (Cons e es)
  obtain j x where e: "e = (j, x)" by (cases e)
  have j: "j < length (history_map md)" "x \<noteq> initial" using Cons.prems(2) by (auto simp: e)
  define md1 where "md1 = md\<lparr>history_map := (history_map md)[j := reduce (history_map md ! j) x],
    num_covered_map_indexes := num_covered_map_indexes md +
      (if history_map md ! j = initial \<and> reduce (history_map md ! j) x \<noteq> initial then 1 else 0)\<rparr>"
  have "history_ok initial md1"
    using Cons.prems(1) filled_update [OF j(1), of initial "reduce (history_map md ! j) x"] keeps [OF _ j(2), of "history_map md ! j"]
    by (auto simp: history_ok_def md1_def split: if_splits)
  then have "history_ok initial (cover reduce initial es md1)" using Cons.prems(2) by (intro Cons.IH) (auto simp: md1_def)
  then show ?case by (simp add: e md1_def Let_def)
qed simp

lemma set_entries_cover:
  assumes "mo_initial ob = initial"
  shows "distinct (map fst (set_entries ob))" "\<forall>(i, x) \<in> set (set_entries ob). i < length (mo_map ob) \<and> x \<noteq> initial"
  using assms by (auto simp: set_entries_map comp_def)

lemma append_ok:
  assumes "mo_initial ob = initial" "history_ok initial md"
  defines "md' \<equiv> cover reduce initial (set_entries ob) (resize_history (length (mo_map ob)) initial md)"
  shows "map_append_metadata reduce indices (Ok ()) ob mf md tc = Ok (map_option (\<lambda>_. []) mf, md',
      (let tc1 = (case mf of Some ns \<Rightarrow> tc\<lparr>tc_novelties := Some ns\<rparr> | None \<Rightarrow> tc)
       in if indices then tc1\<lparr>tc_map_indexes := Some \<lparr>mi_list = map fst (set_entries ob), tcref = 0\<rparr>\<rparr> else tc1))"
    and "history_ok initial md'"
proof -
  have "history_ok initial (resize_history (length (mo_map ob)) initial md)" by (rule history_ok_resize [OF assms(2)])
  then show ok: "history_ok initial md'" unfolding md'_def
    using set_entries_cover(2) [OF assms(1)] by (intro cover_ok) auto
  then show "map_append_metadata reduce indices (Ok ()) ob mf md tc = Ok (map_option (\<lambda>_. []) mf, md',
      (let tc1 = (case mf of Some ns \<Rightarrow> tc\<lparr>tc_novelties := Some ns\<rparr> | None \<Rightarrow> tc)
       in if indices then tc1\<lparr>tc_map_indexes := Some \<lparr>mi_list = map fst (set_entries ob), tcref = 0\<rparr>\<rparr> else tc1))"
    by (cases mf) (simp_all add: map_append_metadata_def assms(1) Let_def md'_def [symmetric] history_ok_def)
qed

lemma history_after:
  fixes md :: map_feedback_metadata
  assumes "mo_initial ob = initial"
  defines "md' \<equiv> cover reduce initial (set_entries ob) (resize_history (length (mo_map ob)) initial md)"
  shows "length (history_map md') = max (length (mo_map ob)) (length (history_map md))"
    and "i < length (mo_map ob) \<Longrightarrow> mo_map ob ! i \<noteq> initial \<Longrightarrow>
      history_map md' ! i = reduce (if i < length (history_map md) then history_map md ! i else initial) (mo_map ob ! i)"
    and "i < length (history_map md') \<Longrightarrow> \<not> (i < length (mo_map ob) \<and> mo_map ob ! i \<noteq> initial) \<Longrightarrow>
      history_map md' ! i = (if i < length (history_map md) then history_map md ! i else initial)"
proof -
  let ?md = "resize_history (length (mo_map ob)) initial md"
  have c: "length (history_map md') = length (history_map ?md) \<and>
    (\<forall>i < length (history_map ?md). history_map md' ! i =
       (case map_of (set_entries ob) i of Some x \<Rightarrow> reduce (history_map ?md ! i) x | None \<Rightarrow> history_map ?md ! i))"
    unfolding md'_def using set_entries_cover [OF assms(1)] by (intro cover_history) auto
  then show "length (history_map md') = max (length (mo_map ob)) (length (history_map md))" by simp
  have mo: "map_of (set_entries ob) i = (if i < length (mo_map ob) \<and> mo_map ob ! i \<noteq> initial then Some (mo_map ob ! i) else None)" for i
    by (simp add: set_entries_map map_of_map_restrict restrict_map_def assms(1))
  show "i < length (mo_map ob) \<Longrightarrow> mo_map ob ! i \<noteq> initial \<Longrightarrow>
      history_map md' ! i = reduce (if i < length (history_map md) then history_map md ! i else initial) (mo_map ob ! i)"
    using c by (simp add: mo resize_nth)
  show "i < length (history_map md') \<Longrightarrow> \<not> (i < length (mo_map ob) \<and> mo_map ob ! i \<noteq> initial) \<Longrightarrow>
      history_map md' ! i = (if i < length (history_map md) then history_map md ! i else initial)"
    using c by (auto simp: mo resize_history_def nth_append)
qed

text \<open>After the update the same observation is no longer new.\<close>

lemma not_interesting_twice:
  fixes md :: map_feedback_metadata
  assumes "mo_initial ob = initial"
  defines "md' \<equiv> cover reduce initial (set_entries ob) (resize_history (length (mo_map ob)) initial md)"
  shows "\<not> fst (is_interesting_default reduce different_is_novel ob mf md')"
proof -
  have r: "resize_history (length (mo_map ob)) initial md' = md'"
    by (rule resize_history_id) (simp add: history_after(1) [OF assms(1)] md'_def)
  have "reduce (history_map md' ! i) x = history_map md' ! i" if "(i, x) \<in> set (set_entries ob)" for i x
    using that history_after(2) [OF assms(1), of i md] absorbs by (auto simp: set_entries_map md'_def assms(1))
  then have "\<forall>(i, x) \<in> set (set_entries ob). \<not> different_is_novel (history_map md' ! i) (reduce (history_map md' ! i) x)"
    by (auto simp: different_is_novel_def)
  then show ?thesis unfolding is_interesting_default_def assms(1) r Let_def
    by (cases mf) (auto simp: list_ex_iff filter_empty_conv)
qed

end

interpretation max_map: history_reducer max_reduce 0
proof unfold_locales
  show "h \<noteq> 0 \<Longrightarrow> x \<noteq> 0 \<Longrightarrow> max_reduce h x \<noteq> 0" for h x by (simp add: max_reduce_def)
  show "max_reduce (max_reduce h x) x = max_reduce h x" for h x by (simp add: max_reduce_def)
qed

interpretation afl_map: history_reducer or_reduce 0
proof unfold_locales
  show "h \<noteq> 0 \<Longrightarrow> x \<noteq> 0 \<Longrightarrow> or_reduce h x \<noteq> 0" for h x by (simp add: or_reduce_def or_eq_0_iff)
  show "or_reduce (or_reduce h x) x = or_reduce h x" for h x by (simp add: or_reduce_def or.assoc)
qed

interpretation nop_map: history_reducer nop_reduce initial for initial
  by unfold_locales (simp_all add: nop_reduce_def)

interpretation min_map: history_reducer min_reduce 255
proof unfold_locales
  show "h \<noteq> 255 \<Longrightarrow> x \<noteq> 255 \<Longrightarrow> min_reduce h x \<noteq> 255" for h x by (simp add: min_reduce_def)
  show "min_reduce (min_reduce h x) x = min_reduce h x" for h x by (auto simp: min_reduce_def)
qed

text \<open>The rounded up power of two saturates above 128.\<close>

lemma next_power_of_two_least:
  "\<forall>n \<in> set [0..<256]. let r = unat (saturating_next_power_of_two (of_nat n)) in
     n \<le> r \<and> (if 128 < n then r = 255 else list_ex (\<lambda>k. r = 2 ^ k \<and> (k = 0 \<or> 2 ^ (k - 1) < n)) [0..<8])"
  by code_simp

text \<open>The conjunction may empty a covered entry, whose count is then wrong: the assertion fails.\<close>

lemma and_reduce_breaks_count:
  "map_append_metadata and_reduce False (Ok ()) \<lparr>mo_map = [2], mo_initial = 0\<rparr> None
     \<lparr>history_map = [1], num_covered_map_indexes = 1\<rparr> tc = Err Panic"
proof -
  have "set_entries \<lparr>mo_map = [2], mo_initial = 0\<rparr> = [(0, 2)]" by code_simp
  then show ?thesis by (simp add: map_append_metadata_def resize_history_def and_reduce_def filled_def)
qed

section \<open>Properties\<close>

text \<open>C40. Hit count classes: every entry of an aligned map, and of a misaligned map of odd length, is
  replaced by its AFL bucket, as the entry-wise variant does. On a misaligned map of even length the
  last entry keeps its raw count and the one before it is classified twice, which turns a count of
  three into the class of four to seven.\<close>

theorem hitcounts_correct:
  "(\<not> misaligned \<or> odd (length m) \<longrightarrow> hitcounts_post_exec misaligned m = hitcounts_iter_post_exec m) \<and>
   (misaligned \<and> length m = 2 * n + 2 \<longrightarrow> hitcounts_post_exec misaligned m =
      hitcounts_iter_post_exec (take (2 * n) m) @ [count_class (count_class (m ! (2 * n))), m ! (2 * n + 1)]) \<and>
   unat (count_class b) = (let c = unat b in if c \<le> 2 then c else if c = 3 then 4 else if c < 8 then 8 else if c < 16 then 16
      else if c < 32 then 32 else if c < 128 then 64 else 128)"
proof (intro conjI impI)
  show "hitcounts_post_exec misaligned m = hitcounts_iter_post_exec m" if "\<not> misaligned \<or> odd (length m)"
    using that hitcounts_aligned hitcounts_misaligned_odd by (cases misaligned) (simp_all add: hitcounts_iter_post_exec_def)
  show "hitcounts_post_exec misaligned m = hitcounts_iter_post_exec (take (2 * n) m) @ [count_class (count_class (m ! (2 * n))), m ! (2 * n + 1)]"
    if "misaligned \<and> length m = 2 * n + 2"
    using that hitcounts_misaligned_even by (simp add: hitcounts_iter_post_exec_def)
qed (rule count_class_bucket)

theorem hitcounts_correct_witness:
  "hitcounts_post_exec False [3, 200, 5] = [4, 128, 8] \<and> hitcounts_post_exec True [3, 200] = [8, 200]"
proof -
  have a: "hitcounts_post_exec False [3, 200, 5] = map count_class [3, 200, 5]"
    using hitcounts_correct [of False "[3, 200, 5]"] by (simp add: hitcounts_iter_post_exec_def)
  have b: "hitcounts_post_exec True [3, 200] = [count_class (count_class 3), 200]"
    using hitcounts_correct [of True "[3, 200]" 0] by (simp add: hitcounts_iter_post_exec_def)
  have "map count_class [3, 200, 5] = [4, 128, 8]" "count_class (count_class 3) = 8" by code_simp+
  then show ?thesis using a b by simp
qed

text \<open>C38. The vectorised interest test of the maximising byte map gives the same answer, the same
  novelties and the same history as the plain one, for every map and history; the answer is whether
  some entry exceeds its history, and the novelties are those entries in order.\<close>

theorem simd_interest_equiv:
  assumes "mo_initial ob = 0"
  shows "is_interesting_u8_simd_optimized ob mf md = is_interesting_default max_reduce different_is_novel ob mf md \<and>
    (fst (is_interesting_u8_simd_optimized ob mf md) \<longleftrightarrow>
      (\<exists>i < length (mo_map ob). history_at md i < mo_map ob ! i)) \<and>
    (mf \<noteq> None \<longrightarrow> (\<exists>ns. fst (snd (is_interesting_u8_simd_optimized ob mf md)) = Some ns \<and> sorted ns \<and>
      set ns = {i. i < length (mo_map ob) \<and> history_at md i < mo_map ob ! i}))"
proof -
  have "sorted (growing ob md)" unfolding growing_def by (intro sorted_filter [of id, simplified]) simp
  moreover have "set (growing ob md) = {i. i < length (mo_map ob) \<and> history_at md i < mo_map ob ! i}"
    by (auto simp: growing_def)
  moreover have "growing ob md \<noteq> [] \<longleftrightarrow> (\<exists>i < length (mo_map ob). history_at md i < mo_map ob ! i)"
    by (simp add: growing_def filter_empty_conv Bex_def)
  ultimately show ?thesis unfolding interesting_simd interesting_default_max [OF assms] by (cases mf) simp_all
qed

theorem simd_interest_equiv_witness:
  "is_interesting_u8_simd_optimized \<lparr>mo_map = replicate 17 1, mo_initial = 0\<rparr> (Some []) (metadata_new 17) =
     is_interesting_default max_reduce different_is_novel \<lparr>mo_map = replicate 17 1, mo_initial = 0\<rparr> (Some []) (metadata_new 17)"
  using simd_interest_equiv [of "\<lparr>mo_map = replicate 17 1, mo_initial = 0\<rparr>" "Some []" "metadata_new 17"] by simp

text \<open>C39. The history of the maximising byte map: while its count of covered entries is right, adding
  a testcase succeeds, the count stays right, the history becomes the entry-wise maximum, the testcase
  lists exactly the entries it hit, and the same observation is not interesting again.\<close>

theorem history_accumulates:
  assumes "mo_initial ob = 0" "history_ok 0 md"
  shows "\<exists>mf' md' tc'. map_append_metadata max_reduce True (Ok ()) ob mf md tc = Ok (mf', md', tc') \<and> history_ok 0 md' \<and>
    length (history_map md') = max (length (mo_map ob)) (length (history_map md)) \<and>
    (\<forall>i < length (history_map md'). history_map md' ! i =
       max (history_at md i) (if i < length (mo_map ob) then mo_map ob ! i else 0)) \<and>
    tc_map_indexes tc' = Some \<lparr>mi_list = filter (\<lambda>i. mo_map ob ! i \<noteq> 0) [0..<length (mo_map ob)], tcref = 0\<rparr> \<and>
    \<not> fst (is_interesting_u8_simd_optimized ob mf'' md')"
proof -
  define md' where "md' = cover max_reduce 0 (set_entries ob) (resize_history (length (mo_map ob)) 0 md)"
  note ap = max_map.append_ok [OF assms, folded md'_def]
  note hi = max_map.history_after [OF assms(1), where md = md, folded md'_def]
  have mx: "max_reduce h x = max h x" for h x by (auto simp: max_reduce_def max_def)
  show ?thesis
  proof (intro exI conjI allI impI)
    show "map_append_metadata max_reduce True (Ok ()) ob mf md tc = Ok (map_option (\<lambda>_. []) mf, md',
      (let tc1 = (case mf of Some ns \<Rightarrow> tc\<lparr>tc_novelties := Some ns\<rparr> | None \<Rightarrow> tc)
       in if True then tc1\<lparr>tc_map_indexes := Some \<lparr>mi_list = map fst (set_entries ob), tcref = 0\<rparr>\<rparr> else tc1))" by (rule ap(1))
    show "history_ok 0 md'" by (rule ap(2))
    show "length (history_map md') = max (length (mo_map ob)) (length (history_map md))" by (rule hi(1))
    show "history_map md' ! i = max (history_at md i) (if i < length (mo_map ob) then mo_map ob ! i else 0)"
      if "i < length (history_map md')" for i
      using that hi(2) [of i] hi(3) [of i] by (cases "i < length (mo_map ob) \<and> mo_map ob ! i \<noteq> 0") (auto simp: mx max_def history_at_def)
    show "\<not> fst (is_interesting_u8_simd_optimized ob mf'' md')"
      using max_map.not_interesting_twice [OF assms(1), where md = md and mf = mf'', folded md'_def]
      unfolding interesting_simd interesting_default_max [OF assms(1)] .
    show "tc_map_indexes (let tc1 = (case mf of Some ns \<Rightarrow> tc\<lparr>tc_novelties := Some ns\<rparr> | None \<Rightarrow> tc)
      in if True then tc1\<lparr>tc_map_indexes := Some \<lparr>mi_list = map fst (set_entries ob), tcref = 0\<rparr>\<rparr> else tc1) =
      Some \<lparr>mi_list = filter (\<lambda>i. mo_map ob ! i \<noteq> 0) [0..<length (mo_map ob)], tcref = 0\<rparr>"
      by (simp add: Let_def set_entries_map assms(1) comp_def)
  qed
qed

theorem history_accumulates_witness:
  "\<exists>mf' md' tc'. map_append_metadata max_reduce True (Ok ()) \<lparr>mo_map = [0, 4], mo_initial = 0\<rparr> None (metadata_new 2) (testcase_new [1]) = Ok (mf', md', tc') \<and>
    tc_map_indexes tc' = Some \<lparr>mi_list = [1], tcref = 0\<rparr>"
proof -
  let ?ob = "\<lparr>mo_map = [0, 4], mo_initial = 0\<rparr>"
  have f: "filter (\<lambda>i. mo_map ?ob ! i \<noteq> 0) [0..<length (mo_map ?ob)] = [1]" by (simp add: upt_rec)
  have i: "mo_initial ?ob = 0" by simp
  from history_accumulates [OF i history_ok_new(1), where n1 = 2 and mf = None and tc = "testcase_new [1]" and mf'' = None, unfolded f]
  obtain mf' md' tc' where "map_append_metadata max_reduce True (Ok ()) ?ob None (metadata_new 2) (testcase_new [1]) = Ok (mf', md', tc')"
    "tc_map_indexes tc' = Some \<lparr>mi_list = [1], tcref = 0\<rparr>" by (elim exE conjE)
  then show ?thesis by (intro exI conjI)
qed

end
