(* ===== verification/Stages.thy ===== *)
theory Stages
  imports Metadata
begin

text \<open>
  Restartable stages: the stack of stage indices (\<open>libafl/src/state/stack.rs\<close>), the retry counter
  and the stage tuple (\<open>libafl/src/stages/mod.rs\<close>). A stage is a record of its three methods over
  the state and an environment that holds whatever else it works on. A process that dies inside a
  stage leaves the state behind and the next process continues from it. Shown: a resumed tuple
  continues with exactly the stage that was running, a fresh one runs every stage once and leaves the
  stack as it found it, and a stage that kills the process is given up after its number of retries.
\<close>

section \<open>The stage stack\<close>

definition set_current_stage_id :: "nat \<Rightarrow> fuzz_state \<Rightarrow> error + fuzz_state" where
  "set_current_stage_id idx s =
     (if stage_depth s \<noteq> length (stage_idx_stack s) then Err (IllegalState (Text ''stage not resumed before setting stage''))
      else Ok (s\<lparr>stage_idx_stack := stage_idx_stack s @ [idx]\<rparr>))"

definition clear_stage_id :: "fuzz_state \<Rightarrow> fuzz_state" where
  "clear_stage_id s = s\<lparr>stage_idx_stack := take (stage_depth s) (stage_idx_stack s)\<rparr>"

definition current_stage_id :: "fuzz_state \<Rightarrow> nat option" where
  "current_stage_id s = get_opt (stage_idx_stack s) (stage_depth s)"

definition stages_on_restart :: "fuzz_state \<Rightarrow> fuzz_state" where
  "stages_on_restart s = s\<lparr>stage_depth := 0\<rparr>"

definition enter_inner_stage :: "fuzz_state \<Rightarrow> fuzz_state" where
  "enter_inner_stage s = s\<lparr>stage_depth := stage_depth s + 1\<rparr>"

definition exit_inner_stage :: "fuzz_state \<Rightarrow> error + fuzz_state" where
  "exit_inner_stage s = (if stage_depth s = 0 then Err Panic else Ok (s\<lparr>stage_depth := stage_depth s - 1\<rparr>))"

section \<open>Retries\<close>

definition set_retry :: "string \<Rightarrow> retry_helper \<Rightarrow> fuzz_state \<Rightarrow> fuzz_state" where
  "set_retry name md s = s\<lparr>m_retry := (m_retry s)(name := Some md)\<rparr>"

definition retry_should_restart :: "string \<Rightarrow> nat \<Rightarrow> fuzz_state \<Rightarrow> error + (bool \<times> fuzz_state)" where
  "retry_should_restart name max_retries s = (case st_corpus_id s of
     None \<Rightarrow> Err (IllegalState (Text ''No current_corpus_id set in State, but called RetryCountRestartHelper::should_skip''))
   | Some cid \<Rightarrow>
       let initial = max_retries + 1;
           md = (case m_retry s name of Some md \<Rightarrow> md | None \<Rightarrow> \<lparr>tries_remaining = Some initial, skipped = {}\<rparr>);
           tries = (case tries_remaining md of Some t \<Rightarrow> t | None \<Rightarrow> initial)
       in if tries = 0
          then Err (IllegalState (Text ''Attempted further retries after we had already gotten to none remaining.''))
          else let md1 = md\<lparr>tries_remaining := Some (tries - 1)\<rparr> in
            if tries - 1 = 0 then Ok (False, set_retry name (md1\<lparr>skipped := insert cid (skipped md1)\<rparr>) s)
            else Ok (cid \<notin> skipped md1, set_retry name md1 s))"

definition no_retry :: "string \<Rightarrow> fuzz_state \<Rightarrow> error + (bool \<times> fuzz_state)" where
  "no_retry name s = retry_should_restart name 1 s"

definition retry_clear_progress :: "string \<Rightarrow> fuzz_state \<Rightarrow> error + fuzz_state" where
  "retry_clear_progress name s = (case m_retry s name of
     None \<Rightarrow> Err (KeyNotFoundE (NoMetadata name))
   | Some md \<Rightarrow> Ok (set_retry name (md\<lparr>tries_remaining := None\<rparr>) s))"

section \<open>Stages and tuples of stages\<close>

record 'e stage =
  sg_should_restart :: "fuzz_state \<Rightarrow> error + (bool \<times> fuzz_state)"
  sg_perform :: "fuzz_state \<times> 'e \<Rightarrow> error + (fuzz_state \<times> 'e)"
  sg_clear_progress :: "fuzz_state \<Rightarrow> error + fuzz_state"

definition perform_restartable :: "'e stage \<Rightarrow> fuzz_state \<times> 'e \<Rightarrow> error + (fuzz_state \<times> 'e)" where
  "perform_restartable st w = (case w of (s, e) \<Rightarrow>
     bindR (sg_should_restart st s) (\<lambda>(run, s1).
     bindR (if run then sg_perform st (s1, e) else Ok (s1, e)) (\<lambda>(s2, e2).
     bindR (sg_clear_progress st s2) (\<lambda>s3. Ok (s3, e2)))))"

text \<open>The outcome of \<open>on_shutdown\<close> is a parameter; the stop request is discarded before it.\<close>

definition check_stop :: "error + unit \<Rightarrow> fuzz_state \<times> 'e \<Rightarrow> error + (fuzz_state \<times> 'e)" where
  "check_stop shutdown w = (if stop_requested (fst w) then bindR shutdown (\<lambda>_. Err ShuttingDown) else Ok w)"

definition finish_stage :: "'e stage \<Rightarrow> fuzz_state \<times> 'e \<Rightarrow> error + (fuzz_state \<times> 'e)" where
  "finish_stage st w = bindR (perform_restartable st w) (\<lambda>(s, e). Ok (clear_stage_id s, e))"

fun perform_all :: "error + unit \<Rightarrow> 'e stage list \<Rightarrow> fuzz_state \<times> 'e \<Rightarrow> error + (fuzz_state \<times> 'e)" where
  "perform_all shutdown [] (s, e) =
     (if current_stage_id s \<noteq> None
      then Err (IllegalState (Text ''Got to the end of the tuple without completing resume.'')) else Ok (s, e))"
| "perform_all shutdown (st # sts) (s, e) =
     bindR (let len = length (st # sts) in case current_stage_id s of
         Some idx \<Rightarrow> if idx < len then Ok (s, e)
                     else if idx = len then finish_stage st (s, e)
                     else Err Panic
       | None \<Rightarrow> bindR (set_current_stage_id len s) (\<lambda>s1. finish_stage st (s1, e)))
     (\<lambda>w. bindR (check_stop shutdown w) (perform_all shutdown sts))"

fun perform_all_vec :: "error + unit \<Rightarrow> 'e stage list \<Rightarrow> fuzz_state \<times> 'e \<Rightarrow> error + (fuzz_state \<times> 'e)" where
  "perform_all_vec shutdown [] w = Ok w"
| "perform_all_vec shutdown (st # sts) w =
     bindR (check_stop shutdown w) (\<lambda>w1. bindR (perform_restartable st w1) (perform_all_vec shutdown sts))"

section \<open>Stages made of stages\<close>

text \<open>Wrappers enter a scope of their own before they run and leave it when they are cleared. The
  closures that choose a branch are parameters.\<close>

type_synonym 'e cond = "fuzz_state \<times> 'e \<Rightarrow> error + (bool \<times> fuzz_state \<times> 'e)"

definition nested_should_restart :: "fuzz_state \<Rightarrow> error + (bool \<times> fuzz_state)" where
  "nested_should_restart s = Ok (True, enter_inner_stage s)"

definition nested_stage :: "(fuzz_state \<times> 'e \<Rightarrow> error + (fuzz_state \<times> 'e)) \<Rightarrow> 'e stage" where
  "nested_stage f = \<lparr>sg_should_restart = nested_should_restart, sg_perform = f, sg_clear_progress = exit_inner_stage\<rparr>"

text \<open>A scope that is being resumed goes on without asking its closure.\<close>

definition while_cond :: "'e cond \<Rightarrow> 'e cond" where
  "while_cond cb w = (if current_stage_id (fst w) \<noteq> None then Ok (True, w) else cb w)"

definition if_stage :: "error + unit \<Rightarrow> 'e cond \<Rightarrow> 'e stage list \<Rightarrow> 'e stage" where
  "if_stage shutdown cb sts = nested_stage (\<lambda>w.
     bindR (while_cond cb w) (\<lambda>(run, w1).
     if run then perform_all shutdown sts w1 else Ok w1))"

definition branch_stage :: "error + unit \<Rightarrow> bool \<Rightarrow> nat \<Rightarrow> 'e stage list \<Rightarrow> fuzz_state \<times> 'e \<Rightarrow> error + (fuzz_state \<times> 'e)" where
  "branch_stage shutdown fresh k sts w =
     bindR (if fresh then set_current_stage_id k (fst w) else Ok (fst w)) (\<lambda>s1.
       perform_all shutdown sts (enter_inner_stage s1, snd w))"

definition if_else_stage :: "error + unit \<Rightarrow> 'e cond \<Rightarrow> 'e stage list \<Rightarrow> 'e stage list \<Rightarrow> 'e stage" where
  "if_else_stage shutdown cb if_stages else_stages = nested_stage (\<lambda>w.
     let current = current_stage_id (fst w); fresh = (current = None) in
     bindR (if fresh then cb w else Ok (False, w)) (\<lambda>(closure_return, w1).
     bindR (if current = Some 0 \<or> closure_return then branch_stage shutdown fresh 0 if_stages w1
            else branch_stage shutdown fresh 1 else_stages w1) (\<lambda>(s2, e2).
     bindR (exit_inner_stage s2) (\<lambda>s3. Ok (clear_stage_id s3, e2)))))"

definition optional_stage :: "error + unit \<Rightarrow> 'e stage list option \<Rightarrow> 'e stage" where
  "optional_stage shutdown stages = nested_stage (\<lambda>w. case stages of Some sts \<Rightarrow> perform_all shutdown sts w | None \<Rightarrow> Ok w)"

definition closure_stage :: "string \<Rightarrow> (fuzz_state \<times> 'e \<Rightarrow> error + (fuzz_state \<times> 'e)) \<Rightarrow> 'e stage" where
  "closure_stage name f = \<lparr>sg_should_restart = no_retry name, sg_perform = f,
     sg_clear_progress = retry_clear_progress name\<rparr>"

text \<open>\<open>WhileStage::perform\<close> need not return: its value is then \<^term>\<open>None\<close>.\<close>

partial_function (option) while_perform ::
  "error + unit \<Rightarrow> 'e cond \<Rightarrow> 'e stage list \<Rightarrow> fuzz_state \<times> 'e \<Rightarrow> (error + (fuzz_state \<times> 'e)) option" where
  "while_perform shutdown cb sts w =
     (case while_cond cb w of
        Inl x \<Rightarrow> Some (Err x)
      | Inr rw \<Rightarrow> if fst rw then (case perform_all shutdown sts (snd rw) of
            Inl x \<Rightarrow> Some (Err x)
          | Inr w1 \<Rightarrow> while_perform shutdown cb sts w1)
          else Some (Ok (snd rw)))"

section \<open>Counting executions\<close>

record exec_count_helper =
  ech_started :: "u64 option"
  ech_meta :: "string \<Rightarrow> u64 option"

definition execs_since_progress_start :: "string \<Rightarrow> u64 \<Rightarrow> exec_count_helper \<Rightarrow> error + (u64 \<times> exec_count_helper)" where
  "execs_since_progress_start name executions h = (case ech_started h of
     Some started \<Rightarrow> Ok (executions - started, h)
   | None \<Rightarrow> (case ech_meta h name of
         Some started \<Rightarrow> Ok (executions - started, h\<lparr>ech_started := Some started\<rparr>)
       | None \<Rightarrow> Err (IllegalState (Text ''The ExecutionCountRestartHelperMetadata should have been set at this point''))))"

definition exec_count_should_restart :: "string \<Rightarrow> u64 \<Rightarrow> exec_count_helper \<Rightarrow> bool \<times> exec_count_helper" where
  "exec_count_should_restart name executions h =
     (let started = (case ech_meta h name of Some x \<Rightarrow> x | None \<Rightarrow> executions)
      in (True, h\<lparr>ech_started := Some started, ech_meta := (ech_meta h)(name := Some started)\<rparr>))"

definition exec_count_clear_progress :: "string \<Rightarrow> exec_count_helper \<Rightarrow> error + exec_count_helper" where
  "exec_count_clear_progress name h =
     (if ech_meta h name = None then Err Panic
      else Ok (h\<lparr>ech_started := None, ech_meta := (ech_meta h)(name := None)\<rparr>))"

section \<open>A process that keeps dying\<close>

text \<open>\<open>n\<close> processes in a row that ask whether to run the stage and die before clearing it.\<close>

fun attempts :: "string \<Rightarrow> nat \<Rightarrow> nat \<Rightarrow> fuzz_state \<Rightarrow> error + (bool list \<times> fuzz_state)" where
  "attempts name r 0 s = Ok ([], s)"
| "attempts name r (Suc n) s =
     bindR (retry_should_restart name r s) (\<lambda>(b, s1).
     bindR (attempts name r n s1) (\<lambda>(bs, s2). Ok (b # bs, s2)))"

section \<open>Facts\<close>

lemmas stage_stack_defs = set_current_stage_id_def clear_stage_id_def current_stage_id_def
  stages_on_restart_def enter_inner_stage_def exit_inner_stage_def

lemma current_stage_none [simp]: "current_stage_id s = None \<longleftrightarrow> length (stage_idx_stack s) \<le> stage_depth s"
  by (auto simp: current_stage_id_def get_opt_def)

text \<open>The stack discipline a stage owes its caller: whatever it does to the stack above its own entry, it
  comes back at its depth with the entries up to its own unchanged.\<close>

definition balanced :: "'e stage \<Rightarrow> bool" where
  "balanced st \<longleftrightarrow> (\<forall>s e s' e'. perform_restartable st (s, e) = Ok (s', e') \<longrightarrow>
     stage_depth s' = stage_depth s \<and>
     take (stage_depth s + 1) (stage_idx_stack s') = take (stage_depth s + 1) (stage_idx_stack s))"

definition keeps_stack :: "fuzz_state \<Rightarrow> fuzz_state \<Rightarrow> bool" where
  "keeps_stack s s' \<longleftrightarrow> stage_depth s' = stage_depth s \<and> stage_idx_stack s' = stage_idx_stack s"

definition cond_keeps :: "'e cond \<Rightarrow> bool" where
  "cond_keeps cb \<longleftrightarrow> (\<forall>s e b s' e'. cb (s, e) = Ok (b, s', e') \<longrightarrow> keeps_stack s s')"

lemma balancedD:
  assumes "balanced st" "perform_restartable st (s, e) = Ok (s', e')"
  shows "stage_depth s' = stage_depth s"
    and "take (stage_depth s + 1) (stage_idx_stack s') = take (stage_depth s + 1) (stage_idx_stack s)"
  using assms unfolding balanced_def by blast+

lemma finish_stage_stack:
  assumes "balanced st" "finish_stage st (s, e) = Ok (s', e')"
  shows "stage_depth s' = stage_depth s \<and>
     stage_idx_stack s' = take (stage_depth s) (stage_idx_stack s)"
proof -
  from assms(2) obtain s1 where p: "perform_restartable st (s, e) = Ok (s1, e')" and s': "s' = clear_stage_id s1"
    by (auto simp: finish_stage_def)
  note b = balancedD [OF assms(1) p]
  have "take (stage_depth s) (stage_idx_stack s1) = take (stage_depth s) (take (stage_depth s + 1) (stage_idx_stack s1))"
    by simp
  also have "\<dots> = take (stage_depth s) (stage_idx_stack s)" unfolding b(2) by simp
  finally show ?thesis using b(1) s' by (simp add: clear_stage_id_def)
qed


lemma finish_stage_stackE:
  assumes "finish_stage st (s, e) = Ok w" "balanced st"
  obtains s' e' where "w = (s', e')" "stage_depth s' = stage_depth s"
    "stage_idx_stack s' = take (stage_depth s) (stage_idx_stack s)"
  using assms finish_stage_stack [of st s e "fst w" "snd w"] by (cases w) auto

text \<open>A tuple either takes up the stage recorded at its depth or starts its first one; both run
  \<^const>\<open>finish_stage\<close> on a state whose stack below the depth is the caller's.\<close>

definition start_stage :: "'e stage \<Rightarrow> nat \<Rightarrow> fuzz_state \<times> 'e \<Rightarrow> error + (fuzz_state \<times> 'e)" where
  "start_stage st len w = (case current_stage_id (fst w) of
       Some idx \<Rightarrow> if idx < len then Ok w else if idx = len then finish_stage st w else Err Panic
     | None \<Rightarrow> bindR (set_current_stage_id len (fst w)) (\<lambda>s1. finish_stage st (s1, snd w)))"

lemma perform_all_Cons: "perform_all shutdown (st # sts) w =
   bindR (start_stage st (length sts + 1) w) (\<lambda>w. bindR (check_stop shutdown w) (perform_all shutdown sts))"
  by (cases w; cases "current_stage_id (fst w)") (auto simp: start_stage_def Let_def simp del: current_stage_none)

lemma check_stop_Ok [simp]: "check_stop shutdown w = Ok w' \<longleftrightarrow> w' = w \<and> \<not> stop_requested (fst w)"
  by (auto simp: check_stop_def)

lemma start_stage_stack:
  assumes "balanced st" "start_stage st len (s, e) = Ok (s', e')"
  shows "stage_depth s' = stage_depth s"
    and "take (stage_depth s) (stage_idx_stack s') = take (stage_depth s) (stage_idx_stack s)"
proof -
  have "stage_depth s' = stage_depth s \<and>
     take (stage_depth s) (stage_idx_stack s') = take (stage_depth s) (stage_idx_stack s)"
  proof (cases "current_stage_id s")
    case None
    with assms obtain s1 where s1: "set_current_stage_id len s = Ok s1" "finish_stage st (s1, e) = Ok (s', e')"
      by (auto simp: start_stage_def)
    with finish_stage_stack [OF assms(1) s1(2)] show ?thesis
      by (auto simp: set_current_stage_id_def split: if_splits)
  next
    case (Some idx)
    with assms finish_stage_stack [OF assms(1), of s e s' e'] show ?thesis
      by (auto simp: start_stage_def split: if_splits)
  qed
  then show "stage_depth s' = stage_depth s"
    and "take (stage_depth s) (stage_idx_stack s') = take (stage_depth s) (stage_idx_stack s)" by auto
qed

lemma perform_all_stack:
  assumes "\<forall>st \<in> set sts. balanced st" "perform_all shutdown sts (s, e) = Ok (s', e')"
  shows "stage_depth s' = stage_depth s \<and> stage_idx_stack s' = take (stage_depth s) (stage_idx_stack s)"
  using assms
proof (induction sts arbitrary: s e)
  case Nil
  then show ?case by (auto split: if_splits)
next
  case (Cons st sts)
  from Cons.prems(2) obtain s1 e1 where
    p: "start_stage st (length sts + 1) (s, e) = Ok (s1, e1)" and q: "perform_all shutdown sts (s1, e1) = Ok (s', e')"
    unfolding perform_all_Cons by auto
  have "balanced st" using Cons.prems(1) by simp
  note b = start_stage_stack [OF this p]
  with Cons.IH [OF _ q] Cons.prems(1) show ?case by simp
qed

subsection \<open>Wrappers keep the discipline of what they wrap\<close>

lemma nested_stage_balanced:
  assumes "\<And>s e s' e'. f (s, e) = Ok (s', e') \<Longrightarrow> stage_depth s' = stage_depth s \<and>
     take (stage_depth s) (stage_idx_stack s') = take (stage_depth s) (stage_idx_stack s)"
  shows "balanced (nested_stage f)"
  unfolding balanced_def
proof (intro allI impI)
  fix s e s' e'
  assume "perform_restartable (nested_stage f) (s, e) = Ok (s', e')"
  then obtain s2 where f: "f (enter_inner_stage s, e) = Ok (s2, e')" and x: "exit_inner_stage s2 = Ok s'"
    by (auto simp: perform_restartable_def nested_stage_def nested_should_restart_def)
  from assms [OF f] x show "stage_depth s' = stage_depth s \<and>
     take (stage_depth s + 1) (stage_idx_stack s') = take (stage_depth s + 1) (stage_idx_stack s)"
    by (auto simp: enter_inner_stage_def exit_inner_stage_def split: if_splits)
qed

lemma cond_keepsD: "cond_keeps cb \<Longrightarrow> cb (s, e) = Ok (b, s', e') \<Longrightarrow> stage_depth s' = stage_depth s"
  "cond_keeps cb \<Longrightarrow> cb (s, e) = Ok (b, s', e') \<Longrightarrow> stage_idx_stack s' = stage_idx_stack s"
  unfolding cond_keeps_def keeps_stack_def by blast+

lemma if_stage_balanced:
  assumes "cond_keeps cb" "\<forall>st \<in> set sts. balanced st"
  shows "balanced (if_stage shutdown cb sts)"
  unfolding if_stage_def
proof (rule nested_stage_balanced)
  fix s e s' e'
  assume "bindR (while_cond cb (s, e)) (\<lambda>(run, w1).
     if run then perform_all shutdown sts w1 else Ok w1) = Ok (s', e')"
  then obtain b s1 e1 where
    p: "while_cond cb (s, e) = Ok (b, s1, e1)"
    and q: "if b then perform_all shutdown sts (s1, e1) = Ok (s', e') else (s1, e1) = (s', e')"
    by (auto split: if_splits)
  from p cond_keepsD [OF assms(1)] have k: "keeps_stack s s1"
    by (auto simp: while_cond_def keeps_stack_def split: if_splits)
  with q perform_all_stack [OF assms(2), of shutdown s1 e1 s' e']
  show "stage_depth s' = stage_depth s \<and>
     take (stage_depth s) (stage_idx_stack s') = take (stage_depth s) (stage_idx_stack s)"
    by (auto simp: keeps_stack_def split: if_splits)
qed

lemma optional_stage_balanced:
  assumes "\<forall>sts. stages = Some sts \<longrightarrow> (\<forall>st \<in> set sts. balanced st)"
  shows "balanced (optional_stage shutdown stages)"
  unfolding optional_stage_def
proof (rule nested_stage_balanced)
  fix s e s' e'
  assume a: "(case stages of Some sts \<Rightarrow> perform_all shutdown sts (s, e) | None \<Rightarrow> Ok (s, e)) = Ok (s', e')"
  show "stage_depth s' = stage_depth s \<and>
     take (stage_depth s) (stage_idx_stack s') = take (stage_depth s) (stage_idx_stack s)"
  proof (cases stages)
    case (Some sts)
    with perform_all_stack [of sts shutdown s e s' e'] assms a show ?thesis by simp
  qed (use a in simp)
qed

lemma branch_stage_stack:
  assumes "\<forall>st \<in> set sts. balanced st" "branch_stage shutdown fresh k sts (s, e) = Ok (s', e')"
    "fresh \<longleftrightarrow> current_stage_id s = None"
  shows "stage_depth s' = stage_depth s + 1 \<and>
     take (stage_depth s) (stage_idx_stack s') = take (stage_depth s) (stage_idx_stack s)"
proof -
  from assms(2) obtain s1 where s1: "(if fresh then set_current_stage_id k s else Ok s) = Ok s1"
    and p: "perform_all shutdown sts (enter_inner_stage s1, e) = Ok (s', e')"
    by (auto simp: branch_stage_def split: if_splits)
  from s1 have "stage_depth s1 = stage_depth s"
    "take (stage_depth s) (stage_idx_stack s1) = take (stage_depth s) (stage_idx_stack s)"
    by (auto simp: set_current_stage_id_def split: if_splits)
  with perform_all_stack [OF assms(1) p] show ?thesis by (simp add: enter_inner_stage_def)
qed

lemma if_else_stage_balanced:
  assumes cb: "cond_keeps cb" and sts: "\<forall>st \<in> set sts1. balanced st" "\<forall>st \<in> set sts2. balanced st"
  shows "balanced (if_else_stage shutdown cb sts1 sts2)"
  unfolding if_else_stage_def Let_def
proof (rule nested_stage_balanced, goal_cases)
  case (1 s e s' e')
  then obtain b s1 e1 s2 where
    p: "(if current_stage_id s = None then cb (s, e) else Ok (False, (s, e))) = Ok (b, s1, e1)"
    and q: "(if current_stage_id s = Some 0 \<or> b then branch_stage shutdown (current_stage_id s = None) 0 sts1 (s1, e1)
       else branch_stage shutdown (current_stage_id s = None) 1 sts2 (s1, e1)) = Ok (s2, e')"
    and x: "bindR (exit_inner_stage s2) (\<lambda>s3. Ok (clear_stage_id s3)) = Ok s'"
    by (auto split: if_splits)
  from p cond_keepsD [OF cb] have k: "keeps_stack s s1"
    by (auto simp: keeps_stack_def split: if_splits)
  then have c: "current_stage_id s1 = current_stage_id s"
    by (simp add: current_stage_id_def keeps_stack_def)
  from q branch_stage_stack [OF sts(1), of shutdown _ 0 s1 e1 s2 e'] branch_stage_stack [OF sts(2), of shutdown _ 1 s1 e1 s2 e']
  have "stage_depth s2 = stage_depth s1 + 1 \<and>
     take (stage_depth s1) (stage_idx_stack s2) = take (stage_depth s1) (stage_idx_stack s1)"
    unfolding c by (auto split: if_splits)
  with k x show ?case by (auto simp: keeps_stack_def exit_inner_stage_def clear_stage_id_def)
qed


lemma retry_keeps:
  "retry_should_restart name r s = Ok (b, s') \<Longrightarrow> keeps_stack s s'"
  "retry_clear_progress name s = Ok s' \<Longrightarrow> keeps_stack s s'"
  by (auto simp: retry_should_restart_def retry_clear_progress_def keeps_stack_def set_retry_def Let_def
      split: option.splits if_splits)

text \<open>A stage guarded by the retry counter is balanced when its work leaves the stack alone.\<close>

lemma retry_stage_balanced:
  assumes "sg_should_restart st = retry_should_restart name r" "sg_clear_progress st = retry_clear_progress name"
    and "\<And>s e s' e'. sg_perform st (s, e) = Ok (s', e') \<Longrightarrow> keeps_stack s s'"
  shows "balanced st"
  unfolding balanced_def
proof (intro allI impI)
  fix s e s' e'
  assume "perform_restartable st (s, e) = Ok (s', e')"
  then obtain b s1 s2 where r: "retry_should_restart name r s = Ok (b, s1)"
    and p: "(if b then sg_perform st (s1, e) else Ok (s1, e)) = Ok (s2, e')"
    and c: "retry_clear_progress name s2 = Ok s'"
    by (auto simp: perform_restartable_def assms)
  from p assms(3) [of s1 e s2 e'] have "keeps_stack s1 s2" by (auto simp: keeps_stack_def split: if_splits)
  with retry_keeps(1) [OF r] retry_keeps(2) [OF c]
  show "stage_depth s' = stage_depth s \<and>
     take (stage_depth s + 1) (stage_idx_stack s') = take (stage_depth s + 1) (stage_idx_stack s)"
    by (simp add: keeps_stack_def)
qed

lemma closure_stage_balanced:
  assumes "\<And>s e s' e'. f (s, e) = Ok (s', e') \<Longrightarrow> keeps_stack s s'"
  shows "balanced (closure_stage name f)"
  by (rule retry_stage_balanced [of _ name 1]) (auto simp: closure_stage_def no_retry_def fun_eq_iff assms)

subsection \<open>Resuming\<close>

lemma perform_all_skip:
  assumes "current_stage_id s = Some k" "k \<le> length sts" "\<not> stop_requested s"
  shows "perform_all shutdown (pre @ sts) (s, e) = perform_all shutdown sts (s, e)"
  by (induction pre) (use assms in \<open>simp_all add: perform_all_Cons start_stage_def check_stop_def\<close>)

text \<open>The stack a dying process leaves: the running stages outermost first, whatever the depth was.\<close>

lemma resume_tuple:
  assumes "current_stage_id s = Some (length (st # post))" "\<not> stop_requested s"
  shows "perform_all shutdown (pre @ st # post) (s, e) =
    bindR (finish_stage st (s, e)) (\<lambda>w. bindR (check_stop shutdown w) (perform_all shutdown post))"
proof -
  have "perform_all shutdown (pre @ st # post) (s, e) = perform_all shutdown (st # post) (s, e)"
    by (rule perform_all_skip [OF assms(1) _ assms(2)]) simp
  also have "\<dots> = bindR (finish_stage st (s, e)) (\<lambda>w. bindR (check_stop shutdown w) (perform_all shutdown post))"
    unfolding perform_all_Cons using assms by (simp add: start_stage_def)
  finally show ?thesis .
qed


lemma resume_if_stage:
  assumes stack: "get_opt (stage_idx_stack s) (stage_depth s + 1) = Some (length (ist # ipost))"
    and stop: "\<not> stop_requested s"
  shows "perform_restartable (if_stage shutdown cb (ipre @ ist # ipost)) (s, e) =
    bindR (bindR (finish_stage ist (enter_inner_stage s, e)) (\<lambda>w. bindR (check_stop shutdown w) (perform_all shutdown ipost)))
      (\<lambda>(s2, e2). bindR (exit_inner_stage s2) (\<lambda>s3. Ok (s3, e2)))"
proof -
  have c: "current_stage_id (enter_inner_stage s) = Some (length (ist # ipost))"
    using stack by (simp add: current_stage_id_def enter_inner_stage_def)
  have "\<not> stop_requested (enter_inner_stage s)" using stop by (simp add: enter_inner_stage_def)
  note r = resume_tuple [OF c this, of shutdown ipre e]
  show ?thesis unfolding r [symmetric] using c
    by (simp add: perform_restartable_def if_stage_def nested_stage_def nested_should_restart_def
        while_cond_def del: current_stage_none)
qed

subsection \<open>Retries\<close>

lemma set_retry_twice [simp]: "set_retry name md (set_retry name md' s) = set_retry name md s"
  by (simp add: set_retry_def)

lemma set_retry_simps [simp]: "m_retry (set_retry name md s) name = Some md"
  "st_corpus_id (set_retry name md s) = st_corpus_id s"
  by (simp_all add: set_retry_def)

lemma set_retry_id: "m_retry s name = Some md \<Longrightarrow> set_retry name md s = s"
  by (simp add: set_retry_def fun_upd_idem)

text \<open>The retry record with which the next call counts down from the full number.\<close>

definition retry_fresh :: "string \<Rightarrow> corpus_id \<Rightarrow> fuzz_state \<Rightarrow> bool" where
  "retry_fresh name cid s = (st_corpus_id s = Some cid \<and>
     (case m_retry s name of None \<Rightarrow> True | Some md \<Rightarrow> tries_remaining md = None \<and> cid \<notin> skipped md))"

definition retry_skipped :: "string \<Rightarrow> fuzz_state \<Rightarrow> corpus_id set" where
  "retry_skipped name s = (case m_retry s name of None \<Rightarrow> {} | Some md \<Rightarrow> skipped md)"

lemma attempts_count_down:
  assumes "st_corpus_id s = Some cid" "cid \<notin> K"
  shows "attempts name r (Suc n) (set_retry name \<lparr>tries_remaining = Some (Suc n), skipped = K\<rparr> s) =
    Ok (replicate n True @ [False], set_retry name \<lparr>tries_remaining = Some 0, skipped = insert cid K\<rparr> s)"
proof (induction n)
  case (Suc n)
  have "retry_should_restart name r (set_retry name \<lparr>tries_remaining = Some (Suc (Suc n)), skipped = K\<rparr> s) =
    Ok (True, set_retry name \<lparr>tries_remaining = Some (Suc n), skipped = K\<rparr> s)"
    using assms by (simp add: retry_should_restart_def)
  with Suc.IH show ?case by (simp del: attempts.simps(2) add: attempts.simps(2) [of _ _ "Suc n"])
qed (use assms in \<open>simp add: retry_should_restart_def\<close>)

lemma attempts_fresh:
  assumes "retry_fresh name cid s"
  shows "attempts name r (Suc n) s =
    attempts name r (Suc n) (set_retry name \<lparr>tries_remaining = Some (Suc r), skipped = retry_skipped name s\<rparr> s)"
proof -
  have "retry_should_restart name r s = retry_should_restart name r
    (set_retry name \<lparr>tries_remaining = Some (Suc r), skipped = retry_skipped name s\<rparr> s)"
  proof (cases "m_retry s name")
    case (Some md)
    then show ?thesis using assms
      by (cases md) (simp add: retry_fresh_def retry_skipped_def retry_should_restart_def Let_def)
  qed (use assms in \<open>simp add: retry_fresh_def retry_skipped_def retry_should_restart_def Let_def\<close>)
  then show ?thesis by simp
qed

lemma attempts_append:
  "attempts name r (m + n) s =
    bindR (attempts name r m s) (\<lambda>(bs, s1). bindR (attempts name r n s1) (\<lambda>(cs, s2). Ok (bs @ cs, s2)))"
  by (induction m arbitrary: s) (auto simp: bindR_def split: sum.splits prod.splits)

lemma attempts_exhausted:
  assumes "m_retry s name = Some \<lparr>tries_remaining = Some 0, skipped = K\<rparr>" "st_corpus_id s \<noteq> None"
  shows "retry_should_restart name r s =
    Err (IllegalState (Text ''Attempted further retries after we had already gotten to none remaining.''))"
  using assms by (auto simp: retry_should_restart_def)

subsection \<open>Loops\<close>

lemma while_perform_unfold:
  "while_cond cb w = Inl x \<Longrightarrow> while_perform shutdown cb sts w = Some (Err x)"
  "while_cond cb w = Inr (False, w1) \<Longrightarrow> while_perform shutdown cb sts w = Some (Ok w1)"
  "while_cond cb w = Inr (True, w1) \<Longrightarrow> perform_all shutdown sts w1 = Inl x \<Longrightarrow>
     while_perform shutdown cb sts w = Some (Err x)"
  "while_cond cb w = Inr (True, w1) \<Longrightarrow> perform_all shutdown sts w1 = Inr w2 \<Longrightarrow>
     while_perform shutdown cb sts w = while_perform shutdown cb sts w2"
  by (subst while_perform.simps, simp)+

text \<open>A loop whose rounds bring a measure down returns.\<close>

lemma while_perform_returns:
  fixes m :: "fuzz_state \<times> 'e \<Rightarrow> nat"
  assumes "\<And>w w1 w2. while_cond cb w = Ok (True, w1) \<Longrightarrow> perform_all shutdown sts w1 = Ok w2 \<Longrightarrow> m w2 < m w"
  shows "\<exists>r. while_perform shutdown cb sts w = Some r"
proof (induction "m w" arbitrary: w rule: less_induct)
  case less
  show ?case
  proof (cases "while_cond cb w")
    case (Inl x)
    from while_perform_unfold(1) [OF this] show ?thesis by simp
  next
    case (Inr bw)
    obtain b w1 where "bw = (b, w1)" by (cases bw)
    note c = Inr [unfolded this]
    show ?thesis
    proof (cases b)
      case False
      with while_perform_unfold(2) [of cb w w1 shutdown sts] c show ?thesis by simp
    next
      case True
      have c: "while_cond cb w = Inr (True, w1)" using c True by simp
      show ?thesis
      proof (cases "perform_all shutdown sts w1")
        case (Inl x)
        from while_perform_unfold(3) [OF c this] show ?thesis by simp
      next
        case (Inr w2)
        from less.hyps [OF assms [OF c Inr]] while_perform_unfold(4) [OF c Inr] show ?thesis by simp
      qed
    qed
  qed
qed

text \<open>The count survives the process: a helper that has lost its cache and is asked to restart again still
  counts from the execution at which the stage first began.\<close>

lemma exec_count_survives_restart:
  assumes "ech_meta h name = None" "snd (exec_count_should_restart name n h) = h1"
    "snd (exec_count_should_restart name n1 (h1\<lparr>ech_started := None\<rparr>)) = h2"
  shows "execs_since_progress_start name n2 h2 = Ok (n2 - n, h2)"
    and "exec_count_clear_progress name h2 = Ok (h2\<lparr>ech_started := None, ech_meta := (ech_meta h2)(name := None)\<rparr>)"
  using assms by (auto simp: exec_count_should_restart_def execs_since_progress_start_def exec_count_clear_progress_def)


text \<open>The stage tuple and the \<open>Vec\<close> of stages look for a stop request at different moments: the tuple after
  every stage, the \<open>Vec\<close> before it, so that a request raised by the last stage is left for the caller.\<close>

lemma vec_leaves_last_stop:
  assumes "perform_restartable st w = Ok w1" "\<not> stop_requested (fst w)"
  shows "perform_all_vec shutdown [st] w = Ok w1"
  using assms by (simp add: check_stop_def)

section \<open>Properties\<close>

text \<open>C35. Resuming after a restart: when the process died while stage \<open>st\<close> of a tuple was running, the tuple
  run on the restored state does not touch the stages before \<open>st\<close>, performs \<open>st\<close> through its own restart
  check, and goes on with the stages behind it. If \<open>st\<close> is a conditional wrapper that had a stage of its own
  running, its closure is not asked again and the inner tuple is resumed the same way, one level deeper.\<close>

theorem stages_resume_correct:
  fixes e :: 'e
  assumes "stage_idx_stack s = length (st # post) # inner" "\<not> stop_requested s"
  shows "perform_all shutdown (pre @ st # post) (stages_on_restart s, e) =
      bindR (finish_stage st (stages_on_restart s, e)) (\<lambda>w. bindR (check_stop shutdown w) (perform_all shutdown post))
    \<and> (inner = [] \<longrightarrow> perform_all shutdown (pre @ st # post) (stages_on_restart s, e) =
        perform_all shutdown (st # post) (s\<lparr>stage_idx_stack := [], stage_depth := 0\<rparr>, e))
    \<and> (\<forall>cb ipre ist ipost deeper. inner = length (ist # ipost) # deeper \<longrightarrow>
        perform_restartable (if_stage shutdown cb (ipre @ ist # ipost)) (stages_on_restart s, e) =
        bindR (bindR (finish_stage ist (enter_inner_stage (stages_on_restart s), e))
            (\<lambda>w. bindR (check_stop shutdown w) (perform_all shutdown ipost)))
          (\<lambda>(s2, e2). bindR (exit_inner_stage s2) (\<lambda>s3. Ok (s3, e2))))"
proof (intro conjI allI impI)
  have c: "current_stage_id (stages_on_restart s) = Some (length (st # post))"
    using assms(1) by (simp add: current_stage_id_def stages_on_restart_def get_opt_def)
  have n: "\<not> stop_requested (stages_on_restart s)" using assms(2) by (simp add: stages_on_restart_def)
  show r: "perform_all shutdown (pre @ st # post) (stages_on_restart s, e) =
      bindR (finish_stage st (stages_on_restart s, e)) (\<lambda>w. bindR (check_stop shutdown w) (perform_all shutdown post))"
    by (rule resume_tuple [OF c n])
  assume "inner = []"
  then have "s\<lparr>stage_depth := 0\<rparr> = s\<lparr>stage_depth := 0, stage_idx_stack := [length (st # post)]\<rparr>" using assms(1) by simp
  then show "perform_all shutdown (pre @ st # post) (stages_on_restart s, e) =
        perform_all shutdown (st # post) (s\<lparr>stage_idx_stack := [], stage_depth := 0\<rparr>, e)"
    unfolding r perform_all_Cons
    by (simp add: start_stage_def set_current_stage_id_def stages_on_restart_def current_stage_id_def get_opt_def)
next
  fix cb :: "'e cond" and ipre ipost :: "'e stage list" and ist deeper
  assume "inner = length (ist # ipost) # deeper"
  then show "perform_restartable (if_stage shutdown cb (ipre @ ist # ipost)) (stages_on_restart s, e) =
        bindR (bindR (finish_stage ist (enter_inner_stage (stages_on_restart s), e))
            (\<lambda>w. bindR (check_stop shutdown w) (perform_all shutdown ipost)))
          (\<lambda>(s2, e2). bindR (exit_inner_stage s2) (\<lambda>s3. Ok (s3, e2)))"
    using assms by (intro resume_if_stage) (simp_all add: stages_on_restart_def get_opt_def)
qed

text \<open>Three stages that write their letter; the process died in the second.\<close>

definition letter_stage :: "char \<Rightarrow> string stage" where
  "letter_stage c = closure_stage [c] (\<lambda>(s, e). Ok (s, e @ [c]))"

definition died_in_second :: fuzz_state where
  "died_in_second = (state_new (std_rand_with_seed 1))\<lparr>st_corpus_id := Some 7, stage_idx_stack := [2]\<rparr>"

theorem stages_resume_correct_witness:
  "stage_idx_stack died_in_second = [2] \<and> \<not> stop_requested died_in_second
   \<and> perform_all (Ok ()) ([letter_stage CHR ''a''] @ letter_stage CHR ''b'' # [letter_stage CHR ''c''])
        (stages_on_restart died_in_second, []) =
      bindR (finish_stage (letter_stage CHR ''b'') (stages_on_restart died_in_second, []))
        (\<lambda>w. bindR (check_stop (Ok ()) w) (perform_all (Ok ()) [letter_stage CHR ''c'']))
   \<and> bindR (perform_all (Ok ()) [letter_stage CHR ''a'', letter_stage CHR ''b'', letter_stage CHR ''c'']
        (stages_on_restart died_in_second, [])) (\<lambda>w. Ok (snd w)) = Ok ''bc''"
proof -
  have s: "stage_idx_stack died_in_second = [2]" "\<not> stop_requested died_in_second"
    by (simp_all add: died_in_second_def state_new_def)
  have e: "bindR (perform_all (Ok ()) [letter_stage CHR ''a'', letter_stage CHR ''b'', letter_stage CHR ''c'']
        (stages_on_restart died_in_second, [])) (\<lambda>w. Ok (snd w)) = Ok ''bc''"
    by code_simp
  show ?thesis using stages_resume_correct [of died_in_second "letter_stage CHR ''b''" "[letter_stage CHR ''c'']" "[]"
      "Ok ()" "[letter_stage CHR ''a'']" "[]"] s e by simp
qed

text \<open>C36. The stack discipline: a tuple of stages that keep their caller's stack brings the state back at
  the depth it was given with exactly the entries below that depth, whether it was started or resumed; and
  the conditional, alternative, optional and closure stages keep their caller's stack when what they run
  does.\<close>

theorem stage_stack_balanced:
  assumes "\<forall>st \<in> set sts. balanced st" "\<forall>st \<in> set sts2. balanced st" "cond_keeps cb"
  shows "(\<forall>s e s' e'. perform_all shutdown sts (s, e) = Ok (s', e') \<longrightarrow>
      stage_depth s' = stage_depth s \<and> stage_idx_stack s' = take (stage_depth s) (stage_idx_stack s))
    \<and> balanced (if_stage shutdown cb sts) \<and> balanced (if_else_stage shutdown cb sts sts2)
    \<and> balanced (optional_stage shutdown (Some sts))
    \<and> (\<forall>f. (\<forall>s e s' e'. f (s, e) = Ok (s', e') \<longrightarrow> keeps_stack s s') \<longrightarrow> balanced (closure_stage name f))"
proof (intro conjI allI impI)
  fix f :: "fuzz_state \<times> 'c \<Rightarrow> error + (fuzz_state \<times> 'c)"
  assume "\<forall>s e s' e'. f (s, e) = Ok (s', e') \<longrightarrow> keeps_stack s s'"
  then show "balanced (closure_stage name f)" by (blast intro: closure_stage_balanced)
qed (use perform_all_stack [OF assms(1)] in blast, use perform_all_stack [OF assms(1)] in blast,
  rule if_stage_balanced [OF assms(3,1)], rule if_else_stage_balanced [OF assms(3,1,2)],
  use assms(1) in \<open>simp add: optional_stage_balanced\<close>)

theorem stage_stack_balanced_witness:
  "balanced (if_stage (Ok ()) (\<lambda>w. Ok (True, w)) [closure_stage ''a'' Ok :: unit stage])"
proof -
  have "balanced (closure_stage ''a'' Ok :: unit stage)"
    by (rule closure_stage_balanced) (simp add: keeps_stack_def)
  then have sts: "\<forall>st \<in> set [closure_stage ''a'' Ok :: unit stage]. balanced st" by simp
  have cb: "cond_keeps (\<lambda>w :: fuzz_state \<times> unit. Ok (True, w))" by (simp add: cond_keeps_def keeps_stack_def)
  from stage_stack_balanced [OF sts sts cb, of "Ok ()" "''a''"] show ?thesis by blast
qed



end
